(* ===== verification/Rust_Prelude.thy ===== *)
theory Rust_Prelude
  imports Main "HOL-Library.Word"
begin

text \<open>
  What every component of the development shares: results, options and checked arithmetic of
  Rust, its UTF-8 strings, the JSON values of \<open>serde_json\<close>, and the generic lemmas and
  collections of facts the component theories use.

  \<^item> \<open>Result<T, String>\<close> is the sum \<open>string + 'a\<close>: \<open>Inl\<close> an error message, \<open>Inr\<close> a value.
    The \<open>?\<close> operator is \<^term>\<open>bindR\<close>.
  \<^item> A \<open>String\<close> is the list of its UTF-8 bytes (\<open>char\<close> is a byte), so \<open>length\<close> is Rust's
    \<open>len()\<close>; \<open>chars\<close> splits it into its Unicode scalar values.
  \<^item> \<open>u64\<close> and \<open>u32\<close> are machine words; \<open>usize\<close> lengths of lists are natural numbers.
\<close>

section \<open>Results and options\<close>

type_synonym 'a res = "string + 'a"

named_theorems res_simps \<open>unfolding the result combinators\<close>

definition bindR :: "'e + 'a \<Rightarrow> ('a \<Rightarrow> 'e + 'b) \<Rightarrow> 'e + 'b" where
  "bindR m f = (case m of Inl e \<Rightarrow> Inl e | Inr x \<Rightarrow> f x)"

definition ok_or :: "'e \<Rightarrow> 'a option \<Rightarrow> 'e + 'a" where
  "ok_or e m = (case m of None \<Rightarrow> Inl e | Some x \<Rightarrow> Inr x)"

definition is_ok :: "'e + 'a \<Rightarrow> bool" where
  "is_ok m = (case m of Inl _ \<Rightarrow> False | Inr _ \<Rightarrow> True)"

definition unwrap_or :: "'a \<Rightarrow> 'a option \<Rightarrow> 'a" where
  "unwrap_or d m = (case m of None \<Rightarrow> d | Some x \<Rightarrow> x)"

definition filter_opt :: "('a \<Rightarrow> bool) \<Rightarrow> 'a option \<Rightarrow> 'a option" where
  "filter_opt P m = (case m of None \<Rightarrow> None | Some x \<Rightarrow> if P x then Some x else None)"

lemma bindR_simps [simp, res_simps]:
  "bindR (Inl e) f = Inl e" "bindR (Inr x) f = f x"
  by (simp_all add: bindR_def)

lemma ok_or_simps [simp, res_simps]:
  "ok_or e None = Inl e" "ok_or e (Some x) = Inr x"
  by (simp_all add: ok_or_def)

lemma is_ok_simps [simp, res_simps]:
  "is_ok (Inl e) = False" "is_ok (Inr x) = True"
  by (simp_all add: is_ok_def)

lemma unwrap_or_simps [simp]:
  "unwrap_or d None = d" "unwrap_or d (Some x) = x"
  by (simp_all add: unwrap_or_def)

lemma filter_opt_simps [simp]:
  "filter_opt P None = None" "filter_opt P (Some x) = (if P x then Some x else None)"
  by (simp_all add: filter_opt_def)

lemma bindR_Inr_iff: "bindR m f = Inr y \<longleftrightarrow> (\<exists>x. m = Inr x \<and> f x = Inr y)"
  by (cases m) auto

lemma bindR_Inl_iff: "bindR m f = Inl e \<longleftrightarrow> m = Inl e \<or> (\<exists>x. m = Inr x \<and> f x = Inl e)"
  by (cases m) auto

lemma ok_or_Inr_iff: "ok_or e m = Inr x \<longleftrightarrow> m = Some x"
  by (cases m) auto

lemma ok_or_Inl_iff: "ok_or e m = Inl e' \<longleftrightarrow> m = None \<and> e' = e"
  by (cases m) auto

lemma is_ok_iff: "is_ok m \<longleftrightarrow> (\<exists>x. m = Inr x)"
  by (cases m) auto

lemma filter_opt_Some_iff: "filter_opt P m = Some x \<longleftrightarrow> m = Some x \<and> P x"
  by (cases m) auto

lemmas result_iffs = bindR_Inr_iff bindR_Inl_iff ok_or_Inr_iff ok_or_Inl_iff filter_opt_Some_iff

text \<open>A loop of fallible steps: it stops at the first error, as \<open>?\<close> in a \<open>for\<close> loop does.\<close>

fun foldR :: "('c \<Rightarrow> 's \<Rightarrow> 'e + 's) \<Rightarrow> 'c list \<Rightarrow> 's \<Rightarrow> 'e + 's" where
  "foldR f [] s = Inr s"
| "foldR f (c # cs) s = bindR (f c s) (foldR f cs)"

lemma foldR_append: "foldR f (xs @ ys) s = bindR (foldR f xs s) (foldR f ys)"
proof (induction xs arbitrary: s)
  case Nil
  show ?case by simp
next
  case (Cons x xs)
  then show ?case by (cases "f x s") auto
qed

lemma foldR_invariant:
  assumes "foldR f cs s = Inr t" and "P s"
    and "\<And>c s t. c \<in> set cs \<Longrightarrow> P s \<Longrightarrow> f c s = Inr t \<Longrightarrow> P t"
  shows "P t"
  using assms
proof (induction cs arbitrary: s)
  case Nil
  then show ?case by simp
next
  case (Cons c cs)
  then obtain u where "f c s = Inr u" and "foldR f cs u = Inr t"
    by (auto simp: bindR_Inr_iff)
  with Cons show ?case by (meson list.set_intros)
qed

fun mapR :: "('a \<Rightarrow> 'e + 'b) \<Rightarrow> 'a list \<Rightarrow> 'e + 'b list" where
  "mapR f [] = Inr []"
| "mapR f (x # xs) = bindR (f x) (\<lambda>y. bindR (mapR f xs) (\<lambda>ys. Inr (y # ys)))"

lemma mapR_length: "mapR f xs = Inr ys \<Longrightarrow> length ys = length xs"
  by (induction xs arbitrary: ys) (auto simp: bindR_Inr_iff)

lemma mapR_forall:
  "mapR f xs = Inr ys \<Longrightarrow> y \<in> set ys \<Longrightarrow> \<exists>x\<in>set xs. f x = Inr y"
  by (induction xs arbitrary: ys) (auto simp: bindR_Inr_iff)

section \<open>Machine integers\<close>

type_synonym u64 = "64 word"
type_synonym u32 = "32 word"

definition sat_add :: "'a::len word \<Rightarrow> 'a word \<Rightarrow> 'a word" where
  "sat_add a b = (if unat a + unat b < 2 ^ LENGTH('a) then a + b else - 1)"

definition checked_add :: "'a::len word \<Rightarrow> 'a word \<Rightarrow> 'a word option" where
  "checked_add a b = (if unat a + unat b < 2 ^ LENGTH('a) then Some (a + b) else None)"

text \<open>Evaluation without the number \<open>2 ^ w\<close>.\<close>

lemma sat_add_code [code]: "sat_add a b = (if a \<le> a + b then a + b else - 1)"
  by (simp add: sat_add_def no_olen_add_nat)

lemma checked_add_code [code]: "checked_add a b = (if a \<le> a + b then Some (a + b) else None)"
  by (simp add: checked_add_def no_olen_add_nat)

lemma unat_sat_add: "unat (sat_add a b) = min (unat a + unat b) (2 ^ LENGTH('a) - 1)"
  for a b :: "'a::len word"
  by (auto simp: sat_add_def unat_word_ariths unsigned_minus_1_eq_mask mask_eq_exp_minus_1)

lemma checked_add_Some: "checked_add a b = Some c \<Longrightarrow> unat c = unat a + unat b"
  by (auto simp: checked_add_def unat_word_ariths split: if_splits)

lemma checked_add_one_iff: "checked_add a 1 = Some b \<longleftrightarrow> unat b = unat (a :: 'a :: len word) + 1"
proof
  assume b: "unat b = unat a + 1"
  have "unat b < 2 ^ LENGTH('a)" by (rule unsigned_less)
  then have less: "unat a + unat (1 :: 'a word) < 2 ^ LENGTH('a)" unfolding b by simp
  with b have "unat (a + 1) = unat b" by (simp add: unat_word_ariths)
  then have "a + 1 = b" by (simp add: word_unat_eq_iff)
  with less show "checked_add a 1 = Some b" unfolding checked_add_def by simp
qed (auto dest: checked_add_Some)

lemma checked_add_sat: "checked_add a b = Some c \<Longrightarrow> sat_add a b = c"
  by (auto simp: checked_add_def sat_add_def split: if_splits)

section \<open>Strings\<close>

text \<open>
  The bytes \<open>10xxxxxx\<close> of UTF-8 continue a scalar value; every other byte starts one. On valid
  UTF-8, which a Rust \<open>String\<close> always is, \<open>chars\<close> is the list of the encodings of its \<open>char\<close>s.
\<close>

definition is_cont :: "char \<Rightarrow> bool" where
  "is_cont c = (128 \<le> (of_char c :: nat) \<and> (of_char c :: nat) < 192)"

function chars :: "string \<Rightarrow> string list" where
  "chars [] = []"
| "chars (c # cs) = (c # takeWhile is_cont cs) # chars (dropWhile is_cont cs)"
  by pat_completeness auto
termination
  by (relation "measure length") (auto simp: less_Suc_eq_le length_dropWhile_le)

definition char_count :: "string \<Rightarrow> nat" where
  "char_count s = length (chars s)"

definition take_chars :: "nat \<Rightarrow> string \<Rightarrow> string" where
  "take_chars n s = concat (take n (chars s))"

text \<open>The scalar values with the property \<open>White_Space\<close>, which \<open>char::is_whitespace\<close> tests.\<close>

definition ws_chars :: "string list" where
  "ws_chars =
    [[CHR 0x09], [CHR 0x0A], [CHR 0x0B], [CHR 0x0C], [CHR 0x0D], [CHR 0x20],
     [CHR 0xC2, CHR 0x85], [CHR 0xC2, CHR 0xA0], [CHR 0xE1, CHR 0x9A, CHR 0x80],
     [CHR 0xE2, CHR 0x80, CHR 0x80], [CHR 0xE2, CHR 0x80, CHR 0x81], [CHR 0xE2, CHR 0x80, CHR 0x82],
     [CHR 0xE2, CHR 0x80, CHR 0x83], [CHR 0xE2, CHR 0x80, CHR 0x84], [CHR 0xE2, CHR 0x80, CHR 0x85],
     [CHR 0xE2, CHR 0x80, CHR 0x86], [CHR 0xE2, CHR 0x80, CHR 0x87], [CHR 0xE2, CHR 0x80, CHR 0x88],
     [CHR 0xE2, CHR 0x80, CHR 0x89], [CHR 0xE2, CHR 0x80, CHR 0x8A], [CHR 0xE2, CHR 0x80, CHR 0xA8],
     [CHR 0xE2, CHR 0x80, CHR 0xA9], [CHR 0xE2, CHR 0x80, CHR 0xAF], [CHR 0xE2, CHR 0x81, CHR 0x9F],
     [CHR 0xE3, CHR 0x80, CHR 0x80]]"

definition is_ws :: "string \<Rightarrow> bool" where
  "is_ws g = (g \<in> set ws_chars)"

definition trim_start :: "string \<Rightarrow> string" where
  "trim_start s = concat (dropWhile is_ws (chars s))"

definition trim_end :: "string \<Rightarrow> string" where
  "trim_end s = concat (rev (dropWhile is_ws (rev (chars s))))"

definition trim :: "string \<Rightarrow> string" where
  "trim s = concat (rev (dropWhile is_ws (rev (dropWhile is_ws (chars s)))))"

definition ellipsis :: string where
  "ellipsis = [CHR 0xE2, CHR 0x80, CHR 0xA6]"

text \<open>Decimal rendering of an unsigned number, as \<open>format!("{n}")\<close> does.\<close>

definition digit :: "nat \<Rightarrow> char" where
  "digit n = char_of (48 + n)"

fun show_nat :: "nat \<Rightarrow> string" where
  "show_nat n = (if n < 10 then [digit n] else show_nat (n div 10) @ [digit (n mod 10)])"

declare show_nat.simps [simp del]

fun join :: "string \<Rightarrow> string list \<Rightarrow> string" where
  "join sep [] = ''''"
| "join sep [x] = x"
| "join sep (x # y # zs) = x @ sep @ join sep (y # zs)"

definition ascii_lower :: "char \<Rightarrow> char" where
  "ascii_lower c = (let n = of_char c :: nat in if 65 \<le> n \<and> n \<le> 90 then char_of (n + 32) else c)"

definition eq_ignore_ascii_case :: "string \<Rightarrow> string \<Rightarrow> bool" where
  "eq_ignore_ascii_case s t = (map ascii_lower s = map ascii_lower t)"

definition starts_with :: "string \<Rightarrow> string \<Rightarrow> bool" where
  "starts_with p s = (take (length p) s = p)"

definition ends_with :: "string \<Rightarrow> string \<Rightarrow> bool" where
  "ends_with p s = (length p \<le> length s \<and> drop (length s - length p) s = p)"

definition strip_prefix :: "string \<Rightarrow> string \<Rightarrow> string option" where
  "strip_prefix p s = (if starts_with p s then Some (drop (length p) s) else None)"

definition strip_suffix :: "string \<Rightarrow> string \<Rightarrow> string option" where
  "strip_suffix p s = (if ends_with p s then Some (take (length s - length p) s) else None)"

lemma concat_chars [simp]: "concat (chars s) = s"
  by (induction s rule: chars.induct) auto

lemma chars_eq_Nil_iff [simp]: "chars s = [] \<longleftrightarrow> s = []"
  by (cases s) auto

lemma char_count_le_length: "char_count s \<le> length s"
  unfolding char_count_def
proof (induction s rule: chars.induct)
  case (2 c cs)
  have "length (dropWhile is_cont cs) \<le> length cs" by (rule length_dropWhile_le)
  with 2 show ?case by simp
qed simp

lemma char_count_eq_0_iff [simp]: "char_count s = 0 \<longleftrightarrow> s = []"
  by (simp add: char_count_def)

text \<open>A list of char_groups is what \<open>chars\<close> returns of its concatenation.\<close>

definition char_group :: "string \<Rightarrow> bool" where
  "char_group g = (g \<noteq> [] \<and> list_all is_cont (tl g))"

fun char_groups :: "string list \<Rightarrow> bool" where
  "char_groups [] = True"
| "char_groups (g # gs) = (char_group g \<and> list_all (\<lambda>h. \<not> is_cont (hd h)) gs \<and> list_all char_group gs)"

lemma groups_ConsD: "char_groups (g # gs) \<Longrightarrow> char_groups gs"
  by (cases gs) auto

lemma groups_chars: "char_groups (chars s)"
proof (induction s rule: chars.induct)
  case (2 c cs)
  have all: "list_all char_group (chars t)" for t
    by (induction t rule: chars.induct) (auto simp: char_group_def list_all_iff dest: set_takeWhileD)
  have heads: "list_all (\<lambda>h. \<not> is_cont (hd h)) (chars t)" if "t = [] \<or> \<not> is_cont (hd t)" for t
    using that
  proof (induction t rule: chars.induct)
    case (2 d ds)
    have "dropWhile is_cont ds = [] \<or> \<not> is_cont (hd (dropWhile is_cont ds))"
      using hd_dropWhile by blast
    with 2 show ?case by simp
  qed simp
  have "dropWhile is_cont cs = [] \<or> \<not> is_cont (hd (dropWhile is_cont cs))"
    using hd_dropWhile by blast
  then show ?case
    using all [of "dropWhile is_cont cs"] heads [of "dropWhile is_cont cs"]
    by (auto simp: char_group_def list_all_iff dest: set_takeWhileD)
qed simp

lemma takeWhile_dropWhile_group:
  assumes "list_all P xs" and "ys = [] \<or> \<not> P (hd ys)"
  shows "takeWhile P (xs @ ys) = xs" and "dropWhile P (xs @ ys) = ys"
  using assms by (cases ys; simp add: takeWhile_append dropWhile_append list_all_iff)+

lemma chars_concat: "char_groups gs \<Longrightarrow> chars (concat gs) = gs"
proof (induction gs)
  case (Cons g gs)
  then obtain c cs where g: "g = c # cs" and cs: "list_all is_cont cs"
    by (cases g) (auto simp: char_group_def)
  have "concat gs = [] \<or> \<not> is_cont (hd (concat gs))"
    using Cons.prems by (cases gs) (auto simp: char_group_def)
  moreover have "chars (concat gs) = gs"
    by (rule Cons.IH [OF groups_ConsD [OF Cons.prems]])
  ultimately show ?case
    using cs g by (simp add: takeWhile_dropWhile_group del: concat_eq_Nil_conv)
qed simp

lemma groups_append: "char_groups (xs @ ys) \<Longrightarrow> char_groups xs \<and> char_groups ys"
proof (induction xs)
  case (Cons x xs)
  then show ?case by (cases ys) auto
qed simp

lemma chars_take_chars: "chars (take_chars n s) = take n (chars s)"
  unfolding take_chars_def
  by (rule chars_concat) (metis append_take_drop_id groups_append groups_chars)

lemma char_count_take_chars [simp]: "char_count (take_chars n s) = min n (char_count s)"
  by (simp add: char_count_def chars_take_chars min.commute)

lemma groups_dropWhile: "char_groups gs \<Longrightarrow> char_groups (dropWhile P gs)"
  by (metis groups_append takeWhile_dropWhile_id)

lemma groups_trimmed: "char_groups gs \<Longrightarrow> char_groups (rev (dropWhile P (rev gs)))"
  by (metis groups_append rev_append rev_rev_ident takeWhile_dropWhile_id)

lemma chars_trim: "chars (trim s) = rev (dropWhile is_ws (rev (dropWhile is_ws (chars s))))"
  unfolding trim_def by (intro chars_concat groups_trimmed groups_dropWhile groups_chars)

lemma char_count_trim_le: "char_count (trim s) \<le> char_count s"
  unfolding char_count_def chars_trim
  by (metis length_dropWhile_le length_rev order_trans)

lemma dropWhile_rev_id:
  assumes "xs = [] \<or> \<not> P (hd xs)"
  shows "dropWhile P (rev (dropWhile P (rev xs))) = rev (dropWhile P (rev xs))"
proof (cases "rev (dropWhile P (rev xs))")
  case Nil
  then show ?thesis by (simp only: dropWhile.simps)
next
  case (Cons y ys)
  note assms
  moreover have "xs = rev (dropWhile P (rev xs)) @ rev (takeWhile P (rev xs))"
    by (metis rev_append rev_rev_ident takeWhile_dropWhile_id)
  ultimately show ?thesis using Cons by (metis append_Cons dropWhile.simps(2) list.discI list.sel(1))
qed

lemma dropWhile_idem' [simp]: "dropWhile P (dropWhile P xs) = dropWhile P xs"
  by (induction xs) auto

lemma trim_idem [simp]: "trim (trim s) = trim s"
proof -
  let ?d = "dropWhile is_ws (chars s)"
  have "?d = [] \<or> \<not> is_ws (hd ?d)" using hd_dropWhile by blast
  then have "dropWhile is_ws (chars (trim s)) = chars (trim s)"
    unfolding chars_trim by (rule dropWhile_rev_id)
  then show ?thesis
    unfolding trim_def [of "trim s"] by (simp add: chars_trim) (simp add: trim_def)
qed

lemma trim_eq_Nil_iff: "trim s = [] \<longleftrightarrow> list_all is_ws (chars s)"
proof -
  have "trim s = [] \<longleftrightarrow> chars (trim s) = []" by simp
  also have "\<dots> \<longleftrightarrow> dropWhile is_ws (chars s) = []"
  proof
    let ?d = "dropWhile is_ws (chars s)"
    assume "chars (trim s) = []"
    then have "\<forall>x\<in>set ?d. is_ws x" by (simp add: chars_trim dropWhile_eq_Nil_conv)
    then show "?d = []" using hd_dropWhile [of is_ws "chars s"] list.set_sel(1) [of ?d] by blast
  qed (simp only: chars_trim dropWhile.simps rev.simps)
  also have "\<dots> \<longleftrightarrow> list_all is_ws (chars s)"
    by (simp add: dropWhile_eq_Nil_conv list_all_iff)
  finally show ?thesis .
qed

lemma char_count_Cons: "char_count (c # cs) = Suc (length (filter (\<lambda>x. \<not> is_cont x) cs))"
proof (induction "c # cs" arbitrary: c cs rule: chars.induct)
  case (2 c cs)
  show ?case
  proof (cases "dropWhile is_cont cs")
    case Nil
    then have "filter (\<lambda>x. \<not> is_cont x) cs = []" by (auto simp: dropWhile_eq_Nil_conv)
    with Nil show ?thesis by (simp add: char_count_def)
  next
    case (Cons d ds)
    have "filter (\<lambda>x. \<not> is_cont x) cs =
        filter (\<lambda>x. \<not> is_cont x) (takeWhile is_cont cs) @ filter (\<lambda>x. \<not> is_cont x) (dropWhile is_cont cs)"
      by (metis filter_append takeWhile_dropWhile_id)
    also have "filter (\<lambda>x. \<not> is_cont x) (takeWhile is_cont cs) = []"
      by (auto simp: filter_empty_conv dest: set_takeWhileD)
    finally have "filter (\<lambda>x. \<not> is_cont x) cs = d # filter (\<lambda>x. \<not> is_cont x) ds"
      using Cons hd_dropWhile [of is_cont cs] by simp
    with 2 Cons show ?thesis by (simp add: char_count_def)
  qed
qed

lemma char_count_Nil [simp]: "char_count [] = 0"
  by simp

lemma char_count_append_le: "char_count (s @ t) \<le> char_count s + char_count t"
  by (cases s; cases t) (auto simp: char_count_Cons)

lemma char_count_singleton_le: "char_count [c] \<le> 1"
  using char_count_le_length [of "[c]"] by simp

lemma ellipsis_count [simp]: "char_count ellipsis = 1"
  by (simp add: ellipsis_def char_count_Cons is_cont_def)

lemma trim_not_Nil: "c \<in> set s \<Longrightarrow> \<not> is_cont c \<Longrightarrow> (\<forall>w\<in>set ws_chars. hd w \<noteq> c) \<Longrightarrow> trim s \<noteq> []"
proof
  assume c: "c \<in> set s" "\<not> is_cont c" "\<forall>w\<in>set ws_chars. hd w \<noteq> c" and "trim s = []"
  then have ws: "\<forall>g\<in>set (chars s). g \<in> set ws_chars" by (simp add: trim_eq_Nil_iff list_all_iff is_ws_def)
  from c(1) have "c \<in> set (concat (chars s))" by simp
  then obtain g where g: "g \<in> set (chars s)" "c \<in> set g" by (auto simp del: concat_chars)
  have "list_all char_group (chars s)"
    using groups_chars [of s] by (cases "chars s") auto
  with g have "char_group g" by (auto simp: list_all_iff)
  with g(2) c(2) have "hd g = c" by (cases g) (auto simp: char_group_def list_all_iff)
  with ws g c(3) show False by auto
qed

text \<open>Decimal numerals: their length, and that they determine the number.\<close>

lemma show_nat_length: "n < 10 ^ k \<Longrightarrow> 0 < k \<Longrightarrow> length (show_nat n) \<le> k"
proof (induction n arbitrary: k rule: show_nat.induct)
  case (1 n)
  show ?case
  proof (cases "n < 10")
    case True
    with 1 show ?thesis by (subst show_nat.simps) simp
  next
    case False
    with "1.prems" obtain j where k: "k = Suc j" "0 < j" by (cases k; cases "k - 1") auto
    with "1.prems" have "n div 10 < 10 ^ j" by (simp add: less_mult_imp_div_less mult.commute)
    with "1.IH" [OF False] k have "length (show_nat (n div 10)) \<le> j" by simp
    with False k show ?thesis by (subst show_nat.simps) simp
  qed
qed

lemma show_u64_length: "length (show_nat (unat n)) \<le> 20" for n :: u64
proof (rule show_nat_length)
  have "unat n < 2 ^ 64" using unsigned_less [of n] by simp
  then show "unat n < 10 ^ 20" by simp
qed simp

definition read_nat :: "string \<Rightarrow> nat" where
  "read_nat s = foldl (\<lambda>n c. 10 * n + (of_char c - 48)) 0 s"

lemma read_show_nat: "read_nat (show_nat n) = n"
proof (induction n rule: show_nat.induct)
  case (1 n)
  show ?case
  proof (cases "n < 10")
    case True
    then show ?thesis by (subst show_nat.simps) (simp add: read_nat_def digit_def)
  next
    case False
    with 1 show ?thesis
      by (subst show_nat.simps) (simp add: read_nat_def digit_def foldl_append)
  qed
qed

lemma show_nat_inject [simp]: "show_nat m = show_nat n \<longleftrightarrow> m = n"
  by (metis read_show_nat)

section \<open>Cutting at a character boundary\<close>

definition is_char_boundary :: "nat \<Rightarrow> string \<Rightarrow> bool" where
  "is_char_boundary i s \<longleftrightarrow> i = 0 \<or> i = length s \<or> (i < length s \<and> \<not> is_cont (s ! i))"

text \<open>\<open>while end > 0 && !text.is_char_boundary(end) { end -= 1; }\<close>\<close>

fun floor_boundary :: "nat \<Rightarrow> string \<Rightarrow> nat" where
  "floor_boundary 0 s = 0"
| "floor_boundary (Suc i) s = (if is_char_boundary (Suc i) s then Suc i else floor_boundary i s)"

lemma floor_boundary_le: "floor_boundary n s \<le> n"
  by (induction n) auto

lemma floor_boundary_boundary: "is_char_boundary (floor_boundary n s) s"
  by (induction n) (auto simp: is_char_boundary_def)

lemma chars_take_boundary:
  "is_char_boundary k s \<Longrightarrow> k \<le> length s \<Longrightarrow> chars (take k s) @ chars (drop k s) = chars s"
proof (induction s arbitrary: k rule: chars.induct)
  case (2 c cs)
  define g where "g = takeWhile is_cont cs"
  define r where "r = dropWhile is_cont cs"
  have split: "cs = g @ r" by (simp add: g_def r_def)
  have g: "list_all is_cont g" by (auto simp: g_def list_all_iff dest: set_takeWhileD)
  have r: "r = [] \<or> \<not> is_cont (hd r)"
    using hd_dropWhile [of is_cont cs] unfolding r_def by blast
  show ?case
  proof (cases k)
    case (Suc j)
    show ?thesis
    proof (cases "j < length g")
      case True
      then have "is_cont (cs ! j)" using g by (simp add: split nth_append list_all_length)
      with True 2(2) Suc show ?thesis by (simp add: is_char_boundary_def split)
    next
      case False
      define m where "m = j - length g"
      have j: "j = length g + m" using False by (simp add: m_def)
      have m: "m \<le> length r" using 2(3) Suc by (simp add: j split)
      have bound: "is_char_boundary m r"
        using 2(2) unfolding Suc j split by (auto simp: is_char_boundary_def nth_append)
      have "take m r = [] \<or> \<not> is_cont (hd (take m r))" using r by (cases m; cases r) auto
      then have head: "takeWhile is_cont (g @ take m r) = g" "dropWhile is_cont (g @ take m r) = take m r"
        using takeWhile_dropWhile_group [OF g] by auto
      have whole: "takeWhile is_cont (g @ r) = g" "dropWhile is_cont (g @ r) = r"
        using takeWhile_dropWhile_group [OF g r] by auto
      have "chars (take m r) @ chars (drop m r) = chars r"
        using "2.IH" [of m] bound m unfolding r_def [symmetric] by simp
      then show ?thesis unfolding Suc j split by (simp add: head whole)
    qed
  qed simp
qed simp

lemma char_count_take_boundary:
  "is_char_boundary k s \<Longrightarrow> k \<le> length s \<Longrightarrow> take k s = concat (take (char_count (take k s)) (chars s))"
proof -
  assume "is_char_boundary k s" "k \<le> length s"
  then have "take (char_count (take k s)) (chars s) = chars (take k s)"
    using chars_take_boundary [of k s] by (metis append_eq_conv_conj char_count_def)
  then show ?thesis by simp
qed

end
