(* ===== verification/Json.thy ===== *)
theory Json
  imports Rust_Prelude
begin

text \<open>
  The JSON values the components exchange with their host, and the accessors of \<open>serde_json\<close>'s
  \<open>Value\<close> that the source calls (\<open>get\<close>, \<open>as_str\<close>, \<open>as_u64\<close>, \<open>as_bool\<close>, \<open>as_array\<close>, ...).
  A number is an unsigned integer, a negative integer or a float; a float is kept as its bit
  pattern because no modelled component computes with one. An object is an association list; a
  lookup takes the first entry of its key.
\<close>

datatype json =
    JNull
  | JBool bool
  | JUint u64
  | JNeg int
  | JFloat u64
  | JStr string
  | JArr "json list"
  | JObj "(string \<times> json) list"

fun jget :: "string \<Rightarrow> json \<Rightarrow> json option" where
  "jget k (JObj kvs) = map_of kvs k"
| "jget k _ = None"

fun as_str :: "json \<Rightarrow> string option" where
  "as_str (JStr s) = Some s"
| "as_str _ = None"

fun as_u64 :: "json \<Rightarrow> u64 option" where
  "as_u64 (JUint n) = Some n"
| "as_u64 _ = None"

fun as_bool :: "json \<Rightarrow> bool option" where
  "as_bool (JBool b) = Some b"
| "as_bool _ = None"

fun as_array :: "json \<Rightarrow> json list option" where
  "as_array (JArr vs) = Some vs"
| "as_array _ = None"

fun as_object :: "json \<Rightarrow> (string \<times> json) list option" where
  "as_object (JObj kvs) = Some kvs"
| "as_object _ = None"

text \<open>\<open>value.get(k).and_then(Value::as_...)\<close>\<close>

definition get_str :: "string \<Rightarrow> json \<Rightarrow> string option" where
  "get_str k v = Option.bind (jget k v) as_str"

definition get_u64 :: "string \<Rightarrow> json \<Rightarrow> u64 option" where
  "get_u64 k v = Option.bind (jget k v) as_u64"

definition get_bool :: "string \<Rightarrow> json \<Rightarrow> bool option" where
  "get_bool k v = Option.bind (jget k v) as_bool"

definition get_array :: "string \<Rightarrow> json \<Rightarrow> json list option" where
  "get_array k v = Option.bind (jget k v) as_array"

text \<open>The values \<open>json!\<close> writes for an optional string and for a machine integer.\<close>

definition jopt :: "string option \<Rightarrow> json" where
  "jopt m = (case m of None \<Rightarrow> JNull | Some s \<Rightarrow> JStr s)"

lemmas json_get_defs = get_str_def get_u64_def get_bool_def get_array_def

lemma get_JObj [simp]:
  "get_str k (JObj kvs) = Option.bind (map_of kvs k) as_str"
  "get_u64 k (JObj kvs) = Option.bind (map_of kvs k) as_u64"
  "get_bool k (JObj kvs) = Option.bind (map_of kvs k) as_bool"
  "get_array k (JObj kvs) = Option.bind (map_of kvs k) as_array"
  by (simp_all add: json_get_defs)

lemma get_non_object [simp]:
  "get_str k JNull = None" "get_u64 k JNull = None" "get_bool k JNull = None"
  "get_array k JNull = None"
  by (simp_all add: json_get_defs)

end
