(* ===== verification/Keyed_List.thy ===== *)
theory Keyed_List
  imports Rust_Prelude
begin

text \<open>
  Lists whose elements carry a key: workflow steps, queue items, todos and graph nodes are all
  kept in a \<open>Vec\<close> and found by \<open>iter().find\<close> or \<open>iter_mut().find\<close>, which take the first match.
  The locale \<open>keyed_list\<close> states what the components rely on and proves what follows from it; each
  component interprets it for its own element type.
\<close>

fun modify_first :: "('a \<Rightarrow> bool) \<Rightarrow> ('a \<Rightarrow> 'a) \<Rightarrow> 'a list \<Rightarrow> 'a list" where
  "modify_first P f [] = []"
| "modify_first P f (x # xs) = (if P x then f x # xs else x # modify_first P f xs)"

lemma length_modify_first [simp]: "length (modify_first P f xs) = length xs"
  by (induction xs) auto

lemma modify_first_map: "(\<And>x. P x \<Longrightarrow> g (f x) = g x) \<Longrightarrow> map g (modify_first P f xs) = map g xs"
  by (induction xs) auto

lemma modify_first_set: "y \<in> set (modify_first P f xs) \<Longrightarrow> y \<in> set xs \<or> (\<exists>x\<in>set xs. P x \<and> y = f x)"
  by (induction xs) (auto split: if_splits)

lemma modify_first_none: "\<forall>x\<in>set xs. \<not> P x \<Longrightarrow> modify_first P f xs = xs"
  by (induction xs) auto

lemma find_Some_iff': "find P xs = Some x \<Longrightarrow> x \<in> set xs \<and> P x"
  by (induction xs) (auto split: if_splits)

lemma find_map_fst_eq:
  "find (\<lambda>x. key x = k) xs = Some x \<Longrightarrow> distinct (map key xs) \<Longrightarrow> y \<in> set xs \<Longrightarrow> key y = k \<Longrightarrow> y = x"
  by (induction xs) (auto split: if_splits simp: image_iff)

text \<open>Two lists that differ in exactly one place, and there only in what an update by key writes.\<close>

lemma modify_first_by_key:
  assumes "distinct (map key xs)" and "xs = as @ x # bs"
  shows "modify_first (\<lambda>y. key y = key x) f xs = as @ f x # bs"
proof -
  have "\<forall>y\<in>set as. key y \<noteq> key x" using assms by (auto simp: image_iff)
  then have "modify_first (\<lambda>y. key y = key x) f (as @ x # bs) = as @ f x # bs" by (induction as) auto
  with assms show ?thesis by simp
qed

locale keyed_list =
  fixes key :: "'a \<Rightarrow> 'k"
    and lookup :: "'k \<Rightarrow> 'a list \<Rightarrow> 'a option"
    and update :: "'k \<Rightarrow> ('a \<Rightarrow> 'a) \<Rightarrow> 'a list \<Rightarrow> 'a list"
  assumes lookup_Nil: "lookup k [] = None"
    and lookup_Cons: "lookup k (x # xs) = (if key x = k then Some x else lookup k xs)"
    and update_Nil: "update k f [] = []"
    and update_Cons: "update k f (x # xs) = (if key x = k then f x # xs else x # update k f xs)"
begin

lemma lookup_key: "lookup k xs = Some x \<Longrightarrow> x \<in> set xs \<and> key x = k"
  by (induction xs) (auto simp: lookup_Nil lookup_Cons split: if_splits)

lemma lookup_None: "lookup k xs = None \<longleftrightarrow> k \<notin> key ` set xs"
  by (induction xs) (auto simp: lookup_Nil lookup_Cons)

lemma lookup_unique: "lookup k xs = Some x \<Longrightarrow> distinct (map key xs) \<Longrightarrow> y \<in> set xs \<Longrightarrow> key y = k \<Longrightarrow> y = x"
  by (induction xs) (auto simp: lookup_Nil lookup_Cons image_iff split: if_splits)

lemma update_length: "length (update k f xs) = length xs"
  by (induction xs) (auto simp: update_Nil update_Cons)

lemma update_keys: "(\<And>x. key (f x) = key x) \<Longrightarrow> map key (update k f xs) = map key xs"
  by (induction xs) (auto simp: update_Nil update_Cons)

lemma update_absent: "lookup k xs = None \<Longrightarrow> update k f xs = xs"
  by (induction xs) (auto simp: update_Nil update_Cons lookup_Cons split: if_splits)

lemma update_members: "y \<in> set (update k f xs) \<Longrightarrow> y \<in> set xs \<or> (\<exists>x. lookup k xs = Some x \<and> y = f x)"
  by (induction xs) (auto simp: update_Nil update_Cons lookup_Cons split: if_splits)

lemma lookup_update:
  assumes "\<And>x. key (f x) = key x"
  shows "lookup j (update k f xs) = (if j = k then map_option f (lookup k xs) else lookup j xs)"
  by (induction xs) (auto simp: update_Nil update_Cons lookup_Nil lookup_Cons assms)

lemma update_distinct: "(\<And>x. key (f x) = key x) \<Longrightarrow> distinct (map key (update k f xs)) = distinct (map key xs)"
  by (simp add: update_keys)

lemma update_split:
  "lookup k xs = Some x \<Longrightarrow> \<exists>as bs. xs = as @ x # bs \<and> k \<notin> key ` set as \<and> update k f xs = as @ f x # bs"
proof (induction xs)
  case (Cons y ys)
  show ?case
  proof (cases "key y = k")
    case True
    with Cons.prems show ?thesis by (intro exI [of _ "[]"] exI [of _ ys]) (auto simp: lookup_Cons update_Cons)
  next
    case False
    with Cons obtain as bs where "ys = as @ x # bs" "k \<notin> key ` set as" "update k f ys = as @ f x # bs"
      by (auto simp: lookup_Cons)
    with False show ?thesis by (intro exI [of _ "y # as"] exI [of _ bs]) (auto simp: update_Cons)
  qed
qed (simp add: lookup_Nil)

end

text \<open>
  The contract of a machine whose operations may fail: every operation that succeeds keeps the
  invariant. Sequences of operations then keep it too, whatever errors occur on the way (a failed
  operation leaves the state as it was).
\<close>

locale guarded_machine =
  fixes step :: "'i \<Rightarrow> 's \<Rightarrow> string + 's"
    and inv :: "'s \<Rightarrow> bool"
  assumes step_inv: "inv s \<Longrightarrow> step i s = Inr t \<Longrightarrow> inv t"
begin

definition attempt :: "'i \<Rightarrow> 's \<Rightarrow> 's" where
  "attempt i s = (case step i s of Inl _ \<Rightarrow> s | Inr t \<Rightarrow> t)"

lemma attempt_inv: "inv s \<Longrightarrow> inv (attempt i s)"
  by (auto simp: attempt_def step_inv split: sum.splits)

lemma run_inv: "inv s \<Longrightarrow> inv (fold attempt is s)"
  by (induction "is" arbitrary: s) (auto simp: attempt_inv)

lemma foldR_inv: "inv s \<Longrightarrow> foldR step is s = Inr t \<Longrightarrow> inv t"
  by (rule foldR_invariant [of step "is" s t inv]) (auto intro: step_inv)

end

end
