(* ===== verification/Durable_Core.thy ===== *)
theory Durable_Core
  imports Json Keyed_List
begin

text \<open>
  \<open>packages/rpi-durable-core/src/lib.rs\<close>: the protocol-neutral durable state, the journal change
  language, the validation of a state, and the replay of a journal branch. Error texts are kept;
  \<open>String\<close> errors are \<open>Inl\<close>.

  Decoding a record from its JSON payload, and encoding a state, is done by code \<open>serde\<close>
  generates, so those functions are the parameter \<open>sd\<close> of the definitions that use them.
\<close>

section \<open>State\<close>

datatype workflow_status = Running | Paused | Completed | Failed

datatype step_status = Pending | InProgress | Completed

datatype run_status = Queued | Running | Settled | Failed | Interrupted

datatype tool_status = Started | Completed | Failed | Interrupted | Unknown

datatype queue_status = Queued | Claimed | Completed | Failed | Cancelled

definition workflow_status_str :: "workflow_status \<Rightarrow> string" where
  "workflow_status_str s = (case s of
     workflow_status.Running \<Rightarrow> ''running'' | workflow_status.Paused \<Rightarrow> ''paused''
   | workflow_status.Completed \<Rightarrow> ''completed'' | workflow_status.Failed \<Rightarrow> ''failed'')"

definition step_marker :: "step_status \<Rightarrow> string" where
  "step_marker s = (case s of
     step_status.Pending \<Rightarrow> '' ''
   | step_status.InProgress \<Rightarrow> [CHR 0xE2, CHR 0x80, CHR 0xA2]
   | step_status.Completed \<Rightarrow> [CHR 0xE2, CHR 0x9C, CHR 0x93])"

definition run_status_str :: "run_status \<Rightarrow> string" where
  "run_status_str s = (case s of
     run_status.Queued \<Rightarrow> ''queued'' | run_status.Running \<Rightarrow> ''running''
   | run_status.Settled \<Rightarrow> ''settled'' | run_status.Failed \<Rightarrow> ''failed''
   | run_status.Interrupted \<Rightarrow> ''interrupted'')"

definition tool_status_str :: "tool_status \<Rightarrow> string" where
  "tool_status_str s = (case s of
     tool_status.Started \<Rightarrow> ''started'' | tool_status.Completed \<Rightarrow> ''completed''
   | tool_status.Failed \<Rightarrow> ''failed'' | tool_status.Interrupted \<Rightarrow> ''interrupted''
   | tool_status.Unknown \<Rightarrow> ''unknown'')"

definition queue_status_str :: "queue_status \<Rightarrow> string" where
  "queue_status_str s = (case s of
     queue_status.Queued \<Rightarrow> ''queued'' | queue_status.Claimed \<Rightarrow> ''claimed''
   | queue_status.Completed \<Rightarrow> ''completed'' | queue_status.Failed \<Rightarrow> ''failed''
   | queue_status.Cancelled \<Rightarrow> ''cancelled'')"

record step =
  step_id :: string
  step_title :: string
  step_status :: step_status
  step_note :: "string option"

record workflow =
  wf_name :: string
  wf_status :: workflow_status
  wf_steps :: "step list"
  wf_reason :: "string option"

record tool_checkpoint =
  tool_call_id :: string
  tool_call_key :: "string option"
  tool_name :: string
  tool_params :: string
  tool_status :: tool_status
  tool_result :: string

record run_checkpoint =
  run_id :: string
  run_status :: run_status
  run_started_revision :: u64
  run_updated_revision :: u64
  run_outcome :: string
  run_recovery_of :: string
  run_tools :: "tool_checkpoint list"

record queue_item =
  q_id :: string
  q_text :: string
  q_status :: queue_status
  q_created_revision :: u64
  q_updated_revision :: u64
  q_note :: string

record durable_state =
  revision :: u64
  next_run_id :: u64
  next_queue_id :: u64
  ds_workflow :: "workflow option"
  ds_run :: "run_checkpoint option"
  ds_queue :: "queue_item list"

definition default_state :: durable_state where
  "default_state =
     \<lparr>revision = 0, next_run_id = 0, next_queue_id = 0, ds_workflow = None, ds_run = None, ds_queue = []\<rparr>"

definition MAX_QUEUE_ITEMS :: nat where "MAX_QUEUE_ITEMS = 32"
definition MAX_TOOL_ENTRIES :: nat where "MAX_TOOL_ENTRIES = 64"
definition MAX_SUMMARY_CHARS :: nat where "MAX_SUMMARY_CHARS = 1000"
definition ENTRY_TYPE :: string where "ENTRY_TYPE = ''durable-state''"
definition JOURNAL_FORMAT :: string where "JOURNAL_FORMAT = ''rpi-durable-journal''"
definition JOURNAL_VERSION :: u64 where "JOURNAL_VERSION = 1"

lemmas durable_limits = MAX_QUEUE_ITEMS_def MAX_TOOL_ENTRIES_def MAX_SUMMARY_CHARS_def

section \<open>The journal\<close>

datatype journal_change =
    SetWorkflow "workflow option"
  | UpdateStep string step_status "string option"
  | SetWorkflowMeta string workflow_status "string option"
  | SetCounters u64 u64
  | SetRun "run_checkpoint option"
  | SetRunMeta string run_status u64 u64 string string
  | AppendTool tool_checkpoint
  | UpdateTool string "string option" tool_status string
  | SetTools "tool_checkpoint list"
  | AppendQueue queue_item
  | UpdateQueue queue_item
  | SetQueue "queue_item list"

record journal_record =
  jr_format :: string
  jr_version :: u64
  jr_kind :: string
  jr_base_revision :: u64
  jr_revision :: u64
  jr_base_entry_id :: "string option"
  jr_state :: "durable_state option"
  jr_changes :: "journal_change list option"

section \<open>Validation\<close>

definition bad_workflow_bounds :: "workflow \<Rightarrow> bool" where
  "bad_workflow_bounds w \<longleftrightarrow>
     trim (wf_name w) = [] \<or> char_count (wf_name w) > 500 \<or> wf_steps w = [] \<or> length (wf_steps w) > 128"

definition bad_step :: "step \<Rightarrow> bool" where
  "bad_step s \<longleftrightarrow>
     step_id s = [] \<or> char_count (step_id s) > 128 \<or> char_count (step_title s) > 1000
   \<or> (case step_note s of None \<Rightarrow> False | Some n \<Rightarrow> char_count n > 4000)"

fun check_steps :: "step list \<Rightarrow> step list \<Rightarrow> unit res" where
  "check_steps before [] = Inr ()"
| "check_steps before (s # ss) =
     (if bad_step s \<or> (\<exists>other \<in> set before. step_id other = step_id s)
      then Inl ''durable journal contains an invalid or duplicate workflow step''
      else check_steps (before @ [s]) ss)"

definition bad_run_bounds :: "run_checkpoint \<Rightarrow> bool" where
  "bad_run_bounds r \<longleftrightarrow>
     trim (run_id r) = [] \<or> char_count (run_id r) > 128 \<or> length (run_tools r) > MAX_TOOL_ENTRIES"

definition bad_tool :: "tool_checkpoint \<Rightarrow> bool" where
  "bad_tool t \<longleftrightarrow>
     char_count (tool_call_id t) > MAX_SUMMARY_CHARS + 1
   \<or> (case tool_call_key t of None \<Rightarrow> False | Some k \<Rightarrow> k = [] \<or> char_count k > MAX_SUMMARY_CHARS + 8)
   \<or> char_count (tool_name t) > MAX_SUMMARY_CHARS + 1
   \<or> char_count (tool_params t) > MAX_SUMMARY_CHARS + 1
   \<or> char_count (tool_result t) > MAX_SUMMARY_CHARS + 1"

definition bad_queue_item :: "queue_item \<Rightarrow> bool" where
  "bad_queue_item q \<longleftrightarrow>
     trim (q_id q) = [] \<or> char_count (q_id q) > 128 \<or> char_count (q_text q) > 4000
   \<or> char_count (q_note q) > 4000"

fun check_queue :: "queue_item list \<Rightarrow> queue_item list \<Rightarrow> unit res" where
  "check_queue before [] = Inr ()"
| "check_queue before (q # qs) =
     (if bad_queue_item q \<or> (\<exists>other \<in> set before. q_id other = q_id q)
      then Inl ''durable journal contains an invalid or duplicate queue item''
      else check_queue (before @ [q]) qs)"

definition validate_workflow :: "workflow option \<Rightarrow> unit res" where
  "validate_workflow ow = (case ow of None \<Rightarrow> Inr () | Some w \<Rightarrow>
     if bad_workflow_bounds w then Inl ''durable journal workflow exceeds its bounds''
     else check_steps [] (wf_steps w))"

definition validate_run :: "run_checkpoint option \<Rightarrow> unit res" where
  "validate_run orun = (case orun of None \<Rightarrow> Inr () | Some r \<Rightarrow>
     if bad_run_bounds r then Inl ''durable journal contains an invalid run or too many tool entries''
     else if \<exists>t \<in> set (run_tools r). bad_tool t
     then Inl ''durable journal contains an oversized tool summary'' else Inr ())"

definition validate_queue :: "queue_item list \<Rightarrow> unit res" where
  "validate_queue qs =
     (if length qs > MAX_QUEUE_ITEMS then Inl ''durable journal contains an invalid queue''
      else check_queue [] qs)"

definition validate_state :: "durable_state \<Rightarrow> unit res" where
  "validate_state s =
     bindR (validate_workflow (ds_workflow s)) (\<lambda>_.
     bindR (validate_run (ds_run s)) (\<lambda>_.
     validate_queue (ds_queue s)))"

section \<open>Applying a change\<close>

definition tool_path_matches :: "string \<Rightarrow> string option \<Rightarrow> tool_checkpoint \<Rightarrow> bool" where
  "tool_path_matches call_id call_key t \<longleftrightarrow>
     tool_call_key t = call_key \<and> (call_key \<noteq> None \<or> tool_call_id t = call_id)"

definition push_bounded_tool :: "tool_checkpoint \<Rightarrow> tool_checkpoint list \<Rightarrow> tool_checkpoint list" where
  "push_bounded_tool t ts =
     (let ts' = ts @ [t]
      in if length ts' > MAX_TOOL_ENTRIES then drop (length ts' - MAX_TOOL_ENTRIES) ts' else ts')"

fun change_effect :: "journal_change \<Rightarrow> durable_state \<Rightarrow> durable_state res" where
  "change_effect (SetWorkflow w) s = Inr (s\<lparr>ds_workflow := w\<rparr>)"
| "change_effect (SetWorkflowMeta name status reason) s =
     bindR (ok_or ''durable journal workflow metadata path has no workflow'' (ds_workflow s)) (\<lambda>w.
     Inr (s\<lparr>ds_workflow := Some (w\<lparr>wf_name := name, wf_status := status, wf_reason := reason\<rparr>)\<rparr>))"
| "change_effect (UpdateStep sid status note) s =
     bindR (ok_or ''durable journal step path has no workflow'' (ds_workflow s)) (\<lambda>w.
     bindR (ok_or (''durable journal step path not found: '' @ sid)
              (find (\<lambda>st. step_id st = sid) (wf_steps w))) (\<lambda>_.
     Inr (s\<lparr>ds_workflow := Some (w\<lparr>wf_steps :=
            modify_first (\<lambda>st. step_id st = sid)
              (\<lambda>st. st\<lparr>step_status := status, step_note := note\<rparr>) (wf_steps w)\<rparr>)\<rparr>)))"
| "change_effect (SetCounters run_no queue_no) s =
     Inr (s\<lparr>next_run_id := run_no, next_queue_id := queue_no\<rparr>)"
| "change_effect (SetRun r) s = Inr (s\<lparr>ds_run := r\<rparr>)"
| "change_effect (SetRunMeta rid status started updated outcome recovery) s =
     bindR (ok_or ''durable journal run metadata path has no run'' (ds_run s)) (\<lambda>r.
     Inr (s\<lparr>ds_run := Some (r\<lparr>run_id := rid, run_status := status, run_started_revision := started,
            run_updated_revision := updated, run_outcome := outcome, run_recovery_of := recovery\<rparr>)\<rparr>))"
| "change_effect (AppendTool t) s =
     bindR (ok_or ''durable journal tool path has no run'' (ds_run s)) (\<lambda>r.
     Inr (s\<lparr>ds_run := Some (r\<lparr>run_tools := push_bounded_tool t (run_tools r)\<rparr>)\<rparr>))"
| "change_effect (UpdateTool call_id call_key status result) s =
     bindR (ok_or ''durable journal tool path has no run'' (ds_run s)) (\<lambda>r.
     let hit = tool_path_matches call_id call_key;
         count = length (filter hit (run_tools r));
         tools = map (\<lambda>t. if hit t then t\<lparr>tool_status := status, tool_result := result\<rparr> else t) (run_tools r)
     in if count \<noteq> 1
        then Inl (''durable journal tool path matched '' @ show_nat count @ '' entries for '' @ call_id)
        else Inr (s\<lparr>ds_run := Some (r\<lparr>run_tools := tools\<rparr>)\<rparr>))"
| "change_effect (SetTools ts) s =
     (if length ts > MAX_TOOL_ENTRIES then Inl ''durable journal tool replacement exceeds its bound''
      else bindR (ok_or ''durable journal tool path has no run'' (ds_run s)) (\<lambda>r.
           Inr (s\<lparr>ds_run := Some (r\<lparr>run_tools := ts\<rparr>)\<rparr>)))"
| "change_effect (AppendQueue q) s =
     (if length (ds_queue s) \<ge> MAX_QUEUE_ITEMS \<or> (\<exists>x \<in> set (ds_queue s). q_id x = q_id q)
      then Inl ''durable journal queue append is invalid''
      else Inr (s\<lparr>ds_queue := ds_queue s @ [q]\<rparr>))"
| "change_effect (UpdateQueue q) s =
     bindR (ok_or (''durable journal queue path not found: '' @ q_id q)
              (find (\<lambda>x. q_id x = q_id q) (ds_queue s))) (\<lambda>_.
     Inr (s\<lparr>ds_queue := modify_first (\<lambda>x. q_id x = q_id q) (\<lambda>_. q) (ds_queue s)\<rparr>))"
| "change_effect (SetQueue qs) s =
     (if length qs > MAX_QUEUE_ITEMS then Inl ''durable journal queue replacement exceeds its bound''
      else Inr (s\<lparr>ds_queue := qs\<rparr>))"

definition apply_change :: "journal_change \<Rightarrow> durable_state \<Rightarrow> durable_state res" where
  "apply_change c s =
     bindR (change_effect c s) (\<lambda>t. bindR (validate_state t) (\<lambda>_. Inr t))"

section \<open>Replaying a branch\<close>

record serde =
  dec_record :: "json \<Rightarrow> journal_record res"
  enc_state :: "durable_state \<Rightarrow> json res"
  dec_state :: "json \<Rightarrow> durable_state res"

definition is_canonical_entry :: "json \<Rightarrow> bool" where
  "is_canonical_entry e \<longleftrightarrow>
     get_str ''type'' e = Some ''custom'' \<and> get_str ''customType'' e = Some ENTRY_TYPE"

definition parse_record :: "serde \<Rightarrow> json \<Rightarrow> journal_record res" where
  "parse_record sd data =
     (case dec_record sd data of
        Inl error \<Rightarrow> Inl (''invalid durable journal record: '' @ error)
      | Inr r \<Rightarrow>
        if jr_format r \<noteq> JOURNAL_FORMAT \<or> jr_version r \<noteq> JOURNAL_VERSION
        then Inl ''unsupported durable journal format or version''
        else if jr_revision r < jr_base_revision r
        then Inl ''durable journal revision moves backwards''
        else if jr_kind r = ''snapshot'' then
          (if jr_changes r \<noteq> None then Inl ''durable snapshot must contain only a complete state''
           else bindR (ok_or ''durable snapshot has no state'' (jr_state r)) (\<lambda>s.
                if revision s \<noteq> jr_revision r
                then Inl ''durable snapshot state has the wrong revision''
                else bindR (validate_state s) (\<lambda>_. Inr r)))
        else if jr_kind r = ''delta'' then
          (if jr_state r \<noteq> None \<or> (case jr_changes r of None \<Rightarrow> True | Some cs \<Rightarrow> cs = [])
           then Inl ''durable delta must contain non-empty changes only'' else Inr r)
        else Inl (''unsupported durable journal kind: '' @ jr_kind r))"

definition entry_envelope :: "json \<Rightarrow> (string \<times> json) res" where
  "entry_envelope e =
     (if \<not> is_canonical_entry e then Inl ''filtered durable branch contains an unexpected entry type''
      else bindR (ok_or ''filtered durable branch entry has no valid native id''
                    (filter_opt (\<lambda>i. i \<noteq> []) (get_str ''id'' e))) (\<lambda>i.
           bindR (ok_or ''durable custom entry has no data'' (jget ''data'' e)) (\<lambda>data.
           Inr (i, data))))"

fun scan_entries :: "serde \<Rightarrow> nat \<Rightarrow> json list \<Rightarrow>
    ((nat \<times> journal_record \<times> string) list \<times> (nat \<times> string) list) res" where
  "scan_entries sd i [] = Inr ([], [])"
| "scan_entries sd i (e # es) =
     bindR (entry_envelope e) (\<lambda>(eid, data).
     bindR (scan_entries sd (Suc i) es) (\<lambda>(records, invalid).
     case parse_record sd data of
       Inr r \<Rightarrow> Inr ((i, r, eid) # records, invalid)
     | Inl error \<Rightarrow> Inr (records, (i, error) # invalid)))"

fun rposition :: "('a \<Rightarrow> bool) \<Rightarrow> 'a list \<Rightarrow> nat option" where
  "rposition P [] = None"
| "rposition P (x # xs) =
     (case rposition P xs of Some n \<Rightarrow> Some (Suc n) | None \<Rightarrow> if P x then Some 0 else None)"

definition is_snapshot :: "nat \<times> journal_record \<times> string \<Rightarrow> bool" where
  "is_snapshot x = (jr_kind (fst (snd x)) = ''snapshot'')"

definition replay_delta :: "journal_record \<Rightarrow> string \<Rightarrow> durable_state \<Rightarrow> durable_state res" where
  "replay_delta r anchor s =
     (if jr_base_revision r \<noteq> revision s \<or> jr_base_entry_id r \<noteq> Some anchor
      then Inl ''durable journal delta has a gap or wrong branch anchor''
      else bindR (ok_or ''durable revision overflow'' (checked_add (revision s) 1)) (\<lambda>next.
           if jr_revision r \<noteq> next then Inl ''durable journal delta has a non-contiguous revision''
           else bindR (ok_or ''durable delta has no changes'' (jr_changes r)) (\<lambda>cs.
                bindR (foldR apply_change cs s) (\<lambda>t.
                let u = t\<lparr>revision := jr_revision r\<rparr>
                in bindR (validate_state u) (\<lambda>_. Inr u)))))"

fun replay_suffix :: "(nat \<times> journal_record \<times> string) list \<Rightarrow> string \<Rightarrow> durable_state \<Rightarrow> durable_state res" where
  "replay_suffix [] anchor s = Inr s"
| "replay_suffix ((i, r, eid) # rest) anchor s =
     bindR (replay_delta r anchor s) (\<lambda>t. replay_suffix rest eid t)"

definition replay_records ::
    "(nat \<times> journal_record \<times> string) list \<Rightarrow> (nat \<times> string) list \<Rightarrow> durable_state option res" where
  "replay_records records invalid =
     (case rposition is_snapshot records of
        None \<Rightarrow>
          (case invalid of
             (_, error) # _ \<Rightarrow> Inl error
           | [] \<Rightarrow> if records = [] then Inr None
                   else Inl ''durable journal has no self-contained snapshot base'')
      | Some k \<Rightarrow>
          let (index, r, eid) = records ! k
          in (case find (\<lambda>(j, _). j > index) invalid of
                Some (_, error) \<Rightarrow> Inl error
              | None \<Rightarrow>
                  bindR (ok_or ''durable snapshot has no state'' (jr_state r)) (\<lambda>s.
                  bindR (replay_suffix (drop (k + 1) records) eid s) (\<lambda>t. Inr (Some t)))))"

definition replay_state :: "serde \<Rightarrow> json list \<Rightarrow> durable_state option res" where
  "replay_state sd entries =
     bindR (scan_entries sd 0 entries) (\<lambda>(records, invalid). replay_records records invalid)"

definition replay_entries :: "serde \<Rightarrow> json list \<Rightarrow> json option res" where
  "replay_entries sd entries =
     bindR (replay_state sd entries) (\<lambda>st. case st of
       None \<Rightarrow> Inr None
     | Some s \<Rightarrow> (case enc_state sd s of
                    Inl error \<Rightarrow> Inl (''encode durable state: '' @ error)
                  | Inr v \<Rightarrow> Inr (Some v)))"

definition try_from_branch :: "serde \<Rightarrow> json list \<Rightarrow> durable_state res" where
  "try_from_branch sd entries =
     bindR (replay_entries sd entries) (\<lambda>v. case v of
       None \<Rightarrow> Inr default_state
     | Some j \<Rightarrow> (case dec_state sd j of
                    Inl error \<Rightarrow> Inl (''decode durable state: '' @ error)
                  | Inr s \<Rightarrow> Inr s))"

section \<open>What validation accepts\<close>

definition valid_step :: "step \<Rightarrow> bool" where
  "valid_step s \<longleftrightarrow>
     step_id s \<noteq> [] \<and> char_count (step_id s) \<le> 128 \<and> char_count (step_title s) \<le> 1000
   \<and> (\<forall>n. step_note s = Some n \<longrightarrow> char_count n \<le> 4000)"

definition valid_workflow :: "workflow \<Rightarrow> bool" where
  "valid_workflow w \<longleftrightarrow>
     trim (wf_name w) \<noteq> [] \<and> char_count (wf_name w) \<le> 500
   \<and> wf_steps w \<noteq> [] \<and> length (wf_steps w) \<le> 128
   \<and> distinct (map step_id (wf_steps w)) \<and> (\<forall>s\<in>set (wf_steps w). valid_step s)"

definition valid_tool :: "tool_checkpoint \<Rightarrow> bool" where
  "valid_tool t \<longleftrightarrow>
     char_count (tool_call_id t) \<le> 1001
   \<and> (\<forall>k. tool_call_key t = Some k \<longrightarrow> k \<noteq> [] \<and> char_count k \<le> 1008)
   \<and> char_count (tool_name t) \<le> 1001 \<and> char_count (tool_params t) \<le> 1001
   \<and> char_count (tool_result t) \<le> 1001"

definition valid_run :: "run_checkpoint \<Rightarrow> bool" where
  "valid_run r \<longleftrightarrow>
     trim (run_id r) \<noteq> [] \<and> char_count (run_id r) \<le> 128 \<and> length (run_tools r) \<le> 64
   \<and> (\<forall>t\<in>set (run_tools r). valid_tool t)"

definition valid_queue_item :: "queue_item \<Rightarrow> bool" where
  "valid_queue_item q \<longleftrightarrow>
     trim (q_id q) \<noteq> [] \<and> char_count (q_id q) \<le> 128 \<and> char_count (q_text q) \<le> 4000
   \<and> char_count (q_note q) \<le> 4000"

definition valid_queue :: "queue_item list \<Rightarrow> bool" where
  "valid_queue qs \<longleftrightarrow>
     length qs \<le> 32 \<and> distinct (map q_id qs) \<and> (\<forall>q\<in>set qs. valid_queue_item q)"

definition valid_state :: "durable_state \<Rightarrow> bool" where
  "valid_state s \<longleftrightarrow>
     (\<forall>w. ds_workflow s = Some w \<longrightarrow> valid_workflow w)
   \<and> (\<forall>r. ds_run s = Some r \<longrightarrow> valid_run r) \<and> valid_queue (ds_queue s)"

lemmas valid_defs =
  valid_state_def valid_workflow_def valid_step_def valid_run_def valid_tool_def valid_queue_def
  valid_queue_item_def

lemma bad_step_iff: "bad_step s \<longleftrightarrow> \<not> valid_step s"
  by (auto simp: bad_step_def valid_step_def split: option.splits)

lemma bad_tool_iff: "bad_tool t \<longleftrightarrow> \<not> valid_tool t"
  by (auto simp: bad_tool_def valid_tool_def durable_limits split: option.splits)

lemma bad_queue_item_iff: "bad_queue_item q \<longleftrightarrow> \<not> valid_queue_item q"
  by (auto simp: bad_queue_item_def valid_queue_item_def)

lemma check_steps_iff:
  "check_steps before ss = Inr () \<longleftrightarrow>
     (\<forall>s\<in>set ss. valid_step s) \<and> distinct (map step_id ss)
   \<and> step_id ` set before \<inter> step_id ` set ss = {}"
  by (induction before ss rule: check_steps.induct) (auto simp: bad_step_iff image_iff, metis)

lemma check_queue_iff:
  "check_queue before qs = Inr () \<longleftrightarrow>
     (\<forall>q\<in>set qs. valid_queue_item q) \<and> distinct (map q_id qs)
   \<and> q_id ` set before \<inter> q_id ` set qs = {}"
  by (induction before qs rule: check_queue.induct) (auto simp: bad_queue_item_iff image_iff, metis)

lemma validate_workflow_iff:
  "validate_workflow ow = Inr () \<longleftrightarrow> (\<forall>w. ow = Some w \<longrightarrow> valid_workflow w)"
  by (cases ow)
     (auto simp: validate_workflow_def bad_workflow_bounds_def valid_workflow_def check_steps_iff)

lemma validate_run_iff: "validate_run orun = Inr () \<longleftrightarrow> (\<forall>r. orun = Some r \<longrightarrow> valid_run r)"
  by (cases orun)
     (auto simp: validate_run_def bad_run_bounds_def valid_run_def bad_tool_iff durable_limits)

lemma validate_queue_iff: "validate_queue qs = Inr () \<longleftrightarrow> valid_queue qs"
  by (auto simp: validate_queue_def valid_queue_def check_queue_iff durable_limits)

lemma validate_ok_iff: "validate_state s = Inr () \<longleftrightarrow> valid_state s"
  by (auto simp: validate_state_def valid_state_def bindR_Inr_iff validate_workflow_iff
      validate_run_iff validate_queue_iff)

lemma bindR_validate_Inr_iff:
  "bindR (validate_state s) (\<lambda>_. f) = Inr t \<longleftrightarrow> valid_state s \<and> f = Inr t"
  by (metis bindR_Inr_iff old.unit.exhaust validate_ok_iff)

lemma bindR_validate [simp]: "valid_state s \<Longrightarrow> bindR (validate_state s) (\<lambda>_. f) = f"
  by (metis bindR_simps(2) validate_ok_iff)

lemma check_steps_error:
  "check_steps before ss = Inl e \<Longrightarrow> e = ''durable journal contains an invalid or duplicate workflow step''"
  by (induction before ss rule: check_steps.induct) (auto split: if_splits)

lemma check_queue_error:
  "check_queue before qs = Inl e \<Longrightarrow> e = ''durable journal contains an invalid or duplicate queue item''"
  by (induction before qs rule: check_queue.induct) (auto split: if_splits)

lemma validate_workflow_error:
  "validate_workflow ow = Inl e \<Longrightarrow>
     e = ''durable journal workflow exceeds its bounds'' \<or>
     e = ''durable journal contains an invalid or duplicate workflow step''"
  using check_steps_error by (fastforce simp: validate_workflow_def split: option.splits if_splits)

lemma validate_run_error:
  "validate_run r = Inl e \<Longrightarrow>
     e = ''durable journal contains an invalid run or too many tool entries'' \<or>
     e = ''durable journal contains an oversized tool summary''"
  by (auto simp: validate_run_def split: option.splits if_splits)

lemma validate_queue_error:
  "validate_queue qs = Inl e \<Longrightarrow>
     e = ''durable journal contains an invalid queue'' \<or>
     e = ''durable journal contains an invalid or duplicate queue item''"
  using check_queue_error by (fastforce simp: validate_queue_def split: if_splits)

lemma validate_state_error:
  assumes "validate_state s = Inl e"
  shows "e \<in> {''durable journal workflow exceeds its bounds'',
           ''durable journal contains an invalid or duplicate workflow step'',
           ''durable journal contains an invalid run or too many tool entries'',
           ''durable journal contains an oversized tool summary'',
           ''durable journal contains an invalid queue'',
           ''durable journal contains an invalid or duplicate queue item''}"
proof -
  from assms consider "validate_workflow (ds_workflow s) = Inl e" | "validate_run (ds_run s) = Inl e"
    | "validate_queue (ds_queue s) = Inl e"
    by (auto simp only: validate_state_def bindR_Inl_iff)
  then show ?thesis
    by cases (drule validate_workflow_error validate_run_error validate_queue_error,
        erule disjE, simp only: insert_iff simp_thms, simp only: insert_iff simp_thms)+
qed


section \<open>What replay computes\<close>

lemma apply_change_Inr_iff: "apply_change c s = Inr t \<longleftrightarrow> change_effect c s = Inr t \<and> valid_state t"
  unfolding apply_change_def bindR_Inr_iff [of "change_effect c s"] bindR_validate_Inr_iff by auto

lemma change_effect_revision: "change_effect c s = Inr t \<Longrightarrow> revision t = revision s"
  by (cases c) (auto simp: bindR_Inr_iff Let_def split: if_splits)

text \<open>
  The reader's state machine: a change that is applied keeps the state valid. Its facts cover every
  sequence of changes, those of a delta in particular.
\<close>

interpretation change: guarded_machine apply_change valid_state
  by unfold_locales (simp add: apply_change_Inr_iff)

lemma apply_changes_revision: "foldR apply_change cs s = Inr t \<Longrightarrow> revision t = revision s"
  by (rule foldR_invariant [where P = "\<lambda>u. revision u = revision s"])
     (auto simp: apply_change_Inr_iff change_effect_revision)

lemma apply_changes_keep:
  "foldR apply_change cs s = Inr t \<Longrightarrow> valid_state s \<Longrightarrow> valid_state t \<and> revision t = revision s"
  by (simp add: change.foldR_inv apply_changes_revision)

lemma valid_state_revision [simp]: "valid_state (s\<lparr>revision := n\<rparr>) = valid_state s"
  by (simp add: valid_state_def)

lemma replay_delta_Inr_iff:
  "replay_delta r anchor s = Inr u \<longleftrightarrow>
     jr_base_revision r = revision s \<and> jr_base_entry_id r = Some anchor \<and>
     checked_add (revision s) 1 = Some (jr_revision r) \<and>
     (\<exists>cs t. jr_changes r = Some cs \<and> foldR apply_change cs s = Inr t \<and> valid_state t \<and>
        u = t\<lparr>revision := jr_revision r\<rparr>)"
  unfolding replay_delta_def Let_def
  by (auto simp: bindR_Inr_iff ok_or_Inr_iff validate_ok_iff split: if_splits)

lemma replay_delta_Inr:
  assumes "replay_delta r anchor s = Inr t"
  shows "valid_state t" and "revision t = jr_revision r" and "unat (revision t) = Suc (unat (revision s))"
  using assms checked_add_Some [of "revision s" 1 "jr_revision r"]
  by (auto simp: replay_delta_Inr_iff)

lemma parse_record_kind:
  "parse_record sd data = Inr r \<Longrightarrow> jr_kind r = ''snapshot'' \<or> jr_kind r = ''delta''"
  unfolding parse_record_def
  by (auto simp: bindR_Inr_iff [where f = "\<lambda>s. if revision s \<noteq> n then x else y s" for n x y]
      bindR_validate_Inr_iff split: sum.splits if_splits)

lemma parse_record_snapshot:
  "parse_record sd data = Inr r \<Longrightarrow> jr_kind r = ''snapshot'' \<Longrightarrow>
     \<exists>s. jr_state r = Some s \<and> valid_state s \<and> revision s = jr_revision r"
  unfolding parse_record_def
  by (auto simp: bindR_Inr_iff [where f = "\<lambda>s. if revision s \<noteq> n then x else y s" for n x y]
      ok_or_Inr_iff bindR_validate_Inr_iff split: sum.splits if_splits)

text \<open>
  The specification of a replay: the newest snapshot of the branch, then a chain of deltas, each
  anchored at the entry before it.
\<close>

definition extends_state :: "journal_record \<Rightarrow> string \<Rightarrow> durable_state \<Rightarrow> durable_state \<Rightarrow> bool" where
  "extends_state r anchor s u \<longleftrightarrow>
     jr_base_revision r = revision s \<and> jr_base_entry_id r = Some anchor \<and>
     unat (jr_revision r) = unat (revision s) + 1 \<and>
     (\<exists>cs t. jr_changes r = Some cs \<and> foldR apply_change cs s = Inr t \<and> valid_state t \<and>
        u = t\<lparr>revision := jr_revision r\<rparr>)"

lemma replay_delta_extends: "replay_delta r anchor s = Inr u \<longleftrightarrow> extends_state r anchor s u"
  by (simp only: replay_delta_Inr_iff extends_state_def checked_add_one_iff)

inductive delta_chain :: "serde \<Rightarrow> json list \<Rightarrow> string \<Rightarrow> durable_state \<Rightarrow> string \<Rightarrow> durable_state \<Rightarrow> bool"
  for sd where
  chain_end: "delta_chain sd [] anchor s anchor s"
| chain_extends: "entry_envelope e = Inr (eid, data) \<Longrightarrow> parse_record sd data = Inr r \<Longrightarrow>
    jr_kind r = ''delta'' \<Longrightarrow> extends_state r anchor s t \<Longrightarrow>
    delta_chain sd es eid t fin u \<Longrightarrow> delta_chain sd (e # es) anchor s fin u"

lemmas chain_step = chain_extends [unfolded replay_delta_extends [symmetric]]

inductive_simps delta_chain_Nil: "delta_chain sd [] anchor s fin u"
inductive_cases delta_chain_ConsE: "delta_chain sd (e # es) anchor s fin u"

inductive replays_to :: "serde \<Rightarrow> json list \<Rightarrow> string \<Rightarrow> durable_state \<Rightarrow> bool" for sd where
  newest_snapshot: "\<forall>x\<in>set pre. is_ok (entry_envelope x) \<Longrightarrow>
    entry_envelope e = Inr (eid, data) \<Longrightarrow> parse_record sd data = Inr r \<Longrightarrow>
    jr_kind r = ''snapshot'' \<Longrightarrow> jr_state r = Some s \<Longrightarrow>
    delta_chain sd suf eid s anchor u \<Longrightarrow> replays_to sd (pre @ e # suf) anchor u"

lemma delta_chain_valid:
  "delta_chain sd es anchor s fin u \<Longrightarrow> valid_state s \<Longrightarrow> valid_state u"
  by (induction rule: delta_chain.induct) (auto simp: replay_delta_extends [symmetric] dest: replay_delta_Inr(1))

lemma delta_chain_revision:
  "delta_chain sd es anchor s fin u \<Longrightarrow> unat (revision u) = unat (revision s) + length es"
  by (induction rule: delta_chain.induct) (auto simp: replay_delta_extends [symmetric] dest: replay_delta_Inr(3))

lemma delta_chain_append:
  "delta_chain sd es a s b t \<Longrightarrow> delta_chain sd es' b t c u \<Longrightarrow> delta_chain sd (es @ es') a s c u"
  by (induction rule: delta_chain.induct) (auto intro: delta_chain.intros)

lemma delta_chain_envelopes:
  "delta_chain sd es a s b t \<Longrightarrow> \<forall>x\<in>set es. is_ok (entry_envelope x)"
  by (induction rule: delta_chain.induct) auto

subsection \<open>The scan as a pair of filters\<close>

definition good_of :: "serde \<Rightarrow> nat \<times> json \<Rightarrow> (nat \<times> journal_record \<times> string) option" where
  "good_of sd x = (case entry_envelope (snd x) of
     Inl _ \<Rightarrow> None
   | Inr (eid, data) \<Rightarrow> (case parse_record sd data of Inl _ \<Rightarrow> None | Inr r \<Rightarrow> Some (fst x, r, eid)))"

definition bad_of :: "serde \<Rightarrow> nat \<times> json \<Rightarrow> (nat \<times> string) option" where
  "bad_of sd x = (case entry_envelope (snd x) of
     Inl _ \<Rightarrow> None
   | Inr (eid, data) \<Rightarrow> (case parse_record sd data of Inl m \<Rightarrow> Some (fst x, m) | Inr r \<Rightarrow> None))"

lemma scan_entries_eq:
  "\<forall>e\<in>set es. is_ok (entry_envelope e) \<Longrightarrow>
   scan_entries sd i es =
     Inr (List.map_filter (good_of sd) (enumerate i es), List.map_filter (bad_of sd) (enumerate i es))"
proof (induction es arbitrary: i)
  case (Cons e es)
  from Cons.prems obtain eid data where "entry_envelope e = Inr (eid, data)"
    by (auto simp: is_ok_iff)
  with Cons show ?case
    by (cases "parse_record sd data") (auto simp: good_of_def bad_of_def)
qed simp

lemma scan_entries_envelopes:
  "scan_entries sd i es = Inr x \<Longrightarrow> \<forall>e\<in>set es. is_ok (entry_envelope e)"
  by (induction es arbitrary: i x) (auto simp: bindR_Inr_iff is_ok_iff split: prod.splits)

lemma rposition_Some_iff:
  "rposition P xs = Some k \<longleftrightarrow>
     (\<exists>ys x zs. xs = ys @ x # zs \<and> length ys = k \<and> P x \<and> (\<forall>z\<in>set zs. \<not> P z))"
proof (induction xs arbitrary: k)
  case (Cons x xs)
  have none: "rposition P ys = None \<longleftrightarrow> (\<forall>z\<in>set ys. \<not> P z)" for ys
    by (induction ys) (auto split: option.splits)
  show ?case (is "_ \<longleftrightarrow> ?R (x # xs) k")
  proof (cases "rposition P xs")
    case None
    then have "\<forall>z\<in>set xs. \<not> P z" by (simp add: none)
    then have "?R (x # xs) k \<longleftrightarrow> k = 0 \<and> P x"
      by (fastforce simp: Cons_eq_append_conv)
    with None show ?thesis by auto
  next
    case (Some n)
    then have R: "?R xs n" by (rule Cons.IH [THEN iffD1])
    then have here: "?R (x # xs) (Suc n)" by (metis append_Cons length_Cons)
    have only: "k = Suc n" if "?R (x # xs) k"
    proof -
      from that obtain ys y zs where a: "x # xs = ys @ y # zs" "length ys = k" "P y" "\<forall>z\<in>set zs. \<not> P z"
        by blast
      with R have "ys \<noteq> []" by auto
      with a obtain ws where ws: "xs = ws @ y # zs" "k = Suc (length ws)" by (cases ys) auto
      with a have "rposition P xs = Some (length ws)" by (intro Cons.IH [THEN iffD2]) blast
      with Some ws show ?thesis by simp
    qed
    show ?thesis
    proof
      assume "rposition P (x # xs) = Some k"
      with Some have "k = Suc n" by simp
      with here show "?R (x # xs) k" by (simp only:)
    next
      assume "?R (x # xs) k"
      then have "k = Suc n" by (rule only)
      with Some show "rposition P (x # xs) = Some k" by simp
    qed
  qed
qed simp

lemma map_filter_split:
  "List.map_filter f xs = ys @ z # zs \<Longrightarrow>
     \<exists>as x bs. xs = as @ x # bs \<and> List.map_filter f as = ys \<and> f x = Some z \<and> List.map_filter f bs = zs"
proof (induction xs arbitrary: ys)
  case (Cons x xs)
  show ?case
  proof (cases "f x")
    case None
    with Cons obtain as y bs where "xs = as @ y # bs" "List.map_filter f as = ys" "f y = Some z"
      "List.map_filter f bs = zs" by (auto simp: map_filter_simps)
    with None show ?thesis by (intro exI [of _ "x # as"]) (auto simp: map_filter_simps)
  next
    case (Some w)
    show ?thesis
    proof (cases ys)
      case Nil
      with Some Cons.prems show ?thesis by (intro exI [of _ "[]"]) (auto simp: map_filter_simps)
    next
      case (Cons v vs)
      with Some Cons.prems Cons.IH [of vs] obtain as y bs where "xs = as @ y # bs"
        "List.map_filter f as = vs" "f y = Some z" "List.map_filter f bs = zs"
        by (auto simp: map_filter_simps)
      with Some Cons Cons.prems show ?thesis by (intro exI [of _ "x # as"]) (auto simp: map_filter_simps)
    qed
  qed
qed (simp add: map_filter_simps)

lemma enumerate_split:
  "enumerate i es = as @ x # bs \<Longrightarrow>
     \<exists>pre suf. es = pre @ snd x # suf \<and> as = enumerate i pre \<and> fst x = i + length pre \<and>
       bs = enumerate (Suc (fst x)) suf"
proof (induction es arbitrary: i as)
  case (Cons e es)
  show ?case
  proof (cases as)
    case Nil
    with Cons.prems show ?thesis by (intro exI [of _ "[]"] exI [of _ es]) auto
  next
    case (Cons y ys)
    with Cons.prems Cons.IH [of "Suc i" ys] obtain pre suf where
      "es = pre @ snd x # suf" "ys = enumerate (Suc i) pre" "fst x = Suc i + length pre"
      "bs = enumerate (Suc (fst x)) suf" by auto
    with Cons Cons.prems show ?thesis by (intro exI [of _ "e # pre"] exI [of _ suf]) auto
  qed
qed simp

lemma in_map_filter: "y \<in> set (List.map_filter f xs) \<longleftrightarrow> (\<exists>x\<in>set xs. f x = Some y)"
  by (induction xs) (auto simp: map_filter_simps split: option.splits)

lemma map_filter_append: "List.map_filter f (xs @ ys) = List.map_filter f xs @ List.map_filter f ys"
  by (induction xs) (auto simp: map_filter_simps split: option.splits)

lemma bad_of_index: "bad_of sd x = Some y \<Longrightarrow> fst y = fst x"
  by (auto simp: bad_of_def split: sum.splits prod.splits)

lemma bad_bounds:
  "y \<in> set (List.map_filter (bad_of sd) (enumerate i es)) \<Longrightarrow> i \<le> fst y \<and> fst y < i + length es"
  by (auto simp: in_map_filter in_set_enumerate_eq dest!: bad_of_index)

text \<open>A suffix without malformed records and without a snapshot is a chain of deltas.\<close>

lemma chain_iff_suffix:
  assumes "\<forall>e\<in>set es. is_ok (entry_envelope e)"
  shows "(\<exists>fin. delta_chain sd es anchor s fin u) \<longleftrightarrow>
    List.map_filter (bad_of sd) (enumerate i es) = [] \<and>
    (\<forall>x\<in>set (List.map_filter (good_of sd) (enumerate i es)). \<not> is_snapshot x) \<and>
    replay_suffix (List.map_filter (good_of sd) (enumerate i es)) anchor s = Inr u"
  using assms
proof (induction es arbitrary: i anchor s)
  case Nil
  show ?case by (auto simp: delta_chain_Nil map_filter_simps)
next
  case (Cons e es)
  from Cons.prems obtain eid data where env: "entry_envelope e = Inr (eid, data)"
    by (auto simp: is_ok_iff)
  show ?case
  proof (cases "parse_record sd data")
    case (Inl m)
    with env show ?thesis
      by (auto simp: map_filter_simps bad_of_def elim!: delta_chain_ConsE)
  next
    case (Inr r)
    note IH = Cons.IH [of eid _ "Suc i"]
    have "(\<exists>fin. delta_chain sd (e # es) anchor s fin u) \<longleftrightarrow>
        jr_kind r = ''delta'' \<and> (\<exists>t. replay_delta r anchor s = Inr t \<and> (\<exists>fin. delta_chain sd es eid t fin u))"
      (is "?L \<longleftrightarrow> ?R")
    proof
      show "?L \<Longrightarrow> ?R" using env Inr by (auto simp: replay_delta_extends elim!: delta_chain_ConsE intro!: exI)
      show "?R \<Longrightarrow> ?L" using chain_step [OF env Inr] by blast
    qed
    also have "jr_kind r = ''delta'' \<longleftrightarrow> \<not> is_snapshot (i, r, eid)"
      using parse_record_kind [OF Inr] by (auto simp: is_snapshot_def)
    finally show ?thesis
      using Cons.prems env Inr IH
      by (auto simp: map_filter_simps good_of_def bad_of_def bindR_Inr_iff)
  qed
qed

lemma replay_state_complete:
  assumes "replays_to sd es anchor u"
  shows "replay_state sd es = Inr (Some u)"
  using assms
proof cases
  case (newest_snapshot pre e eid data r s suf)
  define n where "n = length pre"
  let ?G = "\<lambda>i xs. List.map_filter (good_of sd) (enumerate i xs)"
  let ?B = "\<lambda>i xs. List.map_filter (bad_of sd) (enumerate i xs)"
  from newest_snapshot have suf_ok: "\<forall>x\<in>set suf. is_ok (entry_envelope x)"
    by (auto dest: delta_chain_envelopes)
  have "\<forall>x\<in>set es. is_ok (entry_envelope x)"
    using newest_snapshot suf_ok by auto
  then have scan: "scan_entries sd 0 es = Inr (?G 0 es, ?B 0 es)" by (rule scan_entries_eq)
  have en: "enumerate 0 es = enumerate 0 pre @ (n, e) # enumerate (Suc n) suf"
    using newest_snapshot(1) by (simp add: enumerate_append_eq n_def)
  have tail: "?B (Suc n) suf = []" "\<forall>x\<in>set (?G (Suc n) suf). \<not> is_snapshot x"
    "replay_suffix (?G (Suc n) suf) eid s = Inr u"
    using chain_iff_suffix [OF suf_ok, where anchor = eid and s = s and u = u and i = "Suc n"] newest_snapshot by blast+
  have good: "?G 0 es = ?G 0 pre @ (n, r, eid) # ?G (Suc n) suf"
    and bad: "?B 0 es = ?B 0 pre"
    unfolding en using newest_snapshot(3,4) tail(1)
    by (simp_all add: map_filter_append map_filter_simps good_of_def bad_of_def)
  have pos: "rposition is_snapshot (?G 0 es) = Some (length (?G 0 pre))"
    unfolding rposition_Some_iff good using newest_snapshot(5) tail(2)
    by (intro exI [of _ "?G 0 pre"] exI [of _ "(n, r, eid)"] exI [of _ "?G (Suc n) suf"])
       (auto simp: is_snapshot_def)
  have no_later: "find (\<lambda>(j, _). j > n) (?B 0 es) = None"
    unfolding find_None_iff bad n_def by (auto dest!: bad_bounds)
  have "replay_records (?G 0 es) (?B 0 es) = Inr (Some u)"
    unfolding replay_records_def
    using newest_snapshot(6) tail(3) no_later pos by (simp add: good nth_append del: newest_snapshot(1))
  with scan show ?thesis by (simp add: replay_state_def)
qed

lemma replay_state_sound:
  assumes "replay_state sd es = Inr (Some u)"
  shows "\<exists>anchor. replays_to sd es anchor u"
proof -
  let ?G = "\<lambda>i xs. List.map_filter (good_of sd) (enumerate i xs)"
  let ?B = "\<lambda>i xs. List.map_filter (bad_of sd) (enumerate i xs)"
  from assms obtain x where "scan_entries sd 0 es = Inr x"
    by (auto simp: replay_state_def bindR_Inr_iff)
  then have ok: "\<forall>x\<in>set es. is_ok (entry_envelope x)" by (rule scan_entries_envelopes)
  with assms have rr: "replay_records (?G 0 es) (?B 0 es) = Inr (Some u)"
    by (simp add: replay_state_def scan_entries_eq)
  then obtain k where k: "rposition is_snapshot (?G 0 es) = Some k"
    by (auto simp: replay_records_def split: option.splits list.splits if_splits)
  then obtain ys n r eid zs where good: "?G 0 es = ys @ (n, r, eid) # zs" "length ys = k"
    "jr_kind r = ''snapshot''" "\<forall>z\<in>set zs. \<not> is_snapshot z"
    by (auto simp: rposition_Some_iff is_snapshot_def)
  from map_filter_split [OF good(1)] obtain as x bs where
    split: "enumerate 0 es = as @ x # bs" "good_of sd x = Some (n, r, eid)"
      "List.map_filter (good_of sd) bs = zs" by blast
  from enumerate_split [OF split(1)] obtain pre suf where
    es: "es = pre @ snd x # suf" "bs = enumerate (Suc (fst x)) suf" "fst x = length pre"
      "as = enumerate 0 pre" by auto
  from split(2) obtain data where x: "entry_envelope (snd x) = Inr (eid, data)"
    "parse_record sd data = Inr r" "fst x = n"
    by (auto simp: good_of_def split: sum.splits prod.splits)
  from rr k good obtain s where s: "jr_state r = Some s" "replay_suffix zs eid s = Inr u"
    and later: "find (\<lambda>(j, _). j > n) (?B 0 es) = None"
    by (auto simp: replay_records_def nth_append bindR_Inr_iff ok_or_Inr_iff split: option.splits)
  have "?B (Suc n) suf = []"
  proof (rule ccontr)
    assume "?B (Suc n) suf \<noteq> []"
    then obtain y where y: "y \<in> set (?B (Suc n) suf)" by (meson list.set_sel(1))
    then have "y \<in> set (?B 0 es)"
      using es x by (auto simp: enumerate_append_eq map_filter_append map_filter_simps split: option.splits)
    moreover from y have "n < fst y" using bad_bounds by fastforce
    moreover from later have "\<not> (\<exists>y. y \<in> set (?B 0 es) \<and> n < fst y)"
      unfolding find_None_iff by (simp only: case_prod_beta simp_thms)
    ultimately show False by blast
  qed
  moreover have "\<forall>e\<in>set suf. is_ok (entry_envelope e)" using ok es by auto
  ultimately obtain fin where "delta_chain sd suf eid s fin u"
    using chain_iff_suffix [where es = suf and anchor = eid and s = s and u = u and i = "Suc n" and sd = sd] good(4) s(2) split(3) es(2) x(3) by auto
  then have "replays_to sd (pre @ snd x # suf) fin u"
    using ok es x good(3) s(1) by (intro newest_snapshot) auto
  with es show ?thesis by auto
qed

text \<open>
  C2. Replay implements its specification: it returns a state exactly when every envelope of the
  branch is canonical, the newest well-formed snapshot of the branch is followed by well-formed
  deltas only, and each delta is anchored at the entry before it, continues the revision by one
  and applies without error; the state is the one that chain ends in.
\<close>

theorem replay_refines_specification:
  "replay_state sd es = Inr (Some u) \<longleftrightarrow> (\<exists>anchor. replays_to sd es anchor u)"
  using replay_state_complete replay_state_sound by blast

text \<open>
  C3. Whatever a branch holds, a state that replay returns is valid: no journal can make the reader
  publish a workflow, run or queue out of bounds, with more than 64 tool entries or 32 queue items,
  or with duplicate ids.
\<close>

theorem replay_returns_valid:
  assumes "replay_state sd es = Inr (Some u)"
  shows "valid_state u \<and> length (ds_queue u) \<le> MAX_QUEUE_ITEMS \<and>
    (\<forall>r. ds_run u = Some r \<longrightarrow> length (run_tools r) \<le> MAX_TOOL_ENTRIES)"
proof -
  from replay_state_sound [OF assms] obtain anchor where "replays_to sd es anchor u" ..
  then have "valid_state u"
    by cases (auto dest!: parse_record_snapshot intro: delta_chain_valid)
  then show ?thesis by (auto simp: valid_state_def valid_queue_def valid_run_def durable_limits)
qed

text \<open>
  A replayed revision counts the deltas after the newest snapshot: it is the snapshot's revision
  plus the length of the suffix, without wrap-around, so no delta can be skipped or repeated.
\<close>

theorem replay_revision_contiguous:
  assumes "replays_to sd es anchor u"
  shows "\<exists>pre e suf eid data r s. es = pre @ e # suf \<and> entry_envelope e = Inr (eid, data) \<and>
    parse_record sd data = Inr r \<and> jr_state r = Some s \<and> revision s = jr_revision r \<and>
    unat (revision u) = unat (jr_revision r) + length suf"
  using assms
proof cases
  case (newest_snapshot pre e eid data r s suf)
  from newest_snapshot(4,5,6) have "revision s = jr_revision r"
    using parse_record_snapshot by fastforce
  with newest_snapshot delta_chain_revision [OF newest_snapshot(7)] show ?thesis by metis
qed

section \<open>A concrete branch\<close>

text \<open>A decoder for two payloads, a snapshot at revision 3 and a delta on top of it.\<close>

definition demo_snapshot :: durable_state where
  "demo_snapshot = default_state\<lparr>revision := 3, next_run_id := 1\<rparr>"

definition demo_state :: durable_state where
  "demo_state = default_state\<lparr>revision := 4, next_run_id := 2, next_queue_id := 7\<rparr>"

definition demo_serde :: serde where
  "demo_serde =
     \<lparr>dec_record = (\<lambda>data. case get_str ''kind'' data of
        None \<Rightarrow> Inl ''missing field kind''
      | Some k \<Rightarrow> Inr
          \<lparr>jr_format = JOURNAL_FORMAT, jr_version = JOURNAL_VERSION, jr_kind = k,
           jr_base_revision = 3, jr_revision = (if k = ''delta'' then 4 else 3),
           jr_base_entry_id = (if k = ''delta'' then Some ''e1'' else None),
           jr_state = (if k = ''delta'' then None else Some demo_snapshot),
           jr_changes = (if k = ''delta'' then Some [SetCounters 2 7] else None)\<rparr>),
      enc_state = (\<lambda>s. Inr JNull), dec_state = (\<lambda>j. Inl ''unused'')\<rparr>"

definition demo_entry :: "string \<Rightarrow> string \<Rightarrow> json" where
  "demo_entry eid kind = JObj [(''type'', JStr ''custom''), (''customType'', JStr ENTRY_TYPE),
     (''id'', JStr eid), (''data'', JObj [(''kind'', JStr kind)])]"

definition demo_branch :: "json list" where
  "demo_branch = [demo_entry ''e0'' ''other'', demo_entry ''e1'' ''snapshot'', demo_entry ''e2'' ''delta'']"

lemma demo_replay: "replay_state demo_serde demo_branch = Inr (Some demo_state)"
  by (simp add: replay_state_def demo_branch_def entry_envelope_def is_canonical_entry_def
      demo_entry_def get_str_def parse_record_def demo_serde_def replay_records_def is_snapshot_def
      replay_delta_def checked_add_def apply_change_def validate_state_def validate_workflow_def
      validate_run_def validate_queue_def demo_snapshot_def demo_state_def default_state_def
      JOURNAL_FORMAT_def JOURNAL_VERSION_def ENTRY_TYPE_def)

theorem replay_returns_valid_witness:
  "valid_state demo_state \<and> length (ds_queue demo_state) \<le> MAX_QUEUE_ITEMS"
  using replay_returns_valid [OF demo_replay] by simp

theorem replay_revision_contiguous_witness:
  "\<exists>pre e suf eid data r s. demo_branch = pre @ e # suf \<and> entry_envelope e = Inr (eid, data) \<and>
    parse_record demo_serde data = Inr r \<and> jr_state r = Some s \<and> revision s = jr_revision r \<and>
    unat (revision demo_state) = unat (jr_revision r) + length suf"
proof -
  from replay_state_sound [OF demo_replay] obtain anchor where "replays_to demo_serde demo_branch anchor demo_state" ..
  from replay_revision_contiguous [OF this] show ?thesis .
qed

end
