(* ===== verification/Durable_Journal.thy ===== *)
theory Durable_Journal
  imports Durable_Core
begin

text \<open>
  The writer of the durable journal, \<open>packages/rpi-durable/src/lib.rs\<close>: its own validator and replay,
  the difference of two states as a list of changes, the choice between a delta and a snapshot, and
  the store that is initialised from a branch and committed to under the restore gate.

  The writer decodes a record into its own type, whose kind is an enumeration. \<open>to_core\<close> relates that
  record to the reader's. The functions \<open>serde\<close> generates and the native append are parameters.
\<close>

section \<open>State\<close>

datatype journal_kind = Snapshot | Delta

record writer_record =
  wr_format :: string
  wr_version :: u64
  wr_kind :: journal_kind
  wr_base_revision :: u64
  wr_revision :: u64
  wr_base_entry_id :: "string option"
  wr_state :: "durable_state option"
  wr_changes :: "journal_change list option"

record journal_meta =
  anchor_entry_id :: "string option"
  commits_since_snapshot :: u64
  force_snapshot :: bool

definition default_meta :: journal_meta where
  "default_meta = \<lparr>anchor_entry_id = None, commits_since_snapshot = 0, force_snapshot = True\<rparr>"

record store =
  st_state :: durable_state
  st_meta :: journal_meta
  st_initialized :: bool
  st_restore_error :: "string option"

definition default_store :: store where
  "default_store = \<lparr>st_state = default_state, st_meta = default_meta, st_initialized = False,
     st_restore_error = None\<rparr>"

definition MAX_STEPS :: nat where "MAX_STEPS = 128"
definition MAX_NAME_CHARS :: nat where "MAX_NAME_CHARS = 500"
definition MAX_STEP_ID_CHARS :: nat where "MAX_STEP_ID_CHARS = 128"
definition MAX_STEP_TITLE_CHARS :: nat where "MAX_STEP_TITLE_CHARS = 1000"
definition MAX_NOTE_CHARS :: nat where "MAX_NOTE_CHARS = 4000"
definition MAX_JOURNAL_ENTRIES :: nat where "MAX_JOURNAL_ENTRIES = 64"
definition TOOL_ID_HASH_HEX_CHARS :: nat where "TOOL_ID_HASH_HEX_CHARS = 64"
definition MAX_QUEUE_TEXT_CHARS :: nat where "MAX_QUEUE_TEXT_CHARS = 4000"
definition SNAPSHOT_INTERVAL :: u64 where "SNAPSHOT_INTERVAL = 32"

lemmas writer_limits = MAX_STEPS_def MAX_NAME_CHARS_def MAX_STEP_ID_CHARS_def MAX_STEP_TITLE_CHARS_def
  MAX_NOTE_CHARS_def MAX_JOURNAL_ENTRIES_def MAX_QUEUE_TEXT_CHARS_def durable_limits

section \<open>The writer's validator\<close>

definition repeats_id :: "('a \<Rightarrow> string) \<Rightarrow> 'a list \<Rightarrow> bool" where
  "repeats_id key xs = (\<exists>i\<in>{..<length xs}. \<exists>other\<in>set (take i xs). key other = key (xs ! i))"

definition adjacent_id :: "('a \<Rightarrow> string) \<Rightarrow> 'a list \<Rightarrow> bool" where
  "adjacent_id key xs = (\<exists>i\<in>{..<length xs - 1}. key (xs ! i) = key (xs ! Suc i))"

definition w_bad_step :: "step \<Rightarrow> bool" where
  "w_bad_step s \<longleftrightarrow>
     step_id s = [] \<or> char_count (step_id s) > MAX_STEP_ID_CHARS
   \<or> char_count (step_title s) > MAX_STEP_TITLE_CHARS
   \<or> (case step_note s of None \<Rightarrow> False | Some n \<Rightarrow> char_count n > MAX_NOTE_CHARS)"

definition w_validate_workflow :: "workflow option \<Rightarrow> unit res" where
  "w_validate_workflow ow = (case ow of None \<Rightarrow> Inr () | Some w \<Rightarrow>
     if trim (wf_name w) = [] \<or> char_count (wf_name w) > MAX_NAME_CHARS \<or> wf_steps w = []
        \<or> length (wf_steps w) > MAX_STEPS
     then Inl ''durable journal workflow exceeds its bounds''
     else if \<exists>s\<in>set (wf_steps w). w_bad_step s
     then Inl ''durable journal contains an invalid workflow step''
     else if adjacent_id step_id (wf_steps w) \<or> repeats_id step_id (wf_steps w)
     then Inl ''durable journal contains duplicate workflow step IDs'' else Inr ())"

definition w_bad_tool :: "tool_checkpoint \<Rightarrow> bool" where
  "w_bad_tool t \<longleftrightarrow>
     char_count (tool_call_id t) > MAX_SUMMARY_CHARS + 1
   \<or> (case tool_call_key t of None \<Rightarrow> False | Some k \<Rightarrow> k = [] \<or> char_count k > MAX_SUMMARY_CHARS + 8)
   \<or> char_count (tool_name t) > MAX_SUMMARY_CHARS + 1
   \<or> char_count (tool_params t) > MAX_SUMMARY_CHARS + 1
   \<or> char_count (tool_result t) > MAX_SUMMARY_CHARS + 1"

definition w_validate_run :: "run_checkpoint option \<Rightarrow> unit res" where
  "w_validate_run orun = (case orun of None \<Rightarrow> Inr () | Some r \<Rightarrow>
     if trim (run_id r) = [] \<or> char_count (run_id r) > MAX_STEP_ID_CHARS
        \<or> length (run_tools r) > MAX_JOURNAL_ENTRIES
     then Inl ''durable journal contains too many tool entries''
     else if \<exists>t\<in>set (run_tools r). w_bad_tool t
     then Inl ''durable journal contains an oversized tool summary'' else Inr ())"

definition w_bad_item :: "queue_item \<Rightarrow> bool" where
  "w_bad_item q \<longleftrightarrow>
     trim (q_id q) = [] \<or> char_count (q_id q) > MAX_STEP_ID_CHARS
   \<or> char_count (q_text q) > MAX_QUEUE_TEXT_CHARS \<or> char_count (q_note q) > MAX_NOTE_CHARS"

definition w_validate_queue :: "queue_item list \<Rightarrow> unit res" where
  "w_validate_queue qs =
     (if length qs > MAX_QUEUE_ITEMS \<or> (\<exists>q\<in>set qs. w_bad_item q)
      then Inl ''durable journal contains an invalid queue''
      else if repeats_id q_id qs then Inl ''durable journal contains duplicate queue item IDs''
      else Inr ())"

definition w_validate_state :: "durable_state \<Rightarrow> unit res" where
  "w_validate_state s =
     bindR (w_validate_workflow (ds_workflow s)) (\<lambda>_.
     bindR (w_validate_run (ds_run s)) (\<lambda>_.
     w_validate_queue (ds_queue s)))"

lemma repeats_id_iff: "repeats_id key xs \<longleftrightarrow> \<not> distinct (map key xs)"
proof -
  have "distinct (map key xs) \<longleftrightarrow> (\<forall>i<length xs. \<forall>j<i. key (xs ! j) \<noteq> key (xs ! i))"
    by (auto simp: distinct_conv_nth) (metis nat_neq_iff)
  moreover have "(\<exists>other\<in>set (take i xs). key other = key (xs ! i)) \<longleftrightarrow> (\<exists>j<i. key (xs ! j) = key (xs ! i))"
    if "i < length xs" for i
    using nth_image [of i xs] that by (auto simp flip: nth_image)
  ultimately show ?thesis by (auto simp: repeats_id_def)
qed

lemma adjacent_id_repeats: "adjacent_id key xs \<Longrightarrow> \<not> distinct (map key xs)"
proof -
  assume "adjacent_id key xs"
  then obtain i where i: "i < length xs - 1" "key (xs ! i) = key (xs ! Suc i)" by (auto simp: adjacent_id_def)
  then have "Suc i < length xs" by arith
  with i show ?thesis
    using nth_eq_iff_index_eq [of "map key xs" i "Suc i"] by auto
qed

lemma w_bad_step_iff: "w_bad_step s \<longleftrightarrow> \<not> valid_step s"
  by (auto simp: w_bad_step_def valid_step_def writer_limits split: option.splits)

lemma w_bad_tool_iff: "w_bad_tool t \<longleftrightarrow> \<not> valid_tool t"
  by (auto simp: w_bad_tool_def valid_tool_def writer_limits split: option.splits)

lemma w_bad_item_iff: "w_bad_item q \<longleftrightarrow> \<not> valid_queue_item q"
  by (auto simp: w_bad_item_def valid_queue_item_def writer_limits)

lemma w_validate_ok_iff: "w_validate_state s = Inr () \<longleftrightarrow> valid_state s"
proof -
  have "w_validate_workflow ow = Inr () \<longleftrightarrow> (\<forall>w. ow = Some w \<longrightarrow> valid_workflow w)" for ow
    by (cases ow) (auto simp: w_validate_workflow_def valid_workflow_def w_bad_step_iff repeats_id_iff
        writer_limits dest: adjacent_id_repeats)
  moreover have "w_validate_run r = Inr () \<longleftrightarrow> (\<forall>x. r = Some x \<longrightarrow> valid_run x)" for r
    by (cases r) (auto simp: w_validate_run_def valid_run_def w_bad_tool_iff writer_limits)
  moreover have "w_validate_queue qs = Inr () \<longleftrightarrow> valid_queue qs" for qs
    by (auto simp: w_validate_queue_def valid_queue_def w_bad_item_iff repeats_id_iff writer_limits)
  ultimately show ?thesis
    by (simp add: w_validate_state_def bindR_Inr_iff valid_state_def)
qed

lemma bindR_w_validate [simp]: "valid_state s \<Longrightarrow> bindR (w_validate_state s) (\<lambda>_. f) = f"
  by (metis bindR_simps(2) w_validate_ok_iff)

section \<open>Applying a change and a record\<close>

definition w_tool_path :: "string \<Rightarrow> string option \<Rightarrow> tool_checkpoint \<Rightarrow> bool" where
  "w_tool_path call_id call_key t \<longleftrightarrow>
     tool_call_key t = call_key \<and> (call_key \<noteq> None \<or> tool_call_id t = call_id)"

definition w_push_tool :: "tool_checkpoint \<Rightarrow> tool_checkpoint list \<Rightarrow> tool_checkpoint list" where
  "w_push_tool t ts =
     (let ts' = ts @ [t]
      in if length ts' > MAX_JOURNAL_ENTRIES then drop (length ts' - MAX_JOURNAL_ENTRIES) ts' else ts')"

fun w_change_effect :: "journal_change \<Rightarrow> durable_state \<Rightarrow> durable_state res" where
  "w_change_effect (SetWorkflow w) s = Inr (s\<lparr>ds_workflow := w\<rparr>)"
| "w_change_effect (SetWorkflowMeta name status reason) s =
     bindR (ok_or ''durable journal workflow metadata path has no workflow'' (ds_workflow s)) (\<lambda>w.
     Inr (s\<lparr>ds_workflow := Some (w\<lparr>wf_name := name, wf_status := status, wf_reason := reason\<rparr>)\<rparr>))"
| "w_change_effect (UpdateStep sid status note) s =
     bindR (ok_or ''durable journal step path has no workflow'' (ds_workflow s)) (\<lambda>w.
     bindR (ok_or (''durable journal step path not found: '' @ sid)
              (find (\<lambda>st. step_id st = sid) (wf_steps w))) (\<lambda>_.
     Inr (s\<lparr>ds_workflow := Some (w\<lparr>wf_steps :=
            modify_first (\<lambda>st. step_id st = sid)
              (\<lambda>st. st\<lparr>step_status := status, step_note := note\<rparr>) (wf_steps w)\<rparr>)\<rparr>)))"
| "w_change_effect (SetCounters run_no queue_no) s =
     Inr (s\<lparr>next_run_id := run_no, next_queue_id := queue_no\<rparr>)"
| "w_change_effect (SetRun r) s = Inr (s\<lparr>ds_run := r\<rparr>)"
| "w_change_effect (SetRunMeta rid status started updated outcome recovery) s =
     bindR (ok_or ''durable journal run metadata path has no run'' (ds_run s)) (\<lambda>r.
     Inr (s\<lparr>ds_run := Some (r\<lparr>run_id := rid, run_status := status, run_started_revision := started,
            run_updated_revision := updated, run_outcome := outcome, run_recovery_of := recovery\<rparr>)\<rparr>))"
| "w_change_effect (AppendTool t) s =
     bindR (ok_or ''durable journal tool path has no run'' (ds_run s)) (\<lambda>r.
     Inr (s\<lparr>ds_run := Some (r\<lparr>run_tools := w_push_tool t (run_tools r)\<rparr>)\<rparr>))"
| "w_change_effect (UpdateTool call_id call_key status result) s =
     bindR (ok_or ''durable journal tool path has no run'' (ds_run s)) (\<lambda>r.
     let hit = w_tool_path call_id call_key;
         count = length (filter hit (run_tools r));
         tools = map (\<lambda>t. if hit t then t\<lparr>tool_status := status, tool_result := result\<rparr> else t) (run_tools r)
     in if count \<noteq> 1
        then Inl (''durable journal tool path matched '' @ show_nat count @ '' entries for '' @ call_id)
        else Inr (s\<lparr>ds_run := Some (r\<lparr>run_tools := tools\<rparr>)\<rparr>))"
| "w_change_effect (SetTools ts) s =
     (if length ts > MAX_JOURNAL_ENTRIES then Inl ''durable journal tool replacement exceeds its bound''
      else bindR (ok_or ''durable journal tool path has no run'' (ds_run s)) (\<lambda>r.
           Inr (s\<lparr>ds_run := Some (r\<lparr>run_tools := ts\<rparr>)\<rparr>)))"
| "w_change_effect (AppendQueue q) s =
     (if length (ds_queue s) \<ge> MAX_QUEUE_ITEMS \<or> (\<exists>x \<in> set (ds_queue s). q_id x = q_id q)
      then Inl ''durable journal queue append is invalid''
      else Inr (s\<lparr>ds_queue := ds_queue s @ [q]\<rparr>))"
| "w_change_effect (UpdateQueue q) s =
     bindR (ok_or (''durable journal queue path not found: '' @ q_id q)
              (find (\<lambda>x. q_id x = q_id q) (ds_queue s))) (\<lambda>_.
     Inr (s\<lparr>ds_queue := modify_first (\<lambda>x. q_id x = q_id q) (\<lambda>_. q) (ds_queue s)\<rparr>))"
| "w_change_effect (SetQueue qs) s =
     (if length qs > MAX_QUEUE_ITEMS then Inl ''durable journal queue replacement exceeds its bound''
      else Inr (s\<lparr>ds_queue := qs\<rparr>))"

definition w_apply_change :: "journal_change \<Rightarrow> durable_state \<Rightarrow> durable_state res" where
  "w_apply_change c s =
     bindR (w_change_effect c s) (\<lambda>t. bindR (w_validate_state t) (\<lambda>_. Inr t))"

definition apply_record :: "durable_state \<Rightarrow> writer_record \<Rightarrow> durable_state res" where
  "apply_record base r =
     (if wr_format r \<noteq> JOURNAL_FORMAT \<or> wr_version r \<noteq> JOURNAL_VERSION
      then Inl ''unsupported durable journal format or version''
      else bindR (case wr_kind r of
          Snapshot \<Rightarrow>
            if wr_changes r \<noteq> None then Inl ''durable snapshot contains delta changes''
            else ok_or ''durable snapshot has no complete state'' (wr_state r)
        | Delta \<Rightarrow>
            if wr_state r \<noteq> None then Inl ''durable delta contains a snapshot state''
            else bindR (ok_or ''durable delta has no changes'' (wr_changes r)) (\<lambda>cs.
                 if cs = [] then Inl ''durable delta must contain a change''
                 else bindR (foldR w_apply_change cs base) (\<lambda>t. Inr (t\<lparr>revision := wr_revision r\<rparr>)))) (\<lambda>t.
      if revision t \<noteq> wr_revision r
      then Inl ''durable journal resulting revision does not match its state''
      else bindR (w_validate_state t) (\<lambda>_. Inr t)))"

section \<open>Decoding a branch\<close>

definition branch_entry_identity :: "json \<Rightarrow> string option" where
  "branch_entry_identity e = (case jget ''id'' e of Some (JStr v) \<Rightarrow> if v \<noteq> [] then Some v else None | _ \<Rightarrow> None)"

definition append_entry_identity :: "json \<Rightarrow> string option" where
  "append_entry_identity r = (case jget ''entryId'' r of Some (JStr v) \<Rightarrow> if v \<noteq> [] then Some v else None | _ \<Rightarrow> None)"

definition w_envelope :: "json \<Rightarrow> (string \<times> json) res" where
  "w_envelope e =
     (if get_str ''type'' e \<noteq> Some ''custom'' \<or> get_str ''customType'' e \<noteq> Some ENTRY_TYPE
      then Inl ''filtered durable branch contains an unexpected entry type''
      else bindR (ok_or ''filtered durable branch entry has no valid native id'' (branch_entry_identity e)) (\<lambda>i.
           bindR (ok_or ''durable custom entry has no data'' (jget ''data'' e)) (\<lambda>data. Inr (i, data))))"

definition w_parse :: "(json \<Rightarrow> writer_record res) \<Rightarrow> json \<Rightarrow> writer_record res" where
  "w_parse wd data =
     (case wd data of Inl error \<Rightarrow> Inl (''invalid durable journal record: '' @ error)
      | Inr r \<Rightarrow>
        if wr_format r \<noteq> JOURNAL_FORMAT \<or> wr_version r \<noteq> JOURNAL_VERSION
        then Inl ''unsupported durable journal format or version''
        else if wr_kind r = Snapshot \<and> (wr_state r = None \<or> wr_changes r \<noteq> None)
        then Inl ''durable snapshot must contain only a complete state''
        else if wr_kind r = Delta \<and> (wr_state r \<noteq> None \<or> (case wr_changes r of None \<Rightarrow> True | Some cs \<Rightarrow> cs = []))
        then Inl ''durable delta must contain non-empty changes only''
        else if wr_revision r < wr_base_revision r then Inl ''durable journal revision moves backwards''
        else if wr_kind r = Snapshot then
          bindR (ok_or ''durable snapshot has no complete state'' (wr_state r)) (\<lambda>s.
          if revision s \<noteq> wr_revision r then Inl ''durable snapshot state has the wrong revision''
          else bindR (w_validate_state s) (\<lambda>_. Inr r))
        else Inr r)"

fun w_scan :: "(json \<Rightarrow> writer_record res) \<Rightarrow> nat \<Rightarrow> json list \<Rightarrow>
    ((nat \<times> writer_record \<times> string) list \<times> (nat \<times> string) list) res" where
  "w_scan wd i [] = Inr ([], [])"
| "w_scan wd i (e # es) =
     bindR (w_envelope e) (\<lambda>(eid, data).
     bindR (w_scan wd (Suc i) es) (\<lambda>(records, invalid).
     case w_parse wd data of
       Inr r \<Rightarrow> Inr ((i, r, eid) # records, invalid)
     | Inl error \<Rightarrow> Inr (records, (i, error) # invalid)))"

definition w_select :: "(nat \<times> writer_record \<times> string) list \<Rightarrow> (nat \<times> string) list \<Rightarrow>
    (nat \<times> writer_record \<times> string) list res" where
  "w_select records invalid =
     (case rposition (\<lambda>x. wr_kind (fst (snd x)) = Snapshot) records of
        Some k \<Rightarrow>
          (case find (\<lambda>(j, _). j > fst (records ! k)) invalid of
             Some (_, error) \<Rightarrow> Inl error
           | None \<Rightarrow> Inr (drop k records))
      | None \<Rightarrow> (case invalid of (_, error) # _ \<Rightarrow> Inl error | [] \<Rightarrow> Inr records))"

definition w_base :: "(nat \<times> writer_record \<times> string) list \<Rightarrow> (durable_state \<times> string option \<times> bool) res" where
  "w_base records = (case records of
     [] \<Rightarrow> Inr (default_state, None, True)
   | (_, r, eid) # _ \<Rightarrow>
       if wr_kind r \<noteq> Snapshot then Inl ''durable journal has no self-contained snapshot base''
       else bindR (apply_record default_state r) (\<lambda>s. Inr (s, Some eid, False)))"

fun w_suffix :: "(nat \<times> writer_record \<times> string) list \<Rightarrow> string option \<Rightarrow> durable_state \<Rightarrow> u64 \<Rightarrow>
    (durable_state \<times> string option \<times> u64) res" where
  "w_suffix [] anchor s n = Inr (s, anchor, n)"
| "w_suffix ((i, r, eid) # rest) anchor s n =
     (if wr_kind r = Snapshot then Inl ''unexpected durable snapshot after the selected snapshot anchor''
      else if wr_base_revision r \<noteq> revision s \<or> wr_base_entry_id r \<noteq> anchor
      then Inl ''durable journal delta has a gap or wrong branch anchor''
      else bindR (ok_or ''durable revision overflow'' (checked_add (revision s) 1)) (\<lambda>next.
           if wr_revision r \<noteq> next then Inl ''durable journal delta has a non-contiguous revision''
           else bindR (apply_record s r) (\<lambda>t. w_suffix rest (Some eid) t (sat_add n 1))))"

definition decode_branch :: "(json \<Rightarrow> writer_record res) \<Rightarrow> json list \<Rightarrow> (durable_state \<times> journal_meta) res" where
  "decode_branch wd entries =
     bindR (w_scan wd 0 entries) (\<lambda>(records, invalid).
     bindR (w_select records invalid) (\<lambda>records.
     bindR (w_base records) (\<lambda>(restored, anchor, force).
     bindR (w_validate_state restored) (\<lambda>_.
     bindR (w_suffix (drop 1 records) anchor restored 0) (\<lambda>(restored, anchor, n).
     Inr (restored, \<lparr>anchor_entry_id = anchor, commits_since_snapshot = n, force_snapshot = force\<rparr>))))))"

section \<open>The writer and the reader agree\<close>

lemma w_tool_path_eq: "w_tool_path = tool_path_matches"
  by (intro ext) (auto simp: w_tool_path_def tool_path_matches_def)

lemma w_push_tool_eq: "w_push_tool = push_bounded_tool"
  by (intro ext) (simp add: w_push_tool_def push_bounded_tool_def Let_def MAX_JOURNAL_ENTRIES_def MAX_TOOL_ENTRIES_def)

lemma w_change_effect_eq: "w_change_effect c s = change_effect c s"
  by (cases c) (simp_all add: w_tool_path_eq w_push_tool_eq MAX_JOURNAL_ENTRIES_def MAX_TOOL_ENTRIES_def)

lemma w_apply_change_Inr_iff: "w_apply_change c s = Inr t \<longleftrightarrow> change_effect c s = Inr t \<and> valid_state t"
  by (cases "change_effect c s")
     (auto simp: w_apply_change_def w_change_effect_eq bindR_Inr_iff w_validate_ok_iff)

text \<open>The value of a result, as \<open>Result::ok\<close> gives it: equal successes, whatever the messages.\<close>

definition ok :: "'e + 'a \<Rightarrow> 'a option" where
  "ok m = (case m of Inl _ \<Rightarrow> None | Inr x \<Rightarrow> Some x)"

lemma ok_simps [simp]: "ok (Inl e) = None" "ok (Inr x) = Some x"
  by (simp_all add: ok_def)

lemma ok_bindR: "ok (bindR m f) = Option.bind (ok m) (\<lambda>x. ok (f x))"
  by (cases m) auto

lemma ok_Some_iff: "ok m = Some x \<longleftrightarrow> m = Inr x"
  by (cases m) auto

lemma ok_ok_or [simp]: "ok (ok_or e m) = m"
  by (cases m) auto

lemma ok_foldR_cong:
  "(\<And>c s. ok (f c s) = ok (g c s)) \<Longrightarrow> ok (foldR f cs s) = ok (foldR g cs s)"
proof (induction cs arbitrary: s)
  case (Cons c cs)
  then show ?case by (cases "f c s"; cases "g c s") (auto simp: ok_bindR, (metis ok_simps option.distinct(1) option.inject)+)
qed simp

lemma ok_w_apply: "ok (w_apply_change c s) = ok (apply_change c s)"
  by (rule option.expand; cases "w_apply_change c s"; cases "apply_change c s")
     (auto simp: ok_def, (metis apply_change_Inr_iff w_apply_change_Inr_iff sum.distinct(1) sum.inject(2))+)

definition kind_str :: "journal_kind \<Rightarrow> string" where
  "kind_str k = (case k of Snapshot \<Rightarrow> ''snapshot'' | Delta \<Rightarrow> ''delta'')"

definition to_core :: "writer_record \<Rightarrow> journal_record" where
  "to_core r =
     \<lparr>jr_format = wr_format r, jr_version = wr_version r, jr_kind = kind_str (wr_kind r),
      jr_base_revision = wr_base_revision r, jr_revision = wr_revision r,
      jr_base_entry_id = wr_base_entry_id r, jr_state = wr_state r, jr_changes = wr_changes r\<rparr>"

text \<open>
  Both decoders are derived from the same fields; they differ in the kind, which the writer's decoder
  rejects when it is not one of its two variants.
\<close>

definition decoders_agree :: "serde \<Rightarrow> (json \<Rightarrow> writer_record res) \<Rightarrow> bool" where
  "decoders_agree sd wd \<longleftrightarrow>
     (\<forall>data. case wd data of
        Inr r \<Rightarrow> dec_record sd data = Inr (to_core r)
      | Inl _ \<Rightarrow> (case dec_record sd data of Inl _ \<Rightarrow> True
                 | Inr r \<Rightarrow> jr_kind r \<noteq> ''snapshot'' \<and> jr_kind r \<noteq> ''delta''))"

lemma to_core_simps [simp]:
  "jr_format (to_core r) = wr_format r" "jr_version (to_core r) = wr_version r"
  "jr_kind (to_core r) = kind_str (wr_kind r)" "jr_base_revision (to_core r) = wr_base_revision r"
  "jr_revision (to_core r) = wr_revision r" "jr_base_entry_id (to_core r) = wr_base_entry_id r"
  "jr_state (to_core r) = wr_state r" "jr_changes (to_core r) = wr_changes r"
  by (simp_all add: to_core_def)

lemma kind_str_iff [simp]:
  "kind_str k = ''snapshot'' \<longleftrightarrow> k = Snapshot" "kind_str k = ''delta'' \<longleftrightarrow> k = Delta"
  by (cases k; simp add: kind_str_def)+

lemma w_envelope_eq: "w_envelope e = entry_envelope e"
proof -
  have "branch_entry_identity e = filter_opt (\<lambda>i. i \<noteq> []) (get_str ''id'' e)"
    by (auto simp: branch_entry_identity_def get_str_def split: option.splits json.splits)
  then show ?thesis by (simp add: w_envelope_def entry_envelope_def is_canonical_entry_def)
qed

definition well_parsed :: "writer_record \<Rightarrow> bool" where
  "well_parsed r \<longleftrightarrow> wr_format r = JOURNAL_FORMAT \<and> wr_version r = JOURNAL_VERSION \<and>
     (case wr_kind r of
        Snapshot \<Rightarrow> wr_changes r = None \<and> (\<exists>s. wr_state r = Some s \<and> revision s = wr_revision r \<and> valid_state s)
      | Delta \<Rightarrow> wr_state r = None \<and> (\<exists>cs. wr_changes r = Some cs \<and> cs \<noteq> []))"

lemma w_parse_Inr_iff:
  "w_parse wd data = Inr r \<longleftrightarrow> wd data = Inr r \<and> well_parsed r \<and> \<not> wr_revision r < wr_base_revision r"
proof (cases "wd data")
  case (Inl e)
  then show ?thesis by (simp add: w_parse_def)
next
  case (Inr r')
  show ?thesis
  proof (cases "wr_kind r'")
    case Snapshot
    with Inr show ?thesis
      by (cases "wr_state r'")
         (auto simp: w_parse_def well_parsed_def bindR_Inr_iff w_validate_ok_iff split: if_splits)
  next
    case Delta
    with Inr show ?thesis
      by (cases "wr_changes r'") (auto simp: w_parse_def well_parsed_def split: if_splits)
  qed
qed

lemma w_parse_well_parsed: "w_parse wd data = Inr r \<Longrightarrow> well_parsed r"
  by (simp add: w_parse_Inr_iff)

lemma parse_record_Inr_iff:
  "parse_record sd data = Inr r \<longleftrightarrow> dec_record sd data = Inr r \<and>
     jr_format r = JOURNAL_FORMAT \<and> jr_version r = JOURNAL_VERSION \<and> \<not> jr_revision r < jr_base_revision r \<and>
     (jr_kind r = ''snapshot'' \<and> jr_changes r = None \<and>
        (\<exists>s. jr_state r = Some s \<and> revision s = jr_revision r \<and> valid_state s) \<or>
      jr_kind r = ''delta'' \<and> jr_state r = None \<and> (\<exists>cs. jr_changes r = Some cs \<and> cs \<noteq> []))"
proof (cases "dec_record sd data")
  case (Inl e)
  then show ?thesis by (simp add: parse_record_def)
next
  case (Inr r')
  consider "jr_kind r' = ''snapshot''" | "jr_kind r' = ''delta''"
    | "jr_kind r' \<noteq> ''snapshot''" "jr_kind r' \<noteq> ''delta''" by blast
  then show ?thesis
  proof cases
    case 1
    with Inr show ?thesis
      by (cases "jr_state r'")
         (auto simp: parse_record_def bindR_Inr_iff validate_ok_iff split: if_splits)
  next
    case 2
    with Inr show ?thesis
      by (cases "jr_changes r'") (auto simp: parse_record_def split: if_splits)
  next
    case 3
    with Inr show ?thesis by (auto simp: parse_record_def split: if_splits)
  qed
qed

lemma parse_to_core:
  assumes "well_parsed r" "\<not> wr_revision r < wr_base_revision r" "dec_record sd data = Inr (to_core r)"
  shows "parse_record sd data = Inr (to_core r)"
  using assms by (cases "wr_kind r") (auto simp: parse_record_Inr_iff well_parsed_def kind_str_def)

lemma parse_agree:
  assumes "decoders_agree sd wd"
  shows "ok (parse_record sd data) = map_option to_core (ok (w_parse wd data))"
proof (cases "w_parse wd data")
  case (Inr r)
  then have "wd data = Inr r" by (simp add: w_parse_Inr_iff)
  with assms [unfolded decoders_agree_def, rule_format, of data]
  have "dec_record sd data = Inr (to_core r)" by simp
  moreover from Inr have "well_parsed r" "\<not> wr_revision r < wr_base_revision r"
    by (simp_all add: w_parse_Inr_iff)
  ultimately have "parse_record sd data = Inr (to_core r)" by (rule parse_to_core [rotated 2])
  with Inr show ?thesis by simp
next
  case (Inl e)
  have "parse_record sd data \<noteq> Inr c" for c
  proof
    assume c: "parse_record sd data = Inr c"
    show False
    proof (cases "wd data")
      case (Inl e')
      from c have dec: "dec_record sd data = Inr c"
        and kind: "jr_kind c = ''snapshot'' \<or> jr_kind c = ''delta''"
        unfolding parse_record_Inr_iff by blast+
      from assms [unfolded decoders_agree_def, rule_format, of data] Inl dec kind
      show False by simp
    next
      case (Inr r)
      from assms [unfolded decoders_agree_def, rule_format, of data] Inr
      have "dec_record sd data = Inr (to_core r)" by simp
      with c have "w_parse wd data = Inr r"
        using Inr by (cases "wr_kind r")
          (auto simp: parse_record_Inr_iff w_parse_Inr_iff well_parsed_def kind_str_def)
      with \<open>w_parse wd data = Inl e\<close> show False by simp
    qed
  qed
  with Inl show ?thesis by (cases "parse_record sd data") auto
qed

definition core_entry :: "nat \<times> writer_record \<times> string \<Rightarrow> nat \<times> journal_record \<times> string" where
  "core_entry x = (fst x, to_core (fst (snd x)), snd (snd x))"

lemma scan_agree:
  assumes "decoders_agree sd wd"
  shows "case w_scan wd i es of
      Inl _ \<Rightarrow> \<not> is_ok (scan_entries sd i es)
    | Inr (rs, invs) \<Rightarrow> (\<exists>invs'. scan_entries sd i es = Inr (map core_entry rs, invs') \<and>
        map fst invs' = map fst invs \<and> (\<forall>x\<in>set rs. well_parsed (fst (snd x))))"
proof (induction es arbitrary: i)
  case (Cons e es)
  show ?case
  proof (cases "entry_envelope e")
    case (Inl m)
    then show ?thesis by (simp add: w_envelope_eq)
  next
    case (Inr x)
    obtain eid data where x: "x = (eid, data)" by force
    note IH = Cons.IH [of "Suc i"]
    show ?thesis
    proof (cases "w_scan wd (Suc i) es")
      case (Inl m)
      with IH Inr x show ?thesis by (auto simp: w_envelope_eq is_ok_iff bindR_Inr_iff)
    next
      case (Inr y)
      obtain rs invs where y: "y = (rs, invs)" by force
      with IH Inr obtain invs' where scan: "scan_entries sd (Suc i) es = Inr (map core_entry rs, invs')"
        "map fst invs' = map fst invs" "\<forall>x\<in>set rs. well_parsed (fst (snd x))" by auto
      from parse_agree [OF assms, of data] show ?thesis
        using scan \<open>entry_envelope e = Inr x\<close> x Inr y w_parse_well_parsed [of wd data]
        by (cases "w_parse wd data"; cases "parse_record sd data")
           (auto simp: w_envelope_eq core_entry_def)
    qed
  qed
qed simp

lemma apply_record_delta:
  assumes "well_parsed r" and "wr_kind r = Delta"
  shows "apply_record s r = Inr t \<longleftrightarrow>
    (\<exists>cs u. wr_changes r = Some cs \<and> foldR apply_change cs s = Inr u \<and>
       valid_state u \<and> t = u\<lparr>revision := wr_revision r\<rparr>)"
proof -
  from assms obtain cs where cs: "wr_changes r = Some cs" "cs \<noteq> []" "wr_state r = None"
    "wr_format r = JOURNAL_FORMAT" "wr_version r = JOURNAL_VERSION"
    by (auto simp: well_parsed_def)
  have "foldR w_apply_change cs s = Inr u \<longleftrightarrow> foldR apply_change cs s = Inr u" for u
    using ok_foldR_cong [of w_apply_change apply_change cs s] ok_w_apply by (metis ok_Some_iff)
  then show ?thesis
    using cs assms(2) by (cases "foldR apply_change cs s") (auto simp: apply_record_def bindR_Inr_iff
        w_validate_ok_iff intro!: exI [of _ "_\<lparr>revision := wr_revision r\<rparr>"])
qed

lemma apply_record_snapshot:
  assumes "well_parsed r" and "wr_kind r = Snapshot"
  shows "apply_record base r = Inr t \<longleftrightarrow> wr_state r = Some t"
  using assms by (auto simp: well_parsed_def apply_record_def bindR_Inr_iff w_validate_ok_iff)

text \<open>The suffix: the writer counts the deltas and keeps the identifier of the last one.\<close>

lemma w_suffix_agree:
  assumes "\<forall>x\<in>set rs. well_parsed (fst (snd x)) \<and> wr_kind (fst (snd x)) = Delta"
  shows "w_suffix rs (Some a) s n = Inr (t, b, m) \<longleftrightarrow>
     replay_suffix (map core_entry rs) a s = Inr t \<and>
     b = Some (if rs = [] then a else snd (snd (last rs))) \<and> m = fold (\<lambda>_ k. sat_add k 1) rs n"
  using assms
proof (induction rs arbitrary: a s n)
  case Nil
  show ?case by auto
next
  case (Cons x rs)
  obtain i r eid where x: "x = (i, r, eid)" by (metis prod_cases3)
  from Cons.prems x have r: "well_parsed r" "wr_kind r = Delta" by auto
  have "w_suffix (x # rs) (Some a) s n = Inr (t, b, m) \<longleftrightarrow>
     (\<exists>u. replay_delta (to_core r) a s = Inr u \<and> w_suffix rs (Some eid) u (sat_add n 1) = Inr (t, b, m))"
    using r x by (auto simp: apply_record_delta replay_delta_Inr_iff bindR_Inr_iff ok_or_Inr_iff)
  then show ?case
    using Cons x by (auto simp: core_entry_def bindR_Inr_iff)
qed

text \<open>Both replays, characterised by the newest snapshot of the scanned records.\<close>

lemma find_index_None: "find (\<lambda>(j, _). j > n) xs = None \<longleftrightarrow> (\<forall>j\<in>set (map fst xs). \<not> n < j)"
  by (auto simp: find_None_iff)

lemma rposition_None_iff: "rposition P xs = None \<longleftrightarrow> (\<forall>x\<in>set xs. \<not> P x)"
  by (induction xs) (auto split: option.splits)

lemma rposition_SomeI: "P x \<Longrightarrow> \<forall>z\<in>set zs. \<not> P z \<Longrightarrow> rposition P (ys @ x # zs) = Some (length ys)"
  unfolding rposition_Some_iff by blast

lemma replay_records_None_iff: "replay_records rs invs = Inr None \<longleftrightarrow> rs = [] \<and> invs = []"
proof -
  have "replay_records rs invs = Inr None \<Longrightarrow> rposition is_snapshot rs = None"
    by (auto simp: replay_records_def bindR_Inr_iff split: option.splits prod.splits)
  then show ?thesis
    by (cases invs) (auto simp: replay_records_def split: option.splits if_splits)
qed

lemma replay_records_Some_iff:
  "replay_records rs invs = Inr (Some u) \<longleftrightarrow>
     (\<exists>ys x zs s. rs = ys @ x # zs \<and> is_snapshot x \<and> (\<forall>z\<in>set zs. \<not> is_snapshot z) \<and>
        (\<forall>j\<in>set (map fst invs). \<not> fst x < j) \<and> jr_state (fst (snd x)) = Some s \<and>
        replay_suffix zs (snd (snd x)) s = Inr u)"
  (is "_ \<longleftrightarrow> ?R")
proof -
  let ?body = "\<lambda>k. let (index, r, eid) = rs ! k
         in (case find (\<lambda>(j, _). j > index) invs of
                Some (_, error) \<Rightarrow> Inl error
              | None \<Rightarrow>
                  bindR (ok_or ''durable snapshot has no state'' (jr_state r)) (\<lambda>s.
                  bindR (replay_suffix (drop (k + 1) rs) eid s) (\<lambda>t. Inr (Some t))))"
  have body: "?body (length ys) = Inr (Some u) \<longleftrightarrow> (\<forall>j\<in>set (map fst invs). \<not> fst x < j) \<and>
      (\<exists>s. jr_state (fst (snd x)) = Some s \<and> replay_suffix zs (snd (snd x)) s = Inr u)"
    if "rs = ys @ x # zs" for ys x zs
    using that find_index_None [of "fst x" invs] by (cases "find (\<lambda>(j, _). j > fst x) invs")
      (simp_all add: case_prod_beta bindR_Inr_iff ok_or_Inr_iff del: set_map)
  show ?thesis
  proof
    assume rr: "replay_records rs invs = Inr (Some u)"
    then obtain k where k: "rposition is_snapshot rs = Some k"
      by (auto simp: replay_records_def split: option.splits list.splits if_splits)
    then obtain ys x zs where "rs = ys @ x # zs" "k = length ys" "is_snapshot x" "\<forall>z\<in>set zs. \<not> is_snapshot z"
      by (auto simp: rposition_Some_iff)
    note x = this
    from rr k x(2) have "?body (length ys) = Inr (Some u)" by (simp only: replay_records_def option.case)
    with body [OF x(1)] have "(\<forall>j\<in>set (map fst invs). \<not> fst x < j) \<and>
      (\<exists>s. jr_state (fst (snd x)) = Some s \<and> replay_suffix zs (snd (snd x)) s = Inr u)" by (rule iffD1)
    with x(1,3,4) show ?R by blast
  next
    assume ?R
    then obtain ys x zs where x: "rs = ys @ x # zs" "is_snapshot x" "\<forall>z\<in>set zs. \<not> is_snapshot z"
      and "(\<forall>j\<in>set (map fst invs). \<not> fst x < j) \<and>
        (\<exists>s. jr_state (fst (snd x)) = Some s \<and> replay_suffix zs (snd (snd x)) s = Inr u)" by blast
    with body have "?body (length ys) = Inr (Some u)" by blast
    moreover from x have "rposition is_snapshot rs = Some (length ys)" by (simp add: rposition_SomeI)
    ultimately show "replay_records rs invs = Inr (Some u)" by (simp add: replay_records_def)
  qed
qed

lemma replay_records_core_iff:
  assumes "map fst invs' = map fst invs"
  shows "replay_records (map core_entry rs) invs' = Inr (Some u) \<longleftrightarrow>
     (\<exists>ys x zs s. rs = ys @ x # zs \<and> is_snapshot (core_entry x) \<and> (\<forall>z\<in>set zs. \<not> is_snapshot (core_entry z)) \<and>
        (\<forall>j\<in>set (map fst invs). \<not> fst x < j) \<and> wr_state (fst (snd x)) = Some s \<and>
        replay_suffix (map core_entry zs) (snd (snd x)) s = Inr u)"
  (is "?L \<longleftrightarrow> ?R")
proof
  assume ?L
  then obtain ys' x' zs' s where *: "map core_entry rs = ys' @ x' # zs'" "is_snapshot x'"
    "\<forall>z\<in>set zs'. \<not> is_snapshot z" "\<forall>j\<in>set (map fst invs). \<not> fst x' < j"
    "jr_state (fst (snd x')) = Some s" "replay_suffix zs' (snd (snd x')) s = Inr u"
    unfolding replay_records_Some_iff assms by blast
  from *(1) obtain ys x zs where "rs = ys @ x # zs" "x' = core_entry x" "zs' = map core_entry zs"
    by (auto simp: map_eq_append_conv)
  with * show ?R
    by (intro exI [of _ ys] exI [of _ x] exI [of _ zs] exI [of _ s]) (simp add: core_entry_def)
next
  assume ?R
  then obtain ys x zs s where *: "rs = ys @ x # zs" "is_snapshot (core_entry x)"
    "\<forall>z\<in>set zs. \<not> is_snapshot (core_entry z)" "\<forall>j\<in>set (map fst invs). \<not> fst x < j"
    "wr_state (fst (snd x)) = Some s" "replay_suffix (map core_entry zs) (snd (snd x)) s = Inr u"
    by blast
  then show ?L
    unfolding replay_records_Some_iff assms
    by (intro exI [of _ "map core_entry ys"] exI [of _ "core_entry x"] exI [of _ "map core_entry zs"] exI [of _ s])
       (simp add: core_entry_def)
qed

lemma decode_branch_Inr_iff:
  assumes "w_scan wd 0 es = Inr (rs, invs)" and "\<forall>x\<in>set rs. well_parsed (fst (snd x))"
  shows "decode_branch wd es = Inr (t, meta) \<longleftrightarrow>
     rs = [] \<and> invs = [] \<and> t = default_state \<and> meta = default_meta \<or>
     (\<exists>ys x zs s. rs = ys @ x # zs \<and> is_snapshot (core_entry x) \<and> (\<forall>z\<in>set zs. \<not> is_snapshot (core_entry z)) \<and>
        (\<forall>j\<in>set (map fst invs). \<not> fst x < j) \<and> wr_state (fst (snd x)) = Some s \<and>
        replay_suffix (map core_entry zs) (snd (snd x)) s = Inr t \<and>
        meta = \<lparr>anchor_entry_id = Some (snd (snd (last (x # zs)))),
                commits_since_snapshot = fold (\<lambda>_ k. sat_add k 1) zs 0, force_snapshot = False\<rparr>)"
  (is "_ \<longleftrightarrow> ?E \<or> ?R")
proof -
  let ?P = "\<lambda>x :: nat \<times> writer_record \<times> string. wr_kind (fst (snd x)) = Snapshot"
  have P: "is_snapshot (core_entry x) \<longleftrightarrow> ?P x" for x by (simp add: is_snapshot_def core_entry_def)
  let ?rest = "\<lambda>records. bindR (w_base records) (\<lambda>(restored, anchor, force).
     bindR (w_validate_state restored) (\<lambda>_.
     bindR (w_suffix (drop 1 records) anchor restored 0) (\<lambda>(restored, anchor, n).
     Inr (restored, \<lparr>anchor_entry_id = anchor, commits_since_snapshot = n, force_snapshot = force\<rparr>))))"
  have dec: "decode_branch wd es = bindR (w_select rs invs) ?rest"
    using assms(1) by (simp add: decode_branch_def)
  have rest: "?rest (x # zs) = Inr (t, meta) \<longleftrightarrow> (\<exists>s. wr_state (fst (snd x)) = Some s \<and>
        replay_suffix (map core_entry zs) (snd (snd x)) s = Inr t \<and>
        meta = \<lparr>anchor_entry_id = Some (snd (snd (last (x # zs)))),
                commits_since_snapshot = fold (\<lambda>_ k. sat_add k 1) zs 0, force_snapshot = False\<rparr>)"
    if "?P x" "\<forall>z\<in>set (x # zs). well_parsed (fst (snd z))" "\<forall>z\<in>set zs. \<not> ?P z" for x zs
  proof -
    obtain i r eid where x: "x = (i, r, eid)" by (metis prod_cases3)
    with that have r: "well_parsed r" "wr_kind r = Snapshot" by auto
    have "\<forall>z\<in>set zs. well_parsed (fst (snd z)) \<and> wr_kind (fst (snd z)) = Delta"
      using that by (auto intro: journal_kind.exhaust)
    note suffix = w_suffix_agree [OF this]
    from r have "valid_state s" if "wr_state r = Some s" for s
      using that by (auto simp: well_parsed_def)
    then show ?thesis
      using r x by (auto simp: w_base_def bindR_Inr_iff apply_record_snapshot suffix w_validate_ok_iff)
  qed
  show ?thesis
  proof (cases "rposition ?P rs")
    case None
    then have no: "\<forall>x\<in>set rs. \<not> ?P x" by (simp add: rposition_None_iff)
    then have "\<not> ?R" by (auto simp: P)
    moreover have "decode_branch wd es = Inr (t, meta) \<longleftrightarrow> ?E"
      using None no by (cases invs; cases rs)
        (auto simp: dec w_select_def w_base_def default_meta_def w_validate_ok_iff [symmetric]
          default_state_def w_validate_state_def w_validate_workflow_def w_validate_run_def
          w_validate_queue_def repeats_id_def)
    ultimately show ?thesis by blast
  next
    case (Some k)
    then obtain ys x zs where rs: "rs = ys @ x # zs" "k = length ys" "?P x" "\<forall>z\<in>set zs. \<not> ?P z"
      by (auto simp: rposition_Some_iff)
    have uniq: "ys' = ys \<and> x' = x \<and> zs' = zs"
      if "rs = ys' @ x' # zs'" "?P x'" "\<forall>z\<in>set zs'. \<not> ?P z" for ys' x' zs'
    proof -
      from that have "rposition ?P rs = Some (length ys')" by (simp add: rposition_SomeI)
      with Some rs(2) have "length ys' = length ys" by simp
      with that(1) rs(1) show ?thesis by simp
    qed
    have "decode_branch wd es = Inr (t, meta) \<longleftrightarrow>
        (\<forall>j\<in>set (map fst invs). \<not> fst x < j) \<and> ?rest (x # zs) = Inr (t, meta)"
      using Some rs find_index_None [of "fst x" invs] by (cases "find (\<lambda>(j, _). j > fst x) invs")
        (simp_all add: dec w_select_def case_prod_beta del: set_map)
    also have "?rest (x # zs) = Inr (t, meta) \<longleftrightarrow> (\<exists>s. wr_state (fst (snd x)) = Some s \<and>
        replay_suffix (map core_entry zs) (snd (snd x)) s = Inr t \<and>
        meta = \<lparr>anchor_entry_id = Some (snd (snd (last (x # zs)))),
                commits_since_snapshot = fold (\<lambda>_ k. sat_add k 1) zs 0, force_snapshot = False\<rparr>)"
      by (rule rest) (use rs assms(2) in auto)
    also have "(\<forall>j\<in>set (map fst invs). \<not> fst x < j) \<and> \<dots> \<longleftrightarrow> ?R"
      unfolding P using rs(1,3,4) uniq by (intro iffI; elim exE conjE; blast)
    finally show ?thesis using rs by auto
  qed
qed

lemma w_scan_indices:
  "w_scan wd i es = Inr (rs, invs) \<Longrightarrow>
     fst ` set rs \<inter> fst ` set invs = {} \<and> fst ` set rs \<union> fst ` set invs \<subseteq> {i..<i + length es}"
proof (induction es arbitrary: i rs invs)
  case (Cons e es)
  from Cons.prems obtain eid data rs' invs' where
    *: "w_envelope e = Inr (eid, data)" "w_scan wd (Suc i) es = Inr (rs', invs')"
    by (auto simp: bindR_Inr_iff)
  have "fst ` set rs' \<inter> fst ` set invs' = {} \<and>
      fst ` set rs' \<union> fst ` set invs' \<subseteq> {Suc i..<Suc i + length es}"
    by (rule Cons.IH) (rule *(2))
  moreover from * Cons.prems have "(\<exists>r. rs = (i, r, eid) # rs' \<and> invs = invs') \<or> (\<exists>m. rs = rs' \<and> invs = (i, m) # invs')"
    by (auto split: sum.splits)
  ultimately show ?case
    by (elim disjE exE conjE; simp; intro conjI; force)
qed simp

lemma w_scan_last:
  "w_scan wd i es = Inr (rs, invs) \<Longrightarrow> es \<noteq> [] \<Longrightarrow> i + length es - 1 \<notin> fst ` set invs \<Longrightarrow>
     rs \<noteq> [] \<and> (\<exists>data. entry_envelope (last es) = Inr (snd (snd (last rs)), data))"
proof (induction es arbitrary: i rs invs)
  case (Cons e es)
  from Cons.prems obtain eid data rs' invs' where
    *: "entry_envelope e = Inr (eid, data)" "w_scan wd (Suc i) es = Inr (rs', invs')"
    by (auto simp: bindR_Inr_iff w_envelope_eq)
  with Cons.prems have c: "(\<exists>r. rs = (i, r, eid) # rs' \<and> invs = invs') \<or> (\<exists>m. rs = rs' \<and> invs = (i, m) # invs')"
    by (auto simp: w_envelope_eq split: sum.splits)
  show ?case
  proof (cases "es = []")
    case True
    with * c Cons.prems show ?thesis by auto
  next
    case False
    with c Cons.prems have "Suc i + length es - 1 \<notin> fst ` set invs'" by auto
    with Cons.IH [OF *(2) False] c False show ?thesis by auto
  qed
qed simp

lemma delta_chain_anchor:
  "delta_chain sd es a s b t \<Longrightarrow> if es = [] then b = a else \<exists>d. entry_envelope (last es) = Inr (b, d)"
  by (induction rule: delta_chain.induct) (auto split: if_splits)

lemma replays_to_anchor: "replays_to sd es a s \<Longrightarrow> es \<noteq> [] \<and> (\<exists>d. entry_envelope (last es) = Inr (a, d))"
  by (induction rule: replays_to.induct) (auto dest!: delta_chain_anchor split: if_splits)

lemma decode_branch_cases:
  assumes "decoders_agree sd wd" and "decode_branch wd es = Inr (t, meta)"
  obtains (empty) "es = []" "t = default_state" "meta = default_meta"
  | (replayed) a n where "replays_to sd es a t"
      "meta = \<lparr>anchor_entry_id = Some a, commits_since_snapshot = n, force_snapshot = False\<rparr>"
proof -
  from assms(2) obtain rs invs where scan: "w_scan wd 0 es = Inr (rs, invs)"
    by (auto simp: decode_branch_def bindR_Inr_iff)
  with scan_agree [OF assms(1), of 0 es] obtain invs' where
    core: "scan_entries sd 0 es = Inr (map core_entry rs, invs')" "map fst invs' = map fst invs"
    and parsed: "\<forall>x\<in>set rs. well_parsed (fst (snd x))" by auto
  from assms(2) show thesis unfolding decode_branch_Inr_iff [OF scan parsed]
  proof (elim disjE exE conjE)
    assume "rs = []" "invs = []" "t = default_state" "meta = default_meta"
    moreover from this w_scan_last [OF scan] have "es = []" by (cases es) auto
    ultimately show thesis using empty by blast
  next
    fix ys x zs s
    assume x: "rs = ys @ x # zs" "is_snapshot (core_entry x)" "\<forall>z\<in>set zs. \<not> is_snapshot (core_entry z)"
      "\<forall>j\<in>set (map fst invs). \<not> fst x < j" "wr_state (fst (snd x)) = Some s"
      "replay_suffix (map core_entry zs) (snd (snd x)) s = Inr t"
      and meta: "meta = \<lparr>anchor_entry_id = Some (snd (snd (last (x # zs)))),
                commits_since_snapshot = fold (\<lambda>_ k. sat_add k 1) zs 0, force_snapshot = False\<rparr>"
    have "replay_records (map core_entry rs) invs' = Inr (Some t)"
      unfolding replay_records_core_iff [OF core(2)] using x by blast
    with core have "replay_state sd es = Inr (Some t)" by (simp add: replay_state_def)
    from replay_state_sound [OF this] obtain a where a: "replays_to sd es a t" ..
    have "fst x < 0 + length es" and "fst x \<notin> fst ` set invs"
      using w_scan_indices [OF scan] x(1) by auto
    have "0 + length es - 1 \<notin> fst ` set invs"
    proof
      assume m: "0 + length es - 1 \<in> fst ` set invs"
      with \<open>fst x \<notin> fst ` set invs\<close> have "fst x \<noteq> 0 + length es - 1" by metis
      with \<open>fst x < 0 + length es\<close> have "fst x < 0 + length es - 1" by linarith
      moreover from m have "0 + length es - 1 \<in> set (map fst invs)" by (simp only: set_map)
      ultimately show False using x(4) by blast
    qed
    with w_scan_last [OF scan] replays_to_anchor [OF a] x(1) have "a = snd (snd (last (x # zs)))" by auto
    with a meta show thesis by (intro replayed) auto
  qed
qed

text \<open>
  C5. The writer and the reader agree on every branch: whenever the two decoders derived from the
  record's fields agree, the extension restores a state exactly when the host's replay accepts the
  branch, and it is the same state (the default one for a branch without records).
\<close>

theorem writer_reader_agree:
  assumes "decoders_agree sd wd"
  shows "map_option fst (ok (decode_branch wd es)) = map_option (unwrap_or default_state) (ok (replay_state sd es))"
proof (cases "w_scan wd 0 es")
  case (Inl m)
  with scan_agree [OF assms, of 0 es] show ?thesis
    by (cases "scan_entries sd 0 es") (auto simp: decode_branch_def replay_state_def)
next
  case (Inr p)
  obtain rs invs where p: "p = (rs, invs)" by force
  with Inr scan_agree [OF assms, of 0 es] obtain invs' where
    core: "scan_entries sd 0 es = Inr (map core_entry rs, invs')" "map fst invs' = map fst invs"
    and parsed: "\<forall>x\<in>set rs. well_parsed (fst (snd x))" by auto
  from core(2) have empty: "invs' = [] \<longleftrightarrow> invs = []" by (metis map_is_Nil_conv)
  have dec: "(\<exists>meta. decode_branch wd es = Inr (t, meta)) \<longleftrightarrow>
      replay_records (map core_entry rs) invs' = Inr None \<and> t = default_state \<or>
      replay_records (map core_entry rs) invs' = Inr (Some t)" for t
    unfolding decode_branch_Inr_iff [OF Inr [unfolded p] parsed] replay_records_core_iff [OF core(2)]
      replay_records_None_iff empty list.map_disc_iff by blast
  show ?thesis
  proof (cases "replay_records (map core_entry rs) invs'")
    case (Inl m)
    with dec core show ?thesis
      by (cases "decode_branch wd es") (auto simp: replay_state_def)
  next
    case (Inr so)
    with dec core show ?thesis
      by (cases "decode_branch wd es"; cases so) (auto simp: replay_state_def)
  qed
qed

end
