(* ===== verification/Durable_Delta.thy ===== *)
theory Durable_Delta
  imports Durable_Journal
begin

text \<open>
  The difference of two durable states as a list of journal changes (\<open>tool_changes\<close>,
  \<open>workflow_changes\<close>, \<open>journal_changes\<close> of \<open>packages/rpi-durable/src/lib.rs\<close>), and the proof that
  replaying the difference gives the new state back.
\<close>

section \<open>The difference of two states\<close>

definition run_meta :: "run_checkpoint \<Rightarrow> journal_change" where
  "run_meta r = SetRunMeta (run_id r) (run_status r) (run_started_revision r) (run_updated_revision r)
     (run_outcome r) (run_recovery_of r)"

definition same_tool :: "tool_checkpoint \<Rightarrow> tool_checkpoint \<Rightarrow> bool" where
  "same_tool before t = (case tool_call_key before of
     Some key \<Rightarrow> tool_call_key t = Some key
   | None \<Rightarrow> tool_call_key t = None \<and> tool_call_id t = tool_call_id before)"

fun tool_updates :: "tool_checkpoint list \<Rightarrow> tool_checkpoint list \<Rightarrow> tool_checkpoint list \<Rightarrow>
    journal_change list option" where
  "tool_updates current (b # bs) (a # as) =
     (if b \<noteq> a then
        (let same_identity = tool_call_key b = tool_call_key a \<and> tool_call_id b = tool_call_id a;
             unique = length (filter (same_tool b) current) = 1
         in if \<not> same_identity \<or> tool_name b \<noteq> tool_name a \<or> tool_params b \<noteq> tool_params a \<or> \<not> unique
            then None
            else map_option ((#) (UpdateTool (tool_call_id a) (tool_call_key a) (tool_status a) (tool_result a)))
                   (tool_updates current bs as))
      else tool_updates current bs as)"
| "tool_updates current _ _ = Some []"

definition tool_changes :: "tool_checkpoint list \<Rightarrow> tool_checkpoint list \<Rightarrow> journal_change list option" where
  "tool_changes current next =
     (if length next = length current + 1 \<and> take (length current) next = current
      then Some [AppendTool (List.last next)]
      else if length current = MAX_JOURNAL_ENTRIES \<and> length next = MAX_JOURNAL_ENTRIES
              \<and> take (MAX_JOURNAL_ENTRIES - 1) next = drop 1 current
      then Some [AppendTool (List.last next)]
      else if length current = length next then
        (case tool_updates current current next of
           None \<Rightarrow> None
         | Some changes \<Rightarrow> if changes \<noteq> [] then Some changes else None)
      else None)"

fun step_updates :: "step list \<Rightarrow> step list \<Rightarrow> journal_change list" where
  "step_updates (b # bs) (a # as) =
     (if step_status b \<noteq> step_status a \<or> step_note b \<noteq> step_note a
      then [UpdateStep (step_id a) (step_status a) (step_note a)] else []) @ step_updates bs as"
| "step_updates _ _ = []"

definition workflow_changes :: "workflow option \<Rightarrow> workflow option \<Rightarrow> journal_change list" where
  "workflow_changes current next =
     (let whole = [SetWorkflow next] in
      case (current, next) of
        (Some before, Some after) \<Rightarrow>
          if length (wf_steps before) = length (wf_steps after)
             \<and> list_all (\<lambda>(old, new). step_id old = step_id new \<and> step_title old = step_title new)
                 (zip (wf_steps before) (wf_steps after))
          then (let changes =
                  (if wf_name before \<noteq> wf_name after \<or> wf_status before \<noteq> wf_status after
                      \<or> wf_reason before \<noteq> wf_reason after
                   then [SetWorkflowMeta (wf_name after) (wf_status after) (wf_reason after)] else [])
                  @ step_updates (wf_steps before) (wf_steps after)
                in if changes \<noteq> [] then changes else whole)
          else whole
      | _ \<Rightarrow> whole)"

definition run_changes :: "run_checkpoint option \<Rightarrow> run_checkpoint option \<Rightarrow> journal_change list" where
  "run_changes current next =
     (case (current, next) of
        (None, None) \<Rightarrow> []
      | (Some before, Some after) \<Rightarrow>
          if run_id before \<noteq> run_id after then [SetRun next]
          else
            (if run_id before \<noteq> run_id after \<or> run_status before \<noteq> run_status after
                \<or> run_started_revision before \<noteq> run_started_revision after
                \<or> run_updated_revision before \<noteq> run_updated_revision after
                \<or> run_outcome before \<noteq> run_outcome after \<or> run_recovery_of before \<noteq> run_recovery_of after
             then [run_meta after] else [])
            @ (case tool_changes (run_tools before) (run_tools after) of
                 Some changes \<Rightarrow> changes
               | None \<Rightarrow> if run_tools before \<noteq> run_tools after then [SetTools (run_tools after)] else [])
      | _ \<Rightarrow> [SetRun next])"

definition queue_changes :: "queue_item list \<Rightarrow> queue_item list \<Rightarrow> journal_change list" where
  "queue_changes current next =
     (if current = next then []
      else if length next = length current + 1 \<and> take (length current) next = current
      then [AppendQueue (List.last next)]
      else if length current = length next then
        (let differing = filter (\<lambda>(before, after). before \<noteq> after) (zip current next)
         in if length differing = 1 then [UpdateQueue (snd (hd differing))] else [SetQueue next])
      else [SetQueue next])"

definition journal_changes :: "durable_state \<Rightarrow> durable_state \<Rightarrow> journal_change list" where
  "journal_changes current next =
     (if ds_workflow current \<noteq> ds_workflow next
      then workflow_changes (ds_workflow current) (ds_workflow next) else [])
   @ (if next_run_id current \<noteq> next_run_id next \<or> next_queue_id current \<noteq> next_queue_id next
      then [SetCounters (next_run_id next) (next_queue_id next)] else [])
   @ run_changes (ds_run current) (ds_run next)
   @ queue_changes (ds_queue current) (ds_queue next)"

section \<open>Replaying the difference\<close>

definition state_with :: "durable_state \<Rightarrow> workflow option \<Rightarrow> u64 \<Rightarrow> u64 \<Rightarrow> run_checkpoint option \<Rightarrow>
    queue_item list \<Rightarrow> durable_state" where
  "state_with s w n m r q = s\<lparr>next_run_id := n, next_queue_id := m, ds_workflow := w, ds_run := r, ds_queue := q\<rparr>"

abbreviation replays :: "journal_change list \<Rightarrow> durable_state \<Rightarrow> durable_state \<Rightarrow> bool" where
  "replays cs s t \<equiv> foldR apply_change cs s = Inr t"

lemma replays_append: "replays cs s t \<Longrightarrow> replays ds t u \<Longrightarrow> replays (cs @ ds) s u"
  by (simp add: foldR_append)

lemma replays_Cons: "apply_change c s = Inr t \<Longrightarrow> replays cs t u \<Longrightarrow> replays (c # cs) s u"
  by simp

lemma apply_changeI: "change_effect c s = Inr t \<Longrightarrow> valid_state t \<Longrightarrow> apply_change c s = Inr t"
  by (simp add: apply_change_Inr_iff)

lemma replays_single: "change_effect c s = Inr t \<Longrightarrow> valid_state t \<Longrightarrow> replays [c] s t"
  by (simp add: apply_changeI)

subsection \<open>Workflow steps\<close>

lemma modify_first_skip: "\<forall>x\<in>set pre. \<not> P x \<Longrightarrow> modify_first P f (pre @ xs) = pre @ modify_first P f xs"
  by (induction pre) auto

lemma find_skip: "\<forall>x\<in>set pre. \<not> P x \<Longrightarrow> find P (pre @ xs) = find P xs"
  by (induction pre) auto

definition same_steps :: "step list \<Rightarrow> step list \<Rightarrow> bool" where
  "same_steps = list_all2 (\<lambda>old new. step_id old = step_id new \<and> step_title old = step_title new)"

lemma same_steps_zip:
  "same_steps xs ys \<longleftrightarrow> length xs = length ys \<and>
     list_all (\<lambda>(old, new). step_id old = step_id new \<and> step_title old = step_title new) (zip xs ys)"
  by (auto simp: same_steps_def list_all2_iff list_all_iff)

lemma same_steps_ids: "same_steps xs ys \<Longrightarrow> map step_id xs = map step_id ys"
  unfolding same_steps_def by (induction rule: list_all2_induct) auto

lemma valid_workflow_steps:
  "valid_workflow (w\<lparr>wf_steps := ss\<rparr>) \<longleftrightarrow>
     trim (wf_name w) \<noteq> [] \<and> char_count (wf_name w) \<le> 500 \<and> ss \<noteq> [] \<and> length ss \<le> 128 \<and>
     distinct (map step_id ss) \<and> (\<forall>s\<in>set ss. valid_step s)"
  by (simp add: valid_workflow_def)

lemma step_updates_replay:
  assumes "same_steps old new" and "valid_workflow (w\<lparr>wf_steps := pre @ old\<rparr>)"
    and "\<forall>s\<in>set new. valid_step s" and "valid_state (s\<lparr>ds_workflow := None\<rparr>)"
  shows "replays (step_updates old new) (s\<lparr>ds_workflow := Some (w\<lparr>wf_steps := pre @ old\<rparr>)\<rparr>)
           (s\<lparr>ds_workflow := Some (w\<lparr>wf_steps := pre @ new\<rparr>)\<rparr>)"
  using assms
proof (induction old new arbitrary: pre rule: step_updates.induct)
  case (1 b bs a as)
  from "1.prems"(1) have heads: "step_id b = step_id a" "step_title b = step_title a"
    and tails: "same_steps bs as" by (auto simp: same_steps_def)
  let ?st = "\<lambda>ss. s\<lparr>ds_workflow := Some (w\<lparr>wf_steps := ss\<rparr>)\<rparr>"
  have valid_a: "valid_workflow (w\<lparr>wf_steps := (pre @ [a]) @ bs\<rparr>)"
    using "1.prems"(2,3) heads by (simp add: valid_workflow_steps)
  have rest: "replays (step_updates bs as) (?st ((pre @ [a]) @ bs)) (?st ((pre @ [a]) @ as))"
    by (rule "1.IH" [OF tails valid_a]) (use "1.prems"(3,4) in auto)
  show ?case
  proof (cases "step_status b \<noteq> step_status a \<or> step_note b \<noteq> step_note a")
    case True
    have pre: "\<forall>x\<in>set pre. \<not> step_id x = step_id a"
      using "1.prems"(2) heads by (auto simp: valid_workflow_steps) (metis image_eqI)
    have b: "b\<lparr>step_status := step_status a, step_note := step_note a\<rparr> = a" using heads by simp
    have "change_effect (UpdateStep (step_id a) (step_status a) (step_note a)) (?st (pre @ b # bs)) =
        Inr (?st (pre @ a # bs))"
      using pre heads b by (simp add: find_skip modify_first_skip)
    moreover have "valid_state (?st (pre @ a # bs))"
      using valid_a "1.prems"(4) by (simp add: valid_state_def)
    ultimately have "apply_change (UpdateStep (step_id a) (step_status a) (step_note a)) (?st (pre @ b # bs)) =
        Inr (?st (pre @ a # bs))" by (rule apply_changeI)
    with rest True show ?thesis by simp
  next
    case False
    with heads have "b = a" by simp
    with rest show ?thesis by simp
  qed
qed (auto simp: same_steps_def)

lemma workflow_changes_replay:
  assumes "valid_state s" and "valid_state (s\<lparr>ds_workflow := next\<rparr>)"
  shows "replays (workflow_changes (ds_workflow s) next) s (s\<lparr>ds_workflow := next\<rparr>)"
proof -
  have whole: "replays [SetWorkflow next] s (s\<lparr>ds_workflow := next\<rparr>)"
    using assms(2) by (simp add: apply_changeI)
  show ?thesis
  proof (cases "ds_workflow s"; cases "next")
    fix before after
    assume w: "ds_workflow s = Some before" "next = Some after"
    show ?thesis
    proof (cases "same_steps (wf_steps before) (wf_steps after)")
      case True
      define meta where "meta =
        (if wf_name before \<noteq> wf_name after \<or> wf_status before \<noteq> wf_status after \<or> wf_reason before \<noteq> wf_reason after
         then [SetWorkflowMeta (wf_name after) (wf_status after) (wf_reason after)] else [])"
      let ?mid = "after\<lparr>wf_steps := wf_steps before\<rparr>"
      have mid: "valid_workflow ?mid" and none: "valid_state (s\<lparr>ds_workflow := None\<rparr>)"
        using assms w by (auto simp: valid_state_def valid_workflow_def)
      have "replays meta s (s\<lparr>ds_workflow := Some ?mid\<rparr>)"
      proof (cases "meta = []")
        case True
        then have "?mid = before" by (auto simp: meta_def split: if_splits)
        with True w show ?thesis by simp
      next
        case False
        then have "meta = [SetWorkflowMeta (wf_name after) (wf_status after) (wf_reason after)]"
          by (simp add: meta_def split: if_splits)
        moreover have "before\<lparr>wf_name := wf_name after, wf_status := wf_status after, wf_reason := wf_reason after\<rparr> = ?mid"
          by simp
        moreover have "valid_state (s\<lparr>ds_workflow := Some ?mid\<rparr>)"
          using mid none by (simp add: valid_state_def)
        ultimately have "apply_change (SetWorkflowMeta (wf_name after) (wf_status after) (wf_reason after)) s =
            Inr (s\<lparr>ds_workflow := Some ?mid\<rparr>)" using w by (intro apply_changeI) simp_all
        with \<open>meta = [_]\<close> show ?thesis by simp
      qed
      moreover have "replays (step_updates (wf_steps before) (wf_steps after))
          (s\<lparr>ds_workflow := Some ?mid\<rparr>) (s\<lparr>ds_workflow := next\<rparr>)"
        using step_updates_replay [OF True, where w = after and pre = "[]" and s = s] mid none assms(2) w
        by (simp add: valid_state_def valid_workflow_def)
      ultimately have "replays (meta @ step_updates (wf_steps before) (wf_steps after)) s (s\<lparr>ds_workflow := next\<rparr>)"
        by (rule replays_append)
      with whole w True show ?thesis
        by (simp add: workflow_changes_def same_steps_zip meta_def Let_def)
    next
      case False
      with whole w show ?thesis by (auto simp: workflow_changes_def same_steps_zip)
    qed
  qed (use whole in \<open>simp_all add: workflow_changes_def\<close>)
qed

subsection \<open>Tool entries\<close>

lemma filter_one_hit:
  assumes "length (filter P (pre @ x # post)) = 1" and "P x"
  shows "\<forall>y\<in>set pre \<union> set post. \<not> P y"
  using assms by (auto simp: filter_empty_conv)

lemma same_tool_path: "same_tool b = tool_path_matches (tool_call_id b) (tool_call_key b)"
  by (intro ext) (auto simp: same_tool_def tool_path_matches_def split: option.splits)

lemma map_if_skip: "\<forall>y\<in>set xs. \<not> P y \<Longrightarrow> map (\<lambda>t. if P t then f t else t) xs = xs"
  by (induction xs) auto

lemma tool_path_cong:
  "tool_call_key x = tool_call_key y \<Longrightarrow> tool_call_id x = tool_call_id y \<Longrightarrow>
     tool_path_matches i k x = tool_path_matches i k y"
  by (simp add: tool_path_matches_def)

lemma filter_path_cong:
  "list_all2 (\<lambda>x y. tool_call_key x = tool_call_key y \<and> tool_call_id x = tool_call_id y) xs ys \<Longrightarrow>
     length (filter (tool_path_matches i k) xs) = length (filter (tool_path_matches i k) ys)"
  by (induction rule: list_all2_induct) (auto dest: tool_path_cong)

lemma valid_run_tools:
  "valid_run (r\<lparr>run_tools := ts\<rparr>) \<longleftrightarrow> trim (run_id r) \<noteq> [] \<and> char_count (run_id r) \<le> 128 \<and>
     length ts \<le> 64 \<and> (\<forall>t\<in>set ts. valid_tool t)"
  by (simp add: valid_run_def)

lemma valid_state_run:
  "valid_state (s\<lparr>ds_run := Some r\<rparr>) \<longleftrightarrow> valid_state (s\<lparr>ds_run := None\<rparr>) \<and> valid_run r"
  by (auto simp: valid_state_def)

text \<open>
  A loop step: the entries before the position are already new, those from it on are still old.
  Identities never change, so the path that was unique in the old list still hits this entry only.
\<close>

lemma tool_updates_replay:
  assumes "tool_updates current old new = Some changes" and "length old = length new"
    and "list_all2 (\<lambda>x y. tool_call_key x = tool_call_key y \<and> tool_call_id x = tool_call_id y) current (pre @ old)"
    and "valid_run (r\<lparr>run_tools := pre @ old\<rparr>)" and "\<forall>t\<in>set new. valid_tool t"
    and "valid_state (s\<lparr>ds_run := None\<rparr>)"
  shows "replays changes (s\<lparr>ds_run := Some (r\<lparr>run_tools := pre @ old\<rparr>)\<rparr>)
           (s\<lparr>ds_run := Some (r\<lparr>run_tools := pre @ new\<rparr>)\<rparr>)"
  using assms
proof (induction current old new arbitrary: pre changes rule: tool_updates.induct)
  case (1 current b bs a as)
  let ?st = "\<lambda>ts. s\<lparr>ds_run := Some (r\<lparr>run_tools := ts\<rparr>)\<rparr>"
  have valid_a: "valid_run (r\<lparr>run_tools := (pre @ [a]) @ bs\<rparr>)"
    using "1.prems"(4,5) by (simp add: valid_run_tools)
  show ?case
  proof (cases "b = a")
    case True
    with "1.prems"(1) have "tool_updates current bs as = Some changes" by simp
    from "1.IH"(2) [OF _ this, of "pre @ [a]"] True "1.prems" valid_a show ?thesis by simp
  next
    case False
    with "1.prems"(1) obtain rest where
      same: "tool_call_key b = tool_call_key a" "tool_call_id b = tool_call_id a" "tool_name b = tool_name a"
        "tool_params b = tool_params a" and unique: "length (filter (same_tool b) current) = 1"
      and rest: "tool_updates current bs as = Some rest"
      and changes: "changes = UpdateTool (tool_call_id a) (tool_call_key a) (tool_status a) (tool_result a) # rest"
      by (auto simp: Let_def split: if_splits)
    let ?hit = "tool_path_matches (tool_call_id a) (tool_call_key a)"
    have one: "length (filter ?hit (pre @ b # bs)) = 1"
      using unique filter_path_cong [OF "1.prems"(3)] same by (simp add: same_tool_path)
    have hit_b: "?hit b" using same by (auto simp: tool_path_matches_def)
    have others: "\<forall>y\<in>set pre. \<not> ?hit y" "\<forall>y\<in>set bs. \<not> ?hit y"
      using filter_one_hit [OF one hit_b] by auto
    have b: "b\<lparr>tool_status := tool_status a, tool_result := tool_result a\<rparr> = a" using same by simp
    have "change_effect (UpdateTool (tool_call_id a) (tool_call_key a) (tool_status a) (tool_result a))
        (?st (pre @ b # bs)) = Inr (?st (pre @ a # bs))"
      using one hit_b others b by (simp add: Let_def map_if_skip)
    moreover have "valid_state (?st (pre @ a # bs))"
      using valid_a "1.prems"(6) by (simp add: valid_state_run)
    ultimately have step: "apply_change (UpdateTool (tool_call_id a) (tool_call_key a) (tool_status a) (tool_result a))
        (?st (pre @ b # bs)) = Inr (?st (pre @ a # bs))" by (rule apply_changeI)
    have "list_all2 (\<lambda>x y. tool_call_key x = tool_call_key y \<and> tool_call_id x = tool_call_id y)
        current ((pre @ [a]) @ bs)"
      using "1.prems"(3) same by (auto simp: list_all2_append2 list_all2_Cons2)
    then have "replays rest (?st ((pre @ [a]) @ bs)) (?st ((pre @ [a]) @ as))"
      using "1.prems" valid_a False same unique
      by (intro "1.IH"(1) [OF False refl refl _ rest]) (auto simp: Let_def)
    with step changes show ?thesis by simp
  qed
qed auto

lemma take_last: "length xs = Suc n \<Longrightarrow> xs = take n xs @ [List.last xs]"
  by (cases xs rule: rev_cases) auto

lemma tool_changes_cases:
  assumes "tool_changes cur ts = Some changes"
  shows "length ts = length cur + 1 \<and> take (length cur) ts = cur \<and> changes = [AppendTool (List.last ts)] \<or>
     length cur = 64 \<and> length ts = 64 \<and> take 63 ts = drop 1 cur \<and> changes = [AppendTool (List.last ts)] \<or>
     length cur = length ts \<and> tool_updates cur cur ts = Some changes"
proof -
  let ?A = "length ts = length cur + 1 \<and> take (length cur) ts = cur"
  let ?B = "length cur = MAX_JOURNAL_ENTRIES \<and> length ts = MAX_JOURNAL_ENTRIES
              \<and> take (MAX_JOURNAL_ENTRIES - 1) ts = drop 1 cur"
  have B: "?B \<Longrightarrow> length cur = 64 \<and> length ts = 64 \<and> take 63 ts = drop 1 cur"
    by (simp add: MAX_JOURNAL_ENTRIES_def)
  consider ?A | "\<not> ?A" ?B | "\<not> ?A" "\<not> ?B" by blast
  then show ?thesis
  proof cases
    case 1
    with assms show ?thesis unfolding tool_changes_def by (simp only: if_True simp_thms option.inject)
  next
    case 2
    with assms B show ?thesis unfolding tool_changes_def by (simp only: if_True if_False simp_thms option.inject)
  next
    case 3
    with assms show ?thesis unfolding tool_changes_def
      by (simp only: if_False simp_thms) (simp split: if_splits option.splits)
  qed
qed

lemma tool_changes_replay:
  assumes "tool_changes (run_tools r) ts = Some changes" and "valid_run r"
    and "valid_run (r\<lparr>run_tools := ts\<rparr>)" and "valid_state (s\<lparr>ds_run := None\<rparr>)"
  shows "replays changes (s\<lparr>ds_run := Some r\<rparr>) (s\<lparr>ds_run := Some (r\<lparr>run_tools := ts\<rparr>)\<rparr>)"
proof -
  have append: "replays [AppendTool (List.last ts)] (s\<lparr>ds_run := Some r\<rparr>) (s\<lparr>ds_run := Some (r\<lparr>run_tools := ts\<rparr>)\<rparr>)"
    if "push_bounded_tool (List.last ts) (run_tools r) = ts"
    using that assms(3,4) by (simp add: apply_changeI valid_state_run)
  consider (grow) "length ts = length (run_tools r) + 1" "take (length (run_tools r)) ts = run_tools r"
      "changes = [AppendTool (List.last ts)]"
    | (shift) "length (run_tools r) = 64" "length ts = 64" "take 63 ts = drop 1 (run_tools r)"
      "changes = [AppendTool (List.last ts)]"
    | (update) "length (run_tools r) = length ts" "tool_updates (run_tools r) (run_tools r) ts = Some changes"
    using tool_changes_cases [OF assms(1)] by blast
  then show ?thesis
  proof cases
    case grow
    then obtain t where ts: "ts = run_tools r @ [t]" using take_last [of ts "length (run_tools r)"] by auto
    have "length ts \<le> 64" using assms(3) by (simp add: valid_run_tools)
    with ts have "push_bounded_tool (List.last ts) (run_tools r) = ts"
      by (simp add: push_bounded_tool_def MAX_TOOL_ENTRIES_def)
    with append grow show ?thesis by simp
  next
    case shift
    then obtain t where ts: "ts = drop 1 (run_tools r) @ [t]" using take_last [of ts 63] by auto
    with shift(1) have "push_bounded_tool (List.last ts) (run_tools r) = ts"
      by (simp add: push_bounded_tool_def MAX_TOOL_ENTRIES_def)
    with append shift show ?thesis by simp
  next
    case update
    from tool_updates_replay [OF update(2,1), where pre = "[]" and r = r and s = s] assms(2-4) show ?thesis
      by (simp add: valid_run_tools list_all2_same)
  qed
qed

lemma run_changes_replay:
  assumes "valid_state s" and "valid_state (s\<lparr>ds_run := next\<rparr>)"
  shows "replays (run_changes (ds_run s) next) s (s\<lparr>ds_run := next\<rparr>)"
proof -
  have whole: "replays [SetRun next] s (s\<lparr>ds_run := next\<rparr>)"
    using assms(2) by (simp add: apply_changeI)
  show ?thesis
  proof (cases "ds_run s"; cases "next")
    fix before after
    assume r: "ds_run s = Some before" "next = Some after"
    show ?thesis
    proof (cases "run_id before = run_id after")
      case True
      define meta where "meta = (if run_id before \<noteq> run_id after \<or> run_status before \<noteq> run_status after
                \<or> run_started_revision before \<noteq> run_started_revision after
                \<or> run_updated_revision before \<noteq> run_updated_revision after
                \<or> run_outcome before \<noteq> run_outcome after \<or> run_recovery_of before \<noteq> run_recovery_of after
             then [run_meta after] else [])"
      let ?mid = "after\<lparr>run_tools := run_tools before\<rparr>"
      have mid: "valid_run ?mid" and none: "valid_state (s\<lparr>ds_run := None\<rparr>)" and after: "valid_run after"
        using assms r by (auto simp: valid_state_def valid_run_def)
      have "replays meta s (s\<lparr>ds_run := Some ?mid\<rparr>)"
      proof (cases "meta = []")
        case True
        then have "?mid = before" by (auto simp: meta_def split: if_splits)
        with True r show ?thesis by simp
      next
        case False
        then have m: "meta = [run_meta after]" by (simp add: meta_def split: if_splits)
        have "change_effect (run_meta after) s = Inr (s\<lparr>ds_run := Some ?mid\<rparr>)"
          using r by (simp add: run_meta_def)
        with mid none m show ?thesis by (simp add: apply_changeI valid_state_run)
      qed
      moreover define rest where "rest = (case tool_changes (run_tools before) (run_tools after) of
                 Some changes \<Rightarrow> changes
               | None \<Rightarrow> if run_tools before \<noteq> run_tools after then [SetTools (run_tools after)] else [])"
      have "replays rest (s\<lparr>ds_run := Some ?mid\<rparr>) (s\<lparr>ds_run := next\<rparr>)"
      proof (cases "tool_changes (run_tools before) (run_tools after)")
        case None
        have "length (run_tools after) \<le> 64" using after by (simp add: valid_run_def)
        moreover have "valid_state (s\<lparr>ds_run := Some after\<rparr>)" using assms(2) r by simp
        ultimately have "replays [SetTools (run_tools after)] (s\<lparr>ds_run := Some ?mid\<rparr>) (s\<lparr>ds_run := Some after\<rparr>)"
          by (intro replays_single) (simp_all add: MAX_TOOL_ENTRIES_def)
        with None r show ?thesis by (simp add: rest_def)
      next
        case (Some changes)
        with tool_changes_replay [of ?mid "run_tools after" changes s] mid none after r
        show ?thesis by (simp add: rest_def)
      qed
      ultimately have "replays (meta @ rest) s (s\<lparr>ds_run := next\<rparr>)" by (rule replays_append)
      moreover have "run_changes (ds_run s) next = meta @ rest"
        using r True by (simp add: run_changes_def meta_def rest_def)
      ultimately show ?thesis by simp
    next
      case False
      with whole r show ?thesis by (simp add: run_changes_def)
    qed
  qed (use whole in \<open>simp_all add: run_changes_def\<close>)
qed

subsection \<open>The queue\<close>

text \<open>
  When exactly one item differs, the difference is an update by id. It can be replayed only if the
  id of that item is unchanged.
\<close>

definition queue_compatible :: "queue_item list \<Rightarrow> queue_item list \<Rightarrow> bool" where
  "queue_compatible current next \<longleftrightarrow>
     (let differing = filter (\<lambda>(before, after). before \<noteq> after) (zip current next)
      in length current = length next \<and> length differing = 1 \<longrightarrow>
         q_id (fst (hd differing)) = q_id (snd (hd differing)))"

lemma one_difference:
  "length xs = length ys \<Longrightarrow> filter (\<lambda>(x, y). x \<noteq> y) (zip xs ys) = [(a, b)] \<Longrightarrow>
     \<exists>pre post. xs = pre @ a # post \<and> ys = pre @ b # post"
proof (induction xs ys rule: list_induct2)
  case (Cons x xs y ys)
  show ?case
  proof (cases "x = y")
    case True
    with Cons obtain pre post where "xs = pre @ a # post" "ys = pre @ b # post" by auto
    with True show ?thesis by (intro exI [of _ "x # pre"] exI [of _ post]) simp
  next
    case False
    with Cons.prems have "x = a" "y = b" and no: "filter (\<lambda>(x, y). x \<noteq> y) (zip xs ys) = []" by auto
    have "xs = ys" using Cons.hyps no by (induction xs ys rule: list_induct2) (auto split: if_splits)
    with \<open>x = a\<close> \<open>y = b\<close> show ?thesis by auto
  qed
qed simp

lemma queue_changes_replay:
  assumes "valid_state s" and "valid_state (s\<lparr>ds_queue := next\<rparr>)" and "queue_compatible (ds_queue s) next"
  shows "replays (queue_changes (ds_queue s) next) s (s\<lparr>ds_queue := next\<rparr>)"
proof -
  let ?cur = "ds_queue s"
  let ?diff = "filter (\<lambda>(before, after). before \<noteq> after) (zip ?cur next)"
  from assms(1,2) have valid: "distinct (map q_id ?cur)" "length next \<le> 32" "distinct (map q_id next)"
    by (auto simp: valid_state_def valid_queue_def)
  have whole: "replays [SetQueue next] s (s\<lparr>ds_queue := next\<rparr>)"
    using assms(2) valid by (simp add: apply_changeI MAX_QUEUE_ITEMS_def)
  consider (same) "?cur = next"
    | (append) "?cur \<noteq> next" "length next = length ?cur + 1 \<and> take (length ?cur) next = ?cur"
    | (one) "?cur \<noteq> next" "length ?cur = length next" "length ?diff = 1"
    | (other) "?cur \<noteq> next" "\<not> (length next = length ?cur + 1 \<and> take (length ?cur) next = ?cur)"
        "\<not> (length ?cur = length next \<and> length ?diff = 1)" by linarith
  then show ?thesis
  proof cases
    case same
    then show ?thesis by (simp add: queue_changes_def)
  next
    case append
    then obtain q where q: "next = ?cur @ [q]" using take_last [of "next" "length ?cur"] by auto
    with valid have "\<not> (\<exists>x\<in>set ?cur. q_id x = q_id q)" "length ?cur < 32" by (auto simp: image_iff)
    with q have "change_effect (AppendQueue q) s = Inr (s\<lparr>ds_queue := next\<rparr>)"
      by (simp add: MAX_QUEUE_ITEMS_def)
    with q assms(2) append show ?thesis by (simp add: queue_changes_def apply_changeI)
  next
    case one
    then obtain a b where ab: "?diff = [(a, b)]" by (auto simp: length_Suc_conv)
    with one assms(3) have id: "q_id a = q_id b" by (simp add: queue_compatible_def)
    from one_difference [OF one(2) ab] obtain pre post where
      l: "?cur = pre @ a # post" "next = pre @ b # post" by blast
    from l valid(1) have "modify_first (\<lambda>x. q_id x = q_id a) (\<lambda>_. b) ?cur = next"
      using modify_first_by_key [OF valid(1), of pre a post "\<lambda>_. b"] by simp
    moreover have "find (\<lambda>x. q_id x = q_id b) ?cur \<noteq> None"
      using l id by (auto simp: find_None_iff)
    ultimately have "change_effect (UpdateQueue b) s = Inr (s\<lparr>ds_queue := next\<rparr>)"
      using id by auto
    with one ab assms(2) show ?thesis by (simp add: queue_changes_def apply_changeI)
  next
    case other
    then show ?thesis using whole by (auto simp: queue_changes_def Let_def)
  qed
qed

section \<open>The whole difference\<close>

lemma journal_changes_replay:
  assumes "valid_state cur" and "valid_state next" and "queue_compatible (ds_queue cur) (ds_queue next)"
  shows "foldR apply_change (journal_changes cur next) cur = Inr (next\<lparr>revision := revision cur\<rparr>)"
proof -
  let ?s1 = "cur\<lparr>ds_workflow := ds_workflow next\<rparr>"
  let ?s2 = "?s1\<lparr>next_run_id := next_run_id next, next_queue_id := next_queue_id next\<rparr>"
  let ?s3 = "?s2\<lparr>ds_run := ds_run next\<rparr>"
  have v: "valid_state ?s1" "valid_state ?s2" "valid_state ?s3" "valid_state (?s3\<lparr>ds_queue := ds_queue next\<rparr>)"
    using assms(1,2) by (auto simp: valid_state_def)
  have "replays (if ds_workflow cur \<noteq> ds_workflow next
      then workflow_changes (ds_workflow cur) (ds_workflow next) else []) cur ?s1"
    using workflow_changes_replay [OF assms(1) v(1)] by simp
  note 1 = this
  have "replays (if next_run_id cur \<noteq> next_run_id next \<or> next_queue_id cur \<noteq> next_queue_id next
      then [SetCounters (next_run_id next) (next_queue_id next)] else []) ?s1 ?s2"
    using v(2) replays_single [of "SetCounters (next_run_id next) (next_queue_id next)" ?s1 ?s2] by simp
  note 2 = this
  have "replays (run_changes (ds_run cur) (ds_run next)) ?s2 ?s3"
    using run_changes_replay [OF v(2), of "ds_run next"] v(3) by simp
  note 3 = this
  have "replays (queue_changes (ds_queue cur) (ds_queue next)) ?s3 (?s3\<lparr>ds_queue := ds_queue next\<rparr>)"
    using queue_changes_replay [OF v(3), of "ds_queue next"] v(4) assms(3) by simp
  also have "?s3\<lparr>ds_queue := ds_queue next\<rparr> = next\<lparr>revision := revision cur\<rparr>" by simp
  finally show ?thesis
    unfolding journal_changes_def by (rule replays_append [OF 1 replays_append [OF 2 replays_append [OF 3]]])
qed


end
