(* ===== verification/Durable_Store.thy ===== *)
theory Durable_Store
  imports Durable_Delta
begin

text \<open>
  Committing to the native branch and the process-wide store of \<open>packages/rpi-durable/src/lib.rs\<close>:
  the choice between delta and snapshot, the append and its acknowledgement, restoring from a branch,
  and the gate that refuses to work on a branch that could not be restored.

  The host is a parameter: its reply to a branch query and to an append. The generated encoder, the
  generated decoder and the size of a serialised record are the parameter \<open>env\<close>.
\<close>

record writer_env =
  w_dec :: "json \<Rightarrow> writer_record res"
  w_enc :: "writer_record \<Rightarrow> json"
  w_size :: "writer_record \<Rightarrow> nat res"

record host =
  h_branch :: "json res"
  h_append :: "json \<Rightarrow> json res"

section \<open>Committing\<close>

definition map_err :: "('e \<Rightarrow> 'f) \<Rightarrow> 'e + 'a \<Rightarrow> 'f + 'a" where
  "map_err f m = (case m of Inl e \<Rightarrow> Inl (f e) | Inr x \<Rightarrow> Inr x)"

definition journal_delta :: "durable_state \<Rightarrow> durable_state \<Rightarrow> journal_meta \<Rightarrow> writer_record" where
  "journal_delta current next meta =
     \<lparr>wr_format = JOURNAL_FORMAT, wr_version = JOURNAL_VERSION, wr_kind = Delta,
      wr_base_revision = revision current, wr_revision = revision next,
      wr_base_entry_id = anchor_entry_id meta, wr_state = None,
      wr_changes = Some (journal_changes current next)\<rparr>"

definition journal_snapshot :: "durable_state \<Rightarrow> durable_state \<Rightarrow> journal_meta \<Rightarrow> writer_record" where
  "journal_snapshot current next meta =
     \<lparr>wr_format = JOURNAL_FORMAT, wr_version = JOURNAL_VERSION, wr_kind = Snapshot,
      wr_base_revision = revision current, wr_revision = revision next,
      wr_base_entry_id = anchor_entry_id meta, wr_state = Some next, wr_changes = None\<rparr>"

definition stamp :: "u64 \<Rightarrow> durable_state \<Rightarrow> durable_state" where
  "stamp revno next = next\<lparr>revision := revno,
     ds_run := map_option (\<lambda>r. r\<lparr>run_updated_revision := revno\<rparr>) (ds_run next)\<rparr>"

definition entry_payload :: "writer_env \<Rightarrow> writer_record \<Rightarrow> json" where
  "entry_payload env r = JObj [(''customType'', JStr ENTRY_TYPE), (''data'', w_enc env r)]"

definition commit_candidate :: "writer_env \<Rightarrow> (json \<Rightarrow> string res) \<Rightarrow> durable_state \<Rightarrow> journal_meta \<Rightarrow>
    durable_state \<Rightarrow> (durable_state \<times> journal_meta) res" where
  "commit_candidate env write current meta next =
     (if next = current then Inr (current, meta)
      else bindR (ok_or ''durable revision exhausted'' (checked_add (revision current) 1)) (\<lambda>revno.
      let next = stamp revno next;
          delta = journal_delta current next meta;
          snapshot = journal_snapshot current next meta
      in if journal_changes current next = [] then Inl ''durable state changed without a journal change''
      else bindR (map_err (\<lambda>e. ''serialize durable delta: '' @ e) (w_size env delta)) (\<lambda>delta_size.
           bindR (map_err (\<lambda>e. ''serialize durable snapshot: '' @ e) (w_size env snapshot)) (\<lambda>snapshot_size.
      let use_snapshot = force_snapshot meta \<or> anchor_entry_id meta = None
            \<or> commits_since_snapshot meta + 1 \<ge> SNAPSHOT_INTERVAL \<or> delta_size \<ge> snapshot_size
      in bindR (write (entry_payload env (if use_snapshot then snapshot else delta))) (\<lambda>entry_id.
         Inr (next, \<lparr>anchor_entry_id = Some entry_id,
           commits_since_snapshot = (if use_snapshot then 0 else commits_since_snapshot meta + 1),
           force_snapshot = False\<rparr>))))))"

definition append_entry :: "host \<Rightarrow> json \<Rightarrow> string res" where
  "append_entry h payload =
     bindR (map_err (\<lambda>error. if starts_with ''invalid runtime response:'' error
                       then ''durable append acknowledgement is unknown: '' @ error else error)
              (h_append h payload)) (\<lambda>response.
     ok_or (''durable append acknowledgement is unknown: AppendEntry returned no usable entryId; '' @
            ''durable journal is unusable until the branch is explicitly reloaded'')
       (append_entry_identity response))"

section \<open>Marks a restore makes\<close>

definition legacy_tool_call_id :: "string \<Rightarrow> bool" where
  "legacy_tool_call_id v \<longleftrightarrow> char_count v = MAX_SUMMARY_CHARS + 1 \<and> ends_with ellipsis v"

definition mark_unresolvable_legacy_tools :: "durable_state \<Rightarrow> durable_state" where
  "mark_unresolvable_legacy_tools next =
     next\<lparr>ds_run := map_option (\<lambda>run. run\<lparr>run_tools := map (\<lambda>t.
        if legacy_tool_call_id (tool_call_id t) \<and> tool_status t = tool_status.Started
        then t\<lparr>tool_status := tool_status.Unknown,
               tool_result := (if tool_result t = [] then
                 ''tool identity was truncated before durable identity migration'' else tool_result t)\<rparr>
        else t) (run_tools run)\<rparr>) (ds_run next)\<rparr>"

definition mark_interrupted :: "durable_state \<Rightarrow> durable_state" where
  "mark_interrupted next =
     next\<lparr>ds_run := map_option (\<lambda>run.
       if run_status run = run_status.Running
       then run\<lparr>run_status := run_status.Interrupted, run_outcome := ''interrupted'',
              run_tools := map (\<lambda>t.
                if tool_status t = tool_status.Started
                then t\<lparr>tool_status := tool_status.Interrupted,
                       tool_result := (if tool_result t = [] then
                         ''execution did not reach a durable result'' else tool_result t)\<rparr>
                else t) (run_tools run)\<rparr>
       else run) (ds_run next)\<rparr>"

section \<open>The store\<close>

definition restore_state_inner :: "writer_env \<Rightarrow> host \<Rightarrow> store res" where
  "restore_state_inner env h =
     bindR (h_branch h) (\<lambda>value.
     if get_bool ''filtered'' value \<noteq> Some True
     then Inl ''GetSessionBranch must confirm filtered: true; upgrade the native host''
     else bindR (ok_or ''GetSessionBranch returned no valid entries array'' (get_array ''entries'' value)) (\<lambda>entries.
     bindR (decode_branch (w_dec env) entries) (\<lambda>(restored, meta).
     let restored = mark_unresolvable_legacy_tools restored;
         interrupted = mark_interrupted restored
     in bindR (if interrupted \<noteq> restored
               then commit_candidate env (append_entry h) restored meta interrupted
               else Inr (restored, meta)) (\<lambda>(s, m).
        Inr \<lparr>st_state = s, st_meta = m, st_initialized = True, st_restore_error = None\<rparr>))))"

definition fail_restore :: "string \<Rightarrow> store" where
  "fail_restore error = \<lparr>st_state = default_state, st_meta = default_meta, st_initialized = True,
     st_restore_error = Some error\<rparr>"

definition restore_state :: "writer_env \<Rightarrow> host \<Rightarrow> store \<Rightarrow> store \<times> unit res" where
  "restore_state env h st = (case restore_state_inner env h of
     Inr st' \<Rightarrow> (st', Inr ()) | Inl error \<Rightarrow> (fail_restore error, Inl error))"

definition ensure_initialized :: "writer_env \<Rightarrow> host \<Rightarrow> store \<Rightarrow> store \<times> unit res" where
  "ensure_initialized env h st = (case st_restore_error st of
     Some error \<Rightarrow> (st, Inl (''durable branch restore failed: '' @ error))
   | None \<Rightarrow>
       if st_initialized st then (st, Inr ())
       else (case restore_state env h st of
               (st', Inr _) \<Rightarrow> (st', Inr ())
             | (st', Inl error) \<Rightarrow> (st', Inl (''durable branch restore failed: '' @ error))))"

definition snapshot_state :: "writer_env \<Rightarrow> host \<Rightarrow> store \<Rightarrow> store \<times> durable_state res" where
  "snapshot_state env h st = (case ensure_initialized env h st of
     (st', Inl error) \<Rightarrow> (st', Inl error)
   | (st', Inr _) \<Rightarrow> (case st_restore_error st' of
        Some error \<Rightarrow> (st', Inl (''durable branch restore failed: '' @ error))
      | None \<Rightarrow> (st', Inr (st_state st'))))"

definition commit_state :: "writer_env \<Rightarrow> host \<Rightarrow> durable_state \<Rightarrow> durable_state \<Rightarrow> store \<Rightarrow> store \<times> durable_state res" where
  "commit_state env h current next st = (case st_restore_error st of
     Some error \<Rightarrow> (st, Inl (''durable branch restore failed: '' @ error))
   | None \<Rightarrow>
       if st_state st \<noteq> current
       then (st, Inl ''durable state changed concurrently; retry the operation'')
       else (case commit_candidate env (append_entry h) current (st_meta st) next of
               Inr (s, m) \<Rightarrow> (st\<lparr>st_state := s, st_meta := m\<rparr>, Inr s)
             | Inl error \<Rightarrow>
                 (if starts_with ''durable append acknowledgement is unknown:'' error
                  then st\<lparr>st_initialized := True, st_restore_error := Some error\<rparr> else st, Inl error)))"

definition mutate_state :: "writer_env \<Rightarrow> host \<Rightarrow> (durable_state \<Rightarrow> durable_state) \<Rightarrow> store \<Rightarrow> store \<times> unit res" where
  "mutate_state env h mutator st = (case ensure_initialized env h st of
     (st', Inl error) \<Rightarrow> (st', Inl error)
   | (st', Inr _) \<Rightarrow> (case commit_state env h (st_state st') (mutator (st_state st')) st' of
        (st'', Inl error) \<Rightarrow> (st'', Inl error)
      | (st'', Inr _) \<Rightarrow> (st'', Inr ())))"

section \<open>Commits and replay\<close>

text \<open>The entry the host stores for an append: the payload's type and data under a fresh id.\<close>

definition native_entry :: "string \<Rightarrow> json \<Rightarrow> json" where
  "native_entry eid payload = JObj [(''type'', JStr ''custom''), (''id'', JStr eid),
     (''customType'', unwrap_or JNull (jget ''customType'' payload)),
     (''data'', unwrap_or JNull (jget ''data'' payload))]"

lemma native_envelope: "eid \<noteq> [] \<Longrightarrow> entry_envelope (native_entry eid (entry_payload env r)) = Inr (eid, w_enc env r)"
  by (simp add: native_entry_def entry_payload_def entry_envelope_def is_canonical_entry_def get_str_def)

definition encodes :: "serde \<Rightarrow> writer_env \<Rightarrow> writer_record \<Rightarrow> bool" where
  "encodes sd env r \<longleftrightarrow> dec_record sd (w_enc env r) = Inr (to_core r)"

lemma stamp_simps [simp]:
  "revision (stamp revno s) = revno" "ds_queue (stamp revno s) = ds_queue s"
  "valid_state (stamp revno s) = valid_state s"
  by (auto simp: stamp_def valid_state_def valid_run_def)

lemma replays_to_snapshot:
  assumes "\<forall>x\<in>set es. is_ok (entry_envelope x)" and "entry_envelope e = Inr (eid, data)"
    and "parse_record sd data = Inr r" and "jr_kind r = ''snapshot''" and "jr_state r = Some s"
  shows "replays_to sd (es @ [e]) eid s"
  using assms chain_end by (rule newest_snapshot)

lemma replays_to_delta:
  assumes "replays_to sd es a s" and "entry_envelope e = Inr (eid, data)"
    and "parse_record sd data = Inr r" and "jr_kind r = ''delta''" and "replay_delta r a s = Inr t"
  shows "replays_to sd (es @ [e]) eid t"
  using assms(1)
proof cases
  case (newest_snapshot pre e0 eid0 data0 r0 s0 suf)
  have "delta_chain sd [e] a s eid t" using assms(2-5) chain_end by (rule chain_step)
  with newest_snapshot have "delta_chain sd (suf @ [e]) eid0 s0 eid t" by (blast intro: delta_chain_append)
  from replays_to.newest_snapshot [OF newest_snapshot(2-6) this] newest_snapshot(1) show ?thesis by simp
qed

lemma commit_candidate_cases:
  assumes "commit_candidate env write cur meta next = Inr (t, meta')" and "next \<noteq> cur"
  obtains revno eid r where "checked_add (revision cur) 1 = Some revno" "t = stamp revno next"
    "write (entry_payload env r) = Inr eid" "anchor_entry_id meta' = Some eid" "\<not> force_snapshot meta'"
    "journal_changes cur t \<noteq> []"
    "r = journal_snapshot cur t meta \<or>
     r = journal_delta cur t meta \<and> \<not> force_snapshot meta \<and> anchor_entry_id meta \<noteq> None"
  using assms by (auto simp: commit_candidate_def bindR_Inr_iff ok_or_Inr_iff Let_def split: if_splits)

lemma checked_add_less: "checked_add a 1 = Some b \<Longrightarrow> \<not> b < a"
  using checked_add_Some [of a 1 b] by (simp add: word_less_nat_alt)

lemma commit_replays:
  assumes "\<forall>r\<in>{journal_snapshot cur t meta, journal_delta cur t meta}. encodes sd env r"
    and "valid_state cur" and "valid_state next"
    and "queue_compatible (ds_queue cur) (ds_queue next)"
    and "\<forall>x\<in>set es. is_ok (entry_envelope x)"
    and "\<forall>a. anchor_entry_id meta = Some a \<longrightarrow> \<not> force_snapshot meta \<longrightarrow> replays_to sd es a cur"
    and "commit_candidate env write cur meta next = Inr (t, meta')" and "next \<noteq> cur"
    and "\<forall>p i. write p = Inr i \<longrightarrow> i \<noteq> []"
  shows "\<exists>eid r. r \<in> {journal_snapshot cur t meta, journal_delta cur t meta} \<and>
    write (entry_payload env r) = Inr eid \<and> anchor_entry_id meta' = Some eid \<and> \<not> force_snapshot meta' \<and>
    entry_envelope (native_entry eid (entry_payload env r)) = Inr (eid, w_enc env r) \<and>
    replays_to sd (es @ [native_entry eid (entry_payload env r)]) eid t"
proof -
  from assms(7,8) obtain revno eid r where
    c: "checked_add (revision cur) 1 = Some revno" "t = stamp revno next"
    "write (entry_payload env r) = Inr eid" "anchor_entry_id meta' = Some eid" "\<not> force_snapshot meta'"
    "journal_changes cur t \<noteq> []"
    and r: "r = journal_snapshot cur t meta \<or>
     r = journal_delta cur t meta \<and> \<not> force_snapshot meta \<and> anchor_entry_id meta \<noteq> None"
    by (rule commit_candidate_cases)
  have env: "entry_envelope (native_entry eid (entry_payload env r)) = Inr (eid, w_enc env r)"
    using c(3) assms(9) by (intro native_envelope) blast
  have dec: "dec_record sd (w_enc env r) = Inr (to_core r)" using assms(1) r by (auto simp: encodes_def)
  have t: "valid_state t" "revision t = revno" using c assms(3) by simp_all
  from r have "well_parsed r"
    using t c(6) by (auto simp: well_parsed_def journal_snapshot_def journal_delta_def)
  moreover from r have "\<not> wr_revision r < wr_base_revision r"
    using checked_add_less [OF c(1)] t by (auto simp: journal_snapshot_def journal_delta_def)
  ultimately have parse: "parse_record sd (w_enc env r) = Inr (to_core r)" using dec by (rule parse_to_core)
  from r have "replays_to sd (es @ [native_entry eid (entry_payload env r)]) eid t"
  proof
    assume "r = journal_snapshot cur t meta"
    with env parse show ?thesis
      by (intro replays_to_snapshot [OF assms(5)]) (auto simp: journal_snapshot_def kind_str_def)
  next
    assume d: "r = journal_delta cur t meta \<and> \<not> force_snapshot meta \<and> anchor_entry_id meta \<noteq> None"
    then obtain a where a: "anchor_entry_id meta = Some a" by auto
    have "replay_delta (to_core r) a cur = Inr t"
      using d a c t journal_changes_replay [OF assms(2) t(1)] assms(4)
      by (auto simp: replay_delta_Inr_iff journal_delta_def intro!: exI [of _ "t\<lparr>revision := revision cur\<rparr>"])
    moreover have "jr_kind (to_core r) = ''delta''" using d by (simp add: journal_delta_def)
    ultimately show ?thesis
      using replays_to_delta [OF _ env parse] assms(6) a d by blast
  qed
  with c r env show ?thesis by blast
qed

lemma append_entry_identity_nonempty: "append_entry_identity r = Some i \<Longrightarrow> i \<noteq> []"
  by (auto simp: append_entry_identity_def split: option.splits json.splits if_splits)

lemma append_entry_nonempty: "append_entry h p = Inr i \<Longrightarrow> i \<noteq> []"
  unfolding append_entry_def bindR_Inr_iff ok_or_Inr_iff using append_entry_identity_nonempty by blast

text \<open>A store whose state is what the branch replays to, unless a failed restore is recorded.\<close>

definition in_sync :: "serde \<Rightarrow> json list \<Rightarrow> store \<Rightarrow> bool" where
  "in_sync sd es st \<longleftrightarrow> (st_restore_error st = None \<and> st_initialized st \<longrightarrow>
     valid_state (st_state st) \<and> (\<forall>x\<in>set es. is_ok (entry_envelope x)) \<and>
     (case anchor_entry_id (st_meta st) of
        None \<Rightarrow> es = [] \<and> st_state st = default_state \<and> force_snapshot (st_meta st)
      | Some a \<Rightarrow> replays_to sd es a (st_state st)))"

lemma default_valid [simp]: "valid_state default_state"
  by (simp add: valid_state_def default_state_def valid_queue_def)

lemma replays_to_envelopes: "replays_to sd es a s \<Longrightarrow> \<forall>x\<in>set es. is_ok (entry_envelope x)"
  by (induction rule: replays_to.induct) (auto dest: delta_chain_envelopes)

lemma replays_to_valid: "replays_to sd es a s \<Longrightarrow> valid_state s"
  by (induction rule: replays_to.induct) (auto dest!: parse_record_snapshot intro: delta_chain_valid)

lemma commit_state_open:
  "st_restore_error st = None \<Longrightarrow> st_state st = cur \<Longrightarrow>
     commit_state env h cur next st =
       (case commit_candidate env (append_entry h) cur (st_meta st) next of
          Inr (s, m) \<Rightarrow> (st\<lparr>st_state := s, st_meta := m\<rparr>, Inr s)
        | Inl error \<Rightarrow>
            (if starts_with ''durable append acknowledgement is unknown:'' error
             then st\<lparr>st_initialized := True, st_restore_error := Some error\<rparr> else st, Inl error))"
  unfolding commit_state_def by simp

lemma commit_state_refused:
  "st_restore_error st = Some e \<Longrightarrow>
     commit_state env h cur next st = (st, Inl (''durable branch restore failed: '' @ e))"
  "st_restore_error st = None \<Longrightarrow> st_state st \<noteq> cur \<Longrightarrow>
     commit_state env h cur next st = (st, Inl ''durable state changed concurrently; retry the operation'')"
  unfolding commit_state_def by simp_all

lemma commit_state_Inr:
  assumes "commit_state env h cur next st = (st', Inr t)"
  obtains m where "st_restore_error st = None" "st_state st = cur"
    "commit_candidate env (append_entry h) cur (st_meta st) next = Inr (t, m)"
    "st' = st\<lparr>st_state := t, st_meta := m\<rparr>"
proof -
  from assms have err: "st_restore_error st = None"
    using commit_state_refused(1) by (cases "st_restore_error st") auto
  have cur: "st_state st = cur"
  proof (rule ccontr)
    assume "st_state st \<noteq> cur"
    with err have "commit_state env h cur next st =
        (st, Inl ''durable state changed concurrently; retry the operation'')" by (rule commit_state_refused)
    with assms show False by simp
  qed
  with assms err that show thesis
    by (cases "commit_candidate env (append_entry h) cur (st_meta st) next")
       (auto simp: commit_state_open)
qed

lemma commit_state_Inl:
  assumes "commit_state env h cur next st = (st', Inl m)"
  shows "st_state st' = st_state st \<and> st_meta st' = st_meta st \<and>
     (st' = st \<or> st_restore_error st' = Some m \<and> starts_with ''durable append acknowledgement is unknown:'' m)"
proof (cases "st_restore_error st = None \<and> st_state st = cur")
  case True
  then show ?thesis
    using assms by (cases "commit_candidate env (append_entry h) cur (st_meta st) next")
      (auto simp: commit_state_open split: if_split_asm)
next
  case False
  then have "st' = st" using assms commit_state_refused
    by (cases "st_restore_error st") (metis option.distinct(1) Pair_inject)+
  then show ?thesis by simp
qed

lemma commit_extends_replay_sync:
  assumes "\<forall>r\<in>{journal_snapshot cur t (st_meta st), journal_delta cur t (st_meta st)}. encodes sd env r"
    and "in_sync sd es st" and "st_initialized st" and "valid_state next"
    and "queue_compatible (ds_queue cur) (ds_queue next)" and "next \<noteq> cur"
    and "commit_state env h cur next st = (st', Inr t)"
  shows "\<exists>eid r. r \<in> {journal_snapshot cur t (st_meta st), journal_delta cur t (st_meta st)} \<and>
    append_entry h (entry_payload env r) = Inr eid \<and>
    (let es' = es @ [native_entry eid (entry_payload env r)] in
       replay_state sd es' = Inr (Some t) \<and> in_sync sd es' st' \<and>
       anchor_entry_id (st_meta st') = Some eid \<and> st_state st' = t)"
proof -
  from assms(7) obtain meta' where err: "st_restore_error st = None" and cur: "st_state st = cur"
    and c: "commit_candidate env (append_entry h) cur (st_meta st) next = Inr (t, meta')"
    and st': "st' = st\<lparr>st_state := t, st_meta := meta'\<rparr>" by (rule commit_state_Inr)
  have "valid_state cur \<and> (\<forall>x\<in>set es. is_ok (entry_envelope x)) \<and> (case anchor_entry_id (st_meta st) of
        None \<Rightarrow> es = [] \<and> cur = default_state \<and> force_snapshot (st_meta st) | Some a \<Rightarrow> replays_to sd es a cur)"
    using assms(2,3) err cur unfolding in_sync_def by blast
  then have sync: "valid_state cur" "\<forall>x\<in>set es. is_ok (entry_envelope x)"
    "\<forall>a. anchor_entry_id (st_meta st) = Some a \<longrightarrow> \<not> force_snapshot (st_meta st) \<longrightarrow> replays_to sd es a cur"
    by (auto split: option.splits)
  have "\<forall>p i. append_entry h p = Inr i \<longrightarrow> i \<noteq> []" using append_entry_nonempty by blast
  from commit_replays [OF assms(1) sync(1) assms(4,5) sync(2,3) c assms(6) this]
  obtain eid r where r: "r \<in> {journal_snapshot cur t (st_meta st), journal_delta cur t (st_meta st)}"
    "append_entry h (entry_payload env r) = Inr eid" "anchor_entry_id meta' = Some eid" "\<not> force_snapshot meta'"
    "entry_envelope (native_entry eid (entry_payload env r)) = Inr (eid, w_enc env r)"
    "replays_to sd (es @ [native_entry eid (entry_payload env r)]) eid t"
    by (elim exE conjE)
  have "replay_state sd (es @ [native_entry eid (entry_payload env r)]) = Inr (Some t)"
    using r(6) by (rule replay_state_complete)
  moreover have "in_sync sd (es @ [native_entry eid (entry_payload env r)]) st'"
    using r st' replays_to_envelopes [OF r(6)] replays_to_valid [OF r(6)] by (simp add: in_sync_def)
  ultimately show ?thesis using r st' by (intro exI [of _ eid] exI [of _ r]) (simp add: Let_def)
qed



section \<open>Restoring\<close>

lemma valid_state_map_run:
  assumes "valid_state s" and "\<And>r. valid_run r \<Longrightarrow> valid_run (f r)"
  shows "valid_state (s\<lparr>ds_run := map_option f (ds_run s)\<rparr>)"
  using assms by (auto simp: valid_state_def)

lemma valid_run_map_tools:
  assumes "valid_run r" and "\<And>t. valid_tool t \<Longrightarrow> valid_tool (g t)"
  shows "valid_run (r\<lparr>run_tools := map g (run_tools r)\<rparr>)"
  using assms by (auto simp: valid_run_def)

lemma mark_result_counts:
  "char_count ''tool identity was truncated before durable identity migration'' \<le> 1001"
  "char_count ''execution did not reach a durable result'' \<le> 1001"
  "char_count ''run settled without a durable tool result'' \<le> 1001"
  by (rule order.trans [OF char_count_le_length]; simp)+

lemma mark_unresolvable_valid: "valid_state s \<Longrightarrow> valid_state (mark_unresolvable_legacy_tools s)"
  unfolding mark_unresolvable_legacy_tools_def
  by (intro valid_state_map_run valid_run_map_tools) (auto simp: valid_tool_def mark_result_counts)

lemma mark_interrupted_valid:
  assumes "valid_state s"
  shows "valid_state (mark_interrupted s)"
proof -
  have "valid_run (r\<lparr>run_status := st, run_outcome := out, run_tools := map g (run_tools r)\<rparr>)"
    if "valid_run r" "\<And>t. valid_tool t \<Longrightarrow> valid_tool (g t)" for r st out g
    using that by (auto simp: valid_run_def)
  then show ?thesis
    using assms unfolding mark_interrupted_def
    by (intro valid_state_map_run) (auto simp: valid_tool_def mark_result_counts)
qed

lemma mark_interrupted_queue [simp]: "ds_queue (mark_interrupted s) = ds_queue s"
  by (simp add: mark_interrupted_def)

lemma mark_interrupted_not_running:
  "ds_run (mark_interrupted s) = Some r \<Longrightarrow> run_status r \<noteq> run_status.Running"
  by (cases "ds_run s") (auto simp: mark_interrupted_def split: if_splits)

lemma queue_compatible_refl [simp]: "queue_compatible q q"
  by (simp add: queue_compatible_def zip_same_conv_map filter_map comp_def)

lemma decode_branch_sync:
  assumes "decoders_agree sd wd" and "decode_branch wd es = Inr (t, meta)"
  shows "in_sync sd es \<lparr>st_state = t, st_meta = meta, st_initialized = True, st_restore_error = None\<rparr>"
  using assms
proof (cases rule: decode_branch_cases)
  case empty
  then show ?thesis by (simp add: in_sync_def default_meta_def)
next
  case (replayed a n)
  then show ?thesis
    using replays_to_envelopes [of sd es a t] replays_to_valid [of sd es a t] by (simp add: in_sync_def)
qed

lemma restore_state_inner_Inr:
  assumes "restore_state_inner env h = Inr st"
  obtains v es t meta m where "h_branch h = Inr v" "get_bool ''filtered'' v = Some True"
    "get_array ''entries'' v = Some es" "decode_branch (w_dec env) es = Inr (t, meta)"
    "st = \<lparr>st_state = st_state st, st_meta = m, st_initialized = True, st_restore_error = None\<rparr>"
    "if mark_interrupted (mark_unresolvable_legacy_tools t) = mark_unresolvable_legacy_tools t
     then st_state st = mark_unresolvable_legacy_tools t \<and> m = meta
     else commit_candidate env (append_entry h) (mark_unresolvable_legacy_tools t) meta
            (mark_interrupted (mark_unresolvable_legacy_tools t)) = Inr (st_state st, m)"
  using assms unfolding restore_state_inner_def bindR_Inr_iff ok_or_Inr_iff Let_def
  by (auto simp: bindR_Inr_iff ok_or_Inr_iff split: if_split_asm)


end
