(* ===== verification/Durable_Actions.thy ===== *)
theory Durable_Actions
  imports Durable_Store
begin

text \<open>
  The pure state machine of \<open>packages/rpi-durable/src/lib.rs\<close>: the actions of the \<open>durable\<close> tool
  (\<open>apply_action\<close> and its helpers), the journal of runs and tool calls, the rendering of a state, and
  the event handler. The SHA-256 digest in hexadecimal is the parameter \<open>sha\<close>.
\<close>

section \<open>Identities of tool calls\<close>

definition tool_call_id_of :: "(string \<Rightarrow> string) \<Rightarrow> string \<Rightarrow> string" where
  "tool_call_id_of sha v =
     (if char_count v \<le> MAX_SUMMARY_CHARS then v
      else let suffix = ellipsis @ sha v in take_chars (MAX_SUMMARY_CHARS - char_count suffix) v @ suffix)"

definition hex_digit :: "nat \<Rightarrow> char" where
  "hex_digit n = (if n < 10 then char_of (48 + n) else char_of (87 + n))"

text \<open>\<open>{hash:016x}\<close>\<close>

definition hex16 :: "u64 \<Rightarrow> string" where
  "hex16 w = map (\<lambda>i. hex_digit (unat w div 16 ^ (15 - i) mod 16)) [0..<16]"

definition fnv1a :: "string \<Rightarrow> u64" where
  "fnv1a v = fold (\<lambda>b hash. (xor hash (of_nat (of_char b))) * 0x100000001b3) v 0xcbf29ce484222325"

definition legacy_hashed_tool_id :: "string \<Rightarrow> string option" where
  "legacy_hashed_tool_id v =
     (if char_count v \<le> MAX_SUMMARY_CHARS then None
      else let suffix = ellipsis @ hex16 (fnv1a v)
           in Some (take_chars (MAX_SUMMARY_CHARS - char_count suffix) v @ suffix))"

definition tool_call_key_of :: "(string \<Rightarrow> string) \<Rightarrow> string \<Rightarrow> string" where
  "tool_call_key_of sha v =
     (if char_count v \<le> MAX_SUMMARY_CHARS then ''raw:'' @ v else ''hash:'' @ tool_call_id_of sha v)"

definition is_ascii_hexdigit :: "string \<Rightarrow> bool" where
  "is_ascii_hexdigit g = (case g of [c] \<Rightarrow> (let n = of_char c :: nat in
     48 \<le> n \<and> n \<le> 57 \<or> 65 \<le> n \<and> n \<le> 70 \<or> 97 \<le> n \<and> n \<le> 102) | _ \<Rightarrow> False)"

definition looks_like_generated_tool_id :: "string \<Rightarrow> bool" where
  "looks_like_generated_tool_id v =
     (let cs = chars v in
      length cs = MAX_SUMMARY_CHARS \<and>
      list_ex (\<lambda>hash_chars. cs ! (MAX_SUMMARY_CHARS - (hash_chars + 1)) = ellipsis \<and>
                 list_all is_ascii_hexdigit (drop (MAX_SUMMARY_CHARS - hash_chars) cs))
        [TOOL_ID_HASH_HEX_CHARS, 16])"

definition legacy_tool_matches :: "tool_checkpoint \<Rightarrow> string \<Rightarrow> string \<Rightarrow> bool" where
  "legacy_tool_matches tool call_id stable_id =
     (if tool_call_key tool \<noteq> None then False
      else if char_count call_id \<le> MAX_SUMMARY_CHARS
      then tool_call_id tool = call_id \<and> \<not> looks_like_generated_tool_id (tool_call_id tool)
      else tool_call_id tool = stable_id \<or> legacy_hashed_tool_id call_id = Some (tool_call_id tool))"

definition tool_matches :: "tool_checkpoint \<Rightarrow> string \<Rightarrow> string \<Rightarrow> string \<Rightarrow> bool" where
  "tool_matches tool call_id stable_id key \<longleftrightarrow>
     tool_call_key tool = Some key \<or> legacy_tool_matches tool call_id stable_id"

definition summary :: "string \<Rightarrow> string" where
  "summary v = take_chars MAX_SUMMARY_CHARS v @ (if char_count v > MAX_SUMMARY_CHARS then ellipsis else [])"

section \<open>Reading parameters\<close>

definition text_param :: "json option \<Rightarrow> string \<Rightarrow> nat \<Rightarrow> string res" where
  "text_param value field max_chars =
     bindR (ok_or (field @ '' is required'') (Option.bind value as_str)) (\<lambda>v.
     let v = trim v
     in if v = [] then Inl (field @ '' must not be empty'')
        else if char_count v > max_chars
        then Inl (field @ '' exceeds '' @ show_nat max_chars @ '' characters'')
        else Inr v)"

definition optional_text :: "json option \<Rightarrow> string \<Rightarrow> nat \<Rightarrow> string option res" where
  "optional_text value field max_chars = (case value of
     None \<Rightarrow> Inr None
   | Some v \<Rightarrow> if v = JNull then Inr None
               else bindR (text_param (Some v) field max_chars) (\<lambda>s. Inr (Some s)))"

definition parse_step :: "step list \<Rightarrow> json \<Rightarrow> step res" where
  "parse_step steps value =
     bindR (text_param (jget ''id'' value) ''step id'' MAX_STEP_ID_CHARS) (\<lambda>i.
     bindR (text_param (jget ''title'' value) ''step title'' MAX_STEP_TITLE_CHARS) (\<lambda>title.
     if \<exists>s\<in>set steps. step_id s = i then Inl (''duplicate step id: '' @ i)
     else Inr \<lparr>step_id = i, step_title = title, step_status = step_status.Pending, step_note = None\<rparr>))"

definition parse_steps :: "json option \<Rightarrow> step list res" where
  "parse_steps value =
     bindR (ok_or ''steps is required and must be an array'' (Option.bind value as_array)) (\<lambda>values.
     if values = [] then Inl ''steps must contain at least one item''
     else if length values > MAX_STEPS
     then Inl (''steps cannot contain more than '' @ show_nat MAX_STEPS @ '' items'')
     else foldR (\<lambda>value steps. bindR (parse_step steps value) (\<lambda>s. Inr (steps @ [s]))) values [])"

definition workflow_mut :: "durable_state \<Rightarrow> workflow res" where
  "workflow_mut s = ok_or ''no durable workflow is active; call durable with action start'' (ds_workflow s)"

definition require_running :: "workflow \<Rightarrow> unit res" where
  "require_running w =
     (if wf_status w \<noteq> workflow_status.Running
      then Inl (''workflow is '' @ workflow_status_str (wf_status w) @
                ''; only a running workflow can be checkpointed'')
      else Inr ())"

section \<open>Runs and the queue\<close>

definition allocate_run :: "run_status \<Rightarrow> string \<Rightarrow> durable_state \<Rightarrow> durable_state \<times> run_checkpoint" where
  "allocate_run status recovery_of next =
     (let n = sat_add (next_run_id next) 1; revno = sat_add (revision next) 1
      in (next\<lparr>next_run_id := n\<rparr>,
          \<lparr>run_id = ''run-'' @ show_nat (unat n), run_status = status, run_started_revision = revno,
           run_updated_revision = revno, run_outcome = [], run_recovery_of = recovery_of, run_tools = []\<rparr>))"

definition start_run :: "durable_state \<Rightarrow> durable_state" where
  "start_run next =
     (let recovery_of = (case filter_opt (\<lambda>r. run_status r = run_status.Queued \<or> run_status r = run_status.Running)
                           (ds_run next) of None \<Rightarrow> [] | Some r \<Rightarrow> run_id r);
          (next, run) = allocate_run run_status.Running recovery_of next
      in next\<lparr>ds_run := Some run\<rparr>)"

definition recover_run :: "durable_state \<Rightarrow> durable_state res" where
  "recover_run next =
     bindR (ok_or ''no durable run is available to recover'' (ds_run next)) (\<lambda>previous.
     if run_status previous \<noteq> run_status.Interrupted
     then Inl (''run is '' @ run_status_str (run_status previous) @
               ''; only an interrupted run can be recovered'')
     else let (next, run) = allocate_run run_status.Queued (run_id previous) next
          in Inr (next\<lparr>ds_run := Some (run\<lparr>run_tools := run_tools previous\<rparr>)\<rparr>))"

definition forget_run :: "durable_state \<Rightarrow> durable_state res" where
  "forget_run next =
     (if ds_run next = None then Inl ''no durable run is recorded'' else Inr (next\<lparr>ds_run := None\<rparr>))"

definition queue_item_id :: "json \<Rightarrow> string res" where
  "queue_item_id params = text_param (jget ''item'' params) ''item'' MAX_STEP_ID_CHARS"

definition enqueue_item :: "json \<Rightarrow> durable_state \<Rightarrow> durable_state res" where
  "enqueue_item params next =
     (if length (ds_queue next) \<ge> MAX_QUEUE_ITEMS
      then Inl (''queue cannot contain more than '' @ show_nat MAX_QUEUE_ITEMS @ '' items'')
      else bindR (text_param (jget ''text'' params) ''text'' MAX_QUEUE_TEXT_CHARS) (\<lambda>item_text.
        let n = sat_add (next_queue_id next) 1; revno = sat_add (revision next) 1
        in Inr (next\<lparr>next_queue_id := n, ds_queue := ds_queue next @
             [\<lparr>q_id = ''item-'' @ show_nat (unat n), q_text = item_text, q_status = queue_status.Queued,
               q_created_revision = revno, q_updated_revision = revno, q_note = []\<rparr>]\<rparr>)))"

definition find_item :: "string \<Rightarrow> durable_state \<Rightarrow> queue_item res" where
  "find_item i next = ok_or (''queue item not found: '' @ i) (find (\<lambda>q. q_id q = i) (ds_queue next))"

definition update_item :: "string \<Rightarrow> (queue_item \<Rightarrow> queue_item) \<Rightarrow> durable_state \<Rightarrow> durable_state" where
  "update_item i f next = next\<lparr>ds_queue := modify_first (\<lambda>q. q_id q = i) f (ds_queue next)\<rparr>"

definition claim_item :: "json \<Rightarrow> durable_state \<Rightarrow> durable_state res" where
  "claim_item params next =
     bindR (queue_item_id params) (\<lambda>i.
     bindR (find_item i next) (\<lambda>item.
     if q_status item \<noteq> queue_status.Queued
     then Inl (''queue item '' @ i @ '' is '' @ queue_status_str (q_status item) @
               ''; only a queued item can be claimed'')
     else Inr (update_item i (\<lambda>q. q\<lparr>q_status := queue_status.Claimed,
                                    q_updated_revision := sat_add (revision next) 1\<rparr>) next)))"

definition finish_item :: "json \<Rightarrow> durable_state \<Rightarrow> durable_state res" where
  "finish_item params next =
     bindR (queue_item_id params) (\<lambda>i.
     bindR (if get_str ''status'' params = Some ''completed'' then Inr queue_status.Completed
            else if get_str ''status'' params = Some ''failed'' then Inr queue_status.Failed
            else Inl ''status must be completed or failed for queue finish'') (\<lambda>status.
     bindR (optional_text (jget ''note'' params) ''note'' MAX_NOTE_CHARS) (\<lambda>note.
     bindR (find_item i next) (\<lambda>item.
     if q_status item \<noteq> queue_status.Claimed
     then Inl (''queue item '' @ i @ '' is '' @ queue_status_str (q_status item) @
               ''; only a claimed item can be finished'')
     else Inr (update_item i (\<lambda>q. q\<lparr>q_status := status, q_updated_revision := sat_add (revision next) 1,
                                    q_note := unwrap_or [] note\<rparr>) next)))))"

definition cancel_item :: "json \<Rightarrow> durable_state \<Rightarrow> durable_state res" where
  "cancel_item params next =
     bindR (queue_item_id params) (\<lambda>i.
     bindR (optional_text (jget ''note'' params) ''note'' MAX_NOTE_CHARS) (\<lambda>note.
     bindR (find_item i next) (\<lambda>item.
     if \<not> (q_status item = queue_status.Queued \<or> q_status item = queue_status.Claimed)
     then Inl (''queue item '' @ i @ '' is '' @ queue_status_str (q_status item) @
               ''; only a queued or claimed item can be cancelled'')
     else Inr (update_item i (\<lambda>q. q\<lparr>q_status := queue_status.Cancelled,
                 q_updated_revision := sat_add (revision next) 1,
                 q_note := unwrap_or ''cancelled'' note\<rparr>) next))))"

section \<open>The tool journal\<close>

definition bound_tools :: "tool_checkpoint list \<Rightarrow> tool_checkpoint list" where
  "bound_tools ts = (if length ts > MAX_JOURNAL_ENTRIES then drop (length ts - MAX_JOURNAL_ENTRIES) ts else ts)"

definition record_tool_start :: "(string \<Rightarrow> string) \<Rightarrow> string \<Rightarrow> string \<Rightarrow> string \<Rightarrow> durable_state \<Rightarrow> durable_state" where
  "record_tool_start sha call_id name params next = (case ds_run next of None \<Rightarrow> next | Some run \<Rightarrow>
     let stable_id = tool_call_id_of sha call_id; key = tool_call_key_of sha call_id
     in if \<exists>tool\<in>set (run_tools run). tool_matches tool call_id stable_id key \<and> tool_status tool \<noteq> tool_status.Unknown
        then next
        else next\<lparr>ds_run := Some (run\<lparr>run_tools := bound_tools (run_tools run @
          [\<lparr>tool_call_id = stable_id, tool_call_key = Some key, tool_name = summary name,
            tool_params = summary params, tool_status = tool_status.Started, tool_result = []\<rparr>])\<rparr>)\<rparr>)"

definition terminal_tool :: "tool_checkpoint \<Rightarrow> bool" where
  "terminal_tool t \<longleftrightarrow> tool_status t \<in> {tool_status.Completed, tool_status.Failed, tool_status.Interrupted, tool_status.Unknown}"

definition record_tool_end :: "(string \<Rightarrow> string) \<Rightarrow> string \<Rightarrow> string \<Rightarrow> string \<Rightarrow> bool \<Rightarrow> durable_state \<Rightarrow> durable_state" where
  "record_tool_end sha call_id name result is_error next = (case ds_run next of None \<Rightarrow> next | Some run \<Rightarrow>
     let stable_id = tool_call_id_of sha call_id; key = tool_call_key_of sha call_id;
         matching = filter (\<lambda>i. tool_matches (run_tools run ! i) call_id stable_id key) [0..<length (run_tools run)]
     in if length matching = 1 then
          (let i = hd matching; tool = run_tools run ! i
           in if terminal_tool tool then next
              else next\<lparr>ds_run := Some (run\<lparr>run_tools := (run_tools run)[i := tool\<lparr>
                tool_status := (if is_error then tool_status.Failed else tool_status.Completed),
                tool_result := summary result\<rparr>]\<rparr>)\<rparr>)
        else next\<lparr>ds_run := Some (run\<lparr>run_tools := bound_tools (run_tools run @
          [\<lparr>tool_call_id = stable_id, tool_call_key = Some key, tool_name = summary name,
            tool_params = [], tool_status = tool_status.Unknown, tool_result = summary result\<rparr>])\<rparr>)\<rparr>)"

definition settle_run :: "durable_state \<Rightarrow> durable_state" where
  "settle_run next = (case ds_run next of None \<Rightarrow> next | Some run \<Rightarrow>
     if run_status run = run_status.Running
     then next\<lparr>ds_run := Some (run\<lparr>run_status := run_status.Settled, run_outcome := ''settled'',
            run_tools := map (\<lambda>t. if tool_status t = tool_status.Started
              then t\<lparr>tool_status := tool_status.Interrupted,
                     tool_result := ''run settled without a durable tool result''\<rparr>
              else t) (run_tools run)\<rparr>)\<rparr>
     else next)"

section \<open>The actions\<close>

definition start_action :: "json \<Rightarrow> durable_state \<Rightarrow> durable_state res" where
  "start_action params next =
     bindR (text_param (jget ''name'' params) ''name'' MAX_NAME_CHARS) (\<lambda>name.
     bindR (parse_steps (jget ''steps'' params)) (\<lambda>steps.
     Inr (next\<lparr>ds_workflow := Some \<lparr>wf_name = name, wf_status = workflow_status.Running,
                                    wf_steps = steps, wf_reason = None\<rparr>\<rparr>)))"

definition checkpoint_action :: "json \<Rightarrow> durable_state \<Rightarrow> durable_state res" where
  "checkpoint_action params next =
     bindR (text_param (jget ''step'' params) ''step'' MAX_STEP_ID_CHARS) (\<lambda>sid.
     bindR (let s = unwrap_or ''in_progress'' (get_str ''status'' params) in
            if s = ''pending'' then Inr step_status.Pending
            else if s = ''in_progress'' then Inr step_status.InProgress
            else if s = ''completed'' then Inr step_status.Completed
            else Inl ''status must be pending, in_progress, or completed'') (\<lambda>status.
     bindR (optional_text (jget ''note'' params) ''note'' MAX_NOTE_CHARS) (\<lambda>note.
     bindR (workflow_mut next) (\<lambda>w.
     bindR (require_running w) (\<lambda>_.
     bindR (ok_or (''step not found: '' @ sid) (find (\<lambda>s. step_id s = sid) (wf_steps w))) (\<lambda>_.
     Inr (next\<lparr>ds_workflow := Some (w\<lparr>wf_steps := modify_first (\<lambda>s. step_id s = sid)
       (\<lambda>s. s\<lparr>step_status := status, step_note := (if note \<noteq> None then note else step_note s)\<rparr>)
       (wf_steps w)\<rparr>)\<rparr>)))))))"

definition pause_action :: "json \<Rightarrow> durable_state \<Rightarrow> durable_state res" where
  "pause_action params next =
     bindR (optional_text (jget ''reason'' params) ''reason'' MAX_NOTE_CHARS) (\<lambda>reason.
     bindR (workflow_mut next) (\<lambda>w.
     if wf_status w \<noteq> workflow_status.Running
     then Inl (''workflow is '' @ workflow_status_str (wf_status w) @ ''; only a running workflow can be paused'')
     else Inr (next\<lparr>ds_workflow := Some (w\<lparr>wf_status := workflow_status.Paused, wf_reason := reason\<rparr>)\<rparr>)))"

definition resume_action :: "durable_state \<Rightarrow> durable_state res" where
  "resume_action next =
     bindR (workflow_mut next) (\<lambda>w.
     if wf_status w \<noteq> workflow_status.Paused
     then Inl (''workflow is '' @ workflow_status_str (wf_status w) @ ''; only a paused workflow can be resumed'')
     else Inr (next\<lparr>ds_workflow := Some (w\<lparr>wf_status := workflow_status.Running, wf_reason := None\<rparr>)\<rparr>))"

definition complete_action :: "durable_state \<Rightarrow> durable_state res" where
  "complete_action next =
     bindR (workflow_mut next) (\<lambda>w.
     bindR (require_running w) (\<lambda>_.
     if \<exists>s\<in>set (wf_steps w). step_status s \<noteq> step_status.Completed
     then Inl ''all steps must be completed before completing the workflow''
     else Inr (next\<lparr>ds_workflow := Some (w\<lparr>wf_status := workflow_status.Completed, wf_reason := None\<rparr>)\<rparr>)))"

definition fail_action :: "json \<Rightarrow> durable_state \<Rightarrow> durable_state res" where
  "fail_action params next =
     bindR (optional_text (jget ''reason'' params) ''reason'' MAX_NOTE_CHARS) (\<lambda>reason.
     let reason = (case reason of None \<Rightarrow> Some ''workflow marked as failed'' | Some r \<Rightarrow> Some r) in
     bindR (workflow_mut next) (\<lambda>w.
     if \<not> (wf_status w = workflow_status.Running \<or> wf_status w = workflow_status.Paused)
     then Inl (''workflow is '' @ workflow_status_str (wf_status w) @
               ''; only a running or paused workflow can fail'')
     else Inr (next\<lparr>ds_workflow := Some (w\<lparr>wf_status := workflow_status.Failed, wf_reason := reason\<rparr>)\<rparr>)))"

definition apply_action :: "json \<Rightarrow> durable_state \<Rightarrow> durable_state res" where
  "apply_action params next =
     (let action = unwrap_or ''status'' (get_str ''action'' params) in
      if action = ''status'' then Inr next
      else if action = ''start_run'' then Inr (start_run next)
      else if action = ''settle_run'' then Inr (settle_run next)
      else if action = ''recover_run'' then recover_run next
      else if action = ''start'' then start_action params next
      else if action = ''checkpoint'' then checkpoint_action params next
      else if action = ''pause'' then pause_action params next
      else if action = ''resume'' then resume_action next
      else if action = ''complete'' then complete_action next
      else if action = ''fail'' then fail_action params next
      else if action = ''reset'' then Inr (next\<lparr>ds_workflow := None\<rparr>)
      else if action = ''recover'' then recover_run next
      else if action = ''forget_run'' then forget_run next
      else if action = ''enqueue'' then enqueue_item params next
      else if action = ''claim'' then claim_item params next
      else if action = ''finish'' then finish_item params next
      else if action = ''cancel'' then cancel_item params next
      else if action = ''queue'' then Inr next
      else Inl (''action must be one of: status, start, checkpoint, pause, resume, complete, fail, reset, '' @
                ''recover, forget_run, enqueue, queue, claim, finish, cancel''))"

section \<open>Rendering\<close>

definition em_dash :: string where
  "em_dash = '' '' @ [CHR 0xE2, CHR 0x80, CHR 0x94] @ '' ''"

definition render_workflow :: "workflow option \<Rightarrow> string list" where
  "render_workflow ow = (case ow of None \<Rightarrow> [''No durable workflow is active''] | Some w \<Rightarrow>
     [wf_name w @ '' ['' @ workflow_status_str (wf_status w) @ '']'' @ em_dash @
        show_nat (length (filter (\<lambda>s. step_status s = step_status.Completed) (wf_steps w))) @ ''/'' @
        show_nat (length (wf_steps w)) @ '' completed'']
     @ (case wf_reason w of None \<Rightarrow> [] | Some r \<Rightarrow> [''Reason: '' @ r])
     @ map (\<lambda>s. ''['' @ step_marker (step_status s) @ ''] '' @ step_id s @ em_dash @ step_title s) (wf_steps w))"

definition render_run :: "run_checkpoint option \<Rightarrow> string list" where
  "render_run orun = (case orun of None \<Rightarrow> [] | Some run \<Rightarrow>
     let tool_summary = join '', '' (map (\<lambda>t. tool_name t @ '':'' @ tool_status_str (tool_status t))
           (take 3 (rev (run_tools run))))
     in [''Run '' @ run_id run @ '' ['' @ run_status_str (run_status run) @ '']'' @
           (if tool_summary = [] then [] else em_dash @ ''tools: '' @ tool_summary)]
      @ (if run_status run = run_status.Interrupted
         then [''Recovery required: inspect the journal before retrying side effects''] else []))"

definition render_queue :: "queue_item list \<Rightarrow> string list" where
  "render_queue qs = (if qs = [] then [] else
     (''Queue: '' @ show_nat (length (filter (\<lambda>q. q_status q = queue_status.Queued) qs)) @ ''/'' @
        show_nat (length qs) @ '' items queued'')
     # map (\<lambda>q. ''['' @ queue_status_str (q_status q) @ ''] '' @ q_id q @ em_dash @ q_text q)
         (take 3 (rev qs)))"

definition render :: "durable_state \<Rightarrow> string" where
  "render s = join [CHR 0x0A] (render_workflow (ds_workflow s) @ render_run (ds_run s) @ render_queue (ds_queue s))"

section \<open>The tool and the event handler\<close>

text \<open>What the tool reports: the action and the state, with the error when there is one.\<close>

datatype reply =
    Result string durable_state "string option"
  | ErrorResult string string

definition durable :: "writer_env \<Rightarrow> host \<Rightarrow> json \<Rightarrow> store \<Rightarrow> store \<times> reply res" where
  "durable env h params st =
     (let action = unwrap_or ''status'' (get_str ''action'' params) in
      case snapshot_state env h st of
        (st', Inl error) \<Rightarrow> (st', Inr (ErrorResult action error))
      | (st', Inr current) \<Rightarrow>
          (case apply_action params current of
             Inl error \<Rightarrow> (st', Inr (Result action current (Some error)))
           | Inr next \<Rightarrow>
               (case commit_state env h current next st' of
                  (st'', Inl error) \<Rightarrow> (st'', Inl error)
                | (st'', Inr committed) \<Rightarrow> (st'', Inr (Result action committed None)))))"

datatype event =
    SessionStart
  | SessionTree
  | AgentStart
  | ToolExecutionStart "(string \<times> string \<times> string) option"
  | ToolExecutionEnd "(string \<times> string \<times> string \<times> bool) option"
  | ToolResult "(string \<times> string \<times> string \<times> bool) option"
  | AgentSettled
  | SessionShutdown
  | OtherEvent

definition on_tool_start :: "(string \<Rightarrow> string) \<Rightarrow> string \<times> string \<times> string \<Rightarrow> durable_state \<Rightarrow> durable_state" where
  "on_tool_start sha call next =
     (let (call_id, name, params) = call;
          next = (if ds_run next = None then start_run next else next)
      in if (case ds_run next of None \<Rightarrow> False | Some r \<Rightarrow> run_status r = run_status.Running)
         then record_tool_start sha call_id name params next else next)"

definition on_tool_end :: "(string \<Rightarrow> string) \<Rightarrow> string \<times> string \<times> string \<times> bool \<Rightarrow> durable_state \<Rightarrow> durable_state" where
  "on_tool_end sha res next =
     (let (call_id, name, result, is_error) = res;
          next = (if ds_run next = None then start_run next else next)
      in record_tool_end sha call_id name result is_error next)"

definition mutation_of :: "(string \<Rightarrow> string) \<Rightarrow> event \<Rightarrow> (durable_state \<Rightarrow> durable_state) option" where
  "mutation_of sha ev = (case ev of
     AgentStart \<Rightarrow> Some start_run
   | ToolExecutionStart (Some call) \<Rightarrow> Some (on_tool_start sha call)
   | ToolExecutionEnd (Some r) \<Rightarrow> Some (on_tool_end sha r)
   | ToolResult (Some r) \<Rightarrow> Some (on_tool_end sha r)
   | AgentSettled \<Rightarrow> Some settle_run
   | SessionShutdown \<Rightarrow> Some mark_interrupted
   | _ \<Rightarrow> None)"

definition handle_event :: "(string \<Rightarrow> string) \<Rightarrow> writer_env \<Rightarrow> host \<Rightarrow> event \<Rightarrow> store \<Rightarrow> store \<times> nat" where
  "handle_event sha env h ev st =
     (let code = (\<lambda>(st', r). (st', if is_ok r then 0 else 1)) in
      case ev of
        SessionStart \<Rightarrow> code (restore_state env h st)
      | SessionTree \<Rightarrow> code (restore_state env h st)
      | ToolExecutionStart None \<Rightarrow> (st, 1)
      | ToolExecutionEnd None \<Rightarrow> (st, 1)
      | ToolResult None \<Rightarrow> (st, 1)
      | OtherEvent \<Rightarrow> (st, 0)
      | _ \<Rightarrow> (case mutation_of sha ev of Some f \<Rightarrow> code (mutate_state env h f st) | None \<Rightarrow> (st, 0)))"

section \<open>Lists found by id\<close>

interpretation steps: keyed_list step_id "\<lambda>k xs. find (\<lambda>s. step_id s = k) xs"
    "\<lambda>k f xs. modify_first (\<lambda>s. step_id s = k) f xs"
  by unfold_locales auto

interpretation items: keyed_list q_id "\<lambda>k xs. find (\<lambda>q. q_id q = k) xs"
    "\<lambda>k f xs. modify_first (\<lambda>q. q_id q = k) f xs"
  by unfold_locales auto

section \<open>The parameters an action accepts\<close>

lemma text_param_Inr:
  "text_param v field n = Inr s \<Longrightarrow> s \<noteq> [] \<and> trim s = s \<and> char_count s \<le> n"
  by (auto simp: text_param_def bindR_Inr_iff Let_def split: if_splits)

lemma optional_text_Inr: "optional_text v field n = Inr (Some s) \<Longrightarrow> char_count s \<le> n"
  by (auto simp: optional_text_def bindR_Inr_iff split: option.splits if_splits dest: text_param_Inr)

lemma note_bound: "optional_text v field n = Inr note \<Longrightarrow> char_count d \<le> n \<Longrightarrow> char_count (unwrap_or d note) \<le> n"
  by (cases "note") (auto dest: optional_text_Inr)

lemma parse_step_Inr:
  "parse_step ss v = Inr s \<Longrightarrow> valid_step s \<and> step_id s \<notin> step_id ` set ss"
  by (auto simp: parse_step_def bindR_Inr_iff valid_step_def writer_limits image_iff
      split: if_splits dest!: text_param_Inr)

lemma parse_steps_fold:
  "foldR (\<lambda>value steps. bindR (parse_step steps value) (\<lambda>s. Inr (steps @ [s]))) vs acc = Inr ss \<Longrightarrow>
     distinct (map step_id acc) \<and> (\<forall>s\<in>set acc. valid_step s) \<Longrightarrow>
     length ss = length acc + length vs \<and> distinct (map step_id ss) \<and> (\<forall>s\<in>set ss. valid_step s)"
proof (induction vs arbitrary: acc)
  case (Cons v vs)
  from Cons.prems(1) obtain s where s: "parse_step acc v = Inr s"
    and rest: "foldR (\<lambda>value steps. bindR (parse_step steps value) (\<lambda>s. Inr (steps @ [s]))) vs (acc @ [s]) = Inr ss"
    by (auto simp: bindR_Inr_iff)
  from Cons.IH [OF rest] Cons.prems(2) parse_step_Inr [OF s] show ?case by auto
qed auto

lemma parse_steps_Inr:
  assumes "parse_steps v = Inr ss"
  shows "ss \<noteq> [] \<and> length ss \<le> 128 \<and> distinct (map step_id ss) \<and> (\<forall>s\<in>set ss. valid_step s)"
  using assms parse_steps_fold [of _ "[]" ss]
  by (fastforce simp: parse_steps_def bindR_Inr_iff MAX_STEPS_def split: if_splits)

end
