(* ===== verification/Durable_Examples.thy ===== *)
theory Durable_Examples
  imports Durable_Store
begin

text \<open>
  A concrete session for the theorems about the journal: a branch that holds one snapshot with a
  running run, the generated codecs restricted to the three records of the session, and a host that
  acknowledges an append.
\<close>

definition ex_run :: run_checkpoint where
  "ex_run = \<lparr>run_id = ''run-1'', run_status = run_status.Running, run_started_revision = 1,
     run_updated_revision = 1, run_outcome = [], run_recovery_of = [], run_tools = []\<rparr>"

definition ex_state :: durable_state where
  "ex_state = default_state\<lparr>revision := 1, next_run_id := 1, ds_run := Some ex_run\<rparr>"

definition ex_meta :: journal_meta where
  "ex_meta = \<lparr>anchor_entry_id = Some ''e1'', commits_since_snapshot = 0, force_snapshot = False\<rparr>"

definition ex_after :: durable_state where
  "ex_after = stamp 2 (mark_interrupted ex_state)"

definition ex_base_record :: writer_record where
  "ex_base_record = journal_snapshot default_state ex_state default_meta"

definition ex_enc :: "writer_record \<Rightarrow> json" where
  "ex_enc r = JStr (case wr_kind r of Delta \<Rightarrow> ''delta'' | Snapshot \<Rightarrow>
     if wr_revision r = 1 then ''base'' else ''snapshot'')"

definition ex_dec :: "json \<Rightarrow> writer_record res" where
  "ex_dec j =
     (if j = JStr ''delta'' then Inr (journal_delta ex_state ex_after ex_meta)
      else if j = JStr ''snapshot'' then Inr (journal_snapshot ex_state ex_after ex_meta)
      else if j = JStr ''base'' then Inr ex_base_record else Inl ''unknown record'')"

definition ex_env :: writer_env where
  "ex_env = \<lparr>w_dec = ex_dec, w_enc = ex_enc, w_size = (\<lambda>r. Inr (if wr_kind r = Delta then 100 else 200))\<rparr>"

definition ex_serde :: serde where
  "ex_serde = \<lparr>dec_record = (\<lambda>j. case ex_dec j of Inl m \<Rightarrow> Inl m | Inr r \<Rightarrow> Inr (to_core r)),
     enc_state = (\<lambda>s. Inr JNull), dec_state = (\<lambda>j. Inl ''unused'')\<rparr>"

definition ex_branch :: "json list" where
  "ex_branch = [native_entry ''e1'' (entry_payload ex_env ex_base_record)]"

definition ex_value :: json where
  "ex_value = JObj [(''filtered'', JBool True), (''entries'', JArr ex_branch)]"

definition ex_host :: host where
  "ex_host = \<lparr>h_branch = Inr ex_value, h_append = (\<lambda>p. Inr (JObj [(''entryId'', JStr ''e2'')]))\<rparr>"

lemma ex_agree: "decoders_agree ex_serde ex_dec"
  by (simp add: decoders_agree_def ex_serde_def split: sum.splits)

lemma ex_valid: "valid_state ex_state"
proof -
  have "trim ''run-1'' \<noteq> []" "char_count ''run-1'' \<le> 128" by code_simp+
  then show ?thesis
    by (simp add: ex_state_def ex_run_def default_state_def valid_state_def valid_run_def valid_queue_def)
qed

lemma ex_base: "entry_envelope (native_entry ''e1'' (entry_payload ex_env ex_base_record)) = Inr (''e1'', JStr ''base'')"
  by (simp add: native_envelope ex_env_def ex_enc_def ex_base_record_def journal_snapshot_def ex_state_def)

lemma ex_parse: "w_parse ex_dec (JStr ''base'') = Inr ex_base_record"
  using ex_valid by (simp add: w_parse_Inr_iff ex_dec_def ex_base_record_def journal_snapshot_def well_parsed_def
      ex_state_def default_state_def)

lemma ex_decode: "decode_branch ex_dec ex_branch = Inr (ex_state, ex_meta)"
proof -
  have "w_scan ex_dec 0 ex_branch = Inr ([(0, ex_base_record, ''e1'')], [])"
    by (simp add: ex_branch_def w_envelope_eq ex_base ex_parse)
  then show ?thesis
    using ex_valid
    by (simp add: decode_branch_def w_select_def w_base_def apply_record_snapshot
        w_parse_well_parsed [OF ex_parse] ex_base_record_def journal_snapshot_def apply_record_def ex_meta_def)
qed

lemma ex_marks: "mark_unresolvable_legacy_tools ex_state = ex_state" "mark_interrupted ex_state \<noteq> ex_state"
  by (simp_all add: mark_unresolvable_legacy_tools_def mark_interrupted_def ex_state_def ex_run_def default_state_def)

lemma ex_changes: "journal_changes ex_state ex_after =
    [SetRunMeta ''run-1'' run_status.Interrupted 1 2 ''interrupted'' []]"
  by (simp add: journal_changes_def ex_after_def ex_state_def ex_run_def stamp_def mark_interrupted_def
      run_changes_def run_meta_def tool_changes_def queue_changes_def MAX_JOURNAL_ENTRIES_def)

lemma ex_commit: "commit_candidate ex_env (append_entry ex_host) ex_state ex_meta (mark_interrupted ex_state) =
    Inr (ex_after, \<lparr>anchor_entry_id = Some ''e2'', commits_since_snapshot = 1, force_snapshot = False\<rparr>)"
proof -
  have add: "checked_add (revision ex_state) 1 = Some 2" by (simp add: ex_state_def checked_add_def)
  show ?thesis
    using ex_marks(2) ex_changes
    by (simp add: commit_candidate_def add ex_after_def [symmetric] Let_def)
       (simp add: ex_env_def journal_delta_def journal_snapshot_def map_err_def ex_meta_def
         append_entry_def append_entry_identity_def ex_host_def SNAPSHOT_INTERVAL_def word_le_nat_alt)
qed

lemma ex_restore: "restore_state_inner ex_env ex_host =
    Inr \<lparr>st_state = ex_after, st_meta = \<lparr>anchor_entry_id = Some ''e2'', commits_since_snapshot = 1, force_snapshot = False\<rparr>,
         st_initialized = True, st_restore_error = None\<rparr>"
proof -
  have "h_branch ex_host = Inr ex_value" "get_bool ''filtered'' ex_value = Some True"
    "get_array ''entries'' ex_value = Some ex_branch" "w_dec ex_env = ex_dec"
    by (simp_all add: ex_host_def ex_value_def get_bool_def get_array_def ex_env_def)
  then show ?thesis by (simp add: restore_state_inner_def ex_decode ex_marks ex_commit)
qed

lemma ex_encodes: "encodes ex_serde ex_env (journal_snapshot ex_state ex_after ex_meta)"
  "encodes ex_serde ex_env (journal_delta ex_state ex_after ex_meta)"
  by (simp_all add: encodes_def ex_serde_def ex_env_def ex_enc_def ex_dec_def journal_delta_def
      journal_snapshot_def ex_after_def)

theorem writer_reader_agree_witness:
  "map_option fst (ok (decode_branch ex_dec ex_branch)) = Some ex_state \<and>
   map_option (unwrap_or default_state) (ok (replay_state ex_serde ex_branch)) = Some ex_state"
  using writer_reader_agree [OF ex_agree, of ex_branch] by (simp add: ex_decode)





end
