(* ===== verification/Durable_Session.thy ===== *)
theory Durable_Session
  imports Durable_Actions Durable_Examples
begin

text \<open>
  What the durable extension keeps while it runs: every action and every event takes a valid state to
  a valid state whose queue can be journaled, so a whole session of commits leaves a branch that
  replays to the state in memory.
\<close>

section \<open>Actions keep the state valid\<close>

definition fresh_queue :: "durable_state \<Rightarrow> bool" where
  "fresh_queue s \<longleftrightarrow> (\<forall>n>unat (next_queue_id s). ''item-'' @ show_nat n \<notin> q_id ` set (ds_queue s))"

definition action_inv :: "durable_state \<Rightarrow> bool" where
  "action_inv s \<longleftrightarrow> valid_state s \<and> fresh_queue s"

definition keeps_ids :: "queue_item list \<Rightarrow> queue_item list \<Rightarrow> bool" where
  "keeps_ids qs qs' \<longleftrightarrow> (\<exists>new. map q_id qs' = map q_id qs @ new)"

lemma keeps_ids_refl [simp]: "keeps_ids qs qs"
  by (simp add: keeps_ids_def)

lemma keeps_ids_compatible: "keeps_ids qs qs' \<Longrightarrow> queue_compatible qs qs'"
proof -
  assume "keeps_ids qs qs'"
  then obtain new where new: "map q_id qs' = map q_id qs @ new" by (auto simp: keeps_ids_def)
  show ?thesis
  proof (cases "length qs = length qs'")
    case True
    with new have "map q_id qs = map q_id qs'" by (metis append_eq_append_conv append_Nil2 length_map)
    then have same: "\<forall>(a, b)\<in>set (zip qs qs'). q_id a = q_id b"
      by (auto simp: set_zip) (metis nth_map)
    have "q_id (fst (hd ds)) = q_id (snd (hd ds))"
      if "ds = filter (\<lambda>(before, after). before \<noteq> after) (zip qs qs')" "length ds = 1" for ds
    proof -
      from that(2) have "hd ds \<in> set ds" by (cases ds) (auto simp del: set_filter)
      with that(1) have "hd ds \<in> set (zip qs qs')" by simp
      with same show ?thesis by auto
    qed
    then show ?thesis by (auto simp: queue_compatible_def Let_def)
  next
    case False
    then show ?thesis by (simp add: queue_compatible_def)
  qed
qed

definition keeps :: "durable_state \<Rightarrow> durable_state \<Rightarrow> bool" where
  "keeps s t \<longleftrightarrow> action_inv t \<and> keeps_ids (ds_queue s) (ds_queue t)"

lemma keeps_same_queue:
  "action_inv s \<Longrightarrow> valid_state t \<Longrightarrow> ds_queue t = ds_queue s \<Longrightarrow> next_queue_id t = next_queue_id s \<Longrightarrow> keeps s t"
  by (simp add: keeps_def action_inv_def fresh_queue_def)

lemma keeps_refl: "action_inv s \<Longrightarrow> keeps s s"
  by (simp add: keeps_def)

lemma keeps_inv: "keeps s t \<Longrightarrow> action_inv t"
  by (simp add: keeps_def)

lemma keeps_trans: "keeps s t \<Longrightarrow> keeps t u \<Longrightarrow> keeps s u"
  by (auto simp: keeps_def keeps_ids_def)

lemma valid_state_workflow:
  "valid_state (s\<lparr>ds_workflow := Some w\<rparr>) \<longleftrightarrow> valid_state (s\<lparr>ds_workflow := None\<rparr>) \<and> valid_workflow w"
  by (auto simp: valid_state_def)

lemma valid_state_parts:
  "valid_state s \<Longrightarrow> valid_state (s\<lparr>ds_workflow := None\<rparr>)" "valid_state s \<Longrightarrow> valid_state (s\<lparr>ds_run := None\<rparr>)"
  "valid_state s \<Longrightarrow> ds_workflow s = Some w \<Longrightarrow> valid_workflow w"
  "valid_state s \<Longrightarrow> ds_run s = Some r \<Longrightarrow> valid_run r"
  by (auto simp: valid_state_def)

lemma keeps_workflow:
  assumes "action_inv s" and "valid_workflow w"
  shows "keeps s (s\<lparr>ds_workflow := Some w\<rparr>)"
  using assms by (intro keeps_same_queue) (auto simp: action_inv_def valid_state_workflow valid_state_parts)

lemma keeps_run:
  assumes "action_inv s" and "valid_run r"
  shows "keeps s (s\<lparr>ds_run := Some r\<rparr>)"
  using assms by (intro keeps_same_queue) (auto simp: action_inv_def valid_state_run valid_state_parts)

lemma numbered_id:
  assumes "length pre = 4 \<or> length pre = 5" and "CHR ''-'' \<in> set pre"
  shows "trim (pre @ show_nat (unat (n::u64))) \<noteq> []" "char_count (pre @ show_nat (unat n)) \<le> 128"
proof -
  show "trim (pre @ show_nat (unat n)) \<noteq> []"
    using assms(2) by (intro trim_not_Nil [of "CHR ''-''"]) (auto simp: is_cont_def ws_chars_def)
  show "char_count (pre @ show_nat (unat n)) \<le> 128"
    using char_count_le_length [of "pre @ show_nat (unat n)"] show_u64_length [of n] assms(1) by auto
qed

lemma allocate_run_valid:
  assumes "allocate_run status recovery s = (t, r)"
  shows "valid_run r" "run_tools r = []" "t = s\<lparr>next_run_id := next_run_id t\<rparr>" "run_status r = status"
  using assms numbered_id [of "''run-''" "sat_add (next_run_id s) 1"]
  by (auto simp: allocate_run_def Let_def valid_run_def)

lemma keeps_start_run: "action_inv s \<Longrightarrow> keeps s (start_run s)"
proof -
  assume inv: "action_inv s"
  obtain recovery where "start_run s = (let (t, r) = allocate_run run_status.Running recovery s in t\<lparr>ds_run := Some r\<rparr>)"
    by (simp add: start_run_def Let_def)
  moreover obtain t r where a: "allocate_run run_status.Running recovery s = (t, r)" by force
  ultimately have "start_run s = s\<lparr>next_run_id := next_run_id t, ds_run := Some r\<rparr>"
    using allocate_run_valid(3) [OF a] by (metis (no_types, lifting) case_prod_conv durable_state.update_convs(2,5))
  then show ?thesis
    using allocate_run_valid(1) [OF a] inv
    by (intro keeps_same_queue) (auto simp: action_inv_def valid_state_def)
qed

lemma keeps_recover_run: "action_inv s \<Longrightarrow> recover_run s = Inr t \<Longrightarrow> keeps s t"
proof -
  assume inv: "action_inv s" and rec: "recover_run s = Inr t"
  then obtain p where p: "ds_run s = Some p" "run_status p = run_status.Interrupted"
    by (auto simp: recover_run_def bindR_Inr_iff ok_or_Inr_iff split: if_splits)
  obtain u r where a: "allocate_run run_status.Queued (run_id p) s = (u, r)" by force
  with rec p have "t = u\<lparr>ds_run := Some (r\<lparr>run_tools := run_tools p\<rparr>)\<rparr>" by (simp add: recover_run_def)
  moreover have "valid_run (r\<lparr>run_tools := run_tools p\<rparr>)"
    using allocate_run_valid(1) [OF a] valid_state_parts(4) [of s p] inv p
    by (auto simp: action_inv_def valid_run_def)
  moreover have "ds_queue u = ds_queue s" "next_queue_id u = next_queue_id s" "ds_workflow u = ds_workflow s"
    using allocate_run_valid(3) [OF a] by (metis durable_state.select_convs durable_state.update_convs(2) durable_state.surjective)+
  ultimately show ?thesis
    using inv by (intro keeps_same_queue) (auto simp: action_inv_def valid_state_def)
qed

lemma keeps_update_item:
  assumes "action_inv s" and "find_item i s = Inr q"
    and "\<And>q. q_id (f q) = q_id q" and "\<And>q. valid_queue_item q \<Longrightarrow> valid_queue_item (f q)"
  shows "keeps s (update_item i f s)"
proof -
  have ids: "map q_id (ds_queue (update_item i f s)) = map q_id (ds_queue s)"
    using items.update_keys [of f i] assms(3) by (simp add: update_item_def)
  have set_ids: "q_id ` set (ds_queue (update_item i f s)) = q_id ` set (ds_queue s)"
    using ids by (metis list.set_map)
  have valid: "valid_queue_item q" if "q \<in> set (ds_queue s)" for q
    using that assms(1) by (simp add: action_inv_def valid_state_def valid_queue_def)
  have "valid_queue_item q" if "q \<in> set (ds_queue (update_item i f s))" for q
  proof -
    from that have "q \<in> set (modify_first (\<lambda>q. q_id q = i) f (ds_queue s))" by (simp add: update_item_def)
    then consider "q \<in> set (ds_queue s)" | x where "find (\<lambda>q. q_id q = i) (ds_queue s) = Some x" "q = f x"
      using items.update_members by blast
    then show ?thesis by cases (auto dest!: items.lookup_key intro: valid assms(4))
  qed
  moreover have "length (ds_queue (update_item i f s)) = length (ds_queue s)" by (metis ids length_map)
  ultimately have "valid_state (update_item i f s)"
    using assms(1) ids by (auto simp: action_inv_def valid_state_def valid_queue_def update_item_def)
  moreover have "fresh_queue (update_item i f s)"
    using assms(1) set_ids by (simp add: action_inv_def fresh_queue_def) (simp add: update_item_def)
  ultimately show ?thesis
    using ids by (auto simp: keeps_def action_inv_def keeps_ids_def)
qed

lemma cancelled_count: "char_count ''cancelled'' \<le> 4000"
  by (rule order.trans [OF char_count_le_length]) simp

lemma keeps_claim: "action_inv s \<Longrightarrow> claim_item params s = Inr t \<Longrightarrow> keeps s t"
  by (auto simp: claim_item_def bindR_Inr_iff valid_queue_item_def intro!: keeps_update_item split: if_splits)

lemma keeps_finish: "action_inv s \<Longrightarrow> finish_item params s = Inr t \<Longrightarrow> keeps s t"
  unfolding finish_item_def bindR_Inr_iff
  by (elim exE conjE; simp split: if_split_asm; hypsubst?)
     (auto intro!: keeps_update_item simp: valid_queue_item_def dest!: note_bound [where d = "[]"] simp: MAX_NOTE_CHARS_def)

lemma keeps_cancel: "action_inv s \<Longrightarrow> cancel_item params s = Inr t \<Longrightarrow> keeps s t"
  unfolding cancel_item_def bindR_Inr_iff
  by (elim exE conjE; simp split: if_split_asm)
     (auto intro!: keeps_update_item simp: valid_queue_item_def MAX_NOTE_CHARS_def
       dest!: note_bound [where d = "''cancelled''"] simp: cancelled_count)

lemma keeps_enqueue:
  assumes "action_inv s" and "next_queue_id s \<noteq> - 1" and "enqueue_item params s = Inr t"
  shows "keeps s t"
proof -
  let ?n = "sat_add (next_queue_id s) 1"
  from assms(3) obtain body where len: "length (ds_queue s) < 32" and body: "char_count body \<le> 4000"
    and t: "t = s\<lparr>next_queue_id := ?n, ds_queue := ds_queue s @
             [\<lparr>q_id = ''item-'' @ show_nat (unat ?n), q_text = body, q_status = queue_status.Queued,
               q_created_revision = sat_add (revision s) 1, q_updated_revision = sat_add (revision s) 1, q_note = []\<rparr>]\<rparr>"
    by (auto simp: enqueue_item_def bindR_Inr_iff Let_def writer_limits split: if_splits dest!: text_param_Inr)
  have "unat (next_queue_id s) < 2 ^ 64 - 1"
  proof -
    have "unat (next_queue_id s) \<noteq> unat (- 1 :: u64)" using assms(2) word_unat_eq_iff by blast
    moreover have "unat (next_queue_id s) < 2 ^ 64" using unsigned_less [of "next_queue_id s"] by simp
    ultimately show ?thesis by (simp add: unsigned_minus_1_eq_mask mask_eq_exp_minus_1)
  qed
  then have n: "unat ?n = Suc (unat (next_queue_id s))" by (simp add: unat_sat_add)
  have fresh: "''item-'' @ show_nat (unat ?n) \<notin> q_id ` set (ds_queue s)"
    using assms(1) n by (auto simp: action_inv_def fresh_queue_def)
  have "valid_state t"
    using assms(1) len body fresh numbered_id [of "''item-''" ?n] unfolding t
    by (auto simp: action_inv_def valid_state_def valid_queue_def valid_queue_item_def)
  moreover have "fresh_queue t"
    using assms(1) n unfolding t by (auto simp: action_inv_def fresh_queue_def)
  ultimately show ?thesis by (simp add: keeps_def action_inv_def t keeps_ids_def)
qed

lemma keeps_start:
  assumes "action_inv s" and "start_action params s = Inr t"
  shows "keeps s t"
proof -
  from assms(2) obtain name steps where n: "text_param (jget ''name'' params) ''name'' MAX_NAME_CHARS = Inr name"
    "parse_steps (jget ''steps'' params) = Inr steps"
    "t = s\<lparr>ds_workflow := Some \<lparr>wf_name = name, wf_status = workflow_status.Running, wf_steps = steps, wf_reason = None\<rparr>\<rparr>"
    by (auto simp: start_action_def bindR_Inr_iff)
  with text_param_Inr [OF n(1)] parse_steps_Inr [OF n(2)] assms(1) show ?thesis
    by (auto simp: valid_workflow_def MAX_NAME_CHARS_def intro!: keeps_workflow)
qed

lemma keeps_checkpoint:
  assumes "action_inv s" and "checkpoint_action params s = Inr t"
  shows "keeps s t"
proof -
  from assms(2) obtain sid status n w where w: "ds_workflow s = Some w"
    and n: "optional_text (jget ''note'' params) ''note'' MAX_NOTE_CHARS = Inr n"
    and t: "t = s\<lparr>ds_workflow := Some (w\<lparr>wf_steps := modify_first (\<lambda>s. step_id s = sid)
       (\<lambda>s. s\<lparr>step_status := status, step_note := (if n \<noteq> None then n else step_note s)\<rparr>)
       (wf_steps w)\<rparr>)\<rparr>"
    unfolding checkpoint_action_def bindR_Inr_iff workflow_mut_def ok_or_Inr_iff by blast
  let ?f = "\<lambda>s. s\<lparr>step_status := status, step_note := (if n \<noteq> None then n else step_note s)\<rparr>"
  let ?ss = "modify_first (\<lambda>s. step_id s = sid) ?f (wf_steps w)"
  have valid: "valid_workflow w" using assms(1) w by (auto simp: action_inv_def valid_state_parts)
  have f: "valid_step (?f x)" if "valid_step x" for x
    using that n optional_text_Inr by (auto simp: valid_step_def MAX_NOTE_CHARS_def)
  have "valid_step x" if "x \<in> set ?ss" for x
    using that steps.update_members [of x sid ?f "wf_steps w"] steps.lookup_key [of sid "wf_steps w"] valid f
    by (auto simp: valid_workflow_def)
  moreover have "map step_id ?ss = map step_id (wf_steps w)" by (rule steps.update_keys) simp
  moreover from this have "?ss \<noteq> []" using valid by (auto simp: valid_workflow_def)
  ultimately have "valid_workflow (w\<lparr>wf_steps := ?ss\<rparr>)" using valid by (simp add: valid_workflow_def)
  with assms(1) show ?thesis unfolding t by (rule keeps_workflow)
qed

lemma keeps_status_change:
  assumes "action_inv s" and "ds_workflow s = Some w"
  shows "keeps s (s\<lparr>ds_workflow := Some (w\<lparr>wf_status := st, wf_reason := r\<rparr>)\<rparr>)"
  using assms valid_state_parts(3) [of s w]
  by (intro keeps_workflow) (auto simp: action_inv_def valid_workflow_def)

lemma keeps_settle: "action_inv s \<Longrightarrow> keeps s (settle_run s)"
proof (cases "ds_run s")
  case None
  then show "action_inv s \<Longrightarrow> ?thesis" by (simp add: settle_run_def keeps_def)
next
  case (Some r)
  assume inv: "action_inv s"
  let ?ts = "map (\<lambda>t. if tool_status t = tool_status.Started
              then t\<lparr>tool_status := tool_status.Interrupted,
                     tool_result := ''run settled without a durable tool result''\<rparr> else t) (run_tools r)"
  have "valid_run r" using inv Some by (auto simp: action_inv_def valid_state_parts)
  then have "valid_run (r\<lparr>run_status := run_status.Settled, run_outcome := ''settled'', run_tools := ?ts\<rparr>)"
    using mark_result_counts(3) by (auto simp: valid_run_def valid_tool_def)
  from keeps_run [OF inv this] inv show ?thesis by (simp add: settle_run_def Some keeps_def)
qed

lemma keeps_interrupted: "action_inv s \<Longrightarrow> keeps s (mark_interrupted s)"
  by (intro keeps_same_queue) (auto simp: action_inv_def mark_interrupted_valid, simp add: mark_interrupted_def)

lemma keeps_action:
  assumes "action_inv s" and "next_queue_id s \<noteq> - 1" and "apply_action params s = Inr t"
  shows "keeps s t"
proof -
  have forget: "forget_run s = Inr u \<Longrightarrow> keeps s u" for u
    using assms(1) by (auto simp: forget_run_def action_inv_def valid_state_parts intro!: keeps_same_queue split: if_splits)
  have reset: "keeps s (s\<lparr>ds_workflow := None\<rparr>)"
    using assms(1) by (intro keeps_same_queue) (auto simp: action_inv_def valid_state_parts)
  have pause: "pause_action params s = Inr u \<Longrightarrow> keeps s u" for u
    by (auto simp: pause_action_def workflow_mut_def result_iffs split: if_splits intro!: keeps_status_change assms(1))
  have resume: "resume_action s = Inr u \<Longrightarrow> keeps s u" for u
    by (auto simp: resume_action_def workflow_mut_def result_iffs split: if_splits intro!: keeps_status_change assms(1))
  have complete: "complete_action s = Inr u \<Longrightarrow> keeps s u" for u
    by (auto simp: complete_action_def workflow_mut_def result_iffs split: if_splits intro!: keeps_status_change assms(1))
  have fail: "fail_action params s = Inr u \<Longrightarrow> keeps s u" for u
    by (auto simp: fail_action_def workflow_mut_def result_iffs Let_def split: if_splits intro!: keeps_status_change assms(1))
  note cases = keeps_refl forget reset pause resume complete fail keeps_start_run keeps_settle keeps_recover_run
    keeps_start keeps_checkpoint keeps_enqueue keeps_claim keeps_finish keeps_cancel
  from assms show ?thesis
    unfolding apply_action_def Let_def by (auto split: if_split_asm intro: cases simp del: unwrap_or_simps)
qed

section \<open>Events keep the state valid\<close>

definition digest_length :: "(string \<Rightarrow> string) \<Rightarrow> bool" where
  "digest_length sha \<longleftrightarrow> (\<forall>v. length (sha v) = 64)"

lemma summary_count: "char_count (summary v) \<le> 1001"
  using char_count_append_le [of "take_chars 1000 v" ellipsis]
  by (auto simp: summary_def MAX_SUMMARY_CHARS_def)

lemma tool_call_id_count:
  assumes "digest_length sha"
  shows "char_count (tool_call_id_of sha v) \<le> 1000"
proof (cases "char_count v \<le> 1000")
  case True
  then show ?thesis by (simp add: tool_call_id_of_def MAX_SUMMARY_CHARS_def)
next
  case False
  let ?suffix = "ellipsis @ sha v"
  have "char_count ?suffix \<le> 65"
    using char_count_append_le [of ellipsis "sha v"] char_count_le_length [of "sha v"] assms
    by (simp add: digest_length_def)
  moreover have "char_count (take_chars (1000 - char_count ?suffix) v @ ?suffix) \<le>
      char_count (take_chars (1000 - char_count ?suffix) v) + char_count ?suffix"
    by (rule char_count_append_le)
  ultimately show ?thesis using False by (simp add: tool_call_id_of_def MAX_SUMMARY_CHARS_def Let_def)
qed

lemma tool_call_key_count:
  assumes "digest_length sha"
  shows "char_count (tool_call_key_of sha v) \<le> 1005" and "tool_call_key_of sha v \<noteq> []"
proof -
  have "char_count ''raw:'' \<le> 4" "char_count ''hash:'' \<le> 5"
    using char_count_le_length [of "''raw:''"] char_count_le_length [of "''hash:''"] by simp_all
  then show "char_count (tool_call_key_of sha v) \<le> 1005"
    using char_count_append_le [of "''raw:''" v] tool_call_id_count [OF assms, of v]
      char_count_append_le [of "''hash:''" "tool_call_id_of sha v"]
    by (auto simp: tool_call_key_of_def MAX_SUMMARY_CHARS_def)
qed (simp add: tool_call_key_of_def)

lemma new_tool_valid:
  assumes "digest_length sha" and "char_count p \<le> 1001" and "char_count r \<le> 1001"
  shows "valid_tool \<lparr>tool_call_id = tool_call_id_of sha v, tool_call_key = Some (tool_call_key_of sha v),
    tool_name = summary name, tool_params = p, tool_status = st, tool_result = r\<rparr>"
  using assms tool_call_id_count [OF assms(1), of v] tool_call_key_count [OF assms(1), of v] summary_count [of name]
  by (simp add: valid_tool_def)

lemma valid_bound_tools:
  assumes "valid_run r" and "valid_tool t"
  shows "valid_run (r\<lparr>run_tools := bound_tools (run_tools r @ [t])\<rparr>)"
  using assms by (auto simp: valid_run_def bound_tools_def MAX_JOURNAL_ENTRIES_def dest: in_set_dropD)

lemma keeps_tool_start:
  assumes "digest_length sha" and "action_inv s"
  shows "keeps s (record_tool_start sha call_id name params s)"
proof (cases "ds_run s")
  case None
  then show ?thesis using assms(2) by (simp add: record_tool_start_def keeps_refl)
next
  case (Some run)
  then have "valid_run run" using assms(2) by (auto simp: action_inv_def valid_state_parts)
  from keeps_run [OF assms(2) valid_bound_tools [OF this new_tool_valid [OF assms(1)]]] summary_count
  show ?thesis using assms(2) by (simp add: record_tool_start_def Some Let_def keeps_refl)
qed

lemma keeps_tool_end:
  assumes "digest_length sha" and "action_inv s"
  shows "keeps s (record_tool_end sha call_id name result is_error s)"
proof (cases "ds_run s")
  case None
  then show ?thesis using assms(2) by (simp add: record_tool_end_def keeps_refl)
next
  case (Some run)
  then have v: "valid_run run" using assms(2) by (auto simp: action_inv_def valid_state_parts)
  have upd: "valid_run (run\<lparr>run_tools := (run_tools run)[i := (run_tools run ! i)\<lparr>tool_status := st, tool_result := summary result\<rparr>]\<rparr>)"
    if "i < length (run_tools run)" for i st
  proof -
    from that v have "valid_tool (run_tools run ! i)" by (simp add: valid_run_def)
    then have "valid_tool ((run_tools run ! i)\<lparr>tool_status := st, tool_result := summary result\<rparr>)"
      using summary_count [of result] by (simp add: valid_tool_def)
    then show ?thesis using v by (auto simp: valid_run_def dest!: set_update_subset_insert [THEN subsetD])
  qed
  let ?m = "filter (\<lambda>i. tool_matches (run_tools run ! i) call_id (tool_call_id_of sha call_id) (tool_call_key_of sha call_id))
      [0..<length (run_tools run)]"
  have hd: "hd ?m < length (run_tools run)" if "length ?m = 1"
  proof -
    from that have "hd ?m \<in> set ?m" by (cases ?m) auto
    then show ?thesis by simp
  qed
  have app: "keeps s (s\<lparr>ds_run := Some (run\<lparr>run_tools := bound_tools (run_tools run @
          [\<lparr>tool_call_id = tool_call_id_of sha call_id, tool_call_key = Some (tool_call_key_of sha call_id),
            tool_name = summary name, tool_params = [], tool_status = tool_status.Unknown,
            tool_result = summary result\<rparr>])\<rparr>)\<rparr>)"
    by (rule keeps_run [OF assms(2) valid_bound_tools [OF v new_tool_valid [OF assms(1)]]]) (simp_all add: summary_count)
  show ?thesis
    using app keeps_run [OF assms(2) upd] hd keeps_refl [OF assms(2)]
    unfolding record_tool_end_def Some option.case Let_def by (simp only: split: if_split) blast
qed

lemma keeps_mutation:
  assumes "digest_length sha" and "action_inv s" and "mutation_of sha ev = Some f"
  shows "keeps s (f s)"
proof -
  define u where "u = (if ds_run s = None then start_run s else s)"
  have start: "keeps s u" using assms(2) by (simp add: u_def keeps_start_run keeps_refl)
  have tool_start: "keeps s (on_tool_start sha c s)" for c
  proof -
    obtain call_id name params where "c = (call_id, name, params)" by (rule prod_cases3)
    then have "on_tool_start sha c s =
      (if (case ds_run u of None \<Rightarrow> False | Some r \<Rightarrow> run_status r = run_status.Running)
       then record_tool_start sha call_id name params u else u)"
      by (simp only: on_tool_start_def Let_def prod.case u_def)
    then show ?thesis
      using start keeps_trans [OF start keeps_tool_start [OF assms(1) keeps_inv [OF start]]]
      by (simp only: split: if_split) blast
  qed
  have tool_end: "keeps s (on_tool_end sha r s)" for r
  proof -
    obtain call_id name result is_error where "r = (call_id, name, result, is_error)" by (rule prod_cases4)
    then have "on_tool_end sha r s = record_tool_end sha call_id name result is_error u"
      by (simp only: on_tool_end_def Let_def prod.case u_def)
    then show ?thesis
      using keeps_trans [OF start keeps_tool_end [OF assms(1) keeps_inv [OF start]]] by simp
  qed
  show ?thesis
    using assms(2,3) tool_start tool_end
    by (auto simp: mutation_of_def keeps_start_run keeps_settle keeps_interrupted split: event.splits option.splits)
qed


text \<open>
  C11. No event breaks them either: starting, settling or interrupting a run and recording the start
  or the end of a tool call keep the state valid, whatever identity, name, parameters or result the
  host reports, and leave the queue ids in place (a digest has 64 characters).
\<close>

theorem event_mutations_safe:
  assumes "digest_length sha" and "action_inv s" and "mutation_of sha ev = Some f"
  shows "action_inv (f s) \<and> keeps_ids (ds_queue s) (ds_queue (f s)) \<and>
    foldR apply_change (journal_changes s (f s)) s = Inr ((f s)\<lparr>revision := revision s\<rparr>)"
  using keeps_mutation [OF assms] assms(2) journal_changes_replay [of s "f s"] keeps_ids_compatible
  by (auto simp: keeps_def action_inv_def)

section \<open>A session\<close>

text \<open>
  A session starts with a restored store. It proceeds by commits of what an action or an event makes of
  the state. A host that acknowledges the append has stored the entry it was sent; a refused commit
  stores nothing, or nothing that the store will build on.
\<close>

definition is_change :: "(string \<Rightarrow> string) \<Rightarrow> durable_state \<Rightarrow> durable_state \<Rightarrow> bool" where
  "is_change sha s t \<longleftrightarrow>
     (\<exists>params. apply_action params s = Inr t \<and> next_queue_id s \<noteq> - 1) \<or>
     (\<exists>ev f. mutation_of sha ev = Some f \<and> t = f s)"

inductive session :: "(string \<Rightarrow> string) \<Rightarrow> writer_env \<Rightarrow> serde \<Rightarrow> store \<Rightarrow> json list \<Rightarrow> bool"
  for sha env sd where
  restored: "decode_branch (w_dec env) es = Inr (s, m) \<Longrightarrow> fresh_queue s \<Longrightarrow>
    session sha env sd \<lparr>st_state = s, st_meta = m, st_initialized = True, st_restore_error = None\<rparr> es"
| unchanged: "session sha env sd st es \<Longrightarrow> commit_state env h (st_state st) (st_state st) st = (st', Inr t) \<Longrightarrow>
    session sha env sd st' es"
| committed: "session sha env sd st es \<Longrightarrow> is_change sha (st_state st) next \<Longrightarrow> next \<noteq> st_state st \<Longrightarrow>
    commit_state env h (st_state st) next st = (st', Inr t) \<Longrightarrow>
    append_entry h payload = Inr eid \<Longrightarrow> \<forall>p i. append_entry h p = Inr i \<longrightarrow> p = payload \<Longrightarrow>
    \<forall>r\<in>{journal_snapshot (st_state st) t (st_meta st), journal_delta (st_state st) t (st_meta st)}. encodes sd env r \<Longrightarrow>
    session sha env sd st' (es @ [native_entry eid payload])"
| refused: "session sha env sd st es \<Longrightarrow> commit_state env h cur next st = (st', Inl e) \<Longrightarrow>
    session sha env sd st' es"
| lost: "session sha env sd st es \<Longrightarrow> commit_state env h cur next st = (st', Inl e) \<Longrightarrow>
    st_restore_error st' = Some e \<Longrightarrow> session sha env sd st' (es @ [entry])"

lemma stamp_fresh [simp]: "fresh_queue (stamp n s) = fresh_queue s"
  by (simp add: fresh_queue_def) (simp add: stamp_def)

lemma is_change_keeps: "digest_length sha \<Longrightarrow> action_inv s \<Longrightarrow> is_change sha s t \<Longrightarrow> keeps s t"
  unfolding is_change_def using keeps_action keeps_mutation by blast

lemma commit_state_unchanged:
  assumes "commit_state env h (st_state st) (st_state st) st = (st', Inr t)"
  shows "st' = st"
proof -
  from assms obtain m where "commit_candidate env (append_entry h) (st_state st) (st_meta st) (st_state st) = Inr (t, m)"
    "st' = st\<lparr>st_state := t, st_meta := m\<rparr>" by (rule commit_state_Inr)
  then show ?thesis by (simp add: commit_candidate_def)
qed

lemma session_sync:
  assumes "session sha env sd st es" and "decoders_agree sd (w_dec env)" and "digest_length sha"
  shows "st_restore_error st = None \<longrightarrow> in_sync sd es st \<and> st_initialized st \<and> action_inv (st_state st)"
  using assms(1)
proof induction
  case (restored es s m)
  from decode_branch_sync [OF assms(2) this(1)] this(2) show ?case by (auto simp: in_sync_def action_inv_def)
next
  case (unchanged st es h st' t)
  from commit_state_unchanged [OF this(2)] unchanged show ?case by simp
next
  case (committed st es "next" h st' t payload eid)
  from committed(4) have err: "st_restore_error st = None" by (rule commit_state_Inr)
  with committed have sync: "in_sync sd es st" "st_initialized st" "action_inv (st_state st)" by simp_all
  have keep: "keeps (st_state st) next" using assms(3) sync(3) committed(2) by (rule is_change_keeps)
  then have v: "valid_state next" "queue_compatible (ds_queue (st_state st)) (ds_queue next)" "fresh_queue next"
    using keeps_ids_compatible by (auto simp: keeps_def action_inv_def)
  from commit_extends_replay_sync [OF committed(7) sync(1,2) v(1,2) committed(3,4)] obtain eid' r where
    r: "append_entry h (entry_payload env r) = Inr eid'"
      "in_sync sd (es @ [native_entry eid' (entry_payload env r)]) st'" "st_state st' = t"
    by (auto simp: Let_def)
  with committed(5,6) have "in_sync sd (es @ [native_entry eid payload]) st'" by fastforce
  moreover from committed(4) obtain m where
    "commit_candidate env (append_entry h) (st_state st) (st_meta st) next = Inr (t, m)"
    "st' = st\<lparr>st_state := t, st_meta := m\<rparr>" by (rule commit_state_Inr)
  moreover from this(1) committed(3) obtain n where "t = stamp n next" by (rule commit_candidate_cases)
  ultimately show ?case using sync v by (simp add: action_inv_def)
next
  case (refused st es h cur "next" st' e)
  from commit_state_Inl [OF this(2)] refused show ?case by auto
qed simp


section \<open>Tool results are final\<close>

text \<open>
  A tool call's outcome is final: recording the end of a call never changes an entry that already
  has an outcome. Either the list of entries is unchanged, or one started entry, the only one that
  matches the call, receives its outcome, or an entry of unknown status is appended behind the others.
\<close>

theorem tool_outcome_final:
  assumes "ds_run s = Some run"
  shows "\<exists>run'. ds_run (record_tool_end sha call_id name result is_error s) = Some run' \<and>
    (run_tools run' = run_tools run \<or>
     (\<exists>i<length (run_tools run). \<not> terminal_tool (run_tools run ! i) \<and>
        tool_matches (run_tools run ! i) call_id (tool_call_id_of sha call_id) (tool_call_key_of sha call_id) \<and>
        (\<forall>j<length (run_tools run). j \<noteq> i \<longrightarrow>
           run_tools run' ! j = run_tools run ! j \<and>
           \<not> tool_matches (run_tools run ! j) call_id (tool_call_id_of sha call_id) (tool_call_key_of sha call_id)) \<and>
        tool_status (run_tools run' ! i) = (if is_error then tool_status.Failed else tool_status.Completed)) \<or>
     (\<exists>t. tool_status t = tool_status.Unknown \<and> run_tools run' = bound_tools (run_tools run @ [t])))"
proof -
  let ?hit = "\<lambda>i. tool_matches (run_tools run ! i) call_id (tool_call_id_of sha call_id) (tool_call_key_of sha call_id)"
  let ?m = "filter ?hit [0..<length (run_tools run)]"
  show ?thesis
  proof (cases "length ?m = 1")
    case False
    define t where "t = \<lparr>tool_call_id = tool_call_id_of sha call_id, tool_call_key = Some (tool_call_key_of sha call_id),
            tool_name = summary name, tool_params = [], tool_status = tool_status.Unknown,
            tool_result = summary result\<rparr>"
    have "ds_run (record_tool_end sha call_id name result is_error s) =
        Some (run\<lparr>run_tools := bound_tools (run_tools run @ [t])\<rparr>)"
      using False assms unfolding record_tool_end_def t_def by (simp add: Let_def)
    moreover have "tool_status t = tool_status.Unknown" by (simp add: t_def)
    ultimately show ?thesis
      by (intro exI [of _ "run\<lparr>run_tools := bound_tools (run_tools run @ [t])\<rparr>"] conjI disjI2 exI [of _ t]) simp_all
  next
    case True
    then obtain i where i: "?m = [i]" by (auto simp: length_Suc_conv)
    then have hit: "i < length (run_tools run)" "?hit i" using filter_set [of ?hit "[0..<length (run_tools run)]"] by auto
    have only: "\<not> ?hit j" if "j < length (run_tools run)" "j \<noteq> i" for j
    proof
      assume "?hit j"
      with that(1) have "j \<in> set ?m" by simp
      with i that(2) show False by simp
    qed
    show ?thesis
    proof (cases "terminal_tool (run_tools run ! i)")
      case True
      with i assms show ?thesis by (simp add: record_tool_end_def Let_def)
    next
      case False
      define t where "t = (run_tools run ! i)\<lparr>tool_status := (if is_error then tool_status.Failed else tool_status.Completed),
          tool_result := summary result\<rparr>"
      have "ds_run (record_tool_end sha call_id name result is_error s) =
          Some (run\<lparr>run_tools := (run_tools run)[i := t]\<rparr>)"
        using False i assms unfolding record_tool_end_def t_def by (simp add: Let_def)
      moreover have "tool_status t = (if is_error then tool_status.Failed else tool_status.Completed)"
        by (simp add: t_def)
      ultimately show ?thesis
        using False hit only
        by (intro exI [of _ "run\<lparr>run_tools := (run_tools run)[i := t]\<rparr>"] conjI disjI2 disjI1 exI [of _ i]) simp_all
    qed
  qed
qed

section \<open>The concrete session\<close>

definition ex_digest :: "string \<Rightarrow> string" where
  "ex_digest v = replicate 64 (CHR ''0'')"

definition ex_payload :: json where
  "ex_payload = entry_payload ex_env (journal_delta ex_state ex_after ex_meta)"

definition ex_once :: host where
  "ex_once = ex_host\<lparr>h_append := (\<lambda>p. if p = ex_payload then Inr (JObj [(''entryId'', JStr ''e2'')])
     else Inl ''refused'')\<rparr>"

definition ex_store :: store where
  "ex_store = \<lparr>st_state = ex_state, st_meta = ex_meta, st_initialized = True, st_restore_error = None\<rparr>"

definition ex_next_store :: store where
  "ex_next_store = ex_store\<lparr>st_state := ex_after, st_meta := \<lparr>anchor_entry_id = Some ''e2'',
     commits_since_snapshot = 1, force_snapshot = False\<rparr>\<rparr>"

lemma ex_digest_length: "digest_length ex_digest"
  by (simp add: digest_length_def ex_digest_def)

lemma ex_fresh: "fresh_queue ex_state" and ex_inv: "action_inv ex_state"
  using ex_valid by (simp_all add: action_inv_def fresh_queue_def ex_state_def default_state_def)

lemma ex_once_append: "append_entry ex_once p = (if p = ex_payload then Inr ''e2'' else Inl ''refused'')"
  by (simp add: append_entry_def ex_once_def append_entry_identity_def map_err_def starts_with_def)

lemma ex_commit_once: "commit_state ex_env ex_once ex_state (mark_interrupted ex_state) ex_store = (ex_next_store, Inr ex_after)"
proof -
  have add: "checked_add (revision ex_state) 1 = Some 2" by (simp add: ex_state_def checked_add_def)
  have sizes: "w_size ex_env (journal_delta ex_state ex_after ex_meta) = Inr 100"
    "w_size ex_env (journal_snapshot ex_state ex_after ex_meta) = Inr 200"
    by (simp_all add: ex_env_def journal_delta_def journal_snapshot_def)
  have "commit_candidate ex_env (append_entry ex_once) ex_state ex_meta (mark_interrupted ex_state) =
      Inr (ex_after, \<lparr>anchor_entry_id = Some ''e2'', commits_since_snapshot = 1, force_snapshot = False\<rparr>)"
    using ex_marks(2) ex_changes
    by (simp add: commit_candidate_def add ex_after_def [symmetric] Let_def sizes map_err_def ex_once_append)
       (simp add: ex_meta_def SNAPSHOT_INTERVAL_def word_le_nat_alt ex_payload_def)
  then show ?thesis by (simp add: commit_state_open ex_store_def ex_next_store_def)
qed

lemma ex_session: "session ex_digest ex_env ex_serde ex_next_store (ex_branch @ [native_entry ''e2'' ex_payload])"
proof -
  have "session ex_digest ex_env ex_serde ex_store ex_branch"
    using ex_decode ex_fresh restored [of ex_env ex_branch ex_state ex_meta]
    by (simp add: ex_store_def ex_env_def)
  moreover have "is_change ex_digest (st_state ex_store) (mark_interrupted ex_state)"
    unfolding is_change_def ex_store_def
    by (rule disjI2, rule exI [of _ SessionShutdown]) (simp add: mutation_of_def)
  ultimately show ?thesis
    by (rule committed [where t = ex_after and h = ex_once])
      (use ex_marks ex_encodes ex_commit_once in \<open>simp_all add: ex_store_def ex_once_append\<close>)
qed


definition ex_enqueue :: json where
  "ex_enqueue = JObj [(''action'', JStr ''enqueue''), (''text'', JStr '' write docs '')]"

definition ex_queued :: durable_state where
  "ex_queued = ex_state\<lparr>next_queue_id := 1, ds_queue := [\<lparr>q_id = ''item-1'', q_text = ''write docs'',
     q_status = queue_status.Queued, q_created_revision = 2, q_updated_revision = 2, q_note = []\<rparr>]\<rparr>"

lemma ex_enqueue_result: "apply_action ex_enqueue ex_state = Inr ex_queued"
proof -
  have "text_param (Some (JStr '' write docs '')) ''text'' 4000 = Inr ''write docs''" by code_simp
  moreover have "show_nat 1 = ''1''" by code_simp
  ultimately show ?thesis
    by (simp add: apply_action_def ex_enqueue_def enqueue_item_def MAX_QUEUE_ITEMS_def MAX_QUEUE_TEXT_CHARS_def
        ex_queued_def ex_state_def default_state_def sat_add_def)
qed


theorem event_mutations_safe_witness:
  "action_inv (on_tool_end ex_digest (''call-1'', ''bash'', ''done'', False) ex_state)"
  using event_mutations_safe [OF ex_digest_length ex_inv, of "ToolResult (Some (''call-1'', ''bash'', ''done'', False))"]
  by (simp add: mutation_of_def)

theorem tool_outcome_final_witness:
  "\<exists>run'. ds_run (record_tool_end ex_digest ''call-1'' ''bash'' ''done'' False ex_state) = Some run'"
  using tool_outcome_final [of ex_state ex_run ex_digest "''call-1''" "''bash''" "''done''" False]
  by (auto simp: ex_state_def)

end
