(* ===== verification/Durable_Projection.thy ===== *)
theory Durable_Projection
  imports Durable_Session
begin

text \<open>
  The host's side of the durable state, \<open>packages/rpi-extcore/src/durable.rs\<close>: the commands it sends to
  the extension for a mutation, the projection it publishes, and the bounded history subscribers
  replay from.
\<close>

section \<open>Mutations\<close>

datatype durable_mutation =
    StartRun
  | SettleRun
  | RecoverRun
  | Enqueue string
  | Claim string
  | Finish string queue_status string
  | Cancel string string

definition mutation_command :: "durable_mutation \<Rightarrow> json" where
  "mutation_command m = (case m of
     StartRun \<Rightarrow> JObj [(''action'', JStr ''start_run'')]
   | SettleRun \<Rightarrow> JObj [(''action'', JStr ''settle_run'')]
   | RecoverRun \<Rightarrow> JObj [(''action'', JStr ''recover_run'')]
   | Enqueue body \<Rightarrow> JObj [(''action'', JStr ''enqueue''), (''text'', JStr body)]
   | Claim i \<Rightarrow> JObj [(''action'', JStr ''claim''), (''id'', JStr i)]
   | Finish i status remark \<Rightarrow> JObj [(''action'', JStr ''finish''), (''id'', JStr i),
        (''status'', JStr (queue_status_str status)), (''note'', JStr remark)]
   | Cancel i remark \<Rightarrow> JObj [(''action'', JStr ''cancel''), (''id'', JStr i), (''note'', JStr remark)])"

text \<open>The value the command must give for a queue mutation to reach its item.\<close>

lemma item_required:
  "jget ''item'' params = None \<Longrightarrow> queue_item_id params = Inl ''item is required''"
  by (simp add: queue_item_id_def text_param_def)

text \<open>
  The host's queue mutations do not reach the extension's queue: the command for a claim, a finish
  or a cancel names the item in a field the extension does not read, so the extension rejects each of
  them in every state with the same message, while starting, settling and recovering a run are
  understood.
\<close>

theorem queue_mutations_rejected:
  "apply_action (mutation_command (Claim i)) s = Inl ''item is required'' \<and>
   apply_action (mutation_command (Finish i status remark)) s = Inl ''item is required'' \<and>
   apply_action (mutation_command (Cancel i remark)) s = Inl ''item is required'' \<and>
   apply_action (mutation_command StartRun) s = Inr (start_run s) \<and>
   apply_action (mutation_command SettleRun) s = Inr (settle_run s) \<and>
   apply_action (mutation_command RecoverRun) s = recover_run s"
  by (simp add: apply_action_def mutation_command_def claim_item_def finish_item_def cancel_item_def item_required)

section \<open>The published history\<close>

definition MAX_CHANGE_ENTRIES :: nat where "MAX_CHANGE_ENTRIES = 128"

record durable_change =
  ch_revision :: u64
  ch_state :: durable_state

record subscription =
  sub_ready :: durable_state
  sub_replay :: "durable_change list"
  sub_gap :: bool
  sub_after :: "u64 option"

record projection =
  pj_state :: durable_state
  pj_history :: "durable_change list"

definition trim_history :: "durable_change list \<Rightarrow> durable_change list" where
  "trim_history h = drop (length h - MAX_CHANGE_ENTRIES) h"

definition publish :: "durable_state \<Rightarrow> projection \<Rightarrow> projection" where
  "publish s p =
     (if revision s = 0 then p
      else p\<lparr>pj_history := trim_history (pj_history p @ [\<lparr>ch_revision = revision s, ch_state = s\<rparr>])\<rparr>)"

text \<open>A refresh replays the branch the session returns; the flag says whether the projection changed.\<close>

definition refresh_branch :: "serde \<Rightarrow> json list res \<Rightarrow> projection \<Rightarrow> projection \<times> bool res" where
  "refresh_branch sd branch p =
     (case bindR branch (try_from_branch sd) of
        Inl e \<Rightarrow> (p, Inl e)
      | Inr next \<Rightarrow>
          if pj_state p = next then (p, Inr False)
          else (publish next (p\<lparr>pj_state := next\<rparr>), Inr True))"

definition subscribe_changes :: "u64 option \<Rightarrow> projection \<Rightarrow> subscription" where
  "subscribe_changes after p =
     (let replay = filter (\<lambda>c. case after of None \<Rightarrow> True | Some cursor \<Rightarrow> ch_revision c > cursor) (pj_history p);
          latest = revision (pj_state p);
          first = (case pj_history p of [] \<Rightarrow> None | c # _ \<Rightarrow> Some (ch_revision c));
          gap = (case after of None \<Rightarrow> False | Some cursor \<Rightarrow>
                   cursor < latest \<and> (case first of None \<Rightarrow> True | Some f \<Rightarrow> sat_add cursor 1 < f))
      in \<lparr>sub_ready = pj_state p, sub_replay = replay, sub_gap = gap, sub_after = after\<rparr>)"

text \<open>What a stream delivers of what it receives: the changes above its cursor, which advances.\<close>

fun live_changes :: "u64 \<Rightarrow> durable_change list \<Rightarrow> durable_change list" where
  "live_changes cursor [] = []"
| "live_changes cursor (c # cs) =
     (if ch_revision c \<le> cursor then live_changes cursor cs else c # live_changes (ch_revision c) cs)"

definition replay_changes :: "durable_change list \<Rightarrow> durable_change list \<Rightarrow> u64 option \<Rightarrow> durable_change list" where
  "replay_changes replay received after =
     (let cursor = max (case rev replay of [] \<Rightarrow> 0 | c # _ \<Rightarrow> ch_revision c) (unwrap_or 0 after)
      in replay @ live_changes cursor received)"

definition published :: "durable_state list \<Rightarrow> durable_change list" where
  "published ss = map (\<lambda>s. \<lparr>ch_revision = revision s, ch_state = s\<rparr>) (filter (\<lambda>s. revision s \<noteq> 0) ss)"

lemma trim_history_append: "trim_history (trim_history h @ [c]) = trim_history (h @ [c])"
  by (cases "length h \<le> MAX_CHANGE_ENTRIES") (auto simp: trim_history_def Suc_diff_le)

lemma publish_all:
  "pj_history (fold publish ss p) =
     (if published ss = [] then pj_history p else trim_history (pj_history p @ published ss))"
proof (induction ss arbitrary: p rule: rev_induct)
  case (snoc s ss)
  then show ?case
    by (auto simp: publish_def published_def trim_history_append)
qed (simp add: published_def)

lemma live_changes_sorted:
  "sorted_wrt (<) (map ch_revision (live_changes cursor cs)) \<and> (\<forall>c\<in>set (live_changes cursor cs). cursor < ch_revision c)"
  by (induction cursor cs rule: live_changes.induct) (auto simp: not_le dest: order.strict_trans)

text \<open>
  The history a subscriber replays from is bounded and exact: after any sequence of published
  states it holds the last 128 changes of those at a positive revision, in order, and a stream that
  replays changes in increasing revisions delivers every later change once, in increasing revisions.
\<close>

theorem history_and_stream:
  "pj_history (fold publish ss \<lparr>pj_state = s0, pj_history = []\<rparr>) =
     drop (length (published ss) - 128) (published ss) \<and>
   (sorted_wrt (<) (map ch_revision replay) \<and> (\<forall>a. after = Some a \<longrightarrow> (\<forall>c\<in>set replay. a < ch_revision c)) \<longrightarrow>
      sorted_wrt (<) (map ch_revision (replay_changes replay received after)))"
proof (intro conjI impI)
  show "pj_history (fold publish ss \<lparr>pj_state = s0, pj_history = []\<rparr>) =
     drop (length (published ss) - 128) (published ss)"
    by (simp add: publish_all trim_history_def MAX_CHANGE_ENTRIES_def)
next
  assume r: "sorted_wrt (<) (map ch_revision replay) \<and> (\<forall>a. after = Some a \<longrightarrow> (\<forall>c\<in>set replay. a < ch_revision c))"
  define cursor where "cursor = max (case rev replay of [] \<Rightarrow> 0 | c # _ \<Rightarrow> ch_revision c) (unwrap_or 0 after)"
  have "ch_revision c \<le> cursor" if "c \<in> set replay" for c
  proof (cases replay rule: rev_cases)
    case (snoc cs d)
    with r that have "ch_revision c \<le> ch_revision d" by (auto simp: sorted_wrt_append)
    with snoc show ?thesis by (simp add: cursor_def le_max_iff_disj)
  qed (use that in simp)
  with r live_changes_sorted [of cursor received] show
    "sorted_wrt (<) (map ch_revision (replay_changes replay received after))"
    unfolding replay_changes_def Let_def cursor_def [symmetric]
    by (fastforce simp: sorted_wrt_append intro: order.strict_trans1)
qed

theorem history_and_stream_witness:
  "sorted_wrt (<) (map ch_revision (replay_changes [\<lparr>ch_revision = 3, ch_state = default_state\<rparr>]
     [\<lparr>ch_revision = 2, ch_state = default_state\<rparr>, \<lparr>ch_revision = 5, ch_state = default_state\<rparr>] (Some 1)))"
  using history_and_stream [of "[]" default_state "[\<lparr>ch_revision = 3, ch_state = default_state\<rparr>]" "Some 1"]
  by simp

end
