(* ===== verification/Orchestrator_Graph.thy ===== *)
theory Orchestrator_Graph
  imports Json Keyed_List
begin

text \<open>
  The task graph of \<open>packages/rpi-orchestrator/src/graph.rs\<close>: nodes read from JSON, the validation of
  their dependencies with Kahn's algorithm, the ready set, and the propagation of skips. An indegree
  that would be decremented below zero is a panic of the source; the algorithm returns \<open>None\<close> there,
  and the theorems show that it does not happen.
\<close>

section \<open>Nodes\<close>

definition DEFAULT_MAX_TURNS :: u64 where "DEFAULT_MAX_TURNS = 8"
definition MAX_MAX_TURNS :: u64 where "MAX_MAX_TURNS = 32"
definition DEFAULT_TIMEOUT_SECS :: u64 where "DEFAULT_TIMEOUT_SECS = 300"
definition MIN_TIMEOUT_SECS :: u64 where "MIN_TIMEOUT_SECS = 10"
definition MAX_TIMEOUT_SECS :: u64 where "MAX_TIMEOUT_SECS = 1800"
definition MAX_TASK_BYTES :: nat where "MAX_TASK_BYTES = 20000"

datatype node_status = Pending | Running | Done | Failed | Skipped

definition node_status_str :: "node_status \<Rightarrow> string" where
  "node_status_str s = (case s of Pending \<Rightarrow> ''pending'' | Running \<Rightarrow> ''running'' | Done \<Rightarrow> ''done''
     | Failed \<Rightarrow> ''failed'' | Skipped \<Rightarrow> ''skipped'')"

record node =
  n_id :: string
  n_task :: string
  n_deps :: "string list"
  n_role :: "string option"
  n_provider :: "string option"
  n_model :: "string option"
  n_expect_file :: "string option"
  n_verify :: "string option"
  n_max_turns :: u64
  n_timeout_secs :: u64
  n_status :: node_status
  n_result :: "string option"

type_synonym graph = "node list"

definition nonempty_trimmed :: "json option \<Rightarrow> string option" where
  "nonempty_trimmed v = filter_opt (\<lambda>s. s \<noteq> []) (map_option trim (Option.bind v as_str))"

definition string_field :: "json \<Rightarrow> string \<Rightarrow> string option" where
  "string_field value key = nonempty_trimmed (jget key value)"

definition clamp :: "u64 option \<Rightarrow> u64 \<Rightarrow> u64 \<Rightarrow> u64 \<Rightarrow> u64" where
  "clamp value dflt lo hi =
     (let v = unwrap_or dflt value in if v < lo then lo else if v > hi then hi else v)"

definition parse_string_list :: "json option \<Rightarrow> string \<Rightarrow> string list res" where
  "parse_string_list value what = (case value of None \<Rightarrow> Inr [] | Some v \<Rightarrow>
     bindR (ok_or (what @ '' must be an array of strings'') (as_array v)) (\<lambda>items.
     mapR (\<lambda>item. ok_or (what @ '' must contain non-empty strings'') (nonempty_trimmed (Some item))) items))"

text \<open>Duplicates are dropped, the first occurrence stays.\<close>

fun dedup :: "string list \<Rightarrow> string list \<Rightarrow> string list" where
  "dedup seen [] = []"
| "dedup seen (d # ds) = (if d \<in> set seen then dedup seen ds else d # dedup (seen @ [d]) ds)"

definition node_from_value :: "json \<Rightarrow> node res" where
  "node_from_value value =
     bindR (ok_or ''every node needs a non-empty `id`'' (nonempty_trimmed (jget ''id'' value))) (\<lambda>i.
     bindR (ok_or (''node `'' @ i @ ''` needs a non-empty `task`'') (nonempty_trimmed (jget ''task'' value))) (\<lambda>task.
     if length task > MAX_TASK_BYTES
     then Inl (''node `'' @ i @ ''` task exceeds '' @ show_nat MAX_TASK_BYTES @ '' bytes'')
     else bindR (parse_string_list (jget ''deps'' value) (''node `'' @ i @ ''` deps'')) (\<lambda>deps.
     Inr \<lparr>n_id = i, n_task = task, n_deps = dedup [] deps,
          n_role = string_field value ''role'', n_provider = string_field value ''provider'',
          n_model = string_field value ''model'', n_expect_file = string_field value ''expectFile'',
          n_verify = string_field value ''verify'',
          n_max_turns = clamp (get_u64 ''maxTurns'' value) DEFAULT_MAX_TURNS 1 MAX_MAX_TURNS,
          n_timeout_secs = clamp (get_u64 ''timeoutSeconds'' value) DEFAULT_TIMEOUT_SECS MIN_TIMEOUT_SECS MAX_TIMEOUT_SECS,
          n_status = Pending, n_result = None\<rparr>)))"

definition node_to_value :: "node \<Rightarrow> json" where
  "node_to_value n = JObj
     [(''id'', JStr (n_id n)), (''task'', JStr (n_task n)), (''deps'', JArr (map JStr (n_deps n))),
      (''role'', jopt (n_role n)), (''provider'', jopt (n_provider n)), (''model'', jopt (n_model n)),
      (''expectFile'', jopt (n_expect_file n)), (''verify'', jopt (n_verify n)),
      (''maxTurns'', JUint (n_max_turns n)), (''timeoutSeconds'', JUint (n_timeout_secs n)),
      (''status'', JStr (node_status_str (n_status n))), (''result'', jopt (n_result n))]"

definition is_done :: "node \<Rightarrow> bool" where
  "is_done n = (n_status n = Done)"

section \<open>Graphs\<close>

definition to_details :: "graph \<Rightarrow> json" where
  "to_details g = JObj [(''nodes'', JArr (map node_to_value g))]"

definition get_node :: "string \<Rightarrow> graph \<Rightarrow> node option" where
  "get_node i g = find (\<lambda>n. n_id n = i) g"

definition update_node :: "string \<Rightarrow> (node \<Rightarrow> node) \<Rightarrow> graph \<Rightarrow> graph" where
  "update_node i f g = modify_first (\<lambda>n. n_id n = i) f g"

definition has_pending :: "graph \<Rightarrow> bool" where
  "has_pending g = list_ex (\<lambda>n. n_status n = Pending) g"

definition ready :: "graph \<Rightarrow> string list" where
  "ready g = map n_id (filter (\<lambda>n. n_status n = Pending \<and>
     list_all (\<lambda>dep. case get_node dep g of None \<Rightarrow> False | Some m \<Rightarrow> is_done m) (n_deps n)) g)"

definition pending_ids :: "graph \<Rightarrow> string list" where
  "pending_ids g = map n_id (filter (\<lambda>n. n_status n = Pending) g)"

definition dead_ids :: "graph \<Rightarrow> string list" where
  "dead_ids g = map n_id (filter (\<lambda>n. n_status n = Failed \<or> n_status n = Skipped) g)"

definition skip_round :: "graph \<Rightarrow> graph" where
  "skip_round g = (let dead = dead_ids g in
     map (\<lambda>n. if n_status n = Pending \<and> list_ex (\<lambda>dep. dep \<in> set dead) (n_deps n)
               then n\<lparr>n_status := Skipped\<rparr> else n) g)"

definition pending_count :: "graph \<Rightarrow> nat" where
  "pending_count g = length (filter (\<lambda>n. n_status n = Pending) g)"

definition skip_if :: "(node \<Rightarrow> bool) \<Rightarrow> node \<Rightarrow> node" where
  "skip_if P n = (if n_status n = Pending \<and> P n then n\<lparr>n_status := Skipped\<rparr> else n)"

lemma skip_round_map: "skip_round g = map (skip_if (\<lambda>n. list_ex (\<lambda>dep. dep \<in> set (dead_ids g)) (n_deps n))) g"
  by (simp add: skip_round_def skip_if_def)

lemma skip_if_pending: "n_status (skip_if P n) = Pending \<Longrightarrow> skip_if P n = n"
  by (auto simp: skip_if_def split: if_splits)

lemma pending_count_map_le: "pending_count (map (skip_if P) xs) \<le> pending_count xs"
proof (induction xs)
  case (Cons x xs)
  then show ?case using skip_if_pending [of P x] by (auto simp: pending_count_def)
qed (simp add: pending_count_def)

lemma pending_count_map_less: "map (skip_if P) xs \<noteq> xs \<Longrightarrow> pending_count (map (skip_if P) xs) < pending_count xs"
proof (induction xs)
  case (Cons x xs)
  show ?case
  proof (cases "skip_if P x = x")
    case True
    with Cons have "pending_count (map (skip_if P) xs) < pending_count xs" by simp
    with True show ?thesis by (simp add: pending_count_def)
  next
    case False
    then have "n_status x = Pending" "n_status (skip_if P x) = Skipped" by (auto simp: skip_if_def split: if_splits)
    with pending_count_map_le [of P xs] show ?thesis by (simp add: pending_count_def)
  qed
qed simp

lemma skip_round_changes: "skip_round g \<noteq> g \<Longrightarrow> pending_count (skip_round g) < pending_count g"
  unfolding skip_round_map by (rule pending_count_map_less)

function propagate_skips :: "graph \<Rightarrow> graph" where
  "propagate_skips g = (let g' = skip_round g in if g' = g then g else propagate_skips g')"
  by pat_completeness auto
termination
  by (relation "measure pending_count") (auto simp: skip_round_changes)

declare propagate_skips.simps [simp del]

section \<open>Validation\<close>

fun first_duplicate :: "string list \<Rightarrow> graph \<Rightarrow> unit res" where
  "first_duplicate seen [] = Inr ()"
| "first_duplicate seen (n # ns) =
     (if n_id n \<in> set seen then Inl (''duplicate node id `'' @ n_id n @ ''`'')
      else first_duplicate (seen @ [n_id n]) ns)"

fun unknown_dep :: "string list \<Rightarrow> string \<Rightarrow> string list \<Rightarrow> unit res" where
  "unknown_dep seen i [] = Inr ()"
| "unknown_dep seen i (d # ds) =
     (if d \<notin> set seen then Inl (''node `'' @ i @ ''` depends on unknown `'' @ d @ ''`'')
      else unknown_dep seen i ds)"

fun unknown_deps :: "string list \<Rightarrow> graph \<Rightarrow> unit res" where
  "unknown_deps seen [] = Inr ()"
| "unknown_deps seen (n # ns) = bindR (unknown_dep seen (n_id n) (n_deps n)) (\<lambda>_. unknown_deps seen ns)"

text \<open>
  One visit of Kahn's algorithm: the degrees after removing the edges from \<open>i\<close>, and the indices that
  become free, in the order they are pushed.
\<close>

fun relax :: "string \<Rightarrow> nat \<Rightarrow> (node \<times> nat) list \<Rightarrow> (nat list \<times> nat list) option" where
  "relax i k [] = Some ([], [])"
| "relax i k ((n, d) # rest) =
     (if i \<in> set (n_deps n) then
        (if d = 0 then None
         else map_option (\<lambda>(ds, pushed). ((d - 1) # ds, if d - 1 = 0 then k # pushed else pushed)) (relax i (Suc k) rest))
      else map_option (\<lambda>(ds, pushed). (d # ds, pushed)) (relax i (Suc k) rest))"

lemma relax_measure:
  "relax i k xs = Some (ds, pushed) \<Longrightarrow> sum_list ds + length pushed \<le> sum_list (map snd xs)"
proof (induction i k xs arbitrary: ds pushed rule: relax.induct)
  case (2 i k n d rest)
  then show ?case by (fastforce split: if_splits)
qed simp

lemma sum_zip_le: "sum_list (map snd (zip xs (ds :: nat list))) \<le> sum_list ds"
proof (induction xs arbitrary: ds)
  case (Cons x xs)
  then show ?case by (cases ds) auto
qed simp

text \<open>The queue is a vector that is pushed to and popped from at its end; its last element comes first here.\<close>

function kahn :: "graph \<Rightarrow> nat list \<Rightarrow> nat list \<Rightarrow> nat \<Rightarrow> (nat \<times> nat list) option" where
  "kahn g indegree [] visited = Some (visited, indegree)"
| "kahn g indegree (index # queue) visited =
     (case relax (n_id (g ! index)) 0 (zip g indegree) of
        None \<Rightarrow> None
      | Some (indegree', pushed) \<Rightarrow> kahn g indegree' (rev pushed @ queue) (Suc visited))"
  by pat_completeness auto
termination
proof (relation "measure (\<lambda>(g, indegree, queue, visited). sum_list indegree + length queue)", goal_cases)
  case (2 g indegree index queue visited p ds pushed)
  then have "relax (n_id (g ! index)) 0 (zip g indegree) = Some (ds, pushed)" by simp
  from relax_measure [OF this] sum_zip_le [of g indegree] show ?case by simp
qed simp

definition check_acyclic :: "graph \<Rightarrow> unit res option" where
  "check_acyclic g =
     (let indegree = map (\<lambda>n. length (n_deps n)) g;
          queue = rev (filter (\<lambda>i. indegree ! i = 0) [0..<length g])
      in map_option (\<lambda>(visited, indegree).
           if visited = length g then Inr ()
           else Inl (''cycle detected among: '' @
             join '', '' (map (\<lambda>i. n_id (g ! i)) (filter (\<lambda>i. indegree ! i > 0) [0..<length g]))))
         (kahn g indegree queue 0))"

definition validate :: "graph \<Rightarrow> unit res option" where
  "validate g =
     (case bindR (first_duplicate [] g) (\<lambda>_. unknown_deps (map n_id g) g) of
        Inl e \<Rightarrow> Some (Inl e)
      | Inr _ \<Rightarrow> check_acyclic g)"

definition from_nodes_value :: "json \<Rightarrow> graph res option" where
  "from_nodes_value value =
     (case bindR (ok_or ''`nodes` must be an array'' (as_array value)) (\<lambda>items.
           if items = [] then Inl ''`nodes` must contain at least one node'' else mapR node_from_value items) of
        Inl e \<Rightarrow> Some (Inl e)
      | Inr g \<Rightarrow> map_option (\<lambda>r. bindR r (\<lambda>_. Inr g)) (validate g))"

definition render_node :: "node \<Rightarrow> string" where
  "render_node n =
     ''['' @ (case n_status n of Done \<Rightarrow> ''x'' | Failed \<Rightarrow> ''!'' | Skipped \<Rightarrow> ''-'' | Running \<Rightarrow> ''~'' | Pending \<Rightarrow> '' '') @
     ''] '' @ n_id n @ '' '' @ node_status_str (n_status n) @
     (if n_deps n = [] then [] else '' deps=['' @ join '','' (n_deps n) @ '']'')"

definition render_graph :: "graph \<Rightarrow> string" where
  "render_graph g =
     (if g = [] then ''plan is empty''
      else join [CHR 0x0A]
        ((show_nat (length (filter (\<lambda>n. n_status n = Done) g)) @ ''/'' @ show_nat (length g) @ '' done'')
         # map render_node g))"

interpretation nodes: keyed_list n_id "\<lambda>k xs. find (\<lambda>n. n_id n = k) xs"
    "\<lambda>k f xs. modify_first (\<lambda>n. n_id n = k) f xs"
  by unfold_locales auto

section \<open>Kahn's algorithm decides acyclicity\<close>

definition edges :: "graph \<Rightarrow> (string \<times> string) set" where
  "edges g = {(d, n_id n) | d n. n \<in> set g \<and> d \<in> set (n_deps n)}"

definition distinct_ids :: "graph \<Rightarrow> bool" where
  "distinct_ids g \<longleftrightarrow> distinct (map n_id g)"

definition known_deps :: "graph \<Rightarrow> bool" where
  "known_deps g \<longleftrightarrow> (\<forall>n\<in>set g. set (n_deps n) \<subseteq> n_id ` set g)"

definition single_deps :: "graph \<Rightarrow> bool" where
  "single_deps g \<longleftrightarrow> (\<forall>n\<in>set g. distinct (n_deps n))"

lemma finite_edges: "finite (edges g)"
proof -
  have "edges g \<subseteq> (\<Union>n\<in>set g. set (n_deps n) \<times> {n_id n})" by (auto simp: edges_def)
  then show ?thesis by (rule finite_subset) auto
qed

lemma relax_eq:
  "\<forall>x\<in>set xs. i \<in> set (n_deps (fst x)) \<longrightarrow> 0 < snd x \<Longrightarrow>
     relax i k xs = Some
       (map (\<lambda>(n, d). if i \<in> set (n_deps n) then d - 1 else d) xs,
        filter (\<lambda>j. i \<in> set (n_deps (fst (xs ! (j - k)))) \<and> snd (xs ! (j - k)) = 1) [k..<k + length xs])"
proof (induction i k xs rule: relax.induct)
  case (2 i k n d rest)
  define P where "P = filter (\<lambda>j. i \<in> set (n_deps (fst (rest ! (j - Suc k)))) \<and> snd (rest ! (j - Suc k)) = 1)
      [Suc k..<Suc k + length rest]"
  have IH: "relax i (Suc k) rest = Some (map (\<lambda>(n, d). if i \<in> set (n_deps n) then d - 1 else d) rest, P)"
    using 2 unfolding P_def by (cases "i \<in> set (n_deps n)") auto
  let ?F = "\<lambda>j. i \<in> set (n_deps (fst (((n, d) # rest) ! (j - k)))) \<and> snd (((n, d) # rest) ! (j - k)) = 1"
  have shift: "filter ?F [Suc k..<Suc k + length rest] = P"
    unfolding P_def by (rule filter_cong) (auto simp: nth_Cons' Suc_diff_Suc)
  have upt: "[k..<k + length ((n, d) # rest)] = k # [Suc k..<Suc k + length rest]"
    by (simp add: upt_rec)
  have Fk: "?F k \<longleftrightarrow> i \<in> set (n_deps n) \<and> d = 1" by simp
  have "filter ?F [k..<k + length ((n, d) # rest)] = (if i \<in> set (n_deps n) \<and> d = 1 then k # P else P)"
    unfolding upt filter.simps(2) shift Fk by (rule refl)
  moreover have "i \<in> set (n_deps n) \<Longrightarrow> 0 < d" using 2 by simp
  ultimately show ?case by (auto simp: IH)
qed simp

text \<open>
  The invariant of the loop: \<open>visited\<close> lists the ids already taken, latest first. A degree counts the
  dependencies not yet taken; a node is free exactly when it was taken or waits in the queue; and what
  was taken had its dependencies taken before.
\<close>

fun taken_in_order :: "graph \<Rightarrow> string list \<Rightarrow> bool" where
  "taken_in_order g [] = True"
| "taken_in_order g (i # is) = ((\<forall>n\<in>set g. n_id n = i \<longrightarrow> set (n_deps n) \<subseteq> set is) \<and> taken_in_order g is)"

definition kahn_inv :: "graph \<Rightarrow> nat list \<Rightarrow> nat list \<Rightarrow> string list \<Rightarrow> bool" where
  "kahn_inv g indegree queue taken \<longleftrightarrow>
     length indegree = length g \<and> distinct queue \<and> (\<forall>i\<in>set queue. i < length g) \<and>
     (\<forall>i<length g. indegree ! i = card (set (n_deps (g ! i)) - set taken)) \<and>
     (\<forall>i<length g. indegree ! i = 0 \<longleftrightarrow> n_id (g ! i) \<in> set taken \<or> i \<in> set queue) \<and>
     (\<forall>i\<in>set queue. n_id (g ! i) \<notin> set taken) \<and> distinct taken \<and> set taken \<subseteq> n_id ` set g \<and>
     taken_in_order g taken"

lemma card_remove_dep: "finite A \<Longrightarrow> card (A - insert x B) = card (A - B) - (if x \<in> A - B then 1 else 0)"
  by (subst Diff_insert) (simp add: card_Diff_singleton_if)

lemma kahn_step_inv:
  assumes inv: "kahn_inv g indegree (index # queue) taken" and ids: "distinct_ids g"
  shows "\<exists>indegree' pushed. relax (n_id (g ! index)) 0 (zip g indegree) = Some (indegree', pushed) \<and>
    kahn_inv g indegree' (rev pushed @ queue) (n_id (g ! index) # taken)"
proof -
  let ?i = "n_id (g ! index)"
  from inv have len: "length indegree = length g" and idx: "index < length g"
    and card: "\<And>j. j < length g \<Longrightarrow> indegree ! j = card (set (n_deps (g ! j)) - set taken)"
    and zero: "\<And>j. j < length g \<Longrightarrow> indegree ! j = 0 \<longleftrightarrow> n_id (g ! j) \<in> set taken \<or> j \<in> set (index # queue)"
    and new: "?i \<notin> set taken" unfolding kahn_inv_def by (blast, simp, blast, blast, simp)
  have id_eq: "n_id (g ! j) = ?i \<longleftrightarrow> j = index" if "j < length g" for j
    using ids that idx nth_eq_iff_index_eq [of "map n_id g" j index] by (simp add: distinct_ids_def)
  have pos: "0 < indegree ! j" if "j < length g" "?i \<in> set (n_deps (g ! j))" for j
    using that new card [of j] by (auto simp: card_gt_0_iff)
  define ds where "ds = map (\<lambda>(n, d). if ?i \<in> set (n_deps n) then d - 1 else d) (zip g indegree)"
  define pushed where "pushed = filter (\<lambda>j. ?i \<in> set (n_deps (g ! j)) \<and> indegree ! j = 1) [0..<length g]"
  have "relax ?i 0 (zip g indegree) = Some (ds,
      filter (\<lambda>j. ?i \<in> set (n_deps (fst (zip g indegree ! (j - 0)))) \<and> snd (zip g indegree ! (j - 0)) = 1)
        [0..<0 + length (zip g indegree)])"
    unfolding ds_def using pos len by (intro relax_eq) (auto simp: in_set_zip)
  also have "filter (\<lambda>j. ?i \<in> set (n_deps (fst (zip g indegree ! (j - 0)))) \<and> snd (zip g indegree ! (j - 0)) = 1)
        [0..<0 + length (zip g indegree)] = pushed"
    unfolding pushed_def using len by (intro filter_cong) auto
  finally have relax: "relax ?i 0 (zip g indegree) = Some (ds, pushed)" .
  have nth: "ds ! j = (if ?i \<in> set (n_deps (g ! j)) then indegree ! j - 1 else indegree ! j)" if "j < length g" for j
    using that len by (simp add: ds_def)
  have card': "ds ! j = card (set (n_deps (g ! j)) - set (?i # taken))" if "j < length g" for j
    using that new by (simp add: nth card card_remove_dep)
  have push: "j \<in> set pushed \<longleftrightarrow> j < length g \<and> ?i \<in> set (n_deps (g ! j)) \<and> indegree ! j = 1" for j
    by (auto simp: pushed_def)
  have zero': "ds ! j = 0 \<longleftrightarrow> n_id (g ! j) \<in> set (?i # taken) \<or> j \<in> set (rev pushed @ queue)" if "j < length g" for j
    using that zero [of j] pos [of j] id_eq [of j] by (auto simp: nth push)
  have free: "j \<notin> set queue \<and> n_id (g ! j) \<notin> set taken \<and> j \<noteq> index" if "j \<in> set pushed" for j
    using that zero [of j] by (auto simp: push)
  have order: "taken_in_order g (?i # taken)"
  proof -
    have "indegree ! index = 0" using zero [OF idx] by simp
    with card [OF idx] have "set (n_deps (g ! index)) \<subseteq> set taken" by auto
    moreover have "n = g ! index" if "n \<in> set g" "n_id n = ?i" for n
      using that id_eq by (metis in_set_conv_nth)
    ultimately show ?thesis using inv by (auto simp: kahn_inv_def)
  qed
  have dist_queue: "distinct queue" using inv unfolding kahn_inv_def by simp
  have dist_pushed: "distinct pushed" by (simp add: pushed_def)
  have apart: "set pushed \<inter> set queue = {}" using free by blast
  have "kahn_inv g ds (rev pushed @ queue) (?i # taken)"
    unfolding kahn_inv_def
  proof (intro conjI ballI allI impI)
    show "length ds = length g" by (simp add: ds_def len)
    show "distinct (rev pushed @ queue)" using dist_queue dist_pushed apart by simp
    show "j < length g" if "j \<in> set (rev pushed @ queue)" for j
      using that inv push unfolding kahn_inv_def by (metis Un_iff set_append set_rev list.set_intros(2))
    show "n_id (g ! j) \<notin> set (?i # taken)" if "j \<in> set (rev pushed @ queue)" for j
    proof -
      from that consider "j \<in> set pushed" | "j \<in> set queue" by auto
      then have "j < length g \<and> j \<noteq> index \<and> n_id (g ! j) \<notin> set taken"
      proof cases
        case 1
        with free push show ?thesis by blast
      next
        case 2
        with inv show ?thesis unfolding kahn_inv_def by (metis distinct.simps(2) list.set_intros(2))
      qed
      with id_eq show ?thesis by auto
    qed
    show "distinct (?i # taken)" using new inv by (simp add: kahn_inv_def)
    show "set (?i # taken) \<subseteq> n_id ` set g" using idx inv by (auto simp: kahn_inv_def)
  qed (use card' zero' order in simp_all)
  with relax show ?thesis by blast
qed

lemma kahn_result:
  "kahn_inv g indegree queue taken \<Longrightarrow> distinct_ids g \<Longrightarrow>
     \<exists>indegree' taken'. kahn g indegree queue (length taken) = Some (length taken', indegree') \<and>
       kahn_inv g indegree' [] taken'"
proof (induction g indegree queue "length taken" arbitrary: taken rule: kahn.induct)
  case (2 g indegree index queue)
  from kahn_step_inv [OF 2(2,3)] obtain ds pushed where
    step: "relax (n_id (g ! index)) 0 (zip g indegree) = Some (ds, pushed)"
      "kahn_inv g ds (rev pushed @ queue) (n_id (g ! index) # taken)" by blast
  from "2.hyps" [OF step(1) refl, of "n_id (g ! index) # taken"] step 2(3) show ?case by simp
qed auto

lemma initial_inv:
  assumes "single_deps g"
  shows "kahn_inv g (map (\<lambda>n. length (n_deps n)) g)
     (rev (filter (\<lambda>i. map (\<lambda>n. length (n_deps n)) g ! i = 0) [0..<length g])) []"
  using assms by (auto simp: kahn_inv_def single_deps_def distinct_card)

lemma taken_acyclic:
  "taken_in_order g taken \<Longrightarrow> distinct taken \<Longrightarrow>
     \<not> (\<exists>x\<in>set taken. (x, x) \<in> (edges g)\<^sup>+)"
proof -
  assume o: "taken_in_order g taken" "distinct taken"
  define rank where "rank x = length (dropWhile (\<lambda>y. y \<noteq> x) taken)" for x
  have less: "d \<in> set taken \<and> rank d < rank x" if "x \<in> set taken" "(d, x) \<in> edges g" for d x
    using that o unfolding rank_def
  proof (induction taken)
    case (Cons i "is")
    show ?case
    proof (cases "x = i")
      case True
      with Cons.prems have "d \<in> set is" "d \<noteq> i" by (auto simp: edges_def)
      with True show ?thesis using length_dropWhile_le [of "\<lambda>y. y \<noteq> d" "is"] by simp
    next
      case False
      with Cons.prems have "x \<in> set is" by simp
      with Cons have IH: "d \<in> set is \<and> length (dropWhile (\<lambda>y. y \<noteq> d) is) < length (dropWhile (\<lambda>y. y \<noteq> x) is)" by simp
      with Cons.prems False show ?thesis by auto
    qed
  qed simp
  have "d \<in> set taken \<and> rank d < rank x" if "(d, x) \<in> (edges g)\<^sup>+" "x \<in> set taken" for d x
    using that by (induction rule: trancl_induct) (use less in \<open>auto intro: less_trans\<close>)
  then show ?thesis by blast
qed

lemma taken_all_acyclic:
  assumes "taken_in_order g taken" and "distinct taken" and "n_id ` set g \<subseteq> set taken"
  shows "acyclic (edges g)"
proof (rule acyclicI, intro allI notI)
  fix x assume x: "(x, x) \<in> (edges g)\<^sup>+"
  then have "x \<in> Range (edges g)" by (metis Range.intros trancl_range)
  then have "x \<in> set taken" using assms(3) by (auto simp: edges_def)
  with taken_acyclic [OF assms(1,2)] x show False by blast
qed

lemma acyclic_taken_all:
  assumes "acyclic (edges g)" and "known_deps g" and "kahn_inv g indegree [] taken"
  shows "n_id ` set g \<subseteq> set taken"
proof (rule ccontr)
  assume "\<not> n_id ` set g \<subseteq> set taken"
  then obtain x where "x \<in> n_id ` set g - set taken" by blast
  moreover have "wf (edges g)" using finite_edges assms(1) by (rule finite_acyclic_wf)
  ultimately obtain z where z: "z \<in> n_id ` set g - set taken"
    "\<And>y. (y, z) \<in> edges g \<Longrightarrow> y \<notin> n_id ` set g - set taken"
    by (elim wfE_min) blast+
  from z(1) obtain k where k: "k < length g" "n_id (g ! k) = z" "z \<notin> set taken"
    by (auto simp: in_set_conv_nth)
  with assms(3) have "card (set (n_deps (g ! k)) - set taken) \<noteq> 0" by (auto simp: kahn_inv_def)
  then obtain d where d: "d \<in> set (n_deps (g ! k))" "d \<notin> set taken"
    by (metis card.empty ex_in_conv DiffE)
  with k have "(d, z) \<in> edges g" "d \<in> n_id ` set g"
    using assms(2) by (auto simp: edges_def known_deps_def)
  with z(2) d(2) show False by blast
qed

lemma check_acyclic_iff:
  assumes "distinct_ids g" and "known_deps g" and "single_deps g"
  shows "\<exists>r. check_acyclic g = Some r \<and> (is_ok r \<longleftrightarrow> acyclic (edges g))"
proof -
  from kahn_result [OF initial_inv [OF assms(3)] assms(1)] obtain indegree taken where
    k: "kahn g (map (\<lambda>n. length (n_deps n)) g)
       (rev (filter (\<lambda>i. map (\<lambda>n. length (n_deps n)) g ! i = 0) [0..<length g])) 0 = Some (length taken, indegree)"
    and inv: "kahn_inv g indegree [] taken" by auto
  have sub: "set taken \<subseteq> n_id ` set g" "distinct taken" "taken_in_order g taken" using inv by (simp_all add: kahn_inv_def)
  have "length taken = length g \<longleftrightarrow> n_id ` set g \<subseteq> set taken"
  proof -
    have "length taken = card (set taken)" using sub(2) by (simp add: distinct_card)
    moreover have "length g = card (n_id ` set g)"
      using assms(1) distinct_card [of "map n_id g"] by (simp add: distinct_ids_def)
    ultimately show ?thesis using sub(1) by (metis card_subset_eq finite_imageI List.finite_set subset_antisym)
  qed
  also have "\<dots> \<longleftrightarrow> acyclic (edges g)"
    using taken_all_acyclic [OF sub(3,2)] acyclic_taken_all [OF _ assms(2) inv] by blast
  finally show ?thesis using k by (simp add: check_acyclic_def Let_def)
qed

section \<open>What a parsed graph satisfies\<close>

lemma first_duplicate_iff:
  "first_duplicate seen g = Inr () \<longleftrightarrow> distinct (map n_id g) \<and> set seen \<inter> n_id ` set g = {}"
  by (induction seen g rule: first_duplicate.induct) auto

lemma unknown_dep_iff: "unknown_dep seen i ds = Inr () \<longleftrightarrow> set ds \<subseteq> set seen"
  by (induction seen i ds rule: unknown_dep.induct) auto

lemma unknown_deps_iff: "unknown_deps seen g = Inr () \<longleftrightarrow> (\<forall>n\<in>set g. set (n_deps n) \<subseteq> set seen)"
  by (induction g) (auto simp: bindR_Inr_iff unknown_dep_iff)

lemma dedup_spec: "distinct (dedup seen ds) \<and> set (dedup seen ds) = set ds - set seen"
  by (induction seen ds rule: dedup.induct) auto

lemma node_from_value_single: "node_from_value v = Inr n \<Longrightarrow> distinct (n_deps n) \<and> n_status n = Pending"
  using dedup_spec by (auto simp: node_from_value_def bindR_Inr_iff split: if_splits)

lemma validate_cases:
  assumes "single_deps g"
  shows "\<exists>r. validate g = Some r \<and> (is_ok r \<longleftrightarrow> distinct_ids g \<and> known_deps g \<and> acyclic (edges g))"
proof (cases "distinct_ids g \<and> known_deps g")
  case True
  then have "first_duplicate [] g = Inr ()" "unknown_deps (map n_id g) g = Inr ()"
    by (simp_all add: first_duplicate_iff unknown_deps_iff distinct_ids_def known_deps_def)
  with True check_acyclic_iff [OF _ _ assms] show ?thesis by (simp add: validate_def)
next
  case False
  then have "\<not> (first_duplicate [] g = Inr () \<and> unknown_deps (map n_id g) g = Inr ())"
    by (auto simp: first_duplicate_iff unknown_deps_iff distinct_ids_def known_deps_def)
  then have "\<not> is_ok (bindR (first_duplicate [] g) (\<lambda>_. unknown_deps (map n_id g) g))"
    by (auto simp: is_ok_iff bindR_Inr_iff)
  with False show ?thesis
    by (auto simp: validate_def is_ok_iff split: sum.splits)
qed

lemma from_nodes_value_single:
  assumes "mapR node_from_value vs = Inr g"
  shows "single_deps g \<and> (\<forall>n\<in>set g. n_status n = Pending)"
  using mapR_forall [OF assms] node_from_value_single by (fastforce simp: single_deps_def)

text \<open>
  C16. Plan validation decides exactly the task graphs that can be scheduled: on nodes without repeated
  dependencies, which reading a node guarantees, it never panics and accepts a graph if and only if
  its ids are pairwise distinct, every dependency exists, and the dependency relation has no cycle.
\<close>

theorem validate_accepts_exactly_dags:
  assumes "single_deps g"
  shows "\<exists>r. validate g = Some r \<and> (is_ok r \<longleftrightarrow> distinct_ids g \<and> known_deps g \<and> acyclic (edges g))"
  using assms by (rule validate_cases)

section \<open>Skips\<close>

text \<open>A pending node is doomed when a dependency failed, was skipped, or is doomed itself.\<close>

inductive doomed :: "graph \<Rightarrow> node \<Rightarrow> bool" for g where
  dead_dep: "n \<in> set g \<Longrightarrow> n_status n = Pending \<Longrightarrow> d \<in> set (n_deps n) \<Longrightarrow> m \<in> set g \<Longrightarrow> n_id m = d \<Longrightarrow>
    n_status m = Failed \<or> n_status m = Skipped \<Longrightarrow> doomed g n"
| doomed_dep: "n \<in> set g \<Longrightarrow> n_status n = Pending \<Longrightarrow> d \<in> set (n_deps n) \<Longrightarrow> n_id m = d \<Longrightarrow>
    doomed g m \<Longrightarrow> doomed g n"

lemma doomed_pending: "doomed g n \<Longrightarrow> n \<in> set g \<and> n_status n = Pending"
  by (induction rule: doomed.induct) auto

abbreviation dead_dep_of :: "graph \<Rightarrow> node \<Rightarrow> bool" where
  "dead_dep_of g n \<equiv> list_ex (\<lambda>dep. dep \<in> set (dead_ids g)) (n_deps n)"

lemma dead_dep_of_iff:
  "dead_dep_of g n \<longleftrightarrow> (\<exists>m\<in>set g. n_id m \<in> set (n_deps n) \<and> (n_status m = Failed \<or> n_status m = Skipped))"
  by (auto simp: dead_ids_def list_ex_iff)

lemma skip_if_simps [simp]:
  "n_id (skip_if P n) = n_id n" "n_deps (skip_if P n) = n_deps n"
  by (simp_all add: skip_if_def)

lemma doomed_round_back:
  assumes "doomed (skip_round g) n'"
  shows "doomed g n'"
  using assms
proof induction
  case (dead_dep n d m)
  from dead_dep(1) obtain n0 where n0: "n0 \<in> set g" "n = skip_if (dead_dep_of g) n0" by (auto simp: skip_round_map)
  with dead_dep(2) have "n = n0" using skip_if_pending by metis
  from dead_dep(4) obtain m0 where m0: "m0 \<in> set g" "m = skip_if (dead_dep_of g) m0" by (auto simp: skip_round_map)
  show ?case
  proof (cases "n_status m0 = Failed \<or> n_status m0 = Skipped")
    case True
    with dead_dep n0 m0 \<open>n = n0\<close> show ?thesis by (intro doomed.dead_dep [of n g d m0]) auto
  next
    case False
    with dead_dep(6) m0 have "n_status m0 = Pending" "dead_dep_of g m0" by (auto simp: skip_if_def split: if_splits)
    then have "doomed g m0" using m0(1) by (auto simp: dead_dep_of_iff intro: doomed.dead_dep)
    with dead_dep n0 m0 \<open>n = n0\<close> show ?thesis by (intro doomed.doomed_dep [of n g d m0]) auto
  qed
next
  case (doomed_dep n d m)
  from doomed_dep(1) obtain n0 where n0: "n0 \<in> set g" "n = skip_if (dead_dep_of g) n0" by (auto simp: skip_round_map)
  with doomed_dep(2) have "n = n0" using skip_if_pending by metis
  with doomed_dep n0 show ?case by (intro doomed.doomed_dep [of n g d m]) auto
qed

lemma doomed_round:
  assumes "doomed g n"
  shows "dead_dep_of g n \<or> doomed (skip_round g) n"
  using assms
proof induction
  case (dead_dep n d m)
  then show ?case by (auto simp: dead_dep_of_iff)
next
  case (doomed_dep n d m)
  from doomed_dep(5) have m: "m \<in> set g" "n_status m = Pending" using doomed_pending by auto
  show ?case
  proof (cases "dead_dep_of g n")
    case False
    with doomed_dep have n: "n \<in> set (skip_round g)" by (force simp: skip_round_map skip_if_def)
    show ?thesis
    proof (cases "dead_dep_of g m")
      case True
      with m have "skip_if (dead_dep_of g) m \<in> set (skip_round g)" "n_status (skip_if (dead_dep_of g) m) = Skipped"
        by (auto simp: skip_round_map skip_if_def)
      with n doomed_dep show ?thesis by (auto intro!: doomed.dead_dep [of n _ d "skip_if (dead_dep_of g) m"])
    next
      case False
      with doomed_dep n show ?thesis by (auto intro: doomed.doomed_dep)
    qed
  qed simp
qed

lemma no_round_no_doom: "skip_round g = g \<Longrightarrow> \<not> doomed g n"
proof
  assume fixed: "skip_round g = g" and doom: "doomed g n"
  from doom have "\<exists>m\<in>set g. n_status m = Pending \<and> dead_dep_of g m"
    by (induction) (auto simp: dead_dep_of_iff)
  then obtain k where "k < length g" "n_status (g ! k) = Pending" "dead_dep_of g (g ! k)"
    by (auto simp: in_set_conv_nth)
  then have "n_status (skip_round g ! k) = Skipped" by (simp add: skip_round_map skip_if_def)
  with fixed \<open>n_status (g ! k) = Pending\<close> show False by simp
qed

lemma propagate_skips_map: "propagate_skips g = map (skip_if (doomed g)) g"
proof (induction g rule: propagate_skips.induct)
  case (1 g)
  show ?case
  proof (cases "skip_round g = g")
    case True
    then have "map (skip_if (doomed g)) g = g"
      using no_round_no_doom by (intro map_idI) (auto simp: skip_if_def)
    with True show ?thesis by (subst propagate_skips.simps) (simp add: Let_def)
  next
    case False
    have each: "skip_if (doomed (skip_round g)) (skip_if (dead_dep_of g) n) = skip_if (doomed g) n" if "n \<in> set g" for n
    proof (cases "n_status n = Pending \<and> dead_dep_of g n")
      case True
      with that have "doomed g n" by (auto simp: dead_dep_of_iff intro: doomed.dead_dep)
      with True show ?thesis by (simp add: skip_if_def)
    next
      case False
      then have "skip_if (dead_dep_of g) n = n" by (auto simp: skip_if_def)
      moreover have "n_status n = Pending \<Longrightarrow> doomed (skip_round g) n \<longleftrightarrow> doomed g n"
        using False doomed_round doomed_round_back by blast
      ultimately show ?thesis by (auto simp: skip_if_def)
    qed
    from 1 False have "propagate_skips (skip_round g) = map (skip_if (doomed (skip_round g))) (skip_round g)" by (simp add: Let_def)
    also have "\<dots> = map (skip_if (doomed g)) g" using each by (subst (2) skip_round_map) simp
    finally show ?thesis using False by (subst propagate_skips.simps) (simp add: Let_def)
  qed
qed

lemma propagate_skips_settled:
  assumes "n \<in> set (propagate_skips g)" and "n_status n = Pending" and "m \<in> set (propagate_skips g)"
    and "n_id m \<in> set (n_deps n)"
  shows "n_status m \<noteq> Failed \<and> n_status m \<noteq> Skipped"
proof -
  from assms(1) obtain n0 where n0: "n0 \<in> set g" "n = skip_if (doomed g) n0" by (auto simp: propagate_skips_map)
  with assms(2) have "n = n0" using skip_if_pending by metis
  have "\<not> doomed g n"
  proof
    assume "doomed g n"
    then have "n_status (skip_if (doomed g) n0) = Skipped"
      using assms(2) unfolding \<open>n = n0\<close> by (simp add: skip_if_def)
    with n0(2) assms(2) show False by simp
  qed
  from assms(3) obtain m0 where m0: "m0 \<in> set g" "m = skip_if (doomed g) m0" by (auto simp: propagate_skips_map)
  show ?thesis
  proof (rule ccontr)
    assume "\<not> ?thesis"
    then have "n_status m0 = Failed \<or> n_status m0 = Skipped \<or> doomed g m0"
      using m0 by (auto simp: skip_if_def split: if_splits)
    moreover have "n \<in> set g" using n0(1) \<open>n = n0\<close> by (simp only:)
    moreover have "n_id m0 \<in> set (n_deps n)" using assms(4) m0(2) by simp
    ultimately have "doomed g n"
      using assms(2) m0(1) doomed.dead_dep [of n g "n_id m0" m0] doomed.doomed_dep [of n g "n_id m0" m0] by blast
    with \<open>\<not> doomed g n\<close> show False ..
  qed
qed

text \<open>
  C17. Skips reach exactly the dead branches: the loop ends, and it marks as skipped every pending node
  with a failed or skipped node somewhere behind its pending dependencies, and changes nothing else.
\<close>

theorem propagate_skips_exact:
  "propagate_skips g = map (\<lambda>n. if doomed g n then n\<lparr>n_status := Skipped\<rparr> else n) g"
  using doomed_pending [of g] by (auto simp: propagate_skips_map skip_if_def)

section \<open>The ready set\<close>

lemma get_node_unique:
  "distinct_ids g \<Longrightarrow> m \<in> set g \<Longrightarrow> get_node (n_id m) g = Some m"
proof -
  assume "distinct_ids g" "m \<in> set g"
  then obtain m' where "find (\<lambda>n. n_id n = n_id m) g = Some m'"
    using nodes.lookup_None [of "n_id m" g] by (cases "find (\<lambda>n. n_id n = n_id m) g") auto
  moreover from this have "m = m'"
    using nodes.lookup_unique \<open>distinct_ids g\<close> \<open>m \<in> set g\<close> by (fastforce simp: distinct_ids_def)
  ultimately show ?thesis by (simp add: get_node_def)
qed

lemma ready_iff:
  assumes "distinct_ids g"
  shows "i \<in> set (ready g) \<longleftrightarrow> (\<exists>n\<in>set g. n_id n = i \<and> n_status n = Pending \<and>
    (\<forall>d\<in>set (n_deps n). \<exists>m\<in>set g. n_id m = d \<and> n_status m = Done))"
proof -
  have "(case get_node d g of None \<Rightarrow> False | Some m \<Rightarrow> is_done m) \<longleftrightarrow> (\<exists>m\<in>set g. n_id m = d \<and> n_status m = Done)" for d
  proof (cases "get_node d g")
    case None
    then show ?thesis using nodes.lookup_None [of d g] by (auto simp: get_node_def image_iff)
  next
    case (Some m)
    then have "m \<in> set g \<and> n_id m = d" using nodes.lookup_key [of d g m] by (simp add: get_node_def)
    moreover have "m' = m" if "m' \<in> set g" "n_id m' = d" for m'
      using Some get_node_unique [OF assms that(1)] that(2) by simp
    ultimately show ?thesis using Some by (auto simp: is_done_def)
  qed
  then show ?thesis by (auto simp: ready_def list_all_iff)
qed

text \<open>The shape a wave leaves: nothing runs, and no pending node has a dead dependency.\<close>

definition settled :: "graph \<Rightarrow> bool" where
  "settled g \<longleftrightarrow> (\<forall>n\<in>set g. n_status n \<noteq> Running) \<and>
     (\<forall>n\<in>set g. \<forall>m\<in>set g. n_status n = Pending \<and> n_id m \<in> set (n_deps n) \<longrightarrow>
        n_status m \<noteq> Failed \<and> n_status m \<noteq> Skipped)"

lemma settled_progress:
  assumes "distinct_ids g" and "known_deps g" and "acyclic (edges g)" and "settled g" and "has_pending g"
  shows "ready g \<noteq> []"
proof -
  let ?P = "n_id ` {n \<in> set g. n_status n = Pending}"
  from assms(5) obtain x where "x \<in> ?P" by (auto simp: has_pending_def list_ex_iff)
  moreover have "wf (edges g)" using finite_edges assms(3) by (rule finite_acyclic_wf)
  ultimately obtain z where z: "z \<in> ?P" "\<And>y. (y, z) \<in> edges g \<Longrightarrow> y \<notin> ?P"
    by (elim wfE_min) blast+
  then obtain n where n: "n \<in> set g" "n_status n = Pending" "n_id n = z" by auto
  have "\<exists>m\<in>set g. n_id m = d \<and> n_status m = Done" if d: "d \<in> set (n_deps n)" for d
  proof -
    from assms(2) n(1) d obtain m where m: "m \<in> set g" "n_id m = d" by (auto simp: known_deps_def)
    have "(d, z) \<in> edges g" using n d by (auto simp: edges_def)
    with z(2) m have "n_status m \<noteq> Pending" by blast
    moreover have "n_status m \<noteq> Running" "n_status m \<noteq> Failed" "n_status m \<noteq> Skipped"
      using assms(4) m n d by (auto simp: settled_def)
    ultimately have "n_status m = Done" by (cases "n_status m") auto
    with m show ?thesis by blast
  qed
  with n have "z \<in> set (ready g)" unfolding ready_iff [OF assms(1)] by blast
  then show ?thesis by auto
qed


section \<open>A concrete plan\<close>

definition ex_node :: "string \<Rightarrow> string list \<Rightarrow> node" where
  "ex_node i deps = \<lparr>n_id = i, n_task = ''work'', n_deps = deps, n_role = None, n_provider = None,
     n_model = None, n_expect_file = None, n_verify = None, n_max_turns = DEFAULT_MAX_TURNS,
     n_timeout_secs = DEFAULT_TIMEOUT_SECS, n_status = Pending, n_result = None\<rparr>"

definition ex_plan :: graph where
  "ex_plan = [ex_node ''a'' [], ex_node ''b'' [''a''], ex_node ''c'' [''a''], ex_node ''d'' [''b'', ''c'']]"

theorem validate_accepts_exactly_dags_witness:
  "single_deps ex_plan \<and> validate ex_plan = Some (Inr ()) \<and>
   (\<exists>r. validate ex_plan = Some r \<and> (is_ok r \<longleftrightarrow> distinct_ids ex_plan \<and> known_deps ex_plan \<and> acyclic (edges ex_plan)))"
proof -
  have single: "single_deps ex_plan" by (simp add: single_deps_def ex_plan_def ex_node_def)
  moreover have "validate ex_plan = Some (Inr ())" by code_simp
  ultimately show ?thesis using validate_accepts_exactly_dags [OF single] by blast
qed

end
