(* ===== verification/Orchestrator_Plan.thy ===== *)
theory Orchestrator_Plan
  imports Orchestrator_Graph
begin

text \<open>
  The plan a session works on and the \<open>plan\<close> tool, from \<open>packages/rpi-orchestrator/src/lib.rs\<close> and
  \<open>plan.rs\<close>. The state behind the mutex is the record \<open>gstate\<close>; an operation that takes the lock
  returns the state it leaves, and \<open>None\<close> where the source panics: an exhausted generation, or an
  underflow in the cycle check, which is shown not to occur. A cancellation check is the Boolean the
  token holds when it is read.
\<close>

section \<open>The session's graph\<close>

record gstate =
  gs_session :: "string option"
  gs_graph :: graph
  gs_generation :: u64

definition initial_gstate :: gstate where
  "initial_gstate = \<lparr>gs_session = None, gs_graph = [], gs_generation = 0\<rparr>"

text \<open>The host's context is the field \<open>__rpi\<close> of the parameters.\<close>

definition HOST_CONTEXT_KEY :: string where "HOST_CONTEXT_KEY = ''__rpi''"

definition session_of :: "json \<Rightarrow> string option" where
  "session_of params = Option.bind (jget HOST_CONTEXT_KEY params) (\<lambda>ctx. nonempty_trimmed (jget ''sessionId'' ctx))"

definition advance_generation :: "gstate \<Rightarrow> gstate option" where
  "advance_generation st = map_option (\<lambda>g. st\<lparr>gs_generation := g\<rparr>) (checked_add (gs_generation st) 1)"

definition lock_graph :: "json \<Rightarrow> gstate \<Rightarrow> gstate option" where
  "lock_graph params st =
     (if gs_session st \<noteq> session_of params
      then advance_generation (st\<lparr>gs_session := session_of params, gs_graph := []\<rparr>)
      else Some st)"

definition lock_graph_for_wave :: "string option \<Rightarrow> u64 \<Rightarrow> gstate \<Rightarrow> unit res" where
  "lock_graph_for_wave session generation st =
     (if gs_session st \<noteq> session \<or> gs_generation st \<noteq> generation
      then Inl ''plan or session changed while dispatch was running; stale results discarded''
      else Inr ())"

definition is_running :: "gstate \<Rightarrow> bool" where
  "is_running st = list_ex (\<lambda>n. n_status n = Running) (gs_graph st)"

definition result_with_details :: "string \<Rightarrow> json \<Rightarrow> json" where
  "result_with_details txt details = JObj
     [(''content'', JArr [JObj [(''type'', JStr ''text''), (''text'', JStr txt)]]), (''details'', details)]"

definition report :: "graph \<Rightarrow> json" where
  "report g = result_with_details (render_graph g) (to_details g)"

section \<open>Edits\<close>

definition add_node :: "json \<Rightarrow> graph \<Rightarrow> graph res" where
  "add_node item g = bindR (node_from_value item) (\<lambda>n.
     if get_node (n_id n) g \<noteq> None then Inl (''node `'' @ n_id n @ ''` already exists'') else Inr (g @ [n]))"

definition remove_node :: "json \<Rightarrow> graph \<Rightarrow> graph res" where
  "remove_node item g =
     bindR (ok_or ''`removeIds` must contain non-empty strings'' (nonempty_trimmed (Some item))) (\<lambda>i.
     Inr (filter (\<lambda>n. n_id n \<noteq> i) g))"

definition edit_node :: "string \<Rightarrow> (node \<Rightarrow> node) \<Rightarrow> graph \<Rightarrow> graph res" where
  "edit_node i f g = bindR (ok_or (''node `'' @ i @ ''` not found'') (get_node i g)) (\<lambda>_. Inr (update_node i f g))"

definition set_deps :: "json \<Rightarrow> graph \<Rightarrow> graph res" where
  "set_deps item g =
     bindR (ok_or ''each `setDeps` entry needs an `id`'' (get_str ''id'' item)) (\<lambda>i.
     bindR (ok_or ''each `setDeps` entry needs a `deps` array'' (get_array ''deps'' item)) (\<lambda>deps.
     bindR (mapR (\<lambda>d. ok_or ''`deps` must contain non-empty strings'' (nonempty_trimmed (Some d))) deps) (\<lambda>parsed.
     edit_node i (\<lambda>n. n\<lparr>n_deps := dedup [] parsed\<rparr>) g)))"

definition reset_node :: "json \<Rightarrow> graph \<Rightarrow> graph res" where
  "reset_node item g =
     bindR (ok_or ''`reset` must contain non-empty strings'' (nonempty_trimmed (Some item))) (\<lambda>i.
     edit_node i (\<lambda>n. n\<lparr>n_status := Pending, n_result := None\<rparr>) g)"

definition edit_all :: "string \<Rightarrow> (json \<Rightarrow> graph \<Rightarrow> graph res) \<Rightarrow> json \<Rightarrow> graph \<Rightarrow> graph res" where
  "edit_all field f params g = (case jget field params of None \<Rightarrow> Inr g | Some v \<Rightarrow>
     bindR (ok_or (''`'' @ field @ ''` must be an array'') (as_array v)) (\<lambda>items. foldR f items g))"

definition apply_update :: "json \<Rightarrow> graph \<Rightarrow> graph res" where
  "apply_update params g =
     bindR (edit_all ''addNodes'' add_node params g) (\<lambda>g.
     bindR (edit_all ''removeIds'' remove_node params g) (\<lambda>g.
     bindR (edit_all ''setDeps'' set_deps params g) (\<lambda>g.
     edit_all ''reset'' reset_node params g)))"

section \<open>The tool\<close>

definition install :: "graph \<Rightarrow> gstate \<Rightarrow> (gstate \<times> json res) option" where
  "install g st = map_option (\<lambda>st. (st, Inr (report g))) (advance_generation (st\<lparr>gs_graph := g\<rparr>))"

definition plan_action :: "string \<Rightarrow> json \<Rightarrow> gstate \<Rightarrow> (gstate \<times> json res) option" where
  "plan_action action params st =
     (if action = ''set'' then
        (case jget ''nodes'' params of
           None \<Rightarrow> Some (st, Inl ''`nodes` is required for action=set'')
         | Some nodes \<Rightarrow> Option.bind (from_nodes_value nodes) (\<lambda>r. case r of
             Inl e \<Rightarrow> Some (st, Inl e)
           | Inr g \<Rightarrow> install g st))
      else if action = ''update'' then
        (case apply_update params (gs_graph st) of
           Inl e \<Rightarrow> Some (st, Inl e)
         | Inr g \<Rightarrow> Option.bind (validate g) (\<lambda>r. case r of
             Inl e \<Rightarrow> Some (st, Inl e)
           | Inr _ \<Rightarrow> install g st))
      else if action = ''show'' then Some (st, Inr (report (gs_graph st)))
      else Some (st, Inl (''unknown plan action `'' @ action @ ''` (expected set, update, show)'')))"

definition plan :: "bool \<Rightarrow> json \<Rightarrow> gstate \<Rightarrow> (gstate \<times> json res) option" where
  "plan cancelled params st =
     (if cancelled then Some (st, Inl ''cancelled'')
      else Option.bind (lock_graph params st) (\<lambda>st.
        let action = unwrap_or ''show'' (get_str ''action'' params)
        in if (action = ''set'' \<or> action = ''update'') \<and> is_running st
           then Some (st, Inl ''dispatch is running: wait for the wave to finish before editing the plan'')
           else plan_action action params st))"

section \<open>The graph stays schedulable\<close>

definition dag :: "graph \<Rightarrow> bool" where
  "dag g \<longleftrightarrow> single_deps g \<and> distinct_ids g \<and> known_deps g \<and> acyclic (edges g)"

lemma dag_Nil [simp]: "dag []"
  by (simp add: dag_def single_deps_def distinct_ids_def known_deps_def edges_def acyclic_def)

text \<open>What validation reads of a graph: the ids and the dependencies.\<close>

definition shape :: "graph \<Rightarrow> (string \<times> string list) list" where
  "shape g = map (\<lambda>n. (n_id n, n_deps n)) g"

lemma shape_map: "(\<And>n. n_id (f n) = n_id n \<and> n_deps (f n) = n_deps n) \<Longrightarrow> shape (map f g) = shape g"
  by (simp add: shape_def)

lemma dag_shape: "dag g \<longleftrightarrow>
    (\<forall>(i, ds)\<in>set (shape g). distinct ds \<and> set ds \<subseteq> fst ` set (shape g)) \<and> distinct (map fst (shape g)) \<and>
    acyclic {(d, i) | d i ds. (i, ds) \<in> set (shape g) \<and> d \<in> set ds}"
proof -
  have "edges g = {(d, i) | d i ds. (i, ds) \<in> set (shape g) \<and> d \<in> set ds}"
    by (force simp: edges_def shape_def)
  moreover have ids: "map fst (shape g) = map n_id g" "fst ` set (shape g) = n_id ` set g"
    by (simp_all add: shape_def image_image comp_def)
  moreover have "(\<forall>(i, ds)\<in>set (shape g). distinct ds \<and> set ds \<subseteq> A) \<longleftrightarrow>
      (\<forall>n\<in>set g. distinct (n_deps n) \<and> set (n_deps n) \<subseteq> A)" for A
    by (simp add: shape_def)
  ultimately show ?thesis
    unfolding dag_def single_deps_def distinct_ids_def known_deps_def by (simp only:) blast
qed

lemma dag_cong: "shape g = shape h \<Longrightarrow> dag g = dag h"
  by (simp add: dag_shape)

lemma validate_dag: "single_deps g \<Longrightarrow> validate g = Some (Inr ()) \<longleftrightarrow> dag g"
  using validate_cases [of g] by (auto simp: dag_def is_ok_iff)

lemma validate_total: "single_deps g \<Longrightarrow> \<exists>r. validate g = Some r"
  using validate_cases by blast

lemma from_nodes_value_Some:
  "\<exists>r. from_nodes_value v = Some r \<and> (\<forall>g. r = Inr g \<longrightarrow> dag g \<and> g \<noteq> [] \<and> (\<forall>n\<in>set g. n_status n = Pending))"
proof (cases "bindR (ok_or ''`nodes` must be an array'' (as_array v)) (\<lambda>items.
    if items = [] then Inl ''`nodes` must contain at least one node'' else mapR node_from_value items)")
  case (Inl e)
  then show ?thesis by (simp add: from_nodes_value_def)
next
  case (Inr g)
  then obtain items where items: "items \<noteq> []" "mapR node_from_value items = Inr g"
    by (auto simp: bindR_Inr_iff split: if_splits)
  then have single: "single_deps g" "\<forall>n\<in>set g. n_status n = Pending" and "g \<noteq> []"
    using from_nodes_value_single [OF items(2)] mapR_length [OF items(2)] by auto
  from validate_total [OF single(1)] obtain r where r: "validate g = Some r" ..
  have ok: "r = Inr () \<longrightarrow> dag g" using validate_dag [OF single(1)] r by simp
  show ?thesis
  proof (intro exI conjI allI impI)
    show "from_nodes_value v = Some (bindR r (\<lambda>_. Inr g))" using Inr r by (simp add: from_nodes_value_def)
    fix h assume "bindR r (\<lambda>_. Inr g) = Inr h"
    then show "dag h" "h \<noteq> []" using ok \<open>g \<noteq> []\<close> by (auto simp: bindR_Inr_iff)
  next
    fix h assume "bindR r (\<lambda>_. Inr g) = Inr h"
    then show "\<forall>n\<in>set h. n_status n = Pending" using single(2) by (auto simp: bindR_Inr_iff)
  qed
qed

section \<open>Edits\<close>

text \<open>What every edit keeps: dependencies without repetitions, and no node marked as running.\<close>

definition calm :: "graph \<Rightarrow> bool" where
  "calm g \<longleftrightarrow> (\<forall>n\<in>set g. distinct (n_deps n) \<and> n_status n \<noteq> Running)"

lemma calm_single: "calm g \<Longrightarrow> single_deps g"
  by (simp add: calm_def single_deps_def)

lemma edit_node_calm:
  assumes "edit_node i f g = Inr h" and "calm g"
    and "\<And>n. distinct (n_deps n) \<and> n_status n \<noteq> Running \<Longrightarrow> distinct (n_deps (f n)) \<and> n_status (f n) \<noteq> Running"
  shows "calm h"
proof -
  from assms(1) have h: "h = update_node i f g" by (auto simp: edit_node_def bindR_Inr_iff)
  show ?thesis unfolding calm_def
  proof
    fix y assume "y \<in> set h"
    then consider "y \<in> set g" | x where "x \<in> set g" "y = f x"
      unfolding h update_node_def by (blast dest: modify_first_set)
    then show "distinct (n_deps y) \<and> n_status y \<noteq> Running"
      by cases (use assms(2,3) in \<open>auto simp: calm_def\<close>)
  qed
qed

lemma add_node_calm: "add_node item g = Inr h \<Longrightarrow> calm g \<Longrightarrow> calm h"
  using node_from_value_single
  by (fastforce simp: add_node_def bindR_Inr_iff calm_def split: if_splits)

lemma remove_node_calm: "remove_node item g = Inr h \<Longrightarrow> calm g \<Longrightarrow> calm h"
  by (auto simp: remove_node_def bindR_Inr_iff calm_def)

lemma set_deps_calm: "set_deps item g = Inr h \<Longrightarrow> calm g \<Longrightarrow> calm h"
  using dedup_spec by (auto simp: set_deps_def bindR_Inr_iff elim!: edit_node_calm)

lemma reset_node_calm: "reset_node item g = Inr h \<Longrightarrow> calm g \<Longrightarrow> calm h"
  by (auto simp: reset_node_def bindR_Inr_iff elim!: edit_node_calm)

lemma edit_all_calm:
  assumes "edit_all field f params g = Inr h" and "calm g" and "\<And>item g h. f item g = Inr h \<Longrightarrow> calm g \<Longrightarrow> calm h"
  shows "calm h"
proof (cases "jget field params")
  case (Some v)
  with assms(1) obtain items where "foldR f items g = Inr h" by (auto simp: edit_all_def bindR_Inr_iff)
  then show ?thesis using assms(2,3) by (rule foldR_invariant)
qed (use assms in \<open>simp add: edit_all_def\<close>)

lemma apply_update_calm:
  assumes "apply_update params g = Inr h" and "calm g"
  shows "calm h"
proof -
  from assms(1) obtain g1 g2 g3 where
    g1: "edit_all ''addNodes'' add_node params g = Inr g1" and
    g2: "edit_all ''removeIds'' remove_node params g1 = Inr g2" and
    g3: "edit_all ''setDeps'' set_deps params g2 = Inr g3" and
    h: "edit_all ''reset'' reset_node params g3 = Inr h"
    unfolding apply_update_def bindR_Inr_iff by (elim exE conjE)
  from g1 assms(2) have "calm g1" by (rule edit_all_calm) (rule add_node_calm)
  with g2 have "calm g2" by (rule edit_all_calm) (rule remove_node_calm)
  with g3 have "calm g3" by (rule edit_all_calm) (rule set_deps_calm)
  with h show ?thesis by (rule edit_all_calm) (rule reset_node_calm)
qed

lemma calm_iff: "dag (gs_graph st) \<Longrightarrow> calm (gs_graph st) \<longleftrightarrow> \<not> is_running st"
  by (auto simp: calm_def is_running_def list_ex_iff dag_def single_deps_def)

section \<open>What the tool does to the state\<close>

lemma advance_generation_Some:
  "advance_generation st = Some st' \<longleftrightarrow>
     (\<exists>g. unat g = unat (gs_generation st) + 1 \<and> st' = st\<lparr>gs_generation := g\<rparr>)"
  unfolding advance_generation_def by (auto simp: checked_add_one_iff)

lemma lock_graph_cases:
  assumes "lock_graph params st = Some st'"
  shows "gs_session st' = session_of params \<and>
    (st' = st \<or> gs_session st \<noteq> gs_session st' \<and>
       unat (gs_generation st') = unat (gs_generation st) + 1 \<and> gs_graph st' = [])"
  using assms by (auto simp: lock_graph_def advance_generation_Some split: if_splits)

lemma install_Some:
  "install g st = Some (st', r) \<longleftrightarrow> r = Inr (report g) \<and>
     (\<exists>n. unat n = unat (gs_generation st) + 1 \<and> st' = st\<lparr>gs_graph := g, gs_generation := n\<rparr>)"
  unfolding install_def by (auto simp: advance_generation_Some)

lemma plan_action_cases:
  assumes "plan_action action params st = Some (st', r)" and "dag (gs_graph st)"
    and "action = ''set'' \<or> action = ''update'' \<Longrightarrow> \<not> is_running st"
  shows "gs_session st' = gs_session st \<and>
    (st' = st \<or> dag (gs_graph st') \<and> \<not> is_running st' \<and>
       unat (gs_generation st') = unat (gs_generation st) + 1 \<and> \<not> is_running st)"
proof -
  have installed: "gs_session st' = gs_session st \<and> dag (gs_graph st') \<and> \<not> is_running st' \<and>
      unat (gs_generation st') = unat (gs_generation st) + 1" if "install g st = Some (st', r)" "dag g" "calm g" for g
    using that calm_iff [of st'] by (auto simp: install_Some)
  consider (set_plan) "action = ''set''" | (update_plan) "action = ''update''"
    | (other) "action \<noteq> ''set''" "action \<noteq> ''update''" by blast
  then show ?thesis
  proof cases
    case set_plan
    show ?thesis
    proof (cases "jget ''nodes'' params")
      case None
      with assms(1) set_plan show ?thesis by (simp add: plan_action_def)
    next
      case (Some v)
      from from_nodes_value_Some [of v] obtain q where
        q: "from_nodes_value v = Some q" "\<And>g. q = Inr g \<Longrightarrow> dag g \<and> calm g"
        by (auto simp: calm_def dag_def single_deps_def)
      with Some assms(1,3) set_plan show ?thesis
        using installed by (cases q) (auto simp: plan_action_def)
    qed
  next
    case update_plan
    show ?thesis
    proof (cases "apply_update params (gs_graph st)")
      case (Inl e)
      with assms(1) update_plan show ?thesis by (simp add: plan_action_def)
    next
      case (Inr g)
      then have calm: "calm g" using assms(2,3) update_plan apply_update_calm calm_iff by blast
      from validate_total [OF calm_single [OF calm]] obtain q where q: "validate g = Some q" by blast
      show ?thesis
      proof (cases q)
        case (Inl e)
        with Inr q assms(1) update_plan show ?thesis by (simp add: plan_action_def)
      next
        case q': (Inr u)
        with Inr q assms(1) update_plan have "install g st = Some (st', r)" by (simp add: plan_action_def)
        moreover have "dag g" using q q' validate_dag [OF calm_single [OF calm]] by simp
        ultimately show ?thesis using installed calm update_plan assms(3) by blast
      qed
    qed
  next
    case other
    with assms(1) show ?thesis by (auto simp: plan_action_def split: if_splits)
  qed
qed

text \<open>
  What a call of the tool can do: keep the state, or install another graph that is a task graph again;
  then the generation has grown, nothing is running, and nothing was running before in this session.
\<close>

lemma plan_cases:
  assumes "plan cancelled params st = Some (st', r)" and "dag (gs_graph st)"
  shows "st' = st \<or> dag (gs_graph st') \<and> \<not> is_running st' \<and>
    unat (gs_generation st) < unat (gs_generation st') \<and> (gs_session st' \<noteq> gs_session st \<or> \<not> is_running st)"
proof (cases cancelled)
  case True
  with assms(1) show ?thesis by (simp add: plan_def)
next
  case False
  define action where "action = unwrap_or ''show'' (get_str ''action'' params)"
  from False assms(1) obtain st1 where st1: "lock_graph params st = Some st1"
    and body: "(if (action = ''set'' \<or> action = ''update'') \<and> is_running st1
           then Some (st1, Inl ''dispatch is running: wait for the wave to finish before editing the plan'')
           else plan_action action params st1) = Some (st', r)"
    unfolding plan_def Let_def action_def [symmetric] by (cases "lock_graph params st") simp_all
  have dag1: "dag (gs_graph st1)" using lock_graph_cases [OF st1] assms(2) by auto
  have later: "st' = st1 \<or> dag (gs_graph st') \<and> gs_session st' = gs_session st1 \<and> \<not> is_running st' \<and>
      unat (gs_generation st') = unat (gs_generation st1) + 1 \<and> \<not> is_running st1"
  proof (cases "(action = ''set'' \<or> action = ''update'') \<and> is_running st1")
    case True
    with body show ?thesis by simp
  next
    case False
    then have "plan_action action params st1 = Some (st', r)" using body by (simp only: if_False)
    from plan_action_cases [OF this dag1] False show ?thesis by blast
  qed
  show ?thesis
  proof (cases "st1 = st")
    case True
    with later show ?thesis by auto
  next
    case False
    then have "gs_session st \<noteq> gs_session st1" "unat (gs_generation st1) = unat (gs_generation st) + 1"
        "\<not> is_running st1"
      using lock_graph_cases [OF st1] by (auto simp: is_running_def)
    then show ?thesis using later dag1 by auto
  qed
qed

end
