(* ===== verification/Orchestrator_Child.thy ===== *)
theory Orchestrator_Child
  imports Orchestrator_Plan
begin

text \<open>
  One delegation, from \<open>packages/rpi-orchestrator/src/host.rs\<close>, \<open>spawn.rs\<close>, \<open>subagent.rs\<close> and \<open>kit.rs\<close>:
  which provider and model a child runs on, its command line, the loop that waits for it, and the
  bounds on its output. The operating system is a parameter: a loop that polls takes the list of its
  observations, and returns \<open>None\<close> while none of them has ended it.
\<close>

section \<open>The binding of a child\<close>

record selection =
  sel_provider :: "string option"
  sel_model :: "string option"

definition default_selection :: selection where
  "default_selection = \<lparr>sel_provider = None, sel_model = None\<rparr>"

definition effective :: "selection \<Rightarrow> string option \<Rightarrow> string option \<Rightarrow> selection" where
  "effective parent provider model =
     (if provider \<noteq> None \<or> model \<noteq> None then \<lparr>sel_provider = provider, sel_model = model\<rparr> else parent)"

definition label :: "selection \<Rightarrow> string" where
  "label s = (case (sel_provider s, sel_model s) of
     (Some p, Some m) \<Rightarrow> p @ ''/'' @ m | (Some p, None) \<Rightarrow> p | (None, Some m) \<Rightarrow> m | (None, None) \<Rightarrow> ''-'')"

definition runtime_handle :: "json \<Rightarrow> u64 option" where
  "runtime_handle params =
     filter_opt (\<lambda>i. i \<noteq> 0) (Option.bind (jget HOST_CONTEXT_KEY params) (get_u64 ''runtimeHandle''))"

definition selection_from_context :: "json \<Rightarrow> selection" where
  "selection_from_context context =
     (let field = (\<lambda>name. Option.bind (jget ''model'' context) (\<lambda>m. nonempty_trimmed (jget name m)))
      in \<lparr>sel_provider = field ''provider'', sel_model = field ''id''\<rparr>)"

definition select_with :: "(u64 \<Rightarrow> json res) \<Rightarrow> json \<Rightarrow> selection" where
  "select_with lookup params = (case runtime_handle params of
     None \<Rightarrow> default_selection
   | Some handle \<Rightarrow> (case lookup handle of Inr context \<Rightarrow> selection_from_context context | Inl _ \<Rightarrow> default_selection))"

definition parent_selection :: "(u64 \<Rightarrow> json res) option \<Rightarrow> json \<Rightarrow> selection" where
  "parent_selection host params = (case host of None \<Rightarrow> default_selection | Some lookup \<Rightarrow> select_with lookup params)"

section \<open>The command\<close>

definition EXCLUDED_TOOLS :: string where "EXCLUDED_TOOLS = ''subagent,plan,dispatch''"
definition MAX_OUTPUT_BYTES :: nat where "MAX_OUTPUT_BYTES = 40000"

definition child_args :: "string option \<Rightarrow> string option \<Rightarrow> string list" where
  "child_args provider model =
     [''-p'', ''--no-session'', ''--exclude-tools'', EXCLUDED_TOOLS] @
     (case filter_opt (\<lambda>v. v \<noteq> []) provider of None \<Rightarrow> [] | Some p \<Rightarrow> [''--provider'', p]) @
     (case filter_opt (\<lambda>v. v \<noteq> []) model of None \<Rightarrow> [] | Some m \<Rightarrow> [''--model'', m])"

definition show_int :: "int \<Rightarrow> string" where
  "show_int i = (if i < 0 then ''-'' @ show_nat (nat (- i)) else show_nat (nat i))"

definition failure_message :: "int option \<Rightarrow> string option \<Rightarrow> string option \<Rightarrow> string \<Rightarrow> string" where
  "failure_message code provider model txt =
     ''subagent exited with '' @ show_int (unwrap_or (- 1) code) @ '' (selection='' @
     label \<lparr>sel_provider = provider, sel_model = model\<rparr> @ ''):'' @ [CHR 0x0A] @ txt"

section \<open>Output\<close>

definition truncation_marker :: string where
  "truncation_marker = [CHR 0x0A] @ ''[subagent output truncated]''"

definition truncate_output :: "string \<Rightarrow> string" where
  "truncate_output txt =
     (if length txt \<le> MAX_OUTPUT_BYTES then txt
      else take (floor_boundary MAX_OUTPUT_BYTES txt) txt @ truncation_marker)"

text \<open>The reader thread: the buffers it reads until the end of the stream or an error.\<close>

fun read_bounded :: "string list \<Rightarrow> string \<Rightarrow> bool \<Rightarrow> string \<times> bool" where
  "read_bounded [] kept truncated = (kept, truncated)"
| "read_bounded (buf # bufs) kept truncated =
     (if buf = [] then (kept, truncated)
      else if length kept < MAX_OUTPUT_BYTES then
        (let keep = min (length buf) (MAX_OUTPUT_BYTES - length kept)
         in read_bounded bufs (kept @ take keep buf) (truncated \<or> keep < length buf))
      else read_bounded bufs kept True)"

definition spawn_reader :: "(string \<Rightarrow> string) \<Rightarrow> string list \<Rightarrow> string" where
  "spawn_reader from_utf8_lossy bufs =
     (let (kept, truncated) = read_bounded bufs [] False
      in from_utf8_lossy kept @ (if truncated then [CHR 0x0A] @ ''[output truncated]'' else []))"

datatype received = Received string | RecvTimeout | Disconnected

fun collect_loop :: "(bool \<times> bool \<times> received) list \<Rightarrow> string res option" where
  "collect_loop [] = None"
| "collect_loop ((cancelled, expired, r) # obs) =
     (if cancelled then Some (Inl ''cancelled'')
      else if expired then Some (Inl ''subagent timed out while collecting output'')
      else (case r of
              Received txt \<Rightarrow> Some (Inr txt)
            | RecvTimeout \<Rightarrow> collect_loop obs
            | Disconnected \<Rightarrow> Some (Inr [])))"

definition collect_reader :: "bool \<Rightarrow> bool \<Rightarrow> (bool \<times> bool \<times> received) list \<Rightarrow> string res option" where
  "collect_reader cancelled has_reader obs =
     (if cancelled then Some (Inl ''cancelled'') else if \<not> has_reader then Some (Inr []) else collect_loop obs)"

section \<open>Waiting for the child\<close>

datatype waited = Exited bool "int option" | StillRunning | WaitFailed string

record poll =
  p_cancelled :: bool
  p_expired :: bool
  p_wait :: waited

definition finish_child :: "string option \<Rightarrow> string option \<Rightarrow> bool \<Rightarrow> int option \<Rightarrow> string res \<Rightarrow> string res \<Rightarrow> string res" where
  "finish_child provider model success code out err =
     bindR out (\<lambda>txt. bindR err (\<lambda>stderr.
     let txt = (if \<not> success \<and> trim stderr \<noteq> []
                then txt @ [CHR 0x0A] @ ''[stderr]'' @ [CHR 0x0A] @ trim_end stderr else txt);
         txt = truncate_output txt
     in if \<not> success then Inl (failure_message code provider model txt) else Inr txt))"

fun wait_child :: "u64 \<Rightarrow> string option \<Rightarrow> string option \<Rightarrow> string res \<Rightarrow> string res \<Rightarrow> poll list \<Rightarrow> string res option" where
  "wait_child timeout provider model out err [] = None"
| "wait_child timeout provider model out err (p # ps) =
     (if p_cancelled p then Some (Inl ''subagent cancelled'')
      else if p_expired p then Some (Inl (''subagent timed out after '' @ show_nat (unat timeout) @ ''s''))
      else (case p_wait p of
              Exited success code \<Rightarrow> Some (finish_child provider model success code out err)
            | StillRunning \<Rightarrow> wait_child timeout provider model out err ps
            | WaitFailed e \<Rightarrow> Some (Inl (''failed while waiting for subagent: '' @ e))))"

section \<open>The tool\<close>

definition string_param :: "json \<Rightarrow> string \<Rightarrow> string res" where
  "string_param params name = ok_or (''missing string parameter `'' @ name @ ''`'') (get_str name params)"

definition optional_string :: "json \<Rightarrow> string \<Rightarrow> string \<Rightarrow> string" where
  "optional_string params name dflt = unwrap_or dflt (get_str name params)"

definition optional_trimmed :: "json \<Rightarrow> string \<Rightarrow> string option" where
  "optional_trimmed params name = nonempty_trimmed (jget name params)"

definition content_only :: "string \<Rightarrow> json" where
  "content_only txt = JObj [(''content'', JArr [JObj [(''type'', JStr ''text''), (''text'', JStr txt)]])]"

text \<open>The parameter \<open>run\<close> stands for the child: task, turns, timeout, provider and model.\<close>

definition subagent :: "(string \<Rightarrow> u64 \<Rightarrow> u64 \<Rightarrow> string option \<Rightarrow> string option \<Rightarrow> string res) \<Rightarrow>
    (u64 \<Rightarrow> json res) option \<Rightarrow> bool \<Rightarrow> json \<Rightarrow> json res" where
  "subagent run host cancelled params =
     (if cancelled then Inl ''cancelled''
      else bindR (string_param params ''task'') (\<lambda>task.
        if trim task = [] then Inl ''task must not be empty''
        else if length task > MAX_TASK_BYTES
        then Inl (''task must be at most '' @ show_nat MAX_TASK_BYTES @ '' bytes'')
        else let role = optional_string params ''role'' ''worker'';
                 max_turns = clamp (get_u64 ''maxTurns'' params) DEFAULT_MAX_TURNS 1 MAX_MAX_TURNS;
                 timeout = clamp (get_u64 ''timeoutSeconds'' params) DEFAULT_TIMEOUT_SECS MIN_TIMEOUT_SECS MAX_TIMEOUT_SECS;
                 sel = effective (parent_selection host params) (optional_trimmed params ''provider'')
                         (optional_trimmed params ''model'')
             in bindR (run task max_turns timeout (sel_provider sel) (sel_model sel)) (\<lambda>output.
                Inr (content_only (''[subagent role='' @ role @ '' turns<='' @ show_nat (unat max_turns) @
                  '' timeout='' @ show_nat (unat timeout) @ ''s provider='' @ unwrap_or ''-'' (sel_provider sel) @
                  '' model='' @ unwrap_or ''-'' (sel_model sel) @ '']'' @ [CHR 0x0A] @ output)))))"

section \<open>Bounds\<close>

lemma read_bounded_eq:
  "list_all (\<lambda>b. b \<noteq> []) bufs \<Longrightarrow> length kept \<le> MAX_OUTPUT_BYTES \<Longrightarrow>
     read_bounded bufs kept truncated =
       (take MAX_OUTPUT_BYTES (kept @ concat bufs),
        truncated \<or> MAX_OUTPUT_BYTES < length kept + length (concat bufs))"
proof (induction bufs arbitrary: kept truncated)
  case (Cons buf bufs)
  show ?case
  proof (cases "length kept < MAX_OUTPUT_BYTES")
    case True
    define keep where "keep = min (length buf) (MAX_OUTPUT_BYTES - length kept)"
    have len: "length (kept @ take keep buf) \<le> MAX_OUTPUT_BYTES" using True by (simp add: keep_def)
    have eq: "read_bounded (buf # bufs) kept truncated =
        read_bounded bufs (kept @ take keep buf) (truncated \<or> keep < length buf)"
      using True Cons.prems(1) by (simp add: keep_def Let_def)
    show ?thesis
    proof (cases "keep = length buf")
      case True
      then show ?thesis unfolding eq using Cons.IH [OF _ len] Cons.prems(1) by (simp add: add.assoc)
    next
      case False
      then have "keep = MAX_OUTPUT_BYTES - length kept" "keep < length buf" by (auto simp: keep_def min_def split: if_splits)
      then show ?thesis unfolding eq using Cons.IH [OF _ len] Cons.prems(1) True
        by (simp add: add.assoc) (intro disjI2, linarith)
    qed
  next
    case False
    then have "length kept = MAX_OUTPUT_BYTES" using Cons.prems(2) by simp
    with Cons show ?thesis by simp
  qed
qed simp

lemma truncate_output_bound: "length (truncate_output txt) \<le> MAX_OUTPUT_BYTES + length truncation_marker"
  using floor_boundary_le [of MAX_OUTPUT_BYTES "txt"] by (auto simp: truncate_output_def)

lemma wait_child_Ok:
  "wait_child timeout provider model out err ps = Some (Inr txt) \<Longrightarrow>
     length txt \<le> MAX_OUTPUT_BYTES + length truncation_marker \<and> (\<exists>p\<in>set ps. \<exists>code. p_wait p = Exited True code)"
proof (induction ps)
  case (Cons p ps)
  then show ?case
    using truncate_output_bound
    by (cases "p_wait p") (auto simp: finish_child_def bindR_Inr_iff Let_def split: if_splits)
qed simp

lemma wait_child_ends:
  "p \<in> set ps \<Longrightarrow> p_cancelled p \<or> p_expired p \<Longrightarrow> wait_child timeout provider model out err ps \<noteq> None"
proof (induction ps)
  case (Cons q ps)
  then show ?case by (cases "p_wait q") auto
qed simp

end
