(* ===== verification/Orchestrator_Dispatch.thy ===== *)
theory Orchestrator_Dispatch
  imports Orchestrator_Child
begin

text \<open>
  The \<open>dispatch\<close> tool of \<open>packages/rpi-orchestrator/src/dispatch.rs\<close>: one call runs one wave of the
  graph. A wave holds the lock only at its start and at its end, so a call is the three steps
  \<open>dispatch_begin\<close>, \<open>lock_graph_for_wave\<close> before the acceptance checks, and \<open>dispatch_finish\<close>;
  other calls may run between them. Child processes, files and shell commands are parameters.
\<close>

section \<open>Bounded text\<close>

definition DEFAULT_MAX_PARALLEL :: u64 where "DEFAULT_MAX_PARALLEL = 4"
definition MAX_PARALLEL_CAP :: u64 where "MAX_PARALLEL_CAP = 16"
definition RESULT_SUMMARY_BYTES :: nat where "RESULT_SUMMARY_BYTES = 2000"
definition MIN_VERIFY_SECS :: u64 where "MIN_VERIFY_SECS = 10"

definition summarize :: "string \<Rightarrow> string" where
  "summarize txt =
     (if length txt \<le> RESULT_SUMMARY_BYTES then txt
      else take (floor_boundary RESULT_SUMMARY_BYTES txt) txt @ ellipsis)"

definition truncate_detail :: "string \<Rightarrow> string" where
  "truncate_detail txt =
     (if length txt \<le> 2000 then trim txt
      else trim_end (take (floor_boundary 2000 txt) txt) @ ellipsis)"

section \<open>Running a wave\<close>

record wave =
  wv_session :: "string option"
  wv_generation :: u64
  wv_graph :: graph
  wv_ready :: "string list"
  wv_parallel :: nat

type_synonym outcomes = "(string \<times> string res) list"

fun chunks :: "nat \<Rightarrow> 'a list \<Rightarrow> 'a list list" where
  "chunks n [] = []"
| "chunks n (x # xs) = take (max n 1) (x # xs) # chunks n (drop (max n 1) (x # xs))"

text \<open>
  One child for each node of a chunk, joined in order; a child that returns \<open>None\<close> is a thread that
  panicked. A chunk that starts runs to its end. The token is read before and after each chunk, and
  \<open>polls\<close> gives the two readings at the chunk of a number. Looking up a ready node that is missing
  panics, which is \<open>None\<close> here.
\<close>

type_synonym child = "node \<Rightarrow> selection \<Rightarrow> string res option"

definition run_node :: "child \<Rightarrow> selection \<Rightarrow> graph \<Rightarrow> string \<Rightarrow> (string \<times> string res) option" where
  "run_node child parent g i = map_option
     (\<lambda>n. (i, unwrap_or (Inl ''subagent thread panicked'') (child n (effective parent (n_provider n) (n_model n)))))
     (get_node i g)"

fun run_chunks :: "(string \<Rightarrow> (string \<times> string res) option) \<Rightarrow> (nat \<Rightarrow> bool \<times> bool) \<Rightarrow> nat \<Rightarrow>
    string list list \<Rightarrow> outcomes option" where
  "run_chunks run polls k [] = Some []"
| "run_chunks run polls k (c # cs) =
     (if fst (polls k) then Some []
      else Option.bind (those (map run c)) (\<lambda>os.
        if snd (polls k) then Some os
        else map_option (\<lambda>rest. os @ rest) (run_chunks run polls (Suc k) cs)))"

definition run_wave :: "child \<Rightarrow> selection \<Rightarrow> (nat \<Rightarrow> bool \<times> bool) \<Rightarrow> wave \<Rightarrow> outcomes option" where
  "run_wave child parent polls w =
     run_chunks (run_node child parent (wv_graph w)) polls 0 (chunks (wv_parallel w) (wv_ready w))"

section \<open>Acceptance checks\<close>

definition verify_node :: "(string \<Rightarrow> bool) \<Rightarrow> (string \<Rightarrow> u64 \<Rightarrow> unit res) \<Rightarrow>
    string option \<Rightarrow> string option \<Rightarrow> u64 \<Rightarrow> unit res" where
  "verify_node file_exists shell expect_file verify timeout =
     bindR (case expect_file of None \<Rightarrow> Inr () | Some file \<Rightarrow>
              if file_exists file then Inr () else Inl (''expected file was not produced: '' @ file)) (\<lambda>_.
     case verify of None \<Rightarrow> Inr () | Some command \<Rightarrow> shell command timeout)"

definition verify_outcome :: "(string \<Rightarrow> bool) \<Rightarrow> (string \<Rightarrow> u64 \<Rightarrow> unit res) \<Rightarrow> graph \<Rightarrow>
    string \<times> string res \<Rightarrow> string \<times> string res \<times> unit res" where
  "verify_outcome file_exists shell snapshot = (\<lambda>(i, outcome).
     let spec = get_node i snapshot
     in (i, outcome, case outcome of Inl _ \<Rightarrow> Inr ()
          | Inr _ \<Rightarrow> verify_node file_exists shell (Option.bind spec n_expect_file) (Option.bind spec n_verify)
                       (unwrap_or MIN_VERIFY_SECS (map_option n_timeout_secs spec))))"

section \<open>The tool\<close>

definition set_status :: "node_status \<Rightarrow> node \<Rightarrow> node" where
  "set_status s n = n\<lparr>n_status := s\<rparr>"

definition max_parallel_of :: "json \<Rightarrow> nat" where
  "max_parallel_of params = unat (clamp (get_u64 ''maxParallel'' params) DEFAULT_MAX_PARALLEL 1 MAX_PARALLEL_CAP)"

definition dispatch_begin :: "bool \<Rightarrow> json \<Rightarrow> gstate \<Rightarrow> (gstate \<times> (json res + wave)) option" where
  "dispatch_begin cancelled params st =
     (if cancelled then Some (st, Inl (Inl ''cancelled''))
      else Option.bind (lock_graph params st) (\<lambda>st.
        let g = gs_graph st; ready_ids = ready g
        in if is_running st
           then Some (st, Inl (Inl ''dispatch is already running: wait for the current wave to finish''))
           else if g = [] then Some (st, Inl (Inl ''no plan yet: call plan(action=set, nodes=[...]) first''))
           else if ready_ids = [] then
             (if has_pending g
              then Some (st, Inl (Inl (''no progress: no pending node is ready (blocked by unmet dependencies): '' @
                     join '', '' (pending_ids g))))
              else Some (st, Inl (Inr (result_with_details
                     (''nothing left to dispatch'' @ [CHR 0x0A, CHR 0x0A] @ render_graph g) (to_details g)))))
           else let g' = fold (\<lambda>i. update_node i (set_status Running)) ready_ids g
                in Some (st\<lparr>gs_graph := g'\<rparr>,
                     Inr \<lparr>wv_session = session_of params, wv_generation = gs_generation st, wv_graph = g',
                          wv_ready = ready_ids, wv_parallel = max_parallel_of params\<rparr>)))"

definition settle_node :: "string res \<Rightarrow> unit res \<Rightarrow> node \<Rightarrow> node" where
  "settle_node outcome verified n =
     (case outcome of
        Inr txt \<Rightarrow> (case verified of
            Inr _ \<Rightarrow> n\<lparr>n_status := Done, n_result := Some (summarize txt)\<rparr>
          | Inl reason \<Rightarrow> n\<lparr>n_status := Failed,
                n_result := Some (summarize (reason @ [CHR 0x0A] @ ''---'' @ [CHR 0x0A] @ txt))\<rparr>)
      | Inl error \<Rightarrow> n\<lparr>n_status := Failed, n_result := Some (summarize error)\<rparr>)"

definition apply_outcomes :: "string list \<Rightarrow> (string \<times> string res \<times> unit res) list \<Rightarrow> graph \<Rightarrow> graph" where
  "apply_outcomes ready_ids os g =
     (let started = map fst os;
          g = fold (\<lambda>i. update_node i (set_status Pending)) (filter (\<lambda>i. i \<notin> set started) ready_ids) g;
          g = fold (\<lambda>(i, outcome, verified). update_node i (settle_node outcome verified)) os g
      in propagate_skips g)"

definition dispatch_finish :: "wave \<Rightarrow> (string \<times> string res \<times> unit res) list \<Rightarrow> gstate \<Rightarrow> gstate \<times> json res" where
  "dispatch_finish w os st =
     (case lock_graph_for_wave (wv_session w) (wv_generation w) st of
        Inl e \<Rightarrow> (st, Inl e)
      | Inr _ \<Rightarrow>
          let g = apply_outcomes (wv_ready w) os (gs_graph st)
          in (st\<lparr>gs_graph := g\<rparr>, Inr (result_with_details
                (''dispatched '' @ show_nat (length (remdups (map fst os))) @ '' node(s)'' @
                   [CHR 0x0A, CHR 0x0A] @ render_graph g) (to_details g))))"

text \<open>A call that no other call interrupts; \<open>run\<close> is the runner it is given.\<close>

definition dispatch_with :: "(wave \<Rightarrow> outcomes option) \<Rightarrow> (string \<Rightarrow> bool) \<Rightarrow> (string \<Rightarrow> u64 \<Rightarrow> unit res) \<Rightarrow>
    bool \<Rightarrow> json \<Rightarrow> gstate \<Rightarrow> (gstate \<times> json res) option" where
  "dispatch_with run file_exists shell cancelled params st =
     Option.bind (dispatch_begin cancelled params st) (\<lambda>(st, step). case step of
         Inl reply \<Rightarrow> Some (st, reply)
       | Inr w \<Rightarrow> map_option (\<lambda>os.
           case lock_graph_for_wave (wv_session w) (wv_generation w) st of
             Inl e \<Rightarrow> (st, Inl e)
           | Inr _ \<Rightarrow> dispatch_finish w (map (verify_outcome file_exists shell (wv_graph w)) os) st) (run w))"

definition dispatch :: "child \<Rightarrow> (u64 \<Rightarrow> json res) option \<Rightarrow> (nat \<Rightarrow> bool \<times> bool) \<Rightarrow> (string \<Rightarrow> bool) \<Rightarrow>
    (string \<Rightarrow> u64 \<Rightarrow> unit res) \<Rightarrow> bool \<Rightarrow> json \<Rightarrow> gstate \<Rightarrow> (gstate \<times> json res) option" where
  "dispatch child host polls file_exists shell cancelled params st =
     dispatch_with (run_wave child (parent_selection host params) polls) file_exists shell cancelled params st"

section \<open>Updates of distinct nodes\<close>

lemma update_node_map:
  "distinct_ids g \<Longrightarrow> update_node i f g = map (\<lambda>n. if n_id n = i then f n else n) g"
proof (induction g)
  case (Cons n g)
  then show ?case
    by (auto simp: distinct_ids_def update_node_def image_iff intro!: map_idI [symmetric])
qed (simp add: distinct_ids_def update_node_def)

text \<open>A list of updates, at most one for each node.\<close>

definition updated :: "(string \<times> (node \<Rightarrow> node)) list \<Rightarrow> node \<Rightarrow> node" where
  "updated ops n = (case map_of ops (n_id n) of None \<Rightarrow> n | Some f \<Rightarrow> f n)"

lemma fold_updates:
  assumes "distinct (map fst ops)" and "distinct_ids g" and "\<And>i f n. (i, f) \<in> set ops \<Longrightarrow> n_id (f n) = n_id n"
  shows "fold (\<lambda>(i, f). update_node i f) ops g = map (updated ops) g"
  using assms
proof (induction ops arbitrary: g)
  case Nil
  show ?case by (simp add: updated_def)
next
  case (Cons op ops)
  obtain i f where op: "op = (i, f)" by (cases op)
  have keep: "n_id (f n) = n_id n" for n using Cons.prems(3) [of i f] by (simp add: op)
  have g1: "update_node i f g = map (\<lambda>n. if n_id n = i then f n else n) g"
    using Cons.prems(2) by (rule update_node_map)
  have ids: "distinct_ids (update_node i f g)"
    using Cons.prems(2) by (simp add: g1 distinct_ids_def comp_def if_distrib [of n_id] keep cong: if_cong)
  have fresh: "map_of ops i = None" using Cons.prems(1) by (simp add: op map_of_eq_None_iff)
  have "updated ops (if n_id n = i then f n else n) = updated (op # ops) n" for n
    using fresh by (simp add: updated_def op keep)
  moreover have "fold (\<lambda>(i, f). update_node i f) ops (update_node i f g) = map (updated ops) (update_node i f g)"
    using Cons.prems ids by (intro Cons.IH) (auto simp: op)
  ultimately show ?case by (simp add: op g1)
qed

lemma fold_same_update:
  assumes "distinct is" and "distinct_ids g" and "\<And>n. n_id (f n) = n_id n"
  shows "fold (\<lambda>i. update_node i f) is g = map (\<lambda>n. if n_id n \<in> set is then f n else n) g"
proof -
  have "fold (\<lambda>i. update_node i f) is g = fold (\<lambda>(i, f). update_node i f) (map (\<lambda>i. (i, f)) is) g"
    by (simp add: fold_map comp_def)
  also have "\<dots> = map (updated (map (\<lambda>i. (i, f)) is)) g"
    using assms by (intro fold_updates) (auto simp: comp_def)
  also have "\<dots> = map (\<lambda>n. if n_id n \<in> set is then f n else n) g"
    by (simp add: updated_def map_of_map_restrict restrict_map_def)
  finally show ?thesis .
qed

end
