(* ===== verification/Orchestrator_Waves.thy ===== *)
theory Orchestrator_Waves
  imports Orchestrator_Dispatch
begin

text \<open>
  Waves and the other calls, interleaved: a step relation on the state and the waves in flight, its
  invariant, and what follows for a wave that comes back: it changes nothing when the plan moved on,
  and otherwise it meets exactly the graph it left. The last part shows that dispatching makes
  progress and comes to an end.
\<close>

section \<open>The parts of a wave\<close>

lemma set_status_simps [simp]:
  "n_id (set_status s n) = n_id n" "n_deps (set_status s n) = n_deps n" "n_status (set_status s n) = s"
  by (simp_all add: set_status_def)

lemma settle_node_simps [simp]:
  "n_id (settle_node r v n) = n_id n" "n_deps (settle_node r v n) = n_deps n"
  by (auto simp: settle_node_def split: sum.splits)

lemma settle_node_status: "n_status (settle_node r v n) = Done \<or> n_status (settle_node r v n) = Failed"
  by (auto simp: settle_node_def split: sum.splits)

lemma ready_distinct: "distinct_ids g \<Longrightarrow> distinct (ready g)"
  by (auto simp: ready_def distinct_ids_def distinct_map intro: inj_on_subset)

lemma ready_ids: "set (ready g) \<subseteq> n_id ` set g"
  by (auto simp: ready_def)

lemma shape_propagate [simp]: "shape (propagate_skips g) = shape g"
  unfolding propagate_skips_map by (rule shape_map) (simp add: skip_if_def)

lemma mark_running:
  assumes "distinct_ids g"
  shows "fold (\<lambda>i. update_node i (set_status Running)) (ready g) g =
    map (\<lambda>n. if n_id n \<in> set (ready g) then set_status Running n else n) g"
  using assms by (intro fold_same_update ready_distinct) auto

definition resolve :: "string list \<Rightarrow> (string \<times> string res \<times> unit res) list \<Rightarrow> node \<Rightarrow> node" where
  "resolve ready_ids os n =
     (if n_id n \<in> set ready_ids then
        (case map_of os (n_id n) of None \<Rightarrow> set_status Pending n | Some (r, v) \<Rightarrow> settle_node r v n)
      else n)"

lemma resolve_simps [simp]: "n_id (resolve is os n) = n_id n" "n_deps (resolve is os n) = n_deps n"
  by (auto simp: resolve_def split: option.splits)

lemma apply_outcomes_eq:
  assumes "distinct_ids g" and "distinct is" and "distinct (map fst os)" and "set (map fst os) \<subseteq> set is"
  shows "apply_outcomes is os g = propagate_skips (map (resolve is os) g)"
proof -
  define pend where "pend = filter (\<lambda>i. i \<notin> set (map fst os)) is"
  define g1 where "g1 = map (\<lambda>n. if n_id n \<in> set pend then set_status Pending n else n) g"
  define ops where "ops = map (\<lambda>(i, r, v). (i, settle_node r v)) os"
  have pending: "fold (\<lambda>i. update_node i (set_status Pending)) pend g = g1"
    unfolding g1_def using assms(1,2) by (intro fold_same_update) (auto simp: pend_def)
  have ids: "distinct_ids g1"
    using assms(1) by (simp add: g1_def distinct_ids_def comp_def if_distrib [of n_id] cong: if_cong)
  have "fold (\<lambda>(i, r, v). update_node i (settle_node r v)) os g1 = fold (\<lambda>(i, f). update_node i f) ops g1"
    by (simp add: ops_def fold_map comp_def case_prod_unfold)
  also have "\<dots> = map (updated ops) g1"
    using assms(3) ids by (intro fold_updates) (auto simp: ops_def comp_def case_prod_unfold)
  also have "\<dots> = map (resolve is os) g"
  proof -
    have look: "map_of ops i = map_option (\<lambda>(r, v). settle_node r v) (map_of os i)" for i
      unfolding ops_def by (induction os) auto
    have "updated ops (if n_id n \<in> set pend then set_status Pending n else n) = resolve is os n" for n
    proof (cases "map_of os (n_id n)")
      case None
      moreover from this have "n_id n \<notin> set (map fst os)" by (simp add: map_of_eq_None_iff)
      ultimately show ?thesis by (auto simp: updated_def look resolve_def pend_def)
    next
      case (Some rv)
      then have "n_id n \<in> set (map fst os)" by (force dest: map_of_SomeD)
      with assms(4) Some show ?thesis by (cases rv) (auto simp: updated_def look resolve_def pend_def)
    qed
    then show ?thesis by (simp add: g1_def)
  qed
  finally show ?thesis unfolding apply_outcomes_def Let_def pend_def [symmetric] pending by simp
qed

section \<open>What starting a wave does\<close>

lemma begin_wave:
  assumes "dispatch_begin c params st = Some (st', Inr w)"
  obtains st1 where "lock_graph params st = Some st1" "\<not> is_running st1" "ready (gs_graph st1) \<noteq> []"
    "w = \<lparr>wv_session = session_of params, wv_generation = gs_generation st1,
       wv_graph = fold (\<lambda>i. update_node i (set_status Running)) (ready (gs_graph st1)) (gs_graph st1),
       wv_ready = ready (gs_graph st1), wv_parallel = max_parallel_of params\<rparr>"
    "st' = st1\<lparr>gs_graph := wv_graph w\<rparr>"
proof (cases "lock_graph params st")
  case None
  with assms show ?thesis by (simp add: dispatch_begin_def split: if_splits)
next
  case (Some st1)
  with assms show ?thesis by (intro that [of st1]) (auto simp: dispatch_begin_def Let_def split: if_splits)
qed

lemma begin_reply:
  assumes "dispatch_begin c params st = Some (st', Inl r)"
  shows "st' = st \<or> lock_graph params st = Some st'"
proof (cases "lock_graph params st")
  case None
  with assms show ?thesis by (simp add: dispatch_begin_def split: if_splits)
next
  case (Some st1)
  with assms show ?thesis by (auto simp: dispatch_begin_def Let_def split: if_splits)
qed

lemma begin_open:
  assumes "session_of params = gs_session st" and "\<not> is_running st" and "gs_graph st \<noteq> []"
  shows "dispatch_begin False params st =
    (if ready (gs_graph st) \<noteq> [] then
       let g' = fold (\<lambda>i. update_node i (set_status Running)) (ready (gs_graph st)) (gs_graph st)
       in Some (st\<lparr>gs_graph := g'\<rparr>, Inr \<lparr>wv_session = session_of params, wv_generation = gs_generation st,
            wv_graph = g', wv_ready = ready (gs_graph st), wv_parallel = max_parallel_of params\<rparr>)
     else if has_pending (gs_graph st)
     then Some (st, Inl (Inl (''no progress: no pending node is ready (blocked by unmet dependencies): '' @
            join '', '' (pending_ids (gs_graph st)))))
     else Some (st, Inl (Inr (result_with_details
            (''nothing left to dispatch'' @ [CHR 0x0A, CHR 0x0A] @ render_graph (gs_graph st))
            (to_details (gs_graph st))))))"
  using assms by (simp add: dispatch_begin_def lock_graph_def Let_def)

section \<open>The step relation\<close>

inductive orch_step :: "gstate \<times> wave list \<Rightarrow> gstate \<times> wave list \<Rightarrow> bool" where
  plan_call: "plan c params st = Some (st', r) \<Longrightarrow> orch_step (st, ws) (st', ws)"
| wave_begun: "dispatch_begin c params st = Some (st', Inr w) \<Longrightarrow> orch_step (st, ws) (st', w # ws)"
| wave_refused: "dispatch_begin c params st = Some (st', Inl r) \<Longrightarrow> orch_step (st, ws) (st', ws)"
| wave_stale: "lock_graph_for_wave (wv_session w) (wv_generation w) st = Inl e \<Longrightarrow>
    orch_step (st, us @ w # vs) (st, us @ vs)"
| wave_finished: "distinct (map fst os) \<Longrightarrow> set (map fst os) \<subseteq> set (wv_ready w) \<Longrightarrow>
    dispatch_finish w os st = (st', r) \<Longrightarrow> orch_step (st, us @ w # vs) (st', us @ vs)"

inductive_cases orch_stepE: "orch_step (st, ws) (st', ws')"

inductive orch_reachable :: "gstate \<times> wave list \<Rightarrow> bool" where
  orch_start: "orch_reachable (initial_gstate, [])"
| orch_next: "orch_reachable s \<Longrightarrow> orch_step s t \<Longrightarrow> orch_reachable t"

text \<open>A wave of the current generation has met no other change of the graph.\<close>

definition current :: "gstate \<Rightarrow> wave \<Rightarrow> bool" where
  "current st w \<longleftrightarrow> wv_generation w = gs_generation st"

definition holds_graph :: "gstate \<Rightarrow> wave \<Rightarrow> bool" where
  "holds_graph st w \<longleftrightarrow> wv_session w = gs_session st \<and> wv_graph w = gs_graph st \<and>
     wv_ready w \<noteq> [] \<and> distinct (wv_ready w) \<and> set (wv_ready w) \<subseteq> n_id ` set (gs_graph st) \<and>
     (\<forall>n\<in>set (gs_graph st). n_status n = Running \<longleftrightarrow> n_id n \<in> set (wv_ready w))"

definition orch_inv :: "gstate \<times> wave list \<Rightarrow> bool" where
  "orch_inv = (\<lambda>(st, ws). dag (gs_graph st) \<and>
     (\<forall>w\<in>set ws. unat (wv_generation w) \<le> unat (gs_generation st)) \<and>
     (\<forall>w\<in>set ws. current st w \<longrightarrow> holds_graph st w) \<and>
     (is_running st \<longleftrightarrow> filter (current st) ws \<noteq> []) \<and>
     length (filter (current st) ws) \<le> 1)"

lemma holds_graph_running: "holds_graph st w \<Longrightarrow> is_running st"
proof -
  assume h: "holds_graph st w"
  then obtain i where "i \<in> set (wv_ready w)" by (cases "wv_ready w") (auto simp: holds_graph_def)
  with h obtain n where "n \<in> set (gs_graph st)" "n_id n = i" by (auto simp: holds_graph_def)
  with h \<open>i \<in> _\<close> show ?thesis by (auto simp: is_running_def list_ex_iff holds_graph_def)
qed

text \<open>A change of the generation makes every wave stale, so nothing may be running then.\<close>

lemma orch_inv_newer:
  assumes "orch_inv (st, ws)" and "unat (gs_generation st) < unat (gs_generation st')"
    and "dag (gs_graph st')" and "\<not> is_running st'"
  shows "orch_inv (st', ws)"
proof -
  have stale: "\<not> current st' w" if "w \<in> set ws" for w
    using assms(1,2) that by (fastforce simp: orch_inv_def current_def)
  then have "filter (current st') ws = []" by (simp add: filter_empty_conv)
  then show ?thesis using assms stale by (fastforce simp: orch_inv_def)
qed


lemma orch_inv_stale:
  assumes "orch_inv (st, us @ w # vs)" and "\<not> current st w"
  shows "orch_inv (st, us @ vs)"
  using assms by (auto simp: orch_inv_def)

lemma current_wave:
  assumes "orch_inv (st, us @ w # vs)" and "current st w"
  shows "holds_graph st w \<and> dag (gs_graph st) \<and> filter (current st) (us @ vs) = []"
  using assms by (auto simp: orch_inv_def)

lemma orch_inv_plan:
  assumes "orch_inv (st, ws)" and "plan c params st = Some (st', r)"
  shows "orch_inv (st', ws)"
proof -
  have "dag (gs_graph st)" using assms(1) by (simp add: orch_inv_def)
  from plan_cases [OF assms(2) this] assms(1) show ?thesis using orch_inv_newer by blast
qed

lemma orch_inv_lock:
  assumes "orch_inv (st, ws)" and "lock_graph params st = Some st'"
  shows "orch_inv (st', ws)"
proof (cases "st' = st")
  case False
  then have newer: "unat (gs_generation st') = unat (gs_generation st) + 1" "gs_graph st' = []"
    using lock_graph_cases [OF assms(2)] by auto
  show ?thesis using assms(1) by (rule orch_inv_newer) (simp_all add: newer is_running_def)
qed (use assms(1) in simp)

lemma dag_map: "dag g \<Longrightarrow> (\<And>n. n_id (f n) = n_id n \<and> n_deps (f n) = n_deps n) \<Longrightarrow> dag (map f g)"
  using dag_cong [OF shape_map] by blast

lemma orch_inv_begin:
  assumes "orch_inv (st, ws)" and "dispatch_begin c params st = Some (st', Inr w)"
  shows "orch_inv (st', w # ws)"
  using assms(2)
proof (rule begin_wave)
  fix st1
  assume lock: "lock_graph params st = Some st1" and idle: "\<not> is_running st1"
    and ready: "ready (gs_graph st1) \<noteq> []"
    and w: "w = \<lparr>wv_session = session_of params, wv_generation = gs_generation st1,
       wv_graph = fold (\<lambda>i. update_node i (set_status Running)) (ready (gs_graph st1)) (gs_graph st1),
       wv_ready = ready (gs_graph st1), wv_parallel = max_parallel_of params\<rparr>"
    and st': "st' = st1\<lparr>gs_graph := wv_graph w\<rparr>"
  have inv: "orch_inv (st1, ws)" using assms(1) lock by (rule orch_inv_lock)
  then have dag: "dag (gs_graph st1)" by (simp add: orch_inv_def)
  then have ids: "distinct_ids (gs_graph st1)" by (simp add: dag_def)
  have g: "wv_graph w = map (\<lambda>n. if n_id n \<in> set (ready (gs_graph st1)) then set_status Running n else n) (gs_graph st1)"
    using mark_running [OF ids] by (simp add: w)
  have graph: "gs_graph st' = map (\<lambda>n. if n_id n \<in> set (ready (gs_graph st1)) then set_status Running n else n) (gs_graph st1)"
    and wready: "wv_ready w = ready (gs_graph st1)" by (simp add: st' g) (simp add: w)
  have dag': "dag (gs_graph st')" unfolding graph using dag by (rule dag_map) simp
  have "n_status n \<noteq> Running" if "n \<in> set (gs_graph st1)" for n
    using idle that by (auto simp: is_running_def list_ex_iff)
  then have running: "n_status n = Running \<longleftrightarrow> n_id n \<in> set (wv_ready w)" if "n \<in> set (gs_graph st')" for n
    using that unfolding graph wready by (auto split: if_splits)
  have "wv_session w = gs_session st'" "wv_graph w = gs_graph st'"
    using lock_graph_cases [OF lock] by (simp_all add: st' w)
  moreover have "n_id ` set (gs_graph st') = n_id ` set (gs_graph st1)"
  proof -
    have "map n_id (gs_graph st') = map n_id (gs_graph st1)" by (simp add: graph)
    then have "set (map n_id (gs_graph st')) = set (map n_id (gs_graph st1))" by (simp only:)
    then show ?thesis by simp
  qed
  ultimately have holds: "holds_graph st' w"
    using ready ready_distinct [OF ids] ready_ids [of "gs_graph st1"] running
    unfolding holds_graph_def wready by simp
  have gen: "gs_generation st' = gs_generation st1" "current st' v = current st1 v" for v
    by (simp_all add: st' current_def)
  have none: "filter (current st1) ws = []" using inv idle by (simp add: orch_inv_def)
  then have "\<forall>v\<in>set ws. \<not> current st1 v" by (simp add: filter_empty_conv)
  moreover have "current st' w" by (simp add: current_def st' w)
  moreover have "is_running st'" using holds by (rule holds_graph_running)
  moreover have "\<forall>v\<in>set ws. unat (wv_generation v) \<le> unat (gs_generation st')" using inv gen by (simp add: orch_inv_def)
  moreover have "wv_generation w = gs_generation st'" by (simp add: st' w)
  moreover have "filter (current st') ws = []" using none gen(2) by (simp add: filter_empty_conv)
  ultimately show "orch_inv (st', w # ws)"
    unfolding orch_inv_def prod.case using dag' holds gen(2) by auto
qed

section \<open>A wave that comes back\<close>

definition wave_result :: "wave \<Rightarrow> (string \<times> string res \<times> unit res) list \<Rightarrow> graph" where
  "wave_result w os = propagate_skips (map (resolve (wv_ready w) os) (wv_graph w))"

lemma finish_current:
  assumes "holds_graph st w" and "dag (gs_graph st)" and "current st w"
    and "distinct (map fst os)" and "set (map fst os) \<subseteq> set (wv_ready w)"
  shows "\<exists>reply. dispatch_finish w os st = (st\<lparr>gs_graph := wave_result w os\<rparr>, Inr reply)"
proof -
  have "lock_graph_for_wave (wv_session w) (wv_generation w) st = Inr ()"
    using assms(1,3) by (simp add: lock_graph_for_wave_def holds_graph_def current_def)
  moreover have "apply_outcomes (wv_ready w) os (gs_graph st) = wave_result w os"
    unfolding wave_result_def using assms(1,2,4,5)
    by (subst apply_outcomes_eq) (auto simp: holds_graph_def dag_def)
  ultimately show ?thesis by (simp add: dispatch_finish_def Let_def)
qed

lemma finish_stale: "\<not> current st w \<Longrightarrow> \<exists>e. dispatch_finish w os st = (st, Inl e)"
  by (simp add: dispatch_finish_def lock_graph_for_wave_def current_def)

lemma resolve_not_running:
  assumes "holds_graph st w" and "n \<in> set (gs_graph st)"
  shows "n_status (resolve (wv_ready w) os n) \<noteq> Running"
proof (cases "n_id n \<in> set (wv_ready w)")
  case True
  then show ?thesis
    using settle_node_status by (auto simp: resolve_def split: option.splits) (metis node_status.distinct)+
next
  case False
  with assms show ?thesis by (simp add: resolve_def holds_graph_def)
qed

lemma wave_result_settled:
  assumes "holds_graph st w" and "dag (gs_graph st)"
  shows "dag (wave_result w os) \<and> settled (wave_result w os)"
proof -
  have w: "wv_graph w = gs_graph st" using assms(1) by (simp add: holds_graph_def)
  have dag: "dag (map (resolve (wv_ready w) os) (wv_graph w))"
    using assms(2) unfolding w by (rule dag_map) simp
  have "n_status n \<noteq> Running" if "n \<in> set (wave_result w os)" for n
    using that resolve_not_running [OF assms(1)]
    by (auto simp: wave_result_def w propagate_skips_map skip_if_def split: if_splits)
  moreover have "n_status m \<noteq> Failed \<and> n_status m \<noteq> Skipped"
    if "n \<in> set (wave_result w os)" "m \<in> set (wave_result w os)" "n_status n = Pending" "n_id m \<in> set (n_deps n)" for n m
    using that unfolding wave_result_def by (blast dest: propagate_skips_settled)
  moreover have "dag (wave_result w os)"
    using dag dag_cong [OF shape_propagate] unfolding wave_result_def by blast
  ultimately show ?thesis by (auto simp: settled_def)
qed

lemma orch_inv_finish:
  assumes "orch_inv (st, us @ w # vs)" and "distinct (map fst os)" and "set (map fst os) \<subseteq> set (wv_ready w)"
    and "dispatch_finish w os st = (st', r)"
  shows "orch_inv (st', us @ vs)"
proof (cases "current st w")
  case False
  with assms(1,4) finish_stale [OF False, of os] show ?thesis using orch_inv_stale by auto
next
  case True
  have h: "holds_graph st w" "dag (gs_graph st)" and none: "filter (current st) (us @ vs) = []"
    using current_wave [OF assms(1) True] by simp_all
  have st': "st' = st\<lparr>gs_graph := wave_result w os\<rparr>"
    using finish_current [OF h True assms(2,3)] assms(4) by auto
  have cur: "current st' v = current st v" for v by (simp add: st' current_def)
  have "dag (gs_graph st')" "\<not> is_running st'"
    using wave_result_settled [OF h, of os] by (auto simp: st' settled_def is_running_def list_ex_iff)
  moreover have "\<forall>v\<in>set (us @ vs). unat (wv_generation v) \<le> unat (gs_generation st')"
    using assms(1) by (auto simp: orch_inv_def st')
  moreover have "filter (current st') (us @ vs) = []" using none cur by (simp add: filter_empty_conv)
  ultimately show ?thesis unfolding orch_inv_def prod.case by (auto simp: filter_empty_conv)
qed

lemma orch_inv_step: "orch_step s t \<Longrightarrow> orch_inv s \<Longrightarrow> orch_inv t"
proof (induction rule: orch_step.induct)
  case (plan_call c params st st' r ws)
  then show ?case using orch_inv_plan by blast
next
  case (wave_begun c params st st' w ws)
  then show ?case using orch_inv_begin by blast
next
  case (wave_refused c params st st' r ws)
  then show ?case using begin_reply orch_inv_lock by blast
next
  case (wave_stale w st e us vs)
  show ?case
  proof (cases "current st w")
    case True
    with wave_stale have "holds_graph st w" using current_wave by blast
    with True wave_stale show ?thesis by (auto simp: lock_graph_for_wave_def holds_graph_def current_def)
  next
    case False
    with wave_stale show ?thesis using orch_inv_stale by blast
  qed
next
  case (wave_finished os w st st' r us vs)
  then show ?case using orch_inv_finish by blast
qed

lemma orch_reachable_inv: "orch_reachable s \<Longrightarrow> orch_inv s"
proof (induction rule: orch_reachable.induct)
  case orch_start
  show ?case by (simp add: orch_inv_def initial_gstate_def is_running_def)
next
  case (orch_next s t)
  then show ?case using orch_inv_step by blast
qed

section \<open>Safety of interleaved waves\<close>

text \<open>
  C18. Whatever calls interleave, the plan stays a graph that can be scheduled, and no node is stranded:
  a running node always belongs to a wave still in flight that will settle it, there is at most one
  such wave, and the graph is still the one this wave started from.
\<close>

theorem running_nodes_have_their_wave:
  assumes "orch_reachable (st, ws)"
  shows "dag (gs_graph st) \<and> length (filter (current st) ws) \<le> 1 \<and>
    (\<forall>n\<in>set (gs_graph st). n_status n = Running \<longrightarrow>
      (\<exists>w\<in>set ws. current st w \<and> n_id n \<in> set (wv_ready w) \<and> wv_graph w = gs_graph st))"
proof -
  have inv: "orch_inv (st, ws)" using assms by (rule orch_reachable_inv)
  have "\<exists>w\<in>set ws. current st w \<and> n_id n \<in> set (wv_ready w) \<and> wv_graph w = gs_graph st"
    if n: "n \<in> set (gs_graph st)" "n_status n = Running" for n
  proof -
    have "is_running st" using n by (auto simp: is_running_def list_ex_iff)
    with inv obtain w where w: "w \<in> set ws" "current st w" by (auto simp: orch_inv_def filter_empty_conv)
    with inv have "holds_graph st w" by (simp add: orch_inv_def)
    with n w show ?thesis by (auto simp: holds_graph_def)
  qed
  with inv show ?thesis by (simp add: orch_inv_def)
qed

text \<open>
  C19. The results of a wave reach only the plan they were computed for: when the plan or the session
  changed in the meantime, even to another one and back with the same node ids, the call reports it
  and leaves the state alone; otherwise the graph is the wave's snapshot and each of its nodes is
  settled from its own outcome.
\<close>

theorem stale_wave_changes_nothing:
  assumes "orch_reachable (st, us @ w # vs)" and "distinct (map fst os)" and "set (map fst os) \<subseteq> set (wv_ready w)"
    and "dispatch_finish w os st = (st', r)"
  shows "(st' = st \<and> \<not> is_ok r \<and> wv_generation w \<noteq> gs_generation st) \<or>
    (is_ok r \<and> gs_graph st = wv_graph w \<and> gs_session st = wv_session w \<and>
     st' = st\<lparr>gs_graph := propagate_skips (map (resolve (wv_ready w) os) (gs_graph st))\<rparr>)"
proof (cases "current st w")
  case False
  with finish_stale [OF False, of os] assms(4) show ?thesis by (auto simp: current_def)
next
  case True
  have h: "holds_graph st w" "dag (gs_graph st)"
    using current_wave [OF orch_reachable_inv [OF assms(1)] True] by simp_all
  from finish_current [OF h True assms(2,3)] assms(4) h show ?thesis
    by (auto simp: wave_result_def holds_graph_def)
qed

text \<open>
  C20. An accepted wave never leads to a dead end: afterwards no node runs and no pending node waits for
  a failed or skipped one, so the next call of the session starts a wave with at least one node while
  nodes are pending, and reports that nothing is left otherwise; it does not answer that no
  progress is possible.
\<close>

theorem accepted_wave_leaves_progress:
  assumes "orch_reachable (st, us @ w # vs)" and "distinct (map fst os)" and "set (map fst os) \<subseteq> set (wv_ready w)"
    and "dispatch_finish w os st = (st', Inr reply)" and "session_of params = gs_session st'"
  shows "settled (gs_graph st') \<and>
    (if has_pending (gs_graph st')
     then \<exists>st'' w'. dispatch_begin False params st' = Some (st'', Inr w') \<and> wv_ready w' \<noteq> []
     else \<exists>answer. dispatch_begin False params st' = Some (st', Inl (Inr answer)))"
proof -
  have cur: "current st w" using finish_stale [of st w os] assms(4) by fastforce
  have h: "holds_graph st w" "dag (gs_graph st)"
    using current_wave [OF orch_reachable_inv [OF assms(1)] cur] by simp_all
  from finish_current [OF h cur assms(2,3)] assms(4) have g: "gs_graph st' = wave_result w os" by auto
  have good: "dag (gs_graph st')" "settled (gs_graph st')"
    using wave_result_settled [OF h, of os] by (simp_all add: g)
  have "gs_graph st \<noteq> []" using h(1) by (auto simp: holds_graph_def)
  then have "gs_graph st' \<noteq> []" using h(1) by (simp add: g wave_result_def holds_graph_def propagate_skips_map)
  moreover have "\<not> is_running st'" using good(2) by (auto simp: settled_def is_running_def list_ex_iff)
  ultimately have begin_eq: "dispatch_begin False params st' = (if ready (gs_graph st') \<noteq> [] then
       let g' = fold (\<lambda>i. update_node i (set_status Running)) (ready (gs_graph st')) (gs_graph st')
       in Some (st'\<lparr>gs_graph := g'\<rparr>, Inr \<lparr>wv_session = session_of params, wv_generation = gs_generation st',
            wv_graph = g', wv_ready = ready (gs_graph st'), wv_parallel = max_parallel_of params\<rparr>)
     else if has_pending (gs_graph st')
     then Some (st', Inl (Inl (''no progress: no pending node is ready (blocked by unmet dependencies): '' @
            join '', '' (pending_ids (gs_graph st')))))
     else Some (st', Inl (Inr (result_with_details
            (''nothing left to dispatch'' @ [CHR 0x0A, CHR 0x0A] @ render_graph (gs_graph st'))
            (to_details (gs_graph st'))))))"
    using assms(5) by (intro begin_open)
  have "has_pending (gs_graph st') \<Longrightarrow> ready (gs_graph st') \<noteq> []"
    using good settled_progress [of "gs_graph st'"] by (simp add: dag_def)
  moreover have "\<not> has_pending (gs_graph st') \<Longrightarrow> ready (gs_graph st') = []"
    by (auto simp: ready_def has_pending_def list_ex_iff filter_empty_conv)
  ultimately show ?thesis using good(2) unfolding begin_eq by (simp add: Let_def)
qed

section \<open>Dispatching ends\<close>

lemma concat_chunks: "concat (chunks n xs) = xs"
  by (induction n xs rule: chunks.induct) auto

lemma chunks_size: "list_all (\<lambda>c. 1 \<le> length c \<and> length c \<le> max n 1) (chunks n xs)"
  by (induction n xs rule: chunks.induct) auto

lemma those_run:
  assumes "\<And>i. i \<in> set c \<Longrightarrow> get_node i g \<noteq> None"
  shows "\<exists>os. those (map (run_node child parent g) c) = Some os \<and> map fst os = c"
  using assms
proof (induction c)
  case (Cons i c)
  then obtain os where os: "those (map (run_node child parent g) c) = Some os" "map fst os = c" by auto
  from Cons.prems [of i] obtain r where "run_node child parent g i = Some (i, r)" by (auto simp: run_node_def)
  with os show ?case by (intro exI [of _ "(i, r) # os"]) simp
qed simp

lemma run_chunks_ids:
  assumes "\<And>i. i \<in> set (concat cs) \<Longrightarrow> get_node i g \<noteq> None"
  shows "\<exists>os rest. run_chunks (run_node child parent g) polls k cs = Some os \<and> map fst os @ rest = concat cs \<and>
    ((\<forall>j. polls j = (False, False)) \<longrightarrow> rest = [])"
  using assms
proof (induction cs arbitrary: k)
  case (Cons c cs)
  then obtain os rest where os: "run_chunks (run_node child parent g) polls (Suc k) cs = Some os"
    "map fst os @ rest = concat cs" "(\<forall>j. polls j = (False, False)) \<longrightarrow> rest = []" by fastforce
  from Cons.prems those_run [of c g child parent] obtain os1 where
    os1: "those (map (run_node child parent g) c) = Some os1" "map fst os1 = c" by auto
  obtain b a where ba: "polls k = (b, a)" by (cases "polls k")
  consider "b" | "\<not> b" "a" | "\<not> b" "\<not> a" by blast
  then show ?case
  proof cases
    case 1
    then show ?thesis using ba by auto
  next
    case 2
    then show ?thesis using ba os1 by auto
  next
    case 3
    then show ?thesis using ba os os1 by auto
  qed
qed simp

lemma run_wave_ids:
  assumes "set (wv_ready w) \<subseteq> n_id ` set (wv_graph w)"
  shows "\<exists>os rest. run_wave child parent polls w = Some os \<and> map fst os @ rest = wv_ready w \<and>
    ((\<forall>j. polls j = (False, False)) \<longrightarrow> rest = [])"
proof -
  have "get_node i (wv_graph w) \<noteq> None" if "i \<in> set (wv_ready w)" for i
    using that assms nodes.lookup_None [of i "wv_graph w"] by (auto simp: get_node_def)
  then have "\<exists>os rest. run_chunks (run_node child parent (wv_graph w)) polls 0 (chunks (wv_parallel w) (wv_ready w)) = Some os \<and>
      map fst os @ rest = concat (chunks (wv_parallel w) (wv_ready w)) \<and> ((\<forall>j. polls j = (False, False)) \<longrightarrow> rest = [])"
    by (intro run_chunks_ids) (simp add: concat_chunks)
  then show ?thesis by (simp add: run_wave_def concat_chunks)
qed


text \<open>
  A wave never runs more children at once than its parameter allows: the limit lies between 1 and
  16 whatever the call asks for, and the wave is cut into non-empty groups of at most that size, which
  together are the ready nodes in their order.
\<close>

theorem wave_parallelism_bounded:
  "1 \<le> max_parallel_of params \<and> max_parallel_of params \<le> 16 \<and>
   concat (chunks (max_parallel_of params) is) = is \<and>
   list_all (\<lambda>c. 1 \<le> length c \<and> length c \<le> max_parallel_of params) (chunks (max_parallel_of params) is)"
proof -
  have "1 \<le> unat (clamp v DEFAULT_MAX_PARALLEL 1 MAX_PARALLEL_CAP)" "unat (clamp v DEFAULT_MAX_PARALLEL 1 MAX_PARALLEL_CAP) \<le> 16" for v
    by (auto simp: clamp_def Let_def DEFAULT_MAX_PARALLEL_def MAX_PARALLEL_CAP_def word_less_nat_alt)
  then have bounds: "1 \<le> max_parallel_of params" "max_parallel_of params \<le> 16" unfolding max_parallel_of_def by blast+
  then have "max (max_parallel_of params) 1 = max_parallel_of params" by simp
  with bounds show ?thesis using chunks_size [of "max_parallel_of params" "is"] by (simp add: concat_chunks)
qed

lemma pending_count_less:
  assumes "\<And>n. n_status (h n) = Pending \<Longrightarrow> n_status n = Pending"
    and "n \<in> set g" and "n_status n = Pending" and "n_status (h n) \<noteq> Pending"
  shows "pending_count (map h g) < pending_count g"
proof -
  let ?P = "\<lambda>n. n_status n = Pending" and ?Q = "\<lambda>n. n_status (h n) = Pending"
  have le: "length (filter ?Q xs) \<le> length (filter ?P xs)" for xs
    using assms(1) by (induction xs) (auto intro: le_SucI)
  obtain as bs where "g = as @ n # bs" using assms(2) by (meson split_list)
  with le [of as] le [of bs] assms(3,4) show ?thesis by (simp add: pending_count_def filter_map comp_def)
qed

text \<open>One call on a plan nothing runs on, with a token that is never set.\<close>

lemma dispatch_round:
  assumes "dag (gs_graph st)" and "settled (gs_graph st)" and "session_of params = gs_session st"
    and "has_pending (gs_graph st)"
  shows "\<exists>st' r. dispatch child host (\<lambda>_. (False, False)) file_exists shell False params st = Some (st', r) \<and>
    dag (gs_graph st') \<and> settled (gs_graph st') \<and> session_of params = gs_session st' \<and>
    shape (gs_graph st') = shape (gs_graph st) \<and> pending_count (gs_graph st') < pending_count (gs_graph st)"
proof -
  define g where "g = gs_graph st"
  define g' where "g' = fold (\<lambda>i. update_node i (set_status Running)) (ready g) g"
  define w where "w = \<lparr>wv_session = session_of params, wv_generation = gs_generation st, wv_graph = g',
    wv_ready = ready g, wv_parallel = max_parallel_of params\<rparr>"
  define st1 where "st1 = st\<lparr>gs_graph := g'\<rparr>"
  have ids: "distinct_ids g" using assms(1) by (simp add: dag_def g_def)
  have idle: "\<not> is_running st" using assms(2) by (auto simp: settled_def is_running_def list_ex_iff)
  have ready: "ready g \<noteq> []" using assms(1,2,4) settled_progress [of g] by (simp add: dag_def g_def)
  then have "g \<noteq> []" by (auto simp: ready_def)
  then have start: "dispatch_begin False params st = Some (st1, Inr w)"
    using ready begin_open [OF assms(3) idle] unfolding g_def [symmetric] by (simp add: Let_def w_def g'_def st1_def)
  have "orch_inv (st, [])" using assms(1) idle by (simp add: orch_inv_def)
  then have inv: "orch_inv (st1, [] @ w # [])" using orch_inv_begin [OF _ start] by simp
  have cur: "current st1 w" by (simp add: current_def st1_def w_def)
  have h: "holds_graph st1 w" "dag (gs_graph st1)" using current_wave [OF inv cur] by simp_all
  from run_wave_ids [of w child "parent_selection host params" "\<lambda>_. (False, False)"] h(1) obtain os where
    os: "run_wave child (parent_selection host params) (\<lambda>_. (False, False)) w = Some os" "map fst os = wv_ready w"
    by (auto simp: holds_graph_def)
  define vs where "vs = map (verify_outcome file_exists shell (wv_graph w)) os"
  have vs: "map fst vs = wv_ready w"
    using os(2) by (simp add: vs_def verify_outcome_def case_prod_unfold Let_def comp_def)
  then have "distinct (map fst vs)" "set (map fst vs) \<subseteq> set (wv_ready w)" using h(1) by (auto simp: holds_graph_def)
  from finish_current [OF h cur this] obtain r where
    fin: "dispatch_finish w vs st1 = (st1\<lparr>gs_graph := wave_result w vs\<rparr>, Inr r)" by blast
  have lock: "lock_graph_for_wave (wv_session w) (wv_generation w) st1 = Inr ()"
    using assms(3) by (simp add: lock_graph_for_wave_def st1_def w_def)
  have call: "dispatch child host (\<lambda>_. (False, False)) file_exists shell False params st =
      Some (st1\<lparr>gs_graph := wave_result w vs\<rparr>, Inr r)"
    unfolding dispatch_def dispatch_with_def start by (simp add: os(1) lock vs_def [symmetric] fin)
  define f where "f = (\<lambda>n. resolve (ready g) vs (if n_id n \<in> set (ready g) then set_status Running n else n))"
  have g': "g' = map (\<lambda>n. if n_id n \<in> set (ready g) then set_status Running n else n) g"
    unfolding g'_def using ids by (rule mark_running)
  have result: "wave_result w vs = map (skip_if (doomed (map f g))) (map f g)"
    by (simp add: wave_result_def w_def g' f_def comp_def propagate_skips_map)
  have shape: "shape (wave_result w vs) = shape g"
    unfolding result map_map by (rule shape_map) (simp add: f_def skip_if_def)
  from ready obtain i where i: "i \<in> set (ready g)" by (cases "ready g") auto
  then obtain n where n: "n \<in> set g" "n_id n = i" "n_status n = Pending" by (auto simp: ready_def)
  have at_ready: "n_status (f m) \<noteq> Pending" if "n_id m \<in> set (ready g)" for m
  proof -
    have "n_id m \<in> set (map fst vs)" using that vs by (simp add: w_def)
    then obtain x where "map_of vs (n_id m) = Some x" by (cases "map_of vs (n_id m)") (auto simp: map_of_eq_None_iff)
    with that show ?thesis using settle_node_status
      by (cases x) (auto simp: f_def resolve_def, (metis node_status.distinct)+)
  qed
  have "pending_count (wave_result w vs) < pending_count g"
    unfolding result map_map
  proof (rule pending_count_less [OF _ n(1,3)])
    fix m assume "n_status ((skip_if (doomed (map f g)) \<circ> f) m) = Pending"
    then have fm: "n_status (f m) = Pending" using skip_if_pending by (metis comp_apply)
    then have "n_id m \<notin> set (ready g)" using at_ready by blast
    with fm show "n_status m = Pending" by (simp add: f_def resolve_def)
  next
    have "n_status (f n) \<noteq> Pending" using at_ready i n(2) by simp
    then show "n_status ((skip_if (doomed (map f g)) \<circ> f) n) \<noteq> Pending" by (auto simp: skip_if_def)
  qed
  with call shape wave_result_settled [OF h, of vs] assms(3) show ?thesis
    by (simp add: g_def st1_def)
qed

lemma dispatch_idle:
  assumes "settled (gs_graph st)" and "session_of params = gs_session st" and "\<not> has_pending (gs_graph st)"
  shows "\<exists>r. dispatch child host polls file_exists shell False params st = Some (st, r)"
proof -
  have idle: "\<not> is_running st" using assms(1) by (auto simp: settled_def is_running_def list_ex_iff)
  have "ready (gs_graph st) = []"
    using assms(3) by (auto simp: ready_def has_pending_def list_ex_iff filter_empty_conv)
  then have "\<exists>r. dispatch_begin False params st = Some (st, Inl r)"
    using begin_open [OF assms(2) idle] idle assms(2,3)
    by (cases "gs_graph st = []") (auto simp: dispatch_begin_def lock_graph_def Let_def)
  then show ?thesis by (auto simp: dispatch_def dispatch_with_def)
qed

text \<open>Calling the tool again and again.\<close>

fun dispatch_calls :: "(gstate \<Rightarrow> (gstate \<times> json res) option) \<Rightarrow> nat \<Rightarrow> gstate \<Rightarrow> gstate option" where
  "dispatch_calls call 0 st = Some st"
| "dispatch_calls call (Suc k) st = Option.bind (call st) (\<lambda>(st, _). dispatch_calls call k st)"

lemma dispatch_calls_end:
  assumes "dag (gs_graph st)" and "settled (gs_graph st)" and "session_of params = gs_session st"
    and "pending_count (gs_graph st) \<le> k"
  shows "\<exists>st'. dispatch_calls (dispatch child host (\<lambda>_. (False, False)) file_exists shell False params) k st = Some st' \<and>
    shape (gs_graph st') = shape (gs_graph st) \<and> settled (gs_graph st') \<and> \<not> has_pending (gs_graph st')"
  using assms
proof (induction k arbitrary: st)
  case 0
  then show ?case by (auto simp: pending_count_def has_pending_def list_ex_iff filter_empty_conv)
next
  case (Suc k)
  show ?case
  proof (cases "has_pending (gs_graph st)")
    case True
    from dispatch_round [OF Suc.prems(1-3) True, of child host file_exists shell] obtain st1 r where
      st1: "dispatch child host (\<lambda>_. (False, False)) file_exists shell False params st = Some (st1, r)"
        "dag (gs_graph st1)" "settled (gs_graph st1)" "session_of params = gs_session st1"
        "shape (gs_graph st1) = shape (gs_graph st)" "pending_count (gs_graph st1) < pending_count (gs_graph st)"
      by blast
    with Suc.prems(4) Suc.IH [OF st1(2-4)] show ?thesis by simp
  next
    case False
    then have "pending_count (gs_graph st) = 0"
      by (auto simp: pending_count_def has_pending_def list_ex_iff filter_empty_conv)
    with Suc.IH [OF Suc.prems(1-3)] dispatch_idle [OF Suc.prems(2,3) False, of child host "\<lambda>_. (False, False)" file_exists shell]
    show ?thesis by auto
  qed
qed


section \<open>A child's time and output\<close>

text \<open>
  C23. A child cannot outstay its time or flood the caller: the wait is over at the first observation
  that shows the deadline reached or the call cancelled, and a text it returns comes from a child that
  exited successfully and is at most 40000 bytes and the truncation marker long.
\<close>

theorem child_bounded:
  assumes "wait_child timeout provider model out err ps = res"
  shows "(list_ex (\<lambda>p. p_cancelled p \<or> p_expired p) ps \<longrightarrow> res \<noteq> None) \<and>
    (\<forall>t. res = Some (Inr t) \<longrightarrow> length t \<le> 40000 + length truncation_marker \<and>
       (\<exists>p\<in>set ps. \<exists>code. p_wait p = Exited True code))"
  using assms wait_child_Ok [of timeout provider model out err ps] wait_child_ends [of _ ps timeout provider model out err]
  by (auto simp: list_ex_iff MAX_OUTPUT_BYTES_def)

section \<open>Concrete runs\<close>

definition ex_nodes :: json where
  "ex_nodes = JArr [JObj [(''id'', JStr ''a''), (''task'', JStr ''first'')],
     JObj [(''id'', JStr ''b''), (''task'', JStr ''second''), (''deps'', JArr [JStr ''a''])]]"

definition ex_set :: json where
  "ex_set = JObj [(''action'', JStr ''set''), (''nodes'', ex_nodes)]"

definition ex_first :: node where
  "ex_first = (ex_node ''a'' [])\<lparr>n_task := ''first''\<rparr>"

definition ex_second :: node where
  "ex_second = (ex_node ''b'' [''a''])\<lparr>n_task := ''second''\<rparr>"

definition ex_planned :: gstate where
  "ex_planned = \<lparr>gs_session = None, gs_graph = [ex_first, ex_second], gs_generation = 1\<rparr>"

definition ex_wave :: wave where
  "ex_wave = \<lparr>wv_session = None, wv_generation = 1, wv_graph = [set_status Running ex_first, ex_second],
     wv_ready = [''a''], wv_parallel = 4\<rparr>"

definition ex_begun :: gstate where
  "ex_begun = ex_planned\<lparr>gs_graph := wv_graph ex_wave\<rparr>"

definition ex_outcomes :: "(string \<times> string res \<times> unit res) list" where
  "ex_outcomes = [(''a'', Inr ''ok'', Inr ())]"

definition ex_finished :: gstate where
  "ex_finished = ex_begun\<lparr>gs_graph := wave_result ex_wave ex_outcomes\<rparr>"

lemma ex_nodes_read: "from_nodes_value ex_nodes = Some (Inr [ex_first, ex_second])"
proof -
  have trims: "trim ''a'' = ''a''" "trim ''b'' = ''b''" "trim ''first'' = ''first''" "trim ''second'' = ''second''"
    by code_simp+
  have "node_from_value (JObj [(''id'', JStr ''a''), (''task'', JStr ''first'')]) = Inr ex_first"
    by (simp add: node_from_value_def nonempty_trimmed_def string_field_def parse_string_list_def clamp_def trims
        MAX_TASK_BYTES_def DEFAULT_MAX_TURNS_def MAX_MAX_TURNS_def DEFAULT_TIMEOUT_SECS_def MIN_TIMEOUT_SECS_def
        MAX_TIMEOUT_SECS_def ex_first_def ex_node_def)
  moreover have "node_from_value (JObj [(''id'', JStr ''b''), (''task'', JStr ''second''), (''deps'', JArr [JStr ''a''])]) = Inr ex_second"
    by (simp add: node_from_value_def nonempty_trimmed_def string_field_def parse_string_list_def clamp_def trims
        MAX_TASK_BYTES_def DEFAULT_MAX_TURNS_def MAX_MAX_TURNS_def DEFAULT_TIMEOUT_SECS_def MIN_TIMEOUT_SECS_def
        MAX_TIMEOUT_SECS_def ex_second_def ex_node_def)
  moreover have "validate [ex_first, ex_second] = Some (Inr ())" by code_simp
  ultimately show ?thesis by (simp add: from_nodes_value_def ex_nodes_def)
qed

lemma ex_plan_call: "plan False ex_set initial_gstate = Some (ex_planned, Inr (report [ex_first, ex_second]))"
  by (simp add: plan_def lock_graph_def session_of_def ex_set_def HOST_CONTEXT_KEY_def initial_gstate_def
      is_running_def plan_action_def ex_nodes_read install_def advance_generation_def checked_add_def
      ex_planned_def)

lemma ex_ready: "ready [ex_first, ex_second] = [''a'']"
  by code_simp

lemma ex_marked: "update_node ''a'' (set_status Running) [ex_first, ex_second] = [set_status Running ex_first, ex_second]"
  by (simp add: update_node_def ex_first_def ex_node_def)

lemma ex_begin_call: "dispatch_begin False (JObj []) ex_planned = Some (ex_begun, Inr ex_wave)"
proof -
  have "n_status ex_first = Pending" "n_status ex_second = Pending"
    by (simp_all add: ex_first_def ex_second_def ex_node_def)
  moreover have "max_parallel_of (JObj []) = 4"
    by (simp add: max_parallel_of_def clamp_def DEFAULT_MAX_PARALLEL_def MAX_PARALLEL_CAP_def)
  ultimately show ?thesis
    by (simp add: dispatch_begin_def lock_graph_def session_of_def HOST_CONTEXT_KEY_def ex_planned_def
        is_running_def ex_ready ex_marked Let_def ex_begun_def ex_wave_def)
qed

lemma ex_reachable: "orch_reachable (ex_begun, [] @ ex_wave # [])"
proof -
  have "orch_reachable (ex_planned, [])"
    using orch_next [OF orch_start plan_call [OF ex_plan_call]] .
  from orch_next [OF this wave_begun [OF ex_begin_call]] show ?thesis by simp
qed

lemma ex_finish_call: "\<exists>reply. dispatch_finish ex_wave ex_outcomes ex_begun = (ex_finished, Inr reply)"
proof -
  have cur: "current ex_begun ex_wave" by (simp add: current_def ex_begun_def ex_planned_def ex_wave_def)
  have "holds_graph ex_begun ex_wave \<and> dag (gs_graph ex_begun)"
    using current_wave [OF orch_reachable_inv [OF ex_reachable] cur] by simp
  then show ?thesis
    unfolding ex_finished_def using cur by (intro finish_current) (auto simp: ex_outcomes_def ex_wave_def)
qed

theorem running_nodes_have_their_wave_witness:
  "orch_reachable (ex_begun, [ex_wave]) \<and> dag (gs_graph ex_begun) \<and> length (filter (current ex_begun) [ex_wave]) \<le> 1 \<and>
   set_status Running ex_first \<in> set (gs_graph ex_begun) \<and>
   (\<exists>w. w \<in> set [ex_wave] \<and> current ex_begun w \<and> ''a'' \<in> set (wv_ready w) \<and> wv_graph w = gs_graph ex_begun)"
proof -
  have reach: "orch_reachable (ex_begun, [ex_wave])" using ex_reachable by simp
  have node: "set_status Running ex_first \<in> set (gs_graph ex_begun)" by (simp add: ex_begun_def ex_planned_def ex_wave_def)
  have id: "n_id (set_status Running ex_first) = ''a''" by (simp add: ex_first_def ex_node_def)
  have status: "n_status (set_status Running ex_first) = Running" by simp
  from running_nodes_have_their_wave [OF reach] have all: "dag (gs_graph ex_begun)"
    "length (filter (current ex_begun) [ex_wave]) \<le> 1"
    "n_status n = Running \<Longrightarrow> \<exists>w\<in>set [ex_wave]. current ex_begun w \<and> n_id n \<in> set (wv_ready w) \<and> wv_graph w = gs_graph ex_begun"
    if "n \<in> set (gs_graph ex_begun)" for n using that by blast+
  from all(3) [OF node status] all(1,2) [OF node] node reach id show ?thesis by auto
qed

theorem stale_wave_changes_nothing_witness:
  "\<exists>reply. dispatch_finish ex_wave ex_outcomes ex_begun = (ex_finished, Inr reply) \<and>
     gs_graph ex_begun = wv_graph ex_wave \<and>
     ex_finished = ex_begun\<lparr>gs_graph := propagate_skips (map (resolve (wv_ready ex_wave) ex_outcomes) (gs_graph ex_begun))\<rparr>"
proof -
  from ex_finish_call obtain reply where fin: "dispatch_finish ex_wave ex_outcomes ex_begun = (ex_finished, Inr reply)" ..
  have "distinct (map fst ex_outcomes)" "set (map fst ex_outcomes) \<subseteq> set (wv_ready ex_wave)"
    by (simp_all add: ex_outcomes_def ex_wave_def)
  from stale_wave_changes_nothing [OF ex_reachable this fin] fin show ?thesis by auto
qed

theorem accepted_wave_leaves_progress_witness:
  "settled (gs_graph ex_finished) \<and>
    (if has_pending (gs_graph ex_finished)
     then \<exists>st'' w'. dispatch_begin False (JObj []) ex_finished = Some (st'', Inr w') \<and> wv_ready w' \<noteq> []
     else \<exists>answer. dispatch_begin False (JObj []) ex_finished = Some (ex_finished, Inl (Inr answer)))"
proof -
  from ex_finish_call obtain reply where fin: "dispatch_finish ex_wave ex_outcomes ex_begun = (ex_finished, Inr reply)" ..
  have "session_of (JObj []) = gs_session ex_finished"
    by (simp add: session_of_def HOST_CONTEXT_KEY_def ex_finished_def ex_begun_def ex_planned_def)
  then show ?thesis
    by (intro accepted_wave_leaves_progress [OF ex_reachable _ _ fin]) (simp_all add: ex_outcomes_def ex_wave_def)
qed


definition ex_polls :: "poll list" where
  "ex_polls = [\<lparr>p_cancelled = False, p_expired = False, p_wait = StillRunning\<rparr>,
     \<lparr>p_cancelled = False, p_expired = True, p_wait = StillRunning\<rparr>]"

theorem child_bounded_witness:
  "wait_child 10 None None (Inr []) (Inr []) ex_polls = Some (Inl ''subagent timed out after 10s'') \<and>
   wait_child 10 None None (Inr []) (Inr []) ex_polls \<noteq> None"
proof -
  have run: "wait_child 10 None None (Inr []) (Inr []) ex_polls = Some (Inl ''subagent timed out after 10s'')"
    by code_simp
  moreover have "list_ex (\<lambda>p. p_cancelled p \<or> p_expired p) ex_polls" by (simp add: ex_polls_def)
  ultimately show ?thesis using child_bounded [OF refl] by blast
qed

end
