(* ===== verification/Permission_Glob.thy ===== *)
theory Permission_Glob
  imports Rust_Prelude "HOL-Library.While_Combinator"
begin

text \<open>
  The pattern matcher of \<open>packages/rpi-permissions/src/lib.rs\<close>: a loop over byte positions that goes
  back to the last star on a mismatch. It is written with \<open>while_option\<close>, so that a loop that does
  not end would have no result; the theorem shows that it ends, and compares it with a declarative
  reading of patterns.
\<close>

abbreviation star :: char where "star \<equiv> CHR 0x2A"

section \<open>The loop\<close>

record glob_state =
  g_pi :: nat
  g_vi :: nat
  g_star :: "nat option"
  g_mark :: nat
  g_failed :: bool

definition glob_init :: glob_state where
  "glob_init = \<lparr>g_pi = 0, g_vi = 0, g_star = None, g_mark = 0, g_failed = False\<rparr>"

definition glob_step :: "string \<Rightarrow> string \<Rightarrow> glob_state \<Rightarrow> glob_state" where
  "glob_step p v s =
     (if g_pi s < length p \<and> p ! g_pi s = v ! g_vi s then s\<lparr>g_pi := g_pi s + 1, g_vi := g_vi s + 1\<rparr>
      else if g_pi s < length p \<and> p ! g_pi s = star
      then s\<lparr>g_star := Some (g_pi s), g_pi := g_pi s + 1, g_mark := g_vi s\<rparr>
      else (case g_star s of
              Some i \<Rightarrow> s\<lparr>g_pi := i + 1, g_mark := g_mark s + 1, g_vi := g_mark s + 1\<rparr>
            | None \<Rightarrow> s\<lparr>g_failed := True\<rparr>))"

definition glob_goes_on :: "string \<Rightarrow> glob_state \<Rightarrow> bool" where
  "glob_goes_on v s \<longleftrightarrow> g_vi s < length v \<and> \<not> g_failed s"

definition glob_loop :: "string \<Rightarrow> string \<Rightarrow> glob_state \<Rightarrow> glob_state option" where
  "glob_loop p v = while_option (glob_goes_on v) (glob_step p v)"

definition glob_matches :: "string \<Rightarrow> string \<Rightarrow> bool option" where
  "glob_matches p v = map_option
     (\<lambda>s. \<not> g_failed s \<and> dropWhile (\<lambda>c. c = star) (drop (g_pi s) p) = []) (glob_loop p v glob_init)"

section \<open>What a pattern means\<close>

text \<open>A star stands for any bytes, every other byte for itself.\<close>

fun glob :: "string \<Rightarrow> string \<Rightarrow> bool" where
  "glob [] v = (v = [])"
| "glob (c # p) v =
     (if c = star then \<exists>k\<in>{..length v}. glob p (drop k v)
      else (case v of [] \<Rightarrow> False | d # v' \<Rightarrow> c = d \<and> glob p v'))"

lemma glob_star: "glob (star # p) v \<longleftrightarrow> (\<exists>a b. v = a @ b \<and> glob p b)"
proof
  assume "glob (star # p) v"
  then obtain k where "k \<le> length v" "glob p (drop k v)" by auto
  then show "\<exists>a b. v = a @ b \<and> glob p b" by (intro exI [of _ "take k v"] exI [of _ "drop k v"]) simp
next
  assume "\<exists>a b. v = a @ b \<and> glob p b"
  then obtain a b where "v = a @ b" "glob p b" by blast
  then have "length a \<in> {..length v} \<and> glob p (drop (length a) v)" by simp
  then have "\<exists>k\<in>{..length v}. glob p (drop k v)" by blast
  then show "glob (star # p) v" by simp
qed

lemma glob_star_append: "glob (star # p) v \<Longrightarrow> glob (star # p) (a @ v)"
  unfolding glob_star by (metis append.assoc)

lemma glob_star_self: "glob p v \<Longrightarrow> glob (star # p) v"
  unfolding glob_star by (intro exI [of _ "[]"] exI [of _ v]) simp

lemma glob_literals: "star \<notin> set u \<Longrightarrow> glob (u @ q) v \<longleftrightarrow> (\<exists>v'. v = u @ v' \<and> glob q v')"
  by (induction u arbitrary: v) (auto split: list.splits)

lemma glob_stars: "dropWhile (\<lambda>c. c = star) p = [] \<longleftrightarrow> glob p []"
  by (induction p) auto

declare glob.simps(2) [simp del]

lemma glob_literal: "c \<noteq> star \<Longrightarrow> glob (c # p) (d # v) \<longleftrightarrow> c = d \<and> glob p v"
  by (simp add: glob.simps(2))

section \<open>The invariant\<close>

text \<open>
  The positions stay in range. After a star at \<open>i\<close> the bytes between it and the pattern position are
  literals, matched from the mark on.
\<close>

definition glob_range :: "string \<Rightarrow> string \<Rightarrow> glob_state \<Rightarrow> bool" where
  "glob_range p v s \<longleftrightarrow> g_pi s \<le> length p \<and> g_mark s \<le> g_vi s \<and> g_vi s \<le> length v \<and>
     (\<forall>i. g_star s = Some i \<longrightarrow> i < length p \<and> p ! i = star)"

definition glob_sound :: "string \<Rightarrow> string \<Rightarrow> glob_state \<Rightarrow> bool" where
  "glob_sound p v s \<longleftrightarrow> (glob (drop (g_pi s) p) (drop (g_vi s) v) \<longrightarrow> glob p v) \<and>
     (\<forall>i. g_star s = Some i \<longrightarrow> glob (drop i p) (drop (g_mark s) v) \<longrightarrow> glob p v)"

definition glob_complete :: "string \<Rightarrow> string \<Rightarrow> glob_state \<Rightarrow> bool" where
  "glob_complete p v s \<longleftrightarrow>
     (\<forall>i. g_star s = Some i \<longrightarrow> (\<exists>u. star \<notin> set u \<and> length u = g_vi s - g_mark s \<and>
        drop (Suc i) p = u @ drop (g_pi s) p)) \<and>
     (glob p v \<longrightarrow> \<not> g_failed s \<and> (glob (drop (g_pi s) p) (drop (g_vi s) v) \<or>
        (\<exists>i. g_star s = Some i \<and> glob (drop i p) (drop (Suc (g_mark s)) v))))"

lemma drop_star: "i < length p \<Longrightarrow> p ! i = star \<Longrightarrow> drop i p = star # drop (Suc i) p"
  by (metis Cons_nth_drop_Suc)

lemma glob_step_cases:
  obtains
    (same) "g_pi s < length p" "p ! g_pi s = v ! g_vi s"
      "glob_step p v s = s\<lparr>g_pi := g_pi s + 1, g_vi := g_vi s + 1\<rparr>"
  | (star_at) "g_pi s < length p" "p ! g_pi s = star" "p ! g_pi s \<noteq> v ! g_vi s"
      "glob_step p v s = s\<lparr>g_star := Some (g_pi s), g_pi := g_pi s + 1, g_mark := g_vi s\<rparr>"
  | (retry) i where "g_pi s < length p \<Longrightarrow> p ! g_pi s \<noteq> v ! g_vi s \<and> p ! g_pi s \<noteq> star" "g_star s = Some i"
      "glob_step p v s = s\<lparr>g_pi := i + 1, g_mark := g_mark s + 1, g_vi := g_mark s + 1\<rparr>"
  | (fail) "g_pi s < length p \<Longrightarrow> p ! g_pi s \<noteq> v ! g_vi s \<and> p ! g_pi s \<noteq> star" "g_star s = None"
      "glob_step p v s = s\<lparr>g_failed := True\<rparr>"
proof (cases "g_pi s < length p \<and> p ! g_pi s = v ! g_vi s")
  case True
  then show ?thesis by (intro same) (auto simp: glob_step_def)
next
  case differs: False
  show ?thesis
  proof (cases "g_pi s < length p \<and> p ! g_pi s = star")
    case True
    then show ?thesis using differs by (intro star_at) (simp_all add: glob_step_def)
  next
    case False
    with differs have none: "g_pi s < length p \<Longrightarrow> p ! g_pi s \<noteq> v ! g_vi s \<and> p ! g_pi s \<noteq> star" by blast
    show ?thesis
    proof (cases "g_star s")
      case None
      with none show ?thesis by (intro fail) (auto simp: glob_step_def)
    next
      case (Some i)
      with none show ?thesis by (intro retry [of i]) (auto simp: glob_step_def)
    qed
  qed
qed

lemma glob_range_step:
  assumes "glob_range p v s" and "glob_goes_on v s"
  shows "glob_range p v (glob_step p v s)"
  using assms by (auto simp: glob_range_def glob_goes_on_def glob_step_def split: option.splits)

definition glob_measure :: "string \<Rightarrow> string \<Rightarrow> glob_state \<Rightarrow> nat" where
  "glob_measure p v s = (if g_failed s then 0 else
     1 + (length v - g_mark s) * (length v + length p + 1) + (length v - g_vi s) + (length p - g_pi s))"

lemma mark_less:
  fixes a b k x y :: nat
  assumes "a < b" and "y < k + 1"
  shows "1 + (b - Suc a) * (k + 1) + y < 1 + (b - a) * (k + 1) + x"
proof -
  have "b - a = Suc (b - Suc a)" using assms(1) by simp
  then have "(b - a) * (k + 1) = (b - Suc a) * (k + 1) + (k + 1)" by simp
  with assms(2) show ?thesis by linarith
qed

lemma glob_measure_step:
  assumes "glob_range p v s" and "glob_goes_on v s"
  shows "glob_measure p v (glob_step p v s) < glob_measure p v s"
proof -
  have s: "g_pi s \<le> length p" "g_mark s \<le> g_vi s" "g_vi s < length v" "\<not> g_failed s"
    "\<And>i. g_star s = Some i \<Longrightarrow> i < length p"
    using assms by (auto simp: glob_range_def glob_goes_on_def)
  show ?thesis
  proof (cases rule: glob_step_cases [of s p v])
    case same
    with s show ?thesis by (simp add: glob_measure_def)
  next
    case star_at
    have "(length v - g_vi s) * (length v + length p + 1) \<le> (length v - g_mark s) * (length v + length p + 1)"
      using s(2) by (intro mult_right_mono) simp_all
    moreover have "glob_measure p v (glob_step p v s) =
        1 + (length v - g_vi s) * (length v + length p + 1) + (length v - g_vi s) + (length p - Suc (g_pi s))"
      unfolding star_at(4) glob_measure_def using s(4) by simp
    moreover have "glob_measure p v s =
        1 + (length v - g_mark s) * (length v + length p + 1) + (length v - g_vi s) + (length p - g_pi s)"
      unfolding glob_measure_def using s(4) by simp
    moreover have "length p - Suc (g_pi s) < length p - g_pi s" using star_at(1) by simp
    ultimately show ?thesis by linarith
  next
    case (retry i)
    have "1 + (length v - Suc (g_mark s)) * (length v + length p + 1) + ((length v - Suc (g_mark s)) + (length p - Suc i)) <
        1 + (length v - g_mark s) * (length v + length p + 1) + ((length v - g_vi s) + (length p - g_pi s))"
      using s by (intro mark_less) auto
    with s(4) show ?thesis unfolding retry(3) glob_measure_def by simp
  next
    case fail
    with s(4) show ?thesis by (simp add: glob_measure_def)
  qed
qed

lemma glob_loop_ends: "\<exists>t. glob_loop p v glob_init = Some t"
  unfolding glob_loop_def
proof (rule measure_while_option_Some [where P = "glob_range p v" and f = "glob_measure p v"])
  show "glob_range p v glob_init" by (simp add: glob_range_def glob_init_def)
qed (blast intro: glob_range_step glob_measure_step)

lemma glob_loop_inv:
  assumes "glob_loop p v glob_init = Some t" and "I glob_init"
    and "\<And>s. glob_range p v s \<Longrightarrow> glob_goes_on v s \<Longrightarrow> I s \<Longrightarrow> I (glob_step p v s)"
  shows "glob_range p v t \<and> I t \<and> \<not> glob_goes_on v t"
proof -
  note loop = assms(1) [unfolded glob_loop_def]
  have "glob_range p v glob_init" by (simp add: glob_range_def glob_init_def)
  with assms(2) have start: "glob_range p v glob_init \<and> I glob_init" by simp
  have keep: "glob_range p v (glob_step p v s) \<and> I (glob_step p v s)"
    if "glob_range p v s \<and> I s" "glob_goes_on v s" for s
    using that assms(3) glob_range_step by blast
  have "glob_range p v t \<and> I t"
    by (rule while_option_rule [where P = "\<lambda>s. glob_range p v s \<and> I s", OF keep loop start])
  with while_option_stop [OF loop] show ?thesis by simp
qed

section \<open>Soundness\<close>

lemma mismatch_no_glob:
  assumes "g_vi s < length v" and "g_pi s < length p \<Longrightarrow> p ! g_pi s \<noteq> v ! g_vi s \<and> p ! g_pi s \<noteq> star"
  shows "\<not> glob (drop (g_pi s) p) (drop (g_vi s) v)"
proof (cases "g_pi s < length p")
  case True
  with assms show ?thesis by (simp flip: Cons_nth_drop_Suc add: glob_literal)
next
  case False
  with assms(1) show ?thesis by simp
qed

lemma glob_sound_step:
  assumes "glob_range p v s" and "glob_goes_on v s" and "glob_sound p v s"
  shows "glob_sound p v (glob_step p v s)"
proof -
  have less: "g_vi s < length v" using assms(2) by (simp add: glob_goes_on_def)
  have v: "drop (g_vi s) v = v ! g_vi s # drop (Suc (g_vi s)) v" using less by (simp add: Cons_nth_drop_Suc)
  show ?thesis
  proof (cases rule: glob_step_cases [of s p v])
    case same
    have p: "drop (g_pi s) p = p ! g_pi s # drop (Suc (g_pi s)) p" using same(1) by (simp add: Cons_nth_drop_Suc)
    have "glob (drop (Suc (g_pi s)) p) (drop (Suc (g_vi s)) v) \<longrightarrow> glob (drop (g_pi s) p) (drop (g_vi s) v)"
    proof (cases "p ! g_pi s = star")
      case True
      then show ?thesis unfolding p v
        using glob_star_append [of "drop (Suc (g_pi s)) p" "drop (Suc (g_vi s)) v" "[v ! g_vi s]"] glob_star_self by auto
    next
      case False
      then show ?thesis unfolding p v using same(2) by (simp add: glob_literal)
    qed
    with assms(3) show ?thesis unfolding same(3) by (simp add: glob_sound_def)
  next
    case star_at
    have p: "drop (g_pi s) p = star # drop (Suc (g_pi s)) p" using star_at(1,2) by (rule drop_star)
    show ?thesis unfolding star_at(4) glob_sound_def
      using assms(3) glob_star_self [of "drop (Suc (g_pi s)) p" "drop (g_vi s) v"] by (simp add: glob_sound_def p)
  next
    case (retry i)
    have i: "i < length p" "p ! i = star" "g_mark s < length v"
      using assms(1) retry(2) less by (auto simp: glob_range_def)
    have p: "drop i p = star # drop (Suc i) p" using i(1,2) by (rule drop_star)
    have "drop (g_mark s) v = [v ! g_mark s] @ drop (Suc (g_mark s)) v" using i(3) by (simp add: Cons_nth_drop_Suc)
    then have "glob (drop i p) (drop (Suc (g_mark s)) v) \<longrightarrow> glob (drop i p) (drop (g_mark s) v)"
      unfolding p using glob_star_append by metis
    moreover have "glob (drop (Suc i) p) (drop (Suc (g_mark s)) v) \<longrightarrow> glob (drop i p) (drop (Suc (g_mark s)) v)"
      unfolding p using glob_star_self by blast
    ultimately show ?thesis using assms(3) retry(2) unfolding retry(3) by (simp add: glob_sound_def)
  next
    case fail
    with assms(3) show ?thesis by (simp add: glob_sound_def)
  qed
qed

section \<open>Completeness\<close>

lemma glob_complete_step:
  assumes "glob_range p v s" and "glob_goes_on v s" and "glob_complete p v s" and "star \<notin> set v"
  shows "glob_complete p v (glob_step p v s)"
proof -
  have less: "g_vi s < length v" "\<not> g_failed s" using assms(2) by (simp_all add: glob_goes_on_def)
  have v: "drop (g_vi s) v = v ! g_vi s # drop (Suc (g_vi s)) v" using less by (simp add: Cons_nth_drop_Suc)
  have not_star: "v ! g_vi s \<noteq> star" using assms(4) less(1) by (metis nth_mem)
  have seg: "\<exists>u. star \<notin> set u \<and> length u = g_vi s - g_mark s \<and> drop (Suc i) p = u @ drop (g_pi s) p"
    if "g_star s = Some i" for i using assms(3) that by (simp add: glob_complete_def)
  have alt: "glob p v \<longrightarrow> glob (drop (g_pi s) p) (drop (g_vi s) v) \<or>
      (\<exists>i. g_star s = Some i \<and> glob (drop i p) (drop (Suc (g_mark s)) v))"
    using assms(3) by (auto simp: glob_complete_def)
  have range: "g_mark s \<le> g_vi s" using assms(1) by (simp add: glob_range_def)
  show ?thesis
  proof (cases rule: glob_step_cases [of s p v])
    case same
    have p: "drop (g_pi s) p = p ! g_pi s # drop (Suc (g_pi s)) p" using same(1) by (simp add: Cons_nth_drop_Suc)
    have "\<exists>u. star \<notin> set u \<and> length u = Suc (g_vi s) - g_mark s \<and> drop (Suc i) p = u @ drop (Suc (g_pi s)) p"
      if i: "g_star s = Some i" for i
    proof -
      from seg [OF i] obtain u where "star \<notin> set u" "length u = g_vi s - g_mark s" "drop (Suc i) p = u @ drop (g_pi s) p" by blast
      then show ?thesis using same(2) not_star range p by (intro exI [of _ "u @ [p ! g_pi s]"]) (auto simp: Suc_diff_le)
    qed
    moreover have "glob (drop (g_pi s) p) (drop (g_vi s) v) \<longrightarrow> glob (drop (Suc (g_pi s)) p) (drop (Suc (g_vi s)) v)"
      unfolding p v using same(2) not_star by (simp add: glob_literal)
    ultimately show ?thesis using alt less(2) unfolding same(3) glob_complete_def by auto
  next
    case star_at
    have p: "drop (g_pi s) p = star # drop (Suc (g_pi s)) p" using star_at(1,2) by (rule drop_star)
    have later: "glob (drop (g_pi s) p) (drop (g_vi s) v)"
      if i: "g_star s = Some i" and g: "glob (drop i p) (drop (Suc (g_mark s)) v)" for i
    proof -
      from seg [OF i] obtain u where u: "star \<notin> set u" "length u = g_vi s - g_mark s" "drop (Suc i) p = u @ drop (g_pi s) p" by blast
      have "i < length p" "p ! i = star" using assms(1) i by (auto simp: glob_range_def)
      then have "drop i p = star # u @ drop (g_pi s) p" using drop_star u(3) by simp
      with g obtain a b where ab: "drop (Suc (g_mark s)) v = a @ b" "glob (u @ drop (g_pi s) p) b" by (auto simp: glob_star)
      from ab(2) u(1) obtain b' where b': "b = u @ b'" "glob (drop (g_pi s) p) b'" by (auto simp: glob_literals)
      have "drop (Suc (g_vi s)) v = drop (length u) (drop (Suc (g_mark s)) v)" using u(2) range by (simp add: add.commute)
      also have "\<dots> = drop (length u) (a @ u) @ b'" by (simp add: ab(1) b'(1))
      finally have "glob (drop (g_pi s) p) (drop (Suc (g_vi s)) v)" using b'(2) p glob_star_append by metis
      then have "glob (drop (g_pi s) p) ([v ! g_vi s] @ drop (Suc (g_vi s)) v)" using p glob_star_append by metis
      then show ?thesis by (simp add: v)
    qed
    have "glob (drop (g_pi s) p) (drop (g_vi s) v) \<longrightarrow>
        glob (drop (Suc (g_pi s)) p) (drop (g_vi s) v) \<or> glob (drop (g_pi s) p) (drop (Suc (g_vi s)) v)"
    proof
      assume "glob (drop (g_pi s) p) (drop (g_vi s) v)"
      then obtain a b where ab: "drop (g_vi s) v = a @ b" "glob (drop (Suc (g_pi s)) p) b" unfolding p glob_star by blast
      show "glob (drop (Suc (g_pi s)) p) (drop (g_vi s) v) \<or> glob (drop (g_pi s) p) (drop (Suc (g_vi s)) v)"
      proof (cases a)
        case Nil
        with ab show ?thesis by simp
      next
        case (Cons c a')
        with ab(1) v have "drop (Suc (g_vi s)) v = a' @ b" by simp
        with ab(2) show ?thesis unfolding p glob_star by blast
      qed
    qed
    then show ?thesis using alt later less(2) unfolding star_at(4) glob_complete_def by auto
  next
    case (retry i)
    have i: "i < length p" "p ! i = star" using assms(1) retry(2) by (auto simp: glob_range_def)
    have p: "drop i p = star # drop (Suc i) p" using i by (rule drop_star)
    have "\<not> glob (drop (g_pi s) p) (drop (g_vi s) v)" using less(1) retry(1) by (rule mismatch_no_glob)
    with alt retry(2) have g: "glob p v \<longrightarrow> glob (drop i p) (drop (Suc (g_mark s)) v)" by simp
    have "glob (drop i p) w \<longrightarrow> glob (drop (Suc i) p) w \<or> glob (drop i p) (drop 1 w)" for w
    proof
      assume "glob (drop i p) w"
      then obtain a b where ab: "w = a @ b" "glob (drop (Suc i) p) b" unfolding p glob_star by blast
      then show "glob (drop (Suc i) p) w \<or> glob (drop i p) (drop 1 w)"
        unfolding p glob_star by (cases a) auto
    qed
    from this [of "drop (Suc (g_mark s)) v"] g retry(2) less(2) show ?thesis
      unfolding retry(3) glob_complete_def by (simp add: drop_drop)
  next
    case fail
    have "\<not> glob (drop (g_pi s) p) (drop (g_vi s) v)" using less(1) fail(1) by (rule mismatch_no_glob)
    with alt fail(2) have "\<not> glob p v" by simp
    with fail(2) show ?thesis unfolding fail(3) glob_complete_def by simp
  qed
qed

lemma glob_complete_end:
  assumes "glob_range p v t" and "glob_complete p v t" and "\<not> glob_goes_on v t" and "glob p v"
  shows "\<not> g_failed t \<and> glob (drop (g_pi t) p) []"
proof -
  from assms(2,4) have ok: "\<not> g_failed t" and alt: "glob (drop (g_pi t) p) (drop (g_vi t) v) \<or>
      (\<exists>i. g_star t = Some i \<and> glob (drop i p) (drop (Suc (g_mark t)) v))"
    by (auto simp: glob_complete_def)
  have vi: "g_vi t = length v" using ok assms(1,3) by (simp add: glob_goes_on_def glob_range_def)
  have "glob (drop (g_pi t) p) []"
    if i: "g_star t = Some i" and g: "glob (drop i p) (drop (Suc (g_mark t)) v)" for i
  proof -
    from assms(2) i obtain u where u: "star \<notin> set u" "length u = g_vi t - g_mark t" "drop (Suc i) p = u @ drop (g_pi t) p"
      by (auto simp: glob_complete_def)
    have "i < length p" "p ! i = star" using assms(1) i by (auto simp: glob_range_def)
    then have "drop i p = star # u @ drop (g_pi t) p" using drop_star u(3) by simp
    with g obtain a b where ab: "drop (Suc (g_mark t)) v = a @ b" "glob (u @ drop (g_pi t) p) b" by (auto simp: glob_star)
    from ab(2) u(1) obtain b' where b': "b = u @ b'" "glob (drop (g_pi t) p) b'" by (auto simp: glob_literals)
    have "length (drop (Suc (g_mark t)) v) = length a + length u + length b'" by (simp add: ab(1) b'(1))
    then have "length b' = 0" unfolding length_drop using u(2) vi by linarith
    with b'(2) show ?thesis by simp
  qed
  with ok alt vi show ?thesis by auto
qed

text \<open>
  C24. The matcher of permission rules always ends. What it accepts is a match in the declarative
  reading of patterns, and on values without a star it accepts every match: going back to the last
  star alone is enough. Only a star in the value, which the loop compares as a literal first, can make
  it miss a match.
\<close>

theorem glob_matches_correct:
  "\<exists>b. glob_matches p v = Some b \<and> (b \<longrightarrow> glob p v) \<and> (star \<notin> set v \<longrightarrow> b = glob p v)"
proof -
  obtain t where t: "glob_loop p v glob_init = Some t" using glob_loop_ends by blast
  define b where "b \<longleftrightarrow> \<not> g_failed t \<and> dropWhile (\<lambda>c. c = star) (drop (g_pi t) p) = []"
  have init: "glob_sound p v glob_init" "glob_complete p v glob_init"
    by (simp_all add: glob_sound_def glob_complete_def glob_init_def)
  note sound = glob_loop_inv [where I = "glob_sound p v", OF t init(1) glob_sound_step]
  have "glob p v" if "b"
  proof -
    from that sound have "g_vi t = length v" by (auto simp: b_def glob_goes_on_def glob_range_def)
    moreover have "glob (drop (g_pi t) p) []" using that unfolding b_def glob_stars by blast
    ultimately show ?thesis using sound by (simp add: glob_sound_def)
  qed
  moreover have "b" if "glob p v" "star \<notin> set v"
  proof -
    have "glob_range p v t \<and> glob_complete p v t \<and> \<not> glob_goes_on v t"
      by (rule glob_loop_inv [where I = "glob_complete p v", OF t init(2)]) (rule glob_complete_step, use that in simp_all)
    with glob_complete_end [of p v t] that(1) show ?thesis unfolding b_def glob_stars by blast
  qed
  moreover have "glob_matches p v = Some b" by (simp add: glob_matches_def t b_def)
  ultimately show ?thesis by blast
qed

lemma glob_matches_total: "\<exists>b. glob_matches p v = Some b"
  using glob_loop_ends [of p v] by (auto simp: glob_matches_def)

theorem glob_matches_correct_witness:
  "\<exists>b. glob_matches ''rm *.txt'' ''rm old.txt'' = Some b \<and> b = glob ''rm *.txt'' ''rm old.txt''"
  using glob_matches_correct [of "''rm *.txt''" "''rm old.txt''"] by auto

end
