(* ===== verification/Permission_Rules.thy ===== *)
theory Permission_Rules
  imports Json Permission_Glob
begin

text \<open>
  The permission tool of \<open>packages/rpi-permissions/src/lib.rs\<close>: reading a rule file, matching a rule
  against a call, and the actions \<open>list\<close>, \<open>check\<close>, \<open>grant\<close> and \<open>revoke\<close>. The project's and the
  user's file are the state: \<open>None\<close> is a missing file, \<open>Some (Inl e)\<close> one that cannot be read or
  parsed. The outcome of writing a file is a parameter.
\<close>

section \<open>Rules\<close>

record rules =
  r_allow :: "string list"
  r_deny :: "string list"

definition default_rules :: rules where
  "default_rules = \<lparr>r_allow = [], r_deny = []\<rparr>"

definition rule_strings :: "(string \<times> json) list \<Rightarrow> string \<Rightarrow> string list" where
  "rule_strings obj key = (case Option.bind (map_of obj key) as_array of
     None \<Rightarrow> []
   | Some items \<Rightarrow> filter (\<lambda>s. s \<noteq> []) (map trim (List.map_filter as_str items)))"

definition parse_rules :: "json \<Rightarrow> rules res" where
  "parse_rules value = (case as_object (unwrap_or value (jget ''permissions'' value)) of
     Some obj \<Rightarrow> Inr \<lparr>r_allow = rule_strings obj ''allow'', r_deny = rule_strings obj ''deny''\<rparr>
   | None \<Rightarrow> (case as_array value of
       Some items \<Rightarrow> Inr \<lparr>r_allow = List.map_filter (get_str ''capability'')
           (filter (\<lambda>r. get_str ''effect'' r = Some ''allow'') items), r_deny = []\<rparr>
     | None \<Rightarrow> Inl ''permissions must be an object with allow/deny arrays''))"

definition rules_value :: "rules \<Rightarrow> json" where
  "rules_value r = JObj [(''allow'', JArr (map JStr (r_allow r))), (''deny'', JArr (map JStr (r_deny r)))]"

definition split_rule :: "string \<Rightarrow> string \<times> string" where
  "split_rule rule =
     (let i = length (takeWhile (\<lambda>c. c \<noteq> CHR 0x28) rule)
      in if i < length rule \<and> ends_with '')'' rule \<and> i > 0
         then (take i rule, take (length rule - 1 - (i + 1)) (drop (i + 1) rule))
         else (''*'', rule))"

text \<open>The loop of the matcher always has a result; see \<open>Permission_Glob\<close>.\<close>

definition rule_matches :: "string \<Rightarrow> string \<Rightarrow> string \<Rightarrow> bool" where
  "rule_matches rule tool target =
     (let (rule_tool, pattern) = split_rule rule
      in (rule_tool = ''*'' \<or> eq_ignore_ascii_case rule_tool tool) \<and> glob_matches pattern target = Some True)"

section \<open>The tool\<close>

record rule_files =
  rf_local :: "json res option"
  rf_global :: "json res option"

definition load_file :: "json res option \<Rightarrow> rules res" where
  "load_file f = (case f of None \<Rightarrow> Inr default_rules | Some m \<Rightarrow> bindR m parse_rules)"

definition load_rules :: "rule_files \<Rightarrow> rules res" where
  "load_rules fs = load_file (if rf_local fs \<noteq> None then rf_local fs else rf_global fs)"

definition save_rules :: "unit res \<Rightarrow> rules \<Rightarrow> rule_files \<Rightarrow> rule_files \<times> unit res" where
  "save_rules write r fs = (case write of
     Inl e \<Rightarrow> (fs, Inl e)
   | Inr _ \<Rightarrow> (fs\<lparr>rf_local := Some (Inr (JObj [(''permissions'', rules_value r)]))\<rparr>, Inr ()))"

definition or_field :: "string \<Rightarrow> string \<Rightarrow> json \<Rightarrow> string option" where
  "or_field key legacy p = Option.bind (case jget key p of Some v \<Rightarrow> Some v | None \<Rightarrow> jget legacy p) as_str"

definition check_access :: "rules \<Rightarrow> string \<Rightarrow> string \<Rightarrow> bool \<times> string" where
  "check_access r tool target =
     (let denied = list_ex (\<lambda>x. rule_matches x tool target) (r_deny r);
          has_allow_for_tool = list_ex (\<lambda>x. fst (split_rule x) = ''*'' \<or> eq_ignore_ascii_case (fst (split_rule x)) tool) (r_allow r);
          allowed = (\<not> denied \<and> (\<not> has_allow_for_tool \<or> list_ex (\<lambda>x. rule_matches x tool target) (r_allow r)))
      in (allowed, if denied then ''deny rule'' else if \<not> allowed then ''not in allow rules'' else ''allowed''))"

definition change_rules :: "bool \<Rightarrow> string \<Rightarrow> string \<Rightarrow> rules \<Rightarrow> rules" where
  "change_rules grant effect capability r =
     (let allow = filter (\<lambda>x. x \<noteq> capability) (r_allow r); deny = filter (\<lambda>x. x \<noteq> capability) (r_deny r)
      in if grant then
           (if effect = ''allow'' then \<lparr>r_allow = allow @ [capability], r_deny = deny\<rparr>
            else \<lparr>r_allow = allow, r_deny = deny @ [capability]\<rparr>)
         else \<lparr>r_allow = allow, r_deny = deny\<rparr>)"

definition permissions :: "(bool \<Rightarrow> string) \<Rightarrow> unit res \<Rightarrow> json \<Rightarrow> rule_files \<Rightarrow> rule_files \<times> json res" where
  "permissions path write p fs = (case load_rules fs of
     Inl e \<Rightarrow> (fs, Inl e)
   | Inr r \<Rightarrow>
       let action = unwrap_or ''list'' (get_str ''action'' p)
       in if action = ''list'' then
            (fs, Inr (JObj [(''action'', JStr ''list''), (''rules'', rules_value r), (''path'', JStr (path (rf_local fs \<noteq> None)))]))
          else if action = ''check'' then
            (fs, let tool = unwrap_or ''*'' (get_str ''tool'' p)
                 in bindR (ok_or ''value (or capability) is required'' (or_field ''value'' ''capability'' p)) (\<lambda>target.
                    let (allowed, reason) = check_access r tool target
                    in Inr (JObj [(''action'', JStr ''check''), (''tool'', JStr tool), (''value'', JStr target),
                         (''allowed'', JBool allowed), (''reason'', JStr reason),
                         (''default'', JStr ''allow-unless-allow-rules-exist'')])))
          else if action = ''grant'' \<or> action = ''revoke'' then
            (case or_field ''rule'' ''capability'' p of
               None \<Rightarrow> (fs, Inl ''capability is required'')
             | Some c \<Rightarrow>
                 let capability = trim c
                 in if capability = [] \<or> length capability > 200
                    then (fs, Inl ''capability must contain 1-200 characters'')
                    else let effect = unwrap_or ''allow'' (get_str ''effect'' p)
                         in if effect \<noteq> ''allow'' \<and> effect \<noteq> ''deny''
                            then (fs, Inl ''effect must be allow or deny'')
                            else (case save_rules write (change_rules (action = ''grant'') effect capability r) fs of
                                    (fs', Inl e) \<Rightarrow> (fs', Inl e)
                                  | (fs', Inr _) \<Rightarrow> (fs', Inr (JObj [(''action'', JStr action), (''rule'', JStr capability),
                                      (''effect'', JStr effect), (''allowed'', JBool (action = ''grant''))]))))
          else (fs, Inl ''action must be one of: check, grant, revoke, list''))"

section \<open>Saving and loading\<close>

text \<open>What a file keeps of its rules: trimmed texts that are not empty.\<close>

definition tidy :: "string list \<Rightarrow> string list" where
  "tidy xs = filter (\<lambda>s. s \<noteq> []) (map trim xs)"

lemma map_filter_JStr [simp]: "List.map_filter as_str (map JStr xs) = xs"
  by (induction xs) (simp_all add: map_filter_simps)

lemma load_saved:
  "load_rules (fs\<lparr>rf_local := Some (Inr (JObj [(''permissions'', rules_value r)]))\<rparr>) =
     Inr \<lparr>r_allow = tidy (r_allow r), r_deny = tidy (r_deny r)\<rparr>"
  by (simp add: load_rules_def load_file_def parse_rules_def rules_value_def rule_strings_def tidy_def)

lemma in_tidy: "x \<in> set (tidy xs) \<longleftrightarrow> x \<noteq> [] \<and> (\<exists>y\<in>set xs. x = trim y)"
  by (auto simp: tidy_def)

lemma trimmed_in_tidy: "trim c \<noteq> [] \<Longrightarrow> trim c \<in> set xs \<Longrightarrow> trim c \<in> set (tidy xs)"
  unfolding in_tidy using trim_idem by metis

lemma change_written:
  assumes "permissions path write p fs = (fs', Inr reply)" and "get_str ''action'' p = Some action"
    and "action = ''grant'' \<or> action = ''revoke''" and "or_field ''rule'' ''capability'' p = Some c"
  shows "\<exists>r. load_rules fs = Inr r \<and> trim c \<noteq> [] \<and>
    (let effect = unwrap_or ''allow'' (get_str ''effect'' p) in (effect = ''allow'' \<or> effect = ''deny'') \<and>
      fs' = fs\<lparr>rf_local := Some (Inr (JObj [(''permissions'',
               rules_value (change_rules (action = ''grant'') effect (trim c) r))]))\<rparr>)"
proof (cases "load_rules fs")
  case (Inl e)
  with assms(1) show ?thesis by (simp add: permissions_def)
next
  case (Inr r)
  have act: "action \<noteq> ''list''" "action \<noteq> ''check''" using assms(3) by auto
  define effect where "effect = unwrap_or ''allow'' (get_str ''effect'' p)"
  from assms(1,2,3,4) Inr act have
    "(if trim c = [] \<or> length (trim c) > 200 then (fs, Inl ''capability must contain 1-200 characters'')
      else if effect \<noteq> ''allow'' \<and> effect \<noteq> ''deny'' then (fs, Inl ''effect must be allow or deny'')
      else (case save_rules write (change_rules (action = ''grant'') effect (trim c) r) fs of
              (fs', Inl e) \<Rightarrow> (fs', Inl e)
            | (fs', Inr _) \<Rightarrow> (fs', Inr (JObj [(''action'', JStr action), (''rule'', JStr (trim c)),
                (''effect'', JStr effect), (''allowed'', JBool (action = ''grant''))])))) = (fs', Inr reply)"
    by (simp only: permissions_def Let_def sum.case unwrap_or_simps option.case if_True if_False effect_def)
  then have "trim c \<noteq> []" "effect = ''allow'' \<or> effect = ''deny''"
    "fs' = fs\<lparr>rf_local := Some (Inr (JObj [(''permissions'',
               rules_value (change_rules (action = ''grant'') effect (trim c) r))]))\<rparr>"
    by (auto simp: save_rules_def split: if_splits sum.splits)
  with Inr show ?thesis by (simp add: effect_def Let_def)
qed

text \<open>
  C25. A granted denial is enforced: once the tool has answered a grant of a deny rule, every check of a
  call that the rule matches is refused as denied, whatever allow rules the file has, and whether the
  project's file existed or was started from the user's.
\<close>

theorem granted_denial_enforced:
  assumes "permissions path write p fs = (fs', Inr reply)"
    and "get_str ''action'' p = Some ''grant''" and "get_str ''effect'' p = Some ''deny''"
    and "or_field ''rule'' ''capability'' p = Some c" and "rule_matches (trim c) tool target"
  shows "\<exists>r. load_rules fs' = Inr r \<and> trim c \<in> set (r_deny r) \<and> check_access r tool target = (False, ''deny rule'')"
proof -
  from change_written [OF assms(1,2) _ assms(4)] assms(3) obtain r where nonempty: "trim c \<noteq> []" and
    fs': "fs' = fs\<lparr>rf_local := Some (Inr (JObj [(''permissions'', rules_value (change_rules True ''deny'' (trim c) r))]))\<rparr>"
    by auto
  define r' where "r' = \<lparr>r_allow = tidy (r_allow (change_rules True ''deny'' (trim c) r)),
    r_deny = tidy (r_deny (change_rules True ''deny'' (trim c) r))\<rparr>"
  have "load_rules fs' = Inr r'" unfolding fs' load_saved r'_def ..
  moreover have deny: "trim c \<in> set (r_deny r')"
    unfolding r'_def rules.simps using nonempty by (intro trimmed_in_tidy) (simp_all add: change_rules_def Let_def)
  moreover have "check_access r' tool target = (False, ''deny rule'')"
  proof -
    have "list_ex (\<lambda>x. rule_matches x tool target) (r_deny r')" using deny assms(5) by (auto simp: list_ex_iff)
    then show ?thesis by (simp add: check_access_def Let_def)
  qed
  ultimately show ?thesis by blast
qed

lemma tidy_filter: "tidy xs = xs \<Longrightarrow> tidy (filter P xs) = filter P xs"
proof -
  assume "tidy xs = xs"
  then have "trim x = x \<and> x \<noteq> []" if "x \<in> set xs" for x using that in_tidy [of x xs] trim_idem by metis
  then show ?thesis unfolding tidy_def by (induction xs) auto
qed

lemma tidy_snoc: "tidy xs = xs \<Longrightarrow> trim c \<noteq> [] \<Longrightarrow> tidy (xs @ [trim c]) = xs @ [trim c]"
  by (simp add: tidy_def trim_idem)


text \<open>
  A star in a command gets past a deny rule that ends in a star: the rule against every \<open>rm\<close> does
  not match the command \<open>rm *.txt\<close>, though the pattern covers it, and the check allows the call.
\<close>

theorem star_in_value_escapes_denial:
  "glob ''rm *'' ''rm *.txt'' \<and> glob_matches ''rm *'' ''rm *.txt'' = Some False \<and>
   check_access \<lparr>r_allow = [], r_deny = [''Bash(rm *)'']\<rparr> ''bash'' ''rm *.txt'' = (True, ''allowed'') \<and>
   check_access \<lparr>r_allow = [], r_deny = [''Bash(rm *)'']\<rparr> ''bash'' ''rm old.txt'' = (False, ''deny rule'')"
proof (intro conjI)
  show "glob ''rm *'' ''rm *.txt''" by code_simp
  show "glob_matches ''rm *'' ''rm *.txt'' = Some False" by code_simp
  show "check_access \<lparr>r_allow = [], r_deny = [''Bash(rm *)'']\<rparr> ''bash'' ''rm *.txt'' = (True, ''allowed'')" by code_simp
  show "check_access \<lparr>r_allow = [], r_deny = [''Bash(rm *)'']\<rparr> ''bash'' ''rm old.txt'' = (False, ''deny rule'')" by code_simp
qed

section \<open>Concrete calls\<close>

definition ex_files :: rule_files where
  "ex_files = \<lparr>rf_local = None, rf_global = Some (Inr (JObj [(''allow'', JArr [JStr ''Bash(*)''])]))\<rparr>"

definition ex_grant :: json where
  "ex_grant = JObj [(''action'', JStr ''grant''), (''effect'', JStr ''deny''), (''rule'', JStr ''Bash(rm x)'')]"

definition ex_saved :: rule_files where
  "ex_saved = ex_files\<lparr>rf_local := Some (Inr (JObj [(''permissions'',
     rules_value \<lparr>r_allow = [''Bash(*)''], r_deny = [''Bash(rm x)'']\<rparr>)]))\<rparr>"

lemma ex_trims: "trim ''Bash(*)'' = ''Bash(*)''" "trim ''Bash(rm x)'' = ''Bash(rm x)''"
  by code_simp+

lemma ex_load: "load_rules ex_files = Inr \<lparr>r_allow = [''Bash(*)''], r_deny = []\<rparr>"
  by (simp add: load_rules_def ex_files_def load_file_def parse_rules_def rule_strings_def ex_trims map_filter_simps)

lemma ex_grant_call: "\<exists>reply. permissions (\<lambda>_. ''p'') (Inr ()) ex_grant ex_files = (ex_saved, Inr reply)"
  unfolding permissions_def ex_load
  by (simp add: ex_grant_def ex_saved_def or_field_def ex_trims change_rules_def save_rules_def Let_def)

theorem granted_denial_enforced_witness:
  "\<exists>r. load_rules ex_saved = Inr r \<and> ''Bash(rm x)'' \<in> set (r_deny r) \<and>
     check_access r ''bash'' ''rm x'' = (False, ''deny rule'')"
proof -
  from ex_grant_call obtain reply where call: "permissions (\<lambda>_. ''p'') (Inr ()) ex_grant ex_files = (ex_saved, Inr reply)" ..
  have "get_str ''action'' ex_grant = Some ''grant''" "get_str ''effect'' ex_grant = Some ''deny''"
    "or_field ''rule'' ''capability'' ex_grant = Some ''Bash(rm x)''"
    by (simp_all add: ex_grant_def or_field_def)
  moreover have "rule_matches (trim ''Bash(rm x)'') ''bash'' ''rm x''" unfolding ex_trims by code_simp
  ultimately show ?thesis using granted_denial_enforced [OF call] ex_trims by metis
qed


end
