(* ===== verification/Permission_Gate.thy ===== *)
theory Permission_Gate
  imports Json
begin

text \<open>
  \<open>packages/rpi-permission-gate/src/lib.rs\<close>: the plugin that asks the user before a \<open>bash\<close>, \<open>write\<close> or
  \<open>edit\<close> call. The host is a parameter: its answer to opening the dialog, and the list of its answers
  to the polls; a handler that is still polling has the result \<open>None\<close>.
\<close>

section \<open>Switching the gate on\<close>

definition flag_is_on :: "json option \<Rightarrow> bool" where
  "flag_is_on value = (case value of
     Some (JBool on) \<Rightarrow> on
   | Some (JStr s) \<Rightarrow> s \<noteq> [] \<and> \<not> eq_ignore_ascii_case s ''false''
   | _ \<Rightarrow> False)"

definition env_flag :: "string option \<Rightarrow> bool" where
  "env_flag var = (case var of None \<Rightarrow> False | Some s \<Rightarrow>
     let value = trim s in value \<noteq> [] \<and> \<not> eq_ignore_ascii_case value ''false'' \<and> value \<noteq> ''0'')"

definition gate_enabled :: "bool \<Rightarrow> bool \<Rightarrow> bool \<Rightarrow> bool" where
  "gate_enabled bypass flag environment \<longleftrightarrow> \<not> bypass \<and> (flag \<or> environment)"

text \<open>What registration stores in \<open>ENABLED\<close>, from the host's flags and the environment variable.\<close>

definition register_enabled :: "(string \<Rightarrow> json option) \<Rightarrow> (string \<Rightarrow> string option) \<Rightarrow> bool" where
  "register_enabled cli env = gate_enabled (flag_is_on (cli ''bypass'')) (flag_is_on (cli ''permission-gate''))
     (env_flag (env ''RPI_PERMISSION_GATE''))"

section \<open>The dialog\<close>

definition truncate_text :: "string \<Rightarrow> nat \<Rightarrow> string" where
  "truncate_text s n = (if char_count s \<le> n then s else take_chars n s @ ellipsis)"

definition gate_summary :: "string \<Rightarrow> json \<Rightarrow> string" where
  "gate_summary tool args =
     (if tool = ''bash'' then
        (case get_str ''command'' args of Some c \<Rightarrow> truncate_text c 400 | None \<Rightarrow> ''run a shell command'')
      else if tool = ''write'' then
        ''write '' @ unwrap_or ''file'' (get_str ''path'' args) @ '' ('' @
          show_nat (unwrap_or 0 (map_option length (get_str ''content'' args))) @ '' bytes)''
      else if tool = ''edit'' then
        ''edit '' @ unwrap_or ''file'' (get_str ''path'' args) @ '' ('' @
          show_nat (unwrap_or 0 (map_option length (get_array ''edits'' args))) @ '' replacement(s))''
      else tool)"

definition permission_ui :: "string \<Rightarrow> json \<Rightarrow> json" where
  "permission_ui tool args = JObj
     [(''kind'', JStr ''confirm''), (''purpose'', JStr ''permission''), (''id'', JStr ''permission-gate''),
      (''question'', JStr (''Allow '' @ tool @ ''?'')), (''message'', JStr (gate_summary tool args)),
      (''options'', JArr
        [JObj [(''title'', JStr ''Yes''), (''permission'', JStr ''allow_once'')],
         JObj [(''title'', JStr ''No''), (''permission'', JStr ''reject_once'')]])]"

definition open_request :: "string \<Rightarrow> string \<Rightarrow> string \<Rightarrow> json \<Rightarrow> json" where
  "open_request request_id call_id tool args = JObj
     [(''op'', JStr ''open''), (''requestId'', JStr request_id), (''toolCallId'', JStr call_id),
      (''ui'', permission_ui tool args)]"

definition answer_values :: "json \<Rightarrow> string list" where
  "answer_values answer = (case get_array ''values'' answer of
     Some values \<Rightarrow> List.map_filter as_str values
   | None \<Rightarrow> (case get_str ''value'' answer of Some v \<Rightarrow> [v] | None \<Rightarrow> []))"

definition response_status :: "json \<Rightarrow> string" where
  "response_status response = unwrap_or ''pending'' (get_str ''status'' response)"

definition says_yes :: "json \<Rightarrow> bool" where
  "says_yes response = (case answer_values (unwrap_or JNull (jget ''answer'' response)) of
     [] \<Rightarrow> False | v # _ \<Rightarrow> eq_ignore_ascii_case v ''yes'')"

fun poll_dialog :: "json res list \<Rightarrow> bool res option" where
  "poll_dialog [] = None"
| "poll_dialog (Inl e # rest) = Some (Inl e)"
| "poll_dialog (Inr response # rest) =
     (if response_status response = ''answered'' then Some (Inr (says_yes response))
      else if response_status response = ''cancelled'' then Some (Inr False)
      else poll_dialog rest)"

text \<open>\<open>ui\<close> is the host's dialog: the reply to a request that opens one, and the replies to the polls.\<close>

definition confirm :: "(json \<Rightarrow> json res) \<Rightarrow> json res list \<Rightarrow> string \<Rightarrow> string \<Rightarrow> string \<Rightarrow> json \<Rightarrow> bool res option" where
  "confirm ui polls request_id call_id tool args = (case ui (open_request request_id call_id tool args) of
     Inl e \<Rightarrow> Some (Inl e)
   | Inr _ \<Rightarrow> poll_dialog polls)"

section \<open>The handler\<close>

datatype verdict = Continue | Abort

record tool_call =
  tc_id :: string
  tc_name :: string
  tc_args :: json

definition on_tool_call :: "bool \<Rightarrow> (json \<Rightarrow> json res) option \<Rightarrow> json res list \<Rightarrow> string \<Rightarrow> tool_call option \<Rightarrow> verdict option" where
  "on_tool_call enabled runtime polls request_id event =
     (if \<not> enabled then Some Continue
      else case event of
        None \<Rightarrow> Some Continue
      | Some call \<Rightarrow>
          if tc_name call \<notin> {''bash'', ''write'', ''edit''} then Some Continue
          else case runtime of
            None \<Rightarrow> Some Abort
          | Some ui \<Rightarrow> map_option (\<lambda>r. case r of Inr True \<Rightarrow> Continue | _ \<Rightarrow> Abort)
              (confirm ui polls request_id (tc_id call) (tc_name call) (tc_args call)))"

section \<open>Failing closed\<close>

definition pending :: "json res \<Rightarrow> bool" where
  "pending m = (case m of Inl _ \<Rightarrow> False | Inr r \<Rightarrow> response_status r \<noteq> ''answered'' \<and> response_status r \<noteq> ''cancelled'')"

lemma poll_dialog_allow:
  "poll_dialog polls = Some (Inr True) \<longleftrightarrow>
     (\<exists>before response rest. polls = before @ Inr response # rest \<and> list_all pending before \<and>
        response_status response = ''answered'' \<and> says_yes response)"
proof (induction polls rule: poll_dialog.induct)
  case (2 e rest)
  have "\<not> (Inl e # rest = before @ Inr response # rest' \<and> list_all pending before)" for before response rest'
    by (cases before) (auto simp: pending_def)
  then show ?case by auto
next
  case (3 response rest)
  show ?case
  proof (cases "pending (Inr response)")
    case True
    then have st: "response_status response \<noteq> ''answered''" "response_status response \<noteq> ''cancelled''"
      by (simp_all add: pending_def)
    then have step: "poll_dialog (Inr response # rest) = poll_dialog rest" by simp
    have IH: "poll_dialog rest = Some (Inr True) \<longleftrightarrow> (\<exists>before r rest'. rest = before @ Inr r # rest' \<and> list_all pending before \<and>
        response_status r = ''answered'' \<and> says_yes r)"
      using 3 st by simp
    have shift: "(\<exists>before r rest'. rest = before @ Inr r # rest' \<and> list_all pending before \<and>
        response_status r = ''answered'' \<and> says_yes r) \<longleftrightarrow> (\<exists>before r rest'. Inr response # rest = before @ Inr r # rest' \<and> list_all pending before \<and>
        response_status r = ''answered'' \<and> says_yes r)" (is "?L \<longleftrightarrow> ?R")
    proof
      assume ?L
      then obtain before r rest' where "rest = before @ Inr r # rest'" "list_all pending before"
        "response_status r = ''answered''" "says_yes r" by blast
      with True show ?R by (intro exI [of _ "Inr response # before"] exI [of _ r] exI [of _ rest']) simp
    next
      assume ?R
      then obtain before r rest' where r: "Inr response # rest = before @ Inr r # rest'" "list_all pending before"
        "response_status r = ''answered''" "says_yes r" by blast
      with True obtain before' where "before = Inr response # before'" by (cases before) (auto simp: pending_def)
      with r show ?L by auto
    qed
    show ?thesis unfolding step IH shift ..
  next
    case False
    have only: "before = [] \<and> r = response"
      if "Inr response # rest = before @ Inr r # rest'" "list_all pending before" for before r rest'
      using False that by (cases before) auto
    have "poll_dialog (Inr response # rest) = Some (Inr True) \<longleftrightarrow> response_status response = ''answered'' \<and> says_yes response"
      using False by (auto simp: pending_def)
    moreover have "Inr response # rest = [] @ Inr response # rest \<and> list_all pending []" by simp
    ultimately show ?thesis using only by blast
  qed
qed simp

text \<open>
  C28. The gate fails closed: an enabled gate lets a \<open>bash\<close>, \<open>write\<close> or \<open>edit\<close> call through exactly when
  the host could be reached, it opened the dialog, and its first answer that is not a pending one is
  an answer whose first value is yes. No runtime, a failing dialog, a cancelled or empty answer block
  the call.
\<close>

theorem gate_fails_closed:
  "on_tool_call True runtime polls request_id (Some call) = Some Continue \<longleftrightarrow>
     (if tc_name call \<in> {''bash'', ''write'', ''edit''} then \<exists>ui opened before response rest. runtime = Some ui \<and>
        ui (open_request request_id (tc_id call) (tc_name call) (tc_args call)) = Inr opened \<and>
        polls = before @ Inr response # rest \<and> list_all pending before \<and>
        response_status response = ''answered'' \<and> says_yes response
      else True)"
proof (cases "tc_name call \<notin> {''bash'', ''write'', ''edit''}")
  case True
  then show ?thesis by (simp add: on_tool_call_def)
next
  case gated: False
  show ?thesis
  proof (cases runtime)
    case None
    with gated show ?thesis by (simp add: on_tool_call_def)
  next
    case (Some ui)
    define answer where "answer = confirm ui polls request_id (tc_id call) (tc_name call) (tc_args call)"
    have "on_tool_call True runtime polls request_id (Some call) =
        map_option (\<lambda>r. case r of Inr True \<Rightarrow> Continue | _ \<Rightarrow> Abort) answer"
      unfolding on_tool_call_def answer_def using gated Some by (simp only: if_False simp_thms option.case)
    moreover have "(case r of Inr True \<Rightarrow> Continue | _ \<Rightarrow> Abort) = Continue \<longleftrightarrow> r = Inr True" for r :: "bool res"
      by (cases r) (simp_all split: bool.split)
    ultimately have "on_tool_call True runtime polls request_id (Some call) = Some Continue \<longleftrightarrow> answer = Some (Inr True)"
      by (cases answer) simp_all
    also have "answer = Some (Inr True) \<longleftrightarrow> (\<exists>opened. ui (open_request request_id (tc_id call) (tc_name call) (tc_args call)) = Inr opened) \<and>
        poll_dialog polls = Some (Inr True)"
      unfolding answer_def by (auto simp: confirm_def split: sum.splits)
    finally have allowed: "on_tool_call True runtime polls request_id (Some call) = Some Continue \<longleftrightarrow>
        (\<exists>opened. ui (open_request request_id (tc_id call) (tc_name call) (tc_args call)) = Inr opened) \<and>
        poll_dialog polls = Some (Inr True)" .
    have name: "tc_name call \<in> {''bash'', ''write'', ''edit''}" using gated by blast
    show ?thesis unfolding allowed poll_dialog_allow if_P [OF name] unfolding Some by blast
  qed
qed

end
