(* ===== verification/Todo.thy ===== *)
theory Todo
  imports Json Keyed_List
begin

text \<open>
  The todo list of \<open>packages/rpi-todo/src/lib.rs\<close>: a list kept as self-contained snapshots on the
  session's branch. Every call reads the newest snapshot, builds a candidate, appends it, and publishes
  it only after an acknowledgement; an outcome that is unknown blocks the store until the session is
  reloaded. The host is a parameter: its reply to reading the branch and to an append.
\<close>

section \<open>State\<close>

definition TODO_ENTRY :: string where "TODO_ENTRY = ''todo-state''"

record todo =
  td_id :: u64
  td_text :: string
  td_done :: bool
  td_in_progress :: bool

record todo_state =
  ts_todos :: "todo list"
  ts_next_id :: u64

definition default_todos :: todo_state where
  "default_todos = \<lparr>ts_todos = [], ts_next_id = 0\<rparr>"

datatype recovery = Uninitialized | Ready | Blocked string

record todo_store =
  sto_committed :: todo_state
  sto_recovery :: recovery

definition initial_todo_store :: todo_store where
  "initial_todo_store = \<lparr>sto_committed = default_todos, sto_recovery = Uninitialized\<rparr>"

datatype runtime_failure = Rejected string | InvalidResponse string

definition failure_text :: "runtime_failure \<Rightarrow> string" where
  "failure_text f = (case f of Rejected m \<Rightarrow> m | InvalidResponse m \<Rightarrow> m)"

record todo_host =
  th_branch :: "runtime_failure + json"
  th_append :: "json \<Rightarrow> runtime_failure + json"

section \<open>Snapshots\<close>

definition parse_todo :: "json \<Rightarrow> todo option" where
  "parse_todo item = Option.bind (get_u64 ''id'' item) (\<lambda>i. map_option (\<lambda>s.
     \<lparr>td_id = i, td_text = s,
      td_done = unwrap_or (get_str ''status'' item = Some ''completed'') (get_bool ''done'' item),
      td_in_progress = (get_str ''status'' item = Some ''in_progress'')\<rparr>) (get_str ''text'' item))"

definition parse_todos :: "json \<Rightarrow> todo_state option" where
  "parse_todos value = Option.bind (get_array ''todos'' value) (\<lambda>items.
     map_option (\<lambda>ts. \<lparr>ts_todos = ts,
         ts_next_id = fold (\<lambda>t n. max n (sat_add (td_id t) 1)) ts (unwrap_or 0 (get_u64 ''nextId'' value))\<rparr>)
       (those (map parse_todo items)))"

definition todo_json :: "todo \<Rightarrow> json" where
  "todo_json t = JObj [(''id'', JUint (td_id t)), (''text'', JStr (td_text t)), (''done'', JBool (td_done t)),
     (''status'', JStr (if td_done t then ''completed'' else if td_in_progress t then ''in_progress'' else ''pending''))]"

definition state_json :: "todo_state \<Rightarrow> json" where
  "state_json s = JObj [(''todos'', JArr (map todo_json (ts_todos s))), (''nextId'', JUint (ts_next_id s))]"

section \<open>Reading the branch\<close>

definition read_branch :: "todo_host \<Rightarrow> todo_state res" where
  "read_branch h = (case th_branch h of
     Inl f \<Rightarrow> Inl (failure_text f)
   | Inr value \<Rightarrow>
       if get_bool ''filtered'' value \<noteq> Some True then Inl ''branch response did not confirm filtered: true''
       else bindR (ok_or ''branch response has no entries array'' (get_array ''entries'' value)) (\<lambda>entries.
         if length entries > 1 then Inl ''branch response exceeded snapshot limit''
         else (case entries of
             [] \<Rightarrow> Inr default_todos
           | entry # _ \<Rightarrow>
               if get_str ''type'' entry \<noteq> Some ''custom'' \<or> get_str ''customType'' entry \<noteq> Some TODO_ENTRY
               then Inl ''branch response contains an unexpected entry''
               else ok_or ''invalid todo-state snapshot'' (parse_todos (unwrap_or JNull (jget ''data'' entry))))))"

definition restore_from_branch :: "todo_host \<Rightarrow> todo_store \<Rightarrow> todo_store \<times> unit res" where
  "restore_from_branch h st = (case read_branch h of
     Inr restored \<Rightarrow> (st\<lparr>sto_committed := restored, sto_recovery := Ready\<rparr>, Inr ())
   | Inl e \<Rightarrow>
       let error = ''todo restore failed: '' @ e @ ''; explicitly reload the session before retrying''
       in (st\<lparr>sto_recovery := Blocked error\<rparr>, Inl error))"

definition current_state :: "todo_host \<Rightarrow> todo_store \<Rightarrow> todo_store \<times> todo_state res" where
  "current_state h st = (case sto_recovery st of
     Blocked e \<Rightarrow> (st, Inl e)
   | _ \<Rightarrow> (case restore_from_branch h st of
       (st', Inl e) \<Rightarrow> (st', Inl e)
     | (st', Inr _) \<Rightarrow> (st', Inr (sto_committed st'))))"

text \<open>The handler of \<open>SessionStart\<close> and \<open>SessionTree\<close>.\<close>

definition todo_session_event :: "todo_host \<Rightarrow> todo_store \<Rightarrow> todo_store \<times> nat" where
  "todo_session_event h st = (case restore_from_branch h st of (st', r) \<Rightarrow> (st', if is_ok r then 0 else 1))"

section \<open>Rendering\<close>

definition render_todo :: "todo \<Rightarrow> string" where
  "render_todo t = ''['' @ (if td_done t then [CHR 0xE2, CHR 0x9C, CHR 0x93]
       else if td_in_progress t then [CHR 0xE2, CHR 0x80, CHR 0xA2] else '' '') @
     ''] #'' @ show_nat (unat (td_id t)) @ '': '' @ td_text t"

definition render_todos :: "todo_state \<Rightarrow> bool \<Rightarrow> string" where
  "render_todos s include_done =
     (if ts_todos s = [] then ''No todos''
      else join [CHR 0x0A]
        ((show_nat (length (filter td_done (ts_todos s))) @ ''/'' @ show_nat (length (ts_todos s)) @ '' completed'')
         # map render_todo (filter (\<lambda>t. include_done \<or> \<not> td_done t) (ts_todos s))))"

definition todo_result :: "string \<Rightarrow> todo_state \<Rightarrow> string \<Rightarrow> string option \<Rightarrow> json" where
  "todo_result action s body error = JObj
     [(''content'', JArr [JObj [(''type'', JStr ''text''), (''text'', JStr body)]]),
      (''details'', JObj ([(''todos'', JArr (map todo_json (ts_todos s))), (''nextId'', JUint (ts_next_id s)),
         (''action'', JStr action)] @ (case error of None \<Rightarrow> [] | Some e \<Rightarrow> [(''error'', JStr e)])))]"

section \<open>Candidates\<close>

definition not_found :: "string \<Rightarrow> u64 \<Rightarrow> todo_state \<Rightarrow> todo_state \<times> json" where
  "not_found action i s = (s, todo_result action s
     (''Todo #'' @ show_nat (unat i) @
      '' not found; call `todo` with action `list` and use the returned zero-based id'') (Some ''todo not found''))"

definition update_todo :: "u64 \<Rightarrow> (todo \<Rightarrow> todo) \<Rightarrow> todo_state \<Rightarrow> todo_state" where
  "update_todo i f s = s\<lparr>ts_todos := modify_first (\<lambda>t. td_id t = i) f (ts_todos s)\<rparr>"

definition find_todo :: "u64 \<Rightarrow> todo_state \<Rightarrow> todo option" where
  "find_todo i s = find (\<lambda>t. td_id t = i) (ts_todos s)"

interpretation todos: keyed_list td_id "\<lambda>k xs. find (\<lambda>t. td_id t = k) xs"
    "\<lambda>k f xs. modify_first (\<lambda>t. td_id t = k) f xs"
  by unfold_locales auto

definition add_todo :: "json \<Rightarrow> todo_state \<Rightarrow> todo_state \<times> json" where
  "add_todo params s =
     (let body = trim (unwrap_or '''' (get_str ''text'' params))
      in if body = [] then (s, todo_result ''add'' s ''Error: text required for add'' (Some ''text required''))
         else let t = \<lparr>td_id = ts_next_id s, td_text = body, td_done = False, td_in_progress = False\<rparr>;
                  s' = \<lparr>ts_todos = ts_todos s @ [t], ts_next_id = sat_add (td_id t) 1\<rparr>
              in (s', todo_result ''add'' s' (render_todos s' True) None))"

definition toggle_todo :: "json \<Rightarrow> todo_state \<Rightarrow> (todo_state \<times> json) res" where
  "toggle_todo params s =
     bindR (ok_or ''id required for toggle'' (get_u64 ''id'' params)) (\<lambda>i.
     Inr (if find_todo i s = None then not_found ''toggle'' i s
          else let s' = update_todo i (\<lambda>t. t\<lparr>td_done := \<not> td_done t, td_in_progress := False\<rparr>) s
               in (s', todo_result ''toggle'' s' (render_todos s' True) None)))"

definition set_todo :: "json \<Rightarrow> todo_state \<Rightarrow> (todo_state \<times> json) res" where
  "set_todo params s =
     bindR (ok_or ''id required for update'' (get_u64 ''id'' params)) (\<lambda>i.
     bindR (ok_or ''status required for update'' (get_str ''status'' params)) (\<lambda>status.
     if status \<notin> {''pending'', ''in_progress'', ''completed''}
     then Inl ''status must be pending, in_progress, or completed''
     else Inr (if find_todo i s = None then not_found ''update'' i s
               else let s' = update_todo i (\<lambda>t. t\<lparr>td_done := (status = ''completed''),
                             td_in_progress := (status = ''in_progress'')\<rparr>) s
                    in (s', todo_result ''update'' s' (render_todos s' True) None))))"

definition candidate :: "json \<Rightarrow> todo_state \<Rightarrow> (todo_state \<times> json) res" where
  "candidate params s =
     (let action = unwrap_or ''list'' (get_str ''action'' params)
      in if action = ''list''
         then Inr (s, todo_result action s (render_todos s (unwrap_or False (get_bool ''includeDone'' params))) None)
         else if action = ''add'' then Inr (add_todo params s)
         else if action = ''toggle'' then toggle_todo params s
         else if action = ''update'' then set_todo params s
         else if action = ''clear'' then Inr (default_todos, todo_result action default_todos (render_todos default_todos True) None)
         else Inl ''action must be one of: list, add, update, toggle, clear'')"

section \<open>The tool\<close>

definition append_request :: "todo_state \<Rightarrow> json" where
  "append_request s = JObj [(''customType'', JStr TODO_ENTRY), (''data'', state_json s)]"

definition usable_id :: "json \<Rightarrow> bool" where
  "usable_id value = (case get_str ''entryId'' value of None \<Rightarrow> False | Some i \<Rightarrow> trim i \<noteq> [])"

definition commit_todos :: "todo_host \<Rightarrow> todo_state \<Rightarrow> json \<Rightarrow> todo_store \<Rightarrow> todo_store \<times> json res" where
  "commit_todos h next response st =
     (let unknown = (\<lambda>reason.
        let error = ''todo append acknowledgement is unknown: '' @ reason @ ''; explicitly reload the session before retrying''
        in (st\<lparr>sto_recovery := Blocked error\<rparr>, Inl error))
      in case th_append h (append_request next) of
           Inr value \<Rightarrow> if usable_id value then (st\<lparr>sto_committed := next\<rparr>, Inr response)
                        else unknown ''AppendEntry returned no usable entryId''
         | Inl (Rejected e) \<Rightarrow> (st, Inl (''todo persistence failed: '' @ e))
         | Inl (InvalidResponse e) \<Rightarrow> unknown e)"

definition todo_call :: "todo_host \<Rightarrow> json \<Rightarrow> todo_store \<Rightarrow> todo_store \<times> json res" where
  "todo_call h params st = (case current_state h st of
     (st, Inl e) \<Rightarrow> (st, Inl e)
   | (st, Inr committed) \<Rightarrow> (case candidate params committed of
       Inl e \<Rightarrow> (st, Inl e)
     | Inr (next, response) \<Rightarrow>
         if next = committed then (st, Inr response) else commit_todos h next response st))"

section \<open>What a candidate keeps\<close>

text \<open>A finished item is not in progress, and the next id lies behind every id in use.\<close>

definition todo_ok :: "todo_state \<Rightarrow> bool" where
  "todo_ok s \<longleftrightarrow> list_all (\<lambda>t. \<not> (td_done t \<and> td_in_progress t) \<and> sat_add (td_id t) 1 \<le> ts_next_id s) (ts_todos s)"

lemma default_todos_ok: "todo_ok default_todos"
  by (simp add: todo_ok_def default_todos_def)

lemma sat_add_ge: "a \<le> sat_add (a :: u64) 1"
proof -
  have "unat a < 2 ^ 64" using unsigned_less [of a] by simp
  then show ?thesis by (simp add: word_le_nat_alt unat_sat_add min_def)
qed

lemma sat_add_le_self: "sat_add (a :: u64) 1 \<le> a \<Longrightarrow> a = - 1"
proof -
  assume "sat_add a 1 \<le> a"
  then have "min (unat a + 1) (2 ^ 64 - 1) \<le> unat a" by (simp add: word_le_nat_alt unat_sat_add)
  moreover have "unat a < 2 ^ 64" using unsigned_less [of a] by simp
  ultimately have "unat a = unat (- 1 :: u64)" by (simp add: unsigned_minus_1_eq_mask mask_eq_exp_minus_1)
  then show ?thesis by (simp add: word_unat_eq_iff)
qed

lemma update_todo_ok:
  assumes "todo_ok s" and "\<And>t. td_id (f t) = td_id t \<and> \<not> (td_done (f t) \<and> td_in_progress (f t))"
  shows "todo_ok (update_todo i f s)"
proof -
  have "\<not> (td_done t \<and> td_in_progress t) \<and> sat_add (td_id t) 1 \<le> ts_next_id s"
    if "t \<in> set (modify_first (\<lambda>t. td_id t = i) f (ts_todos s))" for t
  proof -
    from todos.update_members [OF that] obtain x where "x \<in> set (ts_todos s)" "t = x \<or> t = f x"
      using todos.lookup_key by blast
    with assms show ?thesis by (auto simp: todo_ok_def list_all_iff)
  qed
  then show ?thesis by (simp add: todo_ok_def update_todo_def list_all_iff)
qed

lemma update_todo_ids: "(\<And>t. td_id (f t) = td_id t) \<Longrightarrow> map td_id (ts_todos (update_todo i f s)) = map td_id (ts_todos s)"
  by (simp add: update_todo_def todos.update_keys)

lemma update_todo_next [simp]: "ts_next_id (update_todo i f s) = ts_next_id s"
  by (simp add: update_todo_def)

lemma add_todo_ok: "todo_ok s \<Longrightarrow> todo_ok (fst (add_todo params s))"
  using sat_add_ge [of "ts_next_id s"]
  by (auto simp: add_todo_def Let_def todo_ok_def list_all_iff intro: order_trans)

lemma add_todo_distinct:
  assumes "todo_ok s" and "distinct (map td_id (ts_todos s))" and "ts_next_id s \<noteq> - 1"
  shows "distinct (map td_id (ts_todos (fst (add_todo params s))))"
proof -
  have "ts_next_id s \<notin> td_id ` set (ts_todos s)"
    using assms(1,3) sat_add_le_self [of "ts_next_id s"] by (auto simp: todo_ok_def list_all_iff)
  with assms(2) show ?thesis by (simp add: add_todo_def Let_def)
qed

lemma candidate_cases:
  assumes "candidate params s = Inr (t, r)"
  shows "t = s \<or> t = default_todos \<or> t = fst (add_todo params s) \<or>
    (\<exists>i f. t = update_todo i f s \<and> (\<forall>t. td_id (f t) = td_id t \<and> \<not> (td_done (f t) \<and> td_in_progress (f t))))"
proof -
  define action where "action = unwrap_or ''list'' (get_str ''action'' params)"
  note body = assms [unfolded candidate_def Let_def action_def [symmetric]]
  consider "action = ''list''" | "action = ''add''" | "action = ''toggle''" | "action = ''update''" | "action = ''clear''"
    using body by (auto split: if_splits)
  then show ?thesis
  proof cases
    case 1
    with body show ?thesis by simp
  next
    case 2
    with body have "add_todo params s = (t, r)" by simp
    then show ?thesis by simp
  next
    case 3
    with body have "toggle_todo params s = Inr (t, r)" by simp
    then obtain i where "t = s \<or> t = update_todo i (\<lambda>t. t\<lparr>td_done := \<not> td_done t, td_in_progress := False\<rparr>) s"
      by (auto simp: toggle_todo_def bindR_Inr_iff not_found_def Let_def split: if_splits)
    moreover have "td_id (f t) = td_id t \<and> \<not> (td_done (f t) \<and> td_in_progress (f t))"
      if "f = (\<lambda>t. t\<lparr>td_done := \<not> td_done t, td_in_progress := False\<rparr>)" for f and t :: todo
      using that by simp
    ultimately show ?thesis by blast
  next
    case 4
    with body have "set_todo params s = Inr (t, r)" by simp
    then obtain i status where "t = s \<or>
        t = update_todo i (\<lambda>t. t\<lparr>td_done := (status = ''completed''), td_in_progress := (status = ''in_progress'')\<rparr>) s"
      by (auto simp: set_todo_def bindR_Inr_iff not_found_def Let_def split: if_splits)
    moreover have "td_id (f t) = td_id t \<and> \<not> (td_done (f t) \<and> td_in_progress (f t))"
      if "f = (\<lambda>t. t\<lparr>td_done := (status = ''completed''), td_in_progress := (status = ''in_progress'')\<rparr>)" for f and t :: todo
      using that by simp
    ultimately show ?thesis by blast
  next
    case 5
    with body show ?thesis by simp
  qed
qed

lemma candidate_ok: "candidate params s = Inr (t, r) \<Longrightarrow> todo_ok s \<Longrightarrow> todo_ok t"
  using candidate_cases [of params s t r] default_todos_ok add_todo_ok update_todo_ok by blast

lemma candidate_distinct:
  assumes "candidate params s = Inr (t, r)" and "todo_ok s" and "distinct (map td_id (ts_todos s))"
    and "ts_next_id s \<noteq> - 1"
  shows "distinct (map td_id (ts_todos t))"
  using candidate_cases [OF assms(1)] add_todo_distinct [OF assms(2-4), of params] assms(3) update_todo_ids
  by (auto simp: default_todos_def)

section \<open>Snapshots lose nothing\<close>

lemma parse_todo_json: "\<not> (td_done t \<and> td_in_progress t) \<Longrightarrow> parse_todo (todo_json t) = Some t"
  by (cases t) (auto simp: parse_todo_def todo_json_def)

lemma those_map_Some: "(\<And>x. x \<in> set xs \<Longrightarrow> f (g x) = Some x) \<Longrightarrow> those (map f (map g xs)) = Some xs"
  by (induction xs) auto

lemma fold_max_bounded: "(\<And>t. t \<in> set ts \<Longrightarrow> f t \<le> (n :: u64)) \<Longrightarrow> fold (\<lambda>t n. max n (f t)) ts n = n"
  by (induction ts) (auto simp: max_absorb1)

lemma parse_state_json: "todo_ok s \<Longrightarrow> parse_todos (state_json s) = Some s"
proof -
  assume ok: "todo_ok s"
  have "those (map parse_todo (map todo_json (ts_todos s))) = Some (ts_todos s)"
    using ok by (intro those_map_Some parse_todo_json) (auto simp: todo_ok_def list_all_iff)
  moreover have "fold (\<lambda>t n. max n (sat_add (td_id t) 1)) (ts_todos s) (ts_next_id s) = ts_next_id s"
    using ok by (intro fold_max_bounded) (auto simp: todo_ok_def list_all_iff)
  ultimately show ?thesis by (simp add: parse_todos_def state_json_def)
qed

text \<open>
  C29. Every accepted action of the todo list keeps its rules: a finished item is not in progress, ids are
  distinct and lie before the next id (unless all 64-bit ids are used up), and the snapshot written
  for the new state reads back as exactly that state.
\<close>

theorem todo_action_safe:
  assumes "todo_ok s" and "distinct (map td_id (ts_todos s))" and "ts_next_id s \<noteq> - 1"
    and "candidate params s = Inr (t, reply)"
  shows "todo_ok t \<and> distinct (map td_id (ts_todos t)) \<and> parse_todos (state_json t) = Some t"
  using candidate_ok [OF assms(4,1)] candidate_distinct [OF assms(4,1-3)] parse_state_json by blast

section \<open>Calls on a branch\<close>

text \<open>
  A host that answers with the newest snapshot of a branch of data values, and acknowledges an append
  with an entry id.
\<close>

definition branch_host :: "json list \<Rightarrow> string \<Rightarrow> todo_host" where
  "branch_host ds ack = \<lparr>th_branch = Inr (JObj [(''filtered'', JBool True), (''entries'', JArr
       (if ds = [] then [] else [JObj [(''type'', JStr ''custom''), (''customType'', JStr TODO_ENTRY), (''data'', last ds)]]))]),
     th_append = (\<lambda>_. Inr (JObj [(''entryId'', JStr ack)]))\<rparr>"

definition branch_state :: "json list \<Rightarrow> todo_state \<Rightarrow> bool" where
  "branch_state ds s \<longleftrightarrow> todo_ok s \<and> (if ds = [] then s = default_todos else last ds = state_json s)"

lemma read_branch_host: "branch_state ds s \<Longrightarrow> read_branch (branch_host ds ack) = Inr s"
  by (auto simp: read_branch_def branch_host_def branch_state_def parse_state_json split: if_splits)


text \<open>
  The todo store fails closed: once blocked, it answers every call with the recorded failure for any
  host reply and stays as it is; a host whose branch cannot be read, or that may have stored a
  snapshot without acknowledging it, blocks the store and publishes nothing; a refused append leaves
  the published state and does not block.
\<close>

theorem todo_store_fails_closed:
  "(sto_recovery st = Blocked e \<longrightarrow> todo_call h params st = (st, Inl e)) \<and>
   (current_state h st = (st1, Inr s) \<and> candidate params s = Inr (t, reply) \<and> t \<noteq> s \<longrightarrow>
     (case th_append h (append_request t) of
        Inl (Rejected m) \<Rightarrow> todo_call h params st = (st1, Inl (''todo persistence failed: '' @ m))
      | Inl (InvalidResponse _) \<Rightarrow> \<exists>m. todo_call h params st = (st1\<lparr>sto_recovery := Blocked m\<rparr>, Inl m)
      | Inr v \<Rightarrow> if usable_id v then todo_call h params st = (st1\<lparr>sto_committed := t\<rparr>, Inr reply)
                 else \<exists>m. todo_call h params st = (st1\<lparr>sto_recovery := Blocked m\<rparr>, Inl m))) \<and>
   ((\<forall>m. sto_recovery st \<noteq> Blocked m) \<and> read_branch h = Inl m \<longrightarrow>
     (\<exists>m'. todo_call h params st = (st\<lparr>sto_recovery := Blocked m'\<rparr>, Inl m')))"
proof (intro conjI impI)
  assume "sto_recovery st = Blocked e"
  then show "todo_call h params st = (st, Inl e)" by (simp add: todo_call_def current_state_def)
next
  assume a: "current_state h st = (st1, Inr s) \<and> candidate params s = Inr (t, reply) \<and> t \<noteq> s"
  then have "todo_call h params st = commit_todos h t reply st1" by (simp add: todo_call_def)
  then show "case th_append h (append_request t) of
        Inl (Rejected m) \<Rightarrow> todo_call h params st = (st1, Inl (''todo persistence failed: '' @ m))
      | Inl (InvalidResponse _) \<Rightarrow> \<exists>m. todo_call h params st = (st1\<lparr>sto_recovery := Blocked m\<rparr>, Inl m)
      | Inr v \<Rightarrow> if usable_id v then todo_call h params st = (st1\<lparr>sto_committed := t\<rparr>, Inr reply)
                 else \<exists>m. todo_call h params st = (st1\<lparr>sto_recovery := Blocked m\<rparr>, Inl m)"
    by (auto simp: commit_todos_def Let_def split: sum.split runtime_failure.split)
next
  assume a: "(\<forall>m. sto_recovery st \<noteq> Blocked m) \<and> read_branch h = Inl m"
  then show "\<exists>m'. todo_call h params st = (st\<lparr>sto_recovery := Blocked m'\<rparr>, Inl m')"
    by (cases "sto_recovery st") (auto simp: todo_call_def current_state_def restore_from_branch_def Let_def)
qed

section \<open>A concrete list\<close>

definition ex_item :: todo where
  "ex_item = \<lparr>td_id = 0, td_text = ''x'', td_done = False, td_in_progress = True\<rparr>"

definition ex_list :: todo_state where
  "ex_list = \<lparr>ts_todos = [ex_item], ts_next_id = 1\<rparr>"

definition ex_done :: todo_state where
  "ex_done = \<lparr>ts_todos = [ex_item\<lparr>td_done := True, td_in_progress := False\<rparr>], ts_next_id = 1\<rparr>"

definition ex_toggle :: json where
  "ex_toggle = JObj [(''action'', JStr ''toggle''), (''id'', JUint 0)]"

lemma ex_list_ok: "todo_ok ex_list" "distinct (map td_id (ts_todos ex_list))" "ts_next_id ex_list \<noteq> - 1"
  by (simp_all add: todo_ok_def ex_list_def ex_item_def sat_add_def)

lemma ex_toggle_call: "\<exists>reply. candidate ex_toggle ex_list = Inr (ex_done, reply)"
  by (simp add: candidate_def ex_toggle_def toggle_todo_def find_todo_def update_todo_def ex_list_def ex_item_def ex_done_def Let_def)

theorem todo_action_safe_witness:
  "todo_ok ex_done \<and> distinct (map td_id (ts_todos ex_done)) \<and> parse_todos (state_json ex_done) = Some ex_done"
  using ex_toggle_call todo_action_safe [OF ex_list_ok] by blast


theorem todo_store_fails_closed_witness:
  "todo_call (branch_host [] ''e1'') ex_toggle (initial_todo_store\<lparr>sto_recovery := Blocked ''lost''\<rparr>) =
     (initial_todo_store\<lparr>sto_recovery := Blocked ''lost''\<rparr>, Inl ''lost'')"
  using todo_store_fails_closed [of "initial_todo_store\<lparr>sto_recovery := Blocked ''lost''\<rparr>" "''lost''" "branch_host [] ''e1''" ex_toggle]
  by simp

end
