(* ===== verification/Text_Search.thy ===== *)
theory Text_Search
  imports Rust_Prelude "HOL-Library.Monad_Syntax"
begin

text \<open>
  Searching and cutting of UTF-8 text, as the standard library's \<open>str\<close> does it: \<open>find\<close>, \<open>contains\<close>,
  \<open>replace\<close>, \<open>split\<close>, \<open>get\<close> and the slices that panic. A panic is \<open>None\<close>. The text of a \<open>String\<close> is
  valid UTF-8, which is the predicate \<open>utf8\<close>; what matters of it here is that the first byte of a
  character says how many bytes the character has.
\<close>

section \<open>Valid UTF-8\<close>

definition char_width :: "char \<Rightarrow> nat" where
  "char_width c = (let n = of_char c :: nat in
     if n < 128 then 1 else if n < 192 then 0 else if n < 224 then 2 else if n < 240 then 3 else 4)"

function utf8 :: "string \<Rightarrow> bool" where
  "utf8 [] = True"
| "utf8 (c # cs) =
     (0 < char_width c \<and> char_width c - 1 \<le> length cs \<and> list_all is_cont (take (char_width c - 1) cs) \<and>
      utf8 (drop (char_width c - 1) cs))"
  by pat_completeness auto
termination by (relation "measure length") auto

lemma char_width_pos_iff: "0 < char_width c \<longleftrightarrow> \<not> is_cont c"
  by (auto simp: char_width_def is_cont_def Let_def)

lemma utf8_hd: "utf8 s \<Longrightarrow> s \<noteq> [] \<Longrightarrow> \<not> is_cont (hd s)"
  by (cases s) (auto simp: char_width_pos_iff)

lemma utf8_append_iff: "utf8 p \<Longrightarrow> utf8 (p @ t) \<longleftrightarrow> utf8 t"
  by (induction p rule: utf8.induct) auto

lemma utf8_append: "utf8 p \<Longrightarrow> utf8 t \<Longrightarrow> utf8 (p @ t)"
  by (simp add: utf8_append_iff)

lemma utf8_concat: "list_all utf8 ps \<Longrightarrow> utf8 (concat ps)"
  by (induction ps) (auto simp: utf8_append)

lemma utf8_ascii: "list_all (\<lambda>c. (of_char c :: nat) < 128) s \<Longrightarrow> utf8 s"
  by (induction s) (auto simp: char_width_def)

text \<open>A byte that is not part of a character's tail is at a boundary, and text cut there is valid.\<close>

lemma boundary_0 [simp]: "is_char_boundary 0 s"
  by (simp add: is_char_boundary_def)

lemma boundary_length [simp]: "is_char_boundary (length s) s"
  by (simp add: is_char_boundary_def)

lemma utf8_cut: "utf8 s \<Longrightarrow> is_char_boundary i s \<Longrightarrow> i \<le> length s \<Longrightarrow> utf8 (take i s) \<and> utf8 (drop i s)"
proof (induction s arbitrary: i rule: utf8.induct)
  case (2 c cs)
  define w where "w = char_width c - 1"
  from 2 have w: "0 < char_width c" "w \<le> length cs" "list_all is_cont (take w cs)" "utf8 (drop w cs)"
    by (auto simp: w_def)
  show ?case
  proof (cases i)
    case 0
    with 2 show ?thesis by simp
  next
    case (Suc j)
    have j: "w \<le> j"
    proof (rule ccontr)
      assume "\<not> w \<le> j"
      with w have "is_cont (cs ! j)" by (simp add: list_all_length)
      with \<open>\<not> w \<le> j\<close> w 2 Suc show False by (auto simp: is_char_boundary_def)
    qed
    have bound: "is_char_boundary (j - w) (drop w cs)"
      using 2 Suc j w by (auto simp: is_char_boundary_def)
    have "utf8 (take (j - w) (drop w cs)) \<and> utf8 (drop (j - w) (drop w cs))"
      using "2.IH" [folded w_def, of "j - w"] bound w 2(4) Suc by auto
    moreover have "char_width c - Suc 0 = w" by (simp add: w_def)
    ultimately show ?thesis using Suc j w by (simp add: take_drop min_def)
  qed
qed simp

lemmas utf8_take = utf8_cut [THEN conjunct1]
lemmas utf8_drop = utf8_cut [THEN conjunct2]

lemma boundary_of_utf8:
  assumes "utf8 (drop i s)" and "i \<le> length s"
  shows "is_char_boundary i s"
proof (cases "i < length s")
  case True
  then have "hd (drop i s) = s ! i" by (simp add: hd_drop_conv_nth)
  with True utf8_hd [OF assms(1)] show ?thesis by (simp add: is_char_boundary_def)
qed (use assms(2) in \<open>simp add: is_char_boundary_def\<close>)

lemma boundary_drop:
  "is_char_boundary i (drop k s) \<Longrightarrow> utf8 (drop k s) \<Longrightarrow> k + i \<le> length s \<Longrightarrow> is_char_boundary (k + i) s"
  by (metis add.commute add_le_imp_le_diff boundary_of_utf8 drop_drop length_drop utf8_drop)

section \<open>Slices\<close>

text \<open>\<open>s.get(i..j)\<close>: \<open>None\<close> when the range is not in order, out of bounds or cuts a character.
  The index \<open>&s[i..j]\<close> panics exactly where \<open>get\<close> returns \<open>None\<close>.\<close>

definition get_slice :: "string \<Rightarrow> nat \<Rightarrow> nat \<Rightarrow> string option" where
  "get_slice s i j =
     (if i \<le> j \<and> j \<le> length s \<and> is_char_boundary i s \<and> is_char_boundary j s
      then Some (take (j - i) (drop i s)) else None)"

abbreviation get_from :: "string \<Rightarrow> nat \<Rightarrow> string option" where
  "get_from s i \<equiv> get_slice s i (length s)"

definition get_nth :: "'a list \<Rightarrow> nat \<Rightarrow> 'a option" where
  "get_nth xs i = (if i < length xs then Some (xs ! i) else None)"

text \<open>The slice \<open>&xs[i..j]\<close> of a vector.\<close>

definition get_range :: "'a list \<Rightarrow> nat \<Rightarrow> nat \<Rightarrow> 'a list option" where
  "get_range xs i j = (if i \<le> j \<and> j \<le> length xs then Some (take (j - i) (drop i xs)) else None)"

lemma set_map_filter: "y \<in> set (List.map_filter f xs) \<longleftrightarrow> (\<exists>x\<in>set xs. f x = Some y)"
  by (force simp: List.map_filter_def)

lemma get_slice_Some_iff:
  "get_slice s i j = Some t \<longleftrightarrow>
     i \<le> j \<and> j \<le> length s \<and> is_char_boundary i s \<and> is_char_boundary j s \<and> t = take (j - i) (drop i s)"
  by (auto simp: get_slice_def)

lemma get_from_boundary: "is_char_boundary i s \<Longrightarrow> i \<le> length s \<Longrightarrow> get_from s i = Some (drop i s)"
  by (simp add: get_slice_def)

lemma get_nth_Some: "i < length xs \<Longrightarrow> get_nth xs i = Some (xs ! i)"
  by (simp add: get_nth_def)

lemma get_range_Some: "i \<le> j \<Longrightarrow> j \<le> length xs \<Longrightarrow> get_range xs i j = Some (take (j - i) (drop i xs))"
  by (simp add: get_range_def)

lemma upt_split: "i \<le> j \<Longrightarrow> j \<le> k \<Longrightarrow> [i..<k] = [i..<j] @ [j..<k]"
  by (metis le_add_diff_inverse upt_add_eq_append)

section \<open>Finding\<close>

definition occurs_at :: "string \<Rightarrow> string \<Rightarrow> nat \<Rightarrow> bool" where
  "occurs_at p s i \<longleftrightarrow> i + length p \<le> length s \<and> take (length p) (drop i s) = p"

fun find_str :: "string \<Rightarrow> string \<Rightarrow> nat option" where
  "find_str p [] = (if p = [] then Some 0 else None)"
| "find_str p (c # cs) = (if starts_with p (c # cs) then Some 0 else map_option Suc (find_str p cs))"

definition contains :: "string \<Rightarrow> string \<Rightarrow> bool" where
  "contains s p \<longleftrightarrow> find_str p s \<noteq> None"

lemma starts_with_iff: "starts_with p s \<longleftrightarrow> (\<exists>t. s = p @ t)"
  unfolding starts_with_def by (metis append_eq_conv_conj append_take_drop_id)

lemma occurs_at_0: "occurs_at p s 0 \<longleftrightarrow> starts_with p s"
  unfolding occurs_at_def starts_with_def
  by (metis add_0 drop0 length_take min.absorb_iff2 min.commute)

lemma occurs_at_Suc: "occurs_at p (c # cs) (Suc i) \<longleftrightarrow> occurs_at p cs i"
  by (simp add: occurs_at_def)

lemma occurs_at_drop: "k \<le> length s \<Longrightarrow> occurs_at p (drop k s) i \<longleftrightarrow> occurs_at p s (k + i)"
  by (auto simp: occurs_at_def add.commute)

lemma occurs_at_split: "occurs_at p s i \<longleftrightarrow> (\<exists>a b. s = a @ p @ b \<and> length a = i)"
proof
  assume "occurs_at p s i"
  then have "s = take i s @ p @ drop (i + length p) s" "length (take i s) = i"
    unfolding occurs_at_def by (auto, metis add.commute append_take_drop_id drop_drop)
  then show "\<exists>a b. s = a @ p @ b \<and> length a = i" by blast
qed (auto simp: occurs_at_def)

lemma find_str_empty [simp]: "find_str [] s = Some 0"
  by (cases s) (simp_all add: starts_with_def)

lemma find_str_Some:
  "find_str p s = Some i \<Longrightarrow> occurs_at p s i \<and> (\<forall>j<i. \<not> occurs_at p s j)"
proof (induction s arbitrary: i)
  case Nil
  then show ?case by (auto simp: occurs_at_def split: if_splits)
next
  case (Cons c cs)
  show ?case
  proof (cases "starts_with p (c # cs)")
    case True
    with Cons.prems show ?thesis by (simp add: occurs_at_0)
  next
    case False
    with Cons obtain k where "i = Suc k" "occurs_at p cs k" "\<forall>j<k. \<not> occurs_at p cs j" by auto
    with False show ?thesis by (auto simp: occurs_at_Suc occurs_at_0 less_Suc_eq_0_disj)
  qed
qed

lemma find_str_None: "find_str p s = None \<Longrightarrow> \<not> occurs_at p s i"
proof (induction s arbitrary: i)
  case Nil
  then show ?case by (auto simp: occurs_at_def split: if_splits)
next
  case (Cons c cs)
  then show ?case
    by (cases i) (auto simp: occurs_at_0 occurs_at_Suc split: if_splits)
qed

lemma contains_iff: "contains s p \<longleftrightarrow> (\<exists>a b. s = a @ p @ b)"
proof
  assume "contains s p"
  then obtain i where "find_str p s = Some i" by (auto simp: contains_def)
  then have "occurs_at p s i" by (simp add: find_str_Some)
  then show "\<exists>a b. s = a @ p @ b" by (auto simp: occurs_at_split)
next
  assume "\<exists>a b. s = a @ p @ b"
  then have "\<exists>i. occurs_at p s i" by (auto simp: occurs_at_split)
  then show "contains s p" by (cases "find_str p s") (auto simp: contains_def dest: find_str_None)
qed

text \<open>An occurrence of valid text in valid text starts and ends between characters.\<close>

lemma occurs_boundary_start:
  "utf8 p \<Longrightarrow> p \<noteq> [] \<Longrightarrow> occurs_at p s i \<Longrightarrow> is_char_boundary i s"
proof -
  assume p: "utf8 p" "p \<noteq> []" and "occurs_at p s i"
  then obtain a b where "s = a @ p @ b" "length a = i" by (auto simp: occurs_at_split)
  then have "s ! i = hd p" "i < length s" using p(2) by (auto simp: nth_append hd_conv_nth)
  with utf8_hd [OF p] show ?thesis by (simp add: is_char_boundary_def)
qed

lemma occurs_utf8:
  assumes "utf8 s" "utf8 p" "p \<noteq> []" and "occurs_at p s i"
  shows "is_char_boundary i s" and "is_char_boundary (i + length p) s"
proof -
  show start: "is_char_boundary i s" by (rule occurs_boundary_start) fact+
  from assms(4) obtain a b where s: "s = a @ p @ b" "length a = i" by (auto simp: occurs_at_split)
  with utf8_drop [OF assms(1) start] have "utf8 (p @ b)" by simp
  then have "utf8 b" by (simp add: utf8_append_iff assms(2))
  then show "is_char_boundary (i + length p) s"
    by (intro boundary_of_utf8) (use s in auto)
qed

section \<open>Replacing and splitting\<close>

abbreviation NL :: char where "NL \<equiv> CHR 0x0A"
abbreviation CR :: char where "CR \<equiv> CHR 0x0D"

text \<open>\<open>s.replace(p, r)\<close> for a pattern that is not empty: occurrences from the left, none of which
  overlaps the one before.\<close>

function replace_str :: "string \<Rightarrow> string \<Rightarrow> string \<Rightarrow> string" where
  "replace_str p r [] = []"
| "replace_str p r (c # cs) =
     (if p \<noteq> [] \<and> starts_with p (c # cs) then r @ replace_str p r (drop (length p - 1) cs)
      else c # replace_str p r cs)"
  by pat_completeness auto
termination by (relation "measure (\<lambda>(p, r, s). length s)") auto

lemma starts_with_simps [simp]:
  "starts_with [] s" "\<not> starts_with (c # p) []"
  "starts_with (c # p) (d # s) \<longleftrightarrow> c = d \<and> starts_with p s"
  by (auto simp: starts_with_def)

lemma replace_str_Cons:
  "p \<noteq> [] \<Longrightarrow> starts_with p (c # cs) \<Longrightarrow> replace_str p r (c # cs) = r @ replace_str p r (drop (length p - 1) cs)"
  "\<not> starts_with p (c # cs) \<Longrightarrow> replace_str p r (c # cs) = c # replace_str p r cs"
  by simp_all

declare replace_str.simps(2) [simp del]

definition count_char :: "char \<Rightarrow> string \<Rightarrow> nat" where
  "count_char d s = length (filter ((=) d) s)"

fun split_char :: "char \<Rightarrow> string \<Rightarrow> string list" where
  "split_char d [] = [[]]"
| "split_char d (c # cs) =
     (if c = d then [] # split_char d cs
      else case split_char d cs of [] \<Rightarrow> [[c]] | l # ls \<Rightarrow> (c # l) # ls)"

abbreviation lines_of :: "string \<Rightarrow> string list" where
  "lines_of \<equiv> split_char NL"

abbreviation join_lines :: "string list \<Rightarrow> string" where
  "join_lines \<equiv> join [NL]"

lemma count_char_simps [simp]:
  "count_char d [] = 0"
  "count_char d (c # cs) = (if c = d then Suc (count_char d cs) else count_char d cs)"
  "count_char d (s @ t) = count_char d s + count_char d t"
  by (auto simp: count_char_def)

lemma count_char_0_iff: "count_char d s = 0 \<longleftrightarrow> d \<notin> set s"
  by (induction s) auto

lemma split_char_not_Nil [simp]: "split_char d s \<noteq> []"
  by (cases s) (auto split: list.splits)

lemma split_char_cases: obtains l ls where "split_char d s = l # ls"
  by (cases "split_char d s") auto

lemma split_char_append: "split_char d (s @ d # t) = split_char d s @ split_char d t"
proof (induction s)
  case (Cons c cs)
  then show ?case by (cases "split_char d cs") auto
qed simp

lemma split_char_none: "d \<notin> set s \<Longrightarrow> split_char d s = [s]"
  by (induction s) auto

lemma length_split_char: "length (split_char d s) = Suc (count_char d s)"
proof (induction s)
  case (Cons c cs)
  then show ?case by (cases "split_char d cs") auto
qed simp

lemma split_char_free: "l \<in> set (split_char d s) \<Longrightarrow> d \<notin> set l"
proof (induction s arbitrary: l)
  case (Cons c cs)
  then show ?case by (cases "split_char d cs") (auto split: if_splits)
qed simp

lemma join_Cons: "xs \<noteq> [] \<Longrightarrow> join d (x # xs) = x @ d @ join d xs"
  by (cases xs) auto

lemma join_append: "xs \<noteq> [] \<Longrightarrow> ys \<noteq> [] \<Longrightarrow> join d (xs @ ys) = join d xs @ d @ join d ys"
proof (induction xs)
  case (Cons x xs)
  then show ?case by (cases "xs = []") (simp_all add: join_Cons)
qed simp

lemma join_split_char [simp]: "join [d] (split_char d s) = s"
proof (induction s)
  case (Cons c cs)
  obtain l ls where "split_char d cs = l # ls" by (rule split_char_cases)
  with Cons show ?case by (cases ls) (auto simp: join_Cons)
qed simp

lemma split_char_join:
  "ls \<noteq> [] \<Longrightarrow> (\<And>l. l \<in> set ls \<Longrightarrow> d \<notin> set l) \<Longrightarrow> split_char d (join [d] ls) = ls"
proof (induction ls)
  case (Cons l ls)
  show ?case
  proof (cases "ls = []")
    case True
    with Cons show ?thesis by (simp add: split_char_none)
  next
    case False
    with Cons have "split_char d (join [d] ls) = ls" by simp
    with False Cons.prems show ?thesis
      by (simp add: join_Cons split_char_append split_char_none)
  qed
qed simp

text \<open>A contiguous run of lines, joined again, is text of the file.\<close>

lemma contains_lines:
  assumes "i \<le> j" and "j < length (lines_of s)"
  shows "contains s (join_lines (take (Suc j - i) (drop i (lines_of s))))"
proof -
  let ?ls = "lines_of s" and ?m = "take (Suc j - i) (drop i (lines_of s))"
  have m: "?m \<noteq> []" using assms by simp
  have split: "?ls = take i ?ls @ ?m @ drop (Suc j) ?ls"
    using assms by (metis Suc_leD append_take_drop_id drop_drop le_add_diff_inverse2 less_imp_le_nat not_less_eq_eq)
  have "\<exists>a b. join_lines (xs @ ?m @ ys) = a @ join_lines ?m @ b" for xs ys
  proof -
    have right: "\<exists>b. join_lines (?m @ ys) = join_lines ?m @ b"
      using m by (cases "ys = []") (auto simp: join_append)
    show ?thesis
    proof (cases "xs = []")
      case False
      with m have "join_lines (xs @ ?m @ ys) = (join_lines xs @ [NL]) @ join_lines (?m @ ys)"
        by (simp add: join_append)
      with right show ?thesis by (metis append.assoc)
    next
      case True
      with right show ?thesis by (metis append_Nil)
    qed
  qed
  then show ?thesis unfolding contains_iff by (metis join_split_char split)
qed

section \<open>Operations that keep text valid\<close>

named_theorems utf8_intros \<open>valid text is closed under the operations\<close>

declare utf8_append [utf8_intros] utf8_concat [utf8_intros]

lemma utf8_chars_Cons:
  assumes "utf8 (c # cs)"
  shows "takeWhile is_cont cs = take (char_width c - 1) cs"
    and "dropWhile is_cont cs = drop (char_width c - 1) cs"
    and "chars (c # cs) = (c # take (char_width c - 1) cs) # chars (drop (char_width c - 1) cs)"
proof -
  let ?w = "char_width c - 1"
  have all: "list_all is_cont (take ?w cs)" and rest: "utf8 (drop ?w cs)" using assms by auto
  have stop: "drop ?w cs = [] \<or> \<not> is_cont (hd (drop ?w cs))" using utf8_hd [OF rest] by blast
  from takeWhile_dropWhile_group [OF all stop]
  show 1: "takeWhile is_cont cs = take ?w cs" and 2: "dropWhile is_cont cs = drop ?w cs" by simp_all
  then show "chars (c # cs) = (c # take ?w cs) # chars (drop ?w cs)" by simp
qed

lemma utf8_chars: "utf8 s \<Longrightarrow> list_all utf8 (chars s)"
proof (induction s rule: utf8.induct)
  case (2 c cs)
  have "utf8 (c # take (char_width c - 1) cs)" using 2(2) by auto
  then show ?case using 2 utf8_chars_Cons(3) [OF 2(2)] by auto
qed simp

lemma chars_append: "utf8 t \<Longrightarrow> chars (s @ t) = chars s @ chars t"
  using chars_take_boundary [of "length s" "s @ t"] utf8_hd [of t]
  by (cases t) (auto simp: is_char_boundary_def nth_append)

lemma char_count_append: "utf8 t \<Longrightarrow> char_count (s @ t) = char_count s + char_count t"
  by (simp add: char_count_def chars_append)

lemma chars_utf8_concat: "list_all utf8 gs \<Longrightarrow> chars (concat gs) = concat (map chars gs)"
  by (induction gs) (auto simp: chars_append utf8_concat)

lemma utf8_take_chars [utf8_intros]: "utf8 s \<Longrightarrow> utf8 (take_chars n s)"
  unfolding take_chars_def
  by (intro utf8_concat) (use utf8_chars [of s] in \<open>auto simp: list_all_iff dest: in_set_takeD\<close>)

lemma utf8_trim_end [utf8_intros]: "utf8 s \<Longrightarrow> utf8 (trim_end s)"
  unfolding trim_end_def
  by (intro utf8_concat) (use utf8_chars [of s] in \<open>auto simp: list_all_iff dest!: set_dropWhileD\<close>)

lemma utf8_trim [utf8_intros]: "utf8 s \<Longrightarrow> utf8 (trim s)"
  unfolding trim_def
  by (intro utf8_concat) (use utf8_chars [of s] in \<open>auto simp: list_all_iff dest!: set_dropWhileD\<close>)

lemma utf8_slice [utf8_intros]: "utf8 s \<Longrightarrow> get_slice s i j = Some t \<Longrightarrow> utf8 t"
proof -
  assume s: "utf8 s" and "get_slice s i j = Some t"
  then have t: "t = take (j - i) (drop i s)" "i \<le> j" "j \<le> length s" "is_char_boundary i s"
    "is_char_boundary j s" by (auto simp: get_slice_Some_iff)
  have "utf8 (drop i s)" using utf8_drop s t by simp
  moreover have "is_char_boundary (j - i) (drop i s)"
    using t by (auto simp: is_char_boundary_def)
  ultimately show ?thesis unfolding t(1) by (rule utf8_take) (use t in simp)
qed

lemma ascii_not_cont: "(of_char c :: nat) < 128 \<Longrightarrow> \<not> is_cont c"
  by (simp add: is_cont_def)

lemma utf8_cut_ascii:
  assumes "utf8 (a @ c # b)" and "(of_char c :: nat) < 128"
  shows "utf8 a" and "utf8 b"
proof -
  have bound: "is_char_boundary (length a) (a @ c # b)"
    using ascii_not_cont [OF assms(2)] by (simp add: is_char_boundary_def)
  from utf8_take [OF assms(1) bound] show "utf8 a" by simp
  from utf8_drop [OF assms(1) bound] have "utf8 (c # b)" by simp
  then show "utf8 b" using assms(2) by (simp add: char_width_def)
qed

lemma utf8_split_char:
  "utf8 s \<Longrightarrow> (of_char d :: nat) < 128 \<Longrightarrow> list_all utf8 (split_char d s)"
proof (induction "count_char d s" arbitrary: s)
  case 0
  then show ?case by (simp add: count_char_0_iff split_char_none)
next
  case (Suc n)
  then have "d \<in> set s" by (metis Zero_neq_Suc count_char_0_iff)
  then obtain a b where s: "s = a @ d # b" "d \<notin> set a" by (meson split_list_first)
  with Suc(2) have "n = count_char d b" by (simp add: count_char_0_iff)
  with Suc(1) utf8_cut_ascii Suc(3,4) s have "list_all utf8 (split_char d b)" by blast
  with s Suc(3,4) show ?case
    by (simp add: split_char_append split_char_none utf8_cut_ascii(1))
qed

lemma utf8_lines [utf8_intros]: "utf8 s \<Longrightarrow> list_all utf8 (lines_of s)"
  by (rule utf8_split_char) simp_all

lemma utf8_join [utf8_intros]: "utf8 sep \<Longrightarrow> list_all utf8 ls \<Longrightarrow> utf8 (join sep ls)"
  by (induction sep ls rule: join.induct) (auto intro: utf8_append)

lemma utf8_NL [utf8_intros]: "utf8 [NL]"
  by (simp add: char_width_def)

text \<open>Replacing, by the first occurrence.\<close>

lemma replace_str_find:
  "p \<noteq> [] \<Longrightarrow> replace_str p r s =
     (case find_str p s of None \<Rightarrow> s | Some i \<Rightarrow> take i s @ r @ replace_str p r (drop (i + length p) s))"
proof (induction s)
  case (Cons c cs)
  show ?case
  proof (cases "starts_with p (c # cs)")
    case True
    with Cons.prems show ?thesis by (cases p) (auto simp: replace_str_Cons)
  next
    case False
    with Cons show ?thesis by (auto simp: replace_str_Cons split: option.splits)
  qed
qed simp

lemma utf8_replace [utf8_intros]:
  "utf8 p \<Longrightarrow> p \<noteq> [] \<Longrightarrow> utf8 r \<Longrightarrow> utf8 s \<Longrightarrow> utf8 (replace_str p r s)"
proof (induction "length s" arbitrary: s rule: less_induct)
  case less
  show ?case
  proof (cases "find_str p s")
    case None
    with less show ?thesis by (simp add: replace_str_find)
  next
    case (Some i)
    then have occ: "occurs_at p s i" by (simp add: find_str_Some)
    with less have bounds: "is_char_boundary i s" "is_char_boundary (i + length p) s"
      by (auto intro: occurs_utf8)
    have len: "i + length p \<le> length s" using occ by (simp add: occurs_at_def)
    have "0 < length p" using less(3) by simp
    with len have shorter: "length (drop (i + length p) s) < length s" by (simp del: length_greater_0_conv)
    have "utf8 (take i s)" "utf8 (drop (i + length p) s)"
      using utf8_take utf8_drop less(5) bounds len by simp_all
    moreover have "utf8 (replace_str p r (drop (i + length p) s))"
      by (rule less(1) [OF shorter]) (use less calculation in auto)
    ultimately show ?thesis using Some less by (simp add: replace_str_find utf8_append)
  qed
qed

lemma find_str_boundary:
  "utf8 s \<Longrightarrow> utf8 p \<Longrightarrow> p \<noteq> [] \<Longrightarrow> find_str p s = Some i \<Longrightarrow>
   is_char_boundary i s \<and> is_char_boundary (i + length p) s \<and> i + length p \<le> length s"
  using occurs_utf8 find_str_Some by (metis occurs_at_def)

section \<open>Words\<close>

text \<open>\<open>split_whitespace\<close>\<close>

fun split_at_ws :: "string list \<Rightarrow> string list" where
  "split_at_ws [] = [[]]"
| "split_at_ws (g # gs) =
     (if is_ws g then [] # split_at_ws gs
      else case split_at_ws gs of [] \<Rightarrow> [g] | w # ws \<Rightarrow> (g @ w) # ws)"

definition split_whitespace :: "string \<Rightarrow> string list" where
  "split_whitespace s = filter (\<lambda>w. w \<noteq> []) (split_at_ws (chars s))"

end
