(* ===== verification/Edit_Diff.thy ===== *)
theory Edit_Diff
  imports Text_Search
begin

text \<open>
  \<open>rpi-edit-diagnostics/src/edit_diff.rs\<close>: byte order mark and line endings, the normalization under
  which a text is still taken to match, and the display diff with its line numbers. Unicode's
  normalization form \<open>NFKC\<close> and the line diff come from other crates and are the parameters \<open>nfkc\<close>
  and \<open>ops\<close>.
\<close>

section \<open>Byte order mark and line endings\<close>

definition BOM :: string where
  "BOM = [CHR 0xEF, CHR 0xBB, CHR 0xBF]"

record bom_result =
  bom :: string
  bom_text :: string

definition strip_bom :: "string \<Rightarrow> bom_result" where
  "strip_bom content = (case strip_prefix BOM content of
     Some rest \<Rightarrow> \<lparr>bom = BOM, bom_text = rest\<rparr>
   | None \<Rightarrow> \<lparr>bom = [], bom_text = content\<rparr>)"

definition detect_line_ending :: "string \<Rightarrow> string" where
  "detect_line_ending content =
     (case (find_str [CR, NL] content, find_str [NL] content) of
        (None, None) \<Rightarrow> [NL]
      | (Some _, None) \<Rightarrow> [NL]
      | (Some crlf, Some lf) \<Rightarrow> if crlf \<le> lf then [CR, NL] else [NL]
      | (None, Some _) \<Rightarrow> [NL])"

definition normalize_to_lf :: "string \<Rightarrow> string" where
  "normalize_to_lf s = replace_str [CR] [NL] (replace_str [CR, NL] [NL] s)"

definition restore_line_endings :: "string \<Rightarrow> string \<Rightarrow> string" where
  "restore_line_endings s ending = (if ending = [CR, NL] then replace_str [NL] [CR, NL] s else s)"

lemma strip_bom_text: "bom (strip_bom s) @ bom_text (strip_bom s) = s"
  by (simp add: strip_bom_def strip_prefix_def starts_with_def split: option.splits)
    (metis append_take_drop_id)

lemma replace_char: "replace_str [c] r s = concat (map (\<lambda>x. if x = c then r else [x]) s)"
  by (induction s) (auto simp: replace_str.simps(2))

lemma replace_crlf_simps:
  "replace_str [CR, NL] r (CR # NL # s) = r @ replace_str [CR, NL] r s"
  "c \<noteq> CR \<Longrightarrow> replace_str [CR, NL] r (c # s) = c # replace_str [CR, NL] r s"
  "s = [] \<or> hd s \<noteq> NL \<Longrightarrow> replace_str [CR, NL] r (CR # s) = CR # replace_str [CR, NL] r s"
  by (cases s; simp add: replace_str.simps(2))+

text \<open>After normalization no carriage return is left, and text without one is unchanged.\<close>

lemma normalize_no_cr: "CR \<notin> set (normalize_to_lf s)"
  by (auto simp: normalize_to_lf_def replace_char split: if_splits)

lemma replace_crlf_id: "CR \<notin> set s \<Longrightarrow> replace_str [CR, NL] r s = s"
  by (induction s) (auto simp: replace_crlf_simps(2))

lemma concat_singletons [simp]: "concat (map (\<lambda>x. [x]) s) = s"
  by (induction s) auto

lemma replace_char_id: "c \<notin> set s \<Longrightarrow> replace_str [c] r s = s"
  by (induction s) (auto simp: replace_char)

lemma normalize_id: "CR \<notin> set s \<Longrightarrow> normalize_to_lf s = s"
  by (simp add: normalize_to_lf_def replace_crlf_id replace_char_id)

lemma normalize_idem [simp]: "normalize_to_lf (normalize_to_lf s) = normalize_to_lf s"
  by (simp add: normalize_id normalize_no_cr)

text \<open>Text all of whose line ends are the same: \<open>crlf_text\<close> has no lone carriage return or newline.\<close>

fun crlf_text :: "string \<Rightarrow> bool" where
  "crlf_text [] = True"
| "crlf_text (c # cs) =
     (if c = CR then cs \<noteq> [] \<and> hd cs = NL \<and> crlf_text (tl cs) else c \<noteq> NL \<and> crlf_text cs)"

lemma crlf_roundtrip:
  "crlf_text s \<Longrightarrow> replace_str [NL] [CR, NL] (normalize_to_lf s) = s"
proof (induction s rule: crlf_text.induct)
  case (2 c cs)
  show ?case
  proof (cases "c = CR")
    case True
    with 2(3) obtain ds where "cs = NL # ds" "crlf_text ds" by (cases cs) auto
    with 2(1) True show ?thesis
      by (simp add: normalize_to_lf_def replace_crlf_simps replace_char)
  next
    case False
    with 2 show ?thesis
      by (simp add: normalize_to_lf_def replace_crlf_simps replace_char)
  qed
qed (simp add: normalize_to_lf_def)

lemma crlf_detect:
  "crlf_text s \<Longrightarrow> NL \<in> set s \<Longrightarrow> detect_line_ending s = [CR, NL]"
proof -
  have "\<exists>i. find_str [CR, NL] s = Some i \<and> find_str [NL] s = Some (Suc i)" if "crlf_text s" "NL \<in> set s"
    using that
  proof (induction s rule: crlf_text.induct)
    case (2 c cs)
    show ?case
    proof (cases "c = CR")
      case True
      with 2(3) obtain ds where "cs = NL # ds" by (cases cs) auto
      with True show ?thesis by auto
    next
      case False
      with 2 have "c \<noteq> NL" "crlf_text cs" "NL \<in> set cs" by auto
      with 2(2) False obtain i where
        i: "find_str [CR, NL] cs = Some i" "find_str [NL] cs = Some (Suc i)" by auto
      have "\<not> starts_with [CR, NL] (c # cs)" "\<not> starts_with [NL] (c # cs)"
        using False \<open>c \<noteq> NL\<close> by auto
      with i show ?thesis by auto
    qed
  qed simp
  then show "crlf_text s \<Longrightarrow> NL \<in> set s \<Longrightarrow> detect_line_ending s = [CR, NL]"
    by (fastforce simp: detect_line_ending_def)
qed

lemma detect_cases: "detect_line_ending s = [NL] \<or> detect_line_ending s = [CR, NL]"
  by (auto simp: detect_line_ending_def split: option.splits)

lemma detect_lf: "CR \<notin> set s \<Longrightarrow> detect_line_ending s = [NL]"
proof -
  assume "CR \<notin> set s"
  then have "\<not> contains s [CR, NL]" by (auto simp: contains_iff)
  then show ?thesis by (auto simp: detect_line_ending_def contains_def split: option.splits)
qed

text \<open>A file whose line ends are uniform survives normalization and restoration.\<close>

lemma line_endings_roundtrip:
  "crlf_text s \<or> CR \<notin> set s \<Longrightarrow>
   restore_line_endings (normalize_to_lf s) (detect_line_ending s) = s"
proof (cases "CR \<in> set s")
  case True
  assume "crlf_text s \<or> CR \<notin> set s"
  with True have s: "crlf_text s" by simp
  moreover have "NL \<in> set s" using s True
  proof (induction s rule: crlf_text.induct)
    case (2 c cs)
    then show ?case by (cases cs) (auto split: if_splits)
  qed simp
  ultimately show ?thesis by (simp add: crlf_detect restore_line_endings_def crlf_roundtrip)
next
  case False
  then show ?thesis by (simp add: detect_lf normalize_id restore_line_endings_def)
qed

section \<open>Normalized matching\<close>

text \<open>Typographic quotes and dashes, and the space characters, as their UTF-8 encodings.\<close>

definition quote_char :: "string \<Rightarrow> string" where
  "quote_char g =
    (if g \<in> set [[CHR 0xE2, CHR 0x80, CHR 0x98], [CHR 0xE2, CHR 0x80, CHR 0x99],
                 [CHR 0xE2, CHR 0x80, CHR 0x9A], [CHR 0xE2, CHR 0x80, CHR 0x9B]] then [CHR 0x27]
     else if g \<in> set [[CHR 0xE2, CHR 0x80, CHR 0x9C], [CHR 0xE2, CHR 0x80, CHR 0x9D],
                      [CHR 0xE2, CHR 0x80, CHR 0x9E], [CHR 0xE2, CHR 0x80, CHR 0x9F]] then [CHR 0x22]
     else if g \<in> set [[CHR 0xE2, CHR 0x80, CHR 0x90], [CHR 0xE2, CHR 0x80, CHR 0x91],
                      [CHR 0xE2, CHR 0x80, CHR 0x92], [CHR 0xE2, CHR 0x80, CHR 0x93],
                      [CHR 0xE2, CHR 0x80, CHR 0x94], [CHR 0xE2, CHR 0x80, CHR 0x95],
                      [CHR 0xE2, CHR 0x88, CHR 0x92]] then ''-''
     else g)"

definition space_chars :: "string list" where
  "space_chars =
    [[CHR 0xC2, CHR 0xA0], [CHR 0xE2, CHR 0x80, CHR 0x82], [CHR 0xE2, CHR 0x80, CHR 0x83],
     [CHR 0xE2, CHR 0x80, CHR 0x84], [CHR 0xE2, CHR 0x80, CHR 0x85], [CHR 0xE2, CHR 0x80, CHR 0x86],
     [CHR 0xE2, CHR 0x80, CHR 0x87], [CHR 0xE2, CHR 0x80, CHR 0x88], [CHR 0xE2, CHR 0x80, CHR 0x89],
     [CHR 0xE2, CHR 0x80, CHR 0x8A], [CHR 0xE2, CHR 0x80, CHR 0xAF], [CHR 0xE2, CHR 0x81, CHR 0x9F],
     [CHR 0xE3, CHR 0x80, CHR 0x80]]"

definition fold_char :: "string \<Rightarrow> string" where
  "fold_char g = (if g \<in> set space_chars then '' '' else quote_char g)"

definition normalize_for_fuzzy_match :: "(string \<Rightarrow> string) \<Rightarrow> string \<Rightarrow> string" where
  "normalize_for_fuzzy_match nfkc s =
     (let trimmed = join_lines (map trim_end (lines_of (nfkc s)))
      in concat (map fold_char (chars trimmed)))"

record fuzzy_match =
  found :: bool
  index :: nat
  match_length :: nat
  used_fuzzy_match :: bool
  content_for_replacement :: string

definition fuzzy_find_text :: "(string \<Rightarrow> string) \<Rightarrow> string \<Rightarrow> string \<Rightarrow> fuzzy_match" where
  "fuzzy_find_text nfkc content old =
     (case find_str old content of
        Some i \<Rightarrow> \<lparr>found = True, index = i, match_length = length old, used_fuzzy_match = False,
                   content_for_replacement = content\<rparr>
      | None \<Rightarrow>
          (let fuzzy_content = normalize_for_fuzzy_match nfkc content;
               fuzzy_old = normalize_for_fuzzy_match nfkc old
           in case find_str fuzzy_old fuzzy_content of
                Some i \<Rightarrow> \<lparr>found = True, index = i, match_length = length fuzzy_old,
                           used_fuzzy_match = True, content_for_replacement = fuzzy_content\<rparr>
              | None \<Rightarrow> \<lparr>found = False, index = 2 ^ 64 - 1, match_length = 0,
                         used_fuzzy_match = False, content_for_replacement = content\<rparr>))"

lemma fuzzy_find_exact:
  "find_str old content = Some i \<Longrightarrow>
   fuzzy_find_text nfkc content old =
     \<lparr>found = True, index = i, match_length = length old, used_fuzzy_match = False,
      content_for_replacement = content\<rparr>"
  by (simp add: fuzzy_find_text_def)

lemma not_used_fuzzy:
  "\<not> used_fuzzy_match (fuzzy_find_text nfkc content old) \<longleftrightarrow>
     contains content old \<or>
     \<not> contains (normalize_for_fuzzy_match nfkc content) (normalize_for_fuzzy_match nfkc old)"
  by (auto simp: fuzzy_find_text_def contains_def Let_def split: option.splits)

text \<open>Whatever is found is an occurrence in the text that was searched last.\<close>

lemma fuzzy_found_occurs:
  "found (fuzzy_find_text nfkc content old) \<Longrightarrow>
   used_fuzzy_match (fuzzy_find_text nfkc content old) = fz \<Longrightarrow>
   occurs_at (if fz then normalize_for_fuzzy_match nfkc old else old)
     (if fz then normalize_for_fuzzy_match nfkc content else content)
     (index (fuzzy_find_text nfkc content old))
   \<and> match_length (fuzzy_find_text nfkc content old) =
       length (if fz then normalize_for_fuzzy_match nfkc old else old)"
  by (auto simp: fuzzy_find_text_def Let_def dest: find_str_Some split: option.splits if_splits)

section \<open>The normal form is text, line by line\<close>

text \<open>What the development relies on of \<open>NFKC\<close>: it maps text to text, and a newline, which neither
  composes nor decomposes, separates what is normalized.\<close>

definition nfkc_ok :: "(string \<Rightarrow> string) \<Rightarrow> bool" where
  "nfkc_ok nfkc \<longleftrightarrow>
     (\<forall>s. utf8 s \<longrightarrow> utf8 (nfkc s)) \<and>
     (\<forall>s t. nfkc (s @ NL # t) = nfkc s @ NL # nfkc t) \<and>
     (\<forall>s. NL \<notin> set s \<longrightarrow> NL \<notin> set (nfkc s)) \<and> nfkc [] = []"

lemma nfkc_okD:
  assumes "nfkc_ok nfkc"
  shows "utf8 s \<Longrightarrow> utf8 (nfkc s)" and "nfkc (s @ NL # t) = nfkc s @ NL # nfkc t"
    and "NL \<notin> set s \<Longrightarrow> NL \<notin> set (nfkc s)" and "nfkc [] = []"
  using assms by (simp_all add: nfkc_ok_def)

lemma nfkc_lines: "nfkc_ok nfkc \<Longrightarrow> lines_of (nfkc s) = map nfkc (lines_of s)"
proof (induction "count_char NL s" arbitrary: s)
  case 0
  then show ?case using nfkc_okD(3) by (simp add: count_char_0_iff split_char_none)
next
  case (Suc n)
  then have "NL \<in> set s" by (metis Zero_neq_Suc count_char_0_iff)
  then obtain a b where s: "s = a @ NL # b" "NL \<notin> set a" by (meson split_list_first)
  with Suc(2) have "n = count_char NL b" by (simp add: count_char_0_iff)
  with Suc(1) [OF _ Suc(3)] have "lines_of (nfkc b) = map nfkc (lines_of b)" by blast
  with s Suc(3) nfkc_okD [OF Suc(3)] show ?case
    by (simp add: split_char_append split_char_none)
qed

lemma ascii_boundary_free:
  "NL \<notin> set s \<Longrightarrow> NL \<notin> set (trim_end s)"
proof -
  assume "NL \<notin> set s"
  moreover have "set (trim_end s) \<subseteq> set s"
  proof -
    have "set (rev (dropWhile is_ws (rev (chars s)))) \<subseteq> set (chars s)"
      using set_dropWhileD by fastforce
    then have "set (concat (rev (dropWhile is_ws (rev (chars s))))) \<subseteq> set (concat (chars s))"
      by (metis Union_mono image_mono set_concat)
    then show ?thesis by (simp add: trim_end_def)
  qed
  ultimately show ?thesis by blast
qed

end
