(* ===== verification/Edit_View.thy ===== *)
theory Edit_View
  imports Edit_Diff
begin

text \<open>
  The normalized view of \<open>edit_apply.rs\<close>: the normal form of a file together with the bytes of the file
  each of its characters came from, so that a match found in the normal form replaces exactly the
  bytes it covers. Where that is not possible the lines of the match are rebuilt from the normal form,
  and matches whose regions meet are merged. An index out of range and a slice through a character
  panic, which is \<open>None\<close>.
\<close>

section \<open>The view\<close>

record normalized_position =
  source_index :: nat
  line :: nat

record normalized_view =
  text_of :: string
  sources :: "(nat \<times> nat) list option"
  positions :: "normalized_position list"
  line_starts :: "nat list"
  original_line_starts :: "nat list"

record mapped_span =
  ms_start :: nat
  ms_end :: nat
  normalized_start :: nat
  normalized_end :: nat

record replacement =
  rep_start :: nat
  rep_end :: nat
  rep_text :: string

type_synonym source_char = "string \<times> nat \<times> nat"

fun char_indices :: "nat \<Rightarrow> string list \<Rightarrow> (nat \<times> string) list" where
  "char_indices k [] = []"
| "char_indices k (g # gs) = (k, g) # char_indices (k + length g) gs"

definition push_norm ::
  "nat \<Rightarrow> nat \<Rightarrow> string \<Rightarrow> source_char list \<times> source_char list \<Rightarrow> source_char list \<times> source_char list" where
  "push_norm start stop g st =
     (let (cs, pending) = st; n = quote_char g in
      if n = [NL] then (cs @ [(n, start, stop)], [])
      else if is_ws n then (cs, pending @ [(n, start, stop)])
      else (cs @ pending @ [(n, start, stop)], []))"

definition view_chars :: "(string \<Rightarrow> string) \<Rightarrow> string \<Rightarrow> source_char list" where
  "view_chars nfkc content =
     fst (fold (\<lambda>(start, c). fold (push_norm start (start + length c)) (chars (nfkc c)))
       (char_indices 0 (chars content)) ([], []))"

text \<open>One entry per byte of the text, and one for its end.\<close>

fun position_list :: "nat \<Rightarrow> nat \<Rightarrow> string list \<Rightarrow> normalized_position list" where
  "position_list i l [] = [\<lparr>source_index = i, line = l\<rparr>]"
| "position_list i l (g # gs) =
     replicate (length g) \<lparr>source_index = i, line = l\<rparr> @
     position_list (Suc i) (if g = [NL] then Suc l else l) gs"

fun newline_ends :: "nat \<Rightarrow> string \<Rightarrow> nat list" where
  "newline_ends k [] = []"
| "newline_ends k (c # cs) = (if c = NL then [Suc k] else []) @ newline_ends (Suc k) cs"

definition normalized_view_new :: "(string \<Rightarrow> string) \<Rightarrow> string \<Rightarrow> normalized_view" where
  "normalized_view_new nfkc content =
     (let text = normalize_for_fuzzy_match nfkc content;
          cs = view_chars nfkc content;
          rebuilt = concat (map fst cs)
      in \<lparr>text_of = text,
          sources = (if rebuilt = text then Some (map snd cs) else None),
          positions = position_list 0 0 (chars text),
          line_starts = 0 # newline_ends 0 text,
          original_line_starts = 0 # newline_ends 0 content\<rparr>)"

section \<open>Mapping a match back\<close>

text \<open>\<open>Some None\<close>: the match begins or ends inside the expansion of one character.\<close>

definition clean_span :: "normalized_view \<Rightarrow> (nat \<times> nat) list \<Rightarrow> nat \<Rightarrow> nat \<Rightarrow> mapped_span option option" where
  "clean_span v ss start stop = do {
     p \<leftarrow> get_nth (positions v) start;
     q \<leftarrow> get_nth (positions v) stop;
     let first = source_index p;
     last_index \<leftarrow> (if source_index q = 0 then None else Some (source_index q - 1));
     starts_clean \<leftarrow> (if first = 0 then Some True else do {
        a \<leftarrow> get_nth ss (first - 1); b \<leftarrow> get_nth ss first; Some (fst a \<noteq> fst b) });
     ends_clean \<leftarrow> (if last_index + 1 = length ss then Some True else do {
        a \<leftarrow> get_nth ss (last_index + 1); b \<leftarrow> get_nth ss last_index; Some (fst a \<noteq> fst b) });
     if starts_clean \<and> ends_clean then do {
       a \<leftarrow> get_nth ss first;
       b \<leftarrow> get_nth ss last_index;
       Some (Some \<lparr>ms_start = fst a, ms_end = snd b, normalized_start = start, normalized_end = stop\<rparr>)
     } else Some None
   }"

definition line_span :: "normalized_view \<Rightarrow> nat \<Rightarrow> nat \<Rightarrow> nat \<Rightarrow> mapped_span option" where
  "line_span v content_len start stop = do {
     p \<leftarrow> get_nth (positions v) start;
     q \<leftarrow> get_nth (positions v) stop;
     a \<leftarrow> get_nth (original_line_starts v) (line p);
     b \<leftarrow> get_nth (line_starts v) (line p);
     Some \<lparr>ms_start = a,
           ms_end = (case get_nth (original_line_starts v) (line q + 1) of
              None \<Rightarrow> content_len | Some n \<Rightarrow> n - 1),
           normalized_start = b,
           normalized_end = (case get_nth (line_starts v) (line q + 1) of
              None \<Rightarrow> length (text_of v) | Some n \<Rightarrow> n - 1)\<rparr>
   }"

definition original_span :: "normalized_view \<Rightarrow> nat \<Rightarrow> nat \<Rightarrow> nat \<Rightarrow> mapped_span option" where
  "original_span v content_len start stop = do {
     clean \<leftarrow> (case sources v of None \<Rightarrow> Some None | Some ss \<Rightarrow> clean_span v ss start stop);
     case clean of Some m \<Rightarrow> Some m | None \<Rightarrow> line_span v content_len start stop
   }"

text \<open>The groups are a stack, the last one first. A group holds the matches from its first index up
  to, but not including, its second.\<close>

type_synonym group = "mapped_span \<times> nat \<times> nat"

definition merge_spans :: "mapped_span \<Rightarrow> mapped_span \<Rightarrow> mapped_span" where
  "merge_spans span previous =
     \<lparr>ms_start = min (ms_start span) (ms_start previous),
      ms_end = max (ms_end span) (ms_end previous),
      normalized_start = min (normalized_start span) (normalized_start previous),
      normalized_end = max (normalized_end span) (normalized_end previous)\<rparr>"

fun absorb :: "mapped_span \<Rightarrow> nat \<Rightarrow> group list \<Rightarrow> mapped_span \<times> nat \<times> group list" where
  "absorb span first [] = (span, first, [])"
| "absorb span first ((previous, pfirst, pnext) # groups) =
     (if ms_end previous > ms_start span then absorb (merge_spans span previous) pfirst groups
      else (span, first, (previous, pfirst, pnext) # groups))"

fun group_matches :: "normalized_view \<Rightarrow> nat \<Rightarrow> nat \<Rightarrow> (nat \<times> nat) list \<Rightarrow> group list \<Rightarrow> group list option" where
  "group_matches v content_len i [] groups = Some groups"
| "group_matches v content_len i ((start, stop) # ms) groups = do {
     span \<leftarrow> original_span v content_len start stop;
     let (merged, first, rest) = absorb span i groups;
     group_matches v content_len (Suc i) ms ((merged, first, Suc i) # rest)
   }"

fun rebuild :: "string \<Rightarrow> string \<Rightarrow> nat \<Rightarrow> (nat \<times> nat) list \<Rightarrow> nat \<Rightarrow> string option" where
  "rebuild s new cursor [] stop = get_slice s cursor stop"
| "rebuild s new cursor ((a, b) # ms) stop = do {
     gap \<leftarrow> get_slice s cursor a;
     rest \<leftarrow> rebuild s new b ms stop;
     Some (gap @ new @ rest)
   }"

definition build_replacement :: "normalized_view \<Rightarrow> (nat \<times> nat) list \<Rightarrow> string \<Rightarrow> group \<Rightarrow> replacement option" where
  "build_replacement v matches new g = (case g of (span, first, next) \<Rightarrow> do {
     ms \<leftarrow> get_range matches first next;
     t \<leftarrow> rebuild (text_of v) new (normalized_start span) ms (normalized_end span);
     Some \<lparr>rep_start = ms_start span, rep_end = ms_end span, rep_text = t\<rparr>
   })"

fun map_opt :: "('a \<Rightarrow> 'b option) \<Rightarrow> 'a list \<Rightarrow> 'b list option" where
  "map_opt f [] = Some []"
| "map_opt f (x # xs) = do { y \<leftarrow> f x; ys \<leftarrow> map_opt f xs; Some (y # ys) }"

definition original_replacements ::
  "normalized_view \<Rightarrow> nat \<Rightarrow> (nat \<times> nat) list \<Rightarrow> string \<Rightarrow> replacement list option" where
  "original_replacements v content_len matches new = do {
     groups \<leftarrow> group_matches v content_len 0 matches [];
     map_opt (build_replacement v matches new) (rev groups)
   }"

end
