(* ===== verification/Edit_Candidates.thy ===== *)
theory Edit_Candidates
  imports Edit_Diff "HOL-Library.Sublist"
begin

text \<open>
  \<open>rpi-edit-diagnostics/src/semantic_edit/\<close>: the search for the regions of a file that a failing
  \<open>oldText\<close> may have meant. Ten passes propose text of the file, the nearest region stands in when they
  propose nothing, and the candidates are ranked by height and by the longest common subsequence.
  A similarity is a quotient of two numbers of characters; the code rounds it to a \<open>f64\<close>, which does
  not change the order of quotients of numbers below \<open>2 ^ 26\<close>, and here it is the pair of both.
\<close>

section \<open>Similarity\<close>

type_synonym ratio = "nat \<times> nat"

definition ratio_less :: "ratio \<Rightarrow> ratio \<Rightarrow> bool" where
  "ratio_less p q \<longleftrightarrow> fst p * snd q < fst q * snd p"

text \<open>One row of the table: \<open>prev\<close> is the row above, \<open>left\<close> the entry to the left.\<close>

fun lcs_row :: "'a \<Rightarrow> 'a list \<Rightarrow> nat list \<Rightarrow> nat \<Rightarrow> nat list" where
  "lcs_row x (y # ys) (p # q # ps) left =
     (let v = (if x = y then p + 1 else max left q) in v # lcs_row x ys (q # ps) v)"
| "lcs_row x _ _ left = []"

definition lcs_length :: "'a list \<Rightarrow> 'a list \<Rightarrow> nat" where
  "lcs_length a b = last (fold (\<lambda>x prev. 0 # lcs_row x b prev 0) a (replicate (length b + 1) 0))"

definition similarity :: "string \<Rightarrow> string \<Rightarrow> ratio" where
  "similarity s t =
     (let a = chars s; b = chars t in
      if a = [] \<and> b = [] then (1, 1)
      else if a = [] \<or> b = [] then (0, 1)
      else (2 * lcs_length a b, length a + length b))"

section \<open>The passes\<close>

type_synonym pass_find = "string \<Rightarrow> string \<Rightarrow> string option"

text \<open>\<open>lines[i..j].join("\n")\<close>, for a range that is in order and in bounds where it is used.\<close>

definition join_range :: "string list \<Rightarrow> nat \<Rightarrow> nat \<Rightarrow> string" where
  "join_range ls i j = join_lines (take (j - i) (drop i ls))"

definition some_if :: "bool \<Rightarrow> 'a \<Rightarrow> 'a option" where
  "some_if b x = (if b then Some x else None)"

definition simple_find :: pass_find where
  "simple_find original old = some_if (contains original old) old"

definition line_trimmed_find :: pass_find where
  "line_trimmed_find original old =
     (let old_trimmed = map trim (lines_of old); ls = lines_of original in
      if list_all (\<lambda>l. l = []) old_trimmed then None
      else map_option (\<lambda>i. join_range ls i (i + length old_trimmed))
        (find (\<lambda>i. trim (ls ! i) = old_trimmed ! 0 \<and> i + length old_trimmed \<le> length ls \<and>
             list_all (\<lambda>j. trim (ls ! (i + j)) = old_trimmed ! j) [0..<length old_trimmed] \<and>
             contains original (join_range ls i (i + length old_trimmed)))
           [0..<length ls]))"

text \<open>The middle of a block that starts at line \<open>i\<close> and ends at line \<open>e\<close>, compared with the query's.\<close>

definition anchor_similarity :: "string list \<Rightarrow> string list \<Rightarrow> nat \<Rightarrow> nat \<Rightarrow> ratio option" where
  "anchor_similarity middle_old ls i e =
     (let middle = map trim (take (e - Suc i) (drop (Suc i) ls)) in
      if middle_old = [] \<and> middle = [] then Some (1, 1)
      else if middle_old = [] \<or> middle = [] then None
      else Some (similarity (join_lines middle_old) (join_lines middle)))"

definition anchor_candidates :: "string list \<Rightarrow> string list \<Rightarrow> (nat \<times> nat \<times> ratio) list" where
  "anchor_candidates old_lines ls =
     (let n = length old_lines; middle_old = map trim (take (n - 2) (drop 1 old_lines)) in
      concat (map (\<lambda>i.
        if trim (ls ! i) \<noteq> trim (old_lines ! 0) then []
        else List.map_filter (\<lambda>e.
            if trim (ls ! e) \<noteq> trim (old_lines ! (n - 1)) then None
            else map_option (\<lambda>sim. (i, e, sim)) (anchor_similarity middle_old ls i e))
          [i + n - 1..<min (i + n * 2) (length ls)]) [0..<length ls]))"

text \<open>The first of the best entries.\<close>

fun best_by :: "('a \<Rightarrow> ratio) \<Rightarrow> 'a \<Rightarrow> 'a list \<Rightarrow> 'a" where
  "best_by f b [] = b"
| "best_by f b (c # cs) = best_by f (if ratio_less (f b) (f c) then c else b) cs"

definition block_anchor_find :: pass_find where
  "block_anchor_find original old =
     (let old_lines = lines_of old; ls = lines_of original in
      if length old_lines < 3 then None
      else case anchor_candidates old_lines ls of
        [] \<Rightarrow> None
      | c # cs \<Rightarrow>
          (let threshold = (if cs = [] then (0, 1) else (3, 10));
               (i, e, sim) = best_by (\<lambda>(_, _, s). s) c (c # cs);
               actual = join_range ls i (Suc e) in
           if ratio_less sim threshold then None
           else some_if (contains original actual) actual))"

definition ws_normalize :: "string \<Rightarrow> string" where
  "ws_normalize s = join_lines (map (\<lambda>l. join '' '' (split_whitespace l)) (lines_of s))"

definition whitespace_normalized_find :: pass_find where
  "whitespace_normalized_find original old =
     (let ls = lines_of original; n = length (lines_of old);
          ranges = concat (map (\<lambda>i. map (\<lambda>j. (i, j))
            [i + n - 1..<Suc (min (i + n + 2) (length ls))]) [0..<length ls]) in
      map_option (\<lambda>(i, j). join_range ls i j)
        (find (\<lambda>(i, j). ws_normalize (join_range ls i j) = ws_normalize old \<and>
                 contains original (join_range ls i j)) ranges))"

text \<open>Blank lines of the file are passed over; the result is the query's lines that were not met and
  the lines of the file that were matched.\<close>

fun flexible_scan :: "string list \<Rightarrow> (nat \<times> string) list \<Rightarrow> nat list \<Rightarrow> string list \<times> nat list" where
  "flexible_scan [] kls matched = ([], matched)"
| "flexible_scan (q # qs) [] matched = (q # qs, matched)"
| "flexible_scan (q # qs) ((k, l) # kls) matched =
     (if trim l = [] then flexible_scan (q # qs) kls matched
      else if trim l = q then flexible_scan qs kls (matched @ [k])
      else (q # qs, matched))"

definition flexible_at :: "string \<Rightarrow> string list \<Rightarrow> string list \<Rightarrow> nat \<Rightarrow> string option" where
  "flexible_at original ls query i =
     (if trim (ls ! i) \<noteq> query ! 0 then None
      else
        (let (left, matched) =
           flexible_scan query (map (\<lambda>k. (k, ls ! k)) [i..<min (i + length query * 3) (length ls)]) [] in
         if left = [] \<and> matched \<noteq> [] then
           (let actual = join_range ls (hd matched) (Suc (last matched)) in
            some_if (contains original actual) actual)
         else None))"

fun first_some :: "('a \<Rightarrow> 'b option) \<Rightarrow> 'a list \<Rightarrow> 'b option" where
  "first_some f [] = None"
| "first_some f (x # xs) = (case f x of None \<Rightarrow> first_some f xs | Some y \<Rightarrow> Some y)"

definition indentation_flexible_find :: pass_find where
  "indentation_flexible_find original old =
     (let query = filter (\<lambda>l. l \<noteq> []) (map trim (lines_of old)); ls = lines_of original in
      if query = [] then None
      else first_some (flexible_at original ls query) [0..<length ls])"

abbreviation BSL :: char where "BSL \<equiv> CHR 0x5C"

definition unescape :: "string \<Rightarrow> string" where
  "unescape s =
     replace_str [BSL, CHR 0x27] [CHR 0x27]
       (replace_str [BSL, CHR 0x22] [CHR 0x22]
         (replace_str [BSL, BSL] [BSL]
           (replace_str [BSL, CHR ''t''] [CHR 0x09]
             (replace_str [BSL, CHR ''n''] [NL] s))))"

definition escape_normalized_find :: pass_find where
  "escape_normalized_find original old =
     (let unescaped = unescape old in
      if unescaped = old then None else some_if (contains original unescaped) unescaped)"

definition trimmed_boundary_find :: pass_find where
  "trimmed_boundary_find original old =
     (let trimmed = trim old; old_lines = lines_of old; ls = lines_of original;
          first_content = trim (hd old_lines); last_content = trim (last old_lines) in
      if trimmed = old then None
      else if contains original trimmed then Some trimmed
      else if first_content = [] \<or> last_content = [] then None
      else first_some (\<lambda>i.
             if \<not> contains (ls ! i) first_content then None
             else first_some (\<lambda>j.
                    if contains (ls ! j) last_content \<and> contains original (join_range ls i (Suc j))
                    then Some (join_range ls i (Suc j)) else None)
                  [i + 1..<min (i + length old_lines + 2) (length ls)])
           [0..<length ls])"

text \<open>\<open>context_step\<close> is one start of the search: only the first end anchor after it is looked at.\<close>

definition context_step ::
  "string \<Rightarrow> string list \<Rightarrow> nat \<Rightarrow> string \<Rightarrow> nat \<Rightarrow> string option \<times> ratio \<Rightarrow> string option \<times> ratio" where
  "context_step old ls n last_ctx start best =
     (case find (\<lambda>e. contains (trim (ls ! e)) last_ctx) [start + 1..<min (start + n * 2) (length ls)] of
        None \<Rightarrow> best
      | Some e \<Rightarrow>
          (let candidate = join_range ls start (Suc e); sim = similarity (trim old) (trim candidate) in
           if ratio_less (snd best) sim \<and> ratio_less (1, 2) sim then (Some candidate, sim) else best))"

definition context_aware_find :: pass_find where
  "context_aware_find original old =
     (let old_lines = lines_of old; ls = lines_of original in
      if length old_lines < 2 then None
      else case (find (\<lambda>l. trim l \<noteq> []) old_lines, find (\<lambda>l. trim l \<noteq> []) (rev old_lines)) of
        (Some f, Some l) \<Rightarrow>
          (let starts = filter (\<lambda>i. contains (trim (ls ! i)) (trim f)) [0..<length ls];
               best = fold (context_step old ls (length old_lines) (trim l)) starts (None, (0, 1)) in
           filter_opt (contains original) (fst best))
      | _ \<Rightarrow> None)"

definition multi_occurrence_find :: pass_find where
  "multi_occurrence_find original old =
     (let trimmed = trim old; ls = lines_of original; ts = lines_of trimmed in
      if trimmed = [] \<or> length ls < length ts then None
      else first_some (\<lambda>i.
             if list_all2 (\<lambda>a t. trim a = trim t) (take (length ts) (drop i ls)) ts \<and>
                contains original (join_range ls i (i + length ts))
             then Some (join_range ls i (i + length ts)) else None)
           [0..<Suc (length ls - length ts)])"

definition punct_map :: "string \<Rightarrow> string" where
  "punct_map g =
    (if g \<in> set [[CHR 0xE2, CHR 0x80, CHR 0x98], [CHR 0xE2, CHR 0x80, CHR 0x99],
                 [CHR 0xE2, CHR 0x80, CHR 0x9A], [CHR 0xE2, CHR 0x80, CHR 0x9B]] then [CHR 0x27]
     else if g \<in> set [[CHR 0xE2, CHR 0x80, CHR 0x9C], [CHR 0xE2, CHR 0x80, CHR 0x9D],
                      [CHR 0xE2, CHR 0x80, CHR 0x9E], [CHR 0xE2, CHR 0x80, CHR 0x9F]] then [CHR 0x22]
     else if g \<in> set [[CHR 0xE2, CHR 0x80, CHR 0x93], [CHR 0xE2, CHR 0x80, CHR 0x94]] then ''-''
     else g)"

definition normalize_char :: "(string \<Rightarrow> string) \<Rightarrow> string \<Rightarrow> string" where
  "normalize_char nfkc c = concat (map punct_map (chars (nfkc c)))"

definition normalize_text :: "(string \<Rightarrow> string) \<Rightarrow> string \<Rightarrow> string" where
  "normalize_text nfkc s = concat (map (normalize_char nfkc) (chars s))"

fun offsets_from :: "(string \<Rightarrow> string) \<Rightarrow> nat \<Rightarrow> string list \<Rightarrow> nat list" where
  "offsets_from nfkc k [] = [k]"
| "offsets_from nfkc k (c # cs) =
     replicate (char_count (normalize_char nfkc c)) k @ offsets_from nfkc (k + length c) cs"

definition normalize_with_offsets :: "(string \<Rightarrow> string) \<Rightarrow> string \<Rightarrow> string \<times> nat list" where
  "normalize_with_offsets nfkc s = (normalize_text nfkc s, offsets_from nfkc 0 (chars s))"

definition is_ascii :: "string \<Rightarrow> bool" where
  "is_ascii s = list_all (\<lambda>c. (of_char c :: nat) < 128) s"

definition unicode_normalized_find :: "(string \<Rightarrow> string) \<Rightarrow> pass_find" where
  "unicode_normalized_find nfkc original old =
     (let norm_old = normalize_text nfkc old;
          (norm_orig, offsets) = normalize_with_offsets nfkc original in
      if norm_old = old \<and> is_ascii original then None
      else do {
        i \<leftarrow> find_str norm_old norm_orig;
        let start_char = char_count (take i norm_orig);
        let end_char = start_char + char_count norm_old;
        a \<leftarrow> get_nth offsets start_char;
        b \<leftarrow> get_nth offsets end_char;
        actual \<leftarrow> get_slice original a b;
        some_if (contains original actual) actual
      })"

section \<open>The rows compute a longest common subsequence\<close>

fun lcs :: "'a list \<Rightarrow> 'a list \<Rightarrow> nat" where
  "lcs (x # xs) (y # ys) = (if x = y then Suc (lcs xs ys) else max (lcs (x # xs) ys) (lcs xs (y # ys)))"
| "lcs _ _ = 0"

lemma lcs_Nil [simp]: "lcs [] ys = 0" "lcs xs [] = 0"
  by (cases xs; simp)+

lemma lcs_attained: "\<exists>zs. subseq zs xs \<and> subseq zs ys \<and> length zs = lcs xs ys"
proof (induction xs ys rule: lcs.induct)
  case (1 x xs y ys)
  show ?case
  proof (cases "x = y")
    case True
    with 1 obtain zs where "subseq zs xs" "subseq zs ys" "length zs = lcs xs ys" by auto
    with True have "subseq (y # zs) (x # xs) \<and> subseq (y # zs) (y # ys) \<and> length (y # zs) = lcs (x # xs) (y # ys)"
      by simp
    then show ?thesis by blast
  next
    case False
    with 1 obtain us vs where
      "subseq us (x # xs)" "subseq us ys" "length us = lcs (x # xs) ys"
      "subseq vs xs" "subseq vs (y # ys)" "length vs = lcs xs (y # ys)" by auto
    with False show ?thesis
      by (cases "lcs (x # xs) ys \<le> lcs xs (y # ys)") (auto simp: max_def)
  qed
qed auto

lemma lcs_greatest: "subseq zs xs \<Longrightarrow> subseq zs ys \<Longrightarrow> length zs \<le> lcs xs ys"
proof (induction xs ys arbitrary: zs rule: lcs.induct)
  case (1 x xs y ys)
  show ?case
  proof (cases zs)
    case (Cons z us)
    show ?thesis
    proof (cases "x = y")
      case True
      have "subseq us xs" "subseq us ys"
        using 1(4,5) Cons by (auto split: if_splits dest: subseq_Cons')
      with 1(1) True Cons show ?thesis by simp
    next
      case False
      have "subseq zs xs \<or> z = x" "subseq zs ys \<or> z = y"
        using 1(4,5) Cons by (auto split: if_splits)
      with False have "subseq zs xs \<or> subseq zs ys" by auto
      with 1 False show ?thesis by (auto simp: le_max_iff_disj)
    qed
  qed simp
qed auto

text \<open>The entry for two prefixes, which the row of the longer first prefix is computed from.\<close>

definition lcs_entry :: "'a list \<Rightarrow> 'a list \<Rightarrow> nat \<Rightarrow> nat" where
  "lcs_entry a b j = lcs (rev a) (rev (take j b))"

lemma lcs_entry_0 [simp]: "lcs_entry a b 0 = 0"
  by (simp add: lcs_entry_def)

lemma lcs_entry_Suc:
  "j < length b \<Longrightarrow> lcs_entry (a @ [x]) b (Suc j) =
     (if x = b ! j then lcs_entry a b j + 1 else max (lcs_entry (a @ [x]) b j) (lcs_entry a b (Suc j)))"
  by (simp add: lcs_entry_def take_Suc_conv_app_nth)

lemma lcs_row_entries:
  "k \<le> length b \<Longrightarrow>
   lcs_row x (drop k b) (map (lcs_entry a b) [k..<Suc (length b)]) (lcs_entry (a @ [x]) b k) =
     map (lcs_entry (a @ [x]) b) [Suc k..<Suc (length b)]"
proof (induction "length b - k" arbitrary: k)
  case 0
  then show ?case by simp
next
  case (Suc n)
  then have k: "k < length b" by simp
  have first: "drop k b = b ! k # drop (Suc k) b" using k by (simp add: Cons_nth_drop_Suc)
  have entries: "[k..<Suc (length b)] = k # Suc k # [Suc (Suc k)..<Suc (length b)]"
    using k by (simp add: upt_conv_Cons)
  have rest: "Suc k # [Suc (Suc k)..<Suc (length b)] = [Suc k..<Suc (length b)]"
    using k by (simp add: upt_conv_Cons)
  have v: "(if x = b ! k then lcs_entry a b k + 1 else max (lcs_entry (a @ [x]) b k) (lcs_entry a b (Suc k)))
      = lcs_entry (a @ [x]) b (Suc k)"
    by (rule lcs_entry_Suc [OF k, symmetric])
  have IH: "lcs_row x (drop (Suc k) b) (map (lcs_entry a b) [Suc k..<Suc (length b)])
      (lcs_entry (a @ [x]) b (Suc k)) = map (lcs_entry (a @ [x]) b) [Suc (Suc k)..<Suc (length b)]"
    by (rule Suc(1)) (use Suc(2) k in auto)
  have "lcs_row x (drop k b) (map (lcs_entry a b) [k..<Suc (length b)]) (lcs_entry (a @ [x]) b k) =
     lcs_entry (a @ [x]) b (Suc k) #
     lcs_row x (drop (Suc k) b) (map (lcs_entry a b) (Suc k # [Suc (Suc k)..<Suc (length b)]))
       (lcs_entry (a @ [x]) b (Suc k))"
    unfolding first entries by (simp only: list.map lcs_row.simps(1) Let_def v)
  then show ?case unfolding rest IH using rest by (metis list.simps(9))
qed

lemma lcs_table:
  "fold (\<lambda>x prev. 0 # lcs_row x b prev 0) a (replicate (length b + 1) 0)
     = map (lcs_entry a b) [0..<Suc (length b)]"
proof (induction a rule: rev_induct)
  case Nil
  show ?case by (auto simp: lcs_entry_def map_replicate_const intro: nth_equalityI)
next
  case (snoc x a)
  have "lcs_row x b (map (lcs_entry a b) [0..<Suc (length b)]) 0 =
      map (lcs_entry (a @ [x]) b) [Suc 0..<Suc (length b)]"
    using lcs_row_entries [of 0 b x a] by simp
  then show ?case using snoc
    by (simp add: upt_conv_Cons del: upt_Suc)
qed

lemma lcs_length_eq: "lcs_length a b = lcs (rev a) (rev b)"
proof -
  have "lcs_length a b = lcs_entry a b (length b)"
    unfolding lcs_length_def lcs_table by simp
  then show ?thesis by (simp add: lcs_entry_def)
qed

lemma subseq_rev_iff: "subseq (rev xs) (rev ys) \<longleftrightarrow> subseq xs ys"
proof -
  have "subseq (rev xs) (rev ys)" if "subseq xs ys" for xs ys :: "'a list"
    using that
  proof (induction rule: list_emb.induct)
    case (list_emb_Cons xs ys y)
    then show ?case by (simp add: subseq_rev_drop_many)
  qed auto
  from this [of xs ys] this [of "rev xs" "rev ys"] show ?thesis by auto
qed

text \<open>The number of the table is the length of a common subsequence, and no common subsequence is longer.\<close>

lemma lcs_length_attained: "\<exists>zs. subseq zs a \<and> subseq zs b \<and> length zs = lcs_length a b"
  using lcs_attained [of "rev a" "rev b"] unfolding lcs_length_eq
  by (metis length_rev rev_rev_ident subseq_rev_iff)

lemma lcs_length_greatest: "subseq zs a \<Longrightarrow> subseq zs b \<Longrightarrow> length zs \<le> lcs_length a b"
  unfolding lcs_length_eq by (metis lcs_greatest length_rev subseq_rev_iff)

lemma lcs_length_le: "lcs_length a b \<le> length a" "lcs_length a b \<le> length b"
  by (metis lcs_length_attained list_emb_length)+

lemma similarity_bounds:
  "fst (similarity s t) \<le> snd (similarity s t)" "0 < snd (similarity s t)"
proof -
  have "lcs_length (chars s) (chars t) \<le> length (chars s)" "lcs_length (chars s) (chars t) \<le> length (chars t)"
    by (rule lcs_length_le)+
  then show "fst (similarity s t) \<le> snd (similarity s t)" by (auto simp: similarity_def Let_def)
qed (auto simp: similarity_def Let_def)

lemma lcs_length_self: "lcs_length a a = length a"
  by (rule antisym [OF lcs_length_le(1) lcs_length_greatest]) auto

lemma similarity_self: "fst (similarity s s) = snd (similarity s s)"
  by (simp add: similarity_def Let_def lcs_length_self)

end
