(* ===== verification/Edit_Chain.thy ===== *)
theory Edit_Chain
  imports Edit_Candidates "HOL-Library.Multiset"
begin

text \<open>
  \<open>semantic_edit/chain.rs\<close>, \<open>closest.rs\<close> and \<open>find_candidates\<close> of \<open>semantic_edit/mod.rs\<close>: the passes in
  their order, the nearest region, and the ranked candidates a failure report quotes. The line range of
  a proposed text slices the file at the last byte of that text, which panics (\<open>None\<close>) when the
  text ends in a character of more than one byte.
\<close>

section \<open>The chain\<close>

definition REPLACER_CHAIN :: "(string \<Rightarrow> string) \<Rightarrow> (string \<times> pass_find) list" where
  "REPLACER_CHAIN nfkc =
    [(''simple'', simple_find), (''line_trimmed'', line_trimmed_find),
     (''block_anchor'', block_anchor_find), (''whitespace_normalized'', whitespace_normalized_find),
     (''indentation_flexible'', indentation_flexible_find),
     (''escape_normalized'', escape_normalized_find), (''trimmed_boundary'', trimmed_boundary_find),
     (''context_aware'', context_aware_find), (''multi_occurrence'', multi_occurrence_find),
     (''unicode_normalized'', unicode_normalized_find nfkc)]"

definition add_span ::
  "string \<Rightarrow> string \<Rightarrow> string \<times> pass_find \<Rightarrow> (string \<times> string) list \<Rightarrow> (string \<times> string) list" where
  "add_span original old replacer spans =
     (case snd replacer original old of
        None \<Rightarrow> spans
      | Some actual \<Rightarrow>
          if actual = [] \<or> \<not> contains original actual then spans
          else if list_ex (\<lambda>s. snd s = actual) spans then spans
          else spans @ [(fst replacer, actual)])"

definition pass_spans :: "(string \<Rightarrow> string) \<Rightarrow> string \<Rightarrow> string \<Rightarrow> (string \<times> string) list" where
  "pass_spans nfkc original old =
     fold (add_span (normalize_to_lf original) (normalize_to_lf old)) (REPLACER_CHAIN nfkc) []"

text \<open>The next character boundary at or after a position.\<close>

function next_boundary :: "string \<Rightarrow> nat \<Rightarrow> nat" where
  "next_boundary s i = (if i < length s \<and> \<not> is_char_boundary i s then next_boundary s (Suc i) else i)"
  by pat_completeness auto
termination by (relation "measure (\<lambda>(s, i). length s - i)") auto

declare next_boundary.simps [simp del]

lemma next_boundary_ge: "i \<le> next_boundary s i"
  by (induction s i rule: next_boundary.induct) (subst next_boundary.simps, auto)

lemma next_boundary_le: "i \<le> length s \<Longrightarrow> next_boundary s i \<le> length s"
  by (induction s i rule: next_boundary.induct) (subst next_boundary.simps, auto)

lemma next_boundary_boundary: "i \<le> length s \<Longrightarrow> is_char_boundary (next_boundary s i) s"
proof (induction s i rule: next_boundary.induct)
  case (1 s i)
  then show ?case by (subst next_boundary.simps) (auto simp: is_char_boundary_def)
qed

lemma next_boundary_least: "i \<le> j \<Longrightarrow> j < next_boundary s i \<Longrightarrow> \<not> is_char_boundary j s"
proof (induction s i rule: next_boundary.induct)
  case (1 s i)
  show ?case
  proof (cases "i < length s \<and> \<not> is_char_boundary i s")
    case True
    with 1(3) have "j < next_boundary s (Suc i)" by (subst (asm) next_boundary.simps) simp
    with 1 True show ?thesis by (cases "i = j") auto
  next
    case False
    with 1(2,3) show ?thesis by (subst (asm) next_boundary.simps) auto
  qed
qed

function occurrences_from :: "string \<Rightarrow> string \<Rightarrow> nat \<Rightarrow> nat list option" where
  "occurrences_from haystack needle pos =
     (if length haystack < pos then Some []
      else do {
        rest \<leftarrow> get_from haystack pos;
        (case find_str needle rest of
           None \<Rightarrow> Some []
         | Some i \<Rightarrow> do {
             upper \<leftarrow> get_slice haystack 0 (pos + i);
             more \<leftarrow> occurrences_from haystack needle (next_boundary haystack (Suc (pos + i)));
             Some ((count_char NL upper + 1) # more)
           })
      })"
  by pat_completeness auto
termination
proof (relation "measure (\<lambda>(h, n, p). Suc (length h) - p)")
  fix haystack needle :: string and pos i :: nat and rest
  assume "\<not> length haystack < pos"
  moreover have "Suc (pos + i) \<le> next_boundary haystack (Suc (pos + i))"
    by (rule next_boundary_ge)
  ultimately show "((haystack, needle, next_boundary haystack (Suc (pos + i))), haystack, needle, pos)
      \<in> measure (\<lambda>(h, n, p). Suc (length h) - p)"
    by auto
qed simp

declare occurrences_from.simps [simp del]

definition find_occurrence_positions :: "string \<Rightarrow> string \<Rightarrow> nat list option" where
  "find_occurrence_positions haystack needle =
     (if needle = [] then Some [] else occurrences_from haystack needle 0)"

section \<open>The nearest region\<close>

definition ANCHOR_FLOOR :: ratio where
  "ANCHOR_FLOOR = (3, 10)"

definition DEFAULT_MAX_CANDIDATES :: nat where
  "DEFAULT_MAX_CANDIDATES = 50"

record closest_candidate =
  cc_similarity :: ratio
  cc_candidate :: string
  cc_start_line :: nat
  cc_end_line :: nat

definition better_region ::
  "string \<Rightarrow> string list \<Rightarrow> nat \<times> nat \<Rightarrow> (nat \<times> nat \<times> ratio) option \<Rightarrow> (nat \<times> nat \<times> ratio) option" where
  "better_region old ls se best =
     (let (s, e) = se; sim = similarity old (trim (join_range ls s (Suc e))) in
      case best of
        None \<Rightarrow> Some (s, e, sim)
      | Some (_, _, best_sim) \<Rightarrow> if ratio_less best_sim sim then Some (s, e, sim) else best)"

definition find_closest_candidate :: "string \<Rightarrow> string \<Rightarrow> nat \<Rightarrow> closest_candidate option" where
  "find_closest_candidate original old_content max_candidates =
     (let old = trim (normalize_to_lf old_content); old_lines = lines_of old;
          first_line = trim (hd old_lines); ls = lines_of (normalize_to_lf original);
          anchors = take max_candidates
            (filter (\<lambda>i. \<not> ratio_less (similarity (trim (ls ! i)) first_line) ANCHOR_FLOOR) [0..<length ls]);
          n = length old_lines;
          regions = concat (map (\<lambda>s. map (\<lambda>e. (s, e)) [s + n - 1..<min (s + n * 2) (length ls)]) anchors) in
      if old = [] \<or> first_line = [] then None
      else map_option (\<lambda>(s, e, sim).
             \<lparr>cc_similarity = sim, cc_candidate = join_range ls s (Suc e), cc_start_line = s + 1,
              cc_end_line = e + 1\<rparr>)
           (fold (better_region old ls) regions None))"

section \<open>Candidates\<close>

record candidate =
  pass_name :: string
  start_line :: nat
  end_line :: nat
  cand_text :: string

definition line_count :: "candidate \<Rightarrow> nat" where
  "line_count c = end_line c - start_line c + 1"

definition lines_phrase :: "nat \<Rightarrow> nat \<Rightarrow> string" where
  "lines_phrase s e =
     (if e \<le> s then ''line '' @ show_nat s else ''lines '' @ show_nat s @ ''-'' @ show_nat e)"

definition MAX_CANDIDATES :: nat where
  "MAX_CANDIDATES = 3"

definition max_candidate_lines :: "nat \<Rightarrow> nat" where
  "max_candidate_lines n = n * 3 + 3"

definition push_unique :: "candidate list \<Rightarrow> string \<Rightarrow> nat \<times> nat \<Rightarrow> string list \<Rightarrow> candidate list" where
  "push_unique cands name lr ls =
     (let (s, e) = lr in
      if s = 0 \<or> e < s \<or> length ls < e then cands
      else if list_ex (\<lambda>c. start_line c = s \<and> end_line c = e) cands then cands
      else cands @ [\<lparr>pass_name = name, start_line = s, end_line = e, cand_text = join_range ls (s - 1) e\<rparr>])"

text \<open>\<open>Some None\<close> when the text is not in the file; \<open>None\<close> when the second slice panics.\<close>

definition line_range_of_span :: "string list \<Rightarrow> string \<Rightarrow> string \<Rightarrow> (nat \<times> nat) option option" where
  "line_range_of_span ls content span =
     (case find_str span content of
        None \<Rightarrow> Some None
      | Some i \<Rightarrow> do {
          upper \<leftarrow> get_slice content 0 i;
          upto \<leftarrow> get_slice content 0 (i + (length span - 1));
          let s = count_char NL upper + 1;
          let e = count_char NL upto + 1;
          Some (some_if (s \<le> length ls \<and> e \<le> length ls) (s, e))
        })"

text \<open>A stable sort by a comparison: an element is placed before the first one that is not less.\<close>

fun insert_by :: "('a \<Rightarrow> 'a \<Rightarrow> bool) \<Rightarrow> 'a \<Rightarrow> 'a list \<Rightarrow> 'a list" where
  "insert_by lt x [] = [x]"
| "insert_by lt x (y # ys) = (if lt y x then y # insert_by lt x ys else x # y # ys)"

definition sort_by :: "('a \<Rightarrow> 'a \<Rightarrow> bool) \<Rightarrow> 'a list \<Rightarrow> 'a list" where
  "sort_by lt xs = foldr (insert_by lt) xs []"

definition abs_diff :: "nat \<Rightarrow> nat \<Rightarrow> nat" where
  "abs_diff a b = (a - b) + (b - a)"

definition candidate_less :: "string \<Rightarrow> nat \<Rightarrow> candidate \<Rightarrow> candidate \<Rightarrow> bool" where
  "candidate_less old old_lines a b =
     (let ha = abs_diff (line_count a) old_lines; hb = abs_diff (line_count b) old_lines in
      ha < hb \<or> (ha = hb \<and> ratio_less (similarity old (cand_text b)) (similarity old (cand_text a))))"

fun collect_spans ::
  "string \<Rightarrow> string list \<Rightarrow> nat \<Rightarrow> (string \<times> string) list \<Rightarrow> candidate list \<Rightarrow> candidate list option" where
  "collect_spans orig ls old_lines [] cands = Some cands"
| "collect_spans orig ls old_lines ((name, span) # spans) cands =
     (if max_candidate_lines old_lines < count_char NL span + 1
      then collect_spans orig ls old_lines spans cands
      else do {
        lr \<leftarrow> line_range_of_span ls orig span;
        (case lr of
           None \<Rightarrow> collect_spans orig ls old_lines spans cands
         | Some r \<Rightarrow> collect_spans orig ls old_lines spans (push_unique cands name r ls))
      })"

definition find_candidates :: "(string \<Rightarrow> string) \<Rightarrow> string \<Rightarrow> string \<Rightarrow> candidate list option" where
  "find_candidates nfkc original old_text =
     (let orig = normalize_to_lf original; old = normalize_to_lf old_text;
          old_lines = count_char NL old + 1; ls = lines_of orig in
      if trim old = [] then Some []
      else do {
        spans \<leftarrow> collect_spans orig ls old_lines (pass_spans nfkc orig old) [];
        let all = (if spans = []
          then (case find_closest_candidate orig old DEFAULT_MAX_CANDIDATES of
                  None \<Rightarrow> []
                | Some c \<Rightarrow> push_unique [] ''closest-candidate'' (cc_start_line c, cc_end_line c) ls)
          else spans);
        Some (take MAX_CANDIDATES (sort_by (candidate_less old old_lines) all))
      })"

section \<open>What the passes return\<close>

lemma some_if_Some_iff [simp]: "some_if b x = Some y \<longleftrightarrow> b \<and> y = x"
  by (auto simp: some_if_def)

lemma some_if_None_iff [simp]: "some_if b x = None \<longleftrightarrow> \<not> b"
  by (simp add: some_if_def)

lemma first_some_Some: "first_some f xs = Some y \<Longrightarrow> \<exists>x\<in>set xs. f x = Some y"
  by (induction xs) (auto split: option.splits)

named_theorems pass_facts \<open>a pass returns text of the file\<close>

lemma simple_contains [pass_facts]: "simple_find s old = Some t \<Longrightarrow> contains s t"
  by (simp add: simple_find_def)

lemma line_trimmed_contains [pass_facts]: "line_trimmed_find s old = Some t \<Longrightarrow> contains s t"
  by (auto simp: line_trimmed_find_def Let_def dest!: find_Some_iff [THEN iffD1] split: if_splits)

lemma block_anchor_contains [pass_facts]: "block_anchor_find s old = Some t \<Longrightarrow> contains s t"
  by (auto simp: block_anchor_find_def Let_def split: if_splits list.splits prod.splits)

lemma whitespace_contains [pass_facts]: "whitespace_normalized_find s old = Some t \<Longrightarrow> contains s t"
  by (auto simp: whitespace_normalized_find_def Let_def dest!: find_Some_iff [THEN iffD1])

lemma flexible_at_contains: "flexible_at s ls query i = Some t \<Longrightarrow> contains s t"
  by (auto simp: flexible_at_def Let_def split: if_splits prod.splits)

lemma indentation_contains [pass_facts]: "indentation_flexible_find s old = Some t \<Longrightarrow> contains s t"
  by (auto simp: indentation_flexible_find_def Let_def flexible_at_contains
      dest!: first_some_Some split: if_splits)

lemma escape_contains [pass_facts]: "escape_normalized_find s old = Some t \<Longrightarrow> contains s t"
  by (auto simp: escape_normalized_find_def Let_def split: if_splits)

lemma boundary_contains [pass_facts]: "trimmed_boundary_find s old = Some t \<Longrightarrow> contains s t"
  by (auto simp: trimmed_boundary_find_def Let_def dest!: first_some_Some split: if_splits)

lemma context_contains [pass_facts]: "context_aware_find s old = Some t \<Longrightarrow> contains s t"
  by (auto simp: context_aware_find_def Let_def filter_opt_Some_iff split: if_splits option.splits)

lemma multi_contains [pass_facts]: "multi_occurrence_find s old = Some t \<Longrightarrow> contains s t"
  by (auto simp: multi_occurrence_find_def Let_def dest!: first_some_Some split: if_splits)

lemma unicode_contains [pass_facts]: "unicode_normalized_find nfkc s old = Some t \<Longrightarrow> contains s t"
  by (auto simp: unicode_normalized_find_def Let_def Option.bind_eq_Some_conv split: if_splits prod.splits)

lemma pass_contains:
  "r \<in> set (REPLACER_CHAIN nfkc) \<Longrightarrow> snd r s old = Some t \<Longrightarrow> contains s t"
  by (auto simp: REPLACER_CHAIN_def intro: pass_facts)

text \<open>The spans of the chain are distinct texts of the file, none of them empty.\<close>

definition good_spans :: "string \<Rightarrow> (string \<times> string) list \<Rightarrow> bool" where
  "good_spans s spans \<longleftrightarrow> list_all (\<lambda>p. snd p \<noteq> [] \<and> contains s (snd p)) spans \<and> distinct (map snd spans)"

lemma add_span_good: "good_spans s spans \<Longrightarrow> good_spans s (add_span s old r spans)"
  by (auto simp: good_spans_def add_span_def list_ex_iff split: option.splits)

lemma pass_spans_good: "good_spans (normalize_to_lf original) (pass_spans nfkc original old)"
proof -
  have "good_spans s (fold (add_span s old) rs spans)" if "good_spans s spans" for s old rs spans
    using that by (induction rs arbitrary: spans) (auto simp: add_span_good)
  then show ?thesis by (simp add: pass_spans_def good_spans_def)
qed

section \<open>What the candidates are\<close>

text \<open>A region of the file: lines that exist, and their text.\<close>

definition region_of :: "string list \<Rightarrow> candidate \<Rightarrow> bool" where
  "region_of ls c \<longleftrightarrow> 1 \<le> start_line c \<and> start_line c \<le> end_line c \<and> end_line c \<le> length ls \<and>
     cand_text c = join_range ls (start_line c - 1) (end_line c)"

definition candidates_ok :: "string list \<Rightarrow> candidate list \<Rightarrow> bool" where
  "candidates_ok ls cs \<longleftrightarrow> list_all (region_of ls) cs \<and> distinct (map (\<lambda>c. (start_line c, end_line c)) cs)"

lemma push_unique_ok: "candidates_ok ls cs \<Longrightarrow> candidates_ok ls (push_unique cs name r ls)"
  by (cases r) (auto simp: push_unique_def candidates_ok_def region_of_def list_ex_iff)

lemma collect_spans_ok:
  "collect_spans orig ls n spans cs = Some cs' \<Longrightarrow> candidates_ok ls cs \<Longrightarrow> candidates_ok ls cs'"
proof (induction orig ls n spans cs rule: collect_spans.induct)
  case (2 orig ls n name span spans cands)
  show ?case
  proof (cases "max_candidate_lines n < count_char NL span + 1")
    case False
    with 2(4) obtain lr where lr: "line_range_of_span ls orig span = Some lr"
      and rest: "(case lr of None \<Rightarrow> collect_spans orig ls n spans cands
         | Some r \<Rightarrow> collect_spans orig ls n spans (push_unique cands name r ls)) = Some cs'"
      by (auto simp: Option.bind_eq_Some_conv)
    show ?thesis
    proof (cases lr)
      case None
      with 2(2) [OF False, of lr] lr rest 2(5) show ?thesis by simp
    next
      case (Some r)
      with 2(3) [OF False, of lr r] lr rest push_unique_ok [OF 2(5)] show ?thesis by simp
    qed
  qed (use 2 in simp)
qed simp

lemma mset_insert_by: "mset (insert_by lt x xs) = mset (x # xs)"
  by (induction xs) auto

lemma mset_sort_by: "mset (sort_by lt xs) = mset xs"
  by (induction xs) (auto simp: sort_by_def mset_insert_by)

lemma candidates_ok_mset: "mset cs = mset cs' \<Longrightarrow> candidates_ok ls cs \<Longrightarrow> candidates_ok ls cs'"
proof -
  assume "mset cs = mset cs'" "candidates_ok ls cs"
  then show ?thesis unfolding candidates_ok_def list_all_iff
    by (metis (no_types, lifting) mset_eq_imp_distinct_iff mset_eq_setD mset_map)
qed

lemma candidates_ok_take: "candidates_ok ls cs \<Longrightarrow> candidates_ok ls (take n cs)"
  by (auto simp: candidates_ok_def list_all_iff take_map [symmetric] dest: in_set_takeD)

lemma find_candidates_regions:
  assumes "find_candidates nfkc original old = Some cs"
  shows "candidates_ok (lines_of (normalize_to_lf original)) cs \<and> length cs \<le> MAX_CANDIDATES"
proof -
  let ?orig = "normalize_to_lf original" and ?old = "normalize_to_lf old"
  let ?ls = "lines_of ?orig"
  have empty: "candidates_ok ?ls []" by (simp add: candidates_ok_def)
  show ?thesis
  proof (cases "trim ?old = []")
    case True
    with assms empty show ?thesis by (simp add: find_candidates_def Let_def)
  next
    case False
    with assms obtain spans al where
      spans: "collect_spans ?orig ?ls (count_char NL ?old + 1) (pass_spans nfkc ?orig ?old) [] = Some spans"
      and al: "al = (if spans = []
          then (case find_closest_candidate ?orig ?old DEFAULT_MAX_CANDIDATES of
                  None \<Rightarrow> []
                | Some c \<Rightarrow> push_unique [] ''closest-candidate'' (cc_start_line c, cc_end_line c) ?ls)
          else spans)"
      and cs: "cs = take MAX_CANDIDATES (sort_by (candidate_less ?old (count_char NL ?old + 1)) al)"
      by (auto simp: find_candidates_def Let_def Option.bind_eq_Some_conv)
    have "candidates_ok ?ls al"
      using collect_spans_ok [OF spans empty] empty push_unique_ok [OF empty]
      by (auto simp: al split: option.splits)
    then have "candidates_ok ?ls (sort_by (candidate_less ?old (count_char NL ?old + 1)) al)"
      by (rule candidates_ok_mset [OF mset_sort_by [symmetric]])
    then show ?thesis unfolding cs by (auto intro: candidates_ok_take)
  qed
qed

lemma region_contains:
  "region_of (lines_of s) c \<Longrightarrow> contains s (cand_text c)"
proof -
  assume r: "region_of (lines_of s) c"
  then have "start_line c - 1 \<le> end_line c - 1" "end_line c - 1 < length (lines_of s)"
    by (auto simp: region_of_def)
  from contains_lines [OF this] r show ?thesis by (simp add: region_of_def join_range_def)
qed

section \<open>When the search for candidates panics\<close>

named_theorems pass_utf8 \<open>a pass returns valid text\<close>

lemma utf8_join_range [utf8_intros]: "list_all utf8 ls \<Longrightarrow> utf8 (join_range ls i j)"
  unfolding join_range_def
  by (intro utf8_join utf8_NL) (auto simp: list_all_iff dest!: in_set_takeD in_set_dropD)

lemma utf8_unescape [utf8_intros]: "utf8 s \<Longrightarrow> utf8 (unescape s)"
  by (simp add: unescape_def utf8_replace char_width_def)

lemma utf8_normalize_to_lf [utf8_intros]: "utf8 s \<Longrightarrow> utf8 (normalize_to_lf s)"
  by (simp add: normalize_to_lf_def utf8_replace char_width_def)

lemma simple_utf8 [pass_utf8]: "utf8 old \<Longrightarrow> simple_find s old = Some t \<Longrightarrow> utf8 t"
  by (simp add: simple_find_def)

lemma line_trimmed_utf8 [pass_utf8]: "utf8 s \<Longrightarrow> line_trimmed_find s old = Some t \<Longrightarrow> utf8 t"
  by (auto simp: line_trimmed_find_def Let_def split: if_splits intro!: utf8_join_range utf8_lines)

lemma block_anchor_utf8 [pass_utf8]: "utf8 s \<Longrightarrow> block_anchor_find s old = Some t \<Longrightarrow> utf8 t"
  by (auto simp: block_anchor_find_def Let_def split: if_splits list.splits prod.splits
      intro!: utf8_join_range utf8_lines)

lemma whitespace_utf8 [pass_utf8]: "utf8 s \<Longrightarrow> whitespace_normalized_find s old = Some t \<Longrightarrow> utf8 t"
  by (auto simp: whitespace_normalized_find_def Let_def intro!: utf8_join_range utf8_lines)

lemma indentation_utf8 [pass_utf8]: "utf8 s \<Longrightarrow> indentation_flexible_find s old = Some t \<Longrightarrow> utf8 t"
  by (auto simp: indentation_flexible_find_def flexible_at_def Let_def
      dest!: first_some_Some split: if_splits prod.splits intro!: utf8_join_range utf8_lines)

lemma escape_utf8 [pass_utf8]: "utf8 old \<Longrightarrow> escape_normalized_find s old = Some t \<Longrightarrow> utf8 t"
  by (auto simp: escape_normalized_find_def Let_def utf8_unescape split: if_splits)

lemma boundary_utf8 [pass_utf8]:
  "utf8 s \<Longrightarrow> utf8 old \<Longrightarrow> trimmed_boundary_find s old = Some t \<Longrightarrow> utf8 t"
  by (auto simp: trimmed_boundary_find_def Let_def dest!: first_some_Some split: if_splits
      intro!: utf8_join_range utf8_lines utf8_trim)

lemma context_step_utf8:
  "utf8 s \<Longrightarrow> pred_option utf8 (fst b) \<Longrightarrow> pred_option utf8 (fst (context_step old (lines_of s) n l i b))"
  by (auto simp: context_step_def Let_def split: option.splits intro!: utf8_join_range utf8_lines)

lemma context_fold_utf8:
  "utf8 s \<Longrightarrow> pred_option utf8 (fst b) \<Longrightarrow>
   pred_option utf8 (fst (fold (context_step old (lines_of s) n l) is b))"
  by (induction "is" arbitrary: b) (simp_all add: context_step_utf8)

lemma context_utf8 [pass_utf8]: "utf8 s \<Longrightarrow> context_aware_find s old = Some t \<Longrightarrow> utf8 t"
proof -
  assume s: "utf8 s" and "context_aware_find s old = Some t"
  then obtain l "is" where
    "fst (fold (context_step old (lines_of s) (length (lines_of old)) (trim l)) is (None, (0, 1))) = Some t"
    by (auto simp: context_aware_find_def Let_def filter_opt_Some_iff split: if_splits option.splits)
  with context_fold_utf8 [OF s, of "(None, (0, 1))" old "length (lines_of old)" "trim l" "is"]
  show ?thesis by simp
qed

lemma multi_utf8 [pass_utf8]: "utf8 s \<Longrightarrow> multi_occurrence_find s old = Some t \<Longrightarrow> utf8 t"
  by (auto simp: multi_occurrence_find_def Let_def dest!: first_some_Some split: if_splits
      intro!: utf8_join_range utf8_lines)

lemma unicode_utf8 [pass_utf8]: "utf8 s \<Longrightarrow> unicode_normalized_find nfkc s old = Some t \<Longrightarrow> utf8 t"
  by (auto simp: unicode_normalized_find_def Let_def Option.bind_eq_Some_conv
      split: if_splits prod.splits intro: utf8_slice)

lemma chain_utf8:
  "r \<in> set (REPLACER_CHAIN nfkc) \<Longrightarrow> utf8 s \<Longrightarrow> utf8 old \<Longrightarrow> snd r s old = Some t \<Longrightarrow> utf8 t"
  unfolding REPLACER_CHAIN_def by (simp, elim disjE; simp; blast intro: pass_utf8)

lemma pass_spans_utf8:
  assumes "utf8 original" "utf8 old"
  shows "list_all (\<lambda>p. utf8 (snd p)) (pass_spans nfkc original old)"
proof -
  let ?s = "normalize_to_lf original" and ?old = "normalize_to_lf old"
  have valid: "utf8 ?s" "utf8 ?old" using assms by (auto intro: utf8_intros)
  have "list_all (\<lambda>p. utf8 (snd p)) (fold (add_span ?s ?old) rs spans)"
    if "list_all (\<lambda>p. utf8 (snd p)) spans" "set rs \<subseteq> set (REPLACER_CHAIN nfkc)" for rs spans
    using that
  proof (induction rs arbitrary: spans)
    case (Cons r rs)
    have "list_all (\<lambda>p. utf8 (snd p)) (add_span ?s ?old r spans)"
      using Cons.prems chain_utf8 [OF _ valid, of r nfkc]
      by (auto simp: add_span_def split: option.splits)
    with Cons show ?case by simp
  qed simp
  from this [of "[]" "REPLACER_CHAIN nfkc"] show ?thesis by (simp add: pass_spans_def)
qed

lemma line_range_panics_iff:
  assumes "utf8 s" "utf8 span" "span \<noteq> []" "contains s span"
  shows "line_range_of_span ls s span = None \<longleftrightarrow> is_cont (last span)"
proof -
  obtain i where i: "find_str span s = Some i" using assms(4) by (auto simp: contains_def)
  then have occ: "occurs_at span s i" by (simp add: find_str_Some)
  have start: "is_char_boundary i s" "i + length span \<le> length s"
    using find_str_boundary [OF assms(1-3) i] by auto
  let ?k = "i + (length span - 1)"
  have pos: "0 < length span" using assms(3) by simp
  then have k: "?k < length s" using start by linarith
  obtain a b where s: "s = a @ span @ b" "length a = i" using occ by (auto simp: occurs_at_split)
  have "s ! ?k = last span" using pos by (simp add: s nth_append last_conv_nth)
  moreover have "is_cont (last span) \<Longrightarrow> 0 < ?k"
  proof (rule ccontr)
    assume cont: "is_cont (last span)" and "\<not> 0 < ?k"
    with assms(3) have "length span = 1" by (cases span) auto
    then have "last span = hd span" by (cases span) auto
    with cont utf8_hd [OF assms(2,3)] show False by simp
  qed
  ultimately have "is_char_boundary ?k s \<longleftrightarrow> \<not> is_cont (last span)"
    using k by (auto simp: is_char_boundary_def)
  with i start k show ?thesis
    by (auto simp: line_range_of_span_def get_slice_def split: if_splits)
qed

definition panicking_span :: "nat \<Rightarrow> string \<times> string \<Rightarrow> bool" where
  "panicking_span n p \<longleftrightarrow> count_char NL (snd p) + 1 \<le> max_candidate_lines n \<and> is_cont (last (snd p))"

lemma collect_spans_panics_iff:
  "utf8 s \<Longrightarrow> list_all (\<lambda>p. utf8 (snd p) \<and> snd p \<noteq> [] \<and> contains s (snd p)) spans \<Longrightarrow>
   collect_spans s ls n spans cs = None \<longleftrightarrow> list_ex (panicking_span n) spans"
proof (induction spans arbitrary: cs)
  case (Cons p spans)
  obtain name span where p: "p = (name, span)" by (cases p)
  show ?case
  proof (cases "max_candidate_lines n < count_char NL span + 1")
    case True
    with Cons p show ?thesis by (simp add: panicking_span_def)
  next
    case False
    have "line_range_of_span ls s span = None \<longleftrightarrow> is_cont (last span)"
      by (rule line_range_panics_iff) (use Cons.prems p in auto)
    moreover have IH: "collect_spans s ls n spans cs = None \<longleftrightarrow> list_ex (panicking_span n) spans" for cs
      by (rule Cons.IH) (use Cons.prems in auto)
    ultimately show ?thesis
    proof (cases "line_range_of_span ls s span")
      case (Some lr)
      with False p \<open>_ = None \<longleftrightarrow> is_cont (last span)\<close> IH show ?thesis
        by (cases lr) (simp_all add: panicking_span_def [of n "(name, span)"])
    qed (use False p in \<open>simp add: panicking_span_def [of n "(name, span)"]\<close>)
  qed
qed simp

lemma find_candidates_panics_iff:
  assumes "utf8 original" "utf8 old"
  shows "find_candidates nfkc original old = None \<longleftrightarrow>
    trim (normalize_to_lf old) \<noteq> [] \<and>
    list_ex (panicking_span (count_char NL (normalize_to_lf old) + 1))
      (pass_spans nfkc (normalize_to_lf original) (normalize_to_lf old))"
proof -
  let ?s = "normalize_to_lf original" and ?old = "normalize_to_lf old"
  have valid: "utf8 ?s" "utf8 ?old" using assms by (auto intro: utf8_intros)
  have "list_all (\<lambda>p. utf8 (snd p) \<and> snd p \<noteq> [] \<and> contains ?s (snd p)) (pass_spans nfkc ?s ?old)"
    using pass_spans_utf8 [OF valid, of nfkc] pass_spans_good [of ?s nfkc ?old]
    by (simp add: good_spans_def list_all_iff)
  from collect_spans_panics_iff [OF valid(1) this] show ?thesis
    by (auto simp: find_candidates_def Let_def Option.bind_eq_None_conv)
qed

text \<open>A file with a single line whose last character has two bytes, and a query that is the same line
  indented: the second pass proposes the line, and cutting the file before its last byte panics.\<close>

definition cafe :: string where
  "cafe = ''caf'' @ [CHR 0xC3, CHR 0xA9]"

lemma candidates_panic_on_cafe: "find_candidates (\<lambda>s. s) (cafe @ [NL]) (''  '' @ cafe) = None"
  by code_simp

section \<open>Where a text occurs\<close>

lemma occurrences_from_eq:
  "utf8 h \<Longrightarrow> utf8 n \<Longrightarrow> n \<noteq> [] \<Longrightarrow> is_char_boundary pos h \<Longrightarrow>
   occurrences_from h n pos =
     Some (map (\<lambda>i. count_char NL (take i h) + 1) (filter (occurs_at n h) [pos..<Suc (length h)]))"
proof (induction h n pos rule: occurrences_from.induct)
  case (1 h n pos)
  show ?case
  proof (cases "length h < pos")
    case True
    then show ?thesis by (simp add: occurrences_from.simps)
  next
    case False
    then have pos: "pos \<le> length h" by simp
    with 1(5) have rest: "get_from h pos = Some (drop pos h)" by (simp add: get_from_boundary)
    show ?thesis
    proof (cases "find_str n (drop pos h)")
      case None
      have "\<not> occurs_at n h i" if "pos \<le> i" for i
        using find_str_None [OF None, of "i - pos"] occurs_at_drop [OF pos, of n "i - pos"] that by simp
      then have "filter (occurs_at n h) [pos..<Suc (length h)] = []"
        by (auto simp: filter_empty_conv)
      with None rest False show ?thesis by (simp add: occurrences_from.simps)
    next
      case (Some i)
      have occ: "occurs_at n h (pos + i)" and first: "\<forall>j<i. \<not> occurs_at n h (pos + j)"
        using find_str_Some [OF Some] occurs_at_drop [OF pos] by auto
      have bound: "is_char_boundary (pos + i) h" by (rule occurs_utf8 [OF 1(2-4) occ])
      have len: "pos + i < length h" using occ 1(4) by (cases n) (auto simp: occurs_at_def)
      let ?q = "next_boundary h (Suc (pos + i))"
      have q: "is_char_boundary ?q h" "?q \<le> length h" "Suc (pos + i) \<le> ?q"
        using next_boundary_boundary next_boundary_le next_boundary_ge len by auto
      have IH: "occurrences_from h n ?q =
          Some (map (\<lambda>i. count_char NL (take i h) + 1) (filter (occurs_at n h) [?q..<Suc (length h)]))"
        by (rule 1(1) [OF False rest Some _ 1(2-4) q(1)]) (use bound len in \<open>simp add: get_slice_def\<close>)
      have none: "\<not> occurs_at n h j" if "pos + i < j" "j < ?q" for j
      proof
        assume "occurs_at n h j"
        then have "is_char_boundary j h" by (rule occurs_utf8 [OF 1(2-4)])
        with that next_boundary_least [of "Suc (pos + i)" j h] show False by auto
      qed
      have split: "[pos..<Suc (length h)] = [pos..<pos + i] @ (pos + i) # [Suc (pos + i)..<?q] @ [?q..<Suc (length h)]"
      proof -
        have "[pos..<Suc (length h)] = [pos..<pos + i] @ [pos + i..<Suc (length h)]"
          by (rule upt_split) (use len in auto)
        also have "[pos + i..<Suc (length h)] = (pos + i) # [Suc (pos + i)..<Suc (length h)]"
          using len by (simp add: upt_conv_Cons)
        also have "[Suc (pos + i)..<Suc (length h)] = [Suc (pos + i)..<?q] @ [?q..<Suc (length h)]"
          by (rule upt_split) (use q in auto)
        finally show ?thesis .
      qed
      have "filter (occurs_at n h) [pos..<pos + i] = []"
        using first by (auto simp: filter_empty_conv) (metis le_add_diff_inverse nat_add_left_cancel_less)
      moreover have "filter (occurs_at n h) [Suc (pos + i)..<?q] = []"
        using none by (auto simp: filter_empty_conv)
      ultimately have "filter (occurs_at n h) [pos..<Suc (length h)] =
          (pos + i) # filter (occurs_at n h) [?q..<Suc (length h)]"
        unfolding split using occ by simp
      with IH rest Some False bound len show ?thesis
        by (simp add: occurrences_from.simps get_slice_def)
    qed
  qed
qed

lemma find_occurrence_positions_eq:
  "utf8 h \<Longrightarrow> utf8 n \<Longrightarrow> n \<noteq> [] \<Longrightarrow>
   find_occurrence_positions h n =
     Some (map (\<lambda>i. count_char NL (take i h) + 1) (filter (occurs_at n h) [0..<Suc (length h)]))"
  by (simp add: find_occurrence_positions_def occurrences_from_eq del: upt_Suc)

end
