(* ===== verification/Edit_Diagnostics.thy ===== *)
theory Edit_Diagnostics
  imports Edit_Chain
begin

text \<open>
  \<open>rpi-edit-diagnostics/src/edit_diagnostics.rs\<close>: the text of every failure of the \<open>edit\<close> tool. The line
  changes between \<open>oldText\<close> and a candidate come from the \<open>similar\<close> crate and are the parameter
  \<open>changes\<close>. A report whose search for candidates panics is \<open>None\<close>.
\<close>

definition MAX_DIFFERING_LINES :: nat where "MAX_DIFFERING_LINES = 8"
definition MAX_QUOTED_LINES :: nat where "MAX_QUOTED_LINES = 30"
definition MAX_LISTED_LINES :: nat where "MAX_LISTED_LINES = 8"

definition edit_at :: "nat \<Rightarrow> string" where
  "edit_at idx = ''edits['' @ show_nat idx @ '']''"

definition empty_old_text :: "string \<Rightarrow> nat \<Rightarrow> string" where
  "empty_old_text path idx =
     ''error: '' @ edit_at idx @ ''.oldText is empty in '' @ path @ '' - provide the exact text to replace''"

definition no_op :: "string \<Rightarrow> nat \<Rightarrow> string" where
  "no_op path idx =
     ''error: '' @ edit_at idx @ ''.oldText and newText are identical in '' @ path @
     '' - this edit would change nothing''"

text \<open>Runs of equal line numbers with their lengths.\<close>

fun count_runs :: "nat list \<Rightarrow> (nat \<times> nat) list \<Rightarrow> (nat \<times> nat) list" where
  "count_runs [] runs = rev runs"
| "count_runs (l # ls) ((k, n) # runs) =
     (if k = l then count_runs ls ((k, n + 1) # runs) else count_runs ls ((l, 1) # (k, n) # runs))"
| "count_runs (l # ls) [] = count_runs ls [(l, 1)]"

definition lines_list :: "nat list \<Rightarrow> string" where
  "lines_list positions =
     (let runs = count_runs positions [];
          shown = map (\<lambda>(l, n). if n = 1 then show_nat l else show_nat l @ '' ('' @ show_nat n @ '' times)'')
            (take MAX_LISTED_LINES runs);
          out = (if length shown = 1 then ''line '' @ hd shown else ''lines '' @ join '', '' shown) in
      if runs = [] then ''no lines''
      else if length shown < length runs
        then out @ '' (and '' @ show_nat (length runs - length shown) @ '' more lines)''
        else out)"

definition duplicate :: "string \<Rightarrow> nat \<Rightarrow> nat \<Rightarrow> nat list \<Rightarrow> string" where
  "duplicate path idx n positions =
     ''error: '' @ edit_at idx @ ''.oldText occurs '' @ show_nat n @ '' times in '' @ path @
     '' ('' @ lines_list positions @ '')'' @ [NL] @
     ''  help: include the surrounding lines that distinguish the intended occurrence, or set '' @
     ''replaceAll: true to change every occurrence''"

definition overlap :: "string \<Rightarrow> nat \<times> nat \<times> nat \<Rightarrow> nat \<times> nat \<times> nat \<Rightarrow> string" where
  "overlap path a b =
     (case (a, b) of ((a_index, a_start, a_end), (b_index, b_start, b_end)) \<Rightarrow>
        ''error: '' @ edit_at a_index @ '' ('' @ lines_phrase a_start a_end @ '') and '' @
        edit_at b_index @ '' ('' @ lines_phrase b_start b_end @ '') overlap in '' @ path @ [NL] @
        ''  help: merge them into one edit, or make each oldText target a disjoint region'')"

text \<open>The blocks of all failing edits in the order of their idx; the sort is stable.\<close>

definition join_failures :: "(nat \<times> string) list \<Rightarrow> string" where
  "join_failures failures = join [NL, NL] (map snd (sort_key fst failures))"

section \<open>How a candidate differs\<close>

definition leading_whitespace :: "string \<Rightarrow> string" where
  "leading_whitespace l = concat (takeWhile is_ws (chars l))"

definition indent_desc :: "string \<Rightarrow> string" where
  "indent_desc l =
     (let indent = leading_whitespace l; tabs = count_char (CHR 0x09) indent;
          spaces = char_count indent - tabs in
      if tabs = 0 then show_nat spaces @ '' spaces''
      else if spaces = 0 then show_nat tabs @ '' tabs''
      else show_nat tabs @ '' tabs + '' @ show_nat spaces @ '' spaces'')"

record line_diffs =
  content_diffs :: "nat list"
  indent :: "(string \<times> string) option"
  spacing_differs :: bool

definition compare_line :: "nat \<times> string \<times> string \<Rightarrow> line_diffs \<Rightarrow> line_diffs" where
  "compare_line p d =
     (case p of (i, old_line, file_line) \<Rightarrow>
        if old_line = file_line then d
        else if trim old_line = trim file_line then
          (if leading_whitespace old_line = leading_whitespace file_line then d\<lparr>spacing_differs := True\<rparr>
           else if indent d = None then d\<lparr>indent := Some (indent_desc file_line, indent_desc old_line)\<rparr>
           else d)
        else d\<lparr>content_diffs := content_diffs d @ [i]\<rparr>)"

definition compare_lines :: "string list \<Rightarrow> string list \<Rightarrow> line_diffs" where
  "compare_lines old_lines file_lines =
     fold compare_line (zip [0..<length old_lines] (zip old_lines file_lines))
       \<lparr>content_diffs = [], indent = None, spacing_differs = False\<rparr>"

definition describe :: "candidate \<Rightarrow> string \<Rightarrow> string" where
  "describe c old_text =
     (let old = normalize_to_lf old_text; old_lines = lines_of old; file_lines = lines_of (cand_text c);
          d = compare_lines old_lines file_lines in
      if unescape old = cand_text c then
        ''only escape sequences differ (oldText has \"'' @ [BSL] @ ''n\"/\"'' @ [BSL] @
        ''t\", the file has the real characters)''
      else if length file_lines < length old_lines then
        ''the file region has '' @ show_nat (length old_lines - length file_lines) @
        '' fewer line(s) than oldText''
      else if length old_lines < length file_lines then
        ''the file region has '' @ show_nat (length file_lines - length old_lines) @
        '' more line(s) than oldText''
      else if content_diffs d \<noteq> [] then
        (let first_matches = trim (hd old_lines) = trim (hd file_lines);
             last_matches = trim (last old_lines) = trim (last file_lines);
             s = start_line c + hd (content_diffs d); e = start_line c + last (content_diffs d) in
         if 3 \<le> length old_lines \<and> first_matches \<and> last_matches then
           ''first and last lines match, '' @ lines_phrase s e @ '' '' @
           (if s = e then ''differs'' else ''differ'')
         else if length old_lines = 1 then ''the line's text differs (see the differing line below)''
         else ''the lines differ (see the differing lines below)'')
      else case indent d of
          Some (file_indent, old_indent) \<Rightarrow>
            ''only indentation differs (file uses '' @ file_indent @ '', oldText '' @ old_indent @ '')''
        | None \<Rightarrow>
            if spacing_differs d then ''only the spacing inside the lines differs''
            else ''only whitespace differs'')"

section \<open>The differing lines\<close>

datatype change_tag = Ch_Equal | Ch_Delete | Ch_Insert

record change =
  ch_tag :: change_tag
  old_index :: "nat option"
  new_index :: "nat option"
  ch_value :: string

type_synonym change_line = "change_tag \<times> nat \<times> string"

definition pad_left :: "nat \<Rightarrow> string \<Rightarrow> string" where
  "pad_left n s = replicate (n - char_count s) CHR '' '' @ s"

definition pad_right :: "nat \<Rightarrow> string \<Rightarrow> string" where
  "pad_right n s = s @ replicate (n - char_count s) CHR '' ''"

definition change_lines :: "nat \<Rightarrow> change list \<Rightarrow> change_line list" where
  "change_lines start cs =
     map (\<lambda>c. (ch_tag c,
               start + unwrap_or 0 (if ch_tag c = Ch_Delete then old_index c else new_index c),
               rev (dropWhile ((=) NL) (rev (ch_value c)))))
       (filter (\<lambda>c. ch_tag c \<noteq> Ch_Equal) cs)"

fun interleave :: "'a list \<Rightarrow> 'a list \<Rightarrow> 'a list" where
  "interleave [] ys = ys"
| "interleave xs [] = xs"
| "interleave (x # xs) (y # ys) = x # y # interleave xs ys"

text \<open>A run of removals is paired with the run of additions that follows it.\<close>

function pair_changes :: "change_line list \<Rightarrow> change_line list" where
  "pair_changes [] = []"
| "pair_changes (c # cs) =
     (if fst c \<noteq> Ch_Delete then c # pair_changes cs
      else
        (let deleted = c # takeWhile (\<lambda>d. fst d = Ch_Delete) cs;
             rest = dropWhile (\<lambda>d. fst d = Ch_Delete) cs;
             inserted = takeWhile (\<lambda>d. fst d = Ch_Insert) rest in
         interleave deleted inserted @ pair_changes (dropWhile (\<lambda>d. fst d = Ch_Insert) rest)))"
  by pat_completeness auto
termination by (relation "measure length")
    (auto simp: less_Suc_eq_le intro: order_trans [OF length_dropWhile_le length_dropWhile_le])

definition change_entry :: "change_line \<Rightarrow> string" where
  "change_entry c = (case c of (tag, line_no, t) \<Rightarrow>
     pad_left 5 (show_nat line_no) @ '' '' @ (if tag = Ch_Delete then ''-'' else ''+'') @ '' '' @
     pad_right 11 (if tag = Ch_Delete then ''oldText:'' else ''file:'') @ t)"

definition differing_lines :: "(string \<Rightarrow> string \<Rightarrow> change list) \<Rightarrow> string \<Rightarrow> candidate \<Rightarrow> string list" where
  "differing_lines changes old_text c =
     (let ordered = pair_changes (change_lines (start_line c) (changes (normalize_to_lf old_text) (cand_text c)));
          entries = map change_entry (take MAX_DIFFERING_LINES ordered);
          omitted = length ordered - MAX_DIFFERING_LINES;
          entries' = (if 0 < omitted
            then entries @ [ellipsis @ '' '' @ show_nat omitted @ '' more differing lines''] else entries) in
      if entries' = [] then [''(the difference is inside a line; see the text below)''] else entries')"

section \<open>The report of a text that was not found\<close>

definition first_content_line :: "string \<Rightarrow> string option" where
  "first_content_line t = find (\<lambda>l. l \<noteq> []) (map trim (lines_of t))"

definition abbreviate_line :: "string \<Rightarrow> string" where
  "abbreviate_line l = (if char_count l \<le> 80 then l else take_chars 80 l @ ellipsis)"

definition candidate_line :: "string \<Rightarrow> nat \<times> candidate \<Rightarrow> string" where
  "candidate_line old_text p =
     (case p of (i, c) \<Rightarrow>
        ''  --> '' @ lines_phrase (start_line c) (end_line c) @ '' '' @
        (if line_count c = 1 then ''is'' else ''are'') @ '' '' @
        (if i = 0 then ''the closest match'' else ''also similar'') @ '': '' @ describe c old_text @ [NL])"

definition help_text :: "candidate \<Rightarrow> string" where
  "help_text c =
     (if MAX_QUOTED_LINES < line_count c then
        ''  help: '' @ lines_phrase (start_line c) (end_line c) @
        '' is too long to quote here; read it with read (offset '' @ show_nat (start_line c) @ '', limit '' @
        show_nat (line_count c) @ '') and copy that text into oldText'' @ [NL]
      else
        ''  help: this is the text at '' @ lines_phrase (start_line c) (end_line c) @
        '' (the \"| \" prefix is not part of it); use it as oldText:'' @ [NL] @
        concat (map (\<lambda>l. ''  | '' @ l @ [NL]) (lines_of (cand_text c))))"

definition no_candidate_text :: "string \<Rightarrow> string \<Rightarrow> string option" where
  "no_candidate_text old_text content = do {
     hint \<leftarrow> (case first_content_line old_text of
        None \<Rightarrow> Some []
      | Some l \<Rightarrow> do {
          positions \<leftarrow> find_occurrence_positions content l;
          Some (if positions = [] then []
            else ''  --> oldText's first line \"'' @ abbreviate_line l @ ''\" appears at '' @
                 lines_list positions @ [NL])
        });
     Some (''  --> no text in the file is similar to oldText'' @ [NL] @ hint @
       ''  help: read the file again and copy its current text into oldText (whitespace and all)'' @ [NL])
   }"

definition not_found ::
  "(string \<Rightarrow> string) \<Rightarrow> (string \<Rightarrow> string \<Rightarrow> change list) \<Rightarrow> string \<Rightarrow> nat \<Rightarrow> string \<Rightarrow> string \<Rightarrow> string option" where
  "not_found nfkc changes path idx old_text content = do {
     candidates \<leftarrow> find_candidates nfkc content old_text;
     body \<leftarrow> (case candidates of
        [] \<Rightarrow> no_candidate_text old_text content
      | best # rest \<Rightarrow>
          Some (concat (map (candidate_line old_text) (zip [0..<length candidates] candidates)) @
            ''  differing lines:'' @ [NL] @
            concat (map (\<lambda>e. ''  '' @ e @ [NL]) (differing_lines changes old_text best)) @
            help_text best));
     Some (trim_end (''error: '' @ edit_at idx @ ''.oldText not found in '' @ path @ [NL] @ body))
   }"

section \<open>Lemmas\<close>

lemma mset_interleave: "mset (interleave xs ys) = mset xs + mset ys"
  by (induction xs ys rule: interleave.induct) auto

lemma mset_takeWhile_dropWhile: "mset (takeWhile P xs) + mset (dropWhile P xs) = mset xs"
  by (metis mset_append takeWhile_dropWhile_id)

text \<open>Pairing the changes neither loses nor repeats one.\<close>

lemma mset_pair_changes: "mset (pair_changes cs) = mset cs"
proof (induction cs rule: pair_changes.induct)
  case (2 c cs)
  show ?case
  proof (cases "fst c = Ch_Delete")
    case True
    let ?rest = "dropWhile (\<lambda>d. fst d = Ch_Delete) cs"
    have "mset (pair_changes (dropWhile (\<lambda>d. fst d = Ch_Insert) ?rest)) =
        mset (dropWhile (\<lambda>d. fst d = Ch_Insert) ?rest)"
      by (rule 2(2)) (use True in auto)
    then show ?thesis using True
      by (simp add: mset_interleave add.assoc mset_takeWhile_dropWhile Let_def)
  qed (use 2 in simp)
qed simp

lemma differing_lines_length: "length (differing_lines changes old c) \<le> MAX_DIFFERING_LINES + 1"
  by (simp add: differing_lines_def Let_def)

lemma differing_lines_not_Nil: "differing_lines changes old c \<noteq> []"
  by (simp add: differing_lines_def Let_def)

lemma count_runs_length: "length (count_runs ls runs) \<le> length ls + length runs"
proof (induction ls runs rule: count_runs.induct)
  case (2 l ls k n runs)
  then show ?case by (auto split: if_splits)
qed auto

text \<open>A report is made unless the search for candidates panics.\<close>

lemma not_found_None_iff:
  assumes "utf8 content" "utf8 old"
  shows "not_found nfkc changes path i old content = None \<longleftrightarrow> find_candidates nfkc content old = None"
proof -
  have "no_candidate_text old content \<noteq> None"
  proof (cases "first_content_line old")
    case (Some l)
    then have "l \<in> set (map trim (lines_of old))" "l \<noteq> []"
      by (auto simp: first_content_line_def find_Some_iff)
    then have "utf8 l" using utf8_lines [OF assms(2)] by (auto simp: list_all_iff intro: utf8_trim)
    with Some \<open>l \<noteq> []\<close> show ?thesis
      by (simp add: no_candidate_text_def find_occurrence_positions_eq [OF assms(1)])
  qed (simp add: no_candidate_text_def)
  then show ?thesis
    by (auto simp: not_found_def Option.bind_eq_None_conv split: list.splits)
qed

lemma not_found_panics_on_cafe: "not_found (\<lambda>s. s) changes path i (''  '' @ cafe) (cafe @ [NL]) = None"
  unfolding not_found_def candidates_panic_on_cafe by simp

end
