(* ===== verification/Edit_Apply.thy ===== *)
theory Edit_Apply
  imports Edit_View Edit_Diagnostics
begin

text \<open>
  \<open>rpi-edit-diagnostics/src/edit_apply.rs\<close>: every edit is matched against the original content, all
  failures are collected, and either every replacement is spliced in or none is. The outer \<open>option\<close>
  is a panic, the sum inside it the \<open>Result\<close> of the code.
\<close>

section \<open>Requests, plans and results\<close>

datatype failure_code = NotFound | Invalid

record edit_request =
  old_text :: string
  new_text :: string
  replace_all :: bool

record applied_edits =
  base_content :: string
  new_content :: string
  replacements :: nat
  applied_notes :: "string list"
  warnings :: "string list"

record apply_failure =
  code :: failure_code
  message :: string

record failure =
  f_index :: nat
  f_code :: failure_code
  f_message :: string

record edit_plan =
  plan_index :: nat
  needle :: string
  spans :: "replacement list"
  plan_new_text :: string
  match_count :: nat
  normalized_match :: bool

definition apply_failure_new :: "failure list \<Rightarrow> apply_failure" where
  "apply_failure_new failures =
     \<lparr>code = (if list_ex (\<lambda>f. f_code f = NotFound) failures then NotFound else Invalid),
      message = join_failures (map (\<lambda>f. (f_index f, f_message f)) failures)\<rparr>"

section \<open>Spans and lines\<close>

function spans_from :: "string \<Rightarrow> string \<Rightarrow> nat \<Rightarrow> (nat \<times> nat) list option" where
  "spans_from content n from_pos =
     (if n = [] \<or> length content < from_pos then Some []
      else do {
        rest \<leftarrow> get_from content from_pos;
        (case find_str n rest of
           None \<Rightarrow> Some []
         | Some i \<Rightarrow> do {
             more \<leftarrow> spans_from content n (from_pos + i + length n);
             Some ((from_pos + i, from_pos + i + length n) # more)
           })
      })"
  by pat_completeness auto
termination
  by (relation "measure (\<lambda>(c, n, p). Suc (length c) - p)") (auto simp: length_greater_0_conv [symmetric] simp del: length_greater_0_conv)

declare spans_from.simps [simp del]

definition find_all_spans :: "string \<Rightarrow> string \<Rightarrow> (nat \<times> nat) list option" where
  "find_all_spans content n = (if n = [] then Some [] else spans_from content n 0)"

definition line_of :: "string \<Rightarrow> nat \<Rightarrow> nat" where
  "line_of t offset = count_char NL (take offset t) + 1"

definition span_line_range :: "string \<Rightarrow> replacement list \<Rightarrow> nat \<times> nat" where
  "span_line_range base rs = (line_of base (rep_start (hd rs)), line_of base (rep_end (last rs) - 1))"

definition SPLICE_MESSAGE :: string where
  "SPLICE_MESSAGE = ''error: invalid replacement spans: overlapping, unordered, or out of bounds''"

fun splice_from :: "string \<Rightarrow> nat \<Rightarrow> replacement list \<Rightarrow> (apply_failure + string) option" where
  "splice_from base cursor [] = do { rest \<leftarrow> get_from base cursor; Some (Inr rest) }"
| "splice_from base cursor (r # rs) =
     (case get_slice base cursor (rep_start r) of
        None \<Rightarrow> Some (Inl \<lparr>code = Invalid, message = SPLICE_MESSAGE\<rparr>)
      | Some gap \<Rightarrow>
          if get_slice base (rep_start r) (rep_end r) = None
          then Some (Inl \<lparr>code = Invalid, message = SPLICE_MESSAGE\<rparr>)
          else do {
            rest \<leftarrow> splice_from base (rep_end r) rs;
            Some (map_sum id (\<lambda>t. gap @ rep_text r @ t) rest)
          })"

definition splice :: "string \<Rightarrow> replacement list \<Rightarrow> (apply_failure + string) option" where
  "splice base rs = splice_from base 0 rs"

section \<open>Overlaps\<close>

type_synonym located = "nat \<times> replacement"

definition located_spans :: "edit_plan list \<Rightarrow> located list" where
  "located_spans plans =
     sort_key (\<lambda>p. rep_start (snd p))
       (concat (map (\<lambda>(k, p). map (\<lambda>r. (k, r)) (spans p)) (zip [0..<length plans] plans)))"

definition overlap_message :: "string \<Rightarrow> edit_plan list \<Rightarrow> string \<Rightarrow> located \<Rightarrow> located \<Rightarrow> failure option" where
  "overlap_message base plans path a b =
     (let a_index = plan_index (plans ! fst a); b_index = plan_index (plans ! fst b) in
      if rep_end (snd a) = 0 \<or> rep_end (snd b) = 0 then None
      else Some \<lparr>f_index = min a_index b_index, f_code = Invalid,
        f_message = overlap path
          (a_index, line_of base (rep_start (snd a)), line_of base (rep_end (snd a) - 1))
          (b_index, line_of base (rep_start (snd b)), line_of base (rep_end (snd b) - 1))\<rparr>)"

fun first_overlap :: "string \<Rightarrow> edit_plan list \<Rightarrow> string \<Rightarrow> located list \<Rightarrow> failure option option" where
  "first_overlap base plans path (a # b # rest) =
     (if fst a = fst b \<or> rep_end (snd a) \<le> rep_start (snd b)
      then first_overlap base plans path (b # rest)
      else map_option Some (overlap_message base plans path a b))"
| "first_overlap base plans path [] = Some None"
| "first_overlap base plans path [a] = Some None"

definition overlap_failure :: "string \<Rightarrow> edit_plan list \<Rightarrow> string \<Rightarrow> failure option option" where
  "overlap_failure base plans path = first_overlap base plans path (located_spans plans)"

section \<open>Bracket balance\<close>

definition BRACKETS :: "(char \<times> char) list" where
  "BRACKETS = [(CHR ''{'', CHR ''}''), (CHR ''('', CHR '')''), (CHR ''['', CHR '']'')]"

definition bracket_balance :: "string \<Rightarrow> int list" where
  "bracket_balance t =
     map (\<lambda>(opening, closing). int (count_list (chars t) [opening]) - int (count_list (chars t) [closing])) BRACKETS"

record line_cursor =
  lc_ranges :: "(nat \<times> nat \<times> nat) list"
  line_delta :: int
  cursor :: nat
  base_line :: int

definition range_step :: "string \<Rightarrow> located \<Rightarrow> line_cursor \<Rightarrow> line_cursor option" where
  "range_step base p s = do {
     gap \<leftarrow> get_slice base (cursor s) (rep_start (snd p));
     replaced \<leftarrow> get_slice base (rep_start (snd p)) (rep_end (snd p));
     let here = base_line s + int (count_char NL gap);
     let first = here + line_delta s;
     let added = int (count_char NL (rep_text (snd p)));
     Some (s\<lparr>lc_ranges := lc_ranges s @ [(fst p, nat first, nat (first + added))],
             line_delta := line_delta s + added - int (count_char NL replaced),
             cursor := rep_start (snd p), base_line := here\<rparr>)
   }"

fun range_steps :: "string \<Rightarrow> located list \<Rightarrow> line_cursor \<Rightarrow> line_cursor option" where
  "range_steps base [] s = Some s"
| "range_steps base (p # ps) s = do { s' \<leftarrow> range_step base p s; range_steps base ps s' }"

definition new_line_ranges :: "string \<Rightarrow> edit_plan list \<Rightarrow> (nat \<times> nat) list list option" where
  "new_line_ranges base plans = do {
     s \<leftarrow> range_steps base (located_spans plans) \<lparr>lc_ranges = [], line_delta = 0, cursor = 0, base_line = 1\<rparr>;
     Some (map (\<lambda>k. map snd (filter (\<lambda>r. fst r = k) (lc_ranges s))) [0..<length plans])
   }"

definition show_signed :: "int \<Rightarrow> string" where
  "show_signed d = (if d < 0 then ''-'' else ''+'') @ show_nat (nat \<bar>d\<bar>)"

definition brace_warning :: "edit_plan \<Rightarrow> (nat \<times> nat) list \<Rightarrow> nat \<Rightarrow> string option" where
  "brace_warning p ranges kind =
     (let delta = int (match_count p) *
            (bracket_balance (plan_new_text p) ! kind - bracket_balance (needle p) ! kind);
          bracket = (if 0 < delta then fst (BRACKETS ! kind) else snd (BRACKETS ! kind));
          where_lines = (case ranges of
              [] \<Rightarrow> ''no lines''
            | [(s, e)] \<Rightarrow> lines_phrase s e
            | (s, e) # others \<Rightarrow> lines_phrase s e @ '', and '' @ show_nat (length others) @ '' more'') in
      if delta = 0 then None
      else Some (''warning: '' @ edit_at (plan_index p) @ '' changes brace balance by '' @ show_signed delta @
        '' '' @ [CHR 0x27, bracket, CHR 0x27] @ '' ('' @ where_lines @ '')''))"

definition brace_warnings :: "string \<Rightarrow> edit_plan list \<Rightarrow> string list option" where
  "brace_warnings base plans = do {
     ranges \<leftarrow> new_line_ranges base plans;
     Some (concat (map (\<lambda>(k, p). List.map_filter (brace_warning p (ranges ! k)) [0..<length BRACKETS])
       (zip [0..<length plans] plans)))
   }"

section \<open>Matching one edit\<close>

definition validate_edit :: "string \<Rightarrow> nat \<times> string \<times> string \<Rightarrow> failure option" where
  "validate_edit path p =
     (case p of (i, old, new) \<Rightarrow>
        if old = [] then Some \<lparr>f_index = i, f_code = Invalid, f_message = empty_old_text path i\<rparr>
        else if old = new then Some \<lparr>f_index = i, f_code = Invalid, f_message = no_op path i\<rparr>
        else None)"

datatype resolution = Skipped | Failed failure | Planned edit_plan

text \<open>The text that matched and where it occurs, in the content or in the view; \<open>None\<close> inside the
  outer \<open>option\<close> when the view does not hold it.\<close>

definition match_edit ::
  "(string \<Rightarrow> string) \<Rightarrow> string \<Rightarrow> normalized_view option \<Rightarrow> string \<Rightarrow> (string \<times> (nat \<times> nat) list) option option" where
  "match_edit nfkc content v old =
     (case v of
        None \<Rightarrow> do { ms \<leftarrow> find_all_spans content old; Some (Some (old, ms)) }
      | Some view \<Rightarrow>
          (let m = fuzzy_find_text nfkc (text_of view) old in
           if \<not> found m then Some None
           else do {
             n \<leftarrow> get_slice (text_of view) (index m) (index m + match_length m);
             ms \<leftarrow> find_all_spans (text_of view) n;
             Some (Some (n, ms))
           }))"

definition match_lines :: "string \<Rightarrow> normalized_view option \<Rightarrow> (nat \<times> nat) list \<Rightarrow> nat list option" where
  "match_lines content v ms =
     map_opt (\<lambda>m. case v of
         None \<Rightarrow> Some (line_of content (fst m))
       | Some view \<Rightarrow> do { p \<leftarrow> get_nth (positions view) (fst m); Some (line p + 1) }) ms"

definition edit_spans ::
  "string \<Rightarrow> normalized_view option \<Rightarrow> (nat \<times> nat) list \<Rightarrow> string \<Rightarrow> replacement list option" where
  "edit_spans content v ms new =
     (case v of
        Some view \<Rightarrow> original_replacements view (length content) ms new
      | None \<Rightarrow> Some (map (\<lambda>m. \<lparr>rep_start = fst m, rep_end = snd m, rep_text = new\<rparr>) ms))"

definition keeps_text :: "string \<Rightarrow> replacement \<Rightarrow> bool option" where
  "keeps_text content r = do {
     t \<leftarrow> get_slice content (rep_start r) (rep_end r);
     Some (t = rep_text r)
   }"

fun all_opt :: "('a \<Rightarrow> bool option) \<Rightarrow> 'a list \<Rightarrow> bool option" where
  "all_opt f [] = Some True"
| "all_opt f (x # xs) = do { b \<leftarrow> f x; if b then all_opt f xs else Some False }"

definition plan_edit ::
  "string \<Rightarrow> string \<Rightarrow> nat \<Rightarrow> bool \<Rightarrow> string \<Rightarrow> bool \<Rightarrow> normalized_view option \<Rightarrow> string \<Rightarrow> (nat \<times> nat) list \<Rightarrow>
   resolution option" where
  "plan_edit content path i every new normalized v n ms =
     (if \<not> every \<and> 1 < length ms then do {
        ls \<leftarrow> match_lines content v ms;
        Some (Failed \<lparr>f_index = i, f_code = Invalid, f_message = duplicate path i (length ms) ls\<rparr>)
      } else do {
        rs \<leftarrow> edit_spans content v ms new;
        same \<leftarrow> all_opt (keeps_text content) rs;
        Some (if same then Failed \<lparr>f_index = i, f_code = Invalid, f_message = no_op path i\<rparr>
          else Planned \<lparr>plan_index = i, needle = n, spans = rs, plan_new_text = new,
                        match_count = length ms, normalized_match = normalized\<rparr>)
      })"

definition resolve_edit ::
  "(string \<Rightarrow> string) \<Rightarrow> (string \<Rightarrow> string \<Rightarrow> change list) \<Rightarrow> string \<Rightarrow> string \<Rightarrow> normalized_view option \<Rightarrow>
   nat \<Rightarrow> bool \<Rightarrow> string \<Rightarrow> string \<Rightarrow> bool option \<Rightarrow> resolution option" where
  "resolve_edit nfkc changes content path view i every old new probe =
     (case probe of
        None \<Rightarrow> Some Skipped
      | Some normalized \<Rightarrow>
          (let v = (if normalized then view else None) in do {
            m \<leftarrow> match_edit nfkc content v old;
            (case m of
               Some (n, ms) \<Rightarrow>
                 if ms \<noteq> [] then plan_edit content path i every new normalized v n ms
                 else do {
                   t \<leftarrow> not_found nfkc changes path i old content;
                   Some (Failed \<lparr>f_index = i, f_code = NotFound, f_message = t\<rparr>)
                 }
             | None \<Rightarrow> do {
                 t \<leftarrow> not_found nfkc changes path i old content;
                 Some (Failed \<lparr>f_index = i, f_code = NotFound, f_message = t\<rparr>)
               })
          }))"

section \<open>The whole call\<close>

definition normalized_edits :: "edit_request list \<Rightarrow> (string \<times> string) list" where
  "normalized_edits edits = map (\<lambda>e. (normalize_to_lf (old_text e), normalize_to_lf (new_text e))) edits"

definition validation_failures :: "string \<Rightarrow> (string \<times> string) list \<Rightarrow> failure list" where
  "validation_failures path normalized =
     List.map_filter (validate_edit path) (zip [0..<length normalized] normalized)"

definition probe_edits ::
  "(string \<Rightarrow> string) \<Rightarrow> string \<Rightarrow> failure list \<Rightarrow> (string \<times> string) list \<Rightarrow> bool option list" where
  "probe_edits nfkc content failures normalized =
     map (\<lambda>(i, old, new).
         if list_ex (\<lambda>f. f_index f = i) failures then None
         else Some (used_fuzzy_match (fuzzy_find_text nfkc content old)))
       (zip [0..<length normalized] normalized)"

definition resolve_edits ::
  "(string \<Rightarrow> string) \<Rightarrow> (string \<Rightarrow> string \<Rightarrow> change list) \<Rightarrow> string \<Rightarrow> string \<Rightarrow> edit_request list \<Rightarrow>
   (string \<times> string) list \<Rightarrow> bool option list \<Rightarrow> resolution list option" where
  "resolve_edits nfkc changes content path edits normalized probes =
     (let view = (if Some True \<in> set probes then Some (normalized_view_new nfkc content) else None) in
      map_opt (\<lambda>i. resolve_edit nfkc changes content path view i (replace_all (edits ! i))
          (fst (normalized ! i)) (snd (normalized ! i)) (probes ! i))
        [0..<length normalized])"

definition planned :: "resolution list \<Rightarrow> edit_plan list" where
  "planned rs = List.map_filter (\<lambda>r. case r of Planned p \<Rightarrow> Some p | _ \<Rightarrow> None) rs"

definition failed :: "resolution list \<Rightarrow> failure list" where
  "failed rs = List.map_filter (\<lambda>r. case r of Failed f \<Rightarrow> Some f | _ \<Rightarrow> None) rs"

definition plan_notes :: "string \<Rightarrow> edit_plan list \<Rightarrow> string list" where
  "plan_notes content plans =
     map (\<lambda>p. case span_line_range content (spans p) of (s, e) \<Rightarrow>
         ''note: '' @ edit_at (plan_index p) @ '' matched after normalizing trailing whitespace/quotes ('' @
         lines_phrase s e @ '')'')
       (filter normalized_match plans)"

definition apply_plans :: "string \<Rightarrow> string \<Rightarrow> edit_plan list \<Rightarrow> (apply_failure + applied_edits) option" where
  "apply_plans content path plans = do {
     spliced \<leftarrow> splice content (sort_key rep_start (concat (map spans plans)));
     (case spliced of
        Inl e \<Rightarrow> Some (Inl e)
      | Inr new \<Rightarrow>
          if content = new
          then Some (Inl (apply_failure_new [\<lparr>f_index = 0, f_code = Invalid, f_message = no_op path 0\<rparr>]))
          else do {
            ws \<leftarrow> brace_warnings content plans;
            Some (Inr \<lparr>base_content = content, new_content = new,
              replacements = sum_list (map match_count plans), applied_notes = plan_notes content plans,
              warnings = ws\<rparr>)
          })
   }"

definition apply_edits ::
  "(string \<Rightarrow> string) \<Rightarrow> (string \<Rightarrow> string \<Rightarrow> change list) \<Rightarrow> string \<Rightarrow> edit_request list \<Rightarrow> string \<Rightarrow>
   (apply_failure + applied_edits) option" where
  "apply_edits nfkc changes content edits path =
     (let normalized = normalized_edits edits;
          invalid = validation_failures path normalized;
          probes = probe_edits nfkc content invalid normalized in do {
        rs \<leftarrow> resolve_edits nfkc changes content path edits normalized probes;
        clash \<leftarrow> overlap_failure content (planned rs) path;
        let failures = invalid @ failed rs @ (case clash of None \<Rightarrow> [] | Some f \<Rightarrow> [f]);
        if failures \<noteq> [] then Some (Inl (apply_failure_new failures))
        else apply_plans content path (planned rs)
      })"

end
