(* ===== verification/Edit_View_Facts.thy ===== *)
theory Edit_View_Facts
  imports Edit_View
begin

text \<open>
  What the normalized view is: its lines are the normal forms of the file's lines, its tables give the
  character and the line of every byte, and a match is mapped to a region of the file that is not
  empty, lies between characters, and is disjoint from the regions of the matches it was not merged
  with.
\<close>

section \<open>Where lines start\<close>

definition starts_of :: "string \<Rightarrow> nat list" where
  "starts_of s = 0 # newline_ends 0 s"

definition line_end :: "string \<Rightarrow> nat \<Rightarrow> nat" where
  "line_end s k = starts_of s ! k + length (lines_of s ! k)"

lemma newline_ends_shift: "newline_ends (j + k) s = map ((+) j) (newline_ends k s)"
proof (induction s arbitrary: k)
  case (Cons c cs)
  from Cons [of "Suc k"] show ?case by simp
qed simp

lemma newline_ends_none: "NL \<notin> set s \<Longrightarrow> newline_ends k s = []"
  by (induction s arbitrary: k) auto

lemma newline_ends_append: "newline_ends k (s @ t) = newline_ends k s @ newline_ends (k + length s) t"
  by (induction s arbitrary: k) auto

lemma starts_of_none: "NL \<notin> set s \<Longrightarrow> starts_of s = [0]"
  by (simp add: starts_of_def newline_ends_none)

lemma starts_of_line:
  "NL \<notin> set l \<Longrightarrow> starts_of (l @ NL # t) = 0 # map ((+) (Suc (length l))) (starts_of t)"
  using newline_ends_shift [of "Suc (length l)" 0 t]
  by (simp add: starts_of_def newline_ends_append newline_ends_none)

lemma starts_of_0 [simp]: "starts_of s ! 0 = 0"
  by (simp add: starts_of_def)

lemma length_starts_of [simp]: "length (starts_of s) = Suc (count_char NL s)"
proof -
  have "length (newline_ends k s) = count_char NL s" for k by (induction s arbitrary: k) auto
  then show ?thesis by (simp add: starts_of_def)
qed

text \<open>A text is its first line alone, or its first line, a newline and the rest.\<close>

lemma line_induct [case_names last line]:
  assumes "\<And>s. NL \<notin> set s \<Longrightarrow> P s" and "\<And>l t. NL \<notin> set l \<Longrightarrow> P t \<Longrightarrow> P (l @ NL # t)"
  shows "P s"
proof (induction "count_char NL s" arbitrary: s)
  case 0
  then show ?case by (simp add: assms(1) count_char_0_iff)
next
  case (Suc n)
  then have "NL \<in> set s" by (metis Zero_neq_Suc count_char_0_iff)
  then obtain a b where s: "s = a @ NL # b" "NL \<notin> set a" by (meson split_list_first)
  with Suc(2) have "n = count_char NL b" by (simp add: count_char_0_iff)
  with Suc(1) s assms(2) show ?case by blast
qed

lemma line_of_position:
  "b \<le> length s \<Longrightarrow>
   starts_of s ! count_char NL (take b s) \<le> b \<and> b \<le> line_end s (count_char NL (take b s))"
proof (induction s arbitrary: b rule: line_induct)
  case (last s)
  then have "NL \<notin> set (take b s)" by (auto dest: in_set_takeD)
  with last show ?case
    by (simp add: count_char_0_iff [THEN iffD2] starts_of_none line_end_def split_char_none)
next
  case (line l t)
  show ?case
  proof (cases "b \<le> length l")
    case True
    then have "NL \<notin> set (take b (l @ NL # t))" using line(1) by (auto dest: in_set_takeD)
    with True line(1) show ?thesis
      by (simp add: count_char_0_iff [THEN iffD2] starts_of_line line_end_def
          split_char_append split_char_none)
  next
    case False
    define c where "c = b - Suc (length l)"
    have b: "b = Suc (length l) + c" using False by (simp add: c_def)
    have c: "c \<le> length t" using line(3) by (simp add: b)
    have cnt: "count_char NL (take b (l @ NL # t)) = Suc (count_char NL (take c t))"
      using line(1) by (simp add: b count_char_0_iff [THEN iffD2])
    have "count_char NL (take c t) < length (starts_of t)"
      by (metis append_take_drop_id count_char_simps(3) le_add1 length_starts_of less_Suc_eq_le)
    with line(2) [OF c] show ?thesis
      unfolding cnt by (simp add: b starts_of_line line(1) line_end_def split_char_append split_char_none)
  qed
qed

lemma starts_of_cut:
  "k < length (starts_of s) \<Longrightarrow>
   starts_of s ! k \<le> length s \<and> line_end s k \<le> length s \<and>
   (utf8 s \<longrightarrow> is_char_boundary (starts_of s ! k) s \<and> is_char_boundary (line_end s k) s)"
proof (induction s arbitrary: k rule: line_induct)
  case (last s)
  then have "k = 0" by (simp add: starts_of_none)
  with last show ?case by (simp add: starts_of_none line_end_def split_char_none)
next
  case (line l t)
  show ?case
  proof (cases k)
    case 0
    with line show ?thesis
      by (auto simp: starts_of_line line_end_def split_char_append split_char_none
          is_char_boundary_def nth_append is_cont_def)
  next
    case (Suc j)
    with line have j: "j < length (starts_of t)" by (simp add: starts_of_line)
    have eq: "starts_of (l @ NL # t) ! k = Suc (length l) + starts_of t ! j"
      "line_end (l @ NL # t) k = Suc (length l) + line_end t j"
      using Suc j line(1)
      by (simp_all add: starts_of_line line_end_def split_char_append split_char_none)
    have lift: "is_char_boundary (Suc (length l) + i) (l @ NL # t)" if "is_char_boundary i t" "i = 0 \<longrightarrow> utf8 t" for i
    proof (cases "i = 0 \<and> t \<noteq> []")
      case True
      with that utf8_hd [of t] show ?thesis
        by (auto simp: is_char_boundary_def nth_append hd_conv_nth)
    next
      case False
      with that show ?thesis by (auto simp: is_char_boundary_def nth_append)
    qed
    from line(2) [OF j] show ?thesis
      unfolding eq using lift utf8_cut_ascii(2) [of l NL t] by auto
  qed
qed

lemma starts_of_mono:
  "j < k \<Longrightarrow> k < length (starts_of s) \<Longrightarrow> line_end s j < starts_of s ! k"
proof (induction s arbitrary: j k rule: line_induct)
  case (last s)
  then show ?case by (simp add: starts_of_none)
next
  case (line l t)
  obtain k' where k: "k = Suc k'" using line(3) by (cases k) auto
  with line have k': "k' < length (starts_of t)" by (simp add: starts_of_line)
  show ?case
  proof (cases j)
    case 0
    with k k' line show ?thesis by (simp add: starts_of_line line_end_def split_char_append split_char_none)
  next
    case (Suc j')
    with line k k' have "line_end t j' < starts_of t ! k'" by simp
    moreover have "j' < length (starts_of t)" using Suc k k' line(3) by simp
    ultimately show ?thesis using Suc k k' line(1)
      by (simp add: starts_of_line line_end_def split_char_append split_char_none)
  qed
qed

text \<open>The two ways the code finds the end of a line: the next start less one, or the end of the text.\<close>

lemma line_end_next:
  "k < length (starts_of s) \<Longrightarrow>
   (case get_nth (starts_of s) (k + 1) of None \<Rightarrow> length s | Some n \<Rightarrow> n - 1) = line_end s k"
proof (induction s arbitrary: k rule: line_induct)
  case (last s)
  then show ?case by (simp add: starts_of_none line_end_def split_char_none get_nth_def)
next
  case (line l t)
  show ?case
  proof (cases k)
    case 0
    with line(1) show ?thesis
      by (simp add: starts_of_line line_end_def split_char_append split_char_none get_nth_def)
  next
    case (Suc j)
    with line have j: "j < length (starts_of t)" by (simp add: starts_of_line)
    have pos: "Suc j < length (starts_of t) \<Longrightarrow> 0 < starts_of t ! Suc j"
      using starts_of_mono [of j "Suc j" t] by simp
    from line(2) [OF j] Suc j line(1) pos show ?thesis
      by (auto simp: starts_of_line line_end_def split_char_append split_char_none get_nth_def
          split: if_splits)
  qed
qed

section \<open>The normal form\<close>

definition normal_line :: "(string \<Rightarrow> string) \<Rightarrow> string \<Rightarrow> string" where
  "normal_line nfkc l = concat (map fold_char (chars (trim_end (nfkc l))))"

lemma fold_char_count: "count_char NL (fold_char g) = count_char NL g"
  by (auto simp: fold_char_def quote_char_def space_chars_def)

lemma utf8_quote_char: "utf8 g \<Longrightarrow> utf8 (quote_char g)"
  by (auto simp: quote_char_def char_width_def)

lemma utf8_fold_char: "utf8 g \<Longrightarrow> utf8 (fold_char g)"
  by (auto simp: fold_char_def utf8_quote_char char_width_def)

lemma utf8_fold_chars: "utf8 s \<Longrightarrow> utf8 (concat (map fold_char (chars s)))"
  by (intro utf8_concat) (use utf8_chars [of s] in \<open>auto simp: list_all_iff utf8_fold_char\<close>)

lemma fold_chars_no_newline:
  "NL \<notin> set s \<Longrightarrow> NL \<notin> set (concat (map fold_char (chars s)))"
proof -
  have count: "count_char NL (concat (map fold_char gs)) = count_char NL (concat gs)" for gs
    by (induction gs) (simp_all add: fold_char_count)
  assume "NL \<notin> set s"
  then have "count_char NL s = 0" by (simp add: count_char_0_iff)
  with count [of "chars s"] show ?thesis by (simp add: count_char_0_iff del: set_concat)
qed

lemma fold_chars_newline:
  "utf8 t \<Longrightarrow> concat (map fold_char (chars (s @ NL # t))) =
     concat (map fold_char (chars s)) @ NL # concat (map fold_char (chars t))"
proof -
  assume t: "utf8 t"
  then have "utf8 (NL # t)" by (simp add: char_width_def)
  then have "chars (s @ NL # t) = chars s @ chars ([NL] @ t)" by (simp add: chars_append)
  also have "chars ([NL] @ t) = [[NL]] @ chars t" unfolding chars_append [OF t] by simp
  finally show ?thesis by (simp add: fold_char_def space_chars_def quote_char_def)
qed

lemma fold_chars_lines:
  "ls \<noteq> [] \<Longrightarrow> list_all utf8 ls \<Longrightarrow> list_all (\<lambda>l. NL \<notin> set l) ls \<Longrightarrow>
   lines_of (concat (map fold_char (chars (join_lines ls)))) = map (\<lambda>l. concat (map fold_char (chars l))) ls"
proof (induction ls)
  case (Cons l ls)
  show ?case
  proof (cases "ls = []")
    case True
    with Cons.prems show ?thesis by (simp add: split_char_none fold_chars_no_newline del: set_concat)
  next
    case False
    then have "utf8 (join_lines ls)" using Cons.prems by (auto intro: utf8_join utf8_NL)
    moreover have "NL \<notin> set (concat (map fold_char (chars l)))"
      using Cons.prems by (intro fold_chars_no_newline) simp
    ultimately show ?thesis using False Cons
      by (simp add: join_Cons fold_chars_newline split_char_append split_char_none del: set_concat)
  qed
qed simp

lemma trimmed_lines:
  assumes "nfkc_ok nfkc" "utf8 content"
  shows "list_all (\<lambda>l. utf8 l \<and> NL \<notin> set l) (map trim_end (lines_of (nfkc content)))"
  using utf8_lines [OF nfkc_okD(1) [OF assms]] ascii_boundary_free [OF split_char_free]
  by (fastforce simp: list_all_iff intro: utf8_trim_end)

lemma utf8_normal: "nfkc_ok nfkc \<Longrightarrow> utf8 content \<Longrightarrow> utf8 (normalize_for_fuzzy_match nfkc content)"
  using trimmed_lines [of nfkc content] unfolding normalize_for_fuzzy_match_def Let_def
  by (intro utf8_fold_chars utf8_join utf8_NL) (auto simp: list_all_iff)

text \<open>The lines of the normal form are the normal forms of the lines.\<close>

lemma lines_normal:
  assumes "nfkc_ok nfkc" "utf8 content"
  shows "lines_of (normalize_for_fuzzy_match nfkc content) = map (normal_line nfkc) (lines_of content)"
  using trimmed_lines [OF assms] unfolding normalize_for_fuzzy_match_def Let_def
  by (subst fold_chars_lines) (auto simp: list_all_iff nfkc_lines [OF assms(1)] normal_line_def)

lemma normal_line_Nil: "nfkc_ok nfkc \<Longrightarrow> normal_line nfkc [] = []"
  by (simp add: normal_line_def nfkc_okD(4) trim_end_def)

section \<open>The table of positions\<close>

lemma position_list_length: "length (position_list i l gs) = Suc (length (concat gs))"
  by (induction i l gs rule: position_list.induct) auto

lemma utf8_newline_group: "utf8 (c # cs) \<Longrightarrow> c # take (char_width c - 1) cs = [NL] \<longleftrightarrow> c = NL"
  by (auto simp: char_width_def)

lemma count_conts: "list_all is_cont xs \<Longrightarrow> count_char NL xs = 0"
  by (induction xs) (auto simp: is_cont_def)

lemma position_list_nth:
  "utf8 s \<Longrightarrow> is_char_boundary b s \<Longrightarrow> b \<le> length s \<Longrightarrow>
   position_list i l (chars s) ! b =
     \<lparr>source_index = i + char_count (take b s), line = l + count_char NL (take b s)\<rparr>"
proof (induction s arbitrary: b i l rule: utf8.induct)
  case 1
  then show ?case by simp
next
  case (2 c cs)
  define w where "w = char_width c - 1"
  from 2(2) have w: "w \<le> length cs" "list_all is_cont (take w cs)" "utf8 (drop w cs)"
    by (auto simp: w_def)
  have chars: "chars (c # cs) = (c # take w cs) # chars (drop w cs)"
    unfolding w_def by (rule utf8_chars_Cons(3) [OF 2(2)])
  have len: "length (c # take w cs) = Suc w" using w by simp
  have nl: "c # take w cs = [NL] \<longleftrightarrow> c = NL"
    unfolding w_def by (rule utf8_newline_group [OF 2(2)])
  show ?case
  proof (cases b)
    case 0
    then show ?thesis by (simp add: chars nth_append)
  next
    case (Suc j)
    have j: "w \<le> j"
    proof (rule ccontr)
      assume "\<not> w \<le> j"
      with w have "is_cont (cs ! j)" by (simp add: list_all_length)
      with \<open>\<not> w \<le> j\<close> w 2(3,4) Suc show False by (auto simp: is_char_boundary_def)
    qed
    have bound: "is_char_boundary (j - w) (drop w cs)"
      using 2(3,4) Suc j w by (auto simp: is_char_boundary_def)
    have inner: "j - w \<le> length (drop w cs)" using 2(4) Suc by simp
    have IH: "position_list (Suc i) (if c # take w cs = [NL] then Suc l else l) (chars (drop w cs)) ! (j - w) =
        \<lparr>source_index = Suc i + char_count (take (j - w) (drop w cs)),
         line = (if c # take w cs = [NL] then Suc l else l) + count_char NL (take (j - w) (drop w cs))\<rparr>"
      by (rule 2(1) [folded w_def, OF w(3) bound inner])
    have taken: "take b (c # cs) = (c # take w cs) @ take (j - w) (drop w cs)"
      using Suc j by (metis add_diff_inverse_nat append_Cons not_less take_Suc_Cons take_add)
    have "utf8 (take (j - w) (drop w cs))" by (rule utf8_take [OF w(3) bound inner])
    moreover have "char_count (c # take w cs) = 1"
      using w(2) by (simp add: char_count_def takeWhile_eq_all_conv dropWhile_eq_Nil_conv list_all_iff)
    ultimately have count: "char_count (take b (c # cs)) = Suc (char_count (take (j - w) (drop w cs)))"
      unfolding taken by (simp only: char_count_append)
    have nls: "count_char NL (take b (c # cs)) =
        (if c = NL then 1 else 0) + count_char NL (take (j - w) (drop w cs))"
      unfolding taken using count_conts [OF w(2)] by simp
    have step: "position_list i l (chars (c # cs)) ! b =
        position_list (Suc i) (if c # take w cs = [NL] then Suc l else l) (chars (drop w cs)) ! (j - w)"
      using Suc j w(1) unfolding chars by (simp add: nth_append min_def)
    show ?thesis unfolding step [unfolded nl] IH [unfolded nl] count nls by simp
  qed
qed

section \<open>Where the characters of the view came from\<close>

definition follows :: "source_char \<Rightarrow> source_char \<Rightarrow> bool" where
  "follows x y \<longleftrightarrow> snd x = snd y \<or> snd (snd x) \<le> fst (snd y)"

definition source_ok :: "string \<Rightarrow> source_char \<Rightarrow> bool" where
  "source_ok content x \<longleftrightarrow> (case x of (n, a, b) \<Rightarrow>
     a < b \<and> b \<le> length content \<and> is_char_boundary a content \<and> is_char_boundary b content \<and>
     chars n = [n] \<and> utf8 n)"

text \<open>What holds of the characters found so far while the one at \<open>k..e\<close> is looked at.\<close>

definition view_inv :: "string \<Rightarrow> nat \<Rightarrow> nat \<Rightarrow> source_char list \<times> source_char list \<Rightarrow> bool" where
  "view_inv content k e st \<longleftrightarrow> sorted_wrt follows (fst st @ snd st) \<and>
     (\<forall>x\<in>set (fst st @ snd st). source_ok content x \<and> (snd x = (k, e) \<or> snd (snd x) \<le> k))"

lemma chars_single: "g \<in> set (chars s) \<Longrightarrow> chars g = [g]"
proof -
  assume "g \<in> set (chars s)"
  moreover have "list_all char_group (chars s)" using groups_chars [of s] by (cases "chars s") auto
  ultimately have "char_groups [g]" by (auto simp: list_all_iff)
  from chars_concat [OF this] show ?thesis by simp
qed

lemma chars_quote_char: "chars g = [g] \<Longrightarrow> chars (quote_char g) = [quote_char g]"
  by (auto simp: quote_char_def)

lemma push_norm_inv:
  assumes inv: "view_inv content k e st" and ok: "source_ok content (quote_char g, k, e)"
  shows "view_inv content k e (push_norm k e g st)"
proof -
  obtain cs p where st: "st = (cs, p)" by (cases st)
  have "follows x (quote_char g, k, e)" if "x \<in> set (cs @ p)" for x
    using inv that by (auto simp: view_inv_def st follows_def)
  then have all: "sorted_wrt follows (cs @ p @ [(quote_char g, k, e)])"
    using inv by (auto simp: view_inv_def st sorted_wrt_append)
  then have "sorted_wrt follows (cs @ [(quote_char g, k, e)])" by (auto simp: sorted_wrt_append)
  with all inv ok show ?thesis
    by (auto simp: view_inv_def st push_norm_def Let_def)
qed

lemma push_norms_inv:
  "list_all (\<lambda>g. source_ok content (quote_char g, k, e)) gs \<Longrightarrow> view_inv content k e st \<Longrightarrow>
   view_inv content k e (fold (push_norm k e) gs st)"
  by (induction gs arbitrary: st) (auto simp: push_norm_inv)

lemma view_inv_mono:
  assumes "view_inv content k e st"
    and "\<And>x. source_ok content x \<Longrightarrow> snd x = (k, e) \<or> snd (snd x) \<le> k \<Longrightarrow>
      snd x = (k', e') \<or> snd (snd x) \<le> k'"
  shows "view_inv content k' e' st"
  using assms unfolding view_inv_def by blast

lemma view_inv_next: "view_inv content k e st \<Longrightarrow> k < e \<Longrightarrow> view_inv content e e' st"
  by (erule view_inv_mono) auto

lemma view_inv_enter: "view_inv content k k st \<Longrightarrow> view_inv content k e st"
  by (erule view_inv_mono) (auto simp: source_ok_def)

lemma view_fold_inv:
  assumes "utf8 content" and nfkc: "nfkc_ok nfkc"
  shows "chars content = done @ gs \<Longrightarrow> k = length (concat done) \<Longrightarrow> view_inv content k k st \<Longrightarrow>
    \<exists>e. view_inv content e e
      (fold (\<lambda>(start, c). fold (push_norm start (start + length c)) (chars (nfkc c))) (char_indices k gs) st)"
proof (induction gs arbitrary: "done" k st)
  case (Cons g gs)
  have valid: "list_all utf8 (done @ g # gs)" using utf8_chars [OF assms(1)] Cons.prems(1) by simp
  have content: "content = concat done @ g @ concat gs"
    using concat_chars [of content] Cons.prems(1) by simp
  have utf8: "utf8 (concat done)" "utf8 (g @ concat gs)" "utf8 (concat gs)"
    using valid by (auto intro!: utf8_concat utf8_append)
  have bounds: "is_char_boundary k content" "is_char_boundary (k + length g) content"
    using utf8 by (auto simp: content Cons.prems(2) intro!: boundary_of_utf8)
  have "g \<in> set (chars content)" using Cons.prems(1) by simp
  then have "g \<noteq> []" using chars_single by fastforce
  then have pos: "k < k + length g" "k + length g \<le> length content"
    by (auto simp: content Cons.prems(2))
  have "list_all utf8 (chars (nfkc g))"
    using valid by (intro utf8_chars nfkc_okD(1) [OF nfkc]) simp
  then have "list_all (\<lambda>h. source_ok content (quote_char h, k, k + length g)) (chars (nfkc g))"
    using bounds pos
    by (auto simp: list_all_iff source_ok_def dest: chars_single intro: chars_quote_char utf8_quote_char)
  moreover have "view_inv content k (k + length g) st"
    using Cons.prems(3) by (rule view_inv_enter)
  ultimately have "view_inv content k (k + length g) (fold (push_norm k (k + length g)) (chars (nfkc g)) st)"
    by (rule push_norms_inv)
  then have step: "view_inv content (k + length g) (k + length g)
      (fold (push_norm k (k + length g)) (chars (nfkc g)) st)"
    by (rule view_inv_next) (use pos in simp)
  from Cons.IH [of "done @ [g]" "k + length g", OF _ _ step] Cons.prems(1,2) show ?case by simp
qed (auto intro: exI)

lemma view_chars_ok:
  assumes "utf8 content" and "nfkc_ok nfkc"
  shows "sorted_wrt follows (view_chars nfkc content) \<and> list_all (source_ok content) (view_chars nfkc content)"
proof -
  have "view_inv content 0 0 ([], [])" by (simp add: view_inv_def)
  from view_fold_inv [OF assms, of "[]" "chars content" 0, OF _ _ this]
  show ?thesis by (auto simp: view_chars_def view_inv_def list_all_iff sorted_wrt_append)
qed

text \<open>The sources of a view: one per character of its text, in order.\<close>

definition sources_ok :: "string \<Rightarrow> string \<Rightarrow> (nat \<times> nat) list \<Rightarrow> bool" where
  "sources_ok content text ss \<longleftrightarrow> length ss = char_count text \<and>
     sorted_wrt (\<lambda>x y. x = y \<or> snd x \<le> fst y) ss \<and>
     list_all (\<lambda>(a, b). a < b \<and> b \<le> length content \<and> is_char_boundary a content \<and> is_char_boundary b content) ss"

lemma char_count_sources: "list_all (\<lambda>g. chars g = [g]) gs \<Longrightarrow> list_all utf8 gs \<Longrightarrow> char_count (concat gs) = length gs"
proof -
  assume single: "list_all (\<lambda>g. chars g = [g]) gs" and "list_all utf8 gs"
  then have "chars (concat gs) = concat (map chars gs)" by (simp add: chars_utf8_concat)
  also have "\<dots> = gs" using single by (induction gs) auto
  finally show ?thesis by (simp add: char_count_def)
qed

lemma sources_ok_view:
  assumes "utf8 content" "nfkc_ok nfkc" and "sources (normalized_view_new nfkc content) = Some ss"
  shows "sources_ok content (normalize_for_fuzzy_match nfkc content) ss"
proof -
  let ?cs = "view_chars nfkc content"
  have ss: "ss = map snd ?cs" and tx: "concat (map fst ?cs) = normalize_for_fuzzy_match nfkc content"
    using assms(3) by (auto simp: normalized_view_new_def Let_def split: if_splits)
  have ok: "sorted_wrt follows ?cs" "list_all (source_ok content) ?cs"
    using view_chars_ok [OF assms(1,2)] by auto
  have "char_count (concat (map fst ?cs)) = length (map fst ?cs)"
    by (rule char_count_sources) (use ok(2) in \<open>auto simp: list_all_iff source_ok_def\<close>)
  then have "length ss = char_count (normalize_for_fuzzy_match nfkc content)" by (simp add: ss tx)
  moreover have "sorted_wrt (\<lambda>x y. x = y \<or> snd x \<le> fst y) ss"
    using ok(1) unfolding follows_def [abs_def] by (simp add: ss sorted_wrt_map)
  moreover have "list_all (\<lambda>(a, b). a < b \<and> b \<le> length content \<and> is_char_boundary a content \<and>
      is_char_boundary b content) ss"
    using ok(2) by (auto simp: ss list_all_iff source_ok_def)
  ultimately show ?thesis by (simp add: sources_ok_def)
qed

section \<open>The region of one match\<close>

definition span_ok :: "string \<Rightarrow> string \<Rightarrow> nat \<Rightarrow> nat \<Rightarrow> mapped_span \<Rightarrow> bool" where
  "span_ok content text start stop m \<longleftrightarrow>
     ms_start m < ms_end m \<and> ms_end m \<le> length content \<and>
     is_char_boundary (ms_start m) content \<and> is_char_boundary (ms_end m) content \<and>
     normalized_start m \<le> start \<and> stop \<le> normalized_end m \<and> normalized_end m \<le> length text \<and>
     is_char_boundary (normalized_start m) text \<and> is_char_boundary (normalized_end m) text"

definition match_ok :: "string \<Rightarrow> nat \<times> nat \<Rightarrow> bool" where
  "match_ok text m \<longleftrightarrow> fst m < snd m \<and> snd m \<le> length text \<and>
     is_char_boundary (fst m) text \<and> is_char_boundary (snd m) text"

lemma view_simps:
  "text_of (normalized_view_new nfkc content) = normalize_for_fuzzy_match nfkc content"
  "line_starts (normalized_view_new nfkc content) = starts_of (normalize_for_fuzzy_match nfkc content)"
  "original_line_starts (normalized_view_new nfkc content) = starts_of content"
  by (simp_all add: normalized_view_new_def Let_def starts_of_def)

lemma position_at:
  assumes "utf8 text" "is_char_boundary b text" "b \<le> length text"
    and "text = normalize_for_fuzzy_match nfkc content"
  shows "get_nth (positions (normalized_view_new nfkc content)) b =
    Some \<lparr>source_index = char_count (take b text), line = count_char NL (take b text)\<rparr>"
  using position_list_nth [OF assms(1-3), of 0 0] assms(3,4)
  by (simp add: normalized_view_new_def Let_def get_nth_def position_list_length)

lemma char_count_take_less:
  assumes "utf8 t" "is_char_boundary a t" "is_char_boundary b t" "a < b" "b \<le> length t"
  shows "char_count (take a t) < char_count (take b t)"
proof -
  have "take b t = take a t @ take (b - a) (drop a t)"
    using assms(4) by (metis add_diff_inverse_nat not_less_iff_gr_or_eq take_add)
  moreover have "utf8 (take (b - a) (drop a t))"
    using utf8_slice [OF assms(1), of a b] assms by (simp add: get_slice_def)
  moreover have "take (b - a) (drop a t) \<noteq> []" using assms by simp
  ultimately show ?thesis using char_count_append by (metis char_count_eq_0_iff less_add_same_cancel1 neq0_conv)
qed

lemma char_count_take_le: "utf8 t \<Longrightarrow> is_char_boundary b t \<Longrightarrow> b \<le> length t \<Longrightarrow> char_count (take b t) \<le> char_count t"
  using char_count_take_less [of t b "length t"] by (cases "b = length t") auto

lemma clean_span_ok:
  assumes ss: "sources_ok content text ss" and tx: "text = normalize_for_fuzzy_match nfkc content"
    and utf8: "utf8 text" and m: "match_ok text (start, stop)"
  shows "\<exists>r. clean_span (normalized_view_new nfkc content) ss start stop = Some r \<and>
    (case r of None \<Rightarrow> True | Some m \<Rightarrow> span_ok content text start stop m)"
proof -
  let ?v = "normalized_view_new nfkc content"
  define p where "p = char_count (take start text)"
  define q where "q = char_count (take stop text)"
  have bounds: "is_char_boundary start text" "is_char_boundary stop text" "start < stop" "stop \<le> length text"
    using m by (auto simp: match_ok_def)
  have pq: "p < q" unfolding p_def q_def by (rule char_count_take_less [OF utf8]) (use bounds in auto)
  have q: "q \<le> length ss"
    using char_count_take_le [OF utf8 bounds(2,4)] ss by (simp add: q_def sources_ok_def)
  have pos_at: "get_nth (positions ?v) start = Some \<lparr>source_index = p, line = count_char NL (take start text)\<rparr>"
    "get_nth (positions ?v) stop = Some \<lparr>source_index = q, line = count_char NL (take stop text)\<rparr>"
    unfolding p_def q_def using position_at [OF utf8 _ _ tx] bounds by auto
  have nth: "get_nth ss i = Some (ss ! i)" if "i < length ss" for i using that by (simp add: get_nth_def)
  have each: "fst (ss ! i) < snd (ss ! i) \<and> snd (ss ! i) \<le> length content \<and>
      is_char_boundary (fst (ss ! i)) content \<and> is_char_boundary (snd (ss ! i)) content" if "i < length ss" for i
    using ss that by (simp add: sources_ok_def list_all_length case_prod_beta)
  have order: "fst (ss ! p) < snd (ss ! (q - 1))"
  proof (cases "p = q - 1")
    case False
    then have "p < q - 1" "q - 1 < length ss" using pq q by auto
    then have "ss ! p = ss ! (q - 1) \<or> snd (ss ! p) \<le> fst (ss ! (q - 1))"
      using ss by (simp add: sources_ok_def sorted_wrt_iff_nth_less)
    with each [of p] each [of "q - 1"] pq q show ?thesis by fastforce
  qed (use each [of p] pq q in auto)
  define m where "m = \<lparr>ms_start = fst (ss ! p), ms_end = snd (ss ! (q - 1)),
      normalized_start = start, normalized_end = stop\<rparr>"
  have ok: "span_ok content text start stop m"
    using order each [of p] each [of "q - 1"] pq q bounds by (simp add: span_ok_def m_def)
  have "clean_span ?v ss start stop = Some None \<or> clean_span ?v ss start stop = Some (Some m)"
  proof -
    have "0 < q" "q - 1 + 1 = q" using pq by auto
    moreover have "get_nth ss p = Some (ss ! p)" "get_nth ss (q - 1) = Some (ss ! (q - 1))"
      "p \<noteq> 0 \<Longrightarrow> get_nth ss (p - 1) = Some (ss ! (p - 1))" "q \<noteq> length ss \<Longrightarrow> get_nth ss q = Some (ss ! q)"
      using pq q by (auto intro: nth)
    ultimately show ?thesis using pos_at unfolding clean_span_def m_def
      by (cases "p = 0"; cases "q = length ss") (auto simp: Let_def)
  qed
  with ok show ?thesis by auto
qed

lemma count_take_mono: "a \<le> b \<Longrightarrow> count_char d (take a s) \<le> count_char d (take b s)"
  by (metis count_char_simps(3) le_add1 le_add_diff_inverse take_add)

lemma line_span_ok:
  assumes content: "utf8 content" and nfkc: "nfkc_ok nfkc"
    and tx: "t = normalize_for_fuzzy_match nfkc content" and m: "match_ok t (start, stop)"
  shows "\<exists>r. line_span (normalized_view_new nfkc content) (length content) start stop = Some r \<and>
    span_ok content t start stop r"
proof -
  let ?v = "normalized_view_new nfkc content"
  have utf8: "utf8 t" unfolding tx by (rule utf8_normal [OF nfkc content])
  have bounds: "is_char_boundary start t" "is_char_boundary stop t" "start < stop" "stop \<le> length t"
    using m by (auto simp: match_ok_def)
  define p where "p = count_char NL (take start t)"
  define q where "q = count_char NL (take stop t)"
  have pq: "p \<le> q" unfolding p_def q_def by (rule count_take_mono) (use bounds in simp)
  have lines: "lines_of t = map (normal_line nfkc) (lines_of content)"
    unfolding tx by (rule lines_normal [OF nfkc content])
  then have "length (lines_of t) = length (lines_of content)" by simp
  then have len: "length (starts_of t) = length (starts_of content)" by (simp add: length_split_char)
  have "q \<le> count_char NL t" unfolding q_def using count_take_mono [of stop "length t" NL t] bounds by simp
  then have q: "q < length (starts_of t)" "p < length (starts_of t)" using pq by simp_all
  then have q': "q < length (starts_of content)" "p < length (starts_of content)" by (simp_all only: len)
  have in_line: "starts_of t ! p \<le> start" "stop \<le> line_end t q"
    using line_of_position [of start t] line_of_position [of stop t] bounds by (auto simp: p_def q_def)
  have nonempty: "starts_of content ! p < line_end content q"
  proof (cases "p < q")
    case True
    then have "line_end content p < starts_of content ! q" using starts_of_mono q' by blast
    then show ?thesis by (simp add: line_end_def)
  next
    case False
    with pq have eq: "q = p" by simp
    have "starts_of t ! p < line_end t p" using in_line bounds unfolding eq by simp
    then have "lines_of t ! p \<noteq> []" by (auto simp: line_end_def)
    moreover have "p < length (lines_of content)" using q'(2) by (simp add: length_split_char)
    ultimately have "lines_of content ! p \<noteq> []" using lines normal_line_Nil [OF nfkc] by auto
    then show ?thesis unfolding eq by (simp add: line_end_def)
  qed
  define r where "r = \<lparr>ms_start = starts_of content ! p, ms_end = line_end content q,
      normalized_start = starts_of t ! p, normalized_end = line_end t q\<rparr>"
  have "line_span ?v (length content) start stop = Some r"
    using position_at [OF utf8 bounds(1) _ tx] position_at [OF utf8 bounds(2) _ tx] bounds q q'
      line_end_next [OF q(1)] line_end_next [OF q'(1)]
    unfolding line_span_def r_def view_simps tx [symmetric]
    by (simp add: get_nth_Some p_def [symmetric] q_def [symmetric] del: length_starts_of)
  moreover have "span_ok content t start stop r"
    using starts_of_cut [OF q'(1)] starts_of_cut [OF q'(2)] starts_of_cut [OF q(1)] starts_of_cut [OF q(2)]
      nonempty in_line content utf8
    by (simp add: span_ok_def r_def)
  ultimately show ?thesis by blast
qed

lemma original_span_ok:
  assumes content: "utf8 content" and nfkc: "nfkc_ok nfkc"
    and tx: "t = normalize_for_fuzzy_match nfkc content" and m: "match_ok t (start, stop)"
  shows "\<exists>r. original_span (normalized_view_new nfkc content) (length content) start stop = Some r \<and>
    span_ok content t start stop r"
proof -
  let ?v = "normalized_view_new nfkc content"
  have line: "\<exists>r. line_span ?v (length content) start stop = Some r \<and> span_ok content t start stop r"
    by (rule line_span_ok) fact+
  show ?thesis
  proof (cases "sources ?v")
    case None
    with line show ?thesis by (simp add: original_span_def)
  next
    case (Some ss)
    have utf8: "utf8 t" unfolding tx by (rule utf8_normal [OF nfkc content])
    have "sources_ok content t ss" unfolding tx by (rule sources_ok_view [OF content nfkc Some])
    from clean_span_ok [OF this tx utf8 m] obtain r where
      r: "clean_span ?v ss start stop = Some r" "case r of None \<Rightarrow> True | Some m \<Rightarrow> span_ok content t start stop m"
      by blast
    with Some line show ?thesis by (cases r) (simp_all add: original_span_def)
  qed
qed

section \<open>Merging\<close>

text \<open>The groups after some matches, the last one first: each covers its matches, and it ends before the
  next one starts.\<close>

definition group_ok :: "string \<Rightarrow> string \<Rightarrow> (nat \<times> nat) list \<Rightarrow> group \<Rightarrow> bool" where
  "group_ok content t ms g \<longleftrightarrow> (case g of (m, first, next) \<Rightarrow>
     first < next \<and> next \<le> length ms \<and>
     span_ok content t (fst (ms ! first)) (snd (ms ! (next - 1))) m)"

fun groups_ok :: "string \<Rightarrow> string \<Rightarrow> (nat \<times> nat) list \<Rightarrow> nat \<Rightarrow> group list \<Rightarrow> bool" where
  "groups_ok content t ms i [] = (i = 0)"
| "groups_ok content t ms i ((m, first, next) # gs) =
     (next = i \<and> group_ok content t ms (m, first, next) \<and> groups_ok content t ms first gs \<and>
      (gs = [] \<or> ms_end (fst (hd gs)) \<le> ms_start m))"

definition sorted_matches :: "string \<Rightarrow> (nat \<times> nat) list \<Rightarrow> bool" where
  "sorted_matches t ms \<longleftrightarrow> list_all (match_ok t) ms \<and> sorted_wrt (\<lambda>x y. snd x \<le> fst y) ms"

lemma merge_ok:
  assumes "span_ok content t a b m" "span_ok content t c d previous" "c \<le> a" "d \<le> b"
  shows "span_ok content t c b (merge_spans m previous)"
  using assms by (auto simp: span_ok_def merge_spans_def min_def max_def)

lemma absorb_ok:
  assumes ms: "sorted_matches t ms"
  shows "groups_ok content t ms first gs \<Longrightarrow> first < next \<Longrightarrow> next \<le> length ms \<Longrightarrow>
    span_ok content t (fst (ms ! first)) (snd (ms ! (next - 1))) m \<Longrightarrow>
    absorb m first gs = (m', first', gs') \<Longrightarrow> groups_ok content t ms next ((m', first', next) # gs')"
proof (induction m first gs rule: absorb.induct)
  case (1 span first)
  then show ?case by (simp add: group_ok_def)
next
  case (2 span first previous pfirst pnext groups)
  show ?case
  proof (cases "ms_end previous > ms_start span")
    case True
    from 2(2) have prev: "pnext = first" "pfirst < first" "first \<le> length ms"
      "span_ok content t (fst (ms ! pfirst)) (snd (ms ! (first - 1))) previous"
      "groups_ok content t ms pfirst groups"
      by (auto simp: group_ok_def)
    have order: "snd (ms ! i) \<le> fst (ms ! j)" if "i < j" "j < length ms" for i j
      using ms that by (auto simp: sorted_matches_def sorted_wrt_iff_nth_less)
    have proper: "fst (ms ! i) < snd (ms ! i)" if "i < length ms" for i
      using ms that by (auto simp: sorted_matches_def match_ok_def list_all_length)
    have "fst (ms ! pfirst) \<le> fst (ms ! first)"
      using order [of pfirst first] proper [of pfirst] prev 2(3,4) by force
    moreover have "snd (ms ! (first - 1)) \<le> snd (ms ! (next - 1))"
    proof -
      have less: "first - 1 < next - 1" "next - 1 < length ms" using prev 2(3,4) by auto
      from order [OF less] proper [OF less(2)] show ?thesis by simp
    qed
    ultimately have merged: "span_ok content t (fst (ms ! pfirst)) (snd (ms ! (next - 1))) (merge_spans span previous)"
      using merge_ok [OF 2(5) prev(4)] by simp
    show ?thesis
      by (rule 2(1) [OF True prev(5) _ 2(4) merged]) (use True prev 2 in auto)
  next
    case False
    with 2 show ?thesis by (auto simp: group_ok_def)
  qed
qed

lemma group_matches_ok:
  assumes content: "utf8 content" and nfkc: "nfkc_ok nfkc"
    and tx: "t = normalize_for_fuzzy_match nfkc content" and ms: "sorted_matches t ms"
  shows "groups_ok content t ms i gs \<Longrightarrow> rest = drop i ms \<Longrightarrow> i \<le> length ms \<Longrightarrow>
    \<exists>gs'. group_matches (normalized_view_new nfkc content) (length content) i rest gs = Some gs' \<and>
      groups_ok content t ms (length ms) gs'"
proof (induction rest arbitrary: i gs)
  case Nil
  then have "i = length ms" by simp
  with Nil show ?case by simp
next
  case (Cons m rest)
  then have i: "i < length ms" by (metis drop_all list.distinct(1) not_le)
  have first: "m = ms ! i" "rest = drop (Suc i) ms" using Cons.prems(2) i by (simp_all add: Cons_nth_drop_Suc [symmetric])
  obtain a b where ab: "ms ! i = (a, b)" by (cases "ms ! i")
  have "match_ok t (a, b)" using ms i ab by (metis list_all_length sorted_matches_def)
  from original_span_ok [OF content nfkc tx this] obtain r where
    r: "original_span (normalized_view_new nfkc content) (length content) a b = Some r" "span_ok content t a b r"
    by blast
  obtain r' f' gs' where ab': "absorb r i gs = (r', f', gs')" by (cases "absorb r i gs")
  have "groups_ok content t ms (Suc i) ((r', f', Suc i) # gs')"
    by (rule absorb_ok [OF ms Cons.prems(1) _ _ _ ab']) (use r ab i in auto)
  from Cons.IH [OF this first(2)] i show ?case
    using r ab' by (simp add: first ab)
qed

section \<open>Replacements that are in order\<close>

definition rep_ok :: "string \<Rightarrow> replacement \<Rightarrow> bool" where
  "rep_ok content r \<longleftrightarrow> rep_start r < rep_end r \<and> rep_end r \<le> length content \<and>
     is_char_boundary (rep_start r) content \<and> is_char_boundary (rep_end r) content"

text \<open>In ascending order, none reaching into the next.\<close>

fun reps_from :: "nat \<Rightarrow> replacement list \<Rightarrow> bool" where
  "reps_from k [] = True"
| "reps_from k (r # rs) = (k \<le> rep_start r \<and> rep_start r < rep_end r \<and> reps_from (rep_end r) rs)"

definition reps_ok :: "string \<Rightarrow> replacement list \<Rightarrow> bool" where
  "reps_ok content rs \<longleftrightarrow> reps_from 0 rs \<and> list_all (rep_ok content) rs"

lemma reps_from_snoc:
  "reps_from k (rs @ [r]) \<longleftrightarrow>
     reps_from k rs \<and> (if rs = [] then k else rep_end (last rs)) \<le> rep_start r \<and> rep_start r < rep_end r"
  by (induction k rs rule: reps_from.induct) auto

lemma reps_from_weaken: "reps_from k rs \<Longrightarrow> j \<le> k \<Longrightarrow> reps_from j rs"
  by (cases rs) auto

lemma map_opt_snoc: "map_opt f (xs @ [x]) = do { ys \<leftarrow> map_opt f xs; y \<leftarrow> f x; Some (ys @ [y]) }"
  by (induction xs) (auto simp: Option.bind_eq_Some_conv split: Option.bind_split)

lemma map_opt_Some_iff: "map_opt f xs = Some ys \<longleftrightarrow> list_all2 (\<lambda>x y. f x = Some y) xs ys"
  by (induction xs arbitrary: ys) (auto simp: Option.bind_eq_Some_conv list_all2_Cons1)

lemma map_opt_total: "(\<And>x. x \<in> set xs \<Longrightarrow> f x \<noteq> None) \<Longrightarrow> map_opt f xs \<noteq> None"
proof (induction xs)
  case (Cons x xs)
  then have "f x \<noteq> None" "map_opt f xs \<noteq> None" by auto
  then show ?case by auto
qed simp

lemma rebuild_total:
  "is_char_boundary stop t \<Longrightarrow> stop \<le> length t \<Longrightarrow> list_all (match_ok t) ms \<Longrightarrow> sorted_wrt (\<lambda>x y. snd x \<le> fst y) ms \<Longrightarrow> is_char_boundary c t \<Longrightarrow>
    c \<le> (if ms = [] then stop else fst (hd ms)) \<Longrightarrow> (ms \<noteq> [] \<Longrightarrow> snd (last ms) \<le> stop) \<Longrightarrow>
    rebuild t new c ms stop \<noteq> None"
proof (induction t new c ms stop rule: rebuild.induct)
  case (1 s new c stop)
  then show ?case by (simp add: get_slice_def)
next
  case (2 s new c a b ms stop)
  have "get_slice s c a \<noteq> None"
    using "2.prems" by (simp add: get_slice_def match_ok_def)
  then obtain gap where gap: "get_slice s c a = Some gap" by auto
  moreover have "rebuild s new b ms stop \<noteq> None"
  proof (rule "2.IH" [OF gap])
    show "b \<le> (if ms = [] then stop else fst (hd ms))"
      using "2.prems" by (cases ms) auto
  qed (use "2.prems" in \<open>auto simp: match_ok_def split: if_splits\<close>)
  ultimately show ?case by auto
qed

lemma build_replacement_ok:
  assumes ms: "sorted_matches t ms" and g: "group_ok content t ms (m, first, next)" and tx: "text_of v = t"
  shows "\<exists>r. build_replacement v ms new (m, first, next) = Some r \<and>
    rep_start r = ms_start m \<and> rep_end r = ms_end m \<and> rep_ok content r"
proof -
  from g have bounds: "first < next" "next \<le> length ms"
    and span: "span_ok content t (fst (ms ! first)) (snd (ms ! (next - 1))) m"
    by (auto simp: group_ok_def)
  let ?ms = "take (next - first) (drop first ms)"
  have ne: "?ms \<noteq> []" using bounds by simp
  have ends: "hd ?ms = ms ! first" "last ?ms = ms ! (next - 1)"
    using bounds by (simp_all add: hd_drop_conv_nth last_conv_nth ne)
  have sub: "list_all (match_ok t) ?ms" "sorted_wrt (\<lambda>x y. snd x \<le> fst y) ?ms"
    using ms by (auto simp: sorted_matches_def list_all_iff sorted_wrt_take sorted_wrt_drop
        dest!: in_set_takeD in_set_dropD)
  have "rebuild t new (normalized_start m) ?ms (normalized_end m) \<noteq> None"
    by (rule rebuild_total) (use span sub ne ends in \<open>auto simp: span_ok_def\<close>)
  then obtain x where "rebuild t new (normalized_start m) ?ms (normalized_end m) = Some x" by auto
  with bounds span show ?thesis
    by (simp add: build_replacement_def get_range_def tx span_ok_def rep_ok_def)
qed

lemma build_groups_ok:
  assumes ms: "sorted_matches t ms" and tx: "text_of v = t"
  shows "groups_ok content t ms i gs \<Longrightarrow>
    \<exists>rs. map_opt (build_replacement v ms new) (rev gs) = Some rs \<and> reps_ok content rs \<and>
      (rs = [] \<longleftrightarrow> gs = []) \<and> (gs \<noteq> [] \<longrightarrow> rep_end (last rs) = ms_end (fst (hd gs)))"
proof (induction gs arbitrary: i)
  case Nil
  then show ?case by (simp add: reps_ok_def)
next
  case (Cons g gs)
  obtain m first "next" where g: "g = (m, first, next)" by (cases g)
  with Cons.prems have ok: "group_ok content t ms (m, first, next)" and rest: "groups_ok content t ms first gs"
    and order: "gs = [] \<or> ms_end (fst (hd gs)) \<le> ms_start m" by auto
  from Cons.IH [OF rest] obtain rs where
    rs: "map_opt (build_replacement v ms new) (rev gs) = Some rs" "reps_ok content rs"
      "rs = [] \<longleftrightarrow> gs = []" "gs \<noteq> [] \<longrightarrow> rep_end (last rs) = ms_end (fst (hd gs))" by blast
  from build_replacement_ok [OF ms ok tx] obtain r where
    r: "build_replacement v ms new (m, first, next) = Some r" "rep_start r = ms_start m"
      "rep_end r = ms_end m" "rep_ok content r" by blast
  have "reps_ok content (rs @ [r])"
    using rs r order by (auto simp: reps_ok_def reps_from_snoc rep_ok_def)
  then show ?case using rs r by (simp add: g map_opt_snoc)
qed

text \<open>Matches of the normal form become replacements of the file that are in order, and no step of the
  mapping is out of range.\<close>

lemma original_replacements_ok:
  assumes content: "utf8 content" and nfkc: "nfkc_ok nfkc"
    and ms: "sorted_matches (normalize_for_fuzzy_match nfkc content) ms" "ms \<noteq> []"
  shows "\<exists>rs. original_replacements (normalized_view_new nfkc content) (length content) ms new = Some rs \<and>
    reps_ok content rs \<and> rs \<noteq> []"
proof -
  let ?v = "normalized_view_new nfkc content" and ?t = "normalize_for_fuzzy_match nfkc content"
  have "groups_ok content ?t ms 0 []" by simp
  from group_matches_ok [OF content nfkc refl ms(1) this] obtain gs where
    gs: "group_matches ?v (length content) 0 ms [] = Some gs" "groups_ok content ?t ms (length ms) gs"
    by auto
  from build_groups_ok [OF ms(1) view_simps(1) gs(2)] obtain rs where
    rs: "map_opt (build_replacement ?v ms new) (rev gs) = Some rs" "reps_ok content rs" "rs = [] \<longleftrightarrow> gs = []"
    by blast
  have "gs \<noteq> []" using gs(2) ms(2) by auto
  with gs rs show ?thesis by (simp add: original_replacements_def)
qed

section \<open>Normalizing twice\<close>

text \<open>Text in the normal form, cut at line ends and with its quotes and spaces replaced by ASCII
  characters, is still normalized.\<close>

definition nfkc_stable :: "(string \<Rightarrow> string) \<Rightarrow> bool" where
  "nfkc_stable nfkc \<longleftrightarrow> (\<forall>s. utf8 s \<longrightarrow>
     nfkc (normalize_for_fuzzy_match nfkc s) = normalize_for_fuzzy_match nfkc s)"

lemma chars_fold_char: "chars g = [g] \<Longrightarrow> chars (fold_char g) = [fold_char g]"
  by (auto simp: fold_char_def chars_quote_char)

lemma chars_fold_chars: "utf8 u \<Longrightarrow> chars (concat (map fold_char (chars u))) = map fold_char (chars u)"
proof -
  assume u: "utf8 u"
  have "list_all utf8 (map fold_char (chars u))"
    using utf8_chars [OF u] by (auto simp: list_all_iff intro: utf8_fold_char)
  then have "chars (concat (map fold_char (chars u))) = concat (map chars (map fold_char (chars u)))"
    by (rule chars_utf8_concat)
  also have "map chars (map fold_char (chars u)) = map (\<lambda>g. [fold_char g]) (chars u)"
    using chars_fold_char [OF chars_single] by simp
  also have "concat (map (\<lambda>g. [fold_char g]) (chars u)) = map fold_char (chars u)"
    by (induction "chars u") simp_all
  finally show ?thesis .
qed

lemma fold_char_idem: "fold_char (fold_char g) = fold_char g"
  by (auto simp: fold_char_def quote_char_def space_chars_def)

lemma fold_char_not_ws: "\<not> is_ws g \<Longrightarrow> \<not> is_ws (fold_char g)"
  by (auto simp: fold_char_def quote_char_def space_chars_def is_ws_def ws_chars_def)

lemma trim_end_fixed: "chars s = [] \<or> \<not> is_ws (last (chars s)) \<Longrightarrow> trim_end s = s"
proof -
  assume "chars s = [] \<or> \<not> is_ws (last (chars s))"
  then have "dropWhile is_ws (rev (chars s)) = rev (chars s)"
    by (cases "chars s" rule: rev_cases) auto
  then show ?thesis by (simp add: trim_end_def)
qed

lemma normal_line_trimmed: "utf8 (nfkc l) \<Longrightarrow> trim_end (normal_line nfkc l) = normal_line nfkc l"
proof (rule trim_end_fixed)
  assume "utf8 (nfkc l)"
  then have chars: "chars (normal_line nfkc l) = map fold_char (chars (trim_end (nfkc l)))"
    unfolding normal_line_def by (intro chars_fold_chars utf8_trim_end)
  let ?cs = "rev (dropWhile is_ws (rev (chars (nfkc l))))"
  have "chars (trim_end (nfkc l)) = ?cs"
    unfolding trim_end_def by (intro chars_concat groups_trimmed groups_chars)
  moreover have "?cs = [] \<or> \<not> is_ws (last ?cs)"
  proof (cases "dropWhile is_ws (rev (chars (nfkc l))) = []")
    case False
    with hd_dropWhile [OF False] show ?thesis by (simp only: last_rev) blast
  qed simp
  ultimately show "chars (normal_line nfkc l) = [] \<or> \<not> is_ws (last (chars (normal_line nfkc l)))"
    unfolding chars by (metis fold_char_not_ws last_map list.map_disc_iff)
qed

lemma normalize_idem_text:
  assumes s: "utf8 s" and ok: "nfkc_ok nfkc" and stable: "nfkc_stable nfkc"
  shows "normalize_for_fuzzy_match nfkc (normalize_for_fuzzy_match nfkc s) = normalize_for_fuzzy_match nfkc s"
proof -
  let ?t = "normalize_for_fuzzy_match nfkc s"
  have fixed: "nfkc ?t = ?t" using stable s by (simp add: nfkc_stable_def)
  have "utf8 (nfkc l)" if "l \<in> set (lines_of s)" for l
    using utf8_lines [OF s] that nfkc_okD(1) [OF ok] by (simp add: list_all_iff)
  then have "map trim_end (lines_of ?t) = lines_of ?t"
    by (simp add: lines_normal [OF ok s] normal_line_trimmed)
  then have "join_lines (map trim_end (lines_of (nfkc ?t))) = ?t" by (simp add: fixed)
  then have "normalize_for_fuzzy_match nfkc ?t = concat (map fold_char (chars ?t))"
    by (simp only: normalize_for_fuzzy_match_def [of nfkc ?t] Let_def)
  also have "chars ?t = map fold_char (chars (join_lines (map trim_end (lines_of (nfkc s)))))"
  proof -
    have "utf8 (join_lines (map trim_end (lines_of (nfkc s))))"
      using trimmed_lines [OF ok s] by (intro utf8_join utf8_NL) (auto simp: list_all_iff)
    then show ?thesis unfolding normalize_for_fuzzy_match_def Let_def by (rule chars_fold_chars)
  qed
  also have "concat (map fold_char \<dots>) = ?t"
    by (simp add: fold_char_idem comp_def normalize_for_fuzzy_match_def Let_def)
  finally show ?thesis .
qed

end
