(* ===== verification/Edit_Correct.thy ===== *)
theory Edit_Correct
  imports Edit_Apply Edit_View_Facts
begin

text \<open>
  The edit engine is correct: the spans of a text are its occurrences from the left, plans that do not
  overlap can be spliced, a call that succeeds has replaced exactly the spans of its plans, and nothing
  in it panics but the report of a text that was not found.
\<close>

section \<open>All occurrences of a text\<close>

definition span_list :: "string \<Rightarrow> string \<Rightarrow> nat \<Rightarrow> (nat \<times> nat) list \<Rightarrow> bool" where
  "span_list s n k ms \<longleftrightarrow>
     list_all (\<lambda>m. k \<le> fst m \<and> occurs_at n s (fst m) \<and> snd m = fst m + length n) ms \<and>
     sorted_wrt (\<lambda>x y. snd x \<le> fst y) ms \<and>
     (\<forall>i. k \<le> i \<longrightarrow> occurs_at n s i \<longrightarrow> (\<exists>m\<in>set ms. fst m \<le> i \<and> i < snd m))"

lemma span_list_hit:
  "span_list s n k ms \<Longrightarrow> k \<le> i \<Longrightarrow> occurs_at n s i \<Longrightarrow>
   \<exists>m\<in>set ms. fst m \<le> i \<and> i < snd m \<and> snd m = fst m + length n"
  unfolding span_list_def list_all_iff by blast

lemma spans_from_ok:
  assumes s: "utf8 s" and n: "utf8 n" "n \<noteq> []"
  shows "is_char_boundary k s \<Longrightarrow> k \<le> length s \<Longrightarrow> \<exists>ms. spans_from s n k = Some ms \<and> span_list s n k ms"
proof (induction "length s - k" arbitrary: k rule: less_induct)
  case less
  have rest: "get_from s k = Some (drop k s)" by (rule get_from_boundary) fact+
  show ?case
  proof (cases "find_str n (drop k s)")
    case None
    have "\<not> occurs_at n s i" if "k \<le> i" for i
      using find_str_None [OF None, of "i - k"] occurs_at_drop [OF less(3), of n "i - k"] that by simp
    then have "span_list s n k []" by (simp add: span_list_def)
    with None rest n(2) less(3) show ?thesis by (simp add: spans_from.simps)
  next
    case (Some i)
    let ?j = "k + i + length n"
    have occ: "occurs_at n s (k + i)" and first: "\<forall>j<i. \<not> occurs_at n s (k + j)"
      using find_str_Some [OF Some] occurs_at_drop [OF less(3)] by auto
    have bound: "is_char_boundary ?j s" by (rule occurs_utf8 [OF s n occ])
    have len: "?j \<le> length s" "0 < length n" using occ n by (auto simp: occurs_at_def)
    have "length s - ?j < length s - k" using len by linarith
    from less(1) [OF this bound len(1)] obtain ms where
      ms: "spans_from s n ?j = Some ms" "span_list s n ?j ms" by blast
    have "span_list s n k ((k + i, ?j) # ms)"
      unfolding span_list_def
    proof (intro conjI allI impI)
      show "list_all (\<lambda>m. k \<le> fst m \<and> occurs_at n s (fst m) \<and> snd m = fst m + length n) ((k + i, ?j) # ms)"
        using ms(2) occ by (auto simp: span_list_def list_all_iff)
      show "sorted_wrt (\<lambda>x y. snd x \<le> fst y) ((k + i, ?j) # ms)"
        using ms(2) by (auto simp: span_list_def list_all_iff)
      fix x assume x: "k \<le> x" "occurs_at n s x"
      have "k + i \<le> x"
      proof (rule ccontr)
        assume "\<not> k + i \<le> x"
        then have "x - k < i" "k + (x - k) = x" using x(1) by auto
        with first x(2) show False by metis
      qed
      then show "\<exists>m\<in>set ((k + i, ?j) # ms). fst m \<le> x \<and> x < snd m"
        using ms(2) x(2) by (cases "?j \<le> x") (auto simp: span_list_def)
    qed
    with Some rest n(2) less(3) ms(1) show ?thesis by (simp add: spans_from.simps)
  qed
qed

lemma find_all_spans_ok:
  "utf8 s \<Longrightarrow> utf8 n \<Longrightarrow> n \<noteq> [] \<Longrightarrow> \<exists>ms. find_all_spans s n = Some ms \<and> span_list s n 0 ms"
  using spans_from_ok [of s n 0] by (simp add: find_all_spans_def)

lemma span_list_sorted:
  "utf8 s \<Longrightarrow> utf8 n \<Longrightarrow> n \<noteq> [] \<Longrightarrow> span_list s n k ms \<Longrightarrow> sorted_matches s ms"
  by (auto simp: span_list_def sorted_matches_def match_ok_def list_all_iff occurs_at_def
      intro: occurs_utf8 occurs_utf8 [unfolded occurs_at_def])

section \<open>Splicing\<close>

text \<open>The content with its replacements put in, from position \<open>k\<close> on.\<close>

fun weave :: "string \<Rightarrow> nat \<Rightarrow> replacement list \<Rightarrow> string" where
  "weave s k [] = drop k s"
| "weave s k (r # rs) = take (rep_start r - k) (drop k s) @ rep_text r @ weave s (rep_end r) rs"

lemma splice_weave:
  "reps_from k rs \<Longrightarrow> list_all (rep_ok base) rs \<Longrightarrow> is_char_boundary k base \<Longrightarrow> k \<le> length base \<Longrightarrow>
   splice_from base k rs = Some (Inr (weave base k rs))"
proof (induction rs arbitrary: k)
  case Nil
  then show ?case by (simp add: get_from_boundary)
next
  case (Cons r rs)
  then have r: "k \<le> rep_start r" "rep_ok base r" by auto
  have "splice_from base (rep_end r) rs = Some (Inr (weave base (rep_end r) rs))"
    by (rule Cons.IH) (use Cons.prems r in \<open>auto simp: rep_ok_def\<close>)
  with r Cons.prems(3) show ?case by (auto simp: get_slice_def rep_ok_def)
qed

text \<open>Text outside the replacements is kept: between two of them, before the first and after the last.\<close>

lemma weave_split:
  "reps_from k rs \<Longrightarrow> list_all (rep_ok s) rs \<Longrightarrow> k \<le> length s \<Longrightarrow>
   \<exists>gaps. length gaps = Suc (length rs) \<and>
     drop k s = concat (map2 (\<lambda>g r. g @ take (rep_end r - rep_start r) (drop (rep_start r) s)) (butlast gaps) rs)
       @ last gaps \<and>
     weave s k rs = concat (map2 (\<lambda>g r. g @ rep_text r) (butlast gaps) rs) @ last gaps"
proof (induction rs arbitrary: k)
  case Nil
  show ?case by (rule exI [of _ "[drop k s]"]) simp
next
  case (Cons r rs)
  then have r: "k \<le> rep_start r" "rep_start r < rep_end r" "rep_end r \<le> length s" by (auto simp: rep_ok_def)
  from Cons.IH [of "rep_end r"] Cons.prems r obtain gaps where
    gaps: "length gaps = Suc (length rs)"
      "drop (rep_end r) s = concat (map2 (\<lambda>g r. g @ take (rep_end r - rep_start r) (drop (rep_start r) s))
         (butlast gaps) rs) @ last gaps"
      "weave s (rep_end r) rs = concat (map2 (\<lambda>g r. g @ rep_text r) (butlast gaps) rs) @ last gaps" by auto
  let ?g = "take (rep_start r - k) (drop k s)"
  have ne: "gaps \<noteq> []" using gaps(1) by auto
  have "drop k s = ?g @ take (rep_end r - rep_start r) (drop (rep_start r) s) @ drop (rep_end r) s"
  proof -
    have "drop k s = ?g @ drop (rep_start r) s"
      using r by (metis append_take_drop_id drop_drop le_add_diff_inverse2)
    also have "drop (rep_start r) s =
        take (rep_end r - rep_start r) (drop (rep_start r) s) @ drop (rep_end r) s"
      using r by (metis append_take_drop_id drop_drop le_add_diff_inverse2 less_imp_le_nat)
    finally show ?thesis .
  qed
  with gaps ne show ?case by (intro exI [of _ "?g # gaps"]) simp
qed

section \<open>Plans that do not overlap\<close>

definition plan_ok :: "string \<Rightarrow> edit_plan \<Rightarrow> bool" where
  "plan_ok content p \<longleftrightarrow> reps_ok content (spans p) \<and> spans p \<noteq> []"

definition all_spans :: "edit_plan list \<Rightarrow> located list" where
  "all_spans plans = concat (map (\<lambda>(k, p). map (\<lambda>r. (k, r)) (spans p)) (zip [0..<length plans] plans))"

lemma located_spans_eq: "located_spans plans = sort_key (\<lambda>p. rep_start (snd p)) (all_spans plans)"
  by (simp add: located_spans_def all_spans_def)

lemma set_located_spans:
  "(k, r) \<in> set (located_spans plans) \<longleftrightarrow> k < length plans \<and> r \<in> set (spans (plans ! k))"
proof
  assume "(k, r) \<in> set (located_spans plans)"
  then show "k < length plans \<and> r \<in> set (spans (plans ! k))"
    by (auto simp: located_spans_eq all_spans_def set_zip)
next
  assume "k < length plans \<and> r \<in> set (spans (plans ! k))"
  moreover from this have "(k, plans ! k) \<in> set (zip [0..<length plans] plans)"
    by (auto simp: set_zip intro: exI [of _ k])
  ultimately show "(k, r) \<in> set (located_spans plans)"
    by (force simp: located_spans_eq all_spans_def)
qed

lemma snd_all_spans: "map snd (all_spans plans) = concat (map spans plans)"
proof -
  have "map snd (all_spans plans) = concat (map (spans \<circ> snd) (zip [0..<length plans] plans))"
    by (simp add: all_spans_def map_concat comp_def case_prod_beta)
  also have "map (spans \<circ> snd) (zip [0..<length plans] plans) = map spans plans"
    by (metis length_upt list.map_comp map_snd_zip minus_nat.diff_0)
  finally show ?thesis .
qed

lemma map_insort_key: "map f (insort_key (\<lambda>x. g (f x)) x xs) = insort_key g (f x) (map f xs)"
  by (induction xs) auto

lemma map_sort_key: "map f (sort_key (\<lambda>x. g (f x)) xs) = sort_key g (map f xs)"
  by (induction xs) (simp_all add: map_insort_key)

lemma snd_located_spans: "map snd (located_spans plans) = sort_key rep_start (concat (map spans plans))"
  by (simp add: located_spans_eq map_sort_key [of snd rep_start] snd_all_spans)

lemma reps_from_disjoint:
  "reps_from k rs \<Longrightarrow> i < j \<Longrightarrow> j < length rs \<Longrightarrow> rep_end (rs ! i) \<le> rep_start (rs ! j)"
proof (induction k rs arbitrary: i j rule: reps_from.induct)
  case (2 k r rs)
  have later: "rep_end r \<le> rep_start (rs ! m)" if "reps_from (rep_end r) rs" "m < length rs" for m
    using that
  proof (induction "rep_end r" rs arbitrary: r m rule: reps_from.induct)
    case (2 r' rs)
    then show ?case by (cases m) (auto, fastforce)
  qed simp
  show ?case
  proof (cases i)
    case 0
    with 2 later show ?thesis by (cases j) auto
  next
    case (Suc i')
    with 2 show ?thesis by (cases j) auto
  qed
qed simp

lemma reps_from_distinct: "reps_from k rs \<Longrightarrow> distinct rs"
proof (induction k rs rule: reps_from.induct)
  case (2 k r rs)
  have "r \<notin> set rs"
  proof
    assume "r \<in> set rs"
    then obtain j where "j < length rs" "rs ! j = r" by (auto simp: in_set_conv_nth)
    with reps_from_disjoint [OF "2.prems", of 0 "Suc j"] "2.prems" show False by auto
  qed
  with 2 show ?case by simp
qed simp

lemma distinct_located:
  assumes "list_all (plan_ok content) plans"
  shows "distinct (located_spans plans)"
proof -
  have dist: "distinct (spans p)" if "p \<in> set plans" for p
    using assms that by (auto simp: list_all_iff plan_ok_def reps_ok_def intro: reps_from_distinct)
  have "distinct (concat (map (\<lambda>(k, p). map (\<lambda>r. (k, r)) (spans p)) (zip [j..<j + length ps] ps)))"
    if "\<And>p. p \<in> set ps \<Longrightarrow> distinct (spans p)" for j ps
    using that
  proof (induction ps arbitrary: j)
    case (Cons p ps)
    have "distinct (concat (map (\<lambda>(k, p). map (\<lambda>r. (k, r)) (spans p)) (zip [Suc j..<Suc j + length ps] ps)))"
      by (rule Cons.IH) (use Cons.prems in auto)
    moreover have "zip [j..<j + length (p # ps)] (p # ps) = (j, p) # zip [Suc j..<Suc j + length ps] ps"
      by (simp add: upt_conv_Cons del: upt_Suc)
    ultimately show ?case using Cons.prems
      by (auto simp: distinct_map inj_on_def dest: set_zip_leftD)
  qed simp
  from this [of plans 0] dist show ?thesis by (simp add: located_spans_eq all_spans_def)
qed

lemma plan_spans_ok:
  "list_all (plan_ok content) plans \<Longrightarrow> (k, r) \<in> set (located_spans plans) \<Longrightarrow>
   reps_from 0 (spans (plans ! k)) \<and> rep_ok content r"
  unfolding set_located_spans list_all_iff plan_ok_def reps_ok_def using nth_mem by blast

lemma same_plan_order:
  assumes ok: "list_all (plan_ok content) plans"
    and a: "(k, r) \<in> set (located_spans plans)" and b: "(k, s) \<in> set (located_spans plans)"
    and "r \<noteq> s" "rep_start r \<le> rep_start s"
  shows "rep_end r \<le> rep_start s"
proof -
  let ?rs = "spans (plans ! k)"
  obtain i j where ij: "i < length ?rs" "?rs ! i = r" "j < length ?rs" "?rs ! j = s"
    using a b unfolding set_located_spans by (metis in_set_conv_nth)
  have from0: "reps_from 0 ?rs" using plan_spans_ok [OF ok a] by simp
  consider "i < j" | "j < i" using ij \<open>r \<noteq> s\<close> by (metis linorder_neqE_nat)
  then show ?thesis
  proof cases
    case 1
    with reps_from_disjoint [OF from0 1] ij show ?thesis by simp
  next
    case 2
    have "rep_start s < rep_end s" using plan_spans_ok [OF ok b] by (simp add: rep_ok_def)
    with reps_from_disjoint [OF from0 2] ij assms(5) show ?thesis by simp
  qed
qed

lemma first_overlap_none:
  "list_all (plan_ok content) plans \<Longrightarrow> set ls \<subseteq> set (located_spans plans) \<Longrightarrow> distinct ls \<Longrightarrow> sorted (map (\<lambda>p. rep_start (snd p)) ls) \<Longrightarrow>
    first_overlap base plans path ls = Some None \<Longrightarrow> (ls \<noteq> [] \<Longrightarrow> k \<le> rep_start (snd (hd ls))) \<Longrightarrow>
    reps_from k (map snd ls)"
proof (induction base plans path ls arbitrary: k rule: first_overlap.induct)
  case (1 base plans path a b rest)
  obtain i r where a: "a = (i, r)" by (cases a)
  obtain j s where b: "b = (j, s)" by (cases b)
  have mem: "(i, r) \<in> set (located_spans plans)" "(j, s) \<in> set (located_spans plans)"
    using 1(3) by (simp_all add: a b)
  have "rep_start r \<le> rep_start s" using 1(5) by (simp add: a b)
  moreover have "i = j \<Longrightarrow> r \<noteq> s" using 1(4) by (auto simp: a b)
  ultimately have "i = j \<Longrightarrow> rep_end r \<le> rep_start s"
    using same_plan_order [OF 1(2)] mem by blast
  then have ord: "rep_end r \<le> rep_start s" using 1(6) by (auto simp: a b split: if_splits)
  have "reps_from (rep_end r) (map snd (b # rest))"
    by (rule 1(1) [OF _ 1(2)]) (use 1(3-6) ord in \<open>auto simp: a b\<close>)
  moreover have "rep_ok content r" using plan_spans_ok [OF 1(2) mem(1)] by simp
  ultimately show ?case using 1(7) by (simp add: a rep_ok_def)
next
  case 2
  then show ?case by simp
next
  case (3 base plans path a)
  then show ?case using plan_spans_ok [of content plans "fst a" "snd a"] by (cases a) (auto simp: rep_ok_def)
qed

lemma no_overlap_in_order:
  assumes ok: "list_all (plan_ok content) plans" and none: "overlap_failure base plans path = Some None"
  shows "reps_from 0 (sort_key rep_start (concat (map spans plans)))"
    and "list_all (rep_ok content) (sort_key rep_start (concat (map spans plans)))"
proof -
  have "reps_from 0 (map snd (located_spans plans))"
  proof (rule first_overlap_none [OF ok])
    show "distinct (located_spans plans)" by (rule distinct_located [OF ok])
    show "sorted (map (\<lambda>p. rep_start (snd p)) (located_spans plans))"
      by (simp add: located_spans_eq sorted_sort_key)
    show "first_overlap base plans path (located_spans plans) = Some None"
      using none by (simp add: overlap_failure_def)
  qed auto
  then show "reps_from 0 (sort_key rep_start (concat (map spans plans)))" by (simp add: snd_located_spans)
  show "list_all (rep_ok content) (sort_key rep_start (concat (map spans plans)))"
    using ok by (auto simp: list_all_iff plan_ok_def reps_ok_def)
qed

lemma overlap_failure_total:
  assumes ok: "list_all (plan_ok content) plans"
  shows "overlap_failure base plans path \<noteq> None"
proof -
  have "first_overlap base plans path ls \<noteq> None" if "set ls \<subseteq> set (located_spans plans)" for ls
    using ok that
  proof (induction base plans path ls rule: first_overlap.induct)
    case (1 base plans path a b rest)
    have "a \<in> set (located_spans plans)" "b \<in> set (located_spans plans)" using 1(3) by auto
    then have "rep_ok content (snd a)" "rep_ok content (snd b)"
      using plan_spans_ok [OF 1(2), of "fst a" "snd a"] plan_spans_ok [OF 1(2), of "fst b" "snd b"] by simp_all
    then have "0 < rep_end (snd a)" "0 < rep_end (snd b)" by (auto simp: rep_ok_def)
    with 1 show ?case by (auto simp: overlap_message_def Let_def)
  qed auto
  then show ?thesis by (simp add: overlap_failure_def)
qed

section \<open>One edit\<close>

text \<open>What is assumed of the third-party normalization.\<close>

definition nfkc_law :: "(string \<Rightarrow> string) \<Rightarrow> bool" where
  "nfkc_law nfkc \<longleftrightarrow> nfkc_ok nfkc \<and> nfkc_stable nfkc"

lemma nfkc_lawD: "nfkc_law nfkc \<Longrightarrow> nfkc_ok nfkc" "nfkc_law nfkc \<Longrightarrow> nfkc_stable nfkc"
  by (simp_all add: nfkc_law_def)

text \<open>The text in which an edit is matched.\<close>

definition searched :: "(string \<Rightarrow> string) \<Rightarrow> string \<Rightarrow> normalized_view option \<Rightarrow> string" where
  "searched nfkc content v = (case v of None \<Rightarrow> content | Some _ \<Rightarrow> normalize_for_fuzzy_match nfkc content)"

definition view_of :: "(string \<Rightarrow> string) \<Rightarrow> string \<Rightarrow> normalized_view option \<Rightarrow> bool" where
  "view_of nfkc content v \<longleftrightarrow> v = None \<or> v = Some (normalized_view_new nfkc content)"

lemma match_edit_ok:
  assumes law: "nfkc_law nfkc" and content: "utf8 content" and old: "utf8 old" "old \<noteq> []"
    and v: "view_of nfkc content v"
  shows "\<exists>m. match_edit nfkc content v old = Some m \<and>
    (case m of None \<Rightarrow> True | Some (n, ms) \<Rightarrow> sorted_matches (searched nfkc content v) ms)"
proof (cases v)
  case None
  from find_all_spans_ok [OF content old] obtain ms where
    "find_all_spans content old = Some ms" "span_list content old 0 ms" by blast
  with None span_list_sorted [OF content old] show ?thesis
    by (auto simp: match_edit_def searched_def)
next
  case (Some view)
  let ?t = "normalize_for_fuzzy_match nfkc content"
  let ?m = "fuzzy_find_text nfkc ?t old"
  have ok: "nfkc_ok nfkc" and stable: "nfkc_stable nfkc" using law by (auto dest: nfkc_lawD)
  have t: "utf8 ?t" by (rule utf8_normal [OF ok content])
  have view: "text_of view = ?t" using v Some by (simp add: view_of_def view_simps)
  show ?thesis
  proof (cases "found ?m")
    case False
    with Some view show ?thesis by (auto simp: match_edit_def)
  next
    case True
    let ?n = "if used_fuzzy_match ?m then normalize_for_fuzzy_match nfkc old else old"
    have n: "utf8 ?n" using old utf8_normal [OF ok] by auto
    have occ: "occurs_at ?n ?t (index ?m)" "match_length ?m = length ?n"
      using fuzzy_found_occurs [OF True refl] normalize_idem_text [OF content ok stable]
      by (auto split: if_splits)
    have slice: "get_slice ?t (index ?m) (index ?m + match_length ?m) = Some ?n"
    proof (cases "?n = []")
      case True
      have "\<not> contains ?t old \<Longrightarrow> index ?m = 0"
        using True old(2) normalize_idem_text [OF content ok stable]
        by (cases "find_str old ?t") (auto simp: fuzzy_find_text_def contains_def Let_def find_str_empty split: if_splits)
      moreover have "\<not> contains ?t old" using True old(2) not_used_fuzzy by (auto split: if_splits)
      ultimately show ?thesis using True occ by (simp add: get_slice_def)
    next
      case False
      with occurs_utf8 [OF t n False occ(1)] occ show ?thesis
        by (auto simp: get_slice_def occurs_at_def)
    qed
    show ?thesis
    proof (cases "?n = []")
      case True
      with slice Some view \<open>found ?m\<close> show ?thesis
        by (auto simp: match_edit_def Let_def find_all_spans_def sorted_matches_def)
    next
      case False
      from find_all_spans_ok [OF t n False] obtain ms where
        "find_all_spans ?t ?n = Some ms" "span_list ?t ?n 0 ms" by blast
      with span_list_sorted [OF t n False] slice Some view \<open>found ?m\<close> show ?thesis
        by (auto simp: match_edit_def Let_def searched_def)
    qed
  qed
qed

lemma match_lines_total:
  assumes law: "nfkc_law nfkc" and content: "utf8 content" and v: "view_of nfkc content v"
    and ms: "sorted_matches (searched nfkc content v) ms"
  shows "match_lines content v ms \<noteq> None"
  unfolding match_lines_def
proof (rule map_opt_total)
  fix m assume "m \<in> set ms"
  with ms have m: "match_ok (searched nfkc content v) m" by (auto simp: sorted_matches_def list_all_iff)
  show "(case v of None \<Rightarrow> Some (line_of content (fst m))
      | Some view \<Rightarrow> do { p \<leftarrow> get_nth (positions view) (fst m); Some (line p + 1) }) \<noteq> None"
  proof (cases v)
    case (Some view)
    with v m have "get_nth (positions view) (fst m) \<noteq> None"
      using position_at [OF utf8_normal [OF nfkc_lawD(1) [OF law] content] _ _ refl, of "fst m"]
      by (auto simp: view_of_def searched_def match_ok_def)
    with Some show ?thesis by auto
  qed simp
qed

lemma reps_of_matches:
  assumes "sorted_matches t ms"
  shows "reps_ok t (map (\<lambda>m. \<lparr>rep_start = fst m, rep_end = snd m, rep_text = new\<rparr>) ms)"
proof -
  have "reps_from k (map (\<lambda>m. \<lparr>rep_start = fst m, rep_end = snd m, rep_text = new\<rparr>) ms)"
    if "list_all (match_ok t) ms" "sorted_wrt (\<lambda>x y. snd x \<le> fst y) ms" "\<forall>m\<in>set ms. k \<le> fst m" for k ms
    using that by (induction ms arbitrary: k) (auto simp: match_ok_def)
  from this [of ms 0] assms show ?thesis
    by (auto simp: reps_ok_def sorted_matches_def list_all_iff match_ok_def rep_ok_def)
qed

lemma edit_spans_ok:
  assumes law: "nfkc_law nfkc" and content: "utf8 content" and v: "view_of nfkc content v"
    and ms: "sorted_matches (searched nfkc content v) ms" "ms \<noteq> []"
  shows "\<exists>rs. edit_spans content v ms new = Some rs \<and> reps_ok content rs \<and> rs \<noteq> []"
proof (cases v)
  case None
  with reps_of_matches ms show ?thesis by (auto simp: edit_spans_def searched_def)
next
  case (Some view)
  with v have "view = normalized_view_new nfkc content" by (simp add: view_of_def)
  with original_replacements_ok [OF content nfkc_lawD(1) [OF law]] ms Some show ?thesis
    by (auto simp: edit_spans_def searched_def)
qed

lemma all_opt_total: "(\<And>x. x \<in> set xs \<Longrightarrow> f x \<noteq> None) \<Longrightarrow> all_opt f xs \<noteq> None"
proof (induction xs)
  case (Cons x xs)
  then have "f x \<noteq> None" "all_opt f xs \<noteq> None" by auto
  then show ?case by auto
qed simp

lemma plan_edit_ok:
  assumes law: "nfkc_law nfkc" and content: "utf8 content" and v: "view_of nfkc content v"
    and ms: "sorted_matches (searched nfkc content v) ms" "ms \<noteq> []"
  shows "\<exists>r. plan_edit content path i every new normalized v n ms = Some r \<and>
    (\<forall>p. r = Planned p \<longrightarrow> plan_ok content p)"
proof (cases "\<not> every \<and> 1 < length ms")
  case True
  with match_lines_total [OF law content v ms(1)] show ?thesis by (auto simp: plan_edit_def)
next
  case False
  from edit_spans_ok [OF law content v ms] obtain rs where
    rs: "edit_spans content v ms new = Some rs" "reps_ok content rs" "rs \<noteq> []" by blast
  have "all_opt (keeps_text content) rs \<noteq> None"
  proof (rule all_opt_total)
    fix r assume "r \<in> set rs"
    with rs(2) have "rep_ok content r" by (auto simp: reps_ok_def list_all_iff)
    then show "keeps_text content r \<noteq> None" by (simp add: keeps_text_def get_slice_def rep_ok_def)
  qed
  with False rs show ?thesis by (auto simp: plan_edit_def plan_ok_def)
qed

lemma resolve_edit_ok:
  assumes law: "nfkc_law nfkc" and content: "utf8 content" and old: "utf8 old" "probe \<noteq> None \<Longrightarrow> old \<noteq> []"
    and v: "view_of nfkc content view"
    and nf: "find_candidates nfkc content old \<noteq> None"
  shows "\<exists>r. resolve_edit nfkc changes content path view i every old new probe = Some r \<and>
    (\<forall>p. r = Planned p \<longrightarrow> plan_ok content p)"
proof (cases probe)
  case (Some normalized)
  let ?v = "if normalized then view else None"
  have v': "view_of nfkc content ?v" using v by (simp add: view_of_def)
  have ne: "old \<noteq> []" using old(2) Some by simp
  obtain t where t: "not_found nfkc changes path i old content = Some t"
    using not_found_None_iff [OF content old(1)] nf by fastforce
  from match_edit_ok [OF law content old(1) ne v'] obtain m where
    m: "match_edit nfkc content ?v old = Some m"
      "case m of None \<Rightarrow> True | Some (n, ms) \<Rightarrow> sorted_matches (searched nfkc content ?v) ms" by blast
  show ?thesis
  proof (cases m)
    case None
    with m t Some show ?thesis by (simp add: resolve_edit_def Let_def)
  next
    case (Some nms)
    obtain n ms where nms: "nms = (n, ms)" by (cases nms)
    show ?thesis
    proof (cases "ms = []")
      case True
      with m t Some nms \<open>probe = Some normalized\<close> show ?thesis by (simp add: resolve_edit_def Let_def)
    next
      case False
      from m(2) have "sorted_matches (searched nfkc content ?v) ms" by (simp add: Some nms)
      from plan_edit_ok [OF law content v' this False] m Some nms False \<open>probe = Some normalized\<close>
      show ?thesis by (simp add: resolve_edit_def Let_def)
    qed
  qed
qed (simp add: resolve_edit_def)

section \<open>The whole call\<close>

lemma apply_plans_ok:
  assumes ok: "list_all (plan_ok content) plans" and none: "overlap_failure content plans path = Some None"
    and content: "utf8 content"
  shows "\<exists>r. apply_plans content path plans = Some r \<and>
    (\<forall>f. r = Inl f \<longrightarrow> f = apply_failure_new [\<lparr>f_index = 0, f_code = Invalid, f_message = no_op path 0\<rparr>]) \<and>
    (\<forall>a. r = Inr a \<longrightarrow> base_content a = content \<and> new_content a \<noteq> content \<and>
       new_content a = weave content 0 (sort_key rep_start (concat (map spans plans))))"
proof -
  let ?rs = "sort_key rep_start (concat (map spans plans))"
  have order: "reps_from 0 ?rs" "list_all (rep_ok content) ?rs" using no_overlap_in_order [OF ok none] by auto
  have spliced: "splice content ?rs = Some (Inr (weave content 0 ?rs))"
    unfolding splice_def by (rule splice_weave) (use order in auto)
  have "range_steps content ls s \<noteq> None"
    if "reps_from k (map snd ls)" "list_all (rep_ok content) (map snd ls)" "cursor s \<le> k"
      "is_char_boundary (cursor s) content" for ls s k
    using that
  proof (induction ls arbitrary: s k)
    case (Cons p ls)
    then have p: "rep_ok content (snd p)" "cursor s \<le> rep_start (snd p)" by auto
    then have "get_slice content (cursor s) (rep_start (snd p)) \<noteq> None"
      "get_slice content (rep_start (snd p)) (rep_end (snd p)) \<noteq> None"
      using Cons.prems(4) by (auto simp: get_slice_def rep_ok_def)
    then obtain s' where s': "range_step content p s = Some s'" "cursor s' = rep_start (snd p)"
      by (auto simp: range_step_def Let_def)
    have "range_steps content ls s' \<noteq> None"
      by (rule Cons.IH [of "rep_end (snd p)"]) (use Cons.prems p s' in \<open>auto simp: rep_ok_def\<close>)
    with s' show ?case by simp
  qed simp
  from this [of 0 "located_spans plans" "\<lparr>lc_ranges = [], line_delta = 0, cursor = 0, base_line = 1\<rparr>"] order
  obtain s where "range_steps content (located_spans plans)
      \<lparr>lc_ranges = [], line_delta = 0, cursor = 0, base_line = 1\<rparr> = Some s"
    by (auto simp: snd_located_spans)
  then have "new_line_ranges content plans \<noteq> None" by (simp add: new_line_ranges_def)
  then have "brace_warnings content plans \<noteq> None" by (auto simp: brace_warnings_def)
  with spliced show ?thesis by (auto simp: apply_plans_def)
qed

lemma normalized_edits_utf8:
  "list_all (\<lambda>e. utf8 (old_text e)) edits \<Longrightarrow> list_all (\<lambda>p. utf8 (fst p)) (normalized_edits edits)"
  by (auto simp: normalized_edits_def list_all_iff intro: utf8_normalize_to_lf)

lemma length_probe_edits [simp]: "length (probe_edits nfkc content fs normalized) = length normalized"
  by (simp add: probe_edits_def)

lemma probe_edits_nth:
  "i < length normalized \<Longrightarrow> probe_edits nfkc content fs normalized ! i =
     (if list_ex (\<lambda>f. f_index f = i) fs then None
      else Some (used_fuzzy_match (fuzzy_find_text nfkc content (fst (normalized ! i)))))"
  by (simp add: probe_edits_def case_prod_beta)

text \<open>An empty text fails validation, so it is not probed.\<close>

lemma validation_rejects:
  "i < length normalized \<Longrightarrow> validate_edit path (i, normalized ! i) \<noteq> None \<Longrightarrow>
   list_ex (\<lambda>f. f_index f = i) (validation_failures path normalized)"
proof -
  assume i: "i < length normalized" and invalid: "validate_edit path (i, normalized ! i) \<noteq> None"
  obtain f where f: "validate_edit path (i, normalized ! i) = Some f" using invalid by auto
  then have "f_index f = i" by (auto simp: validate_edit_def split: prod.splits if_splits)
  moreover have "(i, normalized ! i) \<in> set (zip [0..<length normalized] normalized)"
    using i by (auto simp: set_zip intro: exI [of _ i])
  then have "f \<in> set (validation_failures path normalized)"
    using f by (force simp: validation_failures_def set_map_filter)
  ultimately show ?thesis by (auto simp: list_ex_iff)
qed

lemma set_planned: "p \<in> set (planned rs) \<longleftrightarrow> Planned p \<in> set rs"
  by (induction rs) (auto simp: planned_def List.map_filter_simps split: resolution.splits)

lemma set_failed: "f \<in> set (failed rs) \<longleftrightarrow> Failed f \<in> set rs"
  by (induction rs) (auto simp: failed_def List.map_filter_simps split: resolution.splits)

lemma resolve_edits_ok:
  assumes law: "nfkc_law nfkc" and content: "utf8 content"
    and old: "list_all (\<lambda>p. utf8 (fst p)) normalized"
    and nf: "list_all (\<lambda>p. find_candidates nfkc content (fst p) \<noteq> None) normalized"
    and probes: "probes = probe_edits nfkc content (validation_failures path normalized) normalized"
  shows "\<exists>rs. resolve_edits nfkc changes content path edits normalized probes = Some rs \<and>
    list_all (plan_ok content) (planned rs)"
proof -
  let ?v = "if Some True \<in> set probes then Some (normalized_view_new nfkc content) else None"
  let ?f = "\<lambda>i. resolve_edit nfkc changes content path ?v i (replace_all (edits ! i))
      (fst (normalized ! i)) (snd (normalized ! i)) (probes ! i)"
  have v: "view_of nfkc content ?v" by (simp add: view_of_def)
  have one: "\<exists>r. ?f i = Some r \<and> (\<forall>p. r = Planned p \<longrightarrow> plan_ok content p)" if i: "i < length normalized" for i
  proof (rule resolve_edit_ok [OF law content _ _ v])
    show "utf8 (fst (normalized ! i))" "find_candidates nfkc content (fst (normalized ! i)) \<noteq> None"
      using old nf i by (auto simp: list_all_length)
    show "fst (normalized ! i) \<noteq> []" if "probes ! i \<noteq> None"
    proof
      assume "fst (normalized ! i) = []"
      then have "validate_edit path (i, normalized ! i) \<noteq> None"
        by (auto simp: validate_edit_def split: prod.splits)
      from validation_rejects [OF i this] that i show False by (simp add: probes probe_edits_nth)
    qed
  qed
  have "map_opt ?f [0..<length normalized] \<noteq> None"
  proof (rule map_opt_total)
    fix i assume "i \<in> set [0..<length normalized]"
    then have "i < length normalized" by simp
    from one [OF this] show "?f i \<noteq> None" by (metis option.distinct(1))
  qed
  then obtain rs where rs: "map_opt ?f [0..<length normalized] = Some rs" by auto
  have "plan_ok content p" if "Planned p \<in> set rs" for p
  proof -
    from rs have all2: "list_all2 (\<lambda>i r. ?f i = Some r) [0..<length normalized] rs"
      by (simp only: map_opt_Some_iff)
    from that obtain j where j: "j < length rs" "rs ! j = Planned p" by (auto simp: in_set_conv_nth)
    with all2 have "j < length normalized" by (auto dest: list_all2_lengthD)
    moreover from this j have "?f j = Some (Planned p)" using list_all2_nthD2 [OF all2 j(1)] by simp
    ultimately show ?thesis using one by fastforce
  qed
  then have "list_all (plan_ok content) (planned rs)"
    by (simp add: list_all_iff set_planned)
  with rs show ?thesis by (simp add: resolve_edits_def Let_def)
qed

section \<open>Failures name an edit\<close>

definition edit_error :: "string \<Rightarrow> bool" where
  "edit_error t = starts_with ''error: edits['' t"

lemma show_nat_head: "\<exists>c cs. show_nat n = c # cs \<and> \<not> is_cont c"
proof (induction n rule: show_nat.induct)
  case (1 n)
  show ?case
  proof (cases "n < 10")
    case True
    then show ?thesis by (subst show_nat.simps) (simp add: digit_def is_cont_def)
  next
    case False
    with 1 obtain c cs where "show_nat (n div 10) = c # cs" "\<not> is_cont c" by blast
    with False show ?thesis by (subst show_nat.simps) simp
  qed
qed

lemma trim_end_keeps:
  assumes bound: "t = [] \<or> \<not> is_cont (hd t)" and p: "chars p \<noteq> []" "\<not> is_ws (last (chars p))"
  shows "\<exists>u. trim_end (p @ t) = p @ u"
proof -
  have "chars (p @ t) = chars p @ chars t"
    using chars_take_boundary [of "length p" "p @ t"] bound
    by (cases t) (auto simp: is_char_boundary_def nth_append)
  moreover have "dropWhile is_ws (rev (chars p)) = rev (chars p)"
    using p by (cases "chars p" rule: rev_cases) auto
  moreover have "\<exists>v. dropWhile is_ws (rev (chars t) @ rev (chars p)) = v @ rev (chars p)"
    using calculation(2) by (cases "\<forall>g\<in>set (chars t). is_ws g") (auto simp: dropWhile_append)
  then obtain v where "dropWhile is_ws (rev (chars t) @ rev (chars p)) = v @ rev (chars p)" ..
  ultimately have "trim_end (p @ t) = concat (chars p @ rev v)" by (simp add: trim_end_def)
  then show ?thesis by simp
qed

lemma error_texts:
  "edit_error (empty_old_text path i)" "edit_error (no_op path i)"
  "edit_error (duplicate path i n ls)" "edit_error (overlap path (i, a, b) (j, c, d))"
  by (simp_all add: edit_error_def empty_old_text_def no_op_def duplicate_def overlap_def edit_at_def)

lemma not_found_error: "not_found nfkc changes path i old content = Some t \<Longrightarrow> edit_error t"
proof -
  assume "not_found nfkc changes path i old content = Some t"
  then obtain body where
    t: "t = trim_end (''error: edits['' @ (show_nat i @ '']'' @ ''.oldText not found in '' @ path @ [NL] @ body))"
    by (auto simp: not_found_def edit_at_def Option.bind_eq_Some_conv)
  obtain c cs where "show_nat i = c # cs" "\<not> is_cont c" using show_nat_head by blast
  then have "show_nat i @ '']'' @ ''.oldText not found in '' @ path @ [NL] @ body = [] \<or>
      \<not> is_cont (hd (show_nat i @ '']'' @ ''.oldText not found in '' @ path @ [NL] @ body))" by simp
  from trim_end_keeps [OF this, of "''error: edits[''"]
  have "\<exists>u. t = ''error: edits['' @ u" unfolding t by (simp add: is_cont_def is_ws_def ws_chars_def)
  then show ?thesis unfolding edit_error_def starts_with_iff by blast
qed

lemma join_prefix: "xs \<noteq> [] \<Longrightarrow> edit_error (hd xs) \<Longrightarrow> edit_error (join d xs)"
  by (cases xs; cases "tl xs") (auto simp: edit_error_def starts_with_iff join_Cons)

lemma apply_failure_error:
  assumes "fs \<noteq> []" and "list_all (\<lambda>f. edit_error (f_message f)) fs"
  shows "edit_error (message (apply_failure_new fs))"
proof -
  let ?xs = "sort_key fst (map (\<lambda>f. (f_index f, f_message f)) fs)"
  have "length ?xs = length fs" by simp
  with assms(1) have ne: "?xs \<noteq> []" by (metis length_0_conv)
  then have "hd ?xs \<in> set ?xs" by (rule hd_in_set)
  then have "hd ?xs \<in> (\<lambda>f. (f_index f, f_message f)) ` set fs" by simp
  with assms(2) have "edit_error (snd (hd ?xs))" by (auto simp: list_all_iff)
  with ne show ?thesis
    by (simp add: apply_failure_new_def join_failures_def hd_map join_prefix del: set_sort length_sort)
qed

lemma plan_edit_error:
  "plan_edit content path i every new normalized v n ms = Some (Failed f) \<Longrightarrow> edit_error (f_message f)"
  by (auto simp: plan_edit_def Option.bind_eq_Some_conv error_texts split: if_splits)

lemma resolve_edit_error:
  "resolve_edit nfkc changes content path view i every old new probe = Some (Failed f) \<Longrightarrow> edit_error (f_message f)"
proof -
  assume res: "resolve_edit nfkc changes content path view i every old new probe = Some (Failed f)"
  then obtain normalized where probe: "probe = Some normalized"
    by (cases probe) (auto simp: resolve_edit_def)
  let ?v = "if normalized then view else None"
  obtain m where m: "match_edit nfkc content ?v old = Some m"
    using res by (auto simp: resolve_edit_def probe Let_def Option.bind_eq_Some_conv)
  show ?thesis
  proof (cases "\<exists>n ms. m = Some (n, ms) \<and> ms \<noteq> []")
    case True
    then obtain n ms where "m = Some (n, ms)" "ms \<noteq> []" by blast
    with res m have "plan_edit content path i every new normalized ?v n ms = Some (Failed f)"
      by (simp add: resolve_edit_def probe Let_def)
    then show ?thesis by (rule plan_edit_error)
  next
    case False
    with res m have "\<exists>t. not_found nfkc changes path i old content = Some t \<and> f_message f = t"
      by (cases m) (auto simp: resolve_edit_def probe Let_def Option.bind_eq_Some_conv)
    then show ?thesis by (auto intro: not_found_error)
  qed
qed

lemma overlap_error: "overlap_failure content plans path = Some (Some f) \<Longrightarrow> edit_error (f_message f)"
proof -
  have "first_overlap content plans path ls = Some (Some f) \<Longrightarrow> edit_error (f_message f)" for ls
  proof (induction content plans path ls rule: first_overlap.induct)
    case (1 base plans path a b rest)
    then show ?case
      by (auto simp: overlap_message_def Let_def error_texts split: if_splits)
  qed auto
  then show "overlap_failure content plans path = Some (Some f) \<Longrightarrow> edit_error (f_message f)"
    by (simp add: overlap_failure_def)
qed

lemma validation_error: "f \<in> set (validation_failures path normalized) \<Longrightarrow> edit_error (f_message f)"
  by (auto simp: validation_failures_def set_map_filter validate_edit_def error_texts split: if_splits)

lemma resolve_edits_error:
  assumes "resolve_edits nfkc changes content path edits normalized probes = Some rs" "f \<in> set (failed rs)"
  shows "edit_error (f_message f)"
proof -
  from assms(2) have "Failed f \<in> set rs" by (simp add: set_failed)
  then obtain j where j: "j < length rs" "rs ! j = Failed f" by (auto simp: in_set_conv_nth)
  from assms(1) have "list_all2 (\<lambda>i r. \<exists>view. resolve_edit nfkc changes content path view i (replace_all (edits ! i))
      (fst (normalized ! i)) (snd (normalized ! i)) (probes ! i) = Some r) [0..<length normalized] rs"
    by (auto simp: resolve_edits_def Let_def map_opt_Some_iff elim: list_all2_mono)
  from list_all2_nthD2 [OF this j(1)] j(2) show ?thesis by (auto intro: resolve_edit_error)
qed

section \<open>A call either fails with a report or splices its plans\<close>

lemma apply_edits_cases:
  assumes "apply_edits nfkc changes content edits path = Some r"
  obtains (failed) fs where "r = Inl (apply_failure_new fs)" "fs \<noteq> []" "list_all (\<lambda>f. edit_error (f_message f)) fs"
  | (applied) rs where
      "resolve_edits nfkc changes content path edits (normalized_edits edits)
         (probe_edits nfkc content [] (normalized_edits edits)) = Some rs"
      "validation_failures path (normalized_edits edits) = []" "failed rs = []"
      "overlap_failure content (planned rs) path = Some None"
      "apply_plans content path (planned rs) = Some r"
proof -
  let ?n = "normalized_edits edits"
  let ?invalid = "validation_failures path ?n"
  from assms obtain rs clash where
    rs: "resolve_edits nfkc changes content path edits ?n (probe_edits nfkc content ?invalid ?n) = Some rs"
    and clash: "overlap_failure content (planned rs) path = Some clash"
    and r: "(if ?invalid @ failed rs @ (case clash of None \<Rightarrow> [] | Some f \<Rightarrow> [f]) \<noteq> []
        then Some (Inl (apply_failure_new (?invalid @ failed rs @ (case clash of None \<Rightarrow> [] | Some f \<Rightarrow> [f]))))
        else apply_plans content path (planned rs)) = Some r"
    by (auto simp: apply_edits_def Let_def Option.bind_eq_Some_conv)
  let ?fs = "?invalid @ failed rs @ (case clash of None \<Rightarrow> [] | Some f \<Rightarrow> [f])"
  show thesis
  proof (cases "?fs = []")
    case True
    then have "?invalid = []" "failed rs = []" "clash = None" by (auto split: option.splits)
    with rs clash r True that(2) show thesis by simp
  next
    case False
    then have "r = Inl (apply_failure_new ?fs)" using r by (simp only: if_True option.inject) auto
    moreover have "list_all (\<lambda>f. edit_error (f_message f)) ?fs"
      using clash rs
      by (auto simp: list_all_iff split: option.splits
          intro: validation_error resolve_edits_error overlap_error)
    ultimately show thesis using that(1) False by blast
  qed
qed

lemma apply_plans_error:
  "list_all (plan_ok content) plans \<Longrightarrow> overlap_failure content plans path = Some None \<Longrightarrow> utf8 content \<Longrightarrow>
   apply_plans content path plans = Some (Inl f) \<Longrightarrow> edit_error (message f)"
  using apply_plans_ok [of content plans path] apply_failure_error error_texts(2)
  by (auto simp: list_all_iff)


lemma nfkc_law_id: "nfkc_law (\<lambda>s. s)"
  by (simp add: nfkc_law_def nfkc_ok_def nfkc_stable_def)

definition sample_edits :: "edit_request list" where
  "sample_edits = [\<lparr>old_text = ''foo'', new_text = ''b'', replace_all = True\<rparr>,
                   \<lparr>old_text = ''bar'', new_text = ''foo'', replace_all = False\<rparr>]"

lemma sample_edits_ok:
  "list_all (\<lambda>e. utf8 (old_text e)) sample_edits"
  "list_all (\<lambda>e. find_candidates (\<lambda>s. s) ''foo bar foo'' (normalize_to_lf (old_text e)) \<noteq> None) sample_edits"
  by code_simp+


end
