(* ===== verification/Edit_Verbatim.thy ===== *)
theory Edit_Verbatim
  imports Edit_Correct
begin

text \<open>
  Edits whose texts occur verbatim are replaced all at once: the result is that of one scan of the
  content from the left. The last section is the input on which the engine panics.
\<close>

section \<open>The scan from the left\<close>

text \<open>The reference: scan from the left; where the text of a rule starts, put its replacement and go on
  behind it, otherwise keep the byte.\<close>

function subst_all :: "(string \<times> string) list \<Rightarrow> string \<Rightarrow> string" where
  "subst_all rules [] = []"
| "subst_all rules (c # cs) =
     (case find (\<lambda>r. fst r \<noteq> [] \<and> starts_with (fst r) (c # cs)) rules of
        Some r \<Rightarrow> snd r @ subst_all rules (drop (length (fst r) - 1) cs)
      | None \<Rightarrow> c # subst_all rules cs)"
  by pat_completeness auto
termination by (relation "measure (\<lambda>(r, s). length s)") auto

declare subst_all.simps(2) [simp del]

text \<open>From position \<open>k\<close> on, the replacements are occurrences of rules, and every occurrence of a rule is
  inside one of its own replacements.\<close>

definition covers :: "string \<Rightarrow> (string \<times> string) list \<Rightarrow> nat \<Rightarrow> replacement list \<Rightarrow> bool" where
  "covers s rules k rs \<longleftrightarrow>
     (\<forall>r\<in>set rs. \<exists>rule\<in>set rules. occurs_at (fst rule) s (rep_start r) \<and>
        rep_end r = rep_start r + length (fst rule) \<and> rep_text r = snd rule) \<and>
     (\<forall>rule\<in>set rules. \<forall>i\<ge>k. occurs_at (fst rule) s i \<longrightarrow>
        (\<exists>r\<in>set rs. rep_start r \<le> i \<and> i < rep_end r \<and>
           rep_end r = rep_start r + length (fst rule) \<and> rep_text r = snd rule))"

lemma covers_hit:
  "covers s rules k rs \<Longrightarrow> rule \<in> set rules \<Longrightarrow> k \<le> i \<Longrightarrow> occurs_at (fst rule) s i \<Longrightarrow>
   \<exists>r\<in>set rs. rep_start r \<le> i \<and> i < rep_end r \<and>
     rep_end r = rep_start r + length (fst rule) \<and> rep_text r = snd rule"
  unfolding covers_def by blast

lemma starts_with_drop: "starts_with p (drop k s) \<longleftrightarrow> occurs_at p s k" if "k \<le> length s"
  using occurs_at_drop [OF that, of p 0] by (simp add: occurs_at_0)

lemma reps_from_start: "reps_from k rs \<Longrightarrow> r \<in> set rs \<Longrightarrow> k \<le> rep_start r"
proof (induction k rs rule: reps_from.induct)
  case (2 k r' rs)
  then show ?case by (auto intro: order_trans [OF _ less_imp_le [OF less_le_trans]])
qed simp

lemma weave_subst:
  assumes ne: "\<forall>rule\<in>set rules. fst rule \<noteq> []"
  shows "reps_from k rs \<Longrightarrow> covers s rules k rs \<Longrightarrow> k \<le> length s \<Longrightarrow>
    weave s k rs = subst_all rules (drop k s)"
proof (induction "length s - k" arbitrary: k rs rule: less_induct)
  case less
  show ?case
  proof (cases "k < length s")
    case False
    then have k: "k = length s" using less(4) by simp
    have "rs = []"
    proof (rule ccontr)
      assume "rs \<noteq> []"
      then obtain r rs' where rs: "rs = r # rs'" by (cases rs) auto
      with less(3) obtain rule where "occurs_at (fst rule) s (rep_start r)" "rule \<in> set rules"
        by (auto simp: covers_def)
      with less(2) rs k ne show False by (fastforce simp: occurs_at_def)
    qed
    with k show ?thesis by simp
  next
    case True
    then have drop: "drop k s = s ! k # drop (Suc k) s" by (simp add: Cons_nth_drop_Suc)
    let ?find = "find (\<lambda>r. fst r \<noteq> [] \<and> starts_with (fst r) (s ! k # drop (Suc k) s)) rules"
    have hit: "starts_with p (s ! k # drop (Suc k) s) \<longleftrightarrow> occurs_at p s k" for p
      using starts_with_drop [of k s p] True by (simp add: drop)
    show ?thesis
    proof (cases ?find)
      case None
      then have miss: "\<not> occurs_at (fst rule) s k" if "rule \<in> set rules" for rule
        using that ne by (cases rule) (fastforce simp: find_None_iff hit)
      have later: "reps_from (Suc k) rs"
      proof (cases rs)
        case (Cons r rs')
        with less(3) miss have "rep_start r \<noteq> k" by (auto simp: covers_def)
        with less(2) Cons show ?thesis by simp
      qed simp
      have "weave s (Suc k) rs = subst_all rules (drop (Suc k) s)"
        by (rule less(1) [OF _ later]) (use less(3) True in \<open>auto simp: covers_def\<close>)
      moreover have "weave s k rs = s ! k # weave s (Suc k) rs"
        using later drop by (cases rs) (auto simp: Suc_diff_le take_Cons')
      ultimately show ?thesis by (simp add: drop subst_all.simps(2) None)
    next
      case (Some rule)
      then have rule: "rule \<in> set rules" "occurs_at (fst rule) s k" "fst rule \<noteq> []"
        by (auto simp: find_Some_iff hit)
      from covers_hit [OF less(3) this(1) le_refl this(2)]
      obtain r where r: "r \<in> set rs" "rep_start r \<le> k" "k < rep_end r"
        "rep_end r = rep_start r + length (fst rule)" "rep_text r = snd rule" by blast
      then have start: "rep_start r = k" using reps_from_start [OF less(2) r(1)] by simp
      obtain r' rs' where rs: "rs = r' # rs'" using r(1) by (cases rs) auto
      have "r' = r"
      proof (rule ccontr)
        assume "r' \<noteq> r"
        with r(1) rs have "r \<in> set rs'" by simp
        with less(2) rs have "rep_end r' \<le> rep_start r" "k \<le> rep_start r'" "rep_start r' < rep_end r'"
          using reps_from_start [of "rep_end r'" rs' r] by auto
        with start show False by simp
      qed
      then have rs: "rs = r # rs'" and tail: "reps_from (rep_end r) rs'" using rs less(2) by auto
      have len: "rep_end r \<le> length s" using rule(2) r(4) start by (simp add: occurs_at_def)
      have "covers s rules (rep_end r) rs'"
        unfolding covers_def
      proof (intro conjI ballI allI impI)
        fix q assume "q \<in> set rs'"
        then show "\<exists>rule\<in>set rules. occurs_at (fst rule) s (rep_start q) \<and>
            rep_end q = rep_start q + length (fst rule) \<and> rep_text q = snd rule"
          using less(3) unfolding covers_def rs by simp
      next
        fix rule' i assume a: "rule' \<in> set rules" "rep_end r \<le> i" "occurs_at (fst rule') s i"
        have "k \<le> i" using a(2) r(3) by simp
        from covers_hit [OF less(3) a(1) this a(3)] obtain q where
          q: "q \<in> set rs" "rep_start q \<le> i" "i < rep_end q"
            "rep_end q = rep_start q + length (fst rule')" "rep_text q = snd rule'" by blast
        with a(2) rs have "q \<in> set rs'" by auto
        with q show "\<exists>q\<in>set rs'. rep_start q \<le> i \<and> i < rep_end q \<and>
            rep_end q = rep_start q + length (fst rule') \<and> rep_text q = snd rule'" by blast
      qed
      then have "weave s (rep_end r) rs' = subst_all rules (drop (rep_end r) s)"
        by (rule less(1) [OF _ tail _ len, rotated]) (use r(3) True in simp)
      moreover have "drop (length (fst rule) - 1) (drop (Suc k) s) = drop (rep_end r) s"
        using rule(3) r(4) start by (cases "fst rule") (auto simp: add.commute)
      ultimately show ?thesis
        by (simp add: drop subst_all.simps(2) Some rs start r(5))
    qed
  qed
qed

text \<open>For edits that occur verbatim the plans are made of those occurrences.\<close>

definition verbatim_plan :: "string \<Rightarrow> edit_request \<Rightarrow> string \<times> string \<Rightarrow> edit_plan \<Rightarrow> bool" where
  "verbatim_plan content e rule p \<longleftrightarrow> (\<exists>ms. find_all_spans content (fst rule) = Some ms \<and>
     (replace_all e \<or> length ms = 1) \<and>
     spans p = map (\<lambda>m. \<lparr>rep_start = fst m, rep_end = snd m, rep_text = snd rule\<rparr>) ms)"

lemma resolve_verbatim:
  assumes "resolve_edit nfkc changes content path view i (replace_all e) old new (Some False) = Some (Planned p)"
  shows "verbatim_plan content e (old, new) p"
proof -
  obtain ms where ms: "find_all_spans content old = Some ms" "ms \<noteq> []"
    and plan: "plan_edit content path i (replace_all e) new False None old ms = Some (Planned p)"
    using assms
    by (auto simp: resolve_edit_def match_edit_def Let_def Option.bind_eq_Some_conv split: if_splits)
  have "replace_all e \<or> length ms = 1"
    using plan ms(2) by (cases ms) (auto simp: plan_edit_def Option.bind_eq_Some_conv split: if_splits)
  moreover have "spans p = map (\<lambda>m. \<lparr>rep_start = fst m, rep_end = snd m, rep_text = new\<rparr>) ms"
    using plan by (auto simp: plan_edit_def edit_spans_def Option.bind_eq_Some_conv split: if_splits)
  ultimately show ?thesis using ms(1) by (auto simp: verbatim_plan_def)
qed

lemma verbatim_plans:
  assumes rs: "resolve_edits nfkc changes content path edits (normalized_edits edits)
      (probe_edits nfkc content [] (normalized_edits edits)) = Some rs"
    and none: "failed rs = []"
    and verbatim: "list_all (\<lambda>e. contains content (normalize_to_lf (old_text e))) edits"
  shows "\<forall>i<length edits. \<exists>p. Planned p \<in> set rs \<and> verbatim_plan content (edits ! i) (normalized_edits edits ! i) p"
    and "\<forall>p. Planned p \<in> set rs \<longrightarrow>
      (\<exists>i<length edits. verbatim_plan content (edits ! i) (normalized_edits edits ! i) p)"
proof -
  let ?n = "normalized_edits edits"
  have len: "length ?n = length edits" by (simp add: normalized_edits_def)
  have probe: "probe_edits nfkc content [] ?n ! i = Some False" if "i < length edits" for i
  proof -
    have "contains content (fst (?n ! i))"
      using verbatim that by (simp add: normalized_edits_def list_all_length)
    then have "\<not> used_fuzzy_match (fuzzy_find_text nfkc content (fst (?n ! i)))" by (simp add: not_used_fuzzy)
    with that len show ?thesis by (simp add: probe_edits_nth)
  qed
  obtain view where all2: "list_all2 (\<lambda>i r. resolve_edit nfkc changes content path view i (replace_all (edits ! i))
      (fst (?n ! i)) (snd (?n ! i)) (probe_edits nfkc content [] ?n ! i) = Some r) [0..<length ?n] rs"
    using rs by (auto simp: resolve_edits_def Let_def map_opt_Some_iff)
  have len_rs: "length rs = length edits" using list_all2_lengthD [OF all2] len by simp
  have each: "\<exists>p. rs ! i = Planned p \<and> verbatim_plan content (edits ! i) (?n ! i) p" if i: "i < length edits" for i
  proof -
    have res: "resolve_edit nfkc changes content path view i (replace_all (edits ! i))
        (fst (?n ! i)) (snd (?n ! i)) (Some False) = Some (rs ! i)"
      using list_all2_nthD2 [OF all2, of i] i len len_rs probe [OF i] by simp
    have "rs ! i \<in> set rs" using i len_rs by simp
    then have "rs ! i \<noteq> Failed f" for f using none set_failed [of f rs] by (metis empty_iff empty_set)
    moreover have "rs ! i \<noteq> Skipped"
    proof
      assume "rs ! i = Skipped"
      with res show False
        by (auto simp: resolve_edit_def plan_edit_def Let_def Option.bind_eq_Some_conv
            split: option.splits if_splits prod.splits)
    qed
    ultimately obtain p where p: "rs ! i = Planned p" by (cases "rs ! i") auto
    with res have "verbatim_plan content (edits ! i) (fst (?n ! i), snd (?n ! i)) p"
      by (intro resolve_verbatim) simp
    with p show ?thesis by simp
  qed
  then show "\<forall>i<length edits. \<exists>p. Planned p \<in> set rs \<and> verbatim_plan content (edits ! i) (?n ! i) p"
    using len_rs nth_mem by metis
  show "\<forall>p. Planned p \<in> set rs \<longrightarrow> (\<exists>i<length edits. verbatim_plan content (edits ! i) (?n ! i) p)"
    using each len_rs by (metis in_set_conv_nth resolution.inject(2))
qed

lemma valid_edits_not_empty:
  assumes "validation_failures path normalized = []" and "rule \<in> set normalized"
  shows "fst rule \<noteq> []"
proof
  assume empty: "fst rule = []"
  obtain i where i: "i < length normalized" "normalized ! i = rule" using assms(2) by (auto simp: in_set_conv_nth)
  have "validate_edit path (i, normalized ! i) \<noteq> None"
    using empty i by (auto simp: validate_edit_def split: prod.splits)
  from validation_rejects [OF i(1) this] assms(1) show False by simp
qed

lemma verbatim_plan_ok:
  assumes content: "utf8 content" and old: "utf8 (fst rule)" "fst rule \<noteq> []" "contains content (fst rule)"
    and plan: "verbatim_plan content e rule p"
  obtains ms where "span_list content (fst rule) 0 ms"
    "spans p = map (\<lambda>m. \<lparr>rep_start = fst m, rep_end = snd m, rep_text = snd rule\<rparr>) ms" "plan_ok content p"
proof -
  obtain ms where ms: "find_all_spans content (fst rule) = Some ms"
    "spans p = map (\<lambda>m. \<lparr>rep_start = fst m, rep_end = snd m, rep_text = snd rule\<rparr>) ms"
    using plan by (auto simp: verbatim_plan_def)
  have list: "span_list content (fst rule) 0 ms"
    using find_all_spans_ok [OF content old(1,2)] ms(1) by auto
  obtain a b where "content = a @ fst rule @ b" using old(3) by (auto simp: contains_iff)
  then have "occurs_at (fst rule) content (length a)" by (auto simp: occurs_at_split)
  with list have "ms \<noteq> []" by (auto simp: span_list_def)
  then have "plan_ok content p"
    using reps_of_matches [OF span_list_sorted [OF content old(1,2) list]] ms(2) by (simp add: plan_ok_def)
  with list ms(2) that show thesis by blast
qed

text \<open>C33. When every \<open>oldText\<close> occurs verbatim and the call succeeds, the new content is the
  one a single scan from the left produces, which replaces the text of every edit wherever it starts,
  and an edit without \<open>replaceAll\<close> has exactly one occurrence.\<close>

theorem verbatim_edits_substitute:
  assumes "apply_edits nfkc changes content edits path = Some (Inr a)"
    and "utf8 content" and "list_all (\<lambda>e. utf8 (old_text e)) edits"
    and "list_all (\<lambda>e. contains content (normalize_to_lf (old_text e))) edits"
  shows "new_content a = subst_all (normalized_edits edits) content \<and>
    list_all (\<lambda>e. replace_all e \<or> (\<exists>m. find_all_spans content (normalize_to_lf (old_text e)) = Some [m])) edits"
  using assms(1)
proof (cases rule: apply_edits_cases)
  case (applied rs)
  let ?n = "normalized_edits edits"
  note plans = verbatim_plans [OF applied(1,3) assms(4)]
  have len: "length ?n = length edits" by (simp add: normalized_edits_def)
  have rule: "utf8 (fst r)" "fst r \<noteq> []" "contains content (fst r)" if "r \<in> set ?n" for r
    using that valid_edits_not_empty [OF applied(2)] normalized_edits_utf8 [OF assms(3)] assms(4)
    by (auto simp: list_all_iff normalized_edits_def)
  have made: "\<exists>ms. span_list content (fst (?n ! i)) 0 ms \<and> plan_ok content p \<and>
      spans p = map (\<lambda>m. \<lparr>rep_start = fst m, rep_end = snd m, rep_text = snd (?n ! i)\<rparr>) ms"
    if i: "i < length edits" and "verbatim_plan content (edits ! i) (?n ! i) p" for i p
    by (rule verbatim_plan_ok [OF assms(2) _ _ _ that(2)]) (use rule [of "?n ! i"] i len in auto)
  have ok: "list_all (plan_ok content) (planned rs)"
  proof -
    have "plan_ok content p" if "Planned p \<in> set rs" for p using plans(2) made that by blast
    then show ?thesis by (simp add: list_all_iff set_planned)
  qed
  let ?rs = "sort_key rep_start (concat (map spans (planned rs)))"
  have "covers content ?n 0 ?rs"
    unfolding covers_def
  proof (intro conjI ballI allI impI)
    fix r assume "r \<in> set ?rs"
    then obtain p where p: "Planned p \<in> set rs" "r \<in> set (spans p)" by (auto simp: set_planned)
    with plans(2) obtain i where i: "i < length edits" "verbatim_plan content (edits ! i) (?n ! i) p" by blast
    from made [OF this] obtain ms where ms: "span_list content (fst (?n ! i)) 0 ms"
      "spans p = map (\<lambda>m. \<lparr>rep_start = fst m, rep_end = snd m, rep_text = snd (?n ! i)\<rparr>) ms" by blast
    then obtain m where m: "m \<in> set ms" "r = \<lparr>rep_start = fst m, rep_end = snd m, rep_text = snd (?n ! i)\<rparr>"
      using p(2) by auto
    from ms(1) m(1) have "occurs_at (fst (?n ! i)) content (fst m)" "snd m = fst m + length (fst (?n ! i))"
      unfolding span_list_def list_all_iff by blast+
    then have "occurs_at (fst (?n ! i)) content (rep_start r) \<and>
        rep_end r = rep_start r + length (fst (?n ! i)) \<and> rep_text r = snd (?n ! i)"
      by (simp add: m(2))
    moreover have "?n ! i \<in> set ?n" using i(1) len by simp
    ultimately show "\<exists>rule\<in>set ?n. occurs_at (fst rule) content (rep_start r) \<and>
        rep_end r = rep_start r + length (fst rule) \<and> rep_text r = snd rule" by blast
  next
    fix r j assume "r \<in> set ?n" and occ: "occurs_at (fst r) content j"
    then obtain i where i: "i < length edits" "?n ! i = r" by (auto simp: in_set_conv_nth len)
    with plans(1) obtain p where p: "Planned p \<in> set rs" "verbatim_plan content (edits ! i) (?n ! i) p" by blast
    from made [OF i(1) p(2)] obtain ms where ms: "span_list content (fst r) 0 ms"
      "spans p = map (\<lambda>m. \<lparr>rep_start = fst m, rep_end = snd m, rep_text = snd r\<rparr>) ms" by (auto simp: i(2))
    from span_list_hit [OF ms(1) _ occ] obtain m where
      m: "m \<in> set ms" "fst m \<le> j" "j < snd m" "snd m = fst m + length (fst r)" by blast
    let ?q = "\<lparr>rep_start = fst m, rep_end = snd m, rep_text = snd r\<rparr>"
    have "?q \<in> set (spans p)" using m(1) ms(2) by auto
    moreover have "p \<in> set (planned rs)" using p(1) by (simp add: set_planned)
    ultimately have "?q \<in> set ?rs" by auto
    with m show "\<exists>q\<in>set ?rs. rep_start q \<le> j \<and> j < rep_end q \<and>
        rep_end q = rep_start q + length (fst r) \<and> rep_text q = snd r" by (intro bexI [of _ ?q]) auto
  qed
  moreover have "reps_from 0 ?rs" by (rule no_overlap_in_order(1) [OF ok applied(4)])
  ultimately have "weave content 0 ?rs = subst_all ?n (drop 0 content)"
    using rule(2) by (intro weave_subst) auto
  moreover have "new_content a = weave content 0 ?rs"
    using apply_plans_ok [OF ok applied(4) assms(2)] applied(5) by auto
  moreover have "replace_all (edits ! i) \<or> (\<exists>m. find_all_spans content (fst (?n ! i)) = Some [m])"
    if "i < length edits" for i
    using plans(1) that by (fastforce simp: verbatim_plan_def length_Suc_conv)
  ultimately show ?thesis by (simp add: list_all_length normalized_edits_def)
qed simp

lemma sample_edits_applied:
  "apply_edits (\<lambda>s. s) (\<lambda>_ _. []) ''foo bar foo'' sample_edits ''f'' =
    Some (Inr \<lparr>base_content = ''foo bar foo'', new_content = ''b foo b'', replacements = 3,
      applied_notes = [], warnings = []\<rparr>)"
  by code_simp

theorem verbatim_edits_substitute_witness:
  "''b foo b'' = subst_all (normalized_edits sample_edits) ''foo bar foo''"
proof -
  have "utf8 ''foo bar foo''" by code_simp
  moreover have "list_all (\<lambda>e. contains ''foo bar foo'' (normalize_to_lf (old_text e))) sample_edits" by code_simp
  ultimately show ?thesis
    using verbatim_edits_substitute [OF sample_edits_applied _ sample_edits_ok(1)] by simp
qed

text \<open>The tool takes a file of valid text and a query in which only the indentation is wrong, and panics
  instead of answering: the report cuts the file inside the last character of the line it found.\<close>

lemma edit_panics_on_cafe:
  "apply_edits (\<lambda>s. s) changes (cafe @ [NL]) [\<lparr>old_text = ''  '' @ cafe, new_text = ''tea'', replace_all = False\<rparr>]
     path = None"
proof -
  let ?e = "\<lparr>old_text = ''  '' @ cafe, new_text = ''tea'', replace_all = False\<rparr>"
  have n: "normalized_edits [?e] = [(''  '' @ cafe, ''tea'')]" by code_simp
  have valid: "validation_failures path [(''  '' @ cafe, ''tea'')] = []"
    by (simp add: validation_failures_def validate_edit_def List.map_filter_simps)
  have "\<not> contains (normalize_for_fuzzy_match (\<lambda>s. s) (cafe @ [NL]))
      (normalize_for_fuzzy_match (\<lambda>s. s) (''  '' @ cafe))" by code_simp
  then have "\<not> used_fuzzy_match (fuzzy_find_text (\<lambda>s. s) (cafe @ [NL]) (''  '' @ cafe))"
    using not_used_fuzzy by blast
  then have probe: "probe_edits (\<lambda>s. s) (cafe @ [NL]) [] [(''  '' @ cafe, ''tea'')] = [Some False]"
    by (simp add: probe_edits_def)
  have spans: "find_all_spans (cafe @ [NL]) (''  '' @ cafe) = Some []" by code_simp
  have "resolve_edits (\<lambda>s. s) changes (cafe @ [NL]) path [?e] [(''  '' @ cafe, ''tea'')] [Some False] = None"
    using spans not_found_panics_on_cafe [of changes path 0]
    by (simp add: resolve_edits_def resolve_edit_def match_edit_def)
  then show ?thesis unfolding apply_edits_def Let_def n valid probe by simp
qed

end
