(* ===== verification/Edit_Display.thy ===== *)
theory Edit_Display
  imports Text_Search
begin

text \<open>
  The display diff of \<open>edit_diff.rs\<close>: the operations of the line diff, which come from the \<open>similar\<close> crate
  and are a parameter, rendered with line numbers and a few lines of context. The code takes the last
  line of an operation away when it is blank, as if it were the empty text behind a final newline, but
  the lines come without newlines: a blank line at the end of an operation is lost and the numbers that
  follow are too small.
\<close>

section \<open>Rendering\<close>

datatype diff_tag = Equal | Delete | Insert | Replace

record diff_op =
  op_tag :: diff_tag
  old_range :: "nat \<times> nat"
  new_range :: "nat \<times> nat"

record diff_state =
  out :: "string list"
  old_num :: nat
  new_num :: nat
  last_was_change :: bool
  first_changed :: "nat option"

definition numbered :: "char \<Rightarrow> nat \<Rightarrow> nat \<Rightarrow> string \<Rightarrow> string" where
  "numbered sign width n l =
     sign # replicate (width - length (show_nat n)) CHR '' '' @ show_nat n @ '' '' @ l"

definition dots :: "nat \<Rightarrow> string" where
  "dots width = '' '' @ replicate width CHR '' '' @ '' ...''"

fun number_lines :: "char \<Rightarrow> nat \<Rightarrow> nat \<Rightarrow> string list \<Rightarrow> string list" where
  "number_lines sign width n [] = []"
| "number_lines sign width n (l # ls) = numbered sign width n l # number_lines sign width (Suc n) ls"

definition pop_blank :: "string list \<Rightarrow> string list" where
  "pop_blank ls = (if ls \<noteq> [] \<and> last ls = [] then butlast ls else ls)"

definition advance :: "nat \<Rightarrow> diff_state \<Rightarrow> diff_state" where
  "advance n s = s\<lparr>old_num := old_num s + n, new_num := new_num s + n\<rparr>"

definition show_context :: "nat \<Rightarrow> string list \<Rightarrow> diff_state \<Rightarrow> diff_state" where
  "show_context width ls s =
     advance (length ls) (s\<lparr>out := out s @ number_lines CHR '' '' width (old_num s) ls\<rparr>)"

definition skip_lines :: "nat \<Rightarrow> nat \<Rightarrow> diff_state \<Rightarrow> diff_state" where
  "skip_lines width n s = advance n (s\<lparr>out := out s @ [dots width]\<rparr>)"

text \<open>A change: the old lines of a deletion or replacement, then the new lines of an insertion or
  replacement.\<close>

definition show_change ::
  "nat \<Rightarrow> string list \<Rightarrow> string list \<Rightarrow> diff_op \<Rightarrow> string list \<Rightarrow> diff_state \<Rightarrow> diff_state option" where
  "show_change width old new p raw s = do {
     let s1 = (if first_changed s = None then s\<lparr>first_changed := Some (new_num s)\<rparr> else s);
     s2 \<leftarrow> (if op_tag p = Delete \<or> op_tag p = Replace then do {
        removed \<leftarrow> get_range old (fst (old_range p)) (snd (old_range p));
        let ls = pop_blank removed;
        Some (s1\<lparr>out := out s1 @ number_lines CHR ''-'' width (old_num s1) ls, old_num := old_num s1 + length ls\<rparr>)
      } else Some s1);
     let s3 = (if op_tag p = Insert \<or> op_tag p = Replace
       then s2\<lparr>out := out s2 @ number_lines CHR ''+'' width (new_num s2) raw, new_num := new_num s2 + length raw\<rparr>
       else s2);
     Some (s3\<lparr>last_was_change := True\<rparr>)
   }"

definition show_equal :: "nat \<Rightarrow> nat \<Rightarrow> bool \<Rightarrow> string list \<Rightarrow> diff_state \<Rightarrow> diff_state" where
  "show_equal ctx width next_is_change raw s =
     (let n = length raw in
      (if last_was_change s \<and> next_is_change then
         (if n \<le> ctx * 2 then show_context width raw s
          else show_context width (drop (n - ctx) raw)
                 (skip_lines width (n - ctx - ctx) (show_context width (take ctx raw) s)))
       else if last_was_change s then
         (let s' = show_context width (take ctx raw) s in
          if ctx < n then skip_lines width (n - ctx) s' else s')
       else if next_is_change then
         (let s' = (if ctx < n then skip_lines width (n - ctx) s else s) in
          show_context width (drop (n - ctx) raw) s')
       else advance n s)\<lparr>last_was_change := False\<rparr>)"

definition op_raw :: "string list \<Rightarrow> string list \<Rightarrow> diff_op \<Rightarrow> string list option" where
  "op_raw old new p =
     (if op_tag p = Equal \<or> op_tag p = Delete
      then get_range old (fst (old_range p)) (snd (old_range p))
      else get_range new (fst (new_range p)) (snd (new_range p)))"

fun diff_loop ::
  "nat \<Rightarrow> nat \<Rightarrow> string list \<Rightarrow> string list \<Rightarrow> diff_op list \<Rightarrow> diff_state \<Rightarrow> diff_state option" where
  "diff_loop ctx width old new [] s = Some s"
| "diff_loop ctx width old new (p # ps) s = do {
     lines \<leftarrow> op_raw old new p;
     let raw = pop_blank lines;
     s' \<leftarrow> (if op_tag p = Equal
       then Some (show_equal ctx width (ps \<noteq> [] \<and> op_tag (hd ps) \<noteq> Equal) raw s)
       else show_change width old new p raw s);
     diff_loop ctx width old new ps s'
   }"

definition line_num_width :: "string list \<Rightarrow> string list \<Rightarrow> nat" where
  "line_num_width old new = length (show_nat (max (length old) (length new)))"

definition diff_lines :: "diff_op list \<Rightarrow> string \<Rightarrow> string \<Rightarrow> nat \<Rightarrow> diff_state option" where
  "diff_lines ops old_content new_content ctx =
     (let old = lines_of old_content; new = lines_of new_content in
      diff_loop ctx (line_num_width old new) old new ops
        \<lparr>out = [], old_num = 1, new_num = 1, last_was_change = False, first_changed = None\<rparr>)"

record diff_result =
  diff :: string
  first_changed_line :: "nat option"

definition generate_diff_string :: "diff_op list \<Rightarrow> string \<Rightarrow> string \<Rightarrow> nat \<Rightarrow> diff_result option" where
  "generate_diff_string ops old_content new_content ctx = do {
     s \<leftarrow> diff_lines ops old_content new_content ctx;
     Some \<lparr>diff = join_lines (out s), first_changed_line = first_changed s\<rparr>
   }"

section \<open>A blank line at the end of an operation\<close>

text \<open>The second of the two lines that stay is blank and the third line is changed; the diff shows the
  change at line 2.\<close>

lemma blank_line_shifts_numbers:
  "map_option first_changed_line
     (generate_diff_string
        [\<lparr>op_tag = Equal, old_range = (0, 2), new_range = (0, 2)\<rparr>,
         \<lparr>op_tag = Replace, old_range = (2, 3), new_range = (2, 3)\<rparr>]
        (''a'' @ [NL, NL] @ ''b'' @ [NL]) (''a'' @ [NL, NL] @ ''c'' @ [NL]) 4) = Some (Some 2)"
  "map_option out
     (diff_lines
        [\<lparr>op_tag = Equal, old_range = (0, 2), new_range = (0, 2)\<rparr>,
         \<lparr>op_tag = Replace, old_range = (2, 3), new_range = (2, 3)\<rparr>]
        (''a'' @ [NL, NL] @ ''b'' @ [NL]) (''a'' @ [NL, NL] @ ''c'' @ [NL]) 4) =
   Some ['' 1 a'', ''-2 b'', ''+2 c'']"
  by code_simp+

section \<open>Without such lines the numbers are right\<close>

abbreviation slice :: "'a list \<Rightarrow> nat \<Rightarrow> nat \<Rightarrow> 'a list" where
  "slice xs a b \<equiv> take (b - a) (drop a xs)"

definition numbered_range :: "char \<Rightarrow> nat \<Rightarrow> string list \<Rightarrow> nat \<times> nat \<Rightarrow> string list" where
  "numbered_range sign width ls ab = map (\<lambda>k. numbered sign width (Suc k) (ls ! k)) [fst ab..<snd ab]"

definition ends_clean :: "string list \<Rightarrow> bool" where
  "ends_clean ls \<longleftrightarrow> ls = [] \<or> last ls \<noteq> []"

text \<open>The operations describe how \<open>old\<close> becomes \<open>new\<close>, from line \<open>i\<close> and \<open>j\<close> on, and none ends in a blank
  line.\<close>

fun clean_script :: "string list \<Rightarrow> string list \<Rightarrow> nat \<Rightarrow> nat \<Rightarrow> diff_op list \<Rightarrow> bool" where
  "clean_script old new i j [] = True"
| "clean_script old new i j (p # ps) =
     (case (old_range p, new_range p) of ((a, b), (c, d)) \<Rightarrow>
        a = i \<and> c = j \<and> a \<le> b \<and> b \<le> length old \<and> c \<le> d \<and> d \<le> length new \<and>
        (if op_tag p = Equal then slice old a b = slice new c d \<and> d - c = b - a else True) \<and>
        (if op_tag p = Insert then b = a else True) \<and> (if op_tag p = Delete then d = c else True) \<and>
        ends_clean (slice old a b) \<and> ends_clean (slice new c d) \<and> clean_script old new b d ps)"

definition context_line :: "string list \<Rightarrow> nat \<Rightarrow> string \<Rightarrow> bool" where
  "context_line old width l \<longleftrightarrow>
     l = dots width \<or> (\<exists>k<length old. l = numbered CHR '' '' width (Suc k) (old ! k))"

lemma pop_blank_clean: "ends_clean ls \<Longrightarrow> pop_blank ls = ls"
  by (auto simp: pop_blank_def ends_clean_def)

lemma number_lines_slice:
  "a \<le> b \<Longrightarrow> b \<le> length ls \<Longrightarrow> number_lines sign w (Suc a) (slice ls a b) = numbered_range sign w ls (a, b)"
proof (induction "b - a" arbitrary: a)
  case 0
  then show ?case by (simp add: numbered_range_def)
next
  case (Suc n)
  then have a: "a < b" "a < length ls" by auto
  then have "slice ls a b = ls ! a # slice ls (Suc a) b"
    by (simp add: Cons_nth_drop_Suc [symmetric] Suc_diff_Suc [symmetric] del: Cons_nth_drop_Suc)
  moreover have "number_lines sign w (Suc (Suc a)) (slice ls (Suc a) b) = numbered_range sign w ls (Suc a, b)"
    by (rule Suc(1)) (use Suc a in auto)
  ultimately show ?case using a by (simp add: numbered_range_def upt_conv_Cons)
qed

lemma numbered_range_context: "b \<le> length old \<Longrightarrow> list_all (context_line old w) (numbered_range CHR '' '' w old (a, b))"
proof -
  assume b: "b \<le> length old"
  have "context_line old w (numbered CHR '' '' w (Suc k) (old ! k))" if "k < b" for k
    using that b unfolding context_line_def by (intro disjI2 exI [of _ k]) simp
  then show ?thesis by (auto simp: list_all_iff numbered_range_def)
qed

lemma show_context_slice:
  "old_num s = Suc a \<Longrightarrow> a \<le> b \<Longrightarrow> b \<le> length old \<Longrightarrow>
   show_context w (slice old a b) s =
     s\<lparr>out := out s @ numbered_range CHR '' '' w old (a, b), old_num := Suc b, new_num := new_num s + (b - a)\<rparr>"
  by (simp add: show_context_def advance_def number_lines_slice)

lemma take_slice: "n \<le> b - a \<Longrightarrow> take n (slice xs a b) = slice xs a (a + n)"
  by (simp add: min_def)

lemma drop_slice: "n \<le> b - a \<Longrightarrow> drop n (slice xs a b) = slice xs (a + n) b"
  by (simp add: drop_take add.commute)

lemma show_equal_slice:
  assumes num: "old_num s = Suc a" and ab: "a \<le> b" "b \<le> length old"
  shows "\<exists>x. show_equal ctx w next (slice old a b) s =
      s\<lparr>out := out s @ x, old_num := Suc b, new_num := new_num s + (b - a), last_was_change := False\<rparr> \<and>
    list_all (context_line old w) x"
proof -
  let ?n = "b - a"
  have len: "length (slice old a b) = ?n" using ab by simp
  note slices = show_context_slice take_slice drop_slice
  have dot: "context_line old w (dots w)" by (simp add: context_line_def)
  consider (both) "last_was_change s" "next" | (lead) "last_was_change s" "\<not> next"
    | (trail) "\<not> last_was_change s" "next" | (neither) "\<not> last_was_change s" "\<not> next" by blast
  then show ?thesis
  proof cases
    case both
    show ?thesis
    proof (cases "?n \<le> ctx * 2")
      case True
      then show ?thesis using both num ab len
        by (intro exI [of _ "numbered_range CHR '' '' w old (a, b)"])
          (simp add: show_equal_def Let_def show_context_slice numbered_range_context)
    next
      case False
      let ?s1 = "show_context w (take ctx (slice old a b)) s"
      let ?s2 = "skip_lines w (?n - ctx - ctx) ?s1"
      have "take ctx (slice old a b) = slice old a (a + ctx)"
        "drop (?n - ctx) (slice old a b) = slice old (b - ctx) b"
        using False take_slice [of ctx b a old] drop_slice [of "?n - ctx" b a old] by auto
      moreover have s1: "?s1 = s\<lparr>out := out s @ numbered_range CHR '' '' w old (a, a + ctx),
          old_num := Suc (a + ctx), new_num := new_num s + ctx\<rparr>"
        using False show_context_slice [OF num, of "a + ctx" old w] ab calculation(1) by simp
      moreover have "old_num ?s2 = Suc (b - ctx)"
        using False unfolding s1 by (simp add: skip_lines_def advance_def)
      ultimately have "show_context w (drop (?n - ctx) (slice old a b)) ?s2 =
          ?s2\<lparr>out := out ?s2 @ numbered_range CHR '' '' w old (b - ctx, b), old_num := Suc b,
            new_num := new_num ?s2 + ctx\<rparr>"
        using False show_context_slice [of ?s2 "b - ctx" b old w] ab by simp
      also have "\<dots> = s\<lparr>out := out s @ numbered_range CHR '' '' w old (a, a + ctx) @ [dots w] @
            numbered_range CHR '' '' w old (b - ctx, b), old_num := Suc b, new_num := new_num s + (b - a)\<rparr>"
        using False unfolding s1 by (simp add: skip_lines_def advance_def)
      finally show ?thesis using both len False ab
        by (intro exI [of _ "numbered_range CHR '' '' w old (a, a + ctx) @ [dots w] @
            numbered_range CHR '' '' w old (b - ctx, b)"])
          (simp add: show_equal_def Let_def numbered_range_context dot)
    qed
  next
    case lead
    show ?thesis
    proof (cases "ctx < ?n")
      case True
      let ?s1 = "show_context w (take ctx (slice old a b)) s"
      have "take ctx (slice old a b) = slice old a (a + ctx)"
        using True take_slice [of ctx b a old] by simp
      then have s1: "?s1 = s\<lparr>out := out s @ numbered_range CHR '' '' w old (a, a + ctx),
          old_num := Suc (a + ctx), new_num := new_num s + ctx\<rparr>"
        using True show_context_slice [OF num, of "a + ctx" old w] ab by simp
      have "show_equal ctx w next (slice old a b) s = (skip_lines w (?n - ctx) ?s1)\<lparr>last_was_change := False\<rparr>"
        using lead len True by (simp add: show_equal_def Let_def)
      also have "\<dots> = s\<lparr>out := out s @ numbered_range CHR '' '' w old (a, a + ctx) @ [dots w],
          old_num := Suc b, new_num := new_num s + (b - a), last_was_change := False\<rparr>"
        using True unfolding s1 by (simp add: skip_lines_def advance_def)
      finally show ?thesis using True ab
        by (intro exI [of _ "numbered_range CHR '' '' w old (a, a + ctx) @ [dots w]"])
          (simp add: numbered_range_context dot)
    next
      case False
      then show ?thesis using lead num ab len
        by (intro exI [of _ "numbered_range CHR '' '' w old (a, b)"])
          (simp add: show_equal_def Let_def show_context_slice numbered_range_context)
    qed
  next
    case trail
    show ?thesis
    proof (cases "ctx < ?n")
      case True
      let ?s1 = "skip_lines w (?n - ctx) s"
      have "old_num ?s1 = Suc (b - ctx)" using True num by (simp add: skip_lines_def advance_def)
      moreover have "drop (?n - ctx) (slice old a b) = slice old (b - ctx) b"
        using True drop_slice [of "?n - ctx" b a old] by simp
      ultimately have s2: "show_context w (drop (?n - ctx) (slice old a b)) ?s1 =
          ?s1\<lparr>out := out ?s1 @ numbered_range CHR '' '' w old (b - ctx, b), old_num := Suc b,
            new_num := new_num ?s1 + ctx\<rparr>"
        using True show_context_slice [of ?s1 "b - ctx" b old w] ab by simp
      have "show_equal ctx w next (slice old a b) s =
          (show_context w (drop (?n - ctx) (slice old a b)) ?s1)\<lparr>last_was_change := False\<rparr>"
        using trail len True by (simp add: show_equal_def Let_def)
      also have "\<dots> = s\<lparr>out := out s @ dots w # numbered_range CHR '' '' w old (b - ctx, b),
          old_num := Suc b, new_num := new_num s + (b - a), last_was_change := False\<rparr>"
        using True unfolding s2 by (simp add: skip_lines_def advance_def)
      finally show ?thesis using True ab
        by (intro exI [of _ "dots w # numbered_range CHR '' '' w old (b - ctx, b)"])
          (simp add: numbered_range_context dot)
    next
      case False
      then show ?thesis using trail num ab len
        by (intro exI [of _ "numbered_range CHR '' '' w old (a, b)"])
          (simp add: show_equal_def Let_def show_context_slice numbered_range_context)
    qed
  next
    case neither
    with num ab len show ?thesis by (intro exI [of _ "[]"]) (simp add: show_equal_def Let_def advance_def)
  qed
qed


definition removed_lines :: "nat \<Rightarrow> string list \<Rightarrow> diff_op list \<Rightarrow> string list" where
  "removed_lines w old ops =
     concat (map (\<lambda>p. if op_tag p = Delete \<or> op_tag p = Replace
       then numbered_range CHR ''-'' w old (old_range p) else []) ops)"

definition added_lines :: "nat \<Rightarrow> string list \<Rightarrow> diff_op list \<Rightarrow> string list" where
  "added_lines w new ops =
     concat (map (\<lambda>p. if op_tag p = Insert \<or> op_tag p = Replace
       then numbered_range CHR ''+'' w new (new_range p) else []) ops)"

definition first_change :: "diff_op list \<Rightarrow> nat option" where
  "first_change ops = map_option (\<lambda>p. Suc (fst (new_range p))) (find (\<lambda>p. op_tag p \<noteq> Equal) ops)"

abbreviation signed :: "char \<Rightarrow> string list \<Rightarrow> string list" where
  "signed c ls \<equiv> filter (\<lambda>l. hd l = c) ls"

lemma hd_numbered [simp]: "hd (numbered sign w n l) = sign"
  by (simp add: numbered_def)

lemma hd_context_line: "context_line old w l \<Longrightarrow> hd l = CHR '' ''"
  by (auto simp: context_line_def dots_def)

lemma signed_numbered_range [simp]:
  "signed c (numbered_range sign w ls ab) = (if c = sign then numbered_range sign w ls ab else [])"
  by (auto simp: numbered_range_def filter_map o_def)

lemma signed_context:
  "list_all (context_line old w) x \<Longrightarrow> signed c x = (if c = CHR '' '' then x else [])"
  by (induction x) (auto dest: hd_context_line)

lemma get_range_slice: "a \<le> b \<Longrightarrow> b \<le> length xs \<Longrightarrow> get_range xs a b = Some (slice xs a b)"
  by (rule get_range_Some)

lemma show_change_slice:
  assumes num: "old_num s = Suc a" "new_num s = Suc c"
    and old: "a \<le> b" "b \<le> length old" "ends_clean (slice old a b)"
    and new: "c \<le> d" "d \<le> length new"
    and p: "old_range p = (a, b)" "new_range p = (c, d)"
    and tag: "op_tag p \<noteq> Equal" "op_tag p = Insert \<longrightarrow> b = a" "op_tag p = Delete \<longrightarrow> d = c"
    and raw: "op_tag p \<noteq> Delete \<Longrightarrow> raw = slice new c d"
  shows "show_change w old new p raw s =
    Some (s\<lparr>out := out s @ removed_lines w old [p] @ added_lines w new [p], old_num := Suc b, new_num := Suc d,
      last_was_change := True, first_changed := (if first_changed s = None then Some (Suc c) else first_changed s)\<rparr>)"
proof -
  note [simp] = show_change_def removed_lines_def added_lines_def get_range_slice pop_blank_clean number_lines_slice
  show ?thesis
    using assms by (cases "op_tag p") (auto simp: Let_def)
qed

lemma diff_loop_clean:
  assumes "clean_script old new i j ops" "old_num s = Suc i" "new_num s = Suc j"
  shows "\<exists>s' x. diff_loop ctx w old new ops s = Some s' \<and> out s' = out s @ x \<and>
    signed CHR ''-'' x = removed_lines w old ops \<and> signed CHR ''+'' x = added_lines w new ops \<and>
    list_all (context_line old w) (signed CHR '' '' x) \<and>
    first_changed s' = (if first_changed s = None then first_change ops else first_changed s)"
  using assms
proof (induction ops arbitrary: i j s)
  case Nil
  then show ?case
    by (intro exI [of _ s] exI [of _ "[]"]) (simp add: removed_lines_def added_lines_def first_change_def)
next
  case (Cons p ps)
  obtain b d where p: "old_range p = (i, b)" "new_range p = (j, d)"
      and le: "i \<le> b" "b \<le> length old" "j \<le> d" "d \<le> length new"
      and same: "op_tag p = Equal \<longrightarrow> slice old i b = slice new j d \<and> d - j = b - i"
      and tag: "op_tag p = Insert \<longrightarrow> b = i" "op_tag p = Delete \<longrightarrow> d = j"
      and ends: "ends_clean (slice old i b)" "ends_clean (slice new j d)"
      and rest: "clean_script old new b d ps"
    using Cons.prems(1) by (auto split: prod.splits if_splits)
  show ?case
  proof (cases "op_tag p = Equal")
    case True
    obtain x where eq: "show_equal ctx w (ps \<noteq> [] \<and> op_tag (hd ps) \<noteq> Equal) (slice old i b) s =
        s\<lparr>out := out s @ x, old_num := Suc b, new_num := new_num s + (b - i), last_was_change := False\<rparr>"
        (is "_ = ?s1")
        and x: "list_all (context_line old w) x"
      using show_equal_slice [OF Cons.prems(2) le(1,2)] by blast
    have "j + (b - i) = d" using True same le by (metis le_add_diff_inverse)
    then have "new_num ?s1 = Suc d" using Cons.prems(3) by simp
    from Cons.IH [OF rest _ this] obtain s' y where IH: "diff_loop ctx w old new ps ?s1 = Some s'"
        "out s' = out ?s1 @ y" "signed CHR ''-'' y = removed_lines w old ps"
        "signed CHR ''+'' y = added_lines w new ps" "list_all (context_line old w) (signed CHR '' '' y)"
        "first_changed s' = (if first_changed s = None then first_change ps else first_changed s)"
      by auto
    show ?thesis
      by (intro exI [of _ s'] exI [of _ "x @ y"])
        (use True IH p le ends x in \<open>simp add: op_raw_def get_range_slice pop_blank_clean eq signed_context
          removed_lines_def added_lines_def first_change_def\<close>)
  next
    case False
    define raw where "raw = pop_blank (if op_tag p = Delete then slice old i b else slice new j d)"
    have loop: "op_raw old new p = Some (if op_tag p = Delete then slice old i b else slice new j d)"
      using False p le by (simp add: op_raw_def get_range_slice)
    let ?s1 = "s\<lparr>out := out s @ removed_lines w old [p] @ added_lines w new [p], old_num := Suc b,
      new_num := Suc d, last_was_change := True,
      first_changed := (if first_changed s = None then Some (Suc j) else first_changed s)\<rparr>"
    have change: "show_change w old new p raw s = Some ?s1"
      using Cons.prems(2,3) le(1,2) ends(1) le(3,4) p False tag
      by (rule show_change_slice) (simp add: raw_def pop_blank_clean ends)
    obtain s' y where IH: "diff_loop ctx w old new ps ?s1 = Some s'"
        "out s' = out ?s1 @ y" "signed CHR ''-'' y = removed_lines w old ps"
        "signed CHR ''+'' y = added_lines w new ps" "list_all (context_line old w) (signed CHR '' '' y)"
        "first_changed s' = (if first_changed s = None then Some (Suc j) else first_changed s)"
      using Cons.IH [OF rest, of ?s1] by (auto split: if_splits)
    have split: "removed_lines w old (p # ps) = removed_lines w old [p] @ removed_lines w old ps"
      "added_lines w new (p # ps) = added_lines w new [p] @ added_lines w new ps"
      "first_change (p # ps) = Some (Suc j)"
      using False p by (simp_all add: removed_lines_def added_lines_def first_change_def)
    have signs: "signed CHR ''-'' (removed_lines w old [p]) = removed_lines w old [p]"
      "signed CHR ''+'' (removed_lines w old [p]) = []" "signed CHR '' '' (removed_lines w old [p]) = []"
      "signed CHR ''-'' (added_lines w new [p]) = []"
      "signed CHR ''+'' (added_lines w new [p]) = added_lines w new [p]"
      "signed CHR '' '' (added_lines w new [p]) = []"
      by (simp_all add: removed_lines_def added_lines_def)
    show ?thesis
      by (intro exI [of _ s'] exI [of _ "removed_lines w old [p] @ added_lines w new [p] @ y"])
        (use False IH change in \<open>simp add: loop raw_def [symmetric] split signs\<close>)
  qed
qed

text \<open>
  C34. Where no operation of the line diff ends in a blank line, the display diff never fails; its \<open>-\<close>
  lines are exactly the old lines that the diff deletes or replaces, in order and under their own line
  numbers, its \<open>+\<close> lines the new lines it inserts or puts in their place, every other line is a line of
  the old file under its own number or the mark for lines left out, and the first changed line it
  reports is the new line at which the first change starts.
\<close>

theorem display_diff_lines:
  assumes "clean_script (lines_of old) (lines_of new) 0 0 ops"
  shows "\<exists>s. diff_lines ops old new ctx = Some s \<and>
    signed CHR ''-'' (out s) = removed_lines (line_num_width (lines_of old) (lines_of new)) (lines_of old) ops \<and>
    signed CHR ''+'' (out s) = added_lines (line_num_width (lines_of old) (lines_of new)) (lines_of new) ops \<and>
    list_all (context_line (lines_of old) (line_num_width (lines_of old) (lines_of new))) (signed CHR '' '' (out s)) \<and>
    first_changed s = first_change ops"
  using diff_loop_clean [OF assms, of "\<lparr>out = [], old_num = 1, new_num = 1, last_was_change = False,
    first_changed = None\<rparr>" ctx "line_num_width (lines_of old) (lines_of new)"]
  by (auto simp: diff_lines_def Let_def)

theorem display_diff_lines_witness:
  "\<exists>s. diff_lines
      [\<lparr>op_tag = Equal, old_range = (0, 1), new_range = (0, 1)\<rparr>,
       \<lparr>op_tag = Replace, old_range = (1, 2), new_range = (1, 2)\<rparr>,
       \<lparr>op_tag = Equal, old_range = (2, 3), new_range = (2, 3)\<rparr>,
       \<lparr>op_tag = Insert, old_range = (3, 3), new_range = (3, 4)\<rparr>]
      (''a'' @ [NL] @ ''b'' @ [NL] @ ''c'') (''a'' @ [NL] @ ''x'' @ [NL] @ ''c'' @ [NL] @ ''d'') 4 = Some s \<and>
    signed CHR ''-'' (out s) = [''-2 b''] \<and> signed CHR ''+'' (out s) = [''+2 x'', ''+4 d''] \<and>
    first_changed s = Some 2"
proof -
  let ?ops = "[\<lparr>op_tag = Equal, old_range = (0, 1), new_range = (0, 1)\<rparr>,
    \<lparr>op_tag = Replace, old_range = (1, 2), new_range = (1, 2)\<rparr>,
    \<lparr>op_tag = Equal, old_range = (2, 3), new_range = (2, 3)\<rparr>,
    \<lparr>op_tag = Insert, old_range = (3, 3), new_range = (3, 4)\<rparr>] :: diff_op list"
  let ?old = "''a'' @ [NL] @ ''b'' @ [NL] @ ''c''"
  let ?new = "''a'' @ [NL] @ ''x'' @ [NL] @ ''c'' @ [NL] @ ''d''"
  have "clean_script (lines_of ?old) (lines_of ?new) 0 0 ?ops" by code_simp
  from display_diff_lines [OF this, of 4]
  show ?thesis
  proof (rule ex_forward)
    have "removed_lines (line_num_width (lines_of ?old) (lines_of ?new)) (lines_of ?old) ?ops = [''-2 b'']"
      "added_lines (line_num_width (lines_of ?old) (lines_of ?new)) (lines_of ?new) ?ops = [''+2 x'', ''+4 d'']"
      "first_change ?ops = Some 2" by code_simp+
    then show "diff_lines ?ops ?old ?new 4 = Some s \<and> signed CHR ''-'' (out s) = [''-2 b''] \<and>
        signed CHR ''+'' (out s) = [''+2 x'', ''+4 d''] \<and> first_changed s = Some 2"
      if "diff_lines ?ops ?old ?new 4 = Some s \<and>
        signed CHR ''-'' (out s) = removed_lines (line_num_width (lines_of ?old) (lines_of ?new)) (lines_of ?old) ?ops \<and>
        signed CHR ''+'' (out s) = added_lines (line_num_width (lines_of ?old) (lines_of ?new)) (lines_of ?new) ?ops \<and>
        list_all (context_line (lines_of ?old) (line_num_width (lines_of ?old) (lines_of ?new))) (signed CHR '' '' (out s)) \<and>
        first_changed s = first_change ?ops" for s
      using that by metis
  qed
qed

end
