(* ===== verification/Unix_Path.thy ===== *)
theory Unix_Path
  imports Text_Search
begin

text \<open>
  Paths of Rust on Unix, as byte strings: \<open>is_absolute\<close>, \<open>join\<close>, \<open>components\<close>, \<open>file_name\<close>,
  \<open>starts_with\<close> and \<open>strip_prefix\<close>. Two paths are equal for Rust when their components are.
\<close>

definition is_absolute :: "string \<Rightarrow> bool" where
  "is_absolute path \<longleftrightarrow> starts_with ''/'' path"

definition join_path :: "string \<Rightarrow> string \<Rightarrow> string" where
  "join_path dir path =
     (if is_absolute path then path
      else if dir = [] \<or> last dir = CHR ''/'' then dir @ path
      else dir @ ''/'' @ path)"

text \<open>
  The components: a slash for the root, then the names between slashes. Empty names are dropped, and so
  is a dot unless a relative path starts with it.
\<close>

abbreviation slash :: char where "slash \<equiv> CHR ''/''"

definition names :: "string \<Rightarrow> string list" where
  "names p = filter (\<lambda>c. c \<noteq> [] \<and> c \<noteq> ''.'') (split_char slash p)"

definition components :: "string \<Rightarrow> string list" where
  "components p =
     (if is_absolute p then [''/'']
      else if hd (split_char slash p) = ''.'' then [''.''] else []) @ names p"

text \<open>A component that is a name, \<open>Component::Normal\<close>.\<close>

definition normal :: "string \<Rightarrow> bool" where
  "normal c \<longleftrightarrow> c \<noteq> ''/'' \<and> c \<noteq> ''.'' \<and> c \<noteq> ''..''"

definition path_eq :: "string \<Rightarrow> string \<Rightarrow> bool" where
  "path_eq p q \<longleftrightarrow> components p = components q"

definition name_of :: "string \<Rightarrow> string option" where
  "name_of p = (let cs = components p in if cs \<noteq> [] \<and> normal (last cs) then Some (last cs) else None)"

text \<open>\<open>parent\<close>; the path that is left is written with single slashes.\<close>

definition path_of :: "string list \<Rightarrow> string" where
  "path_of cs = (case cs of
     [] \<Rightarrow> []
   | c # rest \<Rightarrow> if c = ''/'' then ''/'' @ join ''/'' rest else join ''/'' cs)"

definition parent_of_path :: "string \<Rightarrow> string option" where
  "parent_of_path p = (let cs = components p in
     if cs = [] \<or> last cs = ''/'' then None else Some (path_of (butlast cs)))"

definition under :: "string \<Rightarrow> string \<Rightarrow> bool" where
  "under base p \<longleftrightarrow> take (length (components base)) (components p) = components base"

definition relative_to :: "string \<Rightarrow> string \<Rightarrow> string option" where
  "relative_to base p =
     (if under base p then Some (path_of (drop (length (components base)) (components p))) else None)"

section \<open>Facts about components\<close>

lemma is_absolute_append [simp]: "p \<noteq> [] \<Longrightarrow> is_absolute (p @ q) = is_absolute p"
  by (cases p) (auto simp: is_absolute_def)

lemma is_absolute_Cons [simp]: "is_absolute (c # p) \<longleftrightarrow> c = slash"
  by (auto simp: is_absolute_def)

lemma is_absolute_Nil [simp]: "\<not> is_absolute []"
  by (simp add: is_absolute_def)

lemma split_no_slash: "c \<in> set (split_char d p) \<Longrightarrow> d \<notin> set c"
  by (induction p arbitrary: c) (auto split: if_splits list.splits)

lemma names_no_slash: "c \<in> set (names p) \<Longrightarrow> slash \<notin> set c"
  by (auto simp: names_def dest: split_no_slash)

lemma names_append_slash: "names (p @ slash # q) = names p @ names q"
  by (simp add: names_def split_char_append)

lemma names_name: "slash \<notin> set n \<Longrightarrow> n \<noteq> [] \<Longrightarrow> n \<noteq> ''.'' \<Longrightarrow> names n = [n]"
  by (simp add: names_def split_char_none)

lemma hd_split_append: "p \<noteq> [] \<Longrightarrow> hd (split_char slash (p @ slash # q)) = hd (split_char slash p)"
  by (simp add: split_char_append hd_append)

lemma names_trailing_slash: "p \<noteq> [] \<Longrightarrow> last p = slash \<Longrightarrow> names (p @ q) = names p @ names q"
proof -
  assume "p \<noteq> []" "last p = slash"
  then obtain r where "p = r @ [slash]" by (metis append_butlast_last_id)
  then show ?thesis using names_append_slash [of r q] names_append_slash [of r "[]"]
    by (simp add: names_def)
qed

lemma components_join:
  assumes "dir \<noteq> []" and "\<not> is_absolute rel"
  shows "components (join_path dir rel) = components dir @ names rel"
proof (cases "last dir = slash")
  case True
  from assms(1) True obtain r where r: "dir = r @ [slash]" by (metis append_butlast_last_id)
  have "hd (split_char slash (dir @ rel)) = hd (split_char slash dir)"
    by (simp add: r split_char_append hd_append)
  with True assms show ?thesis
    by (simp add: join_path_def components_def names_trailing_slash)
next
  case False
  with assms show ?thesis
    by (simp add: join_path_def components_def names_append_slash hd_split_append)
qed

lemma components_join_name:
  "dir \<noteq> [] \<Longrightarrow> slash \<notin> set n \<Longrightarrow> n \<noteq> [] \<Longrightarrow> n \<noteq> ''.'' \<Longrightarrow>
   components (join_path dir n) = components dir @ [n]"
  by (subst components_join) (auto simp: names_name is_absolute_def starts_with_def neq_Nil_conv)

lemma join_path_not_Nil [simp]: "join_path dir n = [] \<longleftrightarrow> dir = [] \<and> n = []"
  by (auto simp: join_path_def)

lemma under_refl [simp]: "under p p"
  by (simp add: under_def)

lemma under_join: "dir \<noteq> [] \<Longrightarrow> \<not> is_absolute rel \<Longrightarrow> under dir (join_path dir rel)"
  by (simp add: under_def components_join)

lemma join_slash_split:
  "\<forall>c \<in> set cs. slash \<notin> set c \<Longrightarrow> cs \<noteq> [] \<Longrightarrow> split_char slash (join ''/'' cs) = cs"
  by (induction "''/''" cs rule: join.induct) (auto simp: split_char_none split_char_append)

lemma names_path_of:
  assumes "\<forall>c \<in> set cs. slash \<notin> set c \<and> c \<noteq> [] \<and> c \<noteq> ''.''"
  shows "names (path_of cs) = cs"
proof (cases cs)
  case (Cons c rest)
  with assms have "c \<noteq> ''/''" by auto
  with Cons assms have "path_of cs = join ''/'' cs" by (simp add: path_of_def)
  moreover have "split_char slash (join ''/'' cs) = cs" using assms Cons by (intro join_slash_split) auto
  ultimately show ?thesis using assms by (simp add: names_def filter_id_conv)
qed (simp add: path_of_def names_def)

end
