(* ===== verification/Edit_Tool.thy ===== *)
theory Edit_Tool
  imports Edit_Display Edit_Apply Json Unix_Path
begin

text \<open>
  The \<open>edit\<close> tool itself, \<open>rpi-edit-diagnostics/src/lib.rs\<close>: its arguments with the shapes older
  callers send, the resolution of the path, the lock of a target, the write with its check that the
  file is still what was read, and the call that composes them. The files are a map from canonical
  paths to bytes and mode; what the operating system decides (which error a call returns, what
  \<open>canonicalize\<close> finds, what other programs write meanwhile) is the record \<open>host\<close>.
\<close>

section \<open>Arguments\<close>

record edit_input =
  input_path :: string
  input_edits :: "edit_request list"

definition invalid_input :: "string \<Rightarrow> string" where
  "invalid_input why = ''Edit tool input is invalid. '' @ why"

definition is_edit_object :: "json \<Rightarrow> bool" where
  "is_edit_object v \<longleftrightarrow> get_str ''oldText'' v \<noteq> None \<and> get_str ''newText'' v \<noteq> None"

text \<open>\<open>edit_items\<close>: an array, an array or an object written as a JSON string, or a single object; the
  two texts may also stand beside \<open>path\<close>.\<close>

definition edits_of :: "(string \<Rightarrow> json option) \<Rightarrow> json option \<Rightarrow> json list option" where
  "edits_of from_str v = (case v of
     None \<Rightarrow> Some []
   | Some (JArr items) \<Rightarrow> Some items
   | Some (JStr t) \<Rightarrow> (case from_str t of
       None \<Rightarrow> None
     | Some (JArr items) \<Rightarrow> Some items
     | Some single \<Rightarrow> if is_edit_object single then Some [single] else None)
   | Some single \<Rightarrow> if is_edit_object single then Some [single] else None)"

definition legacy_edit :: "json \<Rightarrow> json list" where
  "legacy_edit v = (case (get_str ''oldText'' v, get_str ''newText'' v) of
     (Some old, Some new) \<Rightarrow>
       [JObj ([(''oldText'', JStr old), (''newText'', JStr new)] @
          (case get_bool ''replaceAll'' v of None \<Rightarrow> [] | Some flag \<Rightarrow> [(''replaceAll'', JBool flag)]))]
   | _ \<Rightarrow> [])"

definition edit_items :: "(string \<Rightarrow> json option) \<Rightarrow> json \<Rightarrow> json list option" where
  "edit_items from_str v = do {
     items \<leftarrow> edits_of from_str (jget ''edits'' v);
     Some (items @ legacy_edit v)
   }"

fun parse_edits :: "nat \<Rightarrow> json list \<Rightarrow> string + edit_request list" where
  "parse_edits i [] = Inr []"
| "parse_edits i (v # vs) = (case (get_str ''oldText'' v, get_str ''newText'' v) of
     (Some old, Some new) \<Rightarrow> (case parse_edits (Suc i) vs of
         Inl e \<Rightarrow> Inl e
       | Inr es \<Rightarrow> Inr (\<lparr>old_text = old, new_text = new,
           replace_all = (case get_bool ''replaceAll'' v of None \<Rightarrow> False | Some b \<Rightarrow> b)\<rparr> # es))
   | _ \<Rightarrow> Inl (invalid_input (''edits['' @ show_nat i @ ''] must provide string oldText and newText.'')))"

definition parse_input :: "(string \<Rightarrow> json option) \<Rightarrow> json \<Rightarrow> string + edit_input" where
  "parse_input from_str params =
    (if as_object params = None
     then Inl (invalid_input ''Provide an object with a string path and an edits array.'')
     else case get_str ''path'' params of
       None \<Rightarrow> Inl (invalid_input ''path must be a non-empty string.'')
     | Some path \<Rightarrow>
         if path = [] then Inl (invalid_input ''path must be a non-empty string.'')
         else case edit_items from_str params of
           None \<Rightarrow> Inl (invalid_input ''edits must be an array of { oldText, newText } objects.'')
         | Some items \<Rightarrow>
             if items = [] then
               Inl (invalid_input (if jget ''edits'' params \<noteq> None
                 then ''edits must contain at least one replacement.''
                 else ''edits must be an array of { oldText, newText } objects.''))
             else case parse_edits 0 items of
               Inl e \<Rightarrow> Inl e
             | Inr es \<Rightarrow> Inr \<lparr>input_path = path, input_edits = es\<rparr>)"

definition host_cwd :: "json \<Rightarrow> string option" where
  "host_cwd params = do {
     ctx \<leftarrow> jget ''__rpi'' params;
     cwd \<leftarrow> jget ''cwd'' ctx;
     s \<leftarrow> as_str cwd;
     (if s = [] then None else Some s)
   }"

section \<open>Paths\<close>

definition resolve_path :: "string option \<Rightarrow> string option \<Rightarrow> string \<Rightarrow> string" where
  "resolve_path current_dir cwd path =
     (if is_absolute path then path
      else case cwd of
        Some dir \<Rightarrow> join_path dir path
      | None \<Rightarrow> (case current_dir of Some dir \<Rightarrow> join_path dir path | None \<Rightarrow> path))"

text \<open>\<open>parent\<close> and \<open>file_name\<close> of a canonical path, which is absolute and does not end in a slash
  unless it is the root.\<close>

definition file_name :: "string \<Rightarrow> string" where
  "file_name path = rev (takeWhile (\<lambda>c. c \<noteq> CHR ''/'') (rev path))"

definition parent_dir :: "string \<Rightarrow> string" where
  "parent_dir path =
     (let dir = rev (tl (dropWhile (\<lambda>c. c \<noteq> CHR ''/'') (rev path)))
      in if dir = [] then ''/'' else dir)"

section \<open>Files\<close>

record stored =
  bytes :: string
  mode :: nat

type_synonym files = "string \<Rightarrow> stored option"

record host =
  current_dir :: "string option"
  canonicalize :: "string \<Rightarrow> string + string"
  read_fault :: "string option"
  others :: "files \<Rightarrow> files"
  nlink :: "string \<Rightarrow> nat option"
  random :: "nat \<Rightarrow> string + 128 word"
  create_fault :: "string \<Rightarrow> string option"
  new_mode :: nat
  stage_fault :: "string option"
  chmod_fault :: bool
  snapshot_fault :: "string option"
  commit_fault :: "string option"
  torn :: "string \<Rightarrow> string"
  remove_fault :: bool

definition read_bytes :: "string option \<Rightarrow> string \<Rightarrow> files \<Rightarrow> string + string" where
  "read_bytes fault path fs = (case fault of
     Some e \<Rightarrow> Inl e
   | None \<Rightarrow> (case fs path of
       None \<Rightarrow> Inl ''No such file or directory (os error 2)''
     | Some f \<Rightarrow> Inr (bytes f)))"

definition read_to_string :: "string option \<Rightarrow> string \<Rightarrow> files \<Rightarrow> string + string" where
  "read_to_string fault path fs = (case read_bytes fault path fs of
     Inl e \<Rightarrow> Inl e
   | Inr s \<Rightarrow> if utf8 s then Inr s else Inl ''stream did not contain valid UTF-8'')"

definition write_error :: "string \<Rightarrow> string \<Rightarrow> apply_failure" where
  "write_error path e = \<lparr>code = Invalid, message = ''Could not write file: '' @ path @ ''. '' @ e\<rparr>"

definition check_snapshot :: "host \<Rightarrow> string \<Rightarrow> string \<Rightarrow> files \<Rightarrow> apply_failure option" where
  "check_snapshot h path expected fs = (case read_bytes (snapshot_fault h) path fs of
     Inl e \<Rightarrow> Some (write_error path e)
   | Inr current \<Rightarrow>
       if current \<noteq> expected
       then Some \<lparr>code = Invalid, message = ''error: file changed after it was read: '' @ path @
              ''; read it again, then retry edit''\<rparr>
       else None)"

definition has_other_hard_links :: "host \<Rightarrow> string \<Rightarrow> bool" where
  "has_other_hard_links h path = (case nlink h path of None \<Rightarrow> False | Some n \<Rightarrow> 1 < n)"

definition hex_digit :: "nat \<Rightarrow> char" where
  "hex_digit n = ''0123456789abcdef'' ! n"

text \<open>\<open>{:032x}\<close>\<close>

definition hex128 :: "128 word \<Rightarrow> string" where
  "hex128 w = map (\<lambda>k. hex_digit (unat (take_bit 4 (drop_bit (4 * (31 - k)) w)))) [0..<32]"

definition temp_name :: "string \<Rightarrow> 128 word \<Rightarrow> string" where
  "temp_name name w = ''.'' @ name @ ''.rpi-edit-'' @ hex128 w @ ''.tmp''"

text \<open>\<open>create_staging_file\<close>: the first attempt whose name is free, of \<open>left\<close> attempts from \<open>k\<close> on.\<close>

fun create_staging_file :: "host \<Rightarrow> string \<Rightarrow> string \<Rightarrow> nat \<Rightarrow> nat \<Rightarrow> files \<Rightarrow> string + string" where
  "create_staging_file h dir name k 0 fs =
     Inl ''could not create an exclusive edit staging file after 128 attempts''"
| "create_staging_file h dir name k (Suc left) fs = (case random h k of
     Inl e \<Rightarrow> Inl (''staging filename randomness: '' @ e)
   | Inr w \<Rightarrow> (let path = join_path dir (temp_name name w) in
       if fs path \<noteq> None then create_staging_file h dir name (Suc k) left fs
       else case create_fault h path of Some e \<Rightarrow> Inl e | None \<Rightarrow> Inr path))"

text \<open>The mode of the target is kept; an error of \<open>set_permissions\<close> is ignored.\<close>

definition staged :: "host \<Rightarrow> string \<Rightarrow> string \<Rightarrow> files \<Rightarrow> stored" where
  "staged h path content fs = \<lparr>bytes = content,
     mode = (case fs path of Some f \<Rightarrow> if chmod_fault h then new_mode h else mode f | None \<Rightarrow> new_mode h)\<rparr>"

definition write_atomically ::
  "host \<Rightarrow> string \<Rightarrow> string \<Rightarrow> string \<Rightarrow> files \<Rightarrow> apply_failure option \<times> files" where
  "write_atomically h path content expected fs =
     (case create_staging_file h (parent_dir path) (file_name path) 0 128 fs of
        Inl e \<Rightarrow> (Some (write_error path e), fs)
      | Inr temp \<Rightarrow>
          (let remove = (\<lambda>fs'. if remove_fault h then fs' else fs'(temp := None)) in
           case stage_fault h of
             Some e \<Rightarrow> (Some (write_error path e),
               remove (fs(temp \<mapsto> \<lparr>bytes = torn h content, mode = new_mode h\<rparr>)))
           | None \<Rightarrow>
               (let fs1 = fs(temp \<mapsto> staged h path content fs) in
                case check_snapshot h path expected fs1 of
                  Some f \<Rightarrow> (Some f, remove fs1)
                | None \<Rightarrow> (case commit_fault h of
                    Some e \<Rightarrow> (Some (write_error path e), remove fs1)
                  | None \<Rightarrow> (None, (fs1(path := fs1 temp))(temp := None))))))"

definition write_file ::
  "host \<Rightarrow> string \<Rightarrow> string \<Rightarrow> string \<Rightarrow> files \<Rightarrow> apply_failure option \<times> files" where
  "write_file h path content expected fs =
     (if has_other_hard_links h path then
        (case check_snapshot h path expected fs of
           Some f \<Rightarrow> (Some f, fs)
         | None \<Rightarrow>
             (let put = (\<lambda>s. fs(path := map_option (\<lambda>f. f\<lparr>bytes := s\<rparr>) (fs path))) in
              case commit_fault h of
                Some e \<Rightarrow> (Some (write_error path e), put (torn h content))
              | None \<Rightarrow> (None, put content)))
      else write_atomically h path content expected fs)"

section \<open>One call\<close>

text \<open>What other crates decide: \<open>serde_json::from_str\<close>, Unicode's \<open>NFKC\<close>, the two diffs and the patch.\<close>

record crates =
  from_str :: "string \<Rightarrow> json option"
  nfkc_of :: "string \<Rightarrow> string"
  changes_of :: "string \<Rightarrow> string \<Rightarrow> change list"
  ops_of :: "string \<Rightarrow> string \<Rightarrow> diff_op list"
  patch_of :: "string \<Rightarrow> string \<Rightarrow> string \<Rightarrow> string"

definition success_text :: "applied_edits \<Rightarrow> string \<Rightarrow> string" where
  "success_text a path =
     ''Successfully replaced '' @ show_nat (replacements a) @ '' block(s) in '' @ path @ ''.'' @
     concat (map (\<lambda>l. NL # l) (applied_notes a @ warnings a))"

definition success_reply :: "crates \<Rightarrow> applied_edits \<Rightarrow> string \<Rightarrow> json option" where
  "success_reply lib a path = do {
     d \<leftarrow> generate_diff_string (ops_of lib (base_content a) (new_content a)) (base_content a) (new_content a) 4;
     Some (JObj
       [(''content'', JArr [JObj [(''type'', JStr ''text''), (''text'', JStr (success_text a path))]]),
        (''details'', JObj
          [(''diff'', JStr (diff d)),
           (''patch'', JStr (patch_of lib path (base_content a) (new_content a))),
           (''first_changed_line'', case first_changed_line d of None \<Rightarrow> JNull | Some n \<Rightarrow> JUint (word_of_nat n))])])
   }"

definition read_error :: "string \<Rightarrow> string \<Rightarrow> string" where
  "read_error path e = ''Could not read file: '' @ path @ ''. '' @ e"

definition written_bytes :: "string \<Rightarrow> string \<Rightarrow> string" where
  "written_bytes raw new = (let stripped = strip_bom raw in
     bom stripped @ restore_line_endings new (detect_line_ending (bom_text stripped)))"

text \<open>
  \<open>run_tool\<close>: the answer and the files after the call. The call holds the lock of its target from the
  read to the write, so that no other call of the tool comes between; other programs' writes are
  \<open>others\<close>. \<open>None\<close> is a panic.
\<close>

definition run_tool :: "crates \<Rightarrow> host \<Rightarrow> json \<Rightarrow> files \<Rightarrow> ((string + json) \<times> files) option" where
  "run_tool lib h params fs = (case parse_input (from_str lib) params of
     Inl e \<Rightarrow> Some (Inl e, others h fs)
   | Inr input \<Rightarrow>
       let path = input_path input in
       case canonicalize h (resolve_path (current_dir h) (host_cwd params) path) of
         Inl e \<Rightarrow> Some (Inl (read_error path e), others h fs)
       | Inr target \<Rightarrow> (case read_to_string (read_fault h) target fs of
           Inl e \<Rightarrow> Some (Inl (read_error path e), others h fs)
         | Inr raw \<Rightarrow> do {
             applied \<leftarrow> apply_edits (nfkc_of lib) (changes_of lib) (normalize_to_lf (bom_text (strip_bom raw)))
                          (input_edits input) path;
             case applied of
               Inl f \<Rightarrow> Some (Inl (message f), others h fs)
             | Inr a \<Rightarrow> (case write_file h target (written_bytes raw (new_content a)) raw (others h fs) of
                 (Some f, fs') \<Rightarrow> Some (Inl (message f), fs')
               | (None, fs') \<Rightarrow> do { reply \<leftarrow> success_reply lib a path; Some (Inr reply, fs') })
           }))"

section \<open>The handle of a call\<close>

text \<open>\<open>execute\<close> keeps the parsed arguments; \<open>poll\<close> runs the call, once. The handle table is the host SDK's;
  \<open>entry\<close> is what it holds for a handle that is not null.\<close>

record drive =
  drive_params :: json
  drive_done :: bool
  cancelled :: bool

definition execute :: "(string \<Rightarrow> json option) \<Rightarrow> string \<Rightarrow> drive" where
  "execute decode arguments =
     \<lparr>drive_params = (case decode arguments of None \<Rightarrow> JNull | Some v \<Rightarrow> v), drive_done = False, cancelled = False\<rparr>"

definition poll ::
  "crates \<Rightarrow> host \<Rightarrow> bool \<Rightarrow> drive option \<Rightarrow> files \<Rightarrow> ((string + json) \<times> drive option \<times> files) option" where
  "poll lib h null entry fs =
    (if null then Some (Inl ''null edit handle'', entry, fs)
     else case entry of
       None \<Rightarrow> Some (Inl ''invalid or destroyed tool handle'', entry, fs)
     | Some d \<Rightarrow>
         if cancelled d then Some (Inl ''edit cancelled'', entry, fs)
         else if drive_done d then Some (Inl ''edit polled after completion'', entry, fs)
         else do {
           (r, fs') \<leftarrow> run_tool lib h (drive_params d) fs;
           Some (r, Some (d\<lparr>drive_done := True\<rparr>), fs')
         })"

lemma poll_runs_once:
  "poll lib h False (Some d) fs = Some (r, Some d', fs') \<Longrightarrow> drive_done d' \<Longrightarrow>
   \<exists>e. poll lib h False (Some d') fs' = Some (Inl e, Some d', fs')"
  by (auto simp: poll_def)

section \<open>The lock of a target\<close>

text \<open>
  \<open>target_lock\<close>: a table from canonical targets to weak references. A lock has a number, \<open>strong\<close> counts
  the calls that own it, and a weak reference whose count is zero is dropped before the lookup.
\<close>

record lock_table =
  locks :: "string \<Rightarrow> nat option"
  strong :: "nat \<Rightarrow> nat"
  fresh :: nat

definition no_locks :: lock_table where
  "no_locks = \<lparr>locks = (\<lambda>_. None), strong = (\<lambda>_. 0), fresh = 0\<rparr>"

definition live_locks :: "lock_table \<Rightarrow> string \<Rightarrow> nat option" where
  "live_locks t p = (case locks t p of
     None \<Rightarrow> None
   | Some i \<Rightarrow> if 0 < strong t i then Some i else None)"

definition target_lock :: "string \<Rightarrow> lock_table \<Rightarrow> nat \<times> lock_table" where
  "target_lock target t = (case live_locks t target of
     Some i \<Rightarrow> (i, t\<lparr>locks := live_locks t, strong := (strong t)(i := Suc (strong t i))\<rparr>)
   | None \<Rightarrow> (fresh t, \<lparr>locks = (live_locks t)(target \<mapsto> fresh t),
       strong = (strong t)(fresh t := 1), fresh = Suc (fresh t)\<rparr>))"

definition drop_lock :: "nat \<Rightarrow> lock_table \<Rightarrow> lock_table" where
  "drop_lock i t = t\<lparr>strong := (strong t)(i := strong t i - 1)\<rparr>"

text \<open>Calls come and go; \<open>held\<close> is the list of the calls that own a lock.\<close>

inductive lock_run :: "lock_table \<Rightarrow> (string \<times> nat) list \<Rightarrow> bool" where
  start: "lock_run no_locks []"
| enter: "lock_run t held \<Longrightarrow> target_lock target t = (i, t') \<Longrightarrow> lock_run t' ((target, i) # held)"
| leave: "lock_run t held \<Longrightarrow> (target, i) \<in> set held \<Longrightarrow> lock_run (drop_lock i t) (remove1 (target, i) held)"

definition lock_inv :: "lock_table \<Rightarrow> (string \<times> nat) list \<Rightarrow> bool" where
  "lock_inv t held \<longleftrightarrow>
     (\<forall>i. strong t i = count_list (map snd held) i) \<and>
     (\<forall>(p, i) \<in> set held. locks t p = Some i) \<and>
     (\<forall>p i. locks t p = Some i \<longrightarrow> i < fresh t) \<and>
     (\<forall>p q i. locks t p = Some i \<longrightarrow> locks t q = Some i \<longrightarrow> p = q)"

lemma live_locks_Some: "live_locks t p = Some i \<longleftrightarrow> locks t p = Some i \<and> 0 < strong t i"
  by (auto simp: live_locks_def split: option.splits)

lemma count_remove1: "x \<in> set xs \<Longrightarrow> count_list (map f (remove1 x xs)) i = count_list (map f xs) i - (if f x = i then 1 else 0)"
proof (induction xs)
  case (Cons a xs)
  have "count_list (map f xs) (f x) > 0" if "x \<in> set xs"
  proof -
    have "f x \<in> set (map f xs)" using that by simp
    then show ?thesis by (metis count_list_0_iff neq0_conv)
  qed
  with Cons show ?case by (auto simp: Suc_diff_le)
qed simp

lemma held_is_live:
  assumes "lock_inv t held" "(p, i) \<in> set held"
  shows "live_locks t p = Some i"
proof -
  have "i \<in> set (map snd held)" using assms(2) by force
  then have "0 < count_list (map snd held) i" by (metis count_list_0_iff neq0_conv)
  with assms show ?thesis unfolding live_locks_Some lock_inv_def by fastforce
qed

lemma lock_run_inv: "lock_run t held \<Longrightarrow> lock_inv t held"
proof (induction rule: lock_run.induct)
  case start
  then show ?case by (simp add: lock_inv_def no_locks_def)
next
  case (enter t held target i t')
  have inv: "strong t j = count_list (map snd held) j" "locks t p = Some j \<Longrightarrow> j < fresh t"
    "locks t p = Some j \<Longrightarrow> locks t q = Some j \<Longrightarrow> p = q" for j p q
    using enter(3) by (auto simp: lock_inv_def)
  have live: "live_locks t p = Some j" if "(p, j) \<in> set held" for p j
    using held_is_live [OF enter(3) that] .
  show ?case
  proof (cases "live_locks t target")
    case None
    have i: "i = fresh t" and t': "t' = \<lparr>locks = (live_locks t)(target \<mapsto> fresh t),
        strong = (strong t)(fresh t := 1), fresh = Suc (fresh t)\<rparr>"
      using enter(2) None by (auto simp: target_lock_def)
    have "fresh t \<notin> set (map snd held)"
    proof
      assume "fresh t \<in> set (map snd held)"
      then obtain p where "live_locks t p = Some (fresh t)" using live by fastforce
      then show False using inv(2) live_locks_Some by blast
    qed
    then have "strong t (fresh t) = 0" using inv(1) by (simp add: count_list_0_iff)
    have "\<forall>(p, j) \<in> set ((target, i) # held). locks t' p = Some j"
      using live None by (auto simp: i t')
    moreover have "\<forall>p j. locks t' p = Some j \<longrightarrow> j < fresh t'"
      using inv(2) by (auto simp: t' live_locks_Some less_Suc_eq)
    moreover have "\<forall>p q j. locks t' p = Some j \<longrightarrow> locks t' q = Some j \<longrightarrow> p = q"
      using inv(2,3) by (auto simp: t' live_locks_Some)
    moreover have "strong t' j = count_list (map snd ((target, i) # held)) j" for j
      using inv(1) \<open>strong t (fresh t) = 0\<close> by (auto simp: i t')
    ultimately show ?thesis by (simp add: lock_inv_def)
  next
    case (Some j)
    have i: "i = j" and t': "t' = t\<lparr>locks := live_locks t, strong := (strong t)(j := Suc (strong t j))\<rparr>"
      using enter(2) Some by (auto simp: target_lock_def)
    from inv live Some show ?thesis
      unfolding lock_inv_def i t' by (auto simp: live_locks_Some)
  qed
next
  case (leave t held target i)
  then have "strong t j = count_list (map snd held) j" for j by (simp add: lock_inv_def)
  with leave show ?case
    by (auto simp: lock_inv_def drop_lock_def count_remove1 dest: notin_set_remove1)
qed

text \<open>In every run of calls that take a lock and let it go, two calls that run at the
  same time own the same lock exactly when they edit the same target.\<close>

lemma target_lock_serializes:
  assumes "lock_run t held" and "(p, i) \<in> set held" and "(q, j) \<in> set held"
  shows "i = j \<longleftrightarrow> p = q"
proof -
  have "lock_inv t held" by (rule lock_run_inv [OF assms(1)])
  moreover from this assms have "locks t p = Some i" "locks t q = Some j" by (auto simp: lock_inv_def)
  ultimately show ?thesis unfolding lock_inv_def by (metis option.inject)
qed

lemma target_lock_example:
  "\<exists>t. lock_run t [(''/a'', 0), (''/b'', 1), (''/a'', 0)] \<and> (''/a'' = ''/a'' \<longleftrightarrow> (0::nat) = 0) \<and> (0 = (1::nat) \<longleftrightarrow> ''/a'' = ''/b'')"
proof -
  define t1 where "t1 = snd (target_lock ''/a'' no_locks)"
  define t2 where "t2 = snd (target_lock ''/b'' t1)"
  define t3 where "t3 = snd (target_lock ''/a'' t2)"
  have "target_lock ''/a'' no_locks = (0, t1)" "target_lock ''/b'' t1 = (1, t2)" "target_lock ''/a'' t2 = (0, t3)"
    by (simp_all add: t1_def t2_def t3_def target_lock_def live_locks_def no_locks_def)
  then have run: "lock_run t3 [(''/a'', 0), (''/b'', 1), (''/a'', 0)]"
    by (meson lock_run.intros)
  show ?thesis
    using run target_lock_serializes [OF run, of "''/a''" 0 "''/b''" 1] by auto
qed

section \<open>What a call does to the files\<close>

lemma create_staging_new:
  "create_staging_file h dir name k n fs = Inr temp \<Longrightarrow> fs temp = None"
proof (induction n arbitrary: k)
  case (Suc n)
  obtain w where w: "random h k = Inr w" using Suc.prems by (cases "random h k") simp_all
  let ?path = "join_path dir (temp_name name w)"
  show ?case
  proof (cases "fs ?path")
    case None
    with Suc.prems w have "create_fault h ?path = None \<and> temp = ?path"
      by (cases "create_fault h ?path") (simp_all add: Let_def)
    with None show ?thesis by simp
  next
    case Some
    with Suc w show ?thesis by (simp add: Let_def)
  qed
qed simp

text \<open>The staging file is not the target: its path is longer.\<close>

lemma create_staging_longer:
  "create_staging_file h (parent_dir path) (file_name path) k n fs = Inr temp \<Longrightarrow> length path < length temp"
proof (induction n arbitrary: k)
  case (Suc n)
  obtain w where w: "random h k = Inr w" using Suc.prems by (cases "random h k") simp_all
  let ?temp = "join_path (parent_dir path) (temp_name (file_name path) w)"
  have "length path = length (takeWhile (\<lambda>c. c \<noteq> CHR ''/'') (rev path)) +
      length (dropWhile (\<lambda>c. c \<noteq> CHR ''/'') (rev path))"
    by (metis length_append length_rev takeWhile_dropWhile_id)
  then have "length path \<le> Suc (length (parent_dir path) + length (file_name path))"
    by (cases "dropWhile (\<lambda>c. c \<noteq> CHR ''/'') (rev path)") (simp_all add: parent_dir_def file_name_def Let_def)
  moreover have "length (parent_dir path) + length (temp_name (file_name path) w) \<le> length ?temp"
    by (simp add: join_path_def is_absolute_def temp_name_def)
  ultimately have "length path < length ?temp" by (simp add: temp_name_def)
  with Suc w show ?case by (auto simp: Let_def split: if_splits option.splits)
qed simp

text \<open>An atomic write ends in one of four ways; \<open>temp\<close> is its staging file.\<close>

lemma write_atomically_cases:
  assumes "write_atomically h path content expected fs = (r, fs')"
  obtains (none) f where "r = Some f" "fs' = fs"
    | (left) f temp g where "r = Some f" "fs temp = None" "remove_fault h" "fs' = fs(temp \<mapsto> g)"
    | (renamed) temp where "r = None" "fs temp = None"
        "check_snapshot h path expected (fs(temp \<mapsto> staged h path content fs)) = None"
        "fs' = fs(path \<mapsto> staged h path content fs, temp := None)" "temp \<noteq> path"
proof (cases "create_staging_file h (parent_dir path) (file_name path) 0 128 fs")
  case (Inl e)
  with assms show ?thesis by (intro none) (auto simp: write_atomically_def)
next
  case (Inr temp)
  then have temp: "fs temp = None" by (rule create_staging_new)
  then have undo: "(fs(temp := Some g))(temp := None) = fs" for g
    by (simp add: fun_upd_idem)
  let ?fs1 = "fs(temp \<mapsto> staged h path content fs)"
  show ?thesis
  proof (cases "stage_fault h = None \<and> check_snapshot h path expected ?fs1 = None \<and> commit_fault h = None")
    case True
    with assms Inr show ?thesis
      by (intro renamed [OF _ temp]) (use create_staging_longer [OF Inr] in \<open>auto simp: write_atomically_def Let_def\<close>)
  next
    case False
    have "\<exists>f g. r = Some f \<and> fs' = (if remove_fault h then fs(temp \<mapsto> g) else fs)"
    proof (cases "stage_fault h")
      case None
      define snap where "snap = check_snapshot h path expected ?fs1"
      have "write_atomically h path content expected fs = (case snap of
          Some f \<Rightarrow> (Some f, if remove_fault h then ?fs1 else fs)
        | None \<Rightarrow> (case commit_fault h of
            Some e \<Rightarrow> (Some (write_error path e), if remove_fault h then ?fs1 else fs)
          | None \<Rightarrow> (None, (?fs1(path := ?fs1 temp))(temp := None))))"
        unfolding snap_def using None Inr undo by (simp add: write_atomically_def Let_def cong: option.case_cong)
      with assms None False show ?thesis
        by (cases snap; cases "commit_fault h") (auto simp: snap_def [symmetric])
    qed (use assms Inr undo in \<open>auto simp: write_atomically_def Let_def\<close>)
    then obtain f g where r: "r = Some f" and fs': "fs' = (if remove_fault h then fs(temp \<mapsto> g) else fs)"
      by blast
    show ?thesis by (cases "remove_fault h") (use none left r fs' temp in auto)
  qed
qed

lemma write_atomically_failed:
  assumes "write_atomically h path content expected fs = (Some f, fs')"
  shows "fs \<subseteq>\<^sub>m fs'" and "\<not> remove_fault h \<Longrightarrow> fs' = fs"
  using assms by (cases rule: write_atomically_cases; auto simp: map_le_def)+

lemma check_snapshot_ok:
  "check_snapshot h path expected fs = None \<longleftrightarrow>
     snapshot_fault h = None \<and> map_option bytes (fs path) = Some expected"
  by (auto simp: check_snapshot_def read_bytes_def split: option.splits)

text \<open>What \<open>write_file\<close> leaves: a failure touches at most a file with hard links; a success replaced the
  bytes that were expected.\<close>

lemma write_file_failed:
  assumes "write_file h target content expected fs = (Some f, fs')"
  shows "fs p \<noteq> None \<Longrightarrow> \<not> has_other_hard_links h p \<Longrightarrow> fs' p = fs p"
    and "\<not> has_other_hard_links h target \<Longrightarrow> \<not> remove_fault h \<Longrightarrow> fs' = fs"
proof -
  show "fs' p = fs p" if "fs p \<noteq> None" "\<not> has_other_hard_links h p"
  proof (cases "has_other_hard_links h target")
    case True
    with assms that show ?thesis by (auto simp: write_file_def Let_def split: option.splits)
  next
    case False
    with assms have "fs \<subseteq>\<^sub>m fs'" by (simp add: write_file_def write_atomically_failed)
    with that show ?thesis by (metis domIff map_le_def)
  qed
  show "fs' = fs" if "\<not> has_other_hard_links h target" "\<not> remove_fault h"
    using assms that by (simp add: write_file_def write_atomically_failed(2))
qed

lemma write_file_ok:
  assumes "write_file h target content expected fs = (None, fs')"
  shows "\<exists>f m. fs target = Some f \<and> bytes f = expected \<and> fs' = fs(target \<mapsto> \<lparr>bytes = content, mode = m\<rparr>) \<and>
    (\<not> chmod_fault h \<longrightarrow> m = mode f)"
proof (cases "has_other_hard_links h target")
  case True
  with assms have "check_snapshot h target expected fs = None"
    and fs': "fs' = fs(target := map_option (\<lambda>f. f\<lparr>bytes := content\<rparr>) (fs target))"
    by (auto simp: write_file_def Let_def split: option.splits)
  then obtain f where f: "fs target = Some f" "bytes f = expected" by (auto simp: check_snapshot_ok)
  have "f\<lparr>bytes := content\<rparr> = \<lparr>bytes = content, mode = mode f\<rparr>" by (cases f) simp
  with f fs' show ?thesis by auto
next
  case False
  with assms have "write_atomically h target content expected fs = (None, fs')" by (simp add: write_file_def)
  then show ?thesis
  proof (cases rule: write_atomically_cases)
    case (renamed temp)
    then obtain f where f: "fs target = Some f" "bytes f = expected" by (auto simp: check_snapshot_ok)
    have "fs' = fs(target \<mapsto> staged h target content fs)"
      using renamed by (auto simp: fun_eq_iff)
    with f show ?thesis by (auto simp: staged_def)
  qed simp_all
qed

text \<open>The ways a call can end.\<close>

lemma run_tool_cases:
  assumes "run_tool lib h params fs = Some (r, fs')"
  obtains (early) e where "r = Inl e" "fs' = others h fs"
    | (wrote) input target raw a res where "parse_input (from_str lib) params = Inr input"
        "canonicalize h (resolve_path (current_dir h) (host_cwd params) (input_path input)) = Inr target"
        "read_to_string (read_fault h) target fs = Inr raw"
        "apply_edits (nfkc_of lib) (changes_of lib) (normalize_to_lf (bom_text (strip_bom raw)))
           (input_edits input) (input_path input) = Some (Inr a)"
        "write_file h target (written_bytes raw (new_content a)) raw (others h fs) = (res, fs')"
        "case res of Some f \<Rightarrow> r = Inl (message f)
         | None \<Rightarrow> \<exists>reply. success_reply lib a (input_path input) = Some reply \<and> r = Inr reply"
proof -
  consider e where "parse_input (from_str lib) params = Inl e"
    | input where "parse_input (from_str lib) params = Inr input" by (cases "parse_input (from_str lib) params") auto
  then show ?thesis
  proof cases
    case 2
    let ?found = "canonicalize h (resolve_path (current_dir h) (host_cwd params) (input_path input))"
    show ?thesis
    proof (cases ?found)
      case (Inr target)
      show ?thesis
      proof (cases "read_to_string (read_fault h) target fs")
        case (Inl e)
        with assms 2 Inr show ?thesis by (intro early) (auto simp: run_tool_def)
      next
        case read: (Inr raw)
        let ?apply = "apply_edits (nfkc_of lib) (changes_of lib) (normalize_to_lf (bom_text (strip_bom raw)))
          (input_edits input) (input_path input)"
        from assms 2 Inr read obtain applied where applied: "?apply = Some applied"
          by (cases ?apply) (simp_all add: run_tool_def)
        show ?thesis
        proof (cases applied)
          case (Inl f)
          with assms 2 Inr read applied show ?thesis by (intro early) (auto simp: run_tool_def)
        next
          case new: (Inr a)
          obtain res fs2 where w: "write_file h target (written_bytes raw (new_content a)) raw (others h fs) = (res, fs2)"
            by fastforce
          with assms 2 Inr read applied new have "fs2 = fs'" "case res of Some f \<Rightarrow> r = Inl (message f)
              | None \<Rightarrow> \<exists>reply. success_reply lib a (input_path input) = Some reply \<and> r = Inr reply"
            by (auto simp: run_tool_def bind_eq_Some_conv split: option.splits)
          with 2 Inr read applied new w show ?thesis by (intro wrote) simp_all
        qed
      qed
    qed (use assms 2 in \<open>intro early, auto simp: run_tool_def\<close>)
  qed (use assms in \<open>intro early, auto simp: run_tool_def\<close>)
qed

text \<open>A call to run: a file with \<open>CRLF\<close> line ends, of which the second line is edited.\<close>

definition sample_host :: host where
  "sample_host = \<lparr>current_dir = None, canonicalize = Inr, read_fault = None, others = (\<lambda>fs. fs),
     nlink = (\<lambda>_. Some 1), random = (\<lambda>_. Inr 7), create_fault = (\<lambda>_. None), new_mode = 420,
     stage_fault = None, chmod_fault = False, snapshot_fault = None, commit_fault = None,
     torn = (\<lambda>_. []), remove_fault = False\<rparr>"

definition sample_crates :: crates where
  "sample_crates = \<lparr>from_str = (\<lambda>_. None), nfkc_of = (\<lambda>s. s), changes_of = (\<lambda>_ _. []),
     ops_of = (\<lambda>_ _. []), patch_of = (\<lambda>_ _ _. [])\<rparr>"

definition sample_call :: json where
  "sample_call = JObj [(''path'', JStr ''f''),
     (''edits'', JArr [JObj [(''oldText'', JStr ''b''), (''newText'', JStr ''c'')]]),
     (''__rpi'', JObj [(''cwd'', JStr ''/d'')])]"

definition sample_files :: files where
  "sample_files = [''/d/f'' \<mapsto> \<lparr>bytes = [CHR ''a'', CR, NL, CHR ''b''], mode = 493\<rparr>]"





end
