(* ===== verification/Host_Runtime.thy ===== *)
theory Host_Runtime
  imports Json Text_Search
begin

text \<open>
  What the extensions share that keep a state in the session and act on the host: the call of a
  runtime action with its reply (\<open>call_runtime\<close> of \<open>rpi-plan-mode\<close> and \<open>rpi-goal\<close>), actions as functions
  that pass the host on, and the standard library's parsing of decimal numbers and lines. The host is
  a parameter: a function from an action, its arguments and the state of the host to a return code, a
  text and the next state.
\<close>

section \<open>Actions on the host\<close>

datatype runtime_action = GetActiveTools | SetActiveTools | AppendEntry | GetSessionBranch | SendUserMessage

fun action_name :: "runtime_action \<Rightarrow> string" where
  "action_name GetActiveTools = ''GetActiveTools''"
| "action_name SetActiveTools = ''SetActiveTools''"
| "action_name AppendEntry = ''AppendEntry''"
| "action_name GetSessionBranch = ''GetSessionBranch''"
| "action_name SendUserMessage = ''SendUserMessage''"

type_synonym 'h runtime = "runtime_action \<Rightarrow> json \<Rightarrow> 'h \<Rightarrow> int \<times> string \<times> 'h"

type_synonym 'h caller = "runtime_action \<Rightarrow> json \<Rightarrow> 'h \<Rightarrow> (string + json) \<times> 'h"

definition reply_of :: "(string \<Rightarrow> string + json) \<Rightarrow> runtime_action \<Rightarrow> int \<Rightarrow> string \<Rightarrow> string + json" where
  "reply_of from_str action rc reply =
     (if rc \<noteq> 0
      then Inl (if reply = [] then ''runtime action '' @ action_name action @ '' failed'' else reply)
      else if trim reply = [] then Inr JNull
      else case from_str reply of
        Inl e \<Rightarrow> Inl (''invalid runtime response: '' @ e)
      | Inr v \<Rightarrow> Inr v)"

definition call_runtime ::
  "string \<Rightarrow> (string \<Rightarrow> string + json) \<Rightarrow> 'h runtime option \<Rightarrow> 'h caller" where
  "call_runtime who from_str rt action args h = (case rt of
     None \<Rightarrow> (Inl (who @ '' runtime is unavailable''), h)
   | Some run \<Rightarrow> (case run action args h of (rc, reply, h') \<Rightarrow> (reply_of from_str action rc reply, h')))"

text \<open>\<open>?\<close> on a step that passes a state on.\<close>

definition thenR :: "('e + 'a) \<times> 's \<Rightarrow> ('a \<Rightarrow> 's \<Rightarrow> ('e + 'b) \<times> 's) \<Rightarrow> ('e + 'b) \<times> 's" where
  "thenR m f = (case m of (Inl e, s) \<Rightarrow> (Inl e, s) | (Inr x, s) \<Rightarrow> f x s)"

lemma thenR_simps [simp, res_simps]:
  "thenR (Inl e, s) f = (Inl e, s)" "thenR (Inr x, s) f = f x s"
  by (simp_all add: thenR_def)

lemma thenR_Inr_iff: "thenR m f = (Inr y, s') \<longleftrightarrow> (\<exists>x s. m = (Inr x, s) \<and> f x s = (Inr y, s'))"
  by (auto simp: thenR_def split: prod.splits sum.splits)

lemma thenR_Inl_iff:
  "thenR m f = (Inl e, s') \<longleftrightarrow> m = (Inl e, s') \<or> (\<exists>x s. m = (Inr x, s) \<and> f x s = (Inl e, s'))"
  by (auto simp: thenR_def split: prod.splits sum.splits)

section \<open>Numbers and lines\<close>

definition is_digit :: "char \<Rightarrow> bool" where
  "is_digit c \<longleftrightarrow> 48 \<le> (of_char c :: nat) \<and> (of_char c :: nat) \<le> 57"

definition all_digits :: "string \<Rightarrow> bool" where
  "all_digits s \<longleftrightarrow> s \<noteq> [] \<and> list_all is_digit s"

text \<open>\<open>str::parse\<close> to an unsigned integer below \<open>n\<close>: one plus sign may stand in front.\<close>

definition parse_unsigned :: "nat \<Rightarrow> string \<Rightarrow> nat option" where
  "parse_unsigned n s =
     (let d = (case strip_prefix ''+'' s of Some rest \<Rightarrow> rest | None \<Rightarrow> s)
      in if all_digits d \<and> read_nat d < n then Some (read_nat d) else None)"

text \<open>\<open>str::lines\<close>: a final newline ends the last line, and a carriage return before a newline is not
  part of the line.\<close>

definition drop_cr :: "string \<Rightarrow> string" where
  "drop_cr l = (case strip_suffix [CR] l of Some l' \<Rightarrow> l' | None \<Rightarrow> l)"

definition std_lines :: "string \<Rightarrow> string list" where
  "std_lines s =
     (let ls = lines_of s in map drop_cr (butlast ls) @ (if last ls = [] then [] else [last ls]))"

definition split_once :: "char \<Rightarrow> string \<Rightarrow> (string \<times> string) option" where
  "split_once c s = (case find_str [c] s of None \<Rightarrow> None | Some i \<Rightarrow> Some (take i s, drop (Suc i) s))"

lemma split_once_Some: "split_once c s = Some (a, b) \<Longrightarrow> s = a @ c # b \<and> c \<notin> set a"
proof -
  assume "split_once c s = Some (a, b)"
  then obtain i where i: "find_str [c] s = Some i" "a = take i s" "b = drop (Suc i) s"
    by (auto simp: split_once_def split: option.splits)
  then show ?thesis
  proof (induction s arbitrary: i a b)
    case (Cons x xs)
    then show ?case by (cases i) (auto split: if_splits option.splits)
  qed simp
qed

end
