(* ===== verification/Plan_Mode.thy ===== *)
theory Plan_Mode
  imports Host_Runtime
begin

text \<open>
  Plan mode, \<open>rpi-plan-mode/src/lib.rs\<close>: while it is active the host offers only the planning tools;
  leaving it gives the tools back that were active before. The state is journaled on the session's
  branch and read back when a session starts. The items of a plan are read from its Markdown text.
\<close>

section \<open>State and host\<close>

record plan_state =
  active :: bool
  plan :: "string option"
  previous_tools :: "string list option"

definition initial_plan_state :: plan_state where
  "initial_plan_state = \<lparr>active = False, plan = None, previous_tools = None\<rparr>"

definition MAX_PLAN_CHARS :: nat where "MAX_PLAN_CHARS = 50000"
definition PLAN_TOOL :: string where "PLAN_TOOL = ''plan_mode_complete''"
definition PLAN_ENTRY :: string where "PLAN_ENTRY = ''plan-mode''"

definition tool_names :: "json \<Rightarrow> string + string list" where
  "tool_names v =
     bindR (ok_or ''runtime did not return an active tool list'' (get_array ''tools'' v))
       (mapR (\<lambda>t. ok_or ''active tool list contains a non-string value'' (as_str t)))"

definition current_tools :: "'h caller \<Rightarrow> 'h \<Rightarrow> (string + string list) \<times> 'h" where
  "current_tools call h = thenR (call GetActiveTools (JObj []) h) (\<lambda>v h. (tool_names v, h))"

definition set_tools :: "'h caller \<Rightarrow> string list \<Rightarrow> 'h \<Rightarrow> (string + unit) \<times> 'h" where
  "set_tools call tools h =
     thenR (call SetActiveTools (JObj [(''tools'', JArr (map JStr tools))]) h) (\<lambda>_ h. (Inr (), h))"

text \<open>The result of \<open>persist_state\<close> is thrown away.\<close>

definition persist_state :: "'h caller \<Rightarrow> bool \<Rightarrow> string option \<Rightarrow> 'h \<Rightarrow> 'h" where
  "persist_state call act p h = snd (call AppendEntry
     (JObj [(''customType'', JStr PLAN_ENTRY), (''data'', JObj [(''active'', JBool act), (''plan'', jopt p)])]) h)"

definition plan_entry :: "json \<Rightarrow> bool" where
  "plan_entry e \<longleftrightarrow> get_str ''type'' e = Some ''custom'' \<and> get_str ''customType'' e = Some PLAN_ENTRY"

text \<open>The \<open>data\<close> of the last entry, which is absent when that entry has none.\<close>

definition restored_data :: "json \<Rightarrow> json option" where
  "restored_data v = (case get_array ''entries'' v of
     None \<Rightarrow> None
   | Some es \<Rightarrow> fold (\<lambda>e r. if plan_entry e then jget ''data'' e else r) es None)"

definition restore_state :: "'h caller \<Rightarrow> plan_state \<Rightarrow> 'h \<Rightarrow> plan_state \<times> 'h" where
  "restore_state call s h =
     (case call GetSessionBranch (JObj [(''customTypes'', JArr [JStr PLAN_ENTRY])]) h of
        (Inl e, h') \<Rightarrow> (s, h')
      | (Inr v, h') \<Rightarrow>
          if get_bool ''filtered'' v \<noteq> Some True then (s, h')
          else case restored_data v of
            None \<Rightarrow> (s, h')
          | Some d \<Rightarrow> (s\<lparr>active := unwrap_or False (get_bool ''active'' d), plan := get_str ''plan'' d\<rparr>, h'))"

definition planning_tools :: "string list" where
  "planning_tools = [''read'', ''bash'', ''docs'', PLAN_TOOL]"

section \<open>The items of a plan\<close>

record plan_item =
  number :: nat
  item_text :: string
  completed :: bool

definition parse_usize :: "string \<Rightarrow> nat option" where
  "parse_usize = parse_unsigned (2 ^ 64)"

definition done_marker :: "string \<Rightarrow> nat option" where
  "done_marker l = do {
     value \<leftarrow> strip_prefix ''[DONE:'' l;
     i \<leftarrow> strip_suffix '']'' value;
     parse_usize (trim i)
   }"

definition checked_item :: "string \<Rightarrow> bool \<times> string" where
  "checked_item l =
     (case strip_prefix ''- [x] '' l of
        Some v \<Rightarrow> (True, v)
      | None \<Rightarrow> (case strip_prefix ''- [X] '' l of
          Some v \<Rightarrow> (True, v)
        | None \<Rightarrow> (case strip_prefix ''- [ ] '' l of Some v \<Rightarrow> (False, v) | None \<Rightarrow> (False, l))))"

text \<open>A line that is an item: its number, its text and whether it is checked.\<close>

definition item_line :: "string \<Rightarrow> (nat \<times> string \<times> bool) option" where
  "item_line l =
     (if starts_with ''[DONE:'' l then None
      else do {
        (num, txt) \<leftarrow> split_once CHR ''.'' (snd (checked_item l));
        n \<leftarrow> parse_usize (trim num);
        (if trim txt = [] then None else Some (n, trim txt, fst (checked_item l)))
      })"

fun merge_item :: "nat \<Rightarrow> string \<Rightarrow> bool \<Rightarrow> plan_item list \<Rightarrow> plan_item list" where
  "merge_item n t c [] = [\<lparr>number = n, item_text = t, completed = c\<rparr>]"
| "merge_item n t c (p # ps) =
     (if number p = n then p\<lparr>completed := completed p \<or> c\<rparr> # ps else p # merge_item n t c ps)"

definition add_item :: "nat set \<Rightarrow> string \<Rightarrow> plan_item list \<Rightarrow> plan_item list" where
  "add_item finished l items = (case item_line l of
     None \<Rightarrow> items
   | Some (n, t, checked) \<Rightarrow> merge_item n t (checked \<or> n \<in> finished) items)"

definition parse_plan_items :: "string \<Rightarrow> plan_item list" where
  "parse_plan_items p =
     (let ls = map trim (std_lines p);
          finished = set (List.map_filter done_marker ls)
      in fold (add_item finished) ls [])"

definition CHECK :: string where "CHECK = [CHR 0xE2, CHR 0x9C, CHR 0x93]"
definition CIRCLE :: string where "CIRCLE = [CHR 0xE2, CHR 0x97, CHR 0x8B]"

definition outline_line :: "plan_item \<Rightarrow> string" where
  "outline_line p = ''- '' @ (if completed p then CHECK else CIRCLE) @ '' '' @ show_nat (number p) @ ''. '' @ item_text p"

definition plan_outline :: "string \<Rightarrow> string" where
  "plan_outline p =
     (let items = parse_plan_items p; total = length items in
      if items = [] then ''(Plan saved; use `/plan show` to view the full plan.)''
      else join_lines
        ((''Progress: '' @ show_nat (length (filter completed items)) @ ''/'' @ show_nat total @ '' complete'') #
         map outline_line (take 12 items) @
         (if 12 < total then [''... (use `/plan show` to view the remaining steps)''] else [])))"

definition markdown_plan :: "string option \<Rightarrow> bool \<Rightarrow> string" where
  "markdown_plan p act =
     (let text_of = (case p of None \<Rightarrow> [] | Some t \<Rightarrow> trim t);
          (status, hint) =
            (if act then (''Planning'', ''Explore first, then call `plan_mode_complete` when the plan is ready.'')
             else if text_of \<noteq> [] then (''Ready'', ''Use `/plan start` or `plan_mode_start` to create a new plan.'')
             else (''Idle'', ''Use `/plan start` to begin planning.''));
          body = (if text_of \<noteq> [] then text_of else ''_No completed plan yet._'')
      in ''**Plan '' @ [CHR 0xC2, CHR 0xB7] @ '' '' @ status @ ''**'' @ [NL, NL] @ body @ [NL, NL] @ hint)"

section \<open>Entering and leaving\<close>

definition activate :: "'h caller \<Rightarrow> plan_state \<Rightarrow> 'h \<Rightarrow> (string + bool) \<times> plan_state \<times> 'h" where
  "activate call s h =
     (if active s then (Inr False, s, h)
      else case current_tools call h of
        (Inl e, h') \<Rightarrow> (Inl e, s, h')
      | (Inr tools, h') \<Rightarrow> (case set_tools call planning_tools h' of
          (Inl e, h'') \<Rightarrow> (Inl e, s, h'')
        | (Inr _, h'') \<Rightarrow>
            (Inr True, \<lparr>active = True, plan = None, previous_tools = Some tools\<rparr>, persist_state call True None h'')))"

text \<open>The saved tools are taken out of the state before the host is asked to set them.\<close>

definition deactivate :: "'h caller \<Rightarrow> plan_state \<Rightarrow> 'h \<Rightarrow> (string + bool) \<times> plan_state \<times> 'h" where
  "deactivate call s h =
     (if \<not> active s then (Inr False, s, h)
      else
        let s' = s\<lparr>previous_tools := None\<rparr>;
            (restored, h') = (case previous_tools s of
               None \<Rightarrow> (Inr (), h)
             | Some tools \<Rightarrow> set_tools call tools h)
        in case restored of
          Inl e \<Rightarrow> (Inl e, s', h')
        | Inr _ \<Rightarrow> (Inr True, s'\<lparr>active := False\<rparr>, persist_state call False (plan s) h'))"

definition plan_status :: "plan_state \<Rightarrow> string" where
  "plan_status s = markdown_plan (plan s) (active s)"

definition text_result :: "string \<Rightarrow> (string \<times> json) list \<Rightarrow> json" where
  "text_result t details =
     JObj [(''content'', JArr [JObj [(''type'', JStr ''text''), (''text'', JStr t)]]), (''details'', JObj details)]"

definition start_plan :: "'h caller \<Rightarrow> json \<Rightarrow> plan_state \<Rightarrow> 'h \<Rightarrow> (string + json) \<times> plan_state \<times> 'h" where
  "start_plan call raw s h =
     (let request = filter_opt (\<lambda>r. r \<noteq> []) (map_option trim (get_str ''request'' raw));
          message = (case request of
            Some value \<Rightarrow> ''Plan mode started for: '' @ value
          | None \<Rightarrow> ''Plan mode started. Inspect the repository, then call `plan_mode_complete`.'')
      in thenR (activate call s h)
        (\<lambda>_ sh. (Inr (text_result message [(''kind'', JStr ''plan''), (''active'', JBool True)]), sh)))"

definition complete_plan :: "'h caller \<Rightarrow> json \<Rightarrow> plan_state \<Rightarrow> 'h \<Rightarrow> (string + json) \<times> plan_state \<times> 'h" where
  "complete_plan call raw s h =
     (case filter_opt (\<lambda>p. p \<noteq> []) (map_option trim (get_str ''plan'' raw)) of
        None \<Rightarrow> (Inl ''plan must be a non-empty string'', s, h)
      | Some p \<Rightarrow>
          if MAX_PLAN_CHARS < char_count p
          then (Inl (''plan must not exceed '' @ show_nat MAX_PLAN_CHARS @ '' characters''), s, h)
          else if \<not> active s
          then (Inl ''plan_mode_complete is only available while plan mode is active'', s, h)
          else thenR (deactivate call (s\<lparr>plan := Some p\<rparr>) h)
            (\<lambda>_ sh. (Inr (text_result (markdown_plan (Some p) False)
              [(''kind'', JStr ''plan''), (''plan'', JStr p), (''outline'', JStr (plan_outline p)),
               (''active'', JBool False), (''markdown'', JBool True)]), sh)))"

section \<open>The command, the events and the tools\<close>

definition planning_prompt :: "string \<Rightarrow> string" where
  "planning_prompt args =
     ''You are now in Plan mode. Do not edit files or implement changes.'' @ [NL, NL] @
     ''User request: '' @ args @ [NL, NL] @
     ''Inspect the repository, resolve important decisions, and call `plan_mode_complete` with a complete '' @
     ''implementation-ready Markdown plan when finished.''"

definition request_plan :: "'h caller \<Rightarrow> string \<Rightarrow> plan_state \<Rightarrow> 'h \<Rightarrow> string \<times> plan_state \<times> 'h" where
  "request_plan call args s h = (case activate call s h of
     (Inl e, s', h') \<Rightarrow> (''Unable to enter plan mode: '' @ e, s', h')
   | (Inr _, s', h') \<Rightarrow> (case call SendUserMessage (JObj [(''text'', JStr (planning_prompt args))]) h' of
       (Inl e, h'') \<Rightarrow> (case deactivate call s' h'' of
         (_, s2, h2) \<Rightarrow> (''Unable to start planning request: '' @ e, s2, h2))
     | (Inr _, h'') \<Rightarrow> (''Plan mode started and the planning request was submitted.'', s', h'')))"

definition command_text ::
  "'h caller \<Rightarrow> string \<Rightarrow> string \<Rightarrow> plan_state \<Rightarrow> 'h \<Rightarrow> string \<times> plan_state \<times> 'h" where
  "command_text call first args s h =
     (if first = ''start'' then (case activate call s h of
         (Inr True, s', h') \<Rightarrow>
           (''Plan mode enabled. Inspect the codebase and call `plan_mode_complete` when ready.'', s', h')
       | (Inr False, s', h') \<Rightarrow> (''Plan mode is already active.'', s', h')
       | (Inl e, s', h') \<Rightarrow> (''Unable to enter plan mode: '' @ e, s', h'))
      else if first \<in> {[], ''show'', ''status''} then (plan_status s, s, h)
      else if first = ''finalize'' then
        (if plan s \<noteq> None then ''Plan is stored in the current session. Use `/plan show` to review it.''
         else ''No plan yet. Complete plan mode with `plan_mode_complete` first.'', s, h)
      else if first \<in> {''exit'', ''off''} then (case deactivate call s h of
         (Inr True, s', h') \<Rightarrow> (''Plan mode disabled. Full tool access restored.'', s', h')
       | (Inr False, s', h') \<Rightarrow> (''Plan mode is not active.'', s', h')
       | (Inl e, s', h') \<Rightarrow> (''Unable to leave plan mode: '' @ e, s', h'))
      else request_plan call args s h)"

text \<open>\<open>lower\<close> is \<open>str::to_lowercase\<close>.\<close>

definition plan_command ::
  "(string \<Rightarrow> string) \<Rightarrow> 'h caller \<Rightarrow> json \<Rightarrow> plan_state \<Rightarrow> 'h \<Rightarrow> json \<times> plan_state \<times> 'h" where
  "plan_command lower call envelope s h =
     (let args = trim (unwrap_or [] (get_str ''args'' envelope));
          first = lower (case split_whitespace args of [] \<Rightarrow> [] | w # _ \<Rightarrow> w);
          (result, s', h') = command_text call first args s h
      in (JObj ([(''kind'', JStr ''message''), (''text'', JStr result)] @
            (if starts_with ''Unable to'' result then []
             else [(''details'', JObj [(''kind'', JStr ''plan''), (''plan'', jopt (plan s')),
                     (''active'', JBool (active s')), (''expanded'', JBool (first = ''show''))])])),
          s', h'))"

definition handle_plan_event :: "'h caller \<Rightarrow> bool \<Rightarrow> plan_state \<Rightarrow> 'h \<Rightarrow> plan_state \<times> 'h" where
  "handle_plan_event call session_event s h = (if session_event then restore_state call s h else (s, h))"

record plan_drive =
  drive_params :: json
  drive_done :: bool
  cancelled :: bool

definition execute_plan :: "(string \<Rightarrow> json option) \<Rightarrow> string \<Rightarrow> plan_drive" where
  "execute_plan from_str arguments =
     \<lparr>drive_params = unwrap_or JNull (from_str arguments), drive_done = False, cancelled = False\<rparr>"

text \<open>\<open>entry\<close> is what the host's handle table holds for a handle that is not null.\<close>

definition poll_plan ::
  "'h caller \<Rightarrow> bool \<Rightarrow> plan_drive option \<Rightarrow> plan_state \<Rightarrow> 'h \<Rightarrow>
   (string + json) \<times> plan_drive option \<times> plan_state \<times> 'h" where
  "poll_plan call null entry s h =
     (if null then (Inl ''null plan handle'', entry, s, h)
      else case entry of
        None \<Rightarrow> (Inl ''invalid or destroyed tool handle'', entry, s, h)
      | Some d \<Rightarrow>
          let d' = d\<lparr>drive_done := True\<rparr> in
          if cancelled d then (Inl ''plan cancelled'', Some d', s, h)
          else if drive_done d then (Inl ''plan polled after completion'', entry, s, h)
          else (case (if jget ''plan'' (drive_params d) \<noteq> None then complete_plan call (drive_params d) s h
                      else start_plan call (drive_params d) s h) of
              (r, s', h') \<Rightarrow> (r, Some d', s', h')))"

end
