(* ===== verification/Plan_Mode_Correct.thy ===== *)
theory Plan_Mode_Correct
  imports Plan_Mode
begin

text \<open>
  Plan mode is correct in two respects: the items of a plan are those its text lists, and whoever leaves
  plan mode finds the tools that were active before. The second needs a host that does what it
  acknowledges, which is the locale \<open>tool_host\<close>, and that does not fail to set the tools: two
  lemmas show what happens when it does, and when the session changes.
\<close>

section \<open>The items of a plan\<close>

definition first_seen :: "'a list \<Rightarrow> 'a list" where
  "first_seen xs = rev (remdups (rev xs))"

lemma first_seen_snoc: "first_seen (xs @ [x]) = (if x \<in> set xs then first_seen xs else first_seen xs @ [x])"
proof -
  have "remdups (x # ys) = (if x \<in> set ys then remdups ys else x # remdups ys)" for ys :: "'a list" by simp
  from this [of "rev xs"] show ?thesis by (auto simp: first_seen_def)
qed

lemma distinct_first_seen [simp]: "distinct (first_seen xs)" "set (first_seen xs) = set xs"
  by (simp_all add: first_seen_def)

text \<open>What the lines \<open>xs\<close> of a plan list: every number once, with the text of its first line; an item is
  complete when a marker or one of its lines says so.\<close>

definition listed_items :: "nat set \<Rightarrow> (nat \<times> string \<times> bool) list \<Rightarrow> plan_item list" where
  "listed_items finished xs =
     map (\<lambda>n. \<lparr>number = n, item_text = (case map_of xs n of Some (t, _) \<Rightarrow> t | None \<Rightarrow> []),
                completed = (n \<in> finished \<or> list_ex (\<lambda>(m, _, c). m = n \<and> c) xs)\<rparr>)
       (first_seen (map fst xs))"

lemma merge_item_map:
  "distinct ns \<Longrightarrow> (\<And>m. number (f m) = m) \<Longrightarrow>
   merge_item n t c (map f ns) =
     (if n \<in> set ns then map (\<lambda>m. if m = n then (f m)\<lparr>completed := completed (f m) \<or> c\<rparr> else f m) ns
      else map f ns @ [\<lparr>number = n, item_text = t, completed = c\<rparr>])"
  by (induction ns) auto

lemma merge_listed:
  "merge_item n t (c \<or> n \<in> finished) (listed_items finished xs) = listed_items finished (xs @ [(n, t, c)])"
proof (cases "n \<in> set (map fst xs)")
  case True
  then obtain p where p: "map_of xs n = Some p" using map_of_eq_None_iff [of xs n] by (cases "map_of xs n") auto
  have same: "map_of (xs @ [(n, t, c)]) m = map_of xs m" if "m \<in> set (map fst xs)" for m
    using that p by (auto simp: map_add_def split: option.split)
  show ?thesis
    unfolding listed_items_def using True same
    by (subst merge_item_map) (auto simp: first_seen_snoc intro!: map_cong)
next
  case False
  then have "map_of xs n = None" by (simp add: map_of_eq_None_iff)
  moreover have "\<not> list_ex (\<lambda>(m, _, c). m = n \<and> c) xs" using False by (force simp: list_ex_iff)
  ultimately show ?thesis
    unfolding listed_items_def using False
    by (subst merge_item_map) (auto simp: first_seen_snoc map_add_def split: option.split intro!: map_cong)
qed

lemma fold_add_item:
  "fold (add_item finished) ls [] = listed_items finished (List.map_filter item_line ls)"
proof (induction ls rule: rev_induct)
  case Nil
  then show ?case by (simp add: listed_items_def first_seen_def List.map_filter_def)
next
  case (snoc l ls)
  then show ?case
    by (auto simp: add_item_def List.map_filter_def merge_listed split: option.split prod.split)
qed

text \<open>C38. The items read from a plan are exactly those its lines list: each number once, in the order in
  which the numbers first appear, with the text of the first line, and complete exactly when some line of
  that number is checked or a \<open>[DONE:n]\<close> marker stands anywhere in the plan.\<close>

theorem plan_items_listed:
  "parse_plan_items p =
     listed_items (set (List.map_filter done_marker (map trim (std_lines p))))
       (List.map_filter item_line (map trim (std_lines p)))"
  by (simp add: parse_plan_items_def Let_def fold_add_item)

section \<open>The tools are given back\<close>

text \<open>A host whose replies are true: it lists the active tools, and a change it acknowledges is made.\<close>

locale tool_host =
  fixes call :: "'h caller" and tools_of :: "'h \<Rightarrow> string list"
  assumes lists_tools: "call GetActiveTools v h = (Inr tools, h') \<Longrightarrow> tool_names tools = Inr (tools_of h)"
    and sets_tools: "call SetActiveTools (JObj [(''tools'', JArr (map JStr ts))]) h = (r, h') \<Longrightarrow>
      tools_of h' = (if is_ok r then ts else tools_of h)"
    and keeps_tools: "a \<noteq> SetActiveTools \<Longrightarrow> call a v h = (r, h') \<Longrightarrow> tools_of h' = tools_of h"
begin

lemma current_tools_host: "current_tools call h = (r, h') \<Longrightarrow> tools_of h' = tools_of h \<and> (is_ok r \<longrightarrow> r = Inr (tools_of h))"
  using keeps_tools [of GetActiveTools "JObj []" h] lists_tools [of "JObj []" h]
  by (cases "call GetActiveTools (JObj []) h"; cases "fst (call GetActiveTools (JObj []) h)")
    (auto simp: current_tools_def thenR_def)

lemma set_tools_host: "set_tools call ts h = (r, h') \<Longrightarrow> tools_of h' = (if is_ok r then ts else tools_of h)"
  using sets_tools [of ts h]
  by (cases "call SetActiveTools (JObj [(''tools'', JArr (map JStr ts))]) h";
      cases "fst (call SetActiveTools (JObj [(''tools'', JArr (map JStr ts))]) h)")
    (auto simp: set_tools_def thenR_def)

lemma persist_state_host [simp]: "tools_of (persist_state call act p h) = tools_of h"
  unfolding persist_state_def by (rule keeps_tools [of AppendEntry]) (simp_all add: prod_eq_iff)

text \<open>A host that sets the tools it is asked to set, too.\<close>

lemma activate_host:
  assumes "activate call s h = (r, s', h')" and "\<not> active s"
  shows "case r of
      Inl e \<Rightarrow> s' = s \<and> tools_of h' = tools_of h
    | Inr b \<Rightarrow> active s' \<and> previous_tools s' = Some (tools_of h) \<and> tools_of h' = planning_tools"
proof -
  obtain ts h1 where ts: "current_tools call h = (ts, h1)" by fastforce
  obtain u h2 where u: "set_tools call planning_tools h1 = (u, h2)" by fastforce
  from assms ts u current_tools_host [OF ts] set_tools_host [OF u] show ?thesis
    by (cases ts; cases u) (auto simp: activate_def)
qed

lemma deactivate_host:
  assumes "deactivate call s h = (r, s', h')" and "active s"
  shows "case r of
      Inl e \<Rightarrow> active s' \<and> previous_tools s' = None \<and> tools_of h' = tools_of h
    | Inr b \<Rightarrow> \<not> active s' \<and> tools_of h' = (case previous_tools s of None \<Rightarrow> tools_of h | Some ts \<Rightarrow> ts)"
proof (cases "previous_tools s")
  case None
  with assms show ?thesis by (auto simp: deactivate_def)
next
  case (Some ts)
  obtain u h1 where u: "set_tools call ts h = (u, h1)" by fastforce
  with assms Some set_tools_host [OF u] show ?thesis by (cases u) (auto simp: deactivate_def)
qed

end

text \<open>The host also does not fail to set tools.\<close>

locale obedient_host = tool_host +
  assumes sets: "\<exists>v h'. call SetActiveTools args h = (Inr v, h')"
begin

lemma set_tools_obeyed: "set_tools call ts h = (r, h') \<Longrightarrow> is_ok r"
  using sets [of "JObj [(''tools'', JArr (map JStr ts))]" h] by (auto simp: set_tools_def)

lemma deactivate_ok: "active s \<Longrightarrow> deactivate call s h = (r, s', h') \<Longrightarrow> is_ok r"
proof (cases "previous_tools s")
  case (Some ts)
  obtain u h1 where u: "set_tools call ts h = (u, h1)" by fastforce
  with set_tools_obeyed [OF u] Some show "active s \<Longrightarrow> deactivate call s h = (r, s', h') \<Longrightarrow> is_ok r"
    by (auto simp: deactivate_def is_ok_iff)
qed (auto simp: deactivate_def)

end

text \<open>What a user or the model asks for.\<close>

datatype plan_request = Command json | Start json | Complete json

definition plan_do :: "(string \<Rightarrow> string) \<Rightarrow> 'h caller \<Rightarrow> plan_request \<Rightarrow> plan_state \<times> 'h \<Rightarrow> plan_state \<times> 'h" where
  "plan_do lower call req sh = (case sh of (s, h) \<Rightarrow> (case req of
     Command envelope \<Rightarrow> snd (plan_command lower call envelope s h)
   | Start raw \<Rightarrow> snd (start_plan call raw s h)
   | Complete raw \<Rightarrow> snd (complete_plan call raw s h)))"

text \<open>Outside plan mode the tools are those of the outside; inside they are the planning tools and the
  others are kept.\<close>

definition tools_kept :: "('h \<Rightarrow> string list) \<Rightarrow> string list \<Rightarrow> plan_state \<times> 'h \<Rightarrow> bool" where
  "tools_kept tools_of outer sh =
     (if active (fst sh) then tools_of (snd sh) = planning_tools \<and> previous_tools (fst sh) = Some outer
      else tools_of (snd sh) = outer)"

lemma tools_kept_iff [simp]:
  "tools_kept t outer (s, h) \<longleftrightarrow>
     (active s \<longrightarrow> t h = planning_tools \<and> previous_tools s = Some outer) \<and> (\<not> active s \<longrightarrow> t h = outer)"
  by (auto simp: tools_kept_def)

context obedient_host
begin

lemma activate_kept: "tools_kept tools_of outer (s, h) \<Longrightarrow> tools_kept tools_of outer (snd (activate call s h))"
proof (cases "active s")
  case False
  obtain r s' h' where "activate call s h = (r, s', h')" by (metis prod_cases3)
  then show "tools_kept tools_of outer (s, h) \<Longrightarrow> ?thesis"
    using activate_host [of s h r s' h'] False by (cases r) auto
qed (simp add: activate_def)

lemma deactivate_kept: "tools_kept tools_of outer (s, h) \<Longrightarrow> tools_kept tools_of outer (snd (deactivate call s h))"
proof (cases "active s")
  case True
  obtain r s' h' where d: "deactivate call s h = (r, s', h')" by (metis prod_cases3)
  then show "tools_kept tools_of outer (s, h) \<Longrightarrow> ?thesis"
    using deactivate_host [OF d True] deactivate_ok [OF True d] True by (cases r) auto
qed (simp add: deactivate_def)

lemma complete_kept: "tools_kept tools_of outer (s, h) \<Longrightarrow> tools_kept tools_of outer (snd (complete_plan call raw s h))"
proof -
  assume kept: "tools_kept tools_of outer (s, h)"
  have "tools_kept tools_of outer (snd (thenR (deactivate call (s\<lparr>plan := Some p\<rparr>) h) (\<lambda>_ sh. (Inr v, sh))))" for p and v :: json
  proof -
    obtain r s' h' where d: "deactivate call (s\<lparr>plan := Some p\<rparr>) h = (r, s', h')" by (metis prod_cases3)
    have "tools_kept tools_of outer (s\<lparr>plan := Some p\<rparr>, h)" using kept by simp
    from deactivate_kept [OF this] d show ?thesis by (cases r) simp_all
  qed
  then show ?thesis
    using kept unfolding complete_plan_def by (simp del: tools_kept_iff split: option.split)
qed

lemma request_kept: "tools_kept tools_of outer (s, h) \<Longrightarrow> tools_kept tools_of outer (snd (request_plan call args s h))"
proof -
  assume kept: "tools_kept tools_of outer (s, h)"
  obtain r s' h' where a: "activate call s h = (r, s', h')" by (metis prod_cases3)
  with activate_kept [OF kept] have kept': "tools_kept tools_of outer (s', h')" by simp
  obtain m h2 where m: "call SendUserMessage (JObj [(''text'', JStr (planning_prompt args))]) h' = (m, h2)" by fastforce
  then have "tools_of h2 = tools_of h'" by (intro keeps_tools) simp_all
  with kept' have kept2: "tools_kept tools_of outer (s', h2)" by simp
  obtain r2 s3 h3 where d: "deactivate call s' h2 = (r2, s3, h3)" by (metis prod_cases3)
  with deactivate_kept [OF kept2] have "tools_kept tools_of outer (s3, h3)" by simp
  with kept' kept2 a m d show ?thesis
    by (cases r; cases m) (simp_all add: request_plan_def del: tools_kept_iff)
qed

lemma command_kept: "tools_kept tools_of outer (s, h) \<Longrightarrow> tools_kept tools_of outer (snd (command_text call first args s h))"
proof -
  assume kept: "tools_kept tools_of outer (s, h)"
  obtain r s' h' where a: "activate call s h = (r, s', h')" by (metis prod_cases3)
  obtain r2 s2 h2 where d: "deactivate call s h = (r2, s2, h2)" by (metis prod_cases3)
  from activate_kept [OF kept] deactivate_kept [OF kept] request_kept [OF kept] kept show ?thesis
    unfolding command_text_def a d by (simp del: tools_kept_iff split: sum.split bool.split)
qed

lemma plan_do_kept: "tools_kept tools_of outer sh \<Longrightarrow> tools_kept tools_of outer (plan_do lower call req sh)"
proof (cases sh)
  case (Pair s h)
  assume kept: "tools_kept tools_of outer sh"
  show ?thesis
  proof (cases req)
    case (Command envelope)
    then show ?thesis
      using command_kept [of outer s h] kept Pair
      by (auto simp: plan_do_def plan_command_def Let_def simp del: tools_kept_iff split: prod.split) (metis snd_conv)
  next
    case (Start raw)
    then show ?thesis
      using activate_kept [of outer s h] kept Pair
      by (auto simp: plan_do_def start_plan_def thenR_def Let_def simp del: tools_kept_iff split: prod.split sum.split)
  qed (use kept Pair complete_kept in \<open>simp add: plan_do_def\<close>)
qed

lemma run_kept: "tools_kept tools_of outer sh \<Longrightarrow> tools_kept tools_of outer (fold (plan_do lower call) reqs sh)"
  by (induction reqs arbitrary: sh) (simp_all add: plan_do_kept del: tools_kept_iff)

end

section \<open>A host\<close>

text \<open>A host with a list of active tools and the entries of a branch, which may refuse actions.\<close>

record plan_host =
  host_tools :: "string list"
  host_entries :: "json list"
  refuses :: "runtime_action set"

definition host_call :: "plan_host caller" where
  "host_call a args h =
     (if a \<in> refuses h then (Inl ''refused'', h)
      else case a of
        GetActiveTools \<Rightarrow> (Inr (JObj [(''tools'', JArr (map JStr (host_tools h)))]), h)
      | SetActiveTools \<Rightarrow> (Inr JNull, case tool_names args of Inr ts \<Rightarrow> h\<lparr>host_tools := ts\<rparr> | Inl _ \<Rightarrow> h)
      | AppendEntry \<Rightarrow> (Inr JNull, h\<lparr>host_entries := host_entries h @ [JObj ((''type'', JStr ''custom'') #
          (case args of JObj kvs \<Rightarrow> kvs | _ \<Rightarrow> []))]\<rparr>)
      | GetSessionBranch \<Rightarrow> (Inr (JObj [(''filtered'', JBool True), (''entries'', JArr (host_entries h))]), h)
      | SendUserMessage \<Rightarrow> (Inr JNull, h))"

lemma mapR_strings [simp]: "mapR (\<lambda>t. ok_or e (as_str t)) (map JStr ts) = Inr ts"
  by (induction ts) auto

lemma tool_names_strings [simp]: "tool_names (JObj [(''tools'', JArr (map JStr ts))]) = Inr ts"
  by (simp add: tool_names_def)

interpretation ph: tool_host host_call host_tools
  by unfold_locales (auto simp: host_call_def is_ok_iff split: runtime_action.splits if_splits)

text \<open>The calls of a host that never refuses to set the tools.\<close>

definition obeying_call :: "plan_host caller" where
  "obeying_call a args h = host_call a args (h\<lparr>refuses := refuses h - {SetActiveTools}\<rparr>)"

interpretation oh: obedient_host obeying_call host_tools
proof unfold_locales
  show "\<exists>v h'. obeying_call SetActiveTools args h = (Inr v, h')" for args h
    by (simp add: obeying_call_def host_call_def)
qed (auto simp: obeying_call_def dest: ph.lists_tools ph.sets_tools ph.keeps_tools)

text \<open>C39. On a host that does what it acknowledges and does not refuse to set the tools, no sequence of
  commands and tool calls loses the tools that were active before: while plan mode is active the planning
  tools are set and the others are kept, and whenever it is not the tools are those of the start.\<close>

theorem plan_mode_gives_tools_back:
  assumes "obedient_host call tools_of" and "\<not> active s" and "fold (plan_do lower call) reqs (s, h) = (s', h')"
  shows "if active s' then tools_of h' = planning_tools \<and> previous_tools s' = Some (tools_of h)
    else tools_of h' = tools_of h"
  using obedient_host.run_kept [OF assms(1), of "tools_of h" "(s, h)" lower reqs] assms(2,3)
  by simp

theorem plan_mode_gives_tools_back_witness:
  "\<exists>s' h'. fold (plan_do (\<lambda>s. s) obeying_call)
      [Start JNull, Command (JObj [(''args'', JStr ''show'')]), Command (JObj [(''args'', JStr ''exit'')])]
      (initial_plan_state, \<lparr>host_tools = [''edit''], host_entries = [], refuses = {}\<rparr>) = (s', h') \<and>
    \<not> active s' \<and> host_tools h' = [''edit'']"
proof -
  let ?reqs = "[Start JNull, Command (JObj [(''args'', JStr ''show'')]), Command (JObj [(''args'', JStr ''exit'')])]"
  let ?h = "\<lparr>host_tools = [''edit''], host_entries = [], refuses = {}\<rparr>"
  have "\<not> active (fst (fold (plan_do (\<lambda>s. s) obeying_call) ?reqs (initial_plan_state, ?h)))" by code_simp
  moreover obtain s' h' where run: "fold (plan_do (\<lambda>s. s) obeying_call) ?reqs (initial_plan_state, ?h) = (s', h')"
    by fastforce
  ultimately show ?thesis
    using plan_mode_gives_tools_back [OF oh.obedient_host_axioms _ run] by (simp add: initial_plan_state_def)
qed

section \<open>Where tools are lost\<close>

text \<open>Leaving fails once, because the host does not set the tools; the next attempt succeeds, says that full
  access is restored, and leaves the planning tools in place.\<close>

lemma failed_leave_loses_tools:
  "let h = \<lparr>host_tools = [''edit''], host_entries = [], refuses = {}\<rparr>;
       (s1, h1) = plan_do (\<lambda>s. s) host_call (Start JNull) (initial_plan_state, h);
       (s2, h2) = plan_do (\<lambda>s. s) host_call (Command (JObj [(''args'', JStr ''exit'')])) (s1, h1\<lparr>refuses := {SetActiveTools}\<rparr>);
       (r, s3, h3) = command_text host_call ''exit'' ''exit'' s2 (h2\<lparr>refuses := {}\<rparr>)
   in r = ''Plan mode disabled. Full tool access restored.'' \<and> \<not> active s3 \<and> host_tools h3 = planning_tools"
  by code_simp

text \<open>A session in which plan mode is not active is opened while it is: the planning tools stay, and there
  is nothing to leave.\<close>

lemma session_change_keeps_planning_tools:
  "let h = \<lparr>host_tools = [''edit''], host_entries = [], refuses = {}\<rparr>;
       (s1, h1) = plan_do (\<lambda>s. s) host_call (Start JNull) (initial_plan_state, h);
       other = [JObj [(''type'', JStr ''custom''), (''customType'', JStr PLAN_ENTRY),
                      (''data'', JObj [(''active'', JBool False)])]];
       (s2, h2) = handle_plan_event host_call True s1 (h1\<lparr>host_entries := other\<rparr>);
       (r, s3, h3) = command_text host_call ''exit'' ''exit'' s2 h2
   in r = ''Plan mode is not active.'' \<and> \<not> active s3 \<and> host_tools h3 = planning_tools"
  by code_simp

end
