(* ===== verification/Goal.thy ===== *)
theory Goal
  imports Host_Runtime
begin

text \<open>
  Goal mode, \<open>rpi-goal/src/lib.rs\<close>: one active goal with a budget of turns and time, the tool and the
  command that change it, and the end of a turn, which counts the turn, pauses the goal when its budget
  is used up and tells the model about the goal. A change made inside a batch of tool calls is queued
  and written at the next safe point. Times are 64-bit signed milliseconds; one call reads the clock once.
\<close>

section \<open>Goals\<close>

type_synonym u32 = "32 word"
type_synonym i64 = "64 word"

record goal =
  title :: string
  status :: string
  goal_notes :: string
  started_at :: i64
  updated_at :: i64
  turns_used :: u32
  max_turns :: "u32 option"
  deadline_ms :: "i64 option"

record goals =
  active_goal :: "goal option"
  archived :: "goal list"

definition default_goals :: goals where
  "default_goals = \<lparr>active_goal = None, archived = []\<rparr>"

definition GOAL_STATE_ENTRY :: string where "GOAL_STATE_ENTRY = ''goal-state''"
definition GOAL_CUSTOM_TYPE :: string where "GOAL_CUSTOM_TYPE = ''goal''"
definition MAX_TITLE_CHARS :: nat where "MAX_TITLE_CHARS = 500"
definition MAX_NOTES_CHARS :: nat where "MAX_NOTES_CHARS = 20000"

text \<open>Arithmetic on \<open>i64\<close>: the words are read with their sign; a duration is an integer in their range.\<close>

definition sat64 :: "int \<Rightarrow> int" where
  "sat64 x = max (- (2 ^ 63)) (min (2 ^ 63 - 1) x)"

definition wrap64 :: "int \<Rightarrow> int" where
  "wrap64 x = (x + 2 ^ 63) mod 2 ^ 64 - 2 ^ 63"

definition add_ms :: "i64 \<Rightarrow> int \<Rightarrow> i64" where
  "add_ms t ms = word_of_int (sat64 (sint t + ms))"

definition jint :: "i64 \<Rightarrow> json" where
  "jint i = (if i <s 0 then JNeg (sint i) else JUint i)"

definition jnum :: "'a::len word \<Rightarrow> json" where
  "jnum n = JUint (ucast n)"

section \<open>Durations\<close>

definition unit_ms :: "string \<Rightarrow> int option" where
  "unit_ms g = (if g = ''s'' then Some 1000 else if g = ''m'' then Some 60000
     else if g = ''h'' then Some 3600000 else if g = ''d'' then Some 86400000 else None)"

definition parse_i64 :: "string \<Rightarrow> int option" where
  "parse_i64 s = (case strip_prefix ''-'' s of
     Some d \<Rightarrow> if all_digits d \<and> read_nat d \<le> 2 ^ 63 then Some (- int (read_nat d)) else None
   | None \<Rightarrow> map_option int (parse_unsigned (2 ^ 63) s))"

fun duration_loop :: "string \<Rightarrow> string list \<Rightarrow> int \<Rightarrow> string \<Rightarrow> bool \<Rightarrow> string + int" where
  "duration_loop spec [] acc number saw =
     (if number \<noteq> [] then Inl (''duration `'' @ spec @ ''` is missing a unit (s/m/h/d)'')
      else if \<not> saw then Inl (''invalid duration `'' @ spec @ ''`'')
      else Inr acc)"
| "duration_loop spec (g # gs) acc number saw =
     (if all_digits g then duration_loop spec gs acc (number @ g) saw
      else case unit_ms g of
        None \<Rightarrow> Inl (''unknown duration unit `'' @ g @ ''` (use s/m/h/d)'')
      | Some u \<Rightarrow> (case parse_i64 number of
          None \<Rightarrow> Inl (''invalid duration `'' @ spec @ ''`'')
        | Some v \<Rightarrow> duration_loop spec gs (sat64 (acc + sat64 (v * u))) [] True))"

text \<open>\<open>lower\<close> is \<open>str::to_lowercase\<close>.\<close>

definition parse_duration_ms :: "(string \<Rightarrow> string) \<Rightarrow> string \<Rightarrow> string + int" where
  "parse_duration_ms lower input =
     (let spec = lower (trim input) in
      if spec = [] then Inl ''empty duration''
      else case parse_i64 spec of
        Some minutes \<Rightarrow> Inr (sat64 (minutes * 60000))
      | None \<Rightarrow> duration_loop spec (chars spec) 0 [] False)"

definition format_duration_ms :: "int \<Rightarrow> string" where
  "format_duration_ms ms =
     (let secs = nat (max ms 0 div 1000);
          h = secs div 3600; m = secs mod 3600 div 60; s = secs mod 60
      in if 0 < h then show_nat h @ ''h'' @ show_nat m @ ''m''
         else if 0 < m then show_nat m @ ''m'' @ show_nat s @ ''s''
         else show_nat s @ ''s'')"

section \<open>Texts\<close>

definition DOT :: string where "DOT = [CHR 0xC2, CHR 0xB7]"
definition DASH :: string where "DASH = [CHR 0xE2, CHR 0x80, CHR 0x94]"
definition N_DASH :: string where "N_DASH = [CHR 0xE2, CHR 0x80, CHR 0x93]"
definition BULLET :: string where "BULLET = [CHR 0xE2, CHR 0x80, CHR 0xA2]"
definition TARGET :: string where "TARGET = [CHR 0xF0, CHR 0x9F, CHR 0x8E, CHR 0xAF]"
definition PAUSE :: string where "PAUSE = [CHR 0xE2, CHR 0x8F, CHR 0xB8, CHR 0xEF, CHR 0xB8, CHR 0x8F]"
definition PLAY :: string where "PLAY = [CHR 0xE2, CHR 0x96, CHR 0xB6, CHR 0xEF, CHR 0xB8, CHR 0x8F]"
definition TICK :: string where "TICK = [CHR 0xE2, CHR 0x9C, CHR 0x85]"
definition WARN :: string where "WARN = [CHR 0xE2, CHR 0x9A, CHR 0xA0, CHR 0xEF, CHR 0xB8, CHR 0x8F]"
definition INFO :: string where "INFO = [CHR 0xE2, CHR 0x84, CHR 0xB9, CHR 0xEF, CHR 0xB8, CHR 0x8F]"

definition show_u32 :: "u32 \<Rightarrow> string" where
  "show_u32 n = show_nat (unat n)"

definition budget_summary :: "goal \<Rightarrow> i64 \<Rightarrow> string" where
  "budget_summary g now =
     (let turns = (case max_turns g of
            Some m \<Rightarrow> ''turns '' @ show_u32 (min (turns_used g) m) @ ''/'' @ show_u32 m
          | None \<Rightarrow> ''turns '' @ show_u32 (turns_used g) @ '' (unlimited)'');
          time = (case deadline_ms g of
            Some d \<Rightarrow> (let remaining = sint (d - now) in
              if remaining \<le> 0 then ''time is up'' else format_duration_ms remaining @ '' left'')
          | None \<Rightarrow> ''time unlimited'')
      in turns @ '' '' @ DOT @ '' '' @ time)"

definition budget_hint :: "goal \<Rightarrow> string" where
  "budget_hint g =
     (if max_turns g = None \<and> deadline_ms g = None then []
      else '' (budget: '' @ join '' / ''
        ((case max_turns g of None \<Rightarrow> [] | Some m \<Rightarrow> [show_u32 m @ '' turns'']) @
         (case deadline_ms g of None \<Rightarrow> []
          | Some d \<Rightarrow> [format_duration_ms (max 0 (sint (d - started_at g)))])) @ '')'')"

definition fingerprint :: "goal \<Rightarrow> string" where
  "fingerprint g = title g @ ''|'' @ status g @ ''|'' @ goal_notes g"

definition goal_summary_json :: "goal \<Rightarrow> json" where
  "goal_summary_json g = JObj
     [(''title'', JStr (title g)), (''status'', JStr (status g)), (''notes'', JStr (goal_notes g)),
      (''turnsUsed'', jnum (turns_used g)),
      (''maxTurns'', case max_turns g of None \<Rightarrow> JNull | Some m \<Rightarrow> jnum m),
      (''deadlineMs'', case deadline_ms g of None \<Rightarrow> JNull | Some d \<Rightarrow> jint d),
      (''startedAt'', jint (started_at g)), (''updatedAt'', jint (updated_at g))]"

text \<open>The derived \<open>Serialize\<close>, in the order of the fields.\<close>

definition goal_json :: "goal \<Rightarrow> json" where
  "goal_json g = JObj
     [(''title'', JStr (title g)), (''status'', JStr (status g)), (''notes'', JStr (goal_notes g)),
      (''startedAt'', jint (started_at g)), (''updatedAt'', jint (updated_at g)),
      (''turnsUsed'', jnum (turns_used g)),
      (''maxTurns'', case max_turns g of None \<Rightarrow> JNull | Some m \<Rightarrow> jnum m),
      (''deadlineMs'', case deadline_ms g of None \<Rightarrow> JNull | Some d \<Rightarrow> jint d)]"

definition goals_json :: "goals \<Rightarrow> json" where
  "goals_json gs = JObj
     [(''active'', case active_goal gs of None \<Rightarrow> JNull | Some g \<Rightarrow> goal_json g),
      (''archived'', JArr (map goal_json (archived gs)))]"

section \<open>The plugin's state and its surroundings\<close>

record pending_injection =
  inj_revision :: u64
  inj_goal :: goal
  inj_reason :: "string option"

text \<open>The statics of the plugin, the host, the file of the project, and the runs that were started.\<close>

record 'h goal_world =
  w_host :: 'h
  w_file :: "string option"
  w_runs :: "string list"
  pending_inject :: "pending_injection option"
  pending_state :: "goals option"
  injection_revision :: u64
  last_injected :: "string option"

text \<open>What does not change during a call: the runtime, if there is one, the derived decoders and printer of
  \<open>serde\<close>, errors of the file system and of the thread, the clock, and whether this is a subagent.\<close>

record 'h goal_env =
  env_call :: "'h caller option"
  decode_goals :: "json \<Rightarrow> goals option"
  parse_file :: "string \<Rightarrow> goals option"
  pretty_goals :: "goals \<Rightarrow> string + string"
  file_fault :: "string option"
  spawn_fault :: "string option"
  now_ms :: i64
  is_subagent :: bool
  to_lower :: "string \<Rightarrow> string"

definition is_subagent_from :: "bool \<Rightarrow> bool \<Rightarrow> bool" where
  "is_subagent_from orchestrator_marker langfuse_parent \<longleftrightarrow> orchestrator_marker \<or> langfuse_parent"

type_synonym ('h, 'a) goal_step = "'h goal_world \<Rightarrow> (string + 'a) \<times> 'h goal_world"

definition call_host :: "'h goal_env \<Rightarrow> runtime_action \<Rightarrow> json \<Rightarrow> ('h, json) goal_step" where
  "call_host env action args w = (case env_call env of
     None \<Rightarrow> (Inl ''goal runtime is unavailable'', w)
   | Some call \<Rightarrow> (case call action args (w_host w) of (r, h) \<Rightarrow> (r, w\<lparr>w_host := h\<rparr>)))"

definition queue_state :: "goals \<Rightarrow> 'h goal_world \<Rightarrow> 'h goal_world" where
  "queue_state gs w = w\<lparr>pending_state := Some gs\<rparr>"

definition queue_notice :: "goal \<Rightarrow> string option \<Rightarrow> 'h goal_world \<Rightarrow> 'h goal_world" where
  "queue_notice g reason w =
     (let r = injection_revision w + 1 in
      w\<lparr>injection_revision := r,
        pending_inject := Some \<lparr>inj_revision = r, inj_goal = g, inj_reason = reason\<rparr>\<rparr>)"

definition queue_inject :: "goal \<Rightarrow> 'h goal_world \<Rightarrow> 'h goal_world" where
  "queue_inject g = queue_notice g None"

definition remember_injected :: "string option \<Rightarrow> 'h goal_world \<Rightarrow> 'h goal_world" where
  "remember_injected fp w = w\<lparr>last_injected := fp\<rparr>"

definition should_inject :: "string option \<Rightarrow> 'h goal_world \<Rightarrow> bool" where
  "should_inject fp w \<longleftrightarrow> last_injected w \<noteq> fp"

section \<open>Reading and writing\<close>

definition goal_entry :: "json \<Rightarrow> bool" where
  "goal_entry e \<longleftrightarrow> get_str ''type'' e = Some ''custom'' \<and> get_str ''customType'' e = Some GOAL_STATE_ENTRY"

text \<open>The data of the last entry that has any.\<close>

definition last_data :: "json list \<Rightarrow> json option" where
  "last_data es = (case List.map_filter (\<lambda>e. if goal_entry e then jget ''data'' e else None) (rev es) of
     [] \<Rightarrow> None | d # _ \<Rightarrow> Some d)"

definition branch_goals :: "'h goal_env \<Rightarrow> json \<Rightarrow> string + goals" where
  "branch_goals env v =
     (if get_bool ''filtered'' v \<noteq> Some True then Inl ''GetSessionBranch must confirm filtered: true''
      else case get_array ''entries'' v of
        None \<Rightarrow> Inl ''GetSessionBranch returned no valid entries array''
      | Some es \<Rightarrow> Inr (case last_data es of
          None \<Rightarrow> default_goals
        | Some d \<Rightarrow> unwrap_or default_goals (decode_goals env d)))"

definition read_goals :: "'h goal_env \<Rightarrow> ('h, goals) goal_step" where
  "read_goals env w =
     (if env_call env \<noteq> None then
        (case pending_state w of
           Some gs \<Rightarrow> (Inr gs, w)
         | None \<Rightarrow> thenR (call_host env GetSessionBranch
             (JObj [(''customTypes'', JArr [JStr GOAL_STATE_ENTRY])]) w) (\<lambda>v w. (branch_goals env v, w)))
      else (Inr (case w_file w of
        None \<Rightarrow> default_goals
      | Some t \<Rightarrow> unwrap_or default_goals (parse_file env t)), w))"

text \<open>Without a runtime the state goes to a file through a temporary one; an error of either leaves the
  file alone.\<close>

definition write_goals :: "'h goal_env \<Rightarrow> goals \<Rightarrow> ('h, unit) goal_step" where
  "write_goals env gs w =
     (if env_call env \<noteq> None then
        thenR (call_host env AppendEntry
          (JObj [(''customType'', JStr GOAL_STATE_ENTRY), (''data'', goals_json gs)]) w) (\<lambda>_ w. (Inr (), w))
      else case pretty_goals env gs of
        Inl e \<Rightarrow> (Inl (''serialize goals: '' @ e), w)
      | Inr t \<Rightarrow> (case file_fault env of
          Some e \<Rightarrow> (Inl e, w)
        | None \<Rightarrow> (Inr (), w\<lparr>w_file := Some t\<rparr>)))"

definition flush_pending_state :: "'h goal_env \<Rightarrow> 'h goal_world \<Rightarrow> bool \<times> 'h goal_world" where
  "flush_pending_state env w = (case pending_state w of
     None \<Rightarrow> (True, w)
   | Some gs \<Rightarrow> (case write_goals env gs (w\<lparr>pending_state := None\<rparr>) of
       (Inr _, w') \<Rightarrow> (True, w')
     | (Inl _, w') \<Rightarrow> (False, w'\<lparr>pending_state := Some gs\<rparr>)))"

section \<open>Telling the model\<close>

definition append_custom_message :: "'h goal_env \<Rightarrow> goal \<Rightarrow> string \<Rightarrow> ('h, unit) goal_step" where
  "append_custom_message env g t w = thenR (call_host env AppendEntry (JObj
     [(''message'', JObj
        [(''kind'', JStr ''custom''), (''role'', JStr ''custom''),
         (''content'', JArr [JObj [(''type'', JStr ''text''), (''text'', JStr t)]]),
         (''data'', JObj [(''customType'', JStr GOAL_CUSTOM_TYPE), (''display'', JBool True),
            (''details'', goal_summary_json g)]),
         (''timestamp'', jint (updated_at g))])]) w) (\<lambda>_ w. (Inr (), w))"

definition goal_message :: "goal \<Rightarrow> string" where
  "goal_message g =
     (let tag = (if status g = ''paused'' then PAUSE @ '' Paused goal''
            else if status g = ''complete'' then TICK @ '' Goal completed''
            else TARGET @ '' Active goal'');
          notes = trim (goal_notes g)
      in if notes = [] then tag @ '': '' @ title g @ ''.'' @ budget_hint g
         else tag @ '': '' @ title g @ '' '' @ DASH @ '' '' @ notes @ ''.'' @ budget_hint g)"

definition append_goal_custom_message :: "'h goal_env \<Rightarrow> goal \<Rightarrow> ('h, unit) goal_step" where
  "append_goal_custom_message env g = append_custom_message env g (goal_message g)"

definition append_budget_message :: "'h goal_env \<Rightarrow> goal \<Rightarrow> string \<Rightarrow> ('h, unit) goal_step" where
  "append_budget_message env g reason = append_custom_message env g
     (PAUSE @ '' Goal paused '' @ DASH @ '' '' @ reason @ '': '' @ title g @
      ''. Resume with `goal resume` or `/goal resume`.'')"

text \<open>\<open>flush_pending_inject_with\<close>: the notice is taken, delivered, and settled. While the host delivers it,
  other calls may queue and deliver newer ones; \<open>meanwhile\<close> is what they do.\<close>

definition settle_injection :: "pending_injection \<Rightarrow> bool \<Rightarrow> 'h goal_world \<Rightarrow> 'h goal_world" where
  "settle_injection p delivered w =
     (if injection_revision w \<noteq> inj_revision p then w
      else if delivered then remember_injected (Some (fingerprint (inj_goal p))) w
      else w\<lparr>pending_inject := (case pending_inject w of None \<Rightarrow> Some p | Some q \<Rightarrow> Some q)\<rparr>)"

definition flush_pending_inject_with ::
  "(pending_injection \<Rightarrow> ('h, unit) goal_step) \<Rightarrow> ('h goal_world \<Rightarrow> 'h goal_world) \<Rightarrow>
   'h goal_world \<Rightarrow> 'h goal_world" where
  "flush_pending_inject_with inject meanwhile w = (case pending_inject w of
     None \<Rightarrow> w
   | Some p \<Rightarrow> (case inject p (w\<lparr>pending_inject := None\<rparr>) of
       (r, w') \<Rightarrow> settle_injection p (is_ok r) (meanwhile w')))"

definition deliver :: "'h goal_env \<Rightarrow> pending_injection \<Rightarrow> ('h, unit) goal_step" where
  "deliver env p = (case inj_reason p of
     Some reason \<Rightarrow> append_budget_message env (inj_goal p) reason
   | None \<Rightarrow> append_goal_custom_message env (inj_goal p))"

definition flush_pending_inject ::
  "'h goal_env \<Rightarrow> ('h goal_world \<Rightarrow> 'h goal_world) \<Rightarrow> 'h goal_world \<Rightarrow> 'h goal_world" where
  "flush_pending_inject env meanwhile w = (case flush_pending_state env w of
     (False, w') \<Rightarrow> w'
   | (True, w') \<Rightarrow> flush_pending_inject_with (deliver env) meanwhile w')"

section \<open>Operations\<close>

definition require_active :: "goals \<Rightarrow> string + goal" where
  "require_active gs = ok_or (''no active goal '' @ DASH @ '' start one first'') (active_goal gs)"

definition validate_title :: "string \<Rightarrow> string + string" where
  "validate_title t =
     (let s = trim t in
      if s = [] then Inl ''goal title is required''
      else if MAX_TITLE_CHARS < char_count s
      then Inl (''title must not exceed '' @ show_nat MAX_TITLE_CHARS @ '' characters'')
      else Inr s)"

definition validate_notes :: "string \<Rightarrow> string + string" where
  "validate_notes t =
     (let s = trim t in
      if MAX_NOTES_CHARS < char_count s
      then Inl (''notes must not exceed '' @ show_nat MAX_NOTES_CHARS @ '' characters'')
      else Inr s)"

text \<open>With a runtime the state is queued, without one it is written at once; the notice is queued.\<close>

definition save_goals :: "'h goal_env \<Rightarrow> goals \<Rightarrow> goal \<Rightarrow> ('h, unit) goal_step" where
  "save_goals env gs g w =
     thenR (if env_call env \<noteq> None then (Inr (), queue_state gs w) else write_goals env gs w)
       (\<lambda>_ w. (Inr (), queue_inject g w))"

definition persist_and_queue :: "'h goal_env \<Rightarrow> goals \<Rightarrow> goal \<Rightarrow> ('h, unit) goal_step" where
  "persist_and_queue env gs g = save_goals env (gs\<lparr>active_goal := Some g\<rparr>) g"

definition op_start ::
  "'h goal_env \<Rightarrow> string \<Rightarrow> string \<Rightarrow> u32 option \<Rightarrow> i64 option \<Rightarrow> ('h, goal) goal_step" where
  "op_start env t n turns deadline w = (case validate_title t of
     Inl e \<Rightarrow> (Inl e, w)
   | Inr t' \<Rightarrow> (case validate_notes n of
       Inl e \<Rightarrow> (Inl e, w)
     | Inr n' \<Rightarrow>
         let g = \<lparr>title = t', status = ''active'', goal_notes = n', started_at = now_ms env,
                  updated_at = now_ms env, turns_used = 0, max_turns = turns, deadline_ms = deadline\<rparr>
         in thenR (read_goals env w) (\<lambda>gs w.
              thenR (persist_and_queue env
                (case active_goal gs of None \<Rightarrow> gs
                 | Some old \<Rightarrow> gs\<lparr>active_goal := None, archived := archived gs @ [old]\<rparr>) g w)
                (\<lambda>_ w. (Inr g, w)))))"

definition updated_goal :: "goal \<Rightarrow> i64 \<Rightarrow> string option \<Rightarrow> string option \<Rightarrow> string + goal" where
  "updated_goal g now notes st =
     bindR (case notes of None \<Rightarrow> Inr g
            | Some n \<Rightarrow> bindR (validate_notes n) (\<lambda>n'. Inr (g\<lparr>goal_notes := n'\<rparr>)))
       (\<lambda>g. bindR (case st of None \<Rightarrow> Inr g
               | Some s \<Rightarrow> if s \<in> {''active'', ''paused''} then Inr (g\<lparr>status := s\<rparr>)
                   else Inl (''status must be '' @ [CHR 0x22] @ ''active'' @ [CHR 0x22] @ '' or '' @
                             [CHR 0x22] @ ''paused'' @ [CHR 0x22]))
          (\<lambda>g. Inr (g\<lparr>updated_at := now\<rparr>)))"

definition op_update :: "'h goal_env \<Rightarrow> string option \<Rightarrow> string option \<Rightarrow> ('h, goal) goal_step" where
  "op_update env notes st w = thenR (read_goals env w) (\<lambda>gs w.
     thenR (bindR (require_active gs) (\<lambda>g. updated_goal g (now_ms env) notes st), w) (\<lambda>g w.
       thenR (persist_and_queue env gs g w) (\<lambda>_ w. (Inr g, w))))"

definition op_set_status :: "'h goal_env \<Rightarrow> string \<Rightarrow> ('h, goal) goal_step" where
  "op_set_status env st = op_update env None (Some st)"

text \<open>\<open>None\<close> leaves a limit, \<open>Some None\<close> clears it.\<close>

definition apply_limits :: "goal \<Rightarrow> i64 \<Rightarrow> u32 option option \<Rightarrow> int option option \<Rightarrow> goal" where
  "apply_limits g now turns deadline =
     (let g = (case turns of None \<Rightarrow> g | Some t \<Rightarrow> g\<lparr>max_turns := filter_opt (\<lambda>n. 0 < n) t\<rparr>);
          g = (case deadline of None \<Rightarrow> g
            | Some d \<Rightarrow> g\<lparr>deadline_ms := (case d of
                  Some ms \<Rightarrow> if 0 < ms then Some (add_ms now ms) else None
                | None \<Rightarrow> None)\<rparr>)
      in g\<lparr>updated_at := now\<rparr>)"

definition op_set_limits :: "'h goal_env \<Rightarrow> u32 option option \<Rightarrow> int option option \<Rightarrow> ('h, goal) goal_step" where
  "op_set_limits env turns deadline w = thenR (read_goals env w) (\<lambda>gs w.
     thenR (require_active gs, w) (\<lambda>g w.
       let g' = apply_limits g (now_ms env) turns deadline in
       thenR (persist_and_queue env gs g' w) (\<lambda>_ w. (Inr g', w))))"

definition op_complete :: "'h goal_env \<Rightarrow> ('h, goal) goal_step" where
  "op_complete env w = thenR (read_goals env w) (\<lambda>gs w.
     thenR (require_active gs, w) (\<lambda>g w.
       let d = g\<lparr>status := ''complete'', updated_at := now_ms env\<rparr> in
       thenR (save_goals env (gs\<lparr>active_goal := None, archived := archived gs @ [d]\<rparr>) d w)
         (\<lambda>_ w. (Inr d, w))))"

section \<open>The end of a turn\<close>

definition time_is_up :: "goal \<Rightarrow> bool" where
  "time_is_up g = (case deadline_ms g of None \<Rightarrow> False | Some d \<Rightarrow> d \<le>s updated_at g)"

definition turns_are_up :: "goal \<Rightarrow> bool" where
  "turns_are_up g = (case max_turns g of None \<Rightarrow> False | Some m \<Rightarrow> m \<le> turns_used g)"

definition exhausted :: "goal \<Rightarrow> string option" where
  "exhausted g =
     (if turns_are_up g then Some (''turn budget reached ('' @ show_u32 (unwrap_or 0 (max_turns g)) @ '')'')
      else if time_is_up g then Some ''time budget reached'' else None)"

definition counted :: "goal \<Rightarrow> i64 \<Rightarrow> goal" where
  "counted g now = g\<lparr>turns_used := sat_add (turns_used g) 1, updated_at := now\<rparr>"

definition count_turn ::
  "'h goal_env \<Rightarrow> ('h goal_world \<Rightarrow> 'h goal_world) \<Rightarrow> goals \<Rightarrow> goal \<Rightarrow> 'h goal_world \<Rightarrow> 'h goal_world" where
  "count_turn env meanwhile gs g w = (case exhausted g of
     Some reason \<Rightarrow>
       let g = g\<lparr>status := ''paused''\<rparr>;
           w = snd (write_goals env (gs\<lparr>active_goal := Some g\<rparr>) w)
       in flush_pending_inject env meanwhile (queue_notice g (Some reason) w)
   | None \<Rightarrow>
       let w = snd (write_goals env (gs\<lparr>active_goal := Some g\<rparr>) w) in
       if pending_inject w \<noteq> None \<or> \<not> should_inject (Some (fingerprint g)) w then w
       else case append_goal_custom_message env g w of
         (Inr _, w) \<Rightarrow> remember_injected (Some (fingerprint g)) w
       | (Inl _, w) \<Rightarrow> w)"

definition on_turn_end :: "'h goal_env \<Rightarrow> ('h goal_world \<Rightarrow> 'h goal_world) \<Rightarrow> 'h goal_world \<Rightarrow> 'h goal_world" where
  "on_turn_end env meanwhile w =
     (if is_subagent env then w
      else case read_goals env (flush_pending_inject env meanwhile w) of
        (Inl _, w) \<Rightarrow> w
      | (Inr gs, w) \<Rightarrow> (case active_goal gs of
          None \<Rightarrow> remember_injected None w
        | Some g \<Rightarrow>
            if status g \<noteq> ''active'' then w
            else count_turn env meanwhile gs (counted g (now_ms env)) w))"

section \<open>The tool\<close>

definition notes_or :: "string \<Rightarrow> goal \<Rightarrow> string" where
  "notes_or none g = (if trim (goal_notes g) = [] then none else goal_notes g)"

definition tool_envelope :: "string \<Rightarrow> string \<Rightarrow> bool \<Rightarrow> goal option \<Rightarrow> json" where
  "tool_envelope action t act g = JObj
     [(''content'', JArr [JObj [(''type'', JStr ''text''), (''text'', JStr t)]]),
      (''details'', JObj [(''kind'', JStr ''goal''), (''action'', JStr action), (''active'', JBool act),
         (''markdown'', JBool True),
         (''goal'', case g of None \<Rightarrow> JNull | Some g \<Rightarrow> goal_summary_json g)])]"

definition goal_card :: "goal \<Rightarrow> i64 \<Rightarrow> string" where
  "goal_card g now = ''**'' @ title g @ ''**  ('' @ status g @ '')'' @ [NL, NL] @ notes_or ''_no notes_'' g @
     [NL, NL] @ budget_summary g now"

definition show_goal :: "'h goal_env \<Rightarrow> ('h, json) goal_step" where
  "show_goal env w = thenR (read_goals env w) (\<lambda>gs w. (Inr (tool_envelope ''show''
     (case active_goal gs of
        Some g \<Rightarrow> ''## '' @ TARGET @ '' Current goal'' @ [NL, NL] @ goal_card g (now_ms env)
      | None \<Rightarrow> ''## '' @ TARGET @ '' Goal'' @ [NL, NL] @ ''_No active goal._ Start one with `goal start`.'')
     (active_goal gs \<noteq> None) (active_goal gs)), w))"

definition list_goals :: "'h goal_env \<Rightarrow> ('h, json) goal_step" where
  "list_goals env w = thenR (read_goals env w) (\<lambda>gs w. (Inr (tool_envelope ''list''
     (join_lines ((''## '' @ TARGET @ '' Goals'') #
        (case active_goal gs of
           Some g \<Rightarrow> ''- **'' @ title g @ ''** ('' @ status g @ ''): '' @ notes_or ''_no notes_'' g
         | None \<Rightarrow> ''_No active goal._'') #
        (if archived gs = [] then []
         else [] # ''### Archived'' # map (\<lambda>g. ''- ~~'' @ title g @ ''~~'') (archived gs))))
     (active_goal gs \<noteq> None) (active_goal gs)), w))"

definition param_u32 :: "json \<Rightarrow> string \<Rightarrow> u32 option" where
  "param_u32 params key = map_option ucast (get_u64 key params)"

definition start_goal :: "'h goal_env \<Rightarrow> json \<Rightarrow> ('h, json) goal_step" where
  "start_goal env params w = (case get_str ''title'' params of
     None \<Rightarrow> (Inl ''goal title is required'', w)
   | Some t \<Rightarrow>
       let turns = filter_opt (\<lambda>n. 0 < n) (param_u32 params ''maxTurns'');
           deadline = map_option (\<lambda>m. add_ms (now_ms env) (int (unat m) * 60000))
             (filter_opt (\<lambda>n. 0 < n) (param_u32 params ''maxMinutes''))
       in thenR (op_start env t (unwrap_or [] (get_str ''notes'' params)) turns deadline w) (\<lambda>g w.
            (Inr (tool_envelope ''start'' (''## '' @ TARGET @ '' Goal started'' @ [NL, NL] @ ''**'' @ title g @ ''**'' @
               [NL, NL] @ notes_or ''_no notes_'' g @ [NL, NL] @ ''_'' @ budget_summary g (now_ms env) @ ''_'')
               True (Some g)), w)))"

definition update_goal :: "'h goal_env \<Rightarrow> json \<Rightarrow> ('h, json) goal_step" where
  "update_goal env params w =
     (let notes = get_str ''notes'' params; st = get_str ''status'' params in
      if notes = None \<and> st = None then (Inl ''update requires `notes` and/or `status`'', w)
      else thenR (op_update env notes st w) (\<lambda>g w.
        (Inr (tool_envelope ''update'' (''## '' @ TARGET @ '' Goal updated'' @ [NL, NL] @ goal_card g (now_ms env))
           True (Some g)), w)))"

definition status_goal :: "'h goal_env \<Rightarrow> string \<Rightarrow> ('h, json) goal_step" where
  "status_goal env st w = thenR (op_set_status env st w) (\<lambda>g w.
     (Inr (tool_envelope (if st = ''paused'' then ''pause'' else ''resume'')
        (''## '' @ TARGET @ '' Goal '' @ (if st = ''paused'' then ''paused'' else ''resumed'') @ [NL, NL] @
         ''**'' @ title g @ ''**'') True (Some g)), w))"

definition complete_goal :: "'h goal_env \<Rightarrow> ('h, json) goal_step" where
  "complete_goal env w = thenR (op_complete env w) (\<lambda>g w.
     (Inr (tool_envelope ''complete'' (''## '' @ TICK @ '' Goal complete'' @ [NL, NL] @ ''**'' @ title g @ ''**  '' @
        [NL, NL] @ ''Archived. The goal is no longer injected into context.'') False (Some g)), w))"

definition limit_goal :: "'h goal_env \<Rightarrow> json \<Rightarrow> ('h, json) goal_step" where
  "limit_goal env params w =
     (let turns = map_option (\<lambda>v. max (ucast v) 1) (get_u64 ''maxTurns'' params);
          minutes = map_option (\<lambda>v. wrap64 (sint v * 60000)) (get_u64 ''maxMinutes'' params)
      in if turns = None \<and> minutes = None then (Inl ''limit requires `maxTurns` and/or `maxMinutes`'', w)
         else thenR (op_set_limits env (map_option Some turns) (map_option Some minutes) w) (\<lambda>g w.
           (Inr (tool_envelope ''limit'' (''## '' @ TARGET @ '' Goal budget updated'' @ [NL, NL] @ ''**'' @ title g @ ''**'' @
              [NL, NL] @ budget_summary g (now_ms env)) True (Some g)), w)))"

definition goal_tool :: "'h goal_env \<Rightarrow> json \<Rightarrow> ('h, json) goal_step" where
  "goal_tool env params w =
     (let action = to_lower env (unwrap_or ''show'' (get_str ''action'' params)) in
      if action = ''start'' then start_goal env params w
      else if action = ''update'' then update_goal env params w
      else if action = ''pause'' then status_goal env ''paused'' w
      else if action = ''resume'' then status_goal env ''active'' w
      else if action = ''complete'' then complete_goal env w
      else if action = ''limit'' then limit_goal env params w
      else if action \<in> {''show'', ''status''} then show_goal env w
      else if action = ''list'' then list_goals env w
      else (Inl (''unknown goal action: '' @ action), w))"

section \<open>The handle and the command\<close>

record goal_drive =
  drive_params :: json
  drive_done :: bool
  cancelled :: bool

definition execute_goal :: "(string \<Rightarrow> json option) \<Rightarrow> string \<Rightarrow> goal_drive" where
  "execute_goal from_str arguments =
     \<lparr>drive_params = unwrap_or JNull (from_str arguments), drive_done = False, cancelled = False\<rparr>"

text \<open>\<open>entry\<close> is what the host's handle table holds for a handle that is not null.\<close>

definition poll_goal ::
  "'h goal_env \<Rightarrow> bool \<Rightarrow> goal_drive option \<Rightarrow> 'h goal_world \<Rightarrow> (string + json) \<times> goal_drive option \<times> 'h goal_world" where
  "poll_goal env null entry w =
     (if null then (Inl ''null goal handle'', entry, w)
      else case entry of
        None \<Rightarrow> (Inl ''invalid or destroyed tool handle'', entry, w)
      | Some d \<Rightarrow>
          let d' = d\<lparr>drive_done := True\<rparr> in
          if cancelled d then (Inl ''goal cancelled'', Some d', w)
          else if drive_done d then (Inl ''goal polled after completion'', entry, w)
          else (case goal_tool env (drive_params d) w of (r, w') \<Rightarrow> (r, Some d', w')))"

text \<open>\<open>split_title_notes\<close>: words behind \<open>--notes\<close> or \<open>-n\<close>, up to the next option, are the notes.\<close>

function title_notes :: "string list \<Rightarrow> string list \<Rightarrow> string option \<Rightarrow> string list \<times> string option" where
  "title_notes [] parts notes = (parts, notes)"
| "title_notes (t # ts) parts notes =
     (if t = ''--notes'' \<or> t = ''-n''
      then title_notes (dropWhile (\<lambda>x. \<not> starts_with ''--'' x) ts) parts
             (Some (join '' '' (takeWhile (\<lambda>x. \<not> starts_with ''--'' x) ts)))
      else title_notes ts (parts @ [t]) notes)"
  by pat_completeness auto
termination by (relation "measure (\<lambda>(ts, _). length ts)") (auto simp: less_Suc_eq_le length_dropWhile_le)

definition split_title_notes :: "string \<Rightarrow> string \<times> string option" where
  "split_title_notes rest = (case title_notes (split_whitespace rest) [] None of (parts, notes) \<Rightarrow> (join '' '' parts, notes))"

definition render_status_text :: "goal option \<Rightarrow> i64 \<Rightarrow> string" where
  "render_status_text g now = (case g of
     Some g \<Rightarrow> TARGET @ '' '' @ title g @ [NL] @ ''status: '' @ status g @ [NL] @ ''notes: '' @ notes_or ''(no notes)'' g @
       [NL] @ budget_summary g now
   | None \<Rightarrow> TARGET @ '' No active goal. Start one with `/goal start <title>`.'')"

definition render_list_text :: "goals \<Rightarrow> i64 \<Rightarrow> string" where
  "render_list_text gs now = join_lines ((TARGET @ '' Goals'') #
     (case active_goal gs of
        Some g \<Rightarrow> BULLET @ '' '' @ title g @ '' ('' @ status g @ '') '' @ DASH @ '' '' @ budget_summary g now
      | None \<Rightarrow> BULLET @ '' (no active goal)'') #
     (if archived gs = [] then []
      else (''archived: '' @ show_nat (length (archived gs))) #
           map (\<lambda>g. ''  '' @ N_DASH @ '' '' @ title g) (archived gs)))"

definition start_prompt :: "goal \<Rightarrow> string" where
  "start_prompt g = ''Work on the active goal: '' @ title g @
     (if trim (goal_notes g) = [] then [] else [NL] @ ''Notes: '' @ goal_notes g)"

text \<open>The first run is started on a thread of its own, which sends the prompt; \<open>w_runs\<close> has the prompts.\<close>

definition start_from_command ::
  "'h goal_env \<Rightarrow> ('h goal_world \<Rightarrow> 'h goal_world) \<Rightarrow> string \<Rightarrow> string \<Rightarrow> ('h, string) goal_step" where
  "start_from_command env meanwhile t n w = thenR (op_start env t n None None w) (\<lambda>g w.
     (case flush_pending_state env w of
        (False, w) \<Rightarrow> (Inl ''unable to persist the goal state'', w)
      | (True, w) \<Rightarrow>
          let w = flush_pending_inject env meanwhile w in
          case spawn_fault env of
            Some e \<Rightarrow> (Inl (''unable to start goal worker: '' @ e), w)
          | None \<Rightarrow> (Inr (TARGET @ '' Goal started: '' @ title g @ [NL] @ budget_summary g (now_ms env) @ [NL] @
                INFO @ '' Goal recorded; the first work run is starting in the background.''),
              w\<lparr>w_runs := w_runs w @ [start_prompt g]\<rparr>)))"

definition COMMAND_HELP :: string where
  "COMMAND_HELP = join_lines
     [''/goal                     show status'',
      ''/goal start <title>       start a goal (--notes '' @ [CHR 0x22] @ ''...'' @ [CHR 0x22] @ '' optional)'',
      ''/goal <title...>          shorthand for start'',
      ''/goal pause | resume      pause / resume the active goal'',
      ''/goal stop                complete and archive the goal'',
      ''/goal turns <N>           max turns (0 clears)'',
      ''/goal time <dur>          max duration, e.g. 30m / 2h / 90s / 1h30m (0 clears)'',
      ''/goal limit <N> [<dur>]   set both budgets'',
      ''/goal clear               clear both budgets'',
      ''/goal list                list active + archived goals'',
      ''/goal help                this help'']"

text \<open>\<open>split_once(char::is_whitespace)\<close>\<close>

definition split_head :: "string \<Rightarrow> string \<times> string" where
  "split_head s =
     (let gs = chars s; rest = dropWhile (\<lambda>g. \<not> is_ws g) gs
      in (concat (takeWhile (\<lambda>g. \<not> is_ws g) gs), trim (concat (tl rest))))"

definition some_limit :: "'a::zero \<Rightarrow> 'a option option" where
  "some_limit n = Some (if n = 0 then None else Some n)"

definition parse_turns :: "string \<Rightarrow> string + u32" where
  "parse_turns s = (case parse_unsigned (2 ^ 32) s of
     Some n \<Rightarrow> Inr (word_of_nat n)
   | None \<Rightarrow> Inl (''`'' @ s @ ''` is not a turn count''))"

definition set_limits_text ::
  "'h goal_env \<Rightarrow> string \<Rightarrow> u32 option option \<Rightarrow> int option option \<Rightarrow> ('h, string) goal_step" where
  "set_limits_text env what turns deadline w = thenR (op_set_limits env turns deadline w) (\<lambda>g w.
     (Inr (''Budget '' @ what @ '': '' @ budget_summary g (now_ms env)), w))"

text \<open>An \<open>Inl\<close> of the outer sum is an answer that is given as it is.\<close>

definition limit_command :: "'h goal_env \<Rightarrow> string \<Rightarrow> 'h goal_world \<Rightarrow> (string + (string + string)) \<times> 'h goal_world" where
  "limit_command env rest w = (case split_whitespace rest of
     [] \<Rightarrow> (Inl ''Usage: /goal limit <turns> [duration]'', w)
   | token # later \<Rightarrow> (case parse_turns token of
       Inl e \<Rightarrow> (Inl e, w)
     | Inr n \<Rightarrow>
         let go = (\<lambda>deadline. case set_limits_text env ''updated'' (some_limit n) deadline w of (r, w') \<Rightarrow> (Inr r, w'))
         in case later of
           [] \<Rightarrow> go None
         | spec # _ \<Rightarrow> (case parse_duration_ms (to_lower env) spec of
             Inl e \<Rightarrow> (Inl e, w)
           | Inr ms \<Rightarrow> go (some_limit ms))))"

definition goal_verb ::
  "'h goal_env \<Rightarrow> ('h goal_world \<Rightarrow> 'h goal_world) \<Rightarrow> string \<Rightarrow> string \<Rightarrow> string \<Rightarrow> ('h, string) goal_step" where
  "goal_verb env meanwhile args head rest w =
     (if head \<in> {[], ''status'', ''show''} then
        thenR (read_goals env w) (\<lambda>gs w. (Inr (render_status_text (active_goal gs) (now_ms env)), w))
      else if head = ''list'' then
        thenR (read_goals env w) (\<lambda>gs w. (Inr (render_list_text gs (now_ms env)), w))
      else if head = ''help'' then (Inr COMMAND_HELP, w)
      else if head = ''start'' then
        (case split_title_notes rest of (t, n) \<Rightarrow> start_from_command env meanwhile t (unwrap_or [] n) w)
      else if head = ''pause'' then
        thenR (op_set_status env ''paused'' w) (\<lambda>g w. (Inr (PAUSE @ '' Paused: '' @ title g), w))
      else if head = ''resume'' then
        thenR (op_set_status env ''active'' w) (\<lambda>g w. (Inr (PLAY @ '' Resumed: '' @ title g), w))
      else if head \<in> {''stop'', ''done'', ''complete''} then
        thenR (op_complete env w) (\<lambda>g w. (Inr (TICK @ '' Completed: '' @ title g), w))
      else if head = ''turns'' then
        thenR (parse_turns rest, w) (\<lambda>n w. set_limits_text env ''updated'' (some_limit n) None w)
      else if head = ''time'' then
        thenR (parse_duration_ms (to_lower env) rest, w) (\<lambda>ms w. set_limits_text env ''updated'' None (some_limit ms) w)
      else if head = ''clear'' then set_limits_text env ''cleared'' (Some None) (Some None) w
      else (case split_title_notes args of (t, n) \<Rightarrow> start_from_command env meanwhile t (unwrap_or [] n) w))"

definition run_command ::
  "'h goal_env \<Rightarrow> ('h goal_world \<Rightarrow> 'h goal_world) \<Rightarrow> string \<Rightarrow> 'h goal_world \<Rightarrow> string \<times> 'h goal_world" where
  "run_command env meanwhile input w =
     (let args = trim input; (verb, rest) = split_head args; head = to_lower env verb in
      case (if head = ''limit'' then limit_command env rest w
            else case goal_verb env meanwhile args head rest w of (r, w') \<Rightarrow> (Inr r, w')) of
        (Inl answer, w') \<Rightarrow> (answer, w')
      | (Inr (Inr t), w') \<Rightarrow> (t, w')
      | (Inr (Inl e), w') \<Rightarrow> (WARN @ '' '' @ e, w'))"

definition goal_command ::
  "'h goal_env \<Rightarrow> ('h goal_world \<Rightarrow> 'h goal_world) \<Rightarrow> json \<Rightarrow> 'h goal_world \<Rightarrow> json \<times> 'h goal_world" where
  "goal_command env meanwhile envelope w =
     (case run_command env meanwhile (trim (unwrap_or [] (get_str ''args'' envelope))) w of
        (t, w') \<Rightarrow> (JObj [(''kind'', JStr ''message''), (''text'', JStr t)], flush_pending_inject env meanwhile w'))"

end
