(* ===== verification/Goal_Correct.thy ===== *)
theory Goal_Correct
  imports Goal
begin

text \<open>
  Goal mode implements a plain state, the goals, on which a change and the end of a turn are functions.
  The plugin keeps it in two places, the queue and the branch of the session; on a host that appends
  what it is given (the locale \<open>goal_host\<close>) the two together behave like the plain state, and so the
  budget of a goal is kept. A lemma shows a turn that is not counted when the host fails once.
\<close>

section \<open>The plain state\<close>

datatype goal_change =
    Begin string string "u32 option" "i64 option"
  | Amend "string option" "string option"
  | Limit "u32 option option" "int option option"
  | Finish

fun change_goals :: "i64 \<Rightarrow> goal_change \<Rightarrow> goals \<Rightarrow> string + goals \<times> goal" where
  "change_goals now (Begin t n turns deadline) gs =
     bindR (validate_title t) (\<lambda>t. bindR (validate_notes n) (\<lambda>n.
       let g = \<lparr>title = t, status = ''active'', goal_notes = n, started_at = now, updated_at = now,
                turns_used = 0, max_turns = turns, deadline_ms = deadline\<rparr>
       in Inr (\<lparr>active_goal = Some g,
                archived = archived gs @ (case active_goal gs of None \<Rightarrow> [] | Some old \<Rightarrow> [old])\<rparr>, g)))"
| "change_goals now (Amend n st) gs =
     bindR (require_active gs) (\<lambda>g. bindR (updated_goal g now n st) (\<lambda>g. Inr (gs\<lparr>active_goal := Some g\<rparr>, g)))"
| "change_goals now (Limit turns deadline) gs =
     bindR (require_active gs) (\<lambda>g. let g = apply_limits g now turns deadline in Inr (gs\<lparr>active_goal := Some g\<rparr>, g))"
| "change_goals now Finish gs =
     bindR (require_active gs) (\<lambda>g. let g = g\<lparr>status := ''complete'', updated_at := now\<rparr> in
       Inr (gs\<lparr>active_goal := None, archived := archived gs @ [g]\<rparr>, g))"

definition turn_goal :: "i64 \<Rightarrow> goal \<Rightarrow> goal" where
  "turn_goal now g =
     (if status g \<noteq> ''active'' then g
      else let g = counted g now in if exhausted g = None then g else g\<lparr>status := ''paused''\<rparr>)"

definition turn_goals :: "i64 \<Rightarrow> goals \<Rightarrow> goals" where
  "turn_goals now gs = gs\<lparr>active_goal := map_option (turn_goal now) (active_goal gs)\<rparr>"

text \<open>The operation of the plugin that makes a change.\<close>

fun make_change :: "'h goal_env \<Rightarrow> goal_change \<Rightarrow> ('h, goal) goal_step" where
  "make_change env (Begin t n turns deadline) = op_start env t n turns deadline"
| "make_change env (Amend n st) = op_update env n st"
| "make_change env (Limit turns deadline) = op_set_limits env turns deadline"
| "make_change env Finish = op_complete env"

section \<open>A host that keeps what it is given\<close>

text \<open>\<open>goals_of\<close> is what the branch of the current session holds.\<close>

locale goal_host =
  fixes env :: "'h goal_env" and call :: "'h caller" and goals_of :: "'h \<Rightarrow> goals"
  assumes connected: "env_call env = Some call" "\<not> is_subagent env"
    and reads: "\<exists>v h'. call GetSessionBranch args h = (Inr v, h') \<and> branch_goals env v = Inr (goals_of h) \<and>
      goals_of h' = goals_of h"
    and appends: "\<exists>v h'. call AppendEntry (JObj [(''customType'', JStr GOAL_STATE_ENTRY), (''data'', goals_json gs)]) h =
      (Inr v, h') \<and> goals_of h' = gs"
    and messages: "call AppendEntry (JObj [(''message'', m)]) h = (r, h') \<Longrightarrow> goals_of h' = goals_of h"
begin

end

text \<open>The state in effect is the one that is queued, else the one on the branch.\<close>

definition effective :: "('h \<Rightarrow> goals) \<Rightarrow> 'h goal_world \<Rightarrow> goals" where
  "effective goals_of w = (case pending_state w of Some gs \<Rightarrow> gs | None \<Rightarrow> goals_of (w_host w))"

context goal_host
begin

lemma read_effective: "\<exists>w'. read_goals env w = (Inr (effective goals_of w), w') \<and> effective goals_of w' = effective goals_of w \<and>
    pending_state w' = pending_state w"
proof (cases "pending_state w")
  case None
  obtain v h' where "call GetSessionBranch (JObj [(''customTypes'', JArr [JStr GOAL_STATE_ENTRY])]) (w_host w) = (Inr v, h')"
    "branch_goals env v = Inr (goals_of (w_host w))" "goals_of h' = goals_of (w_host w)" using reads by blast
  with None show ?thesis by (simp add: read_goals_def connected call_host_def effective_def)
qed (simp add: read_goals_def connected effective_def)

lemma write_host: "\<exists>h'. write_goals env gs w = (Inr (), w\<lparr>w_host := h'\<rparr>) \<and> goals_of h' = gs"
proof -
  obtain v h' where "call AppendEntry (JObj [(''customType'', JStr GOAL_STATE_ENTRY), (''data'', goals_json gs)]) (w_host w) =
    (Inr v, h')" "goals_of h' = gs" using appends by blast
  then show ?thesis by (auto simp: write_goals_def connected call_host_def)
qed

lemma message_host: "append_custom_message env g t w = (r, w') \<Longrightarrow>
    \<exists>h'. w' = w\<lparr>w_host := h'\<rparr> \<and> goals_of h' = goals_of (w_host w)"
  using messages
  by (auto simp: append_custom_message_def call_host_def connected thenR_def split: prod.splits sum.splits)

lemma save_effective: "\<exists>w'. save_goals env gs g w = (Inr (), w') \<and> effective goals_of w' = gs"
  by (simp add: save_goals_def connected queue_state_def queue_inject_def queue_notice_def effective_def Let_def)

lemma change_effective:
  assumes "make_change env c w = (r, w')"
  shows "case change_goals (now_ms env) c (effective goals_of w) of
      Inl e \<Rightarrow> r = Inl e \<and> effective goals_of w' = effective goals_of w
    | Inr (gs, g) \<Rightarrow> r = Inr g \<and> effective goals_of w' = gs"
proof -
  obtain w1 where read: "read_goals env w = (Inr (effective goals_of w), w1)"
    "effective goals_of w1 = effective goals_of w" using read_effective by blast
  have saved: "\<exists>w'. save_goals env gs g v = (Inr (), w') \<and> effective goals_of w' = gs" for gs g v
    by (rule save_effective)
  show ?thesis
  proof (cases c)
    case (Begin t n turns deadline)
    show ?thesis
    proof (cases "validate_title t")
      case title: (Inr t')
      show ?thesis
      proof (cases "validate_notes n")
        case valid: (Inr n')
        let ?g = "\<lparr>title = t', status = ''active'', goal_notes = n', started_at = now_ms env,
          updated_at = now_ms env, turns_used = 0, max_turns = turns, deadline_ms = deadline\<rparr>"
        let ?gs = "(case active_goal (effective goals_of w) of None \<Rightarrow> effective goals_of w
          | Some old \<Rightarrow> (effective goals_of w)\<lparr>active_goal := None,
              archived := archived (effective goals_of w) @ [old]\<rparr>)\<lparr>active_goal := Some ?g\<rparr>"
        obtain w2 where "save_goals env ?gs ?g w1 = (Inr (), w2)" "effective goals_of w2 = ?gs"
          using saved by blast
        moreover have "?gs = \<lparr>active_goal = Some ?g, archived = archived (effective goals_of w) @
            (case active_goal (effective goals_of w) of None \<Rightarrow> [] | Some old \<Rightarrow> [old])\<rparr>"
          by (cases "effective goals_of w") (simp split: option.split)
        ultimately show ?thesis
          using assms Begin title valid read by (simp add: op_start_def persist_and_queue_def Let_def)
      qed (use assms Begin title in \<open>simp add: op_start_def\<close>)
    qed (use assms Begin in \<open>simp add: op_start_def\<close>)
  next
    case (Amend n st)
    let ?m = "bindR (require_active (effective goals_of w)) (\<lambda>g. updated_goal g (now_ms env) n st)"
    have spec: "change_goals (now_ms env) c (effective goals_of w) =
        bindR ?m (\<lambda>g. Inr ((effective goals_of w)\<lparr>active_goal := Some g\<rparr>, g))"
      using Amend by (simp add: bindR_def split: sum.split)
    have run: "make_change env c w =
        thenR (?m, w1) (\<lambda>g w. thenR (persist_and_queue env (effective goals_of w1) g w) (\<lambda>_ w. (Inr g, w)))"
      using Amend read by (simp add: op_update_def)
    show ?thesis
    proof (cases ?m)
      case (Inl e)
      then have "r = Inl e" "w' = w1" using assms run by auto
      with spec Inl read show ?thesis by simp
    next
      case (Inr g)
      obtain w2 where w2: "save_goals env ((effective goals_of w)\<lparr>active_goal := Some g\<rparr>) g w1 = (Inr (), w2)"
        "effective goals_of w2 = (effective goals_of w)\<lparr>active_goal := Some g\<rparr>" using saved by blast
      then have "r = Inr g" "w' = w2" using assms run Inr read(2) by (auto simp: persist_and_queue_def)
      with spec Inr w2 show ?thesis by simp
    qed
  next
    case (Limit turns deadline)
    show ?thesis
    proof (cases "require_active (effective goals_of w)")
      case (Inr g)
      let ?g = "apply_limits g (now_ms env) turns deadline"
      obtain w2 where "save_goals env ((effective goals_of w)\<lparr>active_goal := Some ?g\<rparr>) ?g w1 = (Inr (), w2)"
        "effective goals_of w2 = (effective goals_of w)\<lparr>active_goal := Some ?g\<rparr>" using saved by blast
      with assms Limit read Inr show ?thesis by (auto simp: op_set_limits_def persist_and_queue_def Let_def)
    next
      case (Inl e)
      then have "r = Inl e" "w' = w1" using assms Limit read by (auto simp: op_set_limits_def)
      with Limit Inl read show ?thesis by simp
    qed
  next
    case Finish
    show ?thesis
    proof (cases "require_active (effective goals_of w)")
      case (Inr g)
      let ?g = "g\<lparr>status := ''complete'', updated_at := now_ms env\<rparr>"
      let ?gs = "(effective goals_of w)\<lparr>active_goal := None, archived := archived (effective goals_of w) @ [?g]\<rparr>"
      obtain w2 where "save_goals env ?gs ?g w1 = (Inr (), w2)" "effective goals_of w2 = ?gs" using saved by blast
      with assms Finish read Inr show ?thesis by (auto simp: op_complete_def Let_def)
    next
      case (Inl e)
      then have "r = Inl e" "w' = w1" using assms Finish read by (auto simp: op_complete_def)
      with Finish Inl read show ?thesis by simp
    qed
  qed
qed

text \<open>The flush writes what is queued and delivers the notice; the state in effect stays.\<close>

lemma flush_state_effective:
  "\<exists>w'. flush_pending_state env w = (True, w') \<and> effective goals_of w' = effective goals_of w \<and> pending_state w' = None"
proof (cases "pending_state w")
  case (Some gs)
  obtain h' where "write_goals env gs (w\<lparr>pending_state := None\<rparr>) = (Inr (), w\<lparr>pending_state := None, w_host := h'\<rparr>)"
    "goals_of h' = gs" using write_host [of gs "w\<lparr>pending_state := None\<rparr>"] by blast
  with Some show ?thesis by (auto simp: flush_pending_state_def effective_def)
qed (simp add: flush_pending_state_def)

lemma settle_keeps [simp]:
  "pending_state (settle_injection p b w) = pending_state w" "w_host (settle_injection p b w) = w_host w"
  by (auto simp: settle_injection_def remember_injected_def)

lemma deliver_keeps: "deliver env p w = (r, w') \<Longrightarrow> pending_state w' = pending_state w \<and> goals_of (w_host w') = goals_of (w_host w)"
  by (auto simp: deliver_def append_budget_message_def append_goal_custom_message_def dest!: message_host split: option.splits)

lemma flush_inject_effective:
  "effective goals_of (flush_pending_inject env id w) = effective goals_of w \<and> pending_state (flush_pending_inject env id w) = None"
proof -
  obtain w1 where w1: "flush_pending_state env w = (True, w1)" "effective goals_of w1 = effective goals_of w"
    "pending_state w1 = None" using flush_state_effective by blast
  show ?thesis
  proof (cases "pending_inject w1")
    case (Some p)
    obtain r w2 where w2: "deliver env p (w1\<lparr>pending_inject := None\<rparr>) = (r, w2)" by fastforce
    from deliver_keeps [OF this] w1 have "pending_state w2 = None" "goals_of (w_host w2) = goals_of (w_host w1)" by auto
    with w1 w2 Some show ?thesis by (simp add: flush_pending_inject_def flush_pending_inject_with_def effective_def)
  qed (use w1 in \<open>simp add: flush_pending_inject_def flush_pending_inject_with_def effective_def\<close>)
qed

lemma turn_effective: "effective goals_of (on_turn_end env id w) = turn_goals (now_ms env) (effective goals_of w)"
proof -
  let ?w = "flush_pending_inject env id w"
  obtain w1 where read: "read_goals env ?w = (Inr (effective goals_of ?w), w1)"
    "effective goals_of w1 = effective goals_of ?w" "pending_state w1 = pending_state ?w" using read_effective by blast
  with flush_inject_effective [of w] have w1: "read_goals env ?w = (Inr (effective goals_of w), w1)"
    "effective goals_of w1 = effective goals_of w" "pending_state w1 = None" by auto
  show ?thesis
  proof (cases "active_goal (effective goals_of w)")
    case None
    with w1 show ?thesis
      by (simp add: on_turn_end_def connected remember_injected_def effective_def turn_goals_def)
  next
    case active: (Some g)
    show ?thesis
    proof (cases "status g = ''active''")
      case False
      with w1 active show ?thesis by (simp add: on_turn_end_def connected turn_goals_def turn_goal_def)
    next
      case True
      let ?g = "counted g (now_ms env)"
      have run: "on_turn_end env id w = count_turn env id (effective goals_of w) ?g w1"
        using w1 active True by (simp add: on_turn_end_def connected)
      show ?thesis
      proof (cases "exhausted ?g")
        case None
        let ?gs = "(effective goals_of w)\<lparr>active_goal := Some ?g\<rparr>"
        obtain h' where h': "write_goals env ?gs w1 = (Inr (), w1\<lparr>w_host := h'\<rparr>)" "goals_of h' = ?gs"
          using write_host by blast
        obtain r w2 where w2: "append_goal_custom_message env ?g (w1\<lparr>w_host := h'\<rparr>) = (r, w2)" by fastforce
        then obtain h2 where "w2 = w1\<lparr>w_host := h2\<rparr>" "goals_of h2 = ?gs"
          using h'(2) by (auto simp: append_goal_custom_message_def dest!: message_host)
        with None h' w1 w2 have "effective goals_of (count_turn env id (effective goals_of w) ?g w1) = ?gs"
          by (cases r) (simp_all add: count_turn_def effective_def remember_injected_def Let_def)
        with None active True run show ?thesis by (simp add: turn_goals_def turn_goal_def Let_def)
      next
        case (Some reason)
        let ?p = "?g\<lparr>status := ''paused''\<rparr>"
        let ?gs = "(effective goals_of w)\<lparr>active_goal := Some ?p\<rparr>"
        obtain h' where h': "write_goals env ?gs w1 = (Inr (), w1\<lparr>w_host := h'\<rparr>)" "goals_of h' = ?gs"
          using write_host by blast
        have "effective goals_of (queue_notice ?p (Some reason) (w1\<lparr>w_host := h'\<rparr>)) = ?gs"
          using w1 h' by (simp add: queue_notice_def effective_def Let_def)
        with Some h' have "effective goals_of (count_turn env id (effective goals_of w) ?g w1) = ?gs"
          by (simp add: count_turn_def Let_def flush_inject_effective)
        with Some active True run show ?thesis by (simp add: turn_goals_def turn_goal_def Let_def)
      qed
    qed
  qed
qed

end

section \<open>Sequences of calls\<close>

datatype goal_event = Changed goal_change | Turn_ended

definition goal_do :: "'h goal_env \<Rightarrow> i64 \<times> goal_event \<Rightarrow> 'h goal_world \<Rightarrow> 'h goal_world" where
  "goal_do env te w = (case te of
     (t, Changed c) \<Rightarrow> snd (make_change (env\<lparr>now_ms := t\<rparr>) c w)
   | (t, Turn_ended) \<Rightarrow> on_turn_end (env\<lparr>now_ms := t\<rparr>) id w)"

definition spec_do :: "i64 \<times> goal_event \<Rightarrow> goals \<Rightarrow> goals" where
  "spec_do te gs = (case te of
     (t, Changed c) \<Rightarrow> (case change_goals t c gs of Inl _ \<Rightarrow> gs | Inr (gs', _) \<Rightarrow> gs')
   | (t, Turn_ended) \<Rightarrow> turn_goals t gs)"

context goal_host
begin

lemma host_at: "goal_host (env\<lparr>now_ms := t\<rparr>) call goals_of"
proof
  have "branch_goals (env\<lparr>now_ms := t\<rparr>) v = branch_goals env v" for v
    by (simp add: branch_goals_def cong: option.case_cong)
  then show "\<exists>v h'. call GetSessionBranch args h = (Inr v, h') \<and>
      branch_goals (env\<lparr>now_ms := t\<rparr>) v = Inr (goals_of h) \<and> goals_of h' = goals_of h" for args h
    using reads by simp
qed (use connected appends messages in auto)

lemma do_effective: "effective goals_of (goal_do env te w) = spec_do te (effective goals_of w)"
proof (cases te)
  case (Pair t e)
  show ?thesis
  proof (cases e)
    case (Changed c)
    obtain r w' where "make_change (env\<lparr>now_ms := t\<rparr>) c w = (r, w')" by fastforce
    with goal_host.change_effective [OF host_at this] Pair Changed show ?thesis
      by (auto simp: goal_do_def spec_do_def split: sum.splits)
  next
    case Turn_ended
    with goal_host.turn_effective [OF host_at, of t w] Pair show ?thesis by (simp add: goal_do_def spec_do_def)
  qed
qed

lemma run_effective: "effective goals_of (fold (goal_do env) es w) = fold spec_do es (effective goals_of w)"
  by (induction es arbitrary: w) (simp_all add: do_effective)

end

section \<open>The budget\<close>

lemma turn_goal_active:
  assumes "status g = ''active''"
  shows "turns_used (turn_goal t g) = sat_add (turns_used g) 1"
    and "status (turn_goal t g) = (if turns_are_up (counted g t) \<or> time_is_up (counted g t) then ''paused'' else ''active'')"
    and "max_turns (turn_goal t g) = max_turns g" and "deadline_ms (turn_goal t g) = deadline_ms g"
  using assms by (auto simp: turn_goal_def counted_def exhausted_def Let_def split: if_splits)

lemma turn_goal_paused: "status g \<noteq> ''active'' \<Longrightarrow> turn_goal t g = g"
  by (simp add: turn_goal_def)

lemma turns_paused: "status g \<noteq> ''active'' \<Longrightarrow> fold turn_goal ts g = g"
  by (induction ts) (simp_all add: turn_goal_paused)

lemma fold_turn_goals:
  "fold spec_do (map (\<lambda>t. (t, Turn_ended)) ts) gs = gs\<lparr>active_goal := map_option (fold turn_goal ts) (active_goal gs)\<rparr>"
proof (induction ts arbitrary: gs)
  case Nil
  then show ?case by (cases gs) (simp add: option.map_ident)
next
  case (Cons t ts)
  then show ?case by (simp add: spec_do_def turn_goals_def option.map_comp comp_def)
qed

text \<open>The budget of turns is \<open>m\<close>: the goal is paused exactly when \<open>m\<close> turns are used or the time is up, it is
  never charged more turns than its budget and one, and while it is active every turn is counted.\<close>

lemma turns_budget:
  assumes "status g = ''active''" and "max_turns g = Some m"
  defines "left \<equiv> max 1 (unat m - unat (turns_used g))"
  shows "(status (fold turn_goal ts g) = ''active'' \<longleftrightarrow>
        length ts < left \<and> list_all (\<lambda>t. \<not> time_is_up (g\<lparr>updated_at := t\<rparr>)) ts) \<and>
      unat (turns_used (fold turn_goal ts g)) \<le> max (unat m) (unat (turns_used g) + 1) \<and>
      (status (fold turn_goal ts g) = ''active'' \<longrightarrow>
        unat (turns_used (fold turn_goal ts g)) = unat (turns_used g) + length ts)"
  using assms(1,2) unfolding left_def
proof (induction ts arbitrary: g)
  case Nil
  then show ?case by (auto simp: max_def)
next
  case (Cons t ts)
  let ?g = "turn_goal t g"
  have turned: "turns_used ?g = sat_add (turns_used g) 1" "max_turns ?g = Some m" "deadline_ms ?g = deadline_ms g"
    "status ?g = (if turns_are_up (counted g t) \<or> time_is_up (counted g t) then ''paused'' else ''active'')"
    using turn_goal_active [OF Cons.prems(1)] Cons.prems(2) by auto
  have used: "unat (sat_add (turns_used g) 1) = min (unat (turns_used g) + 1) (2 ^ 32 - 1)"
    by (simp add: unat_sat_add)
  have "unat m < 2 ^ LENGTH(32)" by (rule unsigned_less)
  then have m: "unat m \<le> 2 ^ 32 - 1" by simp
  have up: "turns_are_up (counted g t) \<longleftrightarrow> unat m \<le> unat (turns_used g) + 1"
    using Cons.prems(2) used m by (auto simp: turns_are_up_def counted_def word_le_nat_alt)
  have time: "time_is_up (counted g t) \<longleftrightarrow> time_is_up (g\<lparr>updated_at := t\<rparr>)"
    by (simp add: time_is_up_def counted_def split: option.split)
  show ?case
  proof (cases "status ?g = ''active''")
    case True
    then have more: "unat (turns_used g) + 1 < unat m" "\<not> time_is_up (g\<lparr>updated_at := t\<rparr>)"
      using turned(4) up time by (auto split: if_splits)
    then have plus: "unat (turns_used ?g) = unat (turns_used g) + 1" using turned(1) used m by simp
    have same: "time_is_up (?g\<lparr>updated_at := u\<rparr>) = time_is_up (g\<lparr>updated_at := u\<rparr>)" for u
      using turned(3) by (simp add: time_is_up_def split: option.split)
    from Cons.IH [OF True turned(2)] show ?thesis
      using more plus same by (simp add: less_max_iff_disj) linarith
  next
    case False
    then have "fold turn_goal (t # ts) g = ?g" by (simp add: turns_paused)
    moreover have "turns_are_up (counted g t) \<or> time_is_up (g\<lparr>updated_at := t\<rparr>)"
      using False turned(4) time by (auto split: if_splits)
    ultimately show ?thesis using False turned(1) used up by (auto simp: max_def)
  qed
qed

section \<open>A host\<close>

text \<open>A host with the entries of one branch; every action is acknowledged. \<open>read_goals_json\<close> reads what
  \<open>goals_json\<close> writes.\<close>

definition read_i64 :: "json \<Rightarrow> i64 option" where
  "read_i64 v = (case v of JUint n \<Rightarrow> Some n | JNeg i \<Rightarrow> Some (word_of_int i) | _ \<Rightarrow> None)"

definition read_opt :: "(json \<Rightarrow> 'a option) \<Rightarrow> json \<Rightarrow> 'a option option" where
  "read_opt f v = (if v = JNull then Some None else map_option Some (f v))"

definition read_goal_json :: "json \<Rightarrow> goal option" where
  "read_goal_json v = do {
     t \<leftarrow> get_str ''title'' v;
     s \<leftarrow> get_str ''status'' v;
     n \<leftarrow> get_str ''notes'' v;
     a \<leftarrow> Option.bind (jget ''startedAt'' v) read_i64;
     b \<leftarrow> Option.bind (jget ''updatedAt'' v) read_i64;
     u \<leftarrow> get_u64 ''turnsUsed'' v;
     m \<leftarrow> Option.bind (jget ''maxTurns'' v) (read_opt as_u64);
     d \<leftarrow> Option.bind (jget ''deadlineMs'' v) (read_opt read_i64);
     Some \<lparr>title = t, status = s, goal_notes = n, started_at = a, updated_at = b, turns_used = ucast u,
           max_turns = map_option ucast m, deadline_ms = d\<rparr>
   }"

definition read_goals_json :: "json \<Rightarrow> goals option" where
  "read_goals_json v = do {
     a \<leftarrow> Option.bind (jget ''active'' v) (read_opt read_goal_json);
     xs \<leftarrow> get_array ''archived'' v;
     (if list_all (\<lambda>x. read_goal_json x \<noteq> None) xs
      then Some \<lparr>active_goal = a, archived = List.map_filter read_goal_json xs\<rparr> else None)
   }"

lemma read_jint [simp]: "read_i64 (jint i) = Some i" "jint i \<noteq> JNull"
  by (simp_all add: read_i64_def jint_def)

lemma ucast_jnum: "ucast (ucast (n :: u32) :: u64) = n"
  by (simp add: ucast_up_ucast_id is_up)

lemma read_goal_json [simp]: "read_goal_json (goal_json g) = Some g" "goal_json g \<noteq> JNull"
  by (cases g; simp add: read_goal_json_def goal_json_def read_opt_def jnum_def ucast_jnum split: option.split)+

lemma read_goals_json: "read_goals_json (goals_json gs) = Some gs"
proof -
  have "List.map_filter read_goal_json (map goal_json xs) = xs" for xs
    by (induction xs) (simp_all add: List.map_filter_def)
  then show ?thesis
    by (cases gs) (simp add: read_goals_json_def goals_json_def read_opt_def list_all_iff split: option.split)
qed

definition branch_call :: "json list caller" where
  "branch_call a args es = (case a of
     GetSessionBranch \<Rightarrow> (Inr (JObj [(''filtered'', JBool True), (''entries'', JArr es)]), es)
   | AppendEntry \<Rightarrow> (Inr JNull, es @ [JObj (case args of
        JObj ((k, v) # kvs) \<Rightarrow> (''type'', JStr (if k = ''customType'' then ''custom'' else ''message'')) # (k, v) # kvs
      | _ \<Rightarrow> [])])
   | _ \<Rightarrow> (Inr JNull, es))"

definition branch_env :: "json list goal_env" where
  "branch_env = \<lparr>env_call = Some branch_call, decode_goals = read_goals_json, parse_file = (\<lambda>_. None),
     pretty_goals = (\<lambda>_. Inr []), file_fault = None, spawn_fault = None, now_ms = 0, is_subagent = False,
     to_lower = (\<lambda>s. s)\<rparr>"

definition branch_state :: "json list \<Rightarrow> goals" where
  "branch_state es = (case last_data es of None \<Rightarrow> default_goals | Some d \<Rightarrow> unwrap_or default_goals (read_goals_json d))"

interpretation bh: goal_host branch_env branch_call branch_state
proof
  show "\<exists>v h'. branch_call GetSessionBranch args h = (Inr v, h') \<and> branch_goals branch_env v = Inr (branch_state h) \<and>
      branch_state h' = branch_state h" for args h
    by (simp add: branch_call_def branch_goals_def branch_state_def branch_env_def cong: option.case_cong)
  show "\<exists>v h'. branch_call AppendEntry (JObj [(''customType'', JStr GOAL_STATE_ENTRY), (''data'', goals_json gs)]) h =
      (Inr v, h') \<and> branch_state h' = gs" for gs h
    by (simp add: branch_call_def branch_state_def last_data_def List.map_filter_def goal_entry_def read_goals_json)
  show "branch_state h' = branch_state h" if "branch_call AppendEntry (JObj [(''message'', m)]) h = (r, h')" for m h r h'
    using that by (auto simp: branch_call_def branch_state_def last_data_def List.map_filter_def goal_entry_def)
qed (simp_all add: branch_env_def)

definition no_goals :: "json list goal_world" where
  "no_goals = \<lparr>w_host = [], w_file = None, w_runs = [], pending_inject = None, pending_state = None,
     injection_revision = 0, last_injected = None\<rparr>"

text \<open>C37. On a host that keeps what it appends, the queue and the branch together implement the plain
  goals: after any sequence of changes and turn ends, at any times, the goals in effect are what the same
  sequence makes of the goals that were in effect at the start, whether a change was queued, flushed or
  rejected.\<close>

theorem goal_calls_refine_goals:
  assumes "goal_host env call goals_of"
  shows "effective goals_of (fold (goal_do env) es w) = fold spec_do es (effective goals_of w)"
  by (rule goal_host.run_effective [OF assms])

definition sample_goal :: goal where
  "sample_goal = \<lparr>title = ''ship'', status = ''active'', goal_notes = [], started_at = 0, updated_at = 0,
     turns_used = 0, max_turns = Some 2, deadline_ms = None\<rparr>"

definition sample_goals :: "json list goal_world" where
  "sample_goals = no_goals\<lparr>pending_state := Some \<lparr>active_goal = Some sample_goal, archived = []\<rparr>\<rparr>"

theorem goal_calls_refine_goals_witness:
  "map_option status (active_goal (effective branch_state (fold (goal_do branch_env)
     [(6, Turn_ended), (7, Changed (Amend None (Some ''paused''))), (8, Turn_ended),
      (9, Changed (Amend None (Some ''active''))), (10, Turn_ended)] sample_goals))) = Some ''paused''"
  by (subst goal_calls_refine_goals [OF bh.goal_host_axioms])
    (simp add: sample_goals_def sample_goal_def effective_def spec_do_def turn_goals_def turn_goal_def counted_def
      exhausted_def turns_are_up_def time_is_up_def sat_add_def require_active_def updated_goal_def Let_def)

text \<open>C40. A goal with a budget of turns is kept within it: on a host that keeps what it appends, a goal
  that is active with \<open>m\<close> turns allowed stays active exactly until its turns are used up (at least one
  more) or a turn ends after its deadline, every turn is counted while it does, and it is never charged
  more than its budget, or the one turn that found the budget used up.\<close>

theorem goal_budget_is_kept:
  assumes "goal_host env call goals_of" and "active_goal (effective goals_of w) = Some g"
    and "status g = ''active''" and "max_turns g = Some m"
  shows "\<exists>g'. active_goal (effective goals_of (fold (goal_do env) (map (\<lambda>t. (t, Turn_ended)) ts) w)) = Some g' \<and>
    (status g' = ''active'' \<longleftrightarrow>
       length ts < max 1 (unat m - unat (turns_used g)) \<and> list_all (\<lambda>t. \<not> time_is_up (g\<lparr>updated_at := t\<rparr>)) ts) \<and>
    unat (turns_used g') \<le> max (unat m) (unat (turns_used g) + 1) \<and>
    (status g' = ''active'' \<longrightarrow> unat (turns_used g') = unat (turns_used g) + length ts)"
  using goal_host.run_effective [OF assms(1), of "map (\<lambda>t. (t, Turn_ended)) ts" w] assms(2)
    turns_budget [OF assms(3,4), of ts]
  by (simp add: fold_turn_goals)

theorem goal_budget_is_kept_witness:
  "\<exists>g'. active_goal (effective branch_state (fold (goal_do branch_env) (map (\<lambda>t. (t, Turn_ended)) [1, 2, 3]) sample_goals)) = Some g' \<and>
    status g' \<noteq> ''active'' \<and> unat (turns_used g') \<le> 2"
proof -
  have "active_goal (effective branch_state sample_goals) = Some sample_goal"
    by (simp add: sample_goals_def effective_def)
  from goal_budget_is_kept [OF bh.goal_host_axioms this, of 2 "[1, 2, 3]"]
  show ?thesis by (auto simp: sample_goal_def)
qed

section \<open>A turn that is not counted\<close>

text \<open>The host fails once, while a queued change is flushed. The goals stay in the queue, the turn is counted
  on the branch only, and the next flush writes the queued goals over it: of two turns one is counted.\<close>

definition flaky_call :: "(nat \<times> json list) caller" where
  "flaky_call a args h = (case h of (n, es) \<Rightarrow>
     if a = AppendEntry \<and> 0 < n then (Inl ''busy'', n - 1, es)
     else (case branch_call a args es of (r, es') \<Rightarrow> (r, n, es')))"

definition flaky_env :: "(nat \<times> json list) goal_env" where
  "flaky_env = \<lparr>env_call = Some flaky_call, decode_goals = read_goals_json, parse_file = (\<lambda>_. None),
     pretty_goals = (\<lambda>_. Inr []), file_fault = None, spawn_fault = None, now_ms = 0, is_subagent = False,
     to_lower = (\<lambda>s. s)\<rparr>"

lemma turn_lost_after_failed_flush:
  "map_option turns_used (active_goal (effective (branch_state \<circ> snd)
     (fold (goal_do flaky_env) [(1, Turn_ended), (2, Turn_ended)]
       \<lparr>w_host = (1, []), w_file = None, w_runs = [], pending_inject = None,
        pending_state = Some \<lparr>active_goal = Some (sample_goal\<lparr>max_turns := Some 9\<rparr>), archived = []\<rparr>,
        injection_revision = 0, last_injected = None\<rparr>))) = Some 1"
  by code_simp

end
