(* ===== verification/Goal_Duration.thy ===== *)
theory Goal_Duration
  imports Goal
begin

text \<open>
  What \<open>format_duration_ms\<close> prints is a duration \<open>parse_duration_ms\<close> accepts, and it is the one that was
  printed, cut to minutes when it has hours and to seconds otherwise.
\<close>

section \<open>Digits and ASCII\<close>

definition is_ascii_text :: "string \<Rightarrow> bool" where
  "is_ascii_text s \<longleftrightarrow> list_all (\<lambda>c. (of_char c :: nat) < 128) s"

lemma chars_ascii_text: "is_ascii_text s \<Longrightarrow> chars s = map (\<lambda>c. [c]) s"
proof (induction s)
  case (Cons c cs)
  then have "cs = [] \<or> \<not> is_cont (hd cs)"
    by (cases cs) (auto simp: is_ascii_text_def ascii_not_cont)
  then have "takeWhile is_cont cs = []" "dropWhile is_cont cs = cs" by (cases cs; auto)+
  with Cons show ?case by (simp add: is_ascii_text_def)
qed simp

lemma show_nat_digits [simp]: "all_digits (show_nat n)"
proof (induction n rule: show_nat.induct)
  case (1 n)
  show ?case
  proof (cases "n < 10")
    case True
    then show ?thesis by (subst show_nat.simps) (simp add: all_digits_def digit_def is_digit_def)
  next
    case False
    moreover have "is_digit (digit (n mod 10))" by (simp add: digit_def is_digit_def)
    ultimately show ?thesis using 1 by (subst show_nat.simps) (simp add: all_digits_def)
  qed
qed

lemma digits_ascii: "all_digits s \<Longrightarrow> is_ascii_text s"
  by (auto simp: all_digits_def is_ascii_text_def is_digit_def list_all_iff dest!: bspec)

lemma digit_not_sign: "is_digit c \<Longrightarrow> c \<noteq> CHR ''+'' \<and> c \<noteq> CHR ''-''"
  by (auto simp: is_digit_def)

lemma parse_unsigned_show: "n < m \<Longrightarrow> parse_unsigned m (show_nat n) = Some n"
proof -
  assume n: "n < m"
  obtain c cs where s: "show_nat n = c # cs" and "is_digit c"
    using show_nat_digits [of n] by (cases "show_nat n") (auto simp: all_digits_def)
  then have "strip_prefix ''+'' (show_nat n) = None"
    using digit_not_sign by (auto simp: strip_prefix_def starts_with_def)
  with n show ?thesis by (simp add: parse_unsigned_def read_show_nat)
qed

lemma parse_i64_show: "n < 2 ^ 63 \<Longrightarrow> parse_i64 (show_nat n) = Some (int n)"
proof -
  assume n: "n < 2 ^ 63"
  obtain c cs where s: "show_nat n = c # cs" and "is_digit c"
    using show_nat_digits [of n] by (cases "show_nat n") (auto simp: all_digits_def)
  then have "strip_prefix ''-'' (show_nat n) = None"
    using digit_not_sign by (auto simp: strip_prefix_def starts_with_def)
  with n show ?thesis by (simp add: parse_i64_def parse_unsigned_show)
qed

text \<open>A text that ends in a letter is not a number.\<close>

lemma parse_i64_letter: "\<not> is_digit c \<Longrightarrow> c \<noteq> CHR ''+'' \<Longrightarrow> c \<noteq> CHR ''-'' \<Longrightarrow> parse_i64 (s @ [c]) = None"
proof -
  assume c: "\<not> is_digit c" "c \<noteq> CHR ''+''" "c \<noteq> CHR ''-''"
  have "\<not> all_digits (t @ [c])" for t using c by (simp add: all_digits_def)
  moreover have "strip_prefix [x] (s @ [c]) = None \<or> (\<exists>t. strip_prefix [x] (s @ [c]) = Some (t @ [c]))" if "x \<noteq> c" for x
    using that by (cases s) (auto simp: strip_prefix_def starts_with_def)
  ultimately show ?thesis
    using c by (auto simp: parse_i64_def parse_unsigned_def Let_def split: option.split)
      (metis option.distinct(1) option.inject)+
qed

section \<open>Reading what was printed\<close>

lemma loop_digits:
  "list_all is_digit ds \<Longrightarrow>
   duration_loop spec (map (\<lambda>c. [c]) ds @ gs) acc num saw = duration_loop spec gs acc (num @ ds) saw"
proof (induction ds arbitrary: num)
  case (Cons d ds)
  from Cons.prems have "all_digits [d]" by (simp add: all_digits_def)
  with Cons show ?case by simp
qed simp

lemma loop_unit:
  assumes "unit_ms [u] = Some k" and "n < 2 ^ 63"
  shows "duration_loop spec (map (\<lambda>c. [c]) (show_nat n @ [u]) @ gs) acc [] saw =
    duration_loop spec gs (sat64 (acc + sat64 (int n * k))) [] True"
proof -
  have "list_all is_digit (show_nat n)" using show_nat_digits by (simp add: all_digits_def)
  moreover have "\<not> all_digits [u]"
    using assms(1) by (auto simp: unit_ms_def all_digits_def is_digit_def split: if_splits)
  ultimately show ?thesis using assms by (simp add: loop_digits parse_i64_show)
qed

lemma sat64_id: "- (2 ^ 63) \<le> x \<Longrightarrow> x < 2 ^ 63 \<Longrightarrow> sat64 x = x"
  by (simp add: sat64_def)

definition duration_char :: "char \<Rightarrow> bool" where
  "duration_char c \<longleftrightarrow> is_digit c \<or> c \<in> set ''hms''"

lemma trim_durations: "list_all duration_char s \<Longrightarrow> is_ascii_text s \<and> trim s = s"
proof -
  assume s: "list_all duration_char s"
  then have ascii: "is_ascii_text s"
    by (auto simp: duration_char_def is_ascii_text_def is_digit_def list_all_iff dest!: bspec)
  have "\<not> is_ws [c]" if "duration_char c" for c
    using that by (auto simp: is_ws_def ws_chars_def duration_char_def is_digit_def)
  then have no_ws: "list_all (\<lambda>g. \<not> is_ws g) (chars s)"
    using s ascii by (auto simp: chars_ascii_text list_all_iff)
  then have "dropWhile is_ws (chars s) = chars s"
    by (cases "chars s") (auto simp: dropWhile_eq_self_iff)
  moreover have "dropWhile is_ws (rev (chars s)) = rev (chars s)"
    using no_ws by (cases "rev (chars s)") (auto simp: dropWhile_eq_self_iff list_all_iff)
  ultimately show ?thesis using ascii by (simp add: trim_def)
qed

lemma digits_duration: "list_all duration_char (show_nat n)"
  using show_nat_digits [of n] by (auto simp: all_digits_def duration_char_def list_all_iff)

text \<open>\<open>str::to_lowercase\<close> leaves digits and small letters.\<close>

definition lower_law :: "(string \<Rightarrow> string) \<Rightarrow> bool" where
  "lower_law lower \<longleftrightarrow> (\<forall>s. list_all duration_char s \<longrightarrow> lower s = s)"

lemma parse_two:
  assumes "lower_law lower" and "unit_ms [u] = Some k" "u \<in> set ''hms''" "n < 2 ^ 63"
    and "unit_ms [v] = Some l" "v \<in> set ''hms''" "m < 2 ^ 63"
  shows "parse_duration_ms lower (show_nat n @ [u] @ show_nat m @ [v]) =
    Inr (sat64 (sat64 (0 + sat64 (int n * k)) + sat64 (int m * l)))"
proof -
  let ?s = "show_nat n @ [u] @ show_nat m @ [v]"
  have dur: "list_all duration_char ?s" using digits_duration assms by (auto simp: duration_char_def)
  then have "trim ?s = ?s" "lower ?s = ?s" "chars ?s = map (\<lambda>c. [c]) ?s"
    using trim_durations assms(1) chars_ascii_text unfolding lower_law_def by blast+
  moreover have "parse_i64 ?s = None"
    using parse_i64_letter [of v "show_nat n @ [u] @ show_nat m"] assms by (auto simp: is_digit_def)
  ultimately show ?thesis
    using loop_unit [OF assms(2,4), of ?s "map (\<lambda>c. [c]) (show_nat m @ [v])" 0 False]
      loop_unit [OF assms(5,7), of ?s "[]"]
    by (simp add: parse_duration_ms_def)
qed

lemma parse_one:
  assumes "lower_law lower" and "unit_ms [u] = Some k" "u \<in> set ''hms''" "n < 2 ^ 63"
  shows "parse_duration_ms lower (show_nat n @ [u]) = Inr (sat64 (0 + sat64 (int n * k)))"
proof -
  let ?s = "show_nat n @ [u]"
  have dur: "list_all duration_char ?s" using digits_duration assms by (auto simp: duration_char_def)
  then have "trim ?s = ?s" "lower ?s = ?s" "chars ?s = map (\<lambda>c. [c]) ?s"
    using trim_durations assms(1) chars_ascii_text unfolding lower_law_def by blast+
  moreover have "parse_i64 ?s = None"
    using parse_i64_letter [of u "show_nat n"] assms by (auto simp: is_digit_def)
  ultimately show ?thesis
    using loop_unit [OF assms(2,4), of ?s "[]" 0 False] by (simp add: parse_duration_ms_def)
qed

lemma duration_roundtrip:
  assumes "lower_law lower" and ms: "0 \<le> ms" "ms < 2 ^ 63"
  shows "\<exists>r. parse_duration_ms lower (format_duration_ms ms) = Inr r \<and> r \<le> ms \<and>
    ms < r + (if 3600000 \<le> ms then 60000 else 1000)"
proof -
  define secs where "secs = nat (ms div 1000)"
  define h where "h = secs div 3600"
  define m where "m = secs mod 3600 div 60"
  define s where "s = secs mod 60"
  define x where "x = ms mod 1000"
  have secs: "int secs = ms div 1000" using ms by (simp add: secs_def)
  have "int secs < 2 ^ 63" using ms secs by simp
  then have "secs < 2 ^ 63" by (simp flip: of_nat_less_iff)
  moreover have "h \<le> secs" "s \<le> secs" by (simp_all add: h_def s_def)
  moreover have "m < 60" "s < 60" by (simp_all add: m_def s_def less_mult_imp_div_less)
  ultimately have range: "h < 2 ^ 63" "m < 2 ^ 63" "s < 2 ^ 63" by auto
  have "secs mod 3600 mod 60 = secs mod 60" by (rule mod_mod_cancel) simp
  then have "secs = h * 3600 + (m * 60 + s)"
    using div_mult_mod_eq [of secs 3600] div_mult_mod_eq [of "secs mod 3600" 60] by (simp add: h_def m_def s_def)
  moreover have "ms = int secs * 1000 + x" by (simp add: secs x_def)
  ultimately have parts: "ms = int h * 3600000 + int m * 60000 + int s * 1000 + x" by simp
  have rest: "0 \<le> x" "x < 1000" "int s < 60" "int m < 60" using \<open>m < 60\<close> \<open>s < 60\<close> by (simp_all add: x_def)
  have shown: "format_duration_ms ms = (if 0 < h then show_nat h @ ''h'' @ show_nat m @ ''m''
      else if 0 < m then show_nat m @ ''m'' @ show_nat s @ ''s'' else show_nat s @ ''s'')"
    using ms(1) by (simp add: format_duration_ms_def Let_def secs_def h_def m_def s_def max_def)
  consider (hours) "0 < h" | (minutes) "h = 0" "0 < m" | (seconds) "h = 0" "m = 0" by blast
  then show ?thesis
  proof cases
    case hours
    then have "int h * 3600000 + int m * 60000 \<le> ms" "ms < int h * 3600000 + int m * 60000 + 60000" "3600000 \<le> ms"
      using parts rest by linarith+
    then show ?thesis
      using parse_two [OF assms(1), of "CHR ''h''" 3600000 h "CHR ''m''" 60000 m] range ms hours
      by (simp add: unit_ms_def sat64_id shown)
  next
    case minutes
    then have "int m * 60000 + int s * 1000 \<le> ms" "ms < int m * 60000 + int s * 1000 + 1000" "ms < 3600000"
      using parts rest by linarith+
    then show ?thesis
      using parse_two [OF assms(1), of "CHR ''m''" 60000 m "CHR ''s''" 1000 s] range ms minutes
      by (simp add: unit_ms_def sat64_id shown)
  next
    case seconds
    then have "int s * 1000 \<le> ms" "ms < int s * 1000 + 1000" "ms < 3600000"
      using parts rest by linarith+
    then show ?thesis
      using parse_one [OF assms(1), of "CHR ''s''" 1000 s] range ms seconds
      by (simp add: unit_ms_def sat64_id shown)
  qed
qed

end
