(* ===== verification/Service_Reply.thy ===== *)
theory Service_Reply
  imports Json
begin

text \<open>
  The outcomes of the services of \<open>rpi-extcore\<close> (\<open>reply.rs\<close>): a kind with a JSON value, whatever the
  protocol an adapter answers on. A failing service returns such a pair as its error.
\<close>

datatype reply_kind =
    Success | Created | InvalidInput | NotFound | AccessDenied | LimitExceeded | UnsupportedContent
  | Internal | HostUnavailable | Timeout | Unsupported | Conflict | Empty | Unavailable

type_synonym service_error = "reply_kind \<times> json"

type_synonym 'a service = "service_error + 'a"

record service_reply =
  reply_kind :: reply_kind
  reply_value :: json

definition failure :: "reply_kind \<Rightarrow> string \<Rightarrow> service_error" where
  "failure k msg = (k, JObj [(''error'', JStr msg)])"

definition kind_reply :: "reply_kind \<Rightarrow> service_reply" where
  "kind_reply k = \<lparr>reply_kind = k, reply_value = JNull\<rparr>"

definition value_reply :: "json \<Rightarrow> service_reply" where
  "value_reply v = \<lparr>reply_kind = Success, reply_value = v\<rparr>"

definition error_reply :: "service_error \<Rightarrow> service_reply" where
  "error_reply e = \<lparr>reply_kind = fst e, reply_value = snd e\<rparr>"

definition result_reply :: "json service \<Rightarrow> service_reply" where
  "result_reply r = (case r of Inr v \<Rightarrow> value_reply v | Inl e \<Rightarrow> error_reply e)"

lemma failure_kind [simp]: "fst (failure k msg) = k"
  by (simp add: failure_def)

lemma failure_inject [simp]: "failure k m = failure k' m' \<longleftrightarrow> k = k' \<and> m = m'"
  by (simp add: failure_def)

text \<open>\<open>map_err\<close> and \<open>if c { return Err(e) }\<close>.\<close>

definition map_err :: "('e \<Rightarrow> 'f) \<Rightarrow> 'e + 'a \<Rightarrow> 'f + 'a" where
  "map_err f r = (case r of Inl e \<Rightarrow> Inl (f e) | Inr x \<Rightarrow> Inr x)"

definition check :: "bool \<Rightarrow> 'e \<Rightarrow> 'e + unit" where
  "check ok e = (if ok then Inr () else Inl e)"

lemma map_err_simps [simp, res_simps]: "map_err f (Inl e) = Inl (f e)" "map_err f (Inr x) = Inr x"
  by (simp_all add: map_err_def)

lemma map_err_Inr_iff: "map_err f r = Inr x \<longleftrightarrow> r = Inr x"
  by (cases r) auto

lemma map_err_Inl_iff: "map_err f r = Inl e \<longleftrightarrow> (\<exists>d. r = Inl d \<and> e = f d)"
  by (cases r) auto

lemma check_simps [simp, res_simps]: "check True e = Inr ()" "check False e = Inl e"
  by (simp_all add: check_def)

lemma check_Inr_iff [simp]: "check ok e = Inr x \<longleftrightarrow> ok"
  by (simp add: check_def)

lemma check_Inl_iff [simp]: "check ok e = Inl d \<longleftrightarrow> \<not> ok \<and> d = e"
  by (auto simp: check_def)

lemmas service_iffs = result_iffs map_err_Inr_iff map_err_Inl_iff

text \<open>\<open>value[k]\<close>: a key that is missing, or a value that is no object, reads as null.\<close>

definition jidx :: "string \<Rightarrow> json \<Rightarrow> json" where
  "jidx k v = unwrap_or JNull (jget k v)"

text \<open>A number is an \<open>i64\<close> when it is in the range of the type.\<close>

definition i64_range :: "int \<Rightarrow> bool" where
  "i64_range i \<longleftrightarrow> - (2 ^ 63) \<le> i \<and> i < 2 ^ 63"

fun as_i64 :: "json \<Rightarrow> int option" where
  "as_i64 (JUint n) = (if n < 0x8000000000000000 then Some (uint n) else None)"
| "as_i64 (JNeg i) = (if i64_range i then Some i else None)"
| "as_i64 _ = None"

lemma as_i64_range: "as_i64 v = Some i \<Longrightarrow> i64_range i"
proof (induction v rule: as_i64.induct)
  case (1 n)
  then have "uint n = i" "n < 0x8000000000000000" by (auto split: if_splits)
  moreover from this have "uint n < 2 ^ 63" by (simp add: word_less_def)
  ultimately show ?case using uint_ge_0 [of n] by (simp add: i64_range_def del: uint_ge_0)
qed (auto split: if_splits)

definition checked_sub_i64 :: "int \<Rightarrow> int \<Rightarrow> int option" where
  "checked_sub_i64 a b = (if i64_range (a - b) then Some (a - b) else None)"

text \<open>\<open>json!\<close> of an \<open>i64\<close>.\<close>

definition ji64 :: "int \<Rightarrow> json" where
  "ji64 i = (if 0 \<le> i then JUint (word_of_int i) else JNeg i)"

lemma as_i64_ji64: "i64_range i \<Longrightarrow> as_i64 (ji64 i) = Some i"
  by (auto simp: ji64_def i64_range_def word_less_def take_bit_int_eq_self unsigned_of_int)

end
