(* ===== verification/Run_Timing.thy ===== *)
theory Run_Timing
  imports Service_Reply Text_Search "HOL-Library.AList"
begin

text \<open>
  What the run timings of \<open>rpi-extcore\<close> (\<open>run_timing.rs\<close>) are: the query and its checks, the state
  of a scan over the records of one session file, and what one record does to it. A lane of the
  session has at most one active run; the run leaves a timing when it finishes after it has shown a
  message.
\<close>

section \<open>Queries\<close>

record timings_query =
  entry_ids :: "string list"
  q_cursor :: "string option"

text \<open>\<open>any\<close> stops at the first id that is empty, too long or seen before.\<close>

fun bad_ids :: "string list \<Rightarrow> string set \<Rightarrow> bool" where
  "bad_ids [] seen = False"
| "bad_ids (i # ids) seen = (i = [] \<or> length i > 256 \<or> i \<in> seen \<or> bad_ids ids (insert i seen))"

definition validate_query :: "timings_query \<Rightarrow> unit service" where
  "validate_query q =
     (if length (entry_ids q) > 400 \<or> bad_ids (entry_ids q) {}
        \<or> (case q_cursor q of None \<Rightarrow> False | Some c \<Rightarrow> length c > 128)
      then Inl (failure InvalidInput ''entryIds must contain at most 400 unique, nonempty IDs of at most 256 bytes; cursor at most 128 bytes'')
      else Inr ())"

lemma bad_ids_iff:
  "bad_ids ids seen \<longleftrightarrow> (\<exists>i\<in>set ids. i = [] \<or> length i > 256) \<or> \<not> distinct ids \<or> set ids \<inter> seen \<noteq> {}"
  by (induction ids arbitrary: seen) auto

section \<open>The state of a scan\<close>

record active_run =
  act_id :: string
  act_start :: int
  act_last :: "string option"

record run_timing =
  run_id :: string
  rt_lane :: string
  final_entry_id :: string
  started_at :: int
  finished_at :: int
  elapsed_ms :: u64
  rt_outcome :: string

text \<open>What the records of a file leave in the scan: the active run of each lane and the timings.\<close>

record tally =
  active :: "(string \<times> active_run) list"
  timings :: "run_timing list"

definition MAX_LANES :: nat where "MAX_LANES = 128"
definition MAX_TIMINGS :: nat where "MAX_TIMINGS = 20000"

definition limit :: "string \<Rightarrow> service_error" where
  "limit msg = failure LimitExceeded msg"

definition conflict :: service_error where
  "conflict = failure Conflict ''run timing generation changed; discard timings and retry without cursor''"

definition io_error :: "string \<Rightarrow> service_error" where
  "io_error e = failure Unavailable (''run timings unavailable: '' @ e)"

definition short :: "json \<Rightarrow> string option" where
  "short v = filter_opt (\<lambda>s. s \<noteq> [] \<and> length s \<le> 256) (as_str v)"

section \<open>One record\<close>

text \<open>A record without a lane is one of the main lane; a lane that is not a short string counts for none.\<close>

definition lane_of :: "json \<Rightarrow> string option" where
  "lane_of v = (case jget ''lane'' v of
     Some (JStr s) \<Rightarrow> if length s \<le> 256 then Some s else None
   | None \<Rightarrow> Some ''main''
   | Some _ \<Rightarrow> None)"

definition has_text :: "string option \<Rightarrow> bool" where
  "has_text m = (case m of None \<Rightarrow> False | Some s \<Rightarrow> trim s \<noteq> [])"

definition block_visible :: "json \<Rightarrow> bool" where
  "block_visible b = (case as_str (jidx ''type'' b) of
     None \<Rightarrow> False
   | Some t \<Rightarrow>
       if t = ''text'' then has_text (as_str (jidx ''text'' b))
       else if t = ''thinking'' then
         has_text (case as_str (jidx ''thinking'' b) of Some s \<Rightarrow> Some s | None \<Rightarrow> as_str (jidx ''text'' b))
       else if t = ''image_url'' then has_text (as_str (jidx ''url'' (jidx ''image_url'' b)))
       else t = ''image'' \<or> t = ''toolCall'' \<or> t = ''tool_call'')"

definition visible :: "json \<Rightarrow> bool" where
  "visible m =
     (as_str (jidx ''role'' m) \<in> {Some ''assistant'', Some ''user'', Some ''toolResult''}
      \<and> (case jidx ''content'' m of
           JStr s \<Rightarrow> trim s \<noteq> []
         | JArr blocks \<Rightarrow> list_ex block_visible blocks
         | _ \<Rightarrow> False))"

definition start_run :: "string \<Rightarrow> json \<Rightarrow> tally \<Rightarrow> tally service" where
  "start_run lane v s =
     (let act = AList.delete lane (active s)
      in if jidx ''kind'' (jidx ''intent'' v) = JStr ''run'' then
           (case (short (jidx ''id'' v), as_i64 (jidx ''timestamp'' v)) of
              (Some i, Some t) \<Rightarrow>
                if length act \<ge> MAX_LANES then Inl (limit ''too many active run lanes'')
                else Inr (s\<lparr>active := AList.update lane \<lparr>act_id = i, act_start = t, act_last = None\<rparr> act\<rparr>)
            | _ \<Rightarrow> Inr (s\<lparr>active := act\<rparr>))
         else Inr (s\<lparr>active := act\<rparr>))"

definition show_message :: "string \<Rightarrow> json \<Rightarrow> tally \<Rightarrow> tally" where
  "show_message lane v s =
     (case map_of (active s) lane of
        None \<Rightarrow> s
      | Some a \<Rightarrow>
          if visible (jidx ''message'' v) then
            (case short (jidx ''id'' v) of
               None \<Rightarrow> s
             | Some i \<Rightarrow> s\<lparr>active := AList.update lane (a\<lparr>act_last := Some i\<rparr>) (active s)\<rparr>)
          else s)"

text \<open>\<open>u64::try_from\<close> of a difference of two \<open>i64\<close>s.\<close>

definition elapsed_of :: "int \<Rightarrow> int \<Rightarrow> u64 option" where
  "elapsed_of end start =
     Option.bind (checked_sub_i64 end start) (\<lambda>d. if 0 \<le> d then Some (word_of_int d) else None)"

definition finish_run :: "string \<Rightarrow> active_run \<Rightarrow> json \<Rightarrow> tally \<Rightarrow> tally service" where
  "finish_run lane a v s =
     (let s = s\<lparr>active := AList.delete lane (active s)\<rparr>
      in case (act_last a, as_i64 (jidx ''timestamp'' v), short (jidx ''outcome'' v)) of
           (Some shown, Some end, Some out) \<Rightarrow>
             (case elapsed_of end (act_start a) of
                None \<Rightarrow> Inr s
              | Some e \<Rightarrow>
                  if length (timings s) \<ge> MAX_TIMINGS then Inl (limit ''run timing metadata capacity exceeded'')
                  else Inr (s\<lparr>timings := timings s @
                    [\<lparr>run_id = act_id a, rt_lane = lane, final_entry_id = shown, started_at = act_start a,
                      finished_at = end, elapsed_ms = e, rt_outcome = out\<rparr>]\<rparr>))
         | _ \<Rightarrow> Inr s)"

definition record_value :: "json \<Rightarrow> tally \<Rightarrow> tally service" where
  "record_value v s = (case lane_of v of
     None \<Rightarrow> Inr s
   | Some lane \<Rightarrow>
       (let kind = as_str (jidx ''kind'' v); type = as_str (jidx ''type'' v)
        in if kind = Some ''record'' \<and> type = Some ''operation_started'' then start_run lane v s
           else if kind = Some ''entry'' \<and> type = Some ''message'' then Inr (show_message lane v s)
           else if kind = Some ''record'' \<and> type = Some ''operation_finished'' then
             (case map_of (active s) lane of
                Some a \<Rightarrow>
                  if as_str (jidx ''runId'' v) = Some (act_id a) then finish_run lane a v s else Inr s
              | None \<Rightarrow> Inr s)
           else Inr s))"

definition check_header :: "json \<Rightarrow> string \<Rightarrow> unit service" where
  "check_header v i =
     (if jidx ''kind'' v \<noteq> JStr ''header'' \<or> as_i64 (jidx ''version'' v) \<noteq> Some 4 \<or> jidx ''id'' v \<noteq> JStr i
      then Inl (failure Unavailable ''expected exact native v4 session header'')
      else Inr ())"

end
