(* ===== verification/Run_Timing_Scan.thy ===== *)
theory Run_Timing_Scan
  imports Run_Timing
begin

text \<open>
  How \<open>run_timing.rs\<close> reads the timings: the scan of a growing file in bounded pieces, the cache of
  scans by session, and the search for the file of a session. The file system is a parameter that says
  what each call returns; between two calls of one query the file may change, so each call has an
  answer of its own.
\<close>

section \<open>The file system\<close>

record file_identity =
  created :: "int option"
  dev :: u64
  ino :: u64

record metadata =
  md_is_file :: bool
  md_identity :: file_identity
  md_modified :: "int option"
  md_len :: nat

text \<open>
  An open file: its metadata, the first line of at most so many bytes (\<open>seek\<close>, \<open>take\<close> and
  \<open>read_until\<close>), \<open>read_exact\<close> of a number of bytes at an offset, what the successive reads of a
  \<open>BufReader\<close> from an offset return, and the second anchor and the second metadata of a query. A seek that
  fails is a read that fails.
\<close>

record opened =
  meta :: "string + metadata"
  first_line :: "nat \<Rightarrow> string + string"
  read_at :: "nat \<Rightarrow> nat \<Rightarrow> string + string"
  reads_from :: "nat \<Rightarrow> (string + string) list"
  anchor_at :: "nat \<Rightarrow> nat \<Rightarrow> string + string"
  meta_after :: "string + metadata"

record dir_entry =
  de_path :: string
  de_name :: string
  de_is_dir :: "string + bool"

record fs =
  canonicalize :: "string \<Rightarrow> string + string"
  stat :: "string \<Rightarrow> string + metadata"
  open_file :: "string \<Rightarrow> string + opened"
  read_dir :: "string \<Rightarrow> string + (string + dir_entry) list"
  is_file :: "string \<Rightarrow> bool"

text \<open>\<open>Path::starts_with\<close> compares components, not bytes.\<close>

definition path_components :: "string \<Rightarrow> string list" where
  "path_components p =
     (if starts_with ''/'' p then [''/''] else [])
     @ filter (\<lambda>c. c \<noteq> [] \<and> c \<noteq> ''.'') (split_char (CHR ''/'') p)"

definition path_starts_with :: "string \<Rightarrow> string \<Rightarrow> bool" where
  "path_starts_with p base =
     (take (length (path_components base)) (path_components p) = path_components base)"

section \<open>One query over a file\<close>

record scan =
  sc_path :: string
  generation :: string
  sc_identity :: file_identity
  sc_modified :: "int option"
  sc_length :: nat
  offset :: nat
  pending :: string
  anchor :: string
  sc_header :: bool
  sc_tally :: tally

record timings_page =
  pg_timings :: "run_timing list"
  pg_complete :: bool
  pg_cursor :: "string option"
  scanned_bytes :: nat
  total_bytes :: nat

definition BYTE_BUDGET :: nat where "BYTE_BUDGET = 4194304"
definition RECORD_BUDGET :: nat where "RECORD_BUDGET = 4096"
definition MAX_LINE :: nat where "MAX_LINE = 33554432"
definition HEADER_LINE :: nat where "HEADER_LINE = 65536"
definition MAX_SESSIONS :: nat where "MAX_SESSIONS = 16"
definition ANCHOR :: nat where "ANCHOR = 4096"

text \<open>A buffered reader: what is in the buffer and what the next reads of the file return.\<close>

record reader =
  buf :: string
  inputs :: "(string + string) list"

definition fill_buf :: "reader \<Rightarrow> string + reader" where
  "fill_buf r =
     (if buf r \<noteq> [] then Inr r
      else case inputs r of
        [] \<Rightarrow> Inr r
      | Inl e # _ \<Rightarrow> Inl e
      | Inr bs # rest \<Rightarrow> Inr \<lparr>buf = bs, inputs = rest\<rparr>)"

definition line_end :: "string \<Rightarrow> nat" where
  "line_end chunk = (case find_str [NL] chunk of Some p \<Rightarrow> Suc p | None \<Rightarrow> length chunk)"

definition end_line :: "(string \<Rightarrow> json option) \<Rightarrow> string \<Rightarrow> scan \<Rightarrow> scan service" where
  "end_line parse sid sc = (case parse (pending sc) of
     None \<Rightarrow> Inl (failure Unavailable ''invalid native JSONL record'')
   | Some v \<Rightarrow>
       if \<not> sc_header sc then
         bindR (check_header v sid) (\<lambda>_. Inr (sc\<lparr>sc_header := True, pending := []\<rparr>))
       else
         bindR (record_value v (sc_tally sc)) (\<lambda>t. Inr (sc\<lparr>sc_tally := t, pending := []\<rparr>)))"

text \<open>
  One round of the loop takes the bytes up to the next end of a line, or all there are: \<open>piece\<close> is the
  part of the buffer it may take, \<open>scan_chunk\<close> what it does with it.
\<close>

definition piece :: "nat \<Rightarrow> nat \<Rightarrow> reader \<Rightarrow> scan \<Rightarrow> string" where
  "piece len bytes r sc =
     take (min (min (length (buf r)) (BYTE_BUDGET - bytes)) (len - offset sc)) (buf r)"

definition line_bound :: "scan \<Rightarrow> nat" where
  "line_bound sc = (if sc_header sc then MAX_LINE else HEADER_LINE)"

definition add_bytes :: "string \<Rightarrow> scan \<Rightarrow> scan" where
  "add_bytes bs sc = sc\<lparr>pending := pending sc @ bs, offset := offset sc + length bs\<rparr>"

definition scan_chunk ::
  "(string \<Rightarrow> json option) \<Rightarrow> string \<Rightarrow> string \<Rightarrow> scan \<Rightarrow> (nat \<times> bool \<times> scan) service" where
  "scan_chunk parse sid chunk sc =
     (let k = line_end chunk
      in if length (pending sc) + k > line_bound sc
         then Inl (limit ''native JSONL line exceeds supported bound'')
         else
           let sc = add_bytes (take k chunk) sc
           in if pending sc \<noteq> [] \<and> last (pending sc) = NL
              then bindR (end_line parse sid sc) (\<lambda>sc. Inr (k, True, sc))
              else Inr (k, False, sc))"

definition scan_step ::
  "(string \<Rightarrow> json option) \<Rightarrow> string \<Rightarrow> nat \<Rightarrow> nat \<Rightarrow> reader \<Rightarrow> scan \<Rightarrow> (nat \<times> bool \<times> reader \<times> scan) service" where
  "scan_step parse sid len bytes r sc =
     bindR (map_err io_error (fill_buf r)) (\<lambda>r.
       if buf r = [] then Inl conflict
       else bindR (scan_chunk parse sid (piece len bytes r sc) sc) (\<lambda>(k, line, sc').
         Inr (k, line, r\<lparr>buf := drop k (buf r)\<rparr>, sc')))"

lemma end_line_offset: "end_line parse sid sc = Inr sc' \<Longrightarrow> offset sc' = offset sc"
  by (auto simp: end_line_def bindR_Inr_iff split: option.splits if_splits)

lemma line_end_le: "line_end s \<le> length s"
proof (induction s)
  case (Cons c s)
  then show ?case by (auto simp: line_end_def split: option.splits)
qed (simp add: line_end_def)

lemma line_end_pos: "s \<noteq> [] \<Longrightarrow> 0 < line_end s"
  by (auto simp: line_end_def split: option.splits)

lemma scan_chunk_offset:
  "scan_chunk parse sid chunk sc = Inr (k, line, sc') \<Longrightarrow> k = line_end chunk \<and> offset sc' = offset sc + k"
  using line_end_le [of chunk]
  by (auto simp: scan_chunk_def Let_def bindR_Inr_iff add_bytes_def dest!: end_line_offset split: if_splits)

lemma length_piece: "length (piece len bytes r sc) \<le> BYTE_BUDGET - bytes"
  "length (piece len bytes r sc) \<le> len - offset sc"
  by (simp_all add: piece_def)

lemma piece_not_Nil: "buf r \<noteq> [] \<Longrightarrow> offset sc < len \<Longrightarrow> bytes < BYTE_BUDGET \<Longrightarrow> piece len bytes r sc \<noteq> []"
  by (simp add: piece_def)

lemma scan_step_progress:
  assumes "scan_step parse sid len bytes r sc = Inr (k, line, r', sc')"
    and "offset sc < len" and "bytes < BYTE_BUDGET"
  shows "0 < k \<and> offset sc' = offset sc + k \<and> offset sc' \<le> len \<and> bytes + k \<le> BYTE_BUDGET"
proof -
  obtain r1 where "buf r1 \<noteq> []" and chunk: "scan_chunk parse sid (piece len bytes r1 sc) sc = Inr (k, line, sc')"
    using assms(1) by (auto simp: scan_step_def bindR_Inr_iff split: if_splits)
  then show ?thesis
    using scan_chunk_offset [OF chunk] line_end_pos [OF piece_not_Nil, of r1 sc len bytes]
      line_end_le [of "piece len bytes r1 sc"] length_piece [of len bytes r1 sc] assms(2,3)
    by linarith
qed

function scan_loop ::
  "(string \<Rightarrow> json option) \<Rightarrow> string \<Rightarrow> nat \<Rightarrow> nat \<Rightarrow> nat \<Rightarrow> reader \<Rightarrow> scan \<Rightarrow> scan service" where
  "scan_loop parse sid len bytes records r sc =
     (if offset sc < len \<and> bytes < BYTE_BUDGET \<and> records < RECORD_BUDGET then
        (case scan_step parse sid len bytes r sc of
           Inl e \<Rightarrow> Inl e
         | Inr (k, line, r', sc') \<Rightarrow>
             scan_loop parse sid len (bytes + k) (if line then Suc records else records) r' sc')
      else Inr sc)"
  by pat_completeness auto
termination
  by (relation "measure (\<lambda>(parse, sid, len, bytes, records, r, sc). len - offset sc)")
     (auto dest!: scan_step_progress)

declare scan_loop.simps [simp del]

lemma scan_loop_invariant:
  assumes "scan_loop parse sid len bytes records r sc = Inr sc'" and "P r sc"
    and "\<And>bytes r sc k line r' sc'. P r sc \<Longrightarrow> offset sc < len \<Longrightarrow> bytes < BYTE_BUDGET \<Longrightarrow>
      scan_step parse sid len bytes r sc = Inr (k, line, r', sc') \<Longrightarrow> P r' sc'"
  shows "\<exists>r'. P r' sc'"
  using assms
proof (induction parse sid len bytes records r sc rule: scan_loop.induct)
  case (1 parse sid len bytes records r sc)
  show ?case
  proof (cases "offset sc < len \<and> bytes < BYTE_BUDGET \<and> records < RECORD_BUDGET")
    case True
    with "1.prems"(1) obtain k line r1 sc1 where step: "scan_step parse sid len bytes r sc = Inr (k, line, r1, sc1)"
      and rest: "scan_loop parse sid len (bytes + k) (if line then Suc records else records) r1 sc1 = Inr sc'"
      by (subst (asm) scan_loop.simps) (auto split: sum.splits)
    have "P r1 sc1" using "1.prems"(2) True step by (blast intro: "1.prems"(3))
    then show ?thesis by (rule "1.IH" [OF True step refl refl refl rest _ "1.prems"(3)])
  next
    case False
    with "1.prems" show ?thesis by (subst (asm) scan_loop.simps) (auto split: if_splits)
  qed
qed

lemma scan_step_path:
  "scan_step parse sid len bytes r sc = Inr (k, line, r', sc') \<Longrightarrow>
    sc_path sc' = sc_path sc \<and> generation sc' = generation sc \<and> sc_identity sc' = sc_identity sc"
  by (auto simp: scan_step_def scan_chunk_def end_line_def add_bytes_def bindR_Inr_iff Let_def
      split: if_splits option.splits)

definition validate_header :: "(string \<Rightarrow> json option) \<Rightarrow> string \<Rightarrow> opened \<Rightarrow> unit service" where
  "validate_header parse sid f =
     bindR (map_err io_error (first_line f (HEADER_LINE + 1))) (\<lambda>line.
       if length line > HEADER_LINE \<or> line = [] \<or> last line \<noteq> NL
       then Inl (failure Unavailable ''invalid or oversized native header'')
       else bindR (ok_or (failure Unavailable ''invalid native header'') (parse line)) (\<lambda>v.
         check_header v sid))"

text \<open>The checks before the loop: the path, the metadata, the anchor and the header.\<close>

definition reopen :: "(string \<Rightarrow> json option) \<Rightarrow> fs \<Rightarrow> string \<Rightarrow> string \<Rightarrow> scan \<Rightarrow> (opened \<times> metadata) service" where
  "reopen parse w sid root sc =
     bindR (map_err io_error (canonicalize w root)) (\<lambda>croot.
     bindR (map_err io_error (canonicalize w (sc_path sc))) (\<lambda>path.
     bindR (check (path_starts_with path croot) (failure AccessDenied ''transcript escapes session root'')) (\<lambda>_.
     bindR (map_err io_error (open_file w path)) (\<lambda>f.
     bindR (map_err io_error (meta f)) (\<lambda>m.
     bindR (check (md_is_file m \<and> md_identity m = sc_identity sc \<and> sc_length sc \<le> md_len m
                    \<and> \<not> (md_len m = sc_length sc \<and> md_modified m \<noteq> sc_modified sc)) conflict) (\<lambda>_.
     bindR (if anchor sc = [] then Inr ()
            else bindR (map_err io_error (read_at f (offset sc - length (anchor sc)) (length (anchor sc))))
                   (\<lambda>a. check (a = anchor sc) conflict)) (\<lambda>_.
     bindR (if sc_header sc then validate_header parse sid f else Inr ()) (\<lambda>_.
     Inr (f, m)))))))))"

definition page_of :: "timings_query \<Rightarrow> nat \<Rightarrow> scan \<Rightarrow> timings_page" where
  "page_of q len sc =
     \<lparr>pg_timings = filter (\<lambda>t. final_entry_id t \<in> set (entry_ids q)) (timings (sc_tally sc)),
      pg_complete = (sc_header sc \<and> offset sc = len \<and> pending sc = []),
      pg_cursor = Some (generation sc),
      scanned_bytes = offset sc,
      total_bytes = len\<rparr>"

text \<open>A query brings a scan up to date, as far as its budgets go.\<close>

definition advance ::
  "(string \<Rightarrow> json option) \<Rightarrow> fs \<Rightarrow> string \<Rightarrow> string \<Rightarrow> timings_query \<Rightarrow> scan \<Rightarrow> (timings_page \<times> scan) service" where
  "advance parse w sid root q sc =
     bindR (reopen parse w sid root sc) (\<lambda>(f, m).
     bindR (scan_loop parse sid (md_len m) 0 0 \<lparr>buf = [], inputs = reads_from f (offset sc)\<rparr> sc) (\<lambda>sc.
     let back_len = min (offset sc) ANCHOR in
     bindR (map_err io_error (anchor_at f (offset sc - back_len) back_len)) (\<lambda>a.
     bindR (map_err io_error (meta_after f)) (\<lambda>after.
     bindR (check (md_identity after = sc_identity sc \<and> md_len m \<le> md_len after) conflict) (\<lambda>_.
     let sc = sc\<lparr>anchor := a, sc_modified := md_modified m, sc_length := md_len m\<rparr>
     in Inr (page_of q (md_len m) sc, sc))))))"

section \<open>Finding the file of a session\<close>

definition session_file_name :: "string \<Rightarrow> string \<Rightarrow> bool" where
  "session_file_name sid name \<longleftrightarrow>
     name = sid @ ''.jsonl'' \<or> ends_with (''_'' @ sid @ ''.jsonl'') name"

record search =
  seen_entries :: nat
  dirs :: "(string \<times> nat) list"
  found :: "string option"

definition search_entry ::
  "(string \<Rightarrow> json option) \<Rightarrow> fs \<Rightarrow> string \<Rightarrow> string \<Rightarrow> nat \<Rightarrow> string + dir_entry \<Rightarrow> search \<Rightarrow> search service" where
  "search_entry parse w root sid depth entry st =
     (let st = st\<lparr>seen_entries := Suc (seen_entries st)\<rparr> in
      bindR (check (seen_entries st \<le> 10000) (limit ''session file discovery exceeds 10000 entries'')) (\<lambda>_.
      bindR (map_err io_error entry) (\<lambda>e.
      bindR (map_err io_error (de_is_dir e)) (\<lambda>is_dir.
      let st = (if is_dir \<and> depth = 0 then st\<lparr>dirs := dirs st @ [(de_path e, 1)]\<rparr> else st) in
      if \<not> session_file_name sid (de_name e) then Inr st
      else
        bindR (map_err io_error (canonicalize w (de_path e))) (\<lambda>path.
        bindR (check (path_starts_with path root) (failure AccessDenied ''transcript escapes session root'')) (\<lambda>_.
        if \<not> is_file w path then Inr st
        else
          bindR (map_err io_error (open_file w path)) (\<lambda>f.
          bindR (validate_header parse sid f) (\<lambda>_.
          if found st \<noteq> None then Inl (failure Conflict ''multiple transcripts for session'')
          else Inr (st\<lparr>found := Some path\<rparr>)))))))))"

lemma search_entry_dirs:
  "search_entry parse w root sid depth entry st = Inr st' \<Longrightarrow>
    dirs st' = dirs st \<or> (depth = 0 \<and> (\<exists>p. dirs st' = dirs st @ [(p, 1)]))"
  by (auto simp: search_entry_def Let_def bindR_Inr_iff split: if_splits)

lemma search_entries_dirs:
  "foldR (search_entry parse w root sid depth) es st = Inr st' \<Longrightarrow>
    \<exists>ps. dirs st' = dirs st @ map (\<lambda>p. (p, 1)) ps \<and> (depth \<noteq> 0 \<longrightarrow> ps = [])"
proof (induction es arbitrary: st)
  case Nil
  then show ?case by (intro exI [of _ "[]"]) simp
next
  case (Cons e es)
  then obtain u where u: "search_entry parse w root sid depth e st = Inr u"
    "foldR (search_entry parse w root sid depth) es u = Inr st'"
    by (auto simp: bindR_Inr_iff)
  from Cons.IH [OF u(2)] obtain ps where ps: "dirs st' = dirs u @ map (\<lambda>p. (p, 1)) ps" "depth \<noteq> 0 \<longrightarrow> ps = []"
    by blast
  from search_entry_dirs [OF u(1)] show ?case
  proof (elim disjE conjE exE)
    fix p assume "depth = 0" "dirs u = dirs st @ [(p, 1)]"
    with ps show ?case by (intro exI [of _ "p # ps"]) simp
  next
    assume "dirs u = dirs st"
    with ps show ?case by (intro exI [of _ ps]) simp
  qed
qed

text \<open>The directories wait in a queue; only those of the root are searched as well.\<close>

function search_dirs ::
  "(string \<Rightarrow> json option) \<Rightarrow> fs \<Rightarrow> string \<Rightarrow> string \<Rightarrow> search \<Rightarrow> search service" where
  "search_dirs parse w root sid st =
     (case dirs st of
        [] \<Rightarrow> Inr st
      | (d, depth) # ds \<Rightarrow>
          (case map_err io_error (read_dir w d) of
             Inl e \<Rightarrow> Inl e
           | Inr es \<Rightarrow>
               (case foldR (search_entry parse w root sid depth) es (st\<lparr>dirs := ds\<rparr>) of
                  Inl e \<Rightarrow> Inl e
                | Inr st' \<Rightarrow> search_dirs parse w root sid st')))"
  by pat_completeness auto
termination
proof (relation "measures [\<lambda>(parse, w, root, sid, st). length (filter (\<lambda>(_, n). n = 0) (dirs st)),
                           \<lambda>(parse, w, root, sid, st). length (dirs st)]", goal_cases)
  case (2 parse w root sid st x xs d depth es st')
  then show ?case by (cases depth) (auto dest!: search_entries_dirs simp: filter_empty_conv)
qed simp

declare search_dirs.simps [simp del]

definition discover :: "(string \<Rightarrow> json option) \<Rightarrow> fs \<Rightarrow> string \<Rightarrow> string \<Rightarrow> string service" where
  "discover parse w root sid =
     bindR (map_err io_error (canonicalize w root)) (\<lambda>root.
     bindR (search_dirs parse w root sid \<lparr>seen_entries = 0, dirs = [(root, 0)], found = None\<rparr>) (\<lambda>st.
     ok_or (failure Unavailable ''native transcript unavailable in configured session root'') (found st)))"

section \<open>The cache of scans\<close>

type_synonym timing_cache = "(string \<times> scan) list"

definition new_scan :: "string \<Rightarrow> string \<Rightarrow> string \<Rightarrow> metadata \<Rightarrow> scan" where
  "new_scan path sid uuid m =
     \<lparr>sc_path = path, generation = sid @ '':'' @ uuid, sc_identity = md_identity m,
      sc_modified = md_modified m, sc_length = md_len m, offset = 0, pending = [], anchor = [],
      sc_header = False, sc_tally = \<lparr>active = [], timings = []\<rparr>\<rparr>"

fun take_scan :: "string \<Rightarrow> timing_cache \<Rightarrow> (scan \<times> timing_cache) option" where
  "take_scan sid [] = None"
| "take_scan sid ((k, sc) # c) =
     (if k = sid then Some (sc, c)
      else map_option (\<lambda>(sc', c'). (sc', (k, sc) # c')) (take_scan sid c))"

definition find_scan ::
  "(string \<Rightarrow> json option) \<Rightarrow> fs \<Rightarrow> string \<Rightarrow> string \<Rightarrow> string \<Rightarrow> timings_query \<Rightarrow> timing_cache
     \<Rightarrow> scan service \<times> timing_cache" where
  "find_scan parse w uuid sid root q cache = (case take_scan sid cache of
     Some (sc, rest) \<Rightarrow>
       if q_cursor q \<noteq> None \<and> q_cursor q \<noteq> Some (generation sc) then (Inl conflict, cache)
       else (Inr sc, rest)
   | None \<Rightarrow>
       if q_cursor q \<noteq> None then (Inl conflict, cache)
       else
         (bindR (discover parse w root sid) (\<lambda>path.
          bindR (map_err io_error (stat w path)) (\<lambda>m.
          Inr (new_scan path sid uuid m))), cache))"

definition evict :: "timing_cache \<Rightarrow> timing_cache" where
  "evict c = drop (length c - MAX_SESSIONS) c"

definition query_timings ::
  "(string \<Rightarrow> json option) \<Rightarrow> fs \<Rightarrow> string \<Rightarrow> string \<Rightarrow> string \<Rightarrow> timings_query \<Rightarrow> timing_cache
     \<Rightarrow> timings_page service \<times> timing_cache" where
  "query_timings parse w uuid sid root q cache = (case validate_query q of
     Inl e \<Rightarrow> (Inl e, cache)
   | Inr _ \<Rightarrow> (case find_scan parse w uuid sid root q cache of
       (Inl e, c) \<Rightarrow> (Inl e, c)
     | (Inr sc, c) \<Rightarrow> (case advance parse w sid root q sc of
         Inl e \<Rightarrow> (Inl e, c)
       | Inr (page, sc') \<Rightarrow> (Inr page, evict (c @ [(sid, sc')])))))"

section \<open>The session root\<close>

text \<open>The environment, and the settings file of the agent: absent, unreadable, or its first bytes.\<close>

datatype settings_file = NoSettings | BadSettings string | SettingsBytes string

record env =
  agent_dir_var :: "string option"
  userprofile :: "string option"
  home :: "string option"
  session_dir_var :: "string option"
  settings_at :: "string \<Rightarrow> settings_file"

definition path_join :: "string \<Rightarrow> string \<Rightarrow> string" where
  "path_join base p =
     (if starts_with ''/'' p then p
      else if base = [] \<or> ends_with ''/'' base then base @ p else base @ ''/'' @ p)"

definition or_else :: "'a option \<Rightarrow> 'a option \<Rightarrow> 'a option" where
  "or_else m n = (case m of None \<Rightarrow> n | Some x \<Rightarrow> Some x)"

definition agent_dir :: "env \<Rightarrow> string option" where
  "agent_dir e =
     or_else (agent_dir_var e)
       (map_option (\<lambda>h. path_join h ''.rpi/agent'') (or_else (userprofile e) (home e)))"

definition MAX_SETTINGS :: nat where "MAX_SETTINGS = 1048576"

definition settings_dir :: "(string \<Rightarrow> json option) \<Rightarrow> env \<Rightarrow> string \<Rightarrow> string option service" where
  "settings_dir parse e agent = (case settings_at e (path_join agent ''settings.json'') of
     NoSettings \<Rightarrow> Inr None
   | BadSettings err \<Rightarrow> Inl (io_error err)
   | SettingsBytes bs \<Rightarrow>
       if length bs > MAX_SETTINGS then Inl (limit ''native settings too large'')
       else bindR (ok_or (failure Unavailable ''cannot safely resolve native settings; configure session_dir explicitly'') (parse bs)) (\<lambda>v.
         if jidx ''sessionDir'' v = JNull then Inr None
         else bindR (ok_or (failure Unavailable ''unsupported native sessionDir setting'') (as_str (jidx ''sessionDir'' v))) (\<lambda>d.
           Inr (Some d))))"

definition session_root ::
  "(string \<Rightarrow> json option) \<Rightarrow> env \<Rightarrow> string \<Rightarrow> string option \<Rightarrow> string service" where
  "session_root parse e project configured =
     bindR (case configured of
              Some p \<Rightarrow> Inr (Some p)
            | None \<Rightarrow>
                bindR (case agent_dir e of None \<Rightarrow> Inr None | Some a \<Rightarrow> settings_dir parse e a)
                  (\<lambda>sel. Inr (or_else sel (session_dir_var e))))
       (\<lambda>sel. let path = (case sel of Some p \<Rightarrow> p | None \<Rightarrow> path_join project ''.rpi/sessions'')
        in Inr (if starts_with ''/'' path then path else path_join project path))"

section \<open>The service\<close>

definition timing_json :: "run_timing \<Rightarrow> json" where
  "timing_json t = JObj [(''runId'', JStr (run_id t)), (''lane'', JStr (rt_lane t)),
     (''finalEntryId'', JStr (final_entry_id t)), (''startedAt'', ji64 (started_at t)),
     (''finishedAt'', ji64 (finished_at t)), (''elapsedMs'', JUint (elapsed_ms t)),
     (''outcome'', JStr (rt_outcome t))]"

definition page_json :: "timings_page \<Rightarrow> json" where
  "page_json p = JObj [(''timings'', JArr (map timing_json (pg_timings p))), (''complete'', JBool (pg_complete p)),
     (''cursor'', jopt (pg_cursor p)), (''scannedBytes'', JUint (of_nat (scanned_bytes p))),
     (''totalBytes'', JUint (of_nat (total_bytes p)))]"

definition deleting_error :: service_error where
  "deleting_error = (Conflict, JObj [(''error'', JStr ''Session deletion is pending; retry DELETE''),
     (''code'', JStr ''session_deleting'')])"

text \<open>
  The request under the lock of the session's life cycle: \<open>deleting\<close> and \<open>known\<close> are what the registry
  and the live sessions say of the id, \<open>is_uuid\<close> whether it parses as one, and \<open>project\<close> the root of the
  session's project or why there is none.
\<close>

definition run_timings ::
  "(string \<Rightarrow> json option) \<Rightarrow> fs \<Rightarrow> env \<Rightarrow> string \<Rightarrow> bool \<Rightarrow> bool \<Rightarrow> bool \<Rightarrow> string + string \<Rightarrow> string option
     \<Rightarrow> string \<Rightarrow> timings_query \<Rightarrow> timing_cache \<Rightarrow> service_reply \<times> timing_cache" where
  "run_timings parse w e uuid deleting is_uuid known project configured sid q cache =
     (if deleting then (error_reply deleting_error, cache)
      else if \<not> is_uuid then (error_reply (failure InvalidInput ''session ID must be a UUID''), cache)
      else case validate_query q of Inl err \<Rightarrow> (error_reply err, cache)
      | Inr _ \<Rightarrow>
        if \<not> known then (error_reply (failure NotFound ''unknown session''), cache)
        else case project of Inl err \<Rightarrow> (error_reply (failure Unavailable err), cache)
        | Inr root \<Rightarrow>
          (case session_root parse e root configured of Inl err \<Rightarrow> (error_reply err, cache)
           | Inr sroot \<Rightarrow>
             (case query_timings parse w uuid sid sroot q cache of
                (r, c) \<Rightarrow> (result_reply (bindR r (\<lambda>p. Inr (page_json p))), c))))"

end
