(* ===== verification/Run_Timing_Correct.thy ===== *)
theory Run_Timing_Correct
  imports Run_Timing
begin

text \<open>
  What the records of a session file mean for its timings, and that the scan finds exactly that. A run
  is open on a lane when its start is the lane's last operation and it has not finished; it is finished
  by a record with its id, and it then has a timing when a message was shown meanwhile.
\<close>

section \<open>The meaning of the records\<close>

definition op_started :: "string \<Rightarrow> json \<Rightarrow> bool" where
  "op_started l v \<longleftrightarrow> lane_of v = Some l \<and> as_str (jidx ''kind'' v) = Some ''record''
     \<and> as_str (jidx ''type'' v) = Some ''operation_started''"

definition run_started :: "string \<Rightarrow> json \<Rightarrow> (string \<times> int) option" where
  "run_started l v =
     (if op_started l v \<and> jidx ''kind'' (jidx ''intent'' v) = JStr ''run''
      then (case (short (jidx ''id'' v), as_i64 (jidx ''timestamp'' v)) of
              (Some i, Some t) \<Rightarrow> Some (i, t) | _ \<Rightarrow> None)
      else None)"

definition shown_by :: "string \<Rightarrow> json \<Rightarrow> string option" where
  "shown_by l v =
     (if lane_of v = Some l \<and> as_str (jidx ''kind'' v) = Some ''entry''
        \<and> as_str (jidx ''type'' v) = Some ''message'' \<and> visible (jidx ''message'' v)
      then short (jidx ''id'' v) else None)"

definition run_ended :: "string \<Rightarrow> string \<Rightarrow> json \<Rightarrow> bool" where
  "run_ended l i v \<longleftrightarrow> lane_of v = Some l \<and> as_str (jidx ''kind'' v) = Some ''record''
     \<and> as_str (jidx ''type'' v) = Some ''operation_finished'' \<and> as_str (jidx ''runId'' v) = Some i"

definition note_shown :: "string \<Rightarrow> json \<Rightarrow> active_run \<Rightarrow> active_run" where
  "note_shown l v a = (case shown_by l v of None \<Rightarrow> a | Some i \<Rightarrow> a\<lparr>act_last := Some i\<rparr>)"

definition open_run :: "json list \<Rightarrow> string \<Rightarrow> active_run \<Rightarrow> bool" where
  "open_run vs l a \<longleftrightarrow> (\<exists>as s bs i t.
     vs = as @ s # bs \<and> run_started l s = Some (i, t)
     \<and> (\<forall>b\<in>set bs. \<not> op_started l b \<and> \<not> run_ended l i b)
     \<and> a = fold (note_shown l) bs \<lparr>act_id = i, act_start = t, act_last = None\<rparr>)"

definition timing_at :: "json list \<Rightarrow> json \<Rightarrow> run_timing \<Rightarrow> bool" where
  "timing_at vs f t \<longleftrightarrow> (\<exists>a. open_run vs (rt_lane t) a \<and> run_ended (rt_lane t) (act_id a) f
     \<and> run_id t = act_id a \<and> started_at t = act_start a \<and> act_last a = Some (final_entry_id t)
     \<and> as_i64 (jidx ''timestamp'' f) = Some (finished_at t)
     \<and> short (jidx ''outcome'' f) = Some (rt_outcome t)
     \<and> elapsed_of (finished_at t) (started_at t) = Some (elapsed_ms t))"

definition timed_run :: "json list \<Rightarrow> run_timing \<Rightarrow> bool" where
  "timed_run vs t \<longleftrightarrow> (\<exists>as f bs. vs = as @ f # bs \<and> timing_at as f t)"

lemmas event_defs = op_started_def run_started_def shown_by_def run_ended_def

lemma act_id_note [simp]: "act_id (note_shown l v a) = act_id a"
  by (simp add: note_shown_def split: option.splits)

lemma act_id_fold_note [simp]: "act_id (fold (note_shown l) bs a) = act_id a"
  by (induction bs arbitrary: a) auto

lemma run_started_op: "run_started l v = Some x \<Longrightarrow> op_started l v"
  by (simp add: run_started_def split: if_splits)

lemma shown_not_started: "shown_by l v = Some i \<Longrightarrow> \<not> op_started l v \<and> \<not> run_ended l j v"
  by (auto simp: event_defs split: if_splits)

lemma ended_not_started: "run_ended l i v \<Longrightarrow> \<not> op_started l v"
  by (simp add: event_defs)

lemma note_shown_None [simp]: "shown_by l v = None \<Longrightarrow> note_shown l v a = a"
  by (simp add: note_shown_def)

lemma timed_run_Nil [simp]: "\<not> timed_run [] t"
  by (simp add: timed_run_def)

lemma open_run_Nil [simp]: "\<not> open_run [] l a"
  by (simp add: open_run_def)

lemma snoc_split: "vs @ [v] = as @ s # bs \<longleftrightarrow> (bs = [] \<and> as = vs \<and> s = v) \<or> (\<exists>cs. bs = cs @ [v] \<and> vs = as @ s # cs)"
  by (cases bs rule: rev_cases) auto

lemma open_run_snoc:
  "open_run (vs @ [v]) l a \<longleftrightarrow>
     (\<exists>i t. run_started l v = Some (i, t) \<and> a = \<lparr>act_id = i, act_start = t, act_last = None\<rparr>)
     \<or> (\<not> op_started l v \<and> (\<exists>b. open_run vs l b \<and> \<not> run_ended l (act_id b) v \<and> a = note_shown l v b))"
  (is "?L \<longleftrightarrow> ?A \<or> ?B")
proof
  assume ?L
  then obtain as s bs i t where split: "vs @ [v] = as @ s # bs" and rest: "run_started l s = Some (i, t)"
      "\<forall>b\<in>set bs. \<not> op_started l b \<and> \<not> run_ended l i b"
      "a = fold (note_shown l) bs \<lparr>act_id = i, act_start = t, act_last = None\<rparr>"
    by (auto simp: open_run_def)
  from split consider "bs = []" "s = v" | cs where "bs = cs @ [v]" "vs = as @ s # cs"
    by (auto simp: snoc_split)
  then show "?A \<or> ?B"
  proof cases
    case 1
    with rest show ?thesis by simp
  next
    case 2
    define b where "b = fold (note_shown l) cs \<lparr>act_id = i, act_start = t, act_last = None\<rparr>"
    from 2 rest have "open_run vs l b" unfolding open_run_def b_def by fastforce
    moreover have "\<not> op_started l v" "\<not> run_ended l (act_id b) v" "a = note_shown l v b"
      using 2 rest by (auto simp: b_def)
    ultimately show ?thesis by blast
  qed
next
  assume "?A \<or> ?B"
  then show ?L
  proof
    assume ?A
    then show ?L unfolding open_run_def by (metis append_Nil2 empty_iff empty_set fold_simps(1))
  next
    assume ?B
    then obtain b where b: "\<not> op_started l v" "open_run vs l b" "\<not> run_ended l (act_id b) v" "a = note_shown l v b"
      by blast
    then obtain as s bs i t where "vs = as @ s # bs" "run_started l s = Some (i, t)"
      "\<forall>b\<in>set bs. \<not> op_started l b \<and> \<not> run_ended l i b"
      "b = fold (note_shown l) bs \<lparr>act_id = i, act_start = t, act_last = None\<rparr>"
      by (auto simp: open_run_def)
    with b show ?L unfolding open_run_def
      by (intro exI [of _ as] exI [of _ s] exI [of _ "bs @ [v]"] exI [of _ i] exI [of _ t]) auto
  qed
qed

lemma timed_run_snoc: "timed_run (vs @ [v]) t \<longleftrightarrow> timed_run vs t \<or> timing_at vs v t"
  unfolding timed_run_def by (auto simp: snoc_split)

section \<open>One record\<close>

definition next_run :: "string \<Rightarrow> json \<Rightarrow> active_run option \<Rightarrow> active_run option" where
  "next_run l v m =
     (if op_started l v
      then map_option (\<lambda>(i, t). \<lparr>act_id = i, act_start = t, act_last = None\<rparr>) (run_started l v)
      else (case m of None \<Rightarrow> None
            | Some a \<Rightarrow> if run_ended l (act_id a) v then None else Some (note_shown l v a)))"

lemma event_lane:
  "op_started l v \<Longrightarrow> lane_of v = Some l" "run_ended l i v \<Longrightarrow> lane_of v = Some l"
  "shown_by l v = Some i \<Longrightarrow> lane_of v = Some l"
  by (auto simp: event_defs split: if_splits)

lemma next_run_other: "lane_of v \<noteq> Some l \<Longrightarrow> next_run l v m = m"
  by (auto simp: next_run_def note_shown_def dest: event_lane split: option.splits)

lemma start_run_active:
  assumes "start_run l v s = Inr s'" and "op_started l v"
  shows "map_of (active s') k = (if k = l then next_run l v m else map_of (active s) k)"
  using assms
  by (auto simp: start_run_def next_run_def run_started_def Let_def delete_conv' update_conv'
      split: if_splits option.splits)

lemma finish_run_active: "finish_run l a v s = Inr s' \<Longrightarrow> active s' = AList.delete l (active s)"
  by (auto simp: finish_run_def Let_def split: if_splits option.splits)

lemma record_value_active:
  assumes "record_value v s = Inr s'"
  shows "map_of (active s') l = next_run l v (map_of (active s) l)"
proof (cases "lane_of v")
  case None
  with assms show ?thesis by (auto simp: record_value_def next_run_other)
next
  case (Some k)
  show ?thesis
  proof (cases "op_started k v")
    case True
    with assms Some have "start_run k v s = Inr s'" by (simp add: record_value_def op_started_def)
    then show ?thesis
      using start_run_active [OF _ True, of s s' l "map_of (active s) l"] Some
      by (cases "l = k") (auto simp: next_run_other)
  next
    case nstart: False
    show ?thesis
    proof (cases "as_str (jidx ''kind'' v) = Some ''entry'' \<and> as_str (jidx ''type'' v) = Some ''message''")
      case True
      with assms Some have s': "s' = show_message k v s" by (simp add: record_value_def Let_def)
      have noend: "\<not> run_ended k i v" for i using True by (simp add: run_ended_def)
      show ?thesis
      proof (cases "l = k")
        case True
        with noend nstart Some \<open>_ \<and> _\<close> show ?thesis unfolding s'
          by (auto simp: show_message_def next_run_def note_shown_def shown_by_def update_conv' split: option.splits)
      next
        case False
        with Some show ?thesis unfolding s'
          by (auto simp: show_message_def next_run_other update_conv' split: option.splits)
      qed
    next
      case False
      then have noshow: "shown_by k v = None" by (auto simp: shown_by_def)
      from assms False Some nstart have cases:
        "s' = s \<and> (\<forall>a. map_of (active s) k = Some a \<longrightarrow> \<not> run_ended k (act_id a) v)
         \<or> (\<exists>a. map_of (active s) k = Some a \<and> run_ended k (act_id a) v \<and> finish_run k a v s = Inr s')"
        by (auto simp: record_value_def Let_def op_started_def run_ended_def split: if_splits option.splits)
      show ?thesis
      proof (cases "l = k")
        case True
        with cases nstart noshow show ?thesis
          by (auto simp: next_run_def delete_conv' dest!: finish_run_active split: option.splits)
      next
        case False
        with cases Some show ?thesis by (auto simp: next_run_other delete_conv' dest!: finish_run_active)
      qed
    qed
  qed
qed

definition ends_as :: "string \<Rightarrow> active_run \<Rightarrow> json \<Rightarrow> run_timing \<Rightarrow> bool" where
  "ends_as l a v t \<longleftrightarrow> rt_lane t = l \<and> run_id t = act_id a \<and> started_at t = act_start a
     \<and> act_last a = Some (final_entry_id t) \<and> as_i64 (jidx ''timestamp'' v) = Some (finished_at t)
     \<and> short (jidx ''outcome'' v) = Some (rt_outcome t)
     \<and> elapsed_of (finished_at t) (started_at t) = Some (elapsed_ms t)"

lemma finish_run_timings:
  "finish_run l a v s = Inr s' \<Longrightarrow> t \<in> set (timings s') \<longleftrightarrow> t \<in> set (timings s) \<or> ends_as l a v t"
  by (cases t) (auto simp: finish_run_def ends_as_def Let_def split: if_splits option.splits)

lemma record_value_timings:
  assumes "record_value v s = Inr s'" and "\<And>l a. map_of (active s) l = Some a \<longleftrightarrow> open_run vs l a"
  shows "set (timings s') = set (timings s) \<union> {t. timing_at vs v t}"
proof (cases "\<exists>l a. map_of (active s) l = Some a \<and> run_ended l (act_id a) v")
  case True
  then obtain l a where a: "map_of (active s) l = Some a" "run_ended l (act_id a) v" by blast
  with assms(1) have fin: "finish_run l a v s = Inr s'"
    by (auto simp: record_value_def Let_def run_ended_def)
  have "timing_at vs v t \<longleftrightarrow> ends_as l a v t" for t
    unfolding timing_at_def ends_as_def assms(2) [symmetric]
    using a event_lane(2) by (metis option.inject)
  with finish_run_timings [OF fin] show ?thesis by auto
next
  case False
  then have "\<not> timing_at vs v t" for t unfolding timing_at_def assms(2) [symmetric] by blast
  moreover have "timings s' = timings s"
    using assms(1) False
    by (auto simp: record_value_def Let_def start_run_def show_message_def run_ended_def
        split: if_splits option.splits)
  ultimately show ?thesis by simp
qed

definition no_tally :: tally where
  "no_tally = \<lparr>active = [], timings = []\<rparr>"

lemma records_meaning:
  assumes "foldR record_value vs no_tally = Inr s"
  shows "(\<forall>l a. map_of (active s) l = Some a \<longleftrightarrow> open_run vs l a) \<and> set (timings s) = {t. timed_run vs t}"
  using assms
proof (induction vs arbitrary: s rule: rev_induct)
  case Nil
  then show ?case by (auto simp: no_tally_def)
next
  case (snoc v vs)
  then obtain r where r: "foldR record_value vs no_tally = Inr r" "record_value v r = Inr s"
    by (auto simp: foldR_append bindR_Inr_iff)
  note IH = snoc.IH [OF r(1)]
  have "map_of (active s) l = Some a \<longleftrightarrow> open_run (vs @ [v]) l a" for l a
  proof -
    have "open_run vs l b \<longleftrightarrow> map_of (active r) l = Some b" for b using IH by simp
    then show ?thesis
      unfolding open_run_snoc record_value_active [OF r(2)] next_run_def
      by (auto simp: run_started_op split: option.splits)
  qed
  moreover have "set (timings s) = {t. timed_run (vs @ [v]) t}"
    using record_value_timings [OF r(2)] IH by (auto simp: timed_run_snoc)
  ultimately show ?case by blast
qed

end
