(* ===== verification/Run_Timing_Reading.thy ===== *)
theory Run_Timing_Reading
  imports Run_Timing_Scan Run_Timing_Correct "HOL-Library.Sublist"
begin

text \<open>
  The incremental scan against a read of the whole file: whatever the sizes of the reads, the budgets
  and the number of queries, a scan is at every moment what the bytes before its offset say.
\<close>

section \<open>A read of the whole file\<close>

definition session_records :: "(string \<Rightarrow> json option) \<Rightarrow> string \<Rightarrow> string \<Rightarrow> json list option" where
  "session_records parse sid bs =
     (case mapR (\<lambda>l. ok_or () (parse (l @ [NL]))) (butlast (lines_of bs)) of
        Inr (h # rs) \<Rightarrow> if last (lines_of bs) = [] \<and> check_header h sid = Inr () then Some rs else None
      | _ \<Rightarrow> None)"

section \<open>What a scan has read\<close>

definition is_line :: "string \<Rightarrow> bool" where
  "is_line l \<longleftrightarrow> (\<exists>x. l = x @ [NL] \<and> NL \<notin> set x)"

definition read_values :: "string \<Rightarrow> json list \<Rightarrow> bool \<Rightarrow> tally \<Rightarrow> bool" where
  "read_values sid vs header t = (case vs of
     [] \<Rightarrow> \<not> header \<and> t = no_tally
   | h # rs \<Rightarrow> header \<and> check_header h sid = Inr () \<and> foldR record_value rs no_tally = Inr t)"

definition scanned :: "(string \<Rightarrow> json option) \<Rightarrow> string \<Rightarrow> string \<Rightarrow> scan \<Rightarrow> bool" where
  "scanned parse sid bs sc \<longleftrightarrow> (\<exists>ls vs.
     bs = concat ls @ pending sc \<and> list_all is_line ls \<and> NL \<notin> set (pending sc)
     \<and> map parse ls = map Some vs \<and> read_values sid vs (sc_header sc) (sc_tally sc))"

lemma scanned_start: "scanned parse sid [] (new_scan path sid uuid m)"
  unfolding scanned_def
  by (intro exI [of _ "[]"]) (simp add: new_scan_def read_values_def no_tally_def)

lemma scanned_add:
  "scanned parse sid bs sc \<Longrightarrow> NL \<notin> set x \<Longrightarrow> scanned parse sid (bs @ x) (add_bytes x sc)"
  by (auto simp: scanned_def add_bytes_def)

lemma read_values_snoc:
  assumes "read_values sid vs (sc_header sc) (sc_tally sc)" and "parse (pending sc) = Some v"
    and "end_line parse sid sc = Inr sc'"
  shows "read_values sid (vs @ [v]) (sc_header sc') (sc_tally sc')"
  using assms
  by (cases vs) (auto simp: read_values_def end_line_def bindR_Inr_iff foldR_append)

lemma scanned_end_line:
  assumes "scanned parse sid bs sc" and "NL \<notin> set x"
    and "end_line parse sid (add_bytes (x @ [NL]) sc) = Inr sc'"
  shows "scanned parse sid (bs @ x @ [NL]) sc'"
proof -
  obtain ls vs where sc: "bs = concat ls @ pending sc" "list_all is_line ls" "NL \<notin> set (pending sc)"
    "map parse ls = map Some vs" "read_values sid vs (sc_header sc) (sc_tally sc)"
    using assms(1) by (auto simp: scanned_def)
  let ?l = "pending sc @ x @ [NL]"
  obtain v where v: "parse ?l = Some v"
    using assms(3) by (auto simp: end_line_def add_bytes_def split: option.splits)
  have "read_values sid (vs @ [v]) (sc_header sc') (sc_tally sc')"
    by (rule read_values_snoc [OF _ _ assms(3)]) (use sc v in \<open>simp_all add: add_bytes_def\<close>)
  moreover have "is_line ?l" using sc(3) assms(2) by (auto simp: is_line_def)
  moreover have "pending sc' = []"
    using assms(3) by (auto simp: end_line_def bindR_Inr_iff split: option.splits if_splits)
  ultimately show ?thesis using sc v unfolding scanned_def
    by (intro exI [of _ "ls @ [?l]"] exI [of _ "vs @ [v]"]) simp
qed

section \<open>Pieces\<close>

lemma line_end_cases:
  obtains "NL \<notin> set (take (line_end s) s)"
  | x where "take (line_end s) s = x @ [NL]" "NL \<notin> set x"
proof (induction s arbitrary: thesis)
  case Nil
  then show ?case by (simp add: line_end_def)
next
  case (Cons c s)
  show ?case
  proof (cases "c = NL")
    case True
    then have "take (line_end (c # s)) (c # s) = [] @ [NL]" by (simp add: line_end_def)
    then show ?thesis using Cons.prems(2) by (metis empty_iff empty_set)
  next
    case False
    then have le: "line_end (c # s) = Suc (line_end s)" by (auto simp: line_end_def split: option.splits)
    show ?thesis
    proof (rule Cons.IH)
      assume "NL \<notin> set (take (line_end s) s)"
      then show thesis using False le by (intro Cons.prems(1)) simp
    next
      fix x assume "take (line_end s) s = x @ [NL]" "NL \<notin> set x"
      then show thesis using False le by (intro Cons.prems(2) [of "c # x"]) simp_all
    qed
  qed
qed

lemma scan_chunk_scanned:
  assumes "scanned parse sid bs sc" and "scan_chunk parse sid chunk sc = Inr (k, line, sc')"
  shows "scanned parse sid (bs @ take k chunk) sc'"
proof -
  have k: "k = line_end chunk" using scan_chunk_offset [OF assms(2)] by simp
  have pend: "NL \<notin> set (pending sc)" using assms(1) by (auto simp: scanned_def)
  show ?thesis
  proof (rule line_end_cases [of chunk])
    assume "NL \<notin> set (take (line_end chunk) chunk)"
    moreover from this pend have "sc' = add_bytes (take k chunk) sc"
      using assms(2) last_in_set [of "pending sc @ take k chunk"] unfolding k
      by (auto simp: scan_chunk_def Let_def add_bytes_def bindR_Inr_iff split: if_splits)
    ultimately show ?thesis using scanned_add [OF assms(1)] k by simp
  next
    fix x assume x: "take (line_end chunk) chunk = x @ [NL]" "NL \<notin> set x"
    then have "end_line parse sid (add_bytes (x @ [NL]) sc) = Inr sc'"
      using assms(2) by (auto simp: scan_chunk_def Let_def bindR_Inr_iff add_bytes_def split: if_splits)
    from scanned_end_line [OF assms(1) x(2) this] show ?thesis unfolding k x(1) .
  qed
qed

fun delivered :: "(string + string) list \<Rightarrow> string" where
  "delivered (Inr bs # rest) = bs @ delivered rest"
| "delivered _ = []"

definition ahead :: "reader \<Rightarrow> string" where
  "ahead r = buf r @ delivered (inputs r)"

lemma fill_buf_ahead: "fill_buf r = Inr r' \<Longrightarrow> ahead r' = ahead r"
  by (auto simp: fill_buf_def ahead_def split: if_splits list.splits sum.splits)

definition reads_of :: "string \<Rightarrow> reader \<Rightarrow> scan \<Rightarrow> bool" where
  "reads_of c r sc \<longleftrightarrow> prefix (ahead r) (drop (offset sc) c)"

definition scan_of :: "(string \<Rightarrow> json option) \<Rightarrow> string \<Rightarrow> string \<Rightarrow> scan \<Rightarrow> bool" where
  "scan_of parse sid c sc \<longleftrightarrow> offset sc \<le> length c \<and> scanned parse sid (take (offset sc) c) sc"

lemma scan_step_of:
  assumes "scan_of parse sid c sc" and "reads_of c r sc"
    and "scan_step parse sid len bytes r sc = Inr (k, line, r', sc')"
  shows "scan_of parse sid c sc' \<and> reads_of c r' sc'"
proof -
  obtain r1 where r1: "fill_buf r = Inr r1" and chunk: "scan_chunk parse sid (piece len bytes r1 sc) sc = Inr (k, line, sc')"
    and r': "r' = r1\<lparr>buf := drop k (buf r1)\<rparr>"
    using assms(3) by (auto simp: scan_step_def bindR_Inr_iff map_err_Inr_iff split: if_splits)
  define p where "p = piece len bytes r1 sc"
  have k: "k = line_end p" "offset sc' = offset sc + k" "k \<le> length p"
    using scan_chunk_offset [OF chunk] line_end_le [of p] by (auto simp: p_def)
  obtain n where n: "p = take n (buf r1)" by (auto simp: p_def piece_def)
  from k(3) n have kp: "k \<le> length (buf r1)" "take k p = take k (buf r1)" by (simp_all add: min_def split: if_splits)
  obtain z where z: "drop (offset sc) c = buf r1 @ delivered (inputs r1) @ z"
    using assms(2) unfolding reads_of_def fill_buf_ahead [OF r1, symmetric]
    by (auto simp: ahead_def prefix_def)
  have split: "take (offset sc') c = take (offset sc) c @ take k p"
    unfolding k(2) take_add kp(2) using kp(1) z by simp
  have off: "offset sc' \<le> length c"
  proof -
    have "k \<le> length (drop (offset sc) c)" using z kp(1) by simp
    moreover have "offset sc \<le> length c" using assms(1) by (simp add: scan_of_def)
    ultimately show ?thesis unfolding k(2) by simp
  qed
  have "scanned parse sid (take (offset sc) c @ take k p) sc'"
    using scan_chunk_scanned assms(1) chunk unfolding scan_of_def p_def by blast
  moreover have "drop (offset sc') c = drop k (buf r1) @ delivered (inputs r1) @ z"
    unfolding k(2) using z kp(1) by (metis add.commute drop_append drop_drop diff_is_0_eq drop0)
  ultimately show ?thesis using off by (simp add: scan_of_def reads_of_def ahead_def r' split)
qed

lemma scan_loop_of:
  assumes "scan_loop parse sid len bytes records r sc = Inr sc'"
    and "scan_of parse sid c sc" and "reads_of c r sc"
  shows "scan_of parse sid c sc'"
  using scan_loop_invariant [OF assms(1), of "\<lambda>r sc. scan_of parse sid c sc \<and> reads_of c r sc"]
    scan_step_of assms(2,3) by blast

section \<open>A complete scan is a read of the whole file\<close>

lemma lines_of_concat: "list_all is_line ls \<Longrightarrow> lines_of (concat ls) = map butlast ls @ [[]]"
proof (induction ls)
  case (Cons l ls)
  then obtain x where x: "l = x @ [NL]" "NL \<notin> set x" by (auto simp: is_line_def)
  then show ?case using Cons split_char_append [of NL x "concat ls"] by (simp add: split_char_none)
qed simp

lemma butlast_NL: "is_line l \<Longrightarrow> butlast l @ [NL] = l"
  by (auto simp: is_line_def)

lemma mapR_parse:
  "list_all is_line ls \<Longrightarrow> map parse ls = map Some vs \<Longrightarrow>
    mapR (\<lambda>l. ok_or () (parse (l @ [NL]))) (map butlast ls) = Inr vs"
  by (induction ls arbitrary: vs) (auto simp: butlast_NL)

lemma scanned_complete:
  assumes "scanned parse sid bs sc" and "sc_header sc" and "pending sc = []"
  shows "\<exists>rs. session_records parse sid bs = Some rs \<and> foldR record_value rs no_tally = Inr (sc_tally sc)"
proof -
  obtain ls vs where ls: "bs = concat ls" "list_all is_line ls" "map parse ls = map Some vs"
    "read_values sid vs True (sc_tally sc)"
    using assms by (auto simp: scanned_def)
  then obtain h rs where "vs = h # rs" "check_header h sid = Inr ()" "foldR record_value rs no_tally = Inr (sc_tally sc)"
    by (auto simp: read_values_def split: list.splits)
  moreover from this ls have "mapR (\<lambda>l. ok_or () (parse (l @ [NL]))) (map butlast ls) = Inr (h # rs)"
    by (intro mapR_parse) auto
  ultimately show ?thesis using ls(1,2) by (simp add: session_records_def lines_of_concat)
qed

section \<open>Queries on growing files\<close>

text \<open>
  An open file is one with the content \<open>c\<close> when its length is that of \<open>c\<close> and its reads return bytes
  of \<open>c\<close>; they may return fewer, or fail.
\<close>

definition file_with :: "string \<Rightarrow> opened \<Rightarrow> bool" where
  "file_with c f \<longleftrightarrow> (\<forall>m. meta f = Inr m \<longrightarrow> md_len m = length c)
     \<and> (\<forall>k. prefix (delivered (reads_from f k)) (drop k c))"

definition serves :: "fs \<Rightarrow> (string \<Rightarrow> string) \<Rightarrow> bool" where
  "serves w F \<longleftrightarrow> (\<forall>p q f. canonicalize w p = Inr q \<longrightarrow> open_file w q = Inr f \<longrightarrow> file_with (F p) f)"

definition cache_of :: "(string \<Rightarrow> json option) \<Rightarrow> (string \<Rightarrow> string) \<Rightarrow> timing_cache \<Rightarrow> bool" where
  "cache_of parse F c \<longleftrightarrow> (\<forall>(sid, sc)\<in>set c. scan_of parse sid (F (sc_path sc)) sc)"

lemma scan_loop_path:
  assumes "scan_loop parse sid len bytes records r sc = Inr sc'"
  shows "sc_path sc' = sc_path sc \<and> generation sc' = generation sc \<and> sc_identity sc' = sc_identity sc"
proof -
  have "\<exists>r'. (\<lambda>_ s. sc_path s = sc_path sc \<and> generation s = generation sc
      \<and> sc_identity s = sc_identity sc) (r' :: reader) sc'"
    by (rule scan_loop_invariant [OF assms]) (auto dest: scan_step_path)
  then show ?thesis by simp
qed

lemma reopen_file:
  "reopen parse w sid root sc = Inr (f, m) \<Longrightarrow>
    \<exists>p. canonicalize w (sc_path sc) = Inr p \<and> open_file w p = Inr f \<and> meta f = Inr m
      \<and> md_identity m = sc_identity sc \<and> sc_length sc \<le> md_len m"
  by (auto simp: reopen_def service_iffs)

lemma advance_of:
  assumes "advance parse w sid root q sc = Inr (page, sc')" and "serves w F"
    and "scan_of parse sid (F (sc_path sc)) sc"
  shows "sc_path sc' = sc_path sc \<and> scan_of parse sid (F (sc_path sc)) sc'
    \<and> page = page_of q (length (F (sc_path sc))) sc'"
proof -
  obtain f m sc1 a where re: "reopen parse w sid root sc = Inr (f, m)"
    and loop: "scan_loop parse sid (md_len m) 0 0 \<lparr>buf = [], inputs = reads_from f (offset sc)\<rparr> sc = Inr sc1"
    and sc': "sc' = sc1\<lparr>anchor := a, sc_modified := md_modified m, sc_length := md_len m\<rparr>"
    and page: "page = page_of q (md_len m) sc'"
    using assms(1) by (auto simp: advance_def Let_def bindR_Inr_iff)
  from reopen_file [OF re] assms(2) have f: "file_with (F (sc_path sc)) f" "meta f = Inr m"
    by (auto simp: serves_def)
  then have "reads_of (F (sc_path sc)) \<lparr>buf = [], inputs = reads_from f (offset sc)\<rparr> sc"
    by (simp add: reads_of_def ahead_def file_with_def)
  from scan_loop_of [OF loop assms(3) this] have "scan_of parse sid (F (sc_path sc)) sc1" .
  then have "scan_of parse sid (F (sc_path sc)) sc'" unfolding sc' by (simp add: scan_of_def scanned_def)
  with scan_loop_path [OF loop] f page show ?thesis by (simp add: sc' file_with_def)
qed

lemma take_scan_Some: "take_scan sid c = Some (sc, c') \<Longrightarrow> (sid, sc) \<in> set c \<and> set c' \<subseteq> set c"
proof (induction c arbitrary: sc c')
  case (Cons x c)
  then show ?case by (cases x) (fastforce split: if_splits)
qed simp

lemma scan_of_grow: "scan_of parse sid c sc \<Longrightarrow> prefix c c' \<Longrightarrow> scan_of parse sid c' sc"
  by (auto simp: scan_of_def prefix_def)

lemma find_scan_of:
  assumes "find_scan parse w uuid sid root q c = (Inr sc, c')" and "cache_of parse F c"
  shows "scan_of parse sid (F (sc_path sc)) sc \<and> set c' \<subseteq> set c"
proof (cases "take_scan sid c")
  case None
  with assms(1) obtain path m where "sc = new_scan path sid uuid m" "c' = c"
    by (auto simp: find_scan_def bindR_Inr_iff split: if_splits)
  moreover have "offset (new_scan path sid uuid m) = 0" by (simp add: new_scan_def)
  ultimately show ?thesis by (simp add: scan_of_def scanned_start)
next
  case (Some y)
  with assms(1) have "take_scan sid c = Some (sc, c')"
    by (cases y) (auto simp: find_scan_def split: if_splits)
  from take_scan_Some [OF this] assms(2) show ?thesis by (auto simp: cache_of_def)
qed

end
