(* ===== verification/Run_Timing_Progress.thy ===== *)
theory Run_Timing_Progress
  imports Run_Timing_Reading
begin

text \<open>
  A file that no one writes to is read to its end by enough queries: every query takes up at least as
  many bytes as its record budget, and no query fails on a well-formed session file.
\<close>

section \<open>Well-formed session files\<close>

definition well_formed :: "(string \<Rightarrow> json option) \<Rightarrow> string \<Rightarrow> string \<Rightarrow> tally \<Rightarrow> bool" where
  "well_formed parse sid c tot \<longleftrightarrow>
     (case session_records parse sid c of
        None \<Rightarrow> False
      | Some rs \<Rightarrow> foldR record_value rs no_tally = Inr tot)
     \<and> length (hd (lines_of c)) < HEADER_LINE
     \<and> list_all (\<lambda>l. length l < MAX_LINE) (lines_of c)"

definition session_lines :: "(string \<Rightarrow> json option) \<Rightarrow> string \<Rightarrow> string \<Rightarrow> tally \<Rightarrow> string list \<Rightarrow> json \<Rightarrow> json list \<Rightarrow> bool" where
  "session_lines parse sid c tot ls h rs \<longleftrightarrow>
     c = concat ls \<and> list_all is_line ls \<and> map parse ls = map Some (h # rs)
     \<and> check_header h sid = Inr () \<and> foldR record_value rs no_tally = Inr tot
     \<and> length (hd ls) \<le> HEADER_LINE \<and> (\<forall>l\<in>set ls. length l \<le> MAX_LINE)"

lemma join_concat: "join [d] (ls @ [[]]) = concat (map (\<lambda>l. l @ [d]) ls)"
  by (induction ls) (auto simp: join_Cons)

lemma mapR_ok_or: "mapR (\<lambda>l. ok_or () (f l)) ls = Inr vs \<longleftrightarrow> map f ls = map Some vs"
  by (induction ls arbitrary: vs) (auto simp: bindR_Inr_iff ok_or_Inr_iff map_eq_Cons_conv)

lemma well_formed_lines:
  assumes "well_formed parse sid c tot"
  obtains ls h rs where "session_lines parse sid c tot ls h rs"
proof -
  define ms where "ms = butlast (lines_of c)"
  obtain h rs where rs: "session_records parse sid c = Some rs" "foldR record_value rs no_tally = Inr tot"
    and map: "map (\<lambda>l. parse (l @ [NL])) ms = map Some (h # rs)"
    and last: "last (lines_of c) = []" and h: "check_header h sid = Inr ()"
    using assms
    by (auto simp: well_formed_def session_records_def mapR_ok_or ms_def split: option.splits sum.splits list.splits if_splits)
  have lines: "lines_of c = ms @ [[]]"
    using last append_butlast_last_id [of "lines_of c"] by (simp add: ms_def)
  have c: "c = concat (map (\<lambda>l. l @ [NL]) ms)"
    using join_split_char [of NL c] unfolding lines join_concat by simp
  have free: "NL \<notin> set l" if "l \<in> set ms" for l
    using that split_char_free [of l NL c] by (simp add: lines)
  have "ms \<noteq> []" using map by auto
  then have "session_lines parse sid c tot (map (\<lambda>l. l @ [NL]) ms) h rs"
    using assms c map h rs free unfolding session_lines_def well_formed_def lines
    by (auto simp: list_all_iff is_line_def hd_map hd_append comp_def Suc_le_eq)
  with that show ?thesis .
qed

lemma first_separator:
  "d \<notin> set x \<Longrightarrow> d \<notin> set y \<Longrightarrow> x @ d # a = y @ d # b \<longleftrightarrow> x = y \<and> a = b"
proof (induction x arbitrary: y)
  case Nil
  then show ?case by (cases y) auto
next
  case (Cons u x)
  then show ?case by (cases y) auto
qed

lemma same_lines:
  assumes "list_all is_line ls" and "list_all is_line ms" and "NL \<notin> set p"
    and "concat ls @ p @ rest = concat ms"
  shows "\<exists>ns. ms = ls @ ns \<and> p @ rest = concat ns"
  using assms
proof (induction ls arbitrary: ms)
  case (Cons l ls)
  then obtain m ms' where ms: "ms = m # ms'" by (cases ms) (auto simp: is_line_def)
  obtain x y where x: "l = x @ [NL]" "NL \<notin> set x" and y: "m = y @ [NL]" "NL \<notin> set y"
    using Cons.prems unfolding ms by (auto simp: is_line_def)
  then have "x @ NL # (concat ls @ p @ rest) = y @ NL # concat ms'" using Cons.prems(4) by (simp add: ms)
  then have "x = y \<and> concat ls @ p @ rest = concat ms'"
    using first_separator [of NL x y] x y by auto
  moreover from this Cons have "\<exists>ns. ms' = ls @ ns \<and> p @ rest = concat ns" by (simp add: ms)
  ultimately show ?case using x y ms by auto
qed simp

section \<open>No step fails\<close>

definition ready :: "string \<Rightarrow> reader \<Rightarrow> scan \<Rightarrow> bool" where
  "ready c r sc \<longleftrightarrow> ahead r = drop (offset sc) c \<and> (\<forall>x\<in>set (inputs r). \<exists>b. x = Inr b \<and> b \<noteq> [])"

lemma ready_reads: "ready c r sc \<Longrightarrow> reads_of c r sc"
  by (simp add: ready_def reads_of_def)

lemma ready_fill:
  assumes "ready c r sc" and "offset sc < length c"
  obtains r' where "fill_buf r = Inr r'" "buf r' \<noteq> []" "ready c r' sc"
proof (cases "buf r = []")
  case True
  with assms obtain b rest where "inputs r = Inr b # rest" "b \<noteq> []"
    by (cases "inputs r") (auto simp: ready_def ahead_def)
  then show ?thesis using True assms
    by (intro that [of "\<lparr>buf = b, inputs = rest\<rparr>"]) (auto simp: fill_buf_def ready_def ahead_def)
next
  case False
  then show ?thesis using assms by (intro that [of r]) (auto simp: fill_buf_def)
qed

lemma append_free_prefix: "d \<notin> set u \<Longrightarrow> u @ r = y @ d # t \<Longrightarrow> length u \<le> length y"
proof (rule ccontr)
  assume "d \<notin> set u" "u @ r = y @ d # t" "\<not> length u \<le> length y"
  then have "u ! length y = d" by (metis nth_append nth_append_length not_le)
  with \<open>d \<notin> set u\<close> \<open>\<not> length u \<le> length y\<close> show False by (metis not_le nth_mem)
qed

lemma scan_chunk_ok:
  assumes "session_lines parse sid c tot ls h rs" and "scan_of parse sid c sc"
    and "prefix chunk (drop (offset sc) c)" and "chunk \<noteq> []"
  shows "\<exists>k line sc'. scan_chunk parse sid chunk sc = Inr (k, line, sc')"
proof -
  define k where "k = line_end chunk"
  define x where "x = take k chunk"
  have x: "length x = k" "x \<noteq> []"
    using line_end_le [of chunk] line_end_pos [OF assms(4)] assms(4) by (auto simp: x_def k_def)
  obtain rest where rest: "drop (offset sc) c = x @ rest"
    using assms(3) by (metis append.assoc append_take_drop_id prefix_def x_def)
  obtain os vs where sc: "take (offset sc) c = concat os @ pending sc" "list_all is_line os"
    "NL \<notin> set (pending sc)" "map parse os = map Some vs" "read_values sid vs (sc_header sc) (sc_tally sc)"
    using assms(2) by (auto simp: scan_of_def scanned_def)
  have "concat os @ pending sc @ (x @ rest) = concat ls"
  proof -
    have "concat os @ pending sc @ x @ rest = take (offset sc) c @ drop (offset sc) c"
      unfolding sc(1) rest by simp
    then show ?thesis using assms(1) by (simp add: session_lines_def)
  qed
  then obtain ns where ns: "ls = os @ ns" "(pending sc @ x) @ rest = concat ns"
    using same_lines [of os ls "pending sc" "x @ rest"] sc assms(1) by (auto simp: session_lines_def)
  then obtain n ns' where n: "ns = n # ns'" using x by (cases ns) auto
  obtain y where y: "n = y @ [NL]" "NL \<notin> set y" using assms(1) ns n by (auto simp: session_lines_def is_line_def)
  have "map Some (h # rs) = map parse os @ parse n # map parse ns'"
    using assms(1) ns n unfolding session_lines_def by (metis list.simps(9) map_append)
  from this [unfolded map_eq_append_conv] obtain ws us
    where us: "h # rs = ws @ us" "map parse os = map Some ws" "parse n # map parse ns' = map Some us"
    by (elim exE conjE) (rule that)
  then obtain v ws' where "us = v # ws'" "Some v = parse n" by (cases us) auto
  with us have split: "h # rs = ws @ v # ws'" "map Some ws = map parse os" "Some v = parse n" by (simp_all del: map_eq_conv)
  have v: "parse n = Some v" by (rule split(3) [symmetric])
  have "map Some vs = map Some ws" unfolding split(2) by (rule sc(4) [symmetric])
  then have "map (the \<circ> Some) vs = map (the \<circ> Some) ws" by (metis list.map_comp)
  then have vs: "h # rs = vs @ v # ws'" using split(1) by (simp add: comp_def)
  have head: "sc_header sc \<longleftrightarrow> os \<noteq> []"
    using sc(4,5) by (cases vs) (auto simp: read_values_def)
  have bound: "length n \<le> line_bound sc"
    using assms(1) ns n head by (cases os) (auto simp: session_lines_def line_bound_def)
  have flat: "pending sc @ x @ rest = y @ NL # concat ns'" using ns(2) n y by simp
  show ?thesis
  proof (rule line_end_cases [of chunk])
    assume "NL \<notin> set (take (line_end chunk) chunk)"
    then have free: "NL \<notin> set (pending sc @ x)" using sc(3) by (simp add: x_def k_def)
    from append_free_prefix [OF free] flat have "length (pending sc @ x) \<le> length y" by simp
    then have "length (pending sc) + k \<le> line_bound sc" using bound y x by simp
    moreover have "last (pending sc @ x) \<noteq> NL" using free x(2) by (metis UnCI last_appendR last_in_set set_append)
    ultimately have "scan_chunk parse sid chunk sc = Inr (k, False, add_bytes x sc)"
      by (simp add: scan_chunk_def Let_def k_def [symmetric] x_def [symmetric] add_bytes_def)
    then show ?thesis by blast
  next
    fix z assume z: "take (line_end chunk) chunk = z @ [NL]" "NL \<notin> set z"
    then have xz: "x = z @ [NL]" by (simp add: x_def k_def)
    have "(pending sc @ z) @ NL # rest = y @ NL # concat ns'" using flat xz by simp
    then have pn: "pending sc @ x = n" using first_separator [of NL "pending sc @ z" y] y z sc(3) xz by auto
    then have "length (pending sc) + k \<le> line_bound sc" using bound x by (metis length_append)
    moreover have "\<exists>sc'. end_line parse sid (add_bytes x sc) = Inr sc'"
    proof (cases vs)
      case Nil
      then have "\<not> sc_header sc" "check_header v sid = Inr ()"
        using sc(5) vs assms(1) by (auto simp: read_values_def session_lines_def)
      then show ?thesis by (simp add: end_line_def add_bytes_def pn v)
    next
      case (Cons w us)
      then have "rs = us @ v # ws'" "sc_header sc" "foldR record_value us no_tally = Inr (sc_tally sc)"
        using sc(5) vs by (auto simp: read_values_def)
      moreover from this have "\<exists>u. record_value v (sc_tally sc) = Inr u"
        using assms(1) by (auto simp: session_lines_def foldR_append bindR_Inr_iff)
      ultimately show ?thesis by (auto simp: end_line_def add_bytes_def pn v)
    qed
    ultimately show ?thesis
      using xz by (auto simp: scan_chunk_def Let_def k_def [symmetric] x_def [symmetric] add_bytes_def)
  qed
qed

lemma scan_step_ok:
  assumes "session_lines parse sid c tot ls h rs" and "scan_of parse sid c sc" and "ready c r sc"
    and "offset sc < length c" and "bytes < BYTE_BUDGET"
  shows "\<exists>k line r' sc'. scan_step parse sid (length c) bytes r sc = Inr (k, line, r', sc') \<and> ready c r' sc'"
proof -
  obtain r1 where r1: "fill_buf r = Inr r1" "buf r1 \<noteq> []" "ready c r1 sc"
    using ready_fill [OF assms(3,4)] by blast
  define p where "p = piece (length c) bytes r1 sc"
  have p: "p \<noteq> []" "length p \<le> length (buf r1)" "prefix p (buf r1)"
    using piece_not_Nil [OF r1(2) assms(4,5)] by (auto simp: p_def piece_def take_is_prefix)
  have drop: "drop (offset sc) c = buf r1 @ delivered (inputs r1)"
    using r1(3) by (simp add: ready_def ahead_def)
  then have "prefix p (drop (offset sc) c)" using p(3) by (metis prefix_append)
  then obtain k line sc' where chunk: "scan_chunk parse sid p sc = Inr (k, line, sc')"
    using scan_chunk_ok [OF assms(1,2) _ p(1)] by blast
  have k: "k \<le> length (buf r1)" "offset sc' = offset sc + k"
    using scan_chunk_offset [OF chunk] line_end_le [of p] p(2) by auto
  have "drop (offset sc') c = drop k (drop (offset sc) c)" by (simp add: k(2) add.commute)
  also have "\<dots> = drop k (buf r1) @ delivered (inputs r1)" unfolding drop using k(1) by simp
  finally have "ready c (r1\<lparr>buf := drop k (buf r1)\<rparr>) sc'"
    using r1(3) by (simp add: ready_def ahead_def)
  moreover have "scan_step parse sid (length c) bytes r sc = Inr (k, line, r1\<lparr>buf := drop k (buf r1)\<rparr>, sc')"
    using r1 chunk by (simp add: scan_step_def p_def)
  ultimately show ?thesis by blast
qed

lemma budgets: "RECORD_BUDGET \<le> BYTE_BUDGET"
  by (simp add: RECORD_BUDGET_def BYTE_BUDGET_def)

lemma scan_loop_ok:
  assumes "session_lines parse sid c tot ls h rs" and "scan_of parse sid c sc" and "ready c r sc"
    and "len = length c" and "records \<le> bytes"
  shows "\<exists>sc'. scan_loop parse sid len bytes records r sc = Inr sc'
    \<and> (offset sc' = length c \<or> offset sc + (RECORD_BUDGET - bytes) \<le> offset sc')"
  using assms
proof (induction parse sid len bytes records r sc rule: scan_loop.induct)
  case (1 parse sid len bytes records r sc)
  show ?case
  proof (cases "offset sc < len \<and> bytes < BYTE_BUDGET \<and> records < RECORD_BUDGET")
    case True
    obtain k line r1 sc1 where step: "scan_step parse sid len bytes r sc = Inr (k, line, r1, sc1)" "ready c r1 sc1"
      using scan_step_ok [OF "1.prems"(1,2,3)] True "1.prems"(4) by blast
    have pos: "0 < k" "offset sc1 = offset sc + k"
      using scan_step_progress [OF step(1)] True by auto
    have "scan_of parse sid c sc1"
      using scan_step_of [OF "1.prems"(2) ready_reads [OF "1.prems"(3)] step(1)] by blast
    from "1.IH" [OF True step(1) refl refl refl "1.prems"(1) this step(2) "1.prems"(4)]
    have "\<exists>sc'. scan_loop parse sid len (bytes + k) (if line then Suc records else records) r1 sc1 = Inr sc'
      \<and> (offset sc' = length c \<or> offset sc1 + (RECORD_BUDGET - (bytes + k)) \<le> offset sc')"
      using "1.prems"(5) pos(1) by simp
    then obtain sc' where sc': "scan_loop parse sid len (bytes + k) (if line then Suc records else records) r1 sc1 = Inr sc'"
      "offset sc' = length c \<or> offset sc1 + (RECORD_BUDGET - (bytes + k)) \<le> offset sc'"
      by blast
    have "scan_loop parse sid len bytes records r sc = Inr sc'"
      using True step(1) sc'(1) by (subst scan_loop.simps) simp
    with sc'(2) pos(2) show ?thesis by auto
  next
    case False
    then have "scan_loop parse sid len bytes records r sc = Inr sc" by (subst scan_loop.simps) auto
    moreover have "offset sc \<le> length c" using "1.prems"(2) by (simp add: scan_of_def)
    ultimately show ?thesis using False "1.prems"(4,5) budgets by auto
  qed
qed

end
