(* ===== verification/Run_Timing_Session.thy ===== *)
theory Run_Timing_Session
  imports Run_Timing_Progress
begin

text \<open>
  Queries on the cache of \<open>run_timing.rs\<close>: the caches that queries on growing files can leave behind,
  what a complete page then says, that a quiet file is read to its end, and what an error costs.
\<close>

section \<open>Histories\<close>

inductive timing_cache_reached ::
  "(string \<Rightarrow> json option) \<Rightarrow> (string \<Rightarrow> string) \<Rightarrow> timing_cache \<Rightarrow> bool" for parse where
  empty: "timing_cache_reached parse F []"
| grow: "timing_cache_reached parse F c \<Longrightarrow> (\<And>p. prefix (F p) (F' p)) \<Longrightarrow> timing_cache_reached parse F' c"
| query: "timing_cache_reached parse F c \<Longrightarrow> serves w F \<Longrightarrow>
    query_timings parse w uuid sid root q c = (r, c') \<Longrightarrow> timing_cache_reached parse F c'"

lemma query_cases:
  assumes "query_timings parse w uuid sid root q c = (r, c')"
  obtains e where "r = Inl e" "c' = c"
  | sc rest e where "validate_query q = Inr ()" "find_scan parse w uuid sid root q c = (Inr sc, rest)"
      "advance parse w sid root q sc = Inl e" "r = Inl e" "c' = rest"
  | sc rest page sc' where "validate_query q = Inr ()" "find_scan parse w uuid sid root q c = (Inr sc, rest)"
      "advance parse w sid root q sc = Inr (page, sc')" "r = Inr page" "c' = evict (rest @ [(sid, sc')])"
proof -
  have "find_scan parse w uuid sid root q c = (Inl e, d) \<Longrightarrow> d = c" for e d
    by (auto simp: find_scan_def split: option.splits if_splits)
  with assms that show thesis
    by (auto simp: query_timings_def split: sum.splits prod.splits)
qed

lemma set_evict: "set (evict c) \<subseteq> set c"
  by (simp add: evict_def set_drop_subset)

lemma cache_of_reached: "timing_cache_reached parse F c \<Longrightarrow> cache_of parse F c"
proof (induction rule: timing_cache_reached.induct)
  case (empty F)
  show ?case by (simp add: cache_of_def)
next
  case (grow F c F')
  then show ?case by (fastforce simp: cache_of_def intro: scan_of_grow)
next
  case (query F c w uuid sid root q r c')
  from query.hyps(3) show ?case
  proof (cases rule: query_cases)
    case 1
    with query.IH show ?thesis by simp
  next
    case (2 sc rest e)
    from find_scan_of [OF 2(2) query.IH] query.IH 2(5) show ?thesis by (auto simp: cache_of_def)
  next
    case (3 sc rest page sc')
    from find_scan_of [OF 3(2) query.IH]
    have "scan_of parse sid (F (sc_path sc)) sc" "set rest \<subseteq> set c" by auto
    with advance_of [OF 3(3) query.hyps(2)] query.IH 3(5) set_evict [of "rest @ [(sid, sc')]"]
    show ?thesis by (fastforce simp: cache_of_def)
  qed
qed

lemma last_evict: "c \<noteq> [] \<Longrightarrow> evict c \<noteq> [] \<and> last (evict c) = last c"
proof -
  assume "c \<noteq> []"
  then have "length c - MAX_SESSIONS < length c" by (cases c) (auto simp: MAX_SESSIONS_def)
  then show ?thesis by (auto simp: evict_def)
qed

lemma complete_page:
  assumes "timing_cache_reached parse F c" and "serves w F"
    and "query_timings parse w uuid sid root q c = (Inr page, c')" and "pg_complete page"
  shows "\<exists>sc rs. last c' = (sid, sc) \<and> session_records parse sid (F (sc_path sc)) = Some rs
    \<and> foldR record_value rs no_tally = Inr (sc_tally sc)
    \<and> pg_timings page = filter (\<lambda>t. final_entry_id t \<in> set (entry_ids q)) (timings (sc_tally sc))"
  using assms(3)
proof (cases rule: query_cases)
  case (3 sc rest page' sc')
  have "scan_of parse sid (F (sc_path sc)) sc"
    using find_scan_of [OF 3(2) cache_of_reached [OF assms(1)]] by blast
  from advance_of [OF 3(3) assms(2) this]
  have sc': "sc_path sc' = sc_path sc" "scan_of parse sid (F (sc_path sc)) sc'"
    "page = page_of q (length (F (sc_path sc))) sc'" using 3(4) by auto
  from assms(4) sc'(3) have c: "sc_header sc'" "pending sc' = []" "offset sc' = length (F (sc_path sc))"
    by (auto simp: page_of_def)
  then have "scanned parse sid (F (sc_path sc)) sc'" using sc'(2) by (simp add: scan_of_def)
  from scanned_complete [OF this c(1,2)] show ?thesis
    using sc'(1,3) 3(5) last_evict [of "rest @ [(sid, sc')]"] by (auto simp: page_of_def)
qed auto

section \<open>A quiet file\<close>

definition serves_file :: "string \<Rightarrow> metadata \<Rightarrow> opened \<Rightarrow> bool" where
  "serves_file c M f \<longleftrightarrow> meta f = Inr M \<and> meta_after f = Inr M \<and> md_is_file M \<and> md_len M = length c
     \<and> (\<forall>n. first_line f n = Inr (take (line_end (take n c)) c))
     \<and> (\<forall>k n. k + n \<le> length c \<longrightarrow>
          read_at f k n = Inr (take n (drop k c)) \<and> anchor_at f k n = Inr (take n (drop k c)))
     \<and> (\<forall>k. delivered (reads_from f k) = drop k c \<and> (\<forall>x\<in>set (reads_from f k). \<exists>b. x = Inr b \<and> b \<noteq> []))"

definition quiet :: "fs \<Rightarrow> string \<Rightarrow> string \<Rightarrow> string \<Rightarrow> metadata \<Rightarrow> bool" where
  "quiet w root path c M \<longleftrightarrow> stat w path = Inr M
     \<and> (\<exists>croot f. canonicalize w root = Inr croot \<and> canonicalize w path = Inr path
          \<and> path_starts_with path croot \<and> open_file w path = Inr f \<and> serves_file c M f)"

definition tracks ::
  "(string \<Rightarrow> json option) \<Rightarrow> string \<Rightarrow> string \<Rightarrow> string \<Rightarrow> metadata \<Rightarrow> scan \<Rightarrow> bool" where
  "tracks parse sid path c M sc \<longleftrightarrow> sc_path sc = path \<and> sc_identity sc = md_identity M
     \<and> sc_modified sc = md_modified M \<and> sc_length sc = length c \<and> scan_of parse sid c sc
     \<and> length (anchor sc) \<le> offset sc
     \<and> anchor sc = take (length (anchor sc)) (drop (offset sc - length (anchor sc)) c)"

lemma tracks_start: "md_len M = length c \<Longrightarrow> tracks parse sid path c M (new_scan path sid uuid M)"
  using scanned_start [of parse sid path uuid M] by (simp add: tracks_def scan_of_def new_scan_def)

lemma line_end_line:
  assumes "NL \<notin> set y" and "length y < n"
  shows "take (line_end (take n (y @ NL # z))) (y @ NL # z) = y @ [NL]"
proof -
  have "line_end (y @ NL # u) = Suc (length y)" for u
    using assms(1) by (induction y) (auto simp: line_end_def split: option.splits)
  moreover have "take n (y @ NL # z) = y @ NL # take (n - Suc (length y)) z"
    using assms(2) by (cases "n - length y") (auto dest: arg_cong [of _ _ "\<lambda>k. k - 1"])
  ultimately show ?thesis by simp
qed

lemma header_ok:
  assumes "session_lines parse sid c tot ls h rs" and "serves_file c M f"
  shows "validate_header parse sid f = Inr ()"
proof -
  obtain n ls' where ls: "ls = n # ls'" using assms(1) by (cases ls) (auto simp: session_lines_def)
  then obtain y where y: "n = y @ [NL]" "NL \<notin> set y" "length y < HEADER_LINE"
    using assms(1) by (auto simp: session_lines_def is_line_def)
  have "c = y @ NL # concat ls'" using assms(1) ls y by (simp add: session_lines_def)
  then have "first_line f (HEADER_LINE + 1) = Inr n"
    using assms(2) line_end_line [OF y(2), of "HEADER_LINE + 1"] y by (simp add: serves_file_def)
  moreover have "parse n = Some h" "check_header h sid = Inr ()"
    using assms(1) ls by (auto simp: session_lines_def)
  ultimately show ?thesis using y by (simp add: validate_header_def)
qed

lemma reopen_ok:
  assumes "session_lines parse sid c tot ls h rs" and "quiet w root path c M" and "tracks parse sid path c M sc"
  shows "\<exists>f. reopen parse w sid root sc = Inr (f, M) \<and> serves_file c M f"
proof -
  obtain croot f where f: "canonicalize w root = Inr croot" "canonicalize w path = Inr path"
    "path_starts_with path croot" "open_file w path = Inr f" "serves_file c M f"
    using assms(2) by (auto simp: quiet_def)
  have "read_at f (offset sc - length (anchor sc)) (length (anchor sc)) = Inr (anchor sc)"
    using f(5) assms(3) unfolding serves_file_def tracks_def scan_of_def
    by (metis add.commute le_add_diff_inverse)
  with f assms(3) header_ok [OF assms(1) f(5)] show ?thesis
    by (auto simp: reopen_def tracks_def serves_file_def check_def)
qed

lemma advance_ok:
  assumes "session_lines parse sid c tot ls h rs" and "quiet w root path c M" and "tracks parse sid path c M sc"
  shows "\<exists>sc'. advance parse w sid root q sc = Inr (page_of q (length c) sc', sc') \<and> tracks parse sid path c M sc'
    \<and> (offset sc' = length c \<or> offset sc + RECORD_BUDGET \<le> offset sc')"
proof -
  obtain f where f: "reopen parse w sid root sc = Inr (f, M)" "serves_file c M f"
    using reopen_ok [OF assms] by blast
  have sc: "scan_of parse sid c sc" using assms(3) by (simp add: tracks_def)
  have rd: "ready c \<lparr>buf = [], inputs = reads_from f (offset sc)\<rparr> sc"
    using f(2) by (simp add: ready_def ahead_def serves_file_def)
  have len: "md_len M = length c" using f(2) by (simp add: serves_file_def)
  obtain sc1 where sc1: "scan_loop parse sid (md_len M) 0 0 \<lparr>buf = [], inputs = reads_from f (offset sc)\<rparr> sc = Inr sc1"
    "offset sc1 = length c \<or> offset sc + RECORD_BUDGET \<le> offset sc1"
    using scan_loop_ok [OF assms(1) sc rd len, of 0 0] by auto
  have of1: "scan_of parse sid c sc1" using scan_loop_of [OF sc1(1) sc ready_reads [OF rd]] .
  note same = scan_loop_path [OF sc1(1)]
  define k where "k = min (offset sc1) ANCHOR"
  have k: "k \<le> offset sc1" "offset sc1 \<le> length c" using of1 by (simp_all add: k_def scan_of_def)
  then have anch: "anchor_at f (offset sc1 - k) k = Inr (take k (drop (offset sc1 - k) c))"
    using f(2) by (simp add: serves_file_def)
  define sc2 where "sc2 = sc1\<lparr>anchor := take k (drop (offset sc1 - k) c),
    sc_modified := md_modified M, sc_length := md_len M\<rparr>"
  have "length (take k (drop (offset sc1 - k) c)) = k" using k by simp
  moreover have "scan_of parse sid c sc2" using of1 by (simp add: sc2_def scan_of_def scanned_def)
  ultimately have "tracks parse sid path c M sc2"
    using assms(3) same len k by (simp add: tracks_def sc2_def)
  moreover have "advance parse w sid root q sc = Inr (page_of q (length c) sc2, sc2)"
    using f sc1(1) anch same assms(3) len
    by (simp add: advance_def Let_def k_def [symmetric] sc2_def serves_file_def tracks_def)
  ultimately show ?thesis using sc1(2) by (intro exI [of _ sc2]) (simp add: sc2_def)
qed

lemma end_of_file:
  assumes "session_lines parse sid c tot ls h rs" and "scan_of parse sid c sc" and "offset sc = length c"
  shows "sc_header sc \<and> pending sc = []"
proof -
  obtain os vs where sc: "c = concat os @ pending sc" "list_all is_line os" "NL \<notin> set (pending sc)"
    "map parse os = map Some vs" "read_values sid vs (sc_header sc) (sc_tally sc)"
    using assms(2,3) by (auto simp: scan_of_def scanned_def)
  then obtain ns where ns: "ls = os @ ns" "pending sc = concat ns"
    using same_lines [of os ls "pending sc" "[]"] assms(1) by (auto simp: session_lines_def)
  have "ns = []"
  proof (cases ns)
    case (Cons n ms)
    then have "NL \<in> set (pending sc)" using assms(1) ns by (auto simp: session_lines_def is_line_def)
    with sc(3) show ?thesis by simp
  qed simp
  moreover from this ns sc(4) assms(1) have "vs \<noteq> []" by (auto simp: session_lines_def)
  ultimately show ?thesis using sc(5) ns by (cases vs) (auto simp: read_values_def)
qed

definition after_queries ::
  "(string \<Rightarrow> json option) \<Rightarrow> fs \<Rightarrow> string \<Rightarrow> string \<Rightarrow> string \<Rightarrow> timings_query \<Rightarrow> nat \<Rightarrow> timing_cache" where
  "after_queries parse w uuid sid root q n =
     ((\<lambda>c. snd (query_timings parse w uuid sid root q c)) ^^ n) []"

lemma evict_singleton [simp]: "evict [x] = [x]"
  by (simp add: evict_def MAX_SESSIONS_def)

lemma next_page:
  assumes "session_lines parse sid c tot ls h rs" and "quiet w root path c M"
    and "validate_query q = Inr ()" and "q_cursor q = None" and "discover parse w root sid = Inr path"
    and "cache = [] \<and> n = 0 \<or> (\<exists>sc. cache = [(sid, sc)] \<and> tracks parse sid path c M sc
          \<and> (offset sc = length c \<or> RECORD_BUDGET * n \<le> offset sc))"
  shows "\<exists>sc. query_timings parse w uuid sid root q cache = (Inr (page_of q (length c) sc), [(sid, sc)])
    \<and> tracks parse sid path c M sc \<and> (offset sc = length c \<or> RECORD_BUDGET * Suc n \<le> offset sc)"
proof -
  have M: "stat w path = Inr M" "md_len M = length c"
    using assms(2) by (auto simp: quiet_def serves_file_def)
  obtain sc where sc: "find_scan parse w uuid sid root q cache = (Inr sc, [])" "tracks parse sid path c M sc"
    "offset sc = length c \<or> RECORD_BUDGET * n \<le> offset sc"
    using assms(4-6) M(1) tracks_start [OF M(2)] by (auto simp: find_scan_def)
  obtain sc' where sc': "advance parse w sid root q sc = Inr (page_of q (length c) sc', sc')"
    "tracks parse sid path c M sc'" "offset sc' = length c \<or> offset sc + RECORD_BUDGET \<le> offset sc'"
    using advance_ok [OF assms(1,2) sc(2)] by blast
  have "offset sc' \<le> length c" using sc'(2) by (simp add: tracks_def scan_of_def)
  then have "offset sc' = length c \<or> RECORD_BUDGET * Suc n \<le> offset sc'"
    using sc(3) sc'(3) by auto
  with sc(1) sc' assms(3) show ?thesis by (auto simp: query_timings_def)
qed

lemma queries_advance:
  assumes "session_lines parse sid c tot ls h rs" and "quiet w root path c M"
    and "validate_query q = Inr ()" and "q_cursor q = None" and "discover parse w root sid = Inr path"
  shows "after_queries parse w uuid sid root q n = [] \<and> n = 0
    \<or> (\<exists>sc. after_queries parse w uuid sid root q n = [(sid, sc)] \<and> tracks parse sid path c M sc
          \<and> (offset sc = length c \<or> RECORD_BUDGET * n \<le> offset sc))"
proof (induction n)
  case 0
  show ?case by (simp add: after_queries_def)
next
  case (Suc n)
  from next_page [OF assms Suc.IH, of uuid] obtain sc where
    "snd (query_timings parse w uuid sid root q (after_queries parse w uuid sid root q n)) = [(sid, sc)]"
    "tracks parse sid path c M sc" "offset sc = length c \<or> RECORD_BUDGET * Suc n \<le> offset sc"
    by auto
  moreover have "after_queries parse w uuid sid root q (Suc n) =
      snd (query_timings parse w uuid sid root q (after_queries parse w uuid sid root q n))"
    by (simp add: after_queries_def)
  ultimately show ?case by simp
qed

lemma queries_complete:
  assumes "quiet w root path c M" and "well_formed parse sid c tot"
    and "discover parse w root sid = Inr path" and "validate_query q = Inr ()" and "q_cursor q = None"
    and "length c \<le> RECORD_BUDGET * Suc n"
  shows "\<exists>page c'. query_timings parse w uuid sid root q (after_queries parse w uuid sid root q n) = (Inr page, c')
    \<and> pg_complete page \<and> pg_timings page = filter (\<lambda>t. final_entry_id t \<in> set (entry_ids q)) (timings tot)"
proof -
  obtain ls h rs where lines: "session_lines parse sid c tot ls h rs" by (rule well_formed_lines [OF assms(2)])
  obtain sc where sc: "query_timings parse w uuid sid root q (after_queries parse w uuid sid root q n)
      = (Inr (page_of q (length c) sc), [(sid, sc)])" "tracks parse sid path c M sc"
    "offset sc = length c \<or> RECORD_BUDGET * Suc n \<le> offset sc"
    using next_page [OF lines assms(1,4,5,3) queries_advance [OF lines assms(1,4,5,3)]] by blast
  then have eof: "offset sc = length c" "scan_of parse sid c sc"
    using assms(6) by (auto simp: tracks_def scan_of_def)
  then have fin: "sc_header sc" "pending sc = []" using end_of_file [OF lines] by auto
  have "scanned parse sid c sc" using eof by (simp add: scan_of_def)
  from scanned_complete [OF this fin] assms(2) have "sc_tally sc = tot"
    by (auto simp: well_formed_def)
  with sc(1) eof fin show ?thesis by (auto simp: page_of_def)
qed

section \<open>What an error costs\<close>

lemma take_scan_rest:
  "take_scan sid c = Some (sc, rest) \<Longrightarrow> \<exists>as bs. c = as @ (sid, sc) # bs \<and> rest = as @ bs \<and> sid \<notin> fst ` set as"
proof (induction c arbitrary: sc rest)
  case (Cons x c)
  show ?case
  proof (cases "fst x = sid")
    case True
    with Cons.prems show ?thesis by (cases x) (auto intro: exI [of _ "[]"])
  next
    case False
    with Cons.prems obtain rest' where "take_scan sid c = Some (sc, rest')" "rest = x # rest'"
      by (cases x) auto
    with Cons.IH [OF this(1)] False show ?thesis by (metis append_Cons image_insert insert_iff list.simps(15))
  qed
qed simp

lemma error_cost:
  assumes "query_timings parse w uuid sid root q c = (Inl e, c')"
  shows "c' = c \<or> (\<exists>sc as bs. c = as @ (sid, sc) # bs \<and> c' = as @ bs
    \<and> (q_cursor q = None \<or> q_cursor q = Some (generation sc))
    \<and> advance parse w sid root q sc = Inl e)"
  using assms
proof (cases rule: query_cases)
  case (2 sc rest e')
  show ?thesis
  proof (cases "take_scan sid c")
    case None
    with 2 show ?thesis by (auto simp: find_scan_def split: if_splits)
  next
    case (Some y)
    with 2(2) have "take_scan sid c = Some (sc, rest)" "q_cursor q = None \<or> q_cursor q = Some (generation sc)"
      by (cases y; auto simp: find_scan_def split: if_splits)+
    with take_scan_rest [OF this(1)] 2 show ?thesis by auto
  qed
qed auto

end
