(* ===== verification/Run_Timing_Claims.thy ===== *)
theory Run_Timing_Claims
  imports Run_Timing_Session
begin

text \<open>
  What a client of the run timings relies on, with a small session file: a header, the start of a run,
  a message it shows and its end.
\<close>

section \<open>A session file\<close>

definition demo_lines :: "(string \<times> json) list" where
  "demo_lines =
    [(''h'', JObj [(''kind'', JStr ''header''), (''version'', JUint 4), (''id'', JStr ''s'')]),
     (''o'', JObj [(''kind'', JStr ''record''), (''type'', JStr ''operation_started''), (''id'', JStr ''r1''),
        (''intent'', JObj [(''kind'', JStr ''run'')]), (''timestamp'', JUint 5)]),
     (''m'', JObj [(''kind'', JStr ''entry''), (''type'', JStr ''message''), (''id'', JStr ''e1''),
        (''message'', JObj [(''role'', JStr ''assistant''), (''content'', JStr ''ok'')])]),
     (''f'', JObj [(''kind'', JStr ''record''), (''type'', JStr ''operation_finished''), (''runId'', JStr ''r1''),
        (''timestamp'', JUint 9), (''outcome'', JStr ''done'')])]"

definition demo_parse :: "string \<Rightarrow> json option" where
  "demo_parse s = map_of (map (\<lambda>(k, v). (k @ [NL], v)) demo_lines) s"

definition demo_text :: string where
  "demo_text = ''h'' @ [NL] @ ''o'' @ [NL] @ ''m'' @ [NL] @ ''f'' @ [NL]"

definition demo_meta :: metadata where
  "demo_meta = \<lparr>md_is_file = True, md_identity = \<lparr>created = None, dev = 1, ino = 7\<rparr>, md_modified = Some 9, md_len = 8\<rparr>"

definition demo_file :: opened where
  "demo_file = \<lparr>meta = Inr demo_meta,
     first_line = \<lambda>n. Inr (take (line_end (take n demo_text)) demo_text),
     read_at = \<lambda>k n. Inr (take n (drop k demo_text)),
     reads_from = \<lambda>k. if drop k demo_text = [] then [] else [Inr (drop k demo_text)],
     anchor_at = \<lambda>k n. Inr (take n (drop k demo_text)),
     meta_after = Inr demo_meta\<rparr>"

definition demo_fs :: fs where
  "demo_fs = \<lparr>canonicalize = Inr, stat = \<lambda>_. Inr demo_meta, open_file = \<lambda>_. Inr demo_file,
     read_dir = \<lambda>_. Inr [Inr \<lparr>de_path = ''/r/s.jsonl'', de_name = ''s.jsonl'', de_is_dir = Inr False\<rparr>],
     is_file = \<lambda>_. True\<rparr>"

definition demo_timing :: run_timing where
  "demo_timing = \<lparr>run_id = ''r1'', rt_lane = ''main'', final_entry_id = ''e1'', started_at = 5, finished_at = 9,
     elapsed_ms = 4, rt_outcome = ''done''\<rparr>"

definition demo_query :: timings_query where
  "demo_query = \<lparr>entry_ids = [''e1''], q_cursor = None\<rparr>"

lemmas demo_defs = demo_lines_def demo_parse_def demo_text_def demo_meta_def demo_file_def demo_fs_def

lemma demo_length: "length demo_text = 8"
  by (simp add: demo_text_def)

lemma demo_serves_file: "serves_file demo_text demo_meta demo_file"
  by (simp add: serves_file_def demo_file_def demo_length) (simp add: demo_meta_def)

lemma demo_serves: "serves demo_fs (\<lambda>_. demo_text)"
  using demo_serves_file by (simp add: serves_def file_with_def serves_file_def demo_fs_def)

lemma demo_quiet: "quiet demo_fs ''/r'' ''/r/s.jsonl'' demo_text demo_meta"
  using demo_serves_file
  by (simp add: quiet_def demo_fs_def) (simp add: path_starts_with_def path_components_def starts_with_def)

lemma demo_records: "foldR record_value (map snd (tl demo_lines)) no_tally = Inr \<lparr>active = [], timings = [demo_timing]\<rparr>"
  by code_simp

lemma demo_session_records: "session_records demo_parse ''s'' demo_text = Some (map snd (tl demo_lines))"
  by code_simp

lemma demo_well_formed: "well_formed demo_parse ''s'' demo_text \<lparr>active = [], timings = [demo_timing]\<rparr>"
proof -
  have "lines_of demo_text = [''h'', ''o'', ''m'', ''f'', '''']" by (simp add: demo_text_def)
  then show ?thesis
    by (simp add: well_formed_def demo_session_records demo_records HEADER_LINE_def MAX_LINE_def)
qed

lemma demo_header: "validate_header demo_parse ''s'' demo_file = Inr ()"
proof -
  have "first_line demo_file (HEADER_LINE + 1) = Inr (''h'' @ [NL])"
    using line_end_line [of "''h''" "HEADER_LINE + 1" "''o'' @ [NL] @ ''m'' @ [NL] @ ''f'' @ [NL]"]
    by (simp add: demo_file_def demo_text_def HEADER_LINE_def)
  then show ?thesis
    by (simp add: validate_header_def HEADER_LINE_def demo_parse_def demo_lines_def check_header_def jidx_def)
qed

lemma demo_discover: "discover demo_parse demo_fs ''/r'' ''s'' = Inr ''/r/s.jsonl''"
  using demo_header
  by (simp add: discover_def search_dirs.simps demo_fs_def search_entry_def Let_def session_file_name_def
      path_starts_with_def path_components_def starts_with_def)

lemma demo_validate: "validate_query demo_query = Inr ()"
  by (simp add: validate_query_def demo_query_def)

section \<open>The claims\<close>

text \<open>C4. A complete page of run timings is a read of the whole file: whatever queries went before, with
  whatever budgets, reads of whatever sizes, errors, evictions, and files that grew in between, the
  timings of a complete page are those that a single pass over all records of the session's file finds,
  restricted to the entries asked for. They are exactly the finished runs: a run that was started
  on its lane, was not followed by another operation there, showed a message, whose last is the entry of
  the timing, and was then ended by a record with its id and a time that is not before its start.\<close>

theorem complete_page_is_batch:
  assumes "timing_cache_reached parse F c" and "serves w F"
    and "query_timings parse w uuid sid root q c = (Inr page, c')" and "pg_complete page"
  shows "\<exists>sc rs. last c' = (sid, sc) \<and> session_records parse sid (F (sc_path sc)) = Some rs
    \<and> foldR record_value rs no_tally = Inr (sc_tally sc)
    \<and> pg_timings page = filter (\<lambda>t. final_entry_id t \<in> set (entry_ids q)) (timings (sc_tally sc))
    \<and> set (pg_timings page) = {t. timed_run rs t \<and> final_entry_id t \<in> set (entry_ids q)}"
proof -
  obtain sc rs where sc: "last c' = (sid, sc)" "session_records parse sid (F (sc_path sc)) = Some rs"
    "foldR record_value rs no_tally = Inr (sc_tally sc)"
    "pg_timings page = filter (\<lambda>t. final_entry_id t \<in> set (entry_ids q)) (timings (sc_tally sc))"
    using complete_page [OF assms] by blast
  with records_meaning [OF sc(3)] show ?thesis by auto
qed

theorem complete_page_is_batch_witness:
  "\<exists>page c' sc rs. query_timings demo_parse demo_fs ''u'' ''s'' ''/r'' demo_query [] = (Inr page, c')
    \<and> pg_timings page = [demo_timing] \<and> last c' = (''s'', sc) \<and> timed_run rs demo_timing"
proof -
  obtain page c' where q: "query_timings demo_parse demo_fs ''u'' ''s'' ''/r'' demo_query [] = (Inr page, c')"
    "pg_complete page" "pg_timings page = [demo_timing]"
    using queries_complete [OF demo_quiet demo_well_formed demo_discover demo_validate, of 0 "''u''"]
    by (auto simp: demo_query_def demo_length RECORD_BUDGET_def after_queries_def demo_timing_def)
  from complete_page_is_batch [OF timing_cache_reached.empty demo_serves q(1,2)] q show ?thesis by auto
qed

text \<open>C21. A file that no one writes to is read to its end: when a well-formed session file lies still,
  reads succeed, and a client asks without a cursor, then no query fails, and the query after \<open>n\<close>
  earlier ones answers with a complete page as soon as the file has no more than 4096 bytes for each of
  these queries; its timings are those of the whole file.\<close>

theorem timings_become_complete:
  assumes "quiet w root path c M" and "well_formed parse sid c tot"
    and "discover parse w root sid = Inr path" and "validate_query q = Inr ()" and "q_cursor q = None"
    and "length c \<le> RECORD_BUDGET * Suc n"
  shows "\<exists>page c'. query_timings parse w uuid sid root q (after_queries parse w uuid sid root q n) = (Inr page, c')
    \<and> pg_complete page \<and> pg_timings page = filter (\<lambda>t. final_entry_id t \<in> set (entry_ids q)) (timings tot)"
  by (rule queries_complete [OF assms])

theorem timings_become_complete_witness:
  "\<exists>page c'. query_timings demo_parse demo_fs ''u'' ''s'' ''/r'' demo_query [] = (Inr page, c')
    \<and> pg_complete page \<and> pg_timings page = [demo_timing]"
  using timings_become_complete [OF demo_quiet demo_well_formed demo_discover demo_validate, of 0 "''u''"]
  by (auto simp: demo_query_def demo_length RECORD_BUDGET_def after_queries_def demo_timing_def)

end
