(* ===== verification/History_Branch.thy ===== *)
theory History_Branch
  imports Service_Reply Host_Runtime "HOL-Library.AList"
begin

text \<open>
  Reading the branch of a saved session (\<open>history.rs\<close> of \<open>rpi-extcore\<close>): the header of a file, the
  search for the file of a session, and the walk from the leaf to the root over the entries' parents.
  The walk is compared with what a branch is: a finite chain of parents.
\<close>

section \<open>The walk\<close>

type_synonym entries = "(string \<times> json) list"

definition parent_of :: "json \<Rightarrow> string option" where
  "parent_of e = as_str (jidx ''parentId'' e)"

definition CYCLE :: string where "CYCLE = ''cycle in saved session history''"
definition MISSING :: string where "MISSING = ''saved session history is missing a branch entry''"

function branch_walk ::
  "entries \<Rightarrow> string list \<Rightarrow> string option \<Rightarrow> (string \<times> json) list \<Rightarrow> string + (string \<times> json) list" where
  "branch_walk es visited None path = Inr path"
| "branch_walk es visited (Some i) path =
     (if i \<in> set visited then Inl CYCLE
      else case map_of es i of
        None \<Rightarrow> Inl MISSING
      | Some e \<Rightarrow> branch_walk es (i # visited) (parent_of e) (path @ [(i, e)]))"
  by pat_completeness auto
termination
proof (relation "measure (\<lambda>(es, visited, _, _). card (fst ` set es - set visited))", goal_cases)
  case (2 es visited i path e)
  then have "i \<in> fst ` set es - set visited" by (force dest: map_of_SomeD)
  then have "card (fst ` set es - set visited - {i}) < card (fst ` set es - set visited)"
    by (intro psubset_card_mono) auto
  moreover have "fst ` set es - set (i # visited) = fst ` set es - set visited - {i}" by auto
  ultimately show ?case by simp
qed simp

fun collect_messages :: "(string \<times> json) list \<Rightarrow> string + json list" where
  "collect_messages [] = Inr []"
| "collect_messages ((i, e) # path) =
     (if jidx ''type'' e = JStr ''message'' then
        (case jidx ''message'' e of
           JObj kvs \<Rightarrow> bindR (collect_messages path)
             (\<lambda>ms. Inr (JObj (AList.update ''entryId'' (JStr i) kvs) # ms))
         | _ \<Rightarrow> Inl ''invalid saved session message'')
      else collect_messages path)"

definition branch_messages_from_entries :: "entries \<Rightarrow> string option \<Rightarrow> string + json list" where
  "branch_messages_from_entries es leaf =
     bindR (branch_walk es [] leaf []) (\<lambda>path. collect_messages (rev path))"

section \<open>Reading files\<close>

text \<open>
  \<open>read_line\<close> within the limit: the first line of at most \<open>n\<close> bytes, or why it could not be read.
\<close>

definition read_saved_header ::
  "(string \<Rightarrow> json option) \<Rightarrow> (nat \<Rightarrow> string + string) \<Rightarrow> string \<Rightarrow> nat \<Rightarrow> string + json" where
  "read_saved_header parse read_line sid lim =
     bindR (read_line (lim + 1)) (\<lambda>line.
     if length line > lim then Inl ''saved session header exceeds byte budget''
     else bindR (ok_or ''invalid saved session header'' (parse line)) (\<lambda>h.
     if jidx ''kind'' h \<noteq> JStr ''header'' \<or> as_i64 (jidx ''version'' h) \<noteq> Some 4 \<or> jidx ''id'' h \<noteq> JStr sid
     then Inl ''invalid saved session header'' else Inr h))"

definition MAX_METADATA_HEADER_BYTES :: nat where "MAX_METADATA_HEADER_BYTES = 65536"
definition MAX_PAGE_BYTES :: nat where "MAX_PAGE_BYTES = 8388608"

definition saved_session_metadata ::
  "(string \<Rightarrow> json option) \<Rightarrow> (nat \<Rightarrow> string + string) \<Rightarrow> string \<Rightarrow> string + string" where
  "saved_session_metadata parse read_line sid =
     bindR (read_saved_header parse read_line sid MAX_METADATA_HEADER_BYTES) (\<lambda>h.
       ok_or ''invalid saved session cwd metadata'' (as_str (jidx ''cwd'' h)))"

text \<open>A directory: its entries, each with its path, its name and whether it is a directory and a file.\<close>

record listed =
  li_path :: string
  li_name :: string
  li_type :: "string + (bool \<times> bool)"

type_synonym listing = "string \<Rightarrow> string + (string + listed) list"

definition saved_file ::
  "(string \<Rightarrow> json option) \<Rightarrow> (string \<Rightarrow> nat \<Rightarrow> string + string) \<Rightarrow> string \<Rightarrow> string + listed
     \<Rightarrow> string option \<Rightarrow> string + string option" where
  "saved_file parse read_line sid file found =
     bindR file (\<lambda>f.
     bindR (li_type f) (\<lambda>(_, regular).
     if \<not> regular \<or> \<not> ends_with (''_'' @ sid @ ''.jsonl'') (li_name f) then Inr found
     else
       bindR (read_saved_header parse (read_line (li_path f)) sid MAX_PAGE_BYTES) (\<lambda>_.
       if found \<noteq> None then Inl ''multiple saved files for sessionId'' else Inr (Some (li_path f)))))"

definition saved_directory ::
  "(string \<Rightarrow> json option) \<Rightarrow> (string \<Rightarrow> nat \<Rightarrow> string + string) \<Rightarrow> listing \<Rightarrow> string \<Rightarrow> string + listed
     \<Rightarrow> string option \<Rightarrow> string + string option" where
  "saved_directory parse read_line ls sid entry found =
     bindR entry (\<lambda>d.
     bindR (li_type d) (\<lambda>(directory, _).
     if \<not> directory then Inr found
     else bindR (ls (li_path d)) (\<lambda>files. foldR (saved_file parse read_line sid) files found)))"

definition find_saved_session ::
  "(string \<Rightarrow> json option) \<Rightarrow> (string \<Rightarrow> nat \<Rightarrow> string + string) \<Rightarrow> listing \<Rightarrow> string \<Rightarrow> string \<Rightarrow> string + string" where
  "find_saved_session parse read_line ls root sid =
     bindR (map_err (\<lambda>_. ''unknown sessionId: no saved native session'') (ls root)) (\<lambda>dirs.
     bindR (foldR (saved_directory parse read_line ls sid) dirs None) (\<lambda>found.
     ok_or ''unknown sessionId: no saved native session'' found))"

text \<open>The lines of the file behind the header, each read or not.\<close>

definition add_entry :: "string \<Rightarrow> json \<Rightarrow> entries \<Rightarrow> string + entries" where
  "add_entry i e es =
     (if map_of es i \<noteq> None then Inl ''duplicate history entry id'' else Inr (es @ [(i, e)]))"

definition branch_line :: "(string \<Rightarrow> string + json) \<Rightarrow> string + string \<Rightarrow> entries \<Rightarrow> string + entries" where
  "branch_line from_str line es =
     bindR line (\<lambda>l.
     if trim l = [] then Inr es
     else bindR (map_err (\<lambda>e. ''invalid session history: '' @ e) (from_str l)) (\<lambda>e.
     if jidx ''kind'' e = JStr ''entry'' then
       bindR (ok_or ''history entry has no id'' (as_str (jidx ''id'' e))) (\<lambda>i. add_entry i e es)
     else Inr es))"

definition branch_messages ::
  "(string \<Rightarrow> string + json) \<Rightarrow> string + (string + string) list \<Rightarrow> string option \<Rightarrow> string + json list" where
  "branch_messages from_str file leaf =
     bindR file (\<lambda>lines.
     bindR (foldR (branch_line from_str) (drop 1 lines) []) (\<lambda>es.
     branch_messages_from_entries es leaf))"

section \<open>What a branch is\<close>

inductive branch_path :: "entries \<Rightarrow> string option \<Rightarrow> (string \<times> json) list \<Rightarrow> bool" for es where
  root: "branch_path es None []"
| step: "map_of es i = Some e \<Longrightarrow> branch_path es (parent_of e) p \<Longrightarrow> branch_path es (Some i) ((i, e) # p)"

inductive_cases branch_path_NoneE: "branch_path es None p"
inductive_cases branch_path_SomeE: "branch_path es (Some i) p"

lemma branch_path_simps:
  "branch_path es None p \<longleftrightarrow> p = []"
  "branch_path es (Some i) p \<longleftrightarrow> (\<exists>e q. p = (i, e) # q \<and> map_of es i = Some e \<and> branch_path es (parent_of e) q)"
  by (blast elim: branch_path_NoneE branch_path_SomeE intro: branch_path.intros)+

inductive reaches :: "entries \<Rightarrow> string option \<Rightarrow> string \<Rightarrow> bool" for es where
  self: "reaches es (Some i) i"
| up: "map_of es i = Some e \<Longrightarrow> reaches es (parent_of e) j \<Longrightarrow> reaches es (Some i) j"

lemma branch_path_unique: "branch_path es leaf p \<Longrightarrow> branch_path es leaf q \<Longrightarrow> p = q"
proof (induction arbitrary: q rule: branch_path.induct)
  case (step i e p)
  then obtain q' where "q = (i, e) # q'" "branch_path es (parent_of e) q'"
    by (auto simp: branch_path_simps)
  with step.IH show ?case by simp
qed (simp add: branch_path_simps)

lemma branch_path_suffix: "branch_path es leaf p \<Longrightarrow> (i, e) \<in> set p \<Longrightarrow>
    \<exists>as bs. p = as @ (i, e) # bs \<and> branch_path es (Some i) ((i, e) # bs)"
proof (induction rule: branch_path.induct)
  case (step j d p)
  show ?case
  proof (cases "(i, e) = (j, d)")
    case True
    with branch_path.step [OF step.hyps] show ?thesis by (intro exI [of _ "[]"] exI [of _ p]) simp
  next
    case False
    with step obtain as bs where "p = as @ (i, e) # bs" "branch_path es (Some i) ((i, e) # bs)" by auto
    then show ?thesis by (intro exI [of _ "(j, d) # as"] exI [of _ bs]) simp
  qed
qed simp

lemma branch_path_entries: "branch_path es leaf p \<Longrightarrow> (i, e) \<in> set p \<Longrightarrow> map_of es i = Some e"
  by (induction rule: branch_path.induct) auto

lemma branch_path_distinct: "branch_path es leaf p \<Longrightarrow> distinct (map fst p)"
proof (induction rule: branch_path.induct)
  case (step i e p)
  have "i \<notin> fst ` set p"
  proof
    assume "i \<in> fst ` set p"
    then obtain d where d: "(i, d) \<in> set p" by auto
    then obtain as bs where p: "p = as @ (i, d) # bs" "branch_path es (Some i) ((i, d) # bs)"
      using branch_path_suffix [OF step.hyps(2)] by blast
    from branch_path_unique [OF p(2) branch_path.step [OF step.hyps]] have "length bs = length p" by simp
    then show False by (simp add: p(1))
  qed
  with step.IH show ?case by simp
qed simp

lemma branch_walk_path:
  "branch_path es leaf p \<Longrightarrow> distinct (map fst p) \<Longrightarrow> fst ` set p \<inter> set visited = {} \<Longrightarrow>
    branch_walk es visited leaf path = Inr (path @ p)"
proof (induction arbitrary: visited path rule: branch_path.induct)
  case (step i e p)
  have "branch_walk es (i # visited) (parent_of e) (path @ [(i, e)]) = Inr ((path @ [(i, e)]) @ p)"
    using step.prems by (intro step.IH) auto
  with step show ?case by simp
qed simp

lemma branch_walk_Inr: "branch_walk es visited leaf path = Inr q \<Longrightarrow> \<exists>p. q = path @ p \<and> branch_path es leaf p"
proof (induction es visited leaf path rule: branch_walk.induct)
  case (1 es visited path)
  then show ?case by (simp add: branch_path.root)
next
  case (2 es visited i path)
  from "2.prems" obtain e where e: "i \<notin> set visited" "map_of es i = Some e"
    "branch_walk es (i # visited) (parent_of e) (path @ [(i, e)]) = Inr q"
    by (auto split: if_splits option.splits)
  from "2.IH" [OF e] obtain p where "q = (path @ [(i, e)]) @ p" "branch_path es (parent_of e) p" by blast
  with e show ?case by (intro exI [of _ "(i, e) # p"]) (simp add: branch_path.step)
qed

lemma branch_walk_exact: "branch_walk es [] leaf [] = Inr p \<longleftrightarrow> branch_path es leaf p"
  using branch_walk_Inr [of es "[]" leaf "[]" p] branch_walk_path [of es leaf p "[]" "[]"]
    branch_path_distinct [of es leaf p] by auto

lemma branch_walk_missing: "branch_walk es visited leaf path = Inl MISSING \<Longrightarrow> \<exists>i. reaches es leaf i \<and> map_of es i = None"
proof (induction es visited leaf path rule: branch_walk.induct)
  case (2 es visited i path)
  then show ?case by (auto simp: CYCLE_def MISSING_def split: if_splits option.splits intro: reaches.intros)
qed simp

lemma branch_walk_Inl: "branch_walk es visited leaf path = Inl err \<Longrightarrow> err = CYCLE \<or> err = MISSING"
  by (induction es visited leaf path rule: branch_walk.induct) (auto split: if_splits option.splits)

text \<open>
  Whatever the walk has visited is present, and the parent of each is visited or comes next. A walk that
  closes a cycle has therefore seen all there is.
\<close>

lemma reaches_cases: "reaches es (Some i) j \<Longrightarrow> i = j \<or> (\<exists>e. map_of es i = Some e \<and> reaches es (parent_of e) j)"
  by (auto elim: reaches.cases)

lemma reaches_closed:
  assumes "reaches es leaf j" and "leaf = Some i" and "i \<in> V"
    and "\<And>v. v \<in> V \<Longrightarrow> \<exists>e. map_of es v = Some e \<and> (\<forall>k. parent_of e = Some k \<longrightarrow> k \<in> V)"
  shows "map_of es j \<noteq> None"
  using assms
proof (induction arbitrary: i rule: reaches.induct)
  case (self k)
  then show ?case by fastforce
next
  case (up k e j)
  then have "\<forall>m. parent_of e = Some m \<longrightarrow> m \<in> V" by fastforce
  with up show ?case by (cases "parent_of e") (auto elim: reaches.cases)
qed

lemma branch_walk_cycle:
  assumes "branch_walk es visited leaf path = Inl CYCLE"
    and "\<And>v. v \<in> set visited \<Longrightarrow> \<exists>e. map_of es v = Some e \<and> (parent_of e = leaf \<or> (\<forall>k. parent_of e = Some k \<longrightarrow> k \<in> set visited))"
    and "reaches es (Some w) j" and "Some w = leaf \<or> w \<in> set visited"
  shows "map_of es j \<noteq> None"
  using assms
proof (induction es visited leaf path rule: branch_walk.induct)
  case (2 es visited i path)
  show ?case
  proof (cases "i \<in> set visited")
    case True
    then have "\<exists>e. map_of es v = Some e \<and> (\<forall>k. parent_of e = Some k \<longrightarrow> k \<in> set visited)"
      if "v \<in> set visited" for v using "2.prems"(2) [OF that] by auto
    with reaches_closed [OF "2.prems"(3) refl, of "set visited"] "2.prems"(4) True show ?thesis by auto
  next
    case False
    with "2.prems"(1) obtain e where e: "map_of es i = Some e"
      "branch_walk es (i # visited) (parent_of e) (path @ [(i, e)]) = Inl CYCLE"
      by (auto simp: CYCLE_def MISSING_def split: option.splits)
    show ?thesis
    proof (rule "2.IH" [OF False e(1) e(2) _ "2.prems"(3)])
      fix v assume "v \<in> set (i # visited)"
      then show "\<exists>d. map_of es v = Some d \<and> (parent_of d = parent_of e \<or> (\<forall>k. parent_of d = Some k \<longrightarrow> k \<in> set (i # visited)))"
        using e(1) "2.prems"(2) [of v] by auto
    next
      show "Some w = parent_of e \<or> w \<in> set (i # visited)" using "2.prems"(4) by auto
    qed
  qed
qed simp

lemma branch_walk_errors:
  assumes "branch_walk es [] leaf [] = Inl err"
  shows "err = (if \<exists>i. reaches es leaf i \<and> map_of es i = None then MISSING else CYCLE)"
proof (cases "\<exists>i. reaches es leaf i \<and> map_of es i = None")
  case True
  then obtain i where i: "reaches es leaf i" "map_of es i = None" by blast
  then obtain w where "leaf = Some w" by (auto elim: reaches.cases)
  with i branch_walk_cycle [of es "[]" leaf "[]" w i] have "branch_walk es [] leaf [] \<noteq> Inl CYCLE" by auto
  with assms True branch_walk_Inl [OF assms] show ?thesis by auto
next
  case False
  with assms branch_walk_missing [of es "[]" leaf "[]"] branch_walk_Inl [OF assms] show ?thesis by auto
qed

lemma collect_messages_ids:
  "collect_messages p = Inr ms \<Longrightarrow>
    map (\<lambda>m. jidx ''entryId'' m) ms = map (JStr \<circ> fst) (filter (\<lambda>(i, e). jidx ''type'' e = JStr ''message'') p)"
  by (induction p arbitrary: ms rule: collect_messages.induct)
     (auto simp: jidx_def update_conv' bindR_Inr_iff split: json.splits if_splits)

end
