(* ===== verification/History_Spool.thy ===== *)
theory History_Spool
  imports History_Branch
begin

text \<open>
  The spool of \<open>history/page.rs\<close>: a private file used as a stack of pages, each written behind the one
  before as JSON with its length in eight bytes after it. Every operation on the file may fail; the
  parameter \<open>io\<close> says with which error the n-th one does, and how many bytes a failing write or read
  got through.
\<close>

section \<open>Bounded JSON\<close>

definition MAX_PAGE_MESSAGES :: nat where "MAX_PAGE_MESSAGES = 128"
definition MAX_SPOOL_BYTES :: nat where "MAX_SPOOL_BYTES = 536870912"

definition bounded_json :: "(json \<Rightarrow> string) \<Rightarrow> json \<Rightarrow> string + string" where
  "bounded_json ser v =
     (if length (ser v) > MAX_PAGE_BYTES then Inl ''history page exceeds byte budget'' else Inr (ser v))"

section \<open>Eight bytes, the lowest first\<close>

fun le_bytes :: "nat \<Rightarrow> nat \<Rightarrow> string" where
  "le_bytes 0 n = []"
| "le_bytes (Suc k) n = char_of (n mod 256) # le_bytes k (n div 256)"

fun le_value :: "string \<Rightarrow> nat" where
  "le_value [] = 0"
| "le_value (c # cs) = of_char c + 256 * le_value cs"

lemma length_le_bytes [simp]: "length (le_bytes k n) = k"
  by (induction k arbitrary: n) auto

lemma le_value_bytes: "n < 256 ^ k \<Longrightarrow> le_value (le_bytes k n) = n"
proof (induction k arbitrary: n)
  case (Suc k)
  then have "n div 256 < 256 ^ k" by (simp add: less_mult_imp_div_less mult.commute)
  with Suc.IH show ?case by simp
qed simp

section \<open>The file\<close>

record spool =
  sp_bytes :: string
  sp_pos :: nat
  sp_end :: nat
  sp_ops :: nat

type_synonym faults = "nat \<Rightarrow> (string \<times> nat) option"

definition new_spool :: spool where
  "new_spool = \<lparr>sp_bytes = [], sp_pos = 0, sp_end = 0, sp_ops = 0\<rparr>"

definition overwrite :: "nat \<Rightarrow> string \<Rightarrow> string \<Rightarrow> string" where
  "overwrite k bs s = take k (s @ replicate (k - length s) (char_of (0 :: nat))) @ bs @ drop (k + length bs) s"

definition io_op :: "faults \<Rightarrow> spool \<Rightarrow> (string \<times> nat) option \<times> spool" where
  "io_op io s = (io (sp_ops s), s\<lparr>sp_ops := Suc (sp_ops s)\<rparr>)"

definition seek :: "faults \<Rightarrow> nat \<Rightarrow> spool \<Rightarrow> (string + unit) \<times> spool" where
  "seek io k s = (case io_op io s of
     (Some (e, _), s) \<Rightarrow> (Inl e, s) | (None, s) \<Rightarrow> (Inr (), s\<lparr>sp_pos := k\<rparr>))"

definition stream_position :: "faults \<Rightarrow> spool \<Rightarrow> (string + nat) \<times> spool" where
  "stream_position io s = (case io_op io s of
     (Some (e, _), s) \<Rightarrow> (Inl e, s) | (None, s) \<Rightarrow> (Inr (sp_pos s), s))"

definition put_bytes :: "string \<Rightarrow> spool \<Rightarrow> spool" where
  "put_bytes bs s = s\<lparr>sp_bytes := overwrite (sp_pos s) bs (sp_bytes s), sp_pos := sp_pos s + length bs\<rparr>"

definition write_all :: "faults \<Rightarrow> string \<Rightarrow> spool \<Rightarrow> (string + unit) \<times> spool" where
  "write_all io bs s = (case io_op io s of
     (Some (e, n), s) \<Rightarrow> (Inl e, put_bytes (take n bs) s) | (None, s) \<Rightarrow> (Inr (), put_bytes bs s))"

definition read_exact :: "faults \<Rightarrow> nat \<Rightarrow> spool \<Rightarrow> (string + string) \<times> spool" where
  "read_exact io n s = (case io_op io s of
     (Some (e, m), s) \<Rightarrow> (Inl e, s\<lparr>sp_pos := sp_pos s + m\<rparr>)
   | (None, s) \<Rightarrow>
       if sp_pos s + n \<le> length (sp_bytes s)
       then (Inr (take n (drop (sp_pos s) (sp_bytes s))), s\<lparr>sp_pos := sp_pos s + n\<rparr>)
       else (Inl ''failed to fill whole buffer'', s\<lparr>sp_pos := length (sp_bytes s)\<rparr>))"

definition set_len :: "faults \<Rightarrow> nat \<Rightarrow> spool \<Rightarrow> (string + unit) \<times> spool" where
  "set_len io n s = (case io_op io s of
     (Some (e, _), s) \<Rightarrow> (Inl e, s)
   | (None, s) \<Rightarrow> (Inr (), s\<lparr>sp_bytes := take n (sp_bytes s @ replicate (n - length (sp_bytes s)) (char_of (0 :: nat)))\<rparr>))"

section \<open>The operations\<close>

definition push_page :: "(json \<Rightarrow> string) \<Rightarrow> faults \<Rightarrow> json list \<Rightarrow> spool \<Rightarrow> (string + unit) \<times> spool" where
  "push_page ser io ms s =
     (if length ms > MAX_PAGE_MESSAGES then (Inl ''history spool message budget exceeded'', s)
      else case bounded_json ser (JArr ms) of
        Inl e \<Rightarrow> (Inl e, s)
      | Inr bytes \<Rightarrow>
          if length bytes > MAX_PAGE_BYTES \<or> sp_end s + length bytes + 8 > MAX_SPOOL_BYTES
          then (Inl ''history spool byte budget exceeded'', s)
          else
            thenR (seek io (sp_end s) s) (\<lambda>_ s.
            thenR (write_all io bytes s) (\<lambda>_ s.
            thenR (write_all io (le_bytes 8 (length bytes)) s) (\<lambda>_ s.
            (Inr (), s\<lparr>sp_end := sp_end s + length bytes + 8\<rparr>)))))"

definition read_page_at ::
  "(string \<Rightarrow> string + json list) \<Rightarrow> faults \<Rightarrow> nat \<Rightarrow> spool \<Rightarrow> (string + nat \<times> json list) \<times> spool" where
  "read_page_at decode io e s =
     (if e < 8 \<or> MAX_SPOOL_BYTES < e then (Inl ''invalid history spool'', s)
      else
        thenR (seek io (e - 8) s) (\<lambda>_ s.
        thenR (read_exact io 8 s) (\<lambda>l s.
        let len = le_value l in
        if len > MAX_PAGE_BYTES \<or> len + 8 > e then (Inl ''invalid history spool'', s)
        else
          let start = e - len - 8 in
          thenR (seek io start s) (\<lambda>_ s.
          thenR (read_exact io len s) (\<lambda>bytes s.
          (bindR (decode bytes) (\<lambda>ms.
             if length ms > MAX_PAGE_MESSAGES then Inl ''invalid history spool'' else Inr (start, ms)), s))))))"

definition pop_page ::
  "(string \<Rightarrow> string + json list) \<Rightarrow> faults \<Rightarrow> spool \<Rightarrow> (string + json list option) \<times> spool" where
  "pop_page decode io s =
     (if sp_end s = 0 then (Inr None, s)
      else
        thenR (read_page_at decode io (sp_end s) s) (\<lambda>(start, ms) s.
        thenR (set_len io start s) (\<lambda>_ s.
        (Inr (Some ms), s\<lparr>sp_end := start\<rparr>))))"

text \<open>
  Validation looks at the clock before each page and each message; \<open>late n\<close> says whether the n-th look is
  behind the deadline. The callback may keep a state of its own.
\<close>

fun check_all ::
  "(nat \<Rightarrow> bool) \<Rightarrow> (json \<Rightarrow> 'c \<Rightarrow> (string + unit) \<times> 'c) \<Rightarrow> nat \<Rightarrow> json list \<Rightarrow> 'c \<Rightarrow> (string + nat) \<times> 'c" where
  "check_all late chk n [] c = (Inr n, c)"
| "check_all late chk n (m # ms) c =
     (if late n then (Inl ''history validation deadline exceeded'', c)
      else thenR (chk m c) (\<lambda>_ c. check_all late chk (Suc n) ms c))"

lemma read_page_at_start:
  "read_page_at decode io e s = (Inr (start, ms), s') \<Longrightarrow> start + 8 \<le> e"
  by (auto simp: read_page_at_def thenR_Inr_iff bindR_Inr_iff Let_def split: if_split_asm)

function validate_pages ::
  "(string \<Rightarrow> string + json list) \<Rightarrow> faults \<Rightarrow> (nat \<Rightarrow> bool) \<Rightarrow> (json \<Rightarrow> 'c \<Rightarrow> (string + unit) \<times> 'c)
     \<Rightarrow> nat \<Rightarrow> nat \<Rightarrow> 'c \<Rightarrow> spool \<Rightarrow> (string + unit) \<times> 'c \<times> spool" where
  "validate_pages decode io late chk n e c s =
     (if e = 0 then (Inr (), c, s)
      else if late n then (Inl ''history validation deadline exceeded'', c, s)
      else case read_page_at decode io e s of
        (Inl err, s) \<Rightarrow> (Inl err, c, s)
      | (Inr (start, ms), s') \<Rightarrow>
          (case check_all late chk (Suc n) ms c of
             (Inl err, c) \<Rightarrow> (Inl err, c, s')
           | (Inr n', c') \<Rightarrow> validate_pages decode io late chk n' start c' s'))"
  by pat_completeness auto
termination
  by (relation "measure (\<lambda>(_, _, _, _, _, e, _, _). e)") (auto dest!: read_page_at_start [OF sym])

declare validate_pages.simps [simp del]

definition validate_spool ::
  "(string \<Rightarrow> string + json list) \<Rightarrow> faults \<Rightarrow> (nat \<Rightarrow> bool) \<Rightarrow> (json \<Rightarrow> 'c \<Rightarrow> (string + unit) \<times> 'c)
     \<Rightarrow> 'c \<Rightarrow> spool \<Rightarrow> (string + unit) \<times> 'c \<times> spool" where
  "validate_spool decode io late chk c s = (case stream_position io s of
     (Inl e, s) \<Rightarrow> (Inl e, c, s)
   | (Inr pos, s) \<Rightarrow>
       (case validate_pages decode io late chk 0 (sp_end s) c s of
          (r, c, s) \<Rightarrow> (case seek io pos s of
             (restored, s) \<Rightarrow> (case r of Inl e \<Rightarrow> Inl e | Inr _ \<Rightarrow> restored, c, s))))"

section \<open>The stack\<close>

definition page_bytes :: "(json \<Rightarrow> string) \<Rightarrow> json list \<Rightarrow> string" where
  "page_bytes ser ms = ser (JArr ms) @ le_bytes 8 (length (ser (JArr ms)))"

definition page_fits :: "(json \<Rightarrow> string) \<Rightarrow> json list \<Rightarrow> bool" where
  "page_fits ser ms \<longleftrightarrow> length ms \<le> MAX_PAGE_MESSAGES \<and> length (ser (JArr ms)) \<le> MAX_PAGE_BYTES"

definition holds :: "(json \<Rightarrow> string) \<Rightarrow> spool \<Rightarrow> json list list \<Rightarrow> bool" where
  "holds ser s ps \<longleftrightarrow> sp_end s \<le> MAX_SPOOL_BYTES \<and> list_all (page_fits ser) ps
     \<and> sp_end s = length (concat (map (page_bytes ser) ps))
     \<and> take (sp_end s) (sp_bytes s) = concat (map (page_bytes ser) ps)"

lemma holdsD:
  assumes "holds ser s ps"
  shows "sp_end s \<le> MAX_SPOOL_BYTES" "list_all (page_fits ser) ps"
    "sp_end s = length (concat (map (page_bytes ser) ps))"
    "take (sp_end s) (sp_bytes s) = concat (map (page_bytes ser) ps)"
  using assms by (auto simp only: holds_def)

text \<open>Decoding gives back what was serialized.\<close>

definition codec :: "(json \<Rightarrow> string) \<Rightarrow> (string \<Rightarrow> string + json list) \<Rightarrow> bool" where
  "codec ser decode \<longleftrightarrow> (\<forall>ms. decode (ser (JArr ms)) = Inr ms)"

text \<open>What lies before the end is all that counts.\<close>

definition same_upto :: "nat \<Rightarrow> spool \<Rightarrow> spool \<Rightarrow> bool" where
  "same_upto n s t \<longleftrightarrow> sp_end t = sp_end s \<and> take n (sp_bytes t) = take n (sp_bytes s)"

lemma same_upto_refl [simp]: "same_upto n s s"
  by (simp add: same_upto_def)

lemma same_upto_trans: "same_upto n s t \<Longrightarrow> same_upto n t u \<Longrightarrow> same_upto n s u"
  by (simp add: same_upto_def)

lemma holds_same: "holds ser s ps \<Longrightarrow> same_upto (sp_end s) s t \<Longrightarrow> holds ser t ps"
  unfolding holds_def same_upto_def by metis

lemma take_overwrite: "n \<le> k \<Longrightarrow> n \<le> length s \<Longrightarrow> take n (overwrite k bs s) = take n s"
  by (simp add: overwrite_def)

lemma take_overwrite_at: "k \<le> length s \<Longrightarrow> take (k + length bs) (overwrite k bs s) = take k s @ bs"
  by (simp add: overwrite_def)

lemma length_overwrite: "k \<le> length s \<Longrightarrow> k + length bs \<le> length (overwrite k bs s)"
  by (simp add: overwrite_def)

lemma seek_frame: "seek io k s = (r, t) \<Longrightarrow> same_upto n s t \<and> sp_bytes t = sp_bytes s"
  by (auto simp: seek_def io_op_def same_upto_def split: option.split_asm)

lemma seek_ok: "seek io k s = (Inr x, t) \<Longrightarrow> sp_pos t = k"
  by (auto simp: seek_def io_op_def split: option.split_asm)

lemma stream_position_frame: "stream_position io s = (r, t) \<Longrightarrow> same_upto n s t"
  by (auto simp: stream_position_def io_op_def same_upto_def split: option.split_asm)

lemma write_all_frame:
  assumes "write_all io bs s = (r, t)" and "n \<le> sp_pos s" and "n \<le> length (sp_bytes s)"
  shows "same_upto n s t"
  using assms
  by (auto simp: write_all_def io_op_def put_bytes_def same_upto_def take_overwrite split: option.split_asm)

lemma write_all_ok:
  "write_all io bs s = (Inr x, t) \<Longrightarrow> sp_bytes t = overwrite (sp_pos s) bs (sp_bytes s)
    \<and> sp_pos t = sp_pos s + length bs \<and> sp_end t = sp_end s"
  by (auto simp: write_all_def io_op_def put_bytes_def split: option.split_asm)

lemma read_exact_frame: "read_exact io k s = (r, t) \<Longrightarrow> same_upto n s t \<and> sp_bytes t = sp_bytes s"
  by (auto simp: read_exact_def io_op_def same_upto_def split: option.split_asm if_split_asm)

lemma read_exact_ok: "read_exact io n s = (Inr bs, t) \<Longrightarrow> bs = take n (drop (sp_pos s) (sp_bytes s))"
  by (auto simp: read_exact_def io_op_def split: option.split_asm if_split_asm)

lemma set_len_frame: "set_len io k s = (Inl e, t) \<Longrightarrow> same_upto n s t"
  by (auto simp: set_len_def io_op_def same_upto_def split: option.split_asm)

lemma set_len_ok: "set_len io k s = (Inr x, t) \<Longrightarrow> k \<le> length (sp_bytes s) \<Longrightarrow> sp_bytes t = take k (sp_bytes s) \<and> sp_end t = sp_end s"
  by (auto simp: set_len_def io_op_def split: option.split_asm)

lemma holds_length: "holds ser s ps \<Longrightarrow> sp_end s \<le> length (sp_bytes s)"
  by (metis (no_types, lifting) holds_def length_take min.bounded_iff min.orderI order_refl)

subsection \<open>Pushing\<close>

lemma push_page_frame:
  assumes "push_page ser io ms s = (Inl e, t)" and "sp_end s \<le> length (sp_bytes s)"
  shows "same_upto (sp_end s) s t"
proof -
  let ?n = "sp_end s"
  consider "t = s" | "seek io ?n s = (Inl e, t)"
    | a where "seek io ?n s = (Inr (), a)" "write_all io (ser (JArr ms)) a = (Inl e, t)"
    | a b where "seek io ?n s = (Inr (), a)" "write_all io (ser (JArr ms)) a = (Inr (), b)"
        "write_all io (le_bytes 8 (length (ser (JArr ms)))) b = (Inl e, t)"
    using assms(1)
    by (auto simp: push_page_def bounded_json_def thenR_Inl_iff split: if_split_asm)
  then show ?thesis
  proof cases
    case 2
    then show ?thesis using seek_frame by blast
  next
    case 3
    then show ?thesis using seek_frame [OF 3(1)] seek_ok [OF 3(1)] write_all_frame [OF 3(2), of ?n] assms(2)
      by (metis order_refl same_upto_trans)
  next
    case 4
    have b: "same_upto ?n a b" "sp_pos b = ?n + length (ser (JArr ms))" "?n \<le> length (sp_bytes b)"
      using write_all_frame [OF 4(2), of ?n] write_all_ok [OF 4(2)] seek_ok [OF 4(1)] seek_frame [OF 4(1)] assms(2)
        length_overwrite [of ?n "sp_bytes a" "ser (JArr ms)"] by auto
    then have "same_upto ?n b t" using write_all_frame [OF 4(3), of ?n] by simp
    with b(1) seek_frame [OF 4(1)] show ?thesis by (metis same_upto_trans)
  qed simp
qed

lemma push_page_ok:
  assumes "push_page ser io ms s = (Inr x, t)" and "holds ser s ps"
  shows "holds ser t (ps @ [ms])"
proof -
  let ?n = "sp_end s" and ?j = "ser (JArr ms)"
  obtain a b c where st: "seek io ?n s = (Inr (), a)" "write_all io ?j a = (Inr (), b)"
    "write_all io (le_bytes 8 (length ?j)) b = (Inr (), c)" "t = c\<lparr>sp_end := sp_end c + length ?j + 8\<rparr>"
    and fits: "page_fits ser ms" "sp_end s + length ?j + 8 \<le> MAX_SPOOL_BYTES"
    using assms(1)
    by (auto simp: push_page_def bounded_json_def thenR_Inr_iff page_fits_def not_less split: if_split_asm)
  have n: "?n \<le> length (sp_bytes s)" by (rule holds_length [OF assms(2)])
  have a: "sp_pos a = ?n" "sp_bytes a = sp_bytes s" "sp_end a = ?n"
    using seek_ok [OF st(1)] seek_frame [OF st(1), of 0] by (auto simp: same_upto_def)
  have b: "take (?n + length ?j) (sp_bytes b) = take ?n (sp_bytes s) @ ?j" "sp_pos b = ?n + length ?j"
    "?n + length ?j \<le> length (sp_bytes b)" "sp_end b = ?n"
    using write_all_ok [OF st(2)] a n take_overwrite_at [of ?n "sp_bytes s" ?j] length_overwrite [of ?n "sp_bytes s" ?j]
    by auto
  have "take (?n + length ?j + 8) (sp_bytes c) = take (?n + length ?j) (sp_bytes b) @ le_bytes 8 (length ?j)"
    using write_all_ok [OF st(3)] b(2,3) take_overwrite_at [of "?n + length ?j" "sp_bytes b" "le_bytes 8 (length ?j)"]
    by simp
  then have "take (?n + length ?j + 8) (sp_bytes c) = take ?n (sp_bytes s) @ page_bytes ser ms"
    by (simp add: b(1) page_bytes_def)
  moreover have "sp_end c = ?n" using write_all_ok [OF st(3)] b(4) by simp
  moreover have "take ?n (sp_bytes s) = concat (map (page_bytes ser) ps)"
    "?n = length (concat (map (page_bytes ser) ps))" "list_all (page_fits ser) ps"
    using assms(2) by (auto simp: holds_def)
  ultimately show ?thesis using fits st(4) unfolding holds_def
    by (simp add: page_bytes_def add.assoc)
qed

subsection \<open>Reading and popping\<close>

lemma read_page_at_frame: "read_page_at decode io e s = (r, t) \<Longrightarrow> same_upto n s t \<and> sp_bytes t = sp_bytes s"
proof -
  assume r: "read_page_at decode io e s = (r, t)"
  have bytes: "sp_bytes t = sp_bytes s \<and> sp_end t = sp_end s"
    using r unfolding read_page_at_def Let_def
    by (auto simp: thenR_def dest!: seek_frame [of _ _ _ _ _ 0] read_exact_frame [of _ _ _ _ _ 0]
        simp: same_upto_def split: if_split_asm sum.split_asm prod.split_asm)
  then show ?thesis by (simp add: same_upto_def)
qed

lemma read_page_at_ok:
  assumes "read_page_at decode io e s = (Inr (start, ms), t)" and "codec ser decode"
    and "e \<le> length (sp_bytes s)" and "take e (sp_bytes s) = pre @ page_bytes ser qs"
    and "length (ser (JArr qs)) \<le> MAX_PAGE_BYTES"
  shows "ms = qs \<and> start = length pre"
proof -
  let ?j = "ser (JArr qs)"
  have e: "e = length pre + length ?j + 8"
    using arg_cong [OF assms(4), of length] assms(3) by (simp add: page_bytes_def)
  obtain a l b c bytes where st: "seek io (e - 8) s = (Inr (), a)" "read_exact io 8 a = (Inr l, b)"
    "seek io start b = (Inr (), c)" "read_exact io (le_value l) c = (Inr bytes, t)"
    "start = e - le_value l - 8" "decode bytes = Inr ms"
    using assms(1) by (auto simp: read_page_at_def thenR_Inr_iff bindR_Inr_iff Let_def split: if_split_asm)
  have whole: "sp_bytes s = pre @ ?j @ le_bytes 8 (length ?j) @ drop e (sp_bytes s)"
    using append_take_drop_id [of e "sp_bytes s"] assms(4) by (simp add: page_bytes_def)
  have bytes: "sp_bytes a = sp_bytes s" "sp_bytes b = sp_bytes s" "sp_bytes c = sp_bytes s"
    using seek_frame [OF st(1), of 0] read_exact_frame [OF st(2), of 0] seek_frame [OF st(3), of 0] by auto
  have "l = take 8 (drop (e - 8) (sp_bytes s))"
    using read_exact_ok [OF st(2)] seek_ok [OF st(1)] bytes by simp
  also have "\<dots> = le_bytes 8 (length ?j)" by (subst whole) (simp add: e)
  finally have len: "le_value l = length ?j"
    using assms(5) by (simp add: le_value_bytes MAX_PAGE_BYTES_def)
  then have start: "start = length pre" using st(5) e by simp
  have "bytes = take (length ?j) (drop (length pre) (sp_bytes s))"
    using read_exact_ok [OF st(4)] seek_ok [OF st(3)] bytes len start by simp
  also have "\<dots> = ?j" by (subst whole) simp
  finally show ?thesis using st(6) assms(2) start by (simp add: codec_def)
qed

lemma holds_snoc: "holds ser s (ps @ [q]) \<Longrightarrow>
   take (sp_end s) (sp_bytes s) = concat (map (page_bytes ser) ps) @ page_bytes ser q
   \<and> length (ser (JArr q)) \<le> MAX_PAGE_BYTES"
  using holdsD(2,4) [of ser s "ps @ [q]"] by (simp add: page_fits_def)

lemma holds_prefix:
  assumes "holds ser s (ps @ qs)" and "take n (sp_bytes t) = take n (sp_bytes s)"
    and "n = length (concat (map (page_bytes ser) ps))" and "sp_end t = n"
  shows "holds ser t ps"
proof -
  have "n \<le> sp_end s" using assms(1,3) by (simp add: holds_def)
  then have "take n (sp_bytes s) = take n (take (sp_end s) (sp_bytes s))" by (simp add: min_absorb1)
  also have "\<dots> = concat (map (page_bytes ser) ps)" unfolding holdsD(4) [OF assms(1)] using assms(3) by simp
  finally show ?thesis using assms \<open>n \<le> sp_end s\<close> by (simp add: holds_def)
qed

lemma pop_page_holds:
  assumes "pop_page decode io s = (r, t)" and "holds ser s ps" and "codec ser decode"
  shows "case r of Inl e \<Rightarrow> holds ser t ps | Inr None \<Rightarrow> ps = [] \<and> t = s
    | Inr (Some ms) \<Rightarrow> ps \<noteq> [] \<and> ms = last ps \<and> holds ser t (butlast ps)"
proof (cases ps rule: rev_cases)
  case Nil
  then have "sp_end s = 0" using assms(2) by (simp add: holds_def)
  with assms(1) Nil show ?thesis by (auto simp: pop_page_def)
next
  case (snoc qs q)
  note last = holds_snoc [OF assms(2) [unfolded snoc]]
  have len: "sp_end s \<le> length (sp_bytes s)" by (rule holds_length [OF assms(2)])
  have pos: "sp_end s \<noteq> 0" using assms(2) by (simp add: holds_def snoc page_bytes_def)
  consider e where "r = Inl e" "read_page_at decode io (sp_end s) s = (Inl e, t)"
    | start ms a e where "r = Inl e" "read_page_at decode io (sp_end s) s = (Inr (start, ms), a)" "set_len io start a = (Inl e, t)"
    | start ms a b where "r = Inr (Some ms)" "read_page_at decode io (sp_end s) s = (Inr (start, ms), a)"
        "set_len io start a = (Inr (), b)" "t = b\<lparr>sp_end := start\<rparr>"
    using assms(1) pos by (auto simp: pop_page_def thenR_def split: sum.split_asm prod.split_asm)
  then show ?thesis
  proof cases
    case 1
    with holds_same [OF assms(2)] read_page_at_frame [OF 1(2)] show ?thesis by simp
  next
    case 2
    have "same_upto (sp_end s) s t"
      using read_page_at_frame [OF 2(2)] set_len_frame [OF 2(3)] same_upto_trans by blast
    with holds_same [OF assms(2)] 2(1) show ?thesis by simp
  next
    case 3
    from read_page_at_ok [OF 3(2) assms(3) len conjunct1 [OF last] conjunct2 [OF last]]
    have ms: "ms = q" "start = length (concat (map (page_bytes ser) qs))" by auto
    have a: "sp_bytes a = sp_bytes s" using read_page_at_frame [OF 3(2), of 0] by simp
    have "start \<le> sp_end s" using read_page_at_start [OF 3(2)] by simp
    with len a have "start \<le> length (sp_bytes a)" by simp
    from set_len_ok [OF 3(3) this] a have "take start (sp_bytes t) = take start (sp_bytes s)" by (simp add: 3(4))
    then have "holds ser t qs" by (rule holds_prefix [OF assms(2) [unfolded snoc] _ ms(2)]) (simp add: 3(4))
    with ms 3(1) show ?thesis by (simp add: snoc)
  qed
qed

end
