(* ===== verification/History_Stack.thy ===== *)
theory History_Stack
  imports History_Spool "HOL-Library.Sublist"
begin

text \<open>
  The spool as a stack: the interface its users rely on, its laws for the file of \<open>History_Spool\<close>, and
  the validation, which reads the whole stack without changing it.
\<close>

section \<open>Stacks of pages\<close>

inductive drained :: "('s \<Rightarrow> (string + 'p option) \<times> 's) \<Rightarrow> 's \<Rightarrow> 'p list \<Rightarrow> 's \<Rightarrow> bool" for pop where
  stop: "pop s = (Inr None, t) \<Longrightarrow> drained pop s [] t"
| page: "pop s = (Inr (Some p), t) \<Longrightarrow> drained pop t ps u \<Longrightarrow> drained pop s (p # ps) u"

fun push_list :: "('p \<Rightarrow> 's \<Rightarrow> (string + unit) \<times> 's) \<Rightarrow> 'p list \<Rightarrow> 's \<Rightarrow> (string + unit) \<times> 's" where
  "push_list push [] s = (Inr (), s)"
| "push_list push (p # ps) s = thenR (push p s) (\<lambda>_ s. push_list push ps s)"

locale page_stack =
  fixes push :: "'p \<Rightarrow> 's \<Rightarrow> (string + unit) \<times> 's"
    and pop :: "'s \<Rightarrow> (string + 'p option) \<times> 's"
    and rep :: "'s \<Rightarrow> 'p list \<Rightarrow> bool"
  assumes push_Inr: "push p s = (Inr x, t) \<Longrightarrow> rep s ps \<Longrightarrow> rep t (ps @ [p])"
    and push_Inl: "push p s = (Inl e, t) \<Longrightarrow> rep s ps \<Longrightarrow> rep t ps"
    and pop_None: "pop s = (Inr None, t) \<Longrightarrow> rep s ps \<Longrightarrow> ps = []"
    and pop_Some: "pop s = (Inr (Some p), t) \<Longrightarrow> rep s ps \<Longrightarrow> \<exists>qs. ps = qs @ [p] \<and> rep t qs"
    and pop_Inl: "pop s = (Inl e, t) \<Longrightarrow> rep s ps \<Longrightarrow> rep t ps"
begin

lemma push_list_rep: "push_list push qs s = (Inr x, t) \<Longrightarrow> rep s ps \<Longrightarrow> rep t (ps @ qs)"
proof (induction qs arbitrary: s ps)
  case (Cons q qs)
  from Cons.prems(1) obtain u y where u: "push q s = (Inr y, u)" "push_list push qs u = (Inr x, t)"
    by (auto simp: thenR_Inr_iff)
  from Cons.IH [OF u(2) push_Inr [OF u(1) Cons.prems(2)]] show ?case by simp
qed simp

lemma push_list_failed: "push_list push qs s = (Inl e, t) \<Longrightarrow> rep s ps \<Longrightarrow> \<exists>rs. prefix rs qs \<and> rep t (ps @ rs)"
proof (induction qs arbitrary: s ps)
  case (Cons q qs)
  from Cons.prems(1) consider "push q s = (Inl e, t)"
    | u y where "push q s = (Inr y, u)" "push_list push qs u = (Inl e, t)"
    by (auto simp: thenR_Inl_iff)
  then show ?case
  proof cases
    case 1
    with push_Inl [OF 1 Cons.prems(2)] show ?thesis by (intro exI [of _ "[]"]) simp
  next
    case 2
    from Cons.IH [OF 2(2) push_Inr [OF 2(1) Cons.prems(2)]] obtain rs where "prefix rs qs" "rep t ((ps @ [q]) @ rs)"
      by blast
    then show ?thesis by (intro exI [of _ "q # rs"]) simp
  qed
qed simp

lemma drained_rep: "drained pop s qs t \<Longrightarrow> rep s ps \<Longrightarrow> qs = rev ps"
proof (induction arbitrary: ps rule: drained.induct)
  case (stop s t)
  then show ?case using pop_None by simp
next
  case (page s p t qs u)
  from pop_Some [OF page.hyps(1) page.prems] obtain rs where "ps = rs @ [p]" "rep t rs" by blast
  with page.IH show ?case by simp
qed

lemma pushed_drained: "push_list push qs s = (Inr x, t) \<Longrightarrow> rep s [] \<Longrightarrow> drained pop t rs u \<Longrightarrow> rs = rev qs"
  using push_list_rep drained_rep by fastforce

end

lemma spool_stack:
  assumes "codec ser decode"
  shows "page_stack (push_page ser io) (pop_page decode io') (holds ser)"
proof
  fix ms s e t ps assume "push_page ser io ms s = (Inl e, t)" "holds ser s ps"
  then show "holds ser t ps" using push_page_frame holds_same holds_length by blast
next
  fix s ms t ps assume "pop_page decode io' s = (Inr (Some ms), t)" "holds ser s ps"
  from pop_page_holds [OF this assms] show "\<exists>qs. ps = qs @ [ms] \<and> holds ser t qs"
    by (auto intro!: exI [of _ "butlast ps"])
qed (use push_page_ok pop_page_holds [OF _ _ assms] in fastforce)+

section \<open>Validation\<close>

fun run_checks :: "(json \<Rightarrow> 'c \<Rightarrow> (string + unit) \<times> 'c) \<Rightarrow> json list \<Rightarrow> 'c \<Rightarrow> (string + unit) \<times> 'c" where
  "run_checks chk [] c = (Inr (), c)"
| "run_checks chk (m # ms) c = thenR (chk m c) (\<lambda>_ c. run_checks chk ms c)"

lemma run_checks_append:
  "run_checks chk (xs @ ys) c = thenR (run_checks chk xs c) (\<lambda>_ c. run_checks chk ys c)"
proof (induction xs arbitrary: c)
  case (Cons x xs)
  then show ?case by (auto simp: thenR_def split: prod.split sum.split)
qed simp

lemma check_all_Inr: "check_all late chk n ms c = (Inr k, c') \<Longrightarrow> run_checks chk ms c = (Inr (), c')"
  by (induction late chk n ms c rule: check_all.induct) (auto simp: thenR_Inr_iff split: if_split_asm)

lemma check_all_punctual:
  "(\<And>n. \<not> late n) \<Longrightarrow> check_all late chk n ms c = (case run_checks chk ms c of
     (Inl e, c) \<Rightarrow> (Inl e, c) | (Inr _, c) \<Rightarrow> (Inr (n + length ms), c))"
proof (induction late chk n ms c rule: check_all.induct)
  case (2 late chk n m ms c)
  show ?case
  proof (cases "chk m c")
    case (Pair r c1)
    with 2 show ?thesis by (cases r) (auto split: prod.splits sum.splits)
  qed
qed simp

lemma validate_pages_cases:
  "e = 0 \<Longrightarrow> validate_pages decode io late chk n e c s = (Inr (), c, s)"
  "e \<noteq> 0 \<Longrightarrow> late n \<Longrightarrow> validate_pages decode io late chk n e c s = (Inl ''history validation deadline exceeded'', c, s)"
  "e \<noteq> 0 \<Longrightarrow> \<not> late n \<Longrightarrow> read_page_at decode io e s = (Inl err, s1) \<Longrightarrow>
    validate_pages decode io late chk n e c s = (Inl err, c, s1)"
  "e \<noteq> 0 \<Longrightarrow> \<not> late n \<Longrightarrow> read_page_at decode io e s = (Inr (start, ms), s1) \<Longrightarrow>
    check_all late chk (Suc n) ms c = (Inl err, c1) \<Longrightarrow>
    validate_pages decode io late chk n e c s = (Inl err, c1, s1)"
  "e \<noteq> 0 \<Longrightarrow> \<not> late n \<Longrightarrow> read_page_at decode io e s = (Inr (start, ms), s1) \<Longrightarrow>
    check_all late chk (Suc n) ms c = (Inr n', c1) \<Longrightarrow>
    validate_pages decode io late chk n e c s = validate_pages decode io late chk n' start c1 s1"
  by (subst validate_pages.simps, simp)+

text \<open>The pages of the stack are read from the newest on, each as it was written.\<close>

definition stacked :: "(json \<Rightarrow> string) \<Rightarrow> nat \<Rightarrow> string \<Rightarrow> json list list \<Rightarrow> bool" where
  "stacked ser e bs ps \<longleftrightarrow> e \<le> length bs \<and> take e bs = concat (map (page_bytes ser) ps)
     \<and> list_all (page_fits ser) ps"

lemma stacked_end: "stacked ser e bs ps \<Longrightarrow> e = length (concat (map (page_bytes ser) ps))"
  unfolding stacked_def by (metis length_take min.absorb2)

lemma stacked_snoc:
  assumes "stacked ser e bs (ps @ [q])"
  shows "stacked ser (length (concat (map (page_bytes ser) ps))) bs ps"
    and "take e bs = concat (map (page_bytes ser) ps) @ page_bytes ser q"
    and "length (ser (JArr q)) \<le> MAX_PAGE_BYTES" and "e \<le> length bs"
proof -
  let ?n = "length (concat (map (page_bytes ser) ps))"
  have e: "e = ?n + length (page_bytes ser q)" using stacked_end [OF assms] by simp
  have "take ?n bs = take ?n (take e bs)" using e by (simp add: min_absorb1)
  also have "\<dots> = concat (map (page_bytes ser) ps)" using assms by (simp add: stacked_def)
  finally show "stacked ser ?n bs ps" using assms e by (simp add: stacked_def)
  show "take e bs = concat (map (page_bytes ser) ps) @ page_bytes ser q"
    "length (ser (JArr q)) \<le> MAX_PAGE_BYTES" "e \<le> length bs"
    using assms by (simp_all add: stacked_def page_fits_def)
qed

lemma validate_pages_reads:
  assumes "validate_pages decode io late chk n e c s = (r, c', t)" and "codec ser decode"
    and "stacked ser e (sp_bytes s) ps"
  shows "sp_bytes t = sp_bytes s \<and> sp_end t = sp_end s
    \<and> (r = Inr () \<longrightarrow> run_checks chk (concat (rev ps)) c = (Inr (), c'))"
  using assms
proof (induction ps arbitrary: n e c s rule: rev_induct)
  case Nil
  then have "e = 0" by (auto dest: stacked_end)
  with Nil.prems(1) show ?case by (simp add: validate_pages_cases)
next
  case (snoc q ps)
  note st = stacked_snoc [OF snoc.prems(3)]
  have e: "e \<noteq> 0" using stacked_end [OF snoc.prems(3)] by (simp add: page_bytes_def)
  show ?case
  proof (cases "late n")
    case True
    with snoc.prems(1) e show ?thesis by (auto simp: validate_pages_cases)
  next
    case False
    obtain p s1 where p: "read_page_at decode io e s = (p, s1)" by (cases "read_page_at decode io e s")
    have s1: "sp_bytes s1 = sp_bytes s" "sp_end s1 = sp_end s"
      using read_page_at_frame [OF p, of 0] by (auto simp: same_upto_def)
    show ?thesis
    proof (cases p)
      case (Inl err)
      with snoc.prems(1) e False p s1 show ?thesis by (auto simp: validate_pages_cases)
    next
      case (Inr x)
      then have read: "read_page_at decode io e s = (Inr (fst x, snd x), s1)" using p by simp
      from read_page_at_ok [OF read snoc.prems(2) st(4,2,3)]
      have x: "snd x = q" "fst x = length (concat (map (page_bytes ser) ps))" by auto
      obtain y c1 where y: "check_all late chk (Suc n) (snd x) c = (y, c1)"
        by (cases "check_all late chk (Suc n) (snd x) c")
      show ?thesis
      proof (cases y)
        case (Inl err)
        with y have "check_all late chk (Suc n) (snd x) c = (Inl err, c1)" by simp
        from validate_pages_cases(4) [where late = late and n = n, OF e False read this]
        show ?thesis using snoc.prems(1) s1 by auto
      next
        case inr: (Inr m)
        with y have "check_all late chk (Suc n) (snd x) c = (Inr m, c1)" by simp
        from validate_pages_cases(5) [where late = late and n = n, OF e False read this]
        have "validate_pages decode io late chk m (fst x) c1 s1 = (r, c', t)" using snoc.prems(1) by simp
        from snoc.IH [OF this snoc.prems(2)] st(1) x(2) s1
        have "sp_bytes t = sp_bytes s \<and> sp_end t = sp_end s
            \<and> (r = Inr () \<longrightarrow> run_checks chk (concat (rev ps)) c1 = (Inr (), c'))" by auto
        moreover have "run_checks chk q c = (Inr (), c1)"
          using check_all_Inr [OF y [unfolded inr]] x(1) by simp
        ultimately show ?thesis by (simp add: run_checks_append)
      qed
    qed
  qed
qed

lemma holds_stacked: "holds ser s ps \<Longrightarrow> stacked ser (sp_end s) (sp_bytes s) ps"
  using holdsD [of ser s ps] holds_length [of ser s ps] by (simp only: stacked_def)

lemma validate_spool_reads:
  assumes "validate_spool decode io late chk c s = (r, c', t)" and "codec ser decode" and "holds ser s ps"
  shows "holds ser t ps \<and> (r = Inr () \<longrightarrow> run_checks chk (concat (rev ps)) c = (Inr (), c'))"
proof -
  obtain x s1 where x: "stream_position io s = (x, s1)" by (cases "stream_position io s")
  have s1: "sp_bytes s1 = sp_bytes s" "sp_end s1 = sp_end s"
    using x by (auto simp: stream_position_def io_op_def split: option.split_asm)
  have keep: "holds ser u ps" if "sp_bytes u = sp_bytes s" "sp_end u = sp_end s" for u
    using holdsD [OF assms(3)] that by (simp only: holds_def)
  show ?thesis
  proof (cases x)
    case (Inl e)
    with assms(1) x keep [OF s1] show ?thesis by (auto simp: validate_spool_def)
  next
    case (Inr pos)
    obtain y c1 s2 where y: "validate_pages decode io late chk 0 (sp_end s1) c s1 = (y, c1, s2)"
      by (cases "validate_pages decode io late chk 0 (sp_end s1) c s1")
    obtain z s3 where z: "seek io pos s2 = (z, s3)" by (cases "seek io pos s2")
    have "stacked ser (sp_end s1) (sp_bytes s1) ps" using holds_stacked [OF assms(3)] s1 by simp
    from validate_pages_reads [OF y assms(2) this] s1
    have s2: "sp_bytes s2 = sp_bytes s" "sp_end s2 = sp_end s"
      "y = Inr () \<longrightarrow> run_checks chk (concat (rev ps)) c = (Inr (), c1)" by auto
    have s3: "sp_bytes s3 = sp_bytes s" "sp_end s3 = sp_end s"
      using seek_frame [OF z, of 0] s2 by (auto simp: same_upto_def)
    have "r = (case y of Inl e \<Rightarrow> Inl e | Inr _ \<Rightarrow> z)" "c' = c1" "t = s3"
      using assms(1) x Inr y z by (auto simp: validate_spool_def)
    with s2(3) keep [OF s3] show ?thesis by (cases y) auto
  qed
qed

section \<open>A file that does not fail\<close>

lemma read_page_at_total:
  assumes "codec ser decode" and "stacked ser e (sp_bytes s) (ps @ [q])" and "e \<le> MAX_SPOOL_BYTES"
  shows "\<exists>t. read_page_at decode (\<lambda>_. None) e s = (Inr (length (concat (map (page_bytes ser) ps)), q), t)
    \<and> sp_bytes t = sp_bytes s \<and> sp_end t = sp_end s"
proof -
  let ?j = "ser (JArr q)" and ?pre = "concat (map (page_bytes ser) ps)"
  note st = stacked_snoc [OF assms(2)]
  have e: "e = length ?pre + length ?j + 8" using stacked_end [OF assms(2)] by (simp add: page_bytes_def)
  have whole: "sp_bytes s = ?pre @ ?j @ le_bytes 8 (length ?j) @ drop e (sp_bytes s)"
    using append_take_drop_id [of e "sp_bytes s"] st(2) by (simp add: page_bytes_def)
  have len: "take 8 (drop (e - 8) (sp_bytes s)) = le_bytes 8 (length ?j)" by (subst whole) (simp add: e)
  have body: "take (length ?j) (drop (length ?pre) (sp_bytes s)) = ?j" by (subst whole) simp
  have val: "le_value (le_bytes 8 (length ?j)) = length ?j"
    using st(3) by (simp add: le_value_bytes MAX_PAGE_BYTES_def)
  have "e \<le> length (sp_bytes s)" using st(4) .
  moreover have "page_fits ser q" using assms(2) by (simp add: stacked_def)
  ultimately show ?thesis
    using assms(1,3) st(3) e len body val
    by (simp add: read_page_at_def seek_def read_exact_def io_op_def Let_def page_fits_def codec_def)
qed

lemma pop_page_total:
  assumes "codec ser decode" and "holds ser s (ps @ [q])"
  shows "\<exists>t. pop_page decode (\<lambda>_. None) s = (Inr (Some q), t) \<and> holds ser t ps"
proof -
  obtain t where t: "read_page_at decode (\<lambda>_. None) (sp_end s) s = (Inr (length (concat (map (page_bytes ser) ps)), q), t)"
    "sp_bytes t = sp_bytes s" "sp_end t = sp_end s"
    using read_page_at_total [OF assms(1) holds_stacked [OF assms(2)] holdsD(1) [OF assms(2)]] by blast
  have "sp_end s \<noteq> 0" using holdsD(3) [OF assms(2)] by (simp add: page_bytes_def)
  with t have "\<exists>u. pop_page decode (\<lambda>_. None) s = (Inr (Some q), u)"
    by (simp add: pop_page_def set_len_def io_op_def)
  then obtain u where u: "pop_page decode (\<lambda>_. None) s = (Inr (Some q), u)" by blast
  from pop_page_holds [OF u assms(2,1)] u show ?thesis by simp
qed

lemma pop_page_end: "holds ser s [] \<Longrightarrow> pop_page decode io s = (Inr None, s)"
  using holdsD(3) [of ser s "[]"] by (simp add: pop_page_def)

lemma drained_total:
  "codec ser decode \<Longrightarrow> holds ser s ps \<Longrightarrow> \<exists>t. drained (pop_page decode (\<lambda>_. None)) s (rev ps) t"
proof (induction ps arbitrary: s rule: rev_induct)
  case Nil
  have "drained (pop_page decode (\<lambda>_. None)) s [] s" by (rule drained.stop) (rule pop_page_end [OF Nil.prems(2)])
  then show ?case by auto
next
  case (snoc q ps)
  obtain t where "pop_page decode (\<lambda>_. None) s = (Inr (Some q), t)" "holds ser t ps"
    using pop_page_total [OF snoc.prems] by blast
  moreover from this(2) obtain u where "drained (pop_page decode (\<lambda>_. None)) t (rev ps) u"
    using snoc.IH [OF snoc.prems(1)] by blast
  ultimately show ?case using drained.page by fastforce
qed

end
