(* ===== verification/History_Page.thy ===== *)
theory History_Page
  imports History_Stack
begin

text \<open>
  Preparing the history of a session (\<open>history/page.rs\<close>): the checks of a page the host returns, the
  loop that asks for page after page from the newest on, the fallback that reads the saved file and cuts
  its branch into windows, and the checks at the end. The host is a record of functions on its state;
  an answer that comes too late or after a cancellation is an error of the call.
\<close>

section \<open>Pages\<close>

record branch_anchor =
  leaf_id :: "string option"
  anchor_total :: u64

record message_page =
  pg_messages :: "json list"
  pg_anchor :: branch_anchor
  first_id :: "string option"
  last_id :: "string option"
  has_more :: bool

definition optional_id :: "json \<Rightarrow> string \<Rightarrow> string + string option" where
  "optional_id data k = (case jget k data of
     Some JNull \<Rightarrow> Inr None
   | Some (JStr i) \<Rightarrow> if i \<noteq> [] \<and> length i \<le> 1024 then Inr (Some i) else Inl (''invalid history '' @ k)
   | _ \<Rightarrow> Inl (''invalid history '' @ k))"

definition entry_id :: "json \<Rightarrow> string option" where
  "entry_id m = as_str (jidx ''entryId'' m)"

fun check_entries :: "string option \<Rightarrow> string list \<Rightarrow> json list \<Rightarrow> string + unit" where
  "check_entries before_id seen [] = Inr ()"
| "check_entries before_id seen (m # ms) =
     bindR (ok_or ''invalid history entryId'' (filter_opt (\<lambda>i. i \<noteq> [] \<and> length i \<le> 1024) (entry_id m))) (\<lambda>i.
     if Some i = before_id \<or> i \<in> set seen \<or> as_str (jidx ''role'' m) = None
     then Inl ''invalid or repeated history entry''
     else check_entries before_id (i # seen) ms)"

definition counts_agree :: "nat \<Rightarrow> nat \<Rightarrow> nat \<Rightarrow> bool \<Rightarrow> bool \<Rightarrow> bool" where
  "counts_agree n lim tot from_start again \<longleftrightarrow>
     \<not> (n > lim \<or> n > tot \<or> (\<not> from_start \<and> n \<ge> tot) \<or> (again \<and> (n \<noteq> lim \<or> n \<ge> tot))
        \<or> (from_start \<and> \<not> again \<and> n \<noteq> tot))"

definition head_id :: "json list \<Rightarrow> string option" where
  "head_id ms = (case ms of [] \<Rightarrow> None | m # _ \<Rightarrow> entry_id m)"

definition validate_page ::
  "(json \<Rightarrow> string) \<Rightarrow> json \<Rightarrow> string option \<Rightarrow> nat \<Rightarrow> branch_anchor option \<Rightarrow> string + message_page" where
  "validate_page ser data before_id lim expected =
     bindR (check (1 \<le> lim \<and> lim \<le> MAX_PAGE_MESSAGES) ''history page limit out of range'') (\<lambda>_.
     bindR (bounded_json ser data) (\<lambda>_.
     bindR (optional_id data ''leafId'') (\<lambda>leaf.
     bindR (ok_or ''invalid history total'' (as_u64 (jidx ''total'' data))) (\<lambda>tot.
     let anchor = \<lparr>leaf_id = leaf, anchor_total = tot\<rparr> in
     bindR (check (tot > 0 \<longrightarrow> leaf \<noteq> None) ''missing history branch leaf'') (\<lambda>_.
     bindR (check (expected = None \<or> expected = Some anchor) ''history branch changed'') (\<lambda>_.
     bindR (optional_id data ''beforeId'') (\<lambda>echo.
     bindR (check (echo = before_id) ''history cursor echo mismatch'') (\<lambda>_.
     bindR (optional_id data ''firstId'') (\<lambda>first.
     bindR (optional_id data ''lastId'') (\<lambda>last_one.
     bindR (ok_or ''invalid history hasMore'' (as_bool (jidx ''hasMore'' data))) (\<lambda>again.
     bindR (ok_or ''invalid history messages'' (as_array (jidx ''messages'' data))) (\<lambda>ms.
     bindR (check (counts_agree (length ms) lim (unat tot) (before_id = None) again)
       ''inconsistent history pagination'') (\<lambda>_.
     bindR (check_entries before_id [] ms) (\<lambda>_.
     bindR (check (first = head_id ms \<and> last_one = head_id (rev ms) \<and> \<not> (again \<and> ms = []))
       ''inconsistent history page bounds'') (\<lambda>_.
     Inr \<lparr>pg_messages = ms, pg_anchor = anchor, first_id = first, last_id = last_one, has_more = again\<rparr>)))))))))))))))"

definition good_page :: "string option \<Rightarrow> nat \<Rightarrow> branch_anchor option \<Rightarrow> message_page \<Rightarrow> bool" where
  "good_page before_id lim expected p \<longleftrightarrow>
     (\<exists>ids. map entry_id (pg_messages p) = map Some ids \<and> distinct ids \<and> before_id \<notin> Some ` set ids)
     \<and> length (pg_messages p) \<le> lim \<and> 1 \<le> lim
     \<and> (has_more p \<longrightarrow> length (pg_messages p) = lim)
     \<and> (before_id = None \<and> \<not> has_more p \<longrightarrow> length (pg_messages p) = unat (anchor_total (pg_anchor p)))
     \<and> (expected = None \<or> expected = Some (pg_anchor p))
     \<and> first_id p = head_id (pg_messages p)"

lemma check_entries_ids:
  "check_entries before_id seen ms = Inr () \<Longrightarrow>
    \<exists>ids. map entry_id ms = map Some ids \<and> distinct ids \<and> set ids \<inter> set seen = {} \<and> before_id \<notin> Some ` set ids"
proof (induction ms arbitrary: seen)
  case (Cons m ms)
  then obtain i where i: "entry_id m = Some i" "Some i \<noteq> before_id" "i \<notin> set seen"
    "check_entries before_id (i # seen) ms = Inr ()"
    by (auto simp: service_iffs split: if_split_asm)
  from Cons.IH [OF i(4)] obtain ids where
    "map entry_id ms = map Some ids" "distinct ids" "set ids \<inter> set (i # seen) = {}" "before_id \<notin> Some ` set ids"
    by blast
  with i show ?case by (intro exI [of _ "i # ids"]) auto
qed simp

lemma validate_page_good: "validate_page ser data before_id lim expected = Inr p \<Longrightarrow> good_page before_id lim expected p"
proof -
  assume v: "validate_page ser data before_id lim expected = Inr p"
  obtain leaf tot first last_one again ms u where page:
      "\<lparr>pg_messages = ms, pg_anchor = \<lparr>leaf_id = leaf, anchor_total = tot\<rparr>, first_id = first,
         last_id = last_one, has_more = again\<rparr> = p"
    and lim: "1 \<le> lim" and anchor: "expected = None \<or> expected = Some \<lparr>leaf_id = leaf, anchor_total = tot\<rparr>"
    and counts: "counts_agree (length ms) lim (unat tot) (before_id = None) again"
    and ids: "check_entries before_id [] ms = Inr u" and first: "first = head_id ms"
    using v unfolding validate_page_def Let_def bindR_Inr_iff check_Inr_iff sum.inject
    by (elim exE conjE) (rule that, assumption+)
  from ids have "check_entries before_id [] ms = Inr ()" by simp
  from check_entries_ids [OF this] counts lim anchor first show ?thesis
    by (auto simp: good_page_def page [symmetric] counts_agree_def)
qed

lemma validate_page_total:
  assumes "validate_page ser data before_id lim expected = Inr p"
  shows "as_u64 (jidx ''total'' data) = Some (anchor_total (pg_anchor p))"
proof -
  obtain leaf tot first last_one again ms where
    tot: "ok_or ''invalid history total'' (as_u64 (jidx ''total'' data)) = Inr tot" and
    p: "\<lparr>pg_messages = ms, pg_anchor = \<lparr>leaf_id = leaf, anchor_total = tot\<rparr>, first_id = first,
         last_id = last_one, has_more = again\<rparr> = p"
    using assms unfolding validate_page_def Let_def bindR_Inr_iff sum.inject
    by (elim exE conjE) (rule that, assumption+)
  from tot show ?thesis by (simp add: p [symmetric] ok_or_Inr_iff)
qed

section \<open>The host\<close>

record 'h history_host =
  ask :: "string \<Rightarrow> json \<Rightarrow> 'h \<Rightarrow> (string + json) \<times> 'h"
  still_active :: "'h \<Rightarrow> (string + unit) \<times> 'h"
  boundary_of :: "'h \<Rightarrow> (string + u64) \<times> 'h"

type_synonym 'h prep = "'h \<times> spool"

definition on_host :: "('h \<Rightarrow> 'r \<times> 'h) \<Rightarrow> 'h prep \<Rightarrow> 'r \<times> 'h prep" where
  "on_host f st = (case f (fst st) of (r, h) \<Rightarrow> (r, (h, snd st)))"

definition on_spool :: "(spool \<Rightarrow> 'r \<times> spool) \<Rightarrow> 'h prep \<Rightarrow> 'r \<times> 'h prep" where
  "on_spool f st = (case f (snd st) of (r, s) \<Rightarrow> (r, (fst st, s)))"

definition page_request :: "nat \<Rightarrow> string option \<Rightarrow> json" where
  "page_request lim before_id = JObj [(''limit'', JUint (of_nat lim)), (''beforeId'', jopt before_id)]"

definition read_page ::
  "'h history_host \<Rightarrow> (json \<Rightarrow> string) \<Rightarrow> string option \<Rightarrow> branch_anchor option \<Rightarrow> nat \<Rightarrow> 'h
     \<Rightarrow> (string + message_page) \<times> 'h" where
  "read_page rd ser before_id expected lim h =
     (if \<not> (1 \<le> lim \<and> lim \<le> MAX_PAGE_MESSAGES) then (Inl ''history page limit out of range'', h)
      else
        thenR (ask rd ''get_messages'' (page_request lim before_id) h) (\<lambda>data h.
        thenR (validate_page ser data before_id lim expected, h) (\<lambda>p h.
        thenR (still_active rd h) (\<lambda>_ h. (Inr p, h)))))"

lemma read_page_good: "read_page rd ser before_id expected lim h = (Inr p, h') \<Longrightarrow> good_page before_id lim expected p"
  by (auto simp: read_page_def thenR_Inr_iff dest!: validate_page_good split: if_split_asm)

section \<open>The loop over pages\<close>

text \<open>The ids of a page; \<open>validate_page\<close> has found each of them to be a string.\<close>

definition page_ids :: "message_page \<Rightarrow> string list" where
  "page_ids p = map (\<lambda>m. unwrap_or [] (entry_id m)) (pg_messages p)"

fun insert_ids :: "string list \<Rightarrow> string list \<Rightarrow> string + string list" where
  "insert_ids [] seen = Inr seen"
| "insert_ids (i # ids) seen =
     (if i \<in> set seen then Inl ''repeated history entry across pages'' else insert_ids ids (i # seen))"

lemma insert_ids_Inr: "insert_ids ids seen = Inr s \<longleftrightarrow> s = rev ids @ seen \<and> distinct ids \<and> set ids \<inter> set seen = {}"
  by (induction ids arbitrary: seen) auto

definition progress :: "message_page \<Rightarrow> string list \<Rightarrow> string + unit" where
  "progress p seen =
     check (\<not> (length seen > unat (anchor_total (pg_anchor p))
               \<or> (has_more p \<and> length seen \<ge> unat (anchor_total (pg_anchor p)))))
       ''history cursor made no progress''"

definition take_page ::
  "'h history_host \<Rightarrow> (json \<Rightarrow> string) \<Rightarrow> faults \<Rightarrow> string option \<Rightarrow> branch_anchor option \<Rightarrow> string list
     \<Rightarrow> 'h prep \<Rightarrow> (string + message_page \<times> string list) \<times> 'h prep" where
  "take_page rd ser io before_id anchor seen st =
     thenR (on_host (read_page rd ser before_id anchor MAX_PAGE_MESSAGES) st) (\<lambda>p st.
     thenR (insert_ids (page_ids p) seen, st) (\<lambda>seen st.
     thenR (progress p seen, st) (\<lambda>_ st.
     thenR (on_spool (push_page ser io (pg_messages p)) st) (\<lambda>_ st.
     thenR (on_host (still_active rd) st) (\<lambda>_ st.
     (Inr (p, seen), st))))))"

lemma on_host_iff: "on_host f st = (r, st') \<longleftrightarrow> f (fst st) = (r, fst st') \<and> snd st' = snd st"
  by (cases "f (fst st)"; cases st') (auto simp: on_host_def)

lemma on_spool_iff: "on_spool f st = (r, st') \<longleftrightarrow> f (snd st) = (r, snd st') \<and> fst st' = fst st"
  by (cases "f (snd st)"; cases st') (auto simp: on_spool_def)

lemma take_page_facts:
  assumes "take_page rd ser io before_id anchor seen st = (Inr (p, seen'), st')"
  shows "good_page before_id MAX_PAGE_MESSAGES anchor p \<and> seen' = rev (page_ids p) @ seen
    \<and> distinct (page_ids p) \<and> set (page_ids p) \<inter> set seen = {}
    \<and> length seen' \<le> unat (anchor_total (pg_anchor p))
    \<and> (has_more p \<longrightarrow> length seen' < unat (anchor_total (pg_anchor p)))
    \<and> push_page ser io (pg_messages p) (snd st) = (Inr (), snd st')"
  using assms
  by (auto simp: take_page_def thenR_Inr_iff on_host_iff on_spool_iff insert_ids_Inr progress_def not_less not_le
      dest!: read_page_good)

function page_loop ::
  "'h history_host \<Rightarrow> (json \<Rightarrow> string) \<Rightarrow> faults \<Rightarrow> string option \<Rightarrow> branch_anchor option \<Rightarrow> string list
     \<Rightarrow> 'h prep \<Rightarrow> (string + unit) \<times> 'h prep" where
  "page_loop rd ser io before_id anchor seen st =
     (case take_page rd ser io before_id anchor seen st of
        (Inl e, st) \<Rightarrow> (Inl e, st)
      | (Inr (p, seen'), st') \<Rightarrow>
          if has_more p then page_loop rd ser io (first_id p) (Some (pg_anchor p)) seen' st'
          else if length seen' \<noteq> unat (anchor_total (pg_anchor p))
          then (Inl ''incomplete history traversal'', st')
          else thenR (on_host (read_page rd ser None (Some (pg_anchor p)) 1) st') (\<lambda>_ st. (Inr (), st)))"
  by pat_completeness auto
termination
proof (relation "measures [\<lambda>(rd, ser, io, b, anchor, seen, st). if anchor = None then 1 else 0,
    \<lambda>(rd, ser, io, b, anchor, seen, st). case anchor of None \<Rightarrow> 0 | Some a \<Rightarrow> unat (anchor_total a) - length seen]",
    goal_cases)
  case (2 rd ser io before_id anchor seen st x st' y p seen')
  then have "take_page rd ser io before_id anchor seen st = (Inr (p, seen'), st')" by simp
  from take_page_facts [OF this] 2(4)
  have "good_page before_id MAX_PAGE_MESSAGES anchor p" "length seen < length seen'"
    "length seen' < unat (anchor_total (pg_anchor p))"
    by (auto simp: good_page_def page_ids_def)
  then show ?case by (cases anchor) (auto simp: good_page_def)
qed simp

declare page_loop.simps [simp del]

section \<open>The saved file of an old host\<close>

record saved_read =
  sr_total :: nat
  sr_entries :: entries
  sr_header :: bool

definition MAX_FALLBACK_BYTES :: nat where "MAX_FALLBACK_BYTES = 67108864"

definition ascii_white :: "char \<Rightarrow> bool" where
  "ascii_white c \<longleftrightarrow> c \<in> {CHR 0x09, CHR 0x0A, CHR 0x0C, CHR 0x0D, CHR 0x20}"

definition saved_entry :: "json \<Rightarrow> entries \<Rightarrow> string + entries" where
  "saved_entry e es =
     bindR (ok_or ''history entry has no valid id''
       (filter_opt (\<lambda>i. i \<noteq> [] \<and> length i \<le> 1024) (as_str (jidx ''id'' e)))) (\<lambda>i.
     bindR (check (case jget ''parentId'' e of Some JNull \<Rightarrow> True | Some (JStr _) \<Rightarrow> True | _ \<Rightarrow> False)
       ''invalid saved history parentId'') (\<lambda>_.
     bindR (check (\<not> (jidx ''type'' e = JStr ''message'' \<and> as_str (jidx ''role'' (jidx ''message'' e)) = None))
       ''invalid saved history message'') (\<lambda>_.
     add_entry i e es)))"

definition saved_line :: "(string \<Rightarrow> string + json) \<Rightarrow> string \<Rightarrow> saved_read \<Rightarrow> string + saved_read" where
  "saved_line from_slice line st =
     (let st = st\<lparr>sr_total := sr_total st + length line\<rparr>
      in if sr_total st > MAX_FALLBACK_BYTES \<or> length line > MAX_PAGE_BYTES
         then Inl ''saved history exceeds file or line budget''
         else if list_all ascii_white line \<and> \<not> sr_header st then Inr st
         else bindR (map_err (\<lambda>e. ''invalid saved history: '' @ e) (from_slice line)) (\<lambda>e.
           if sr_header st then
             (if jidx ''kind'' e \<noteq> JStr ''header'' \<or> as_i64 (jidx ''version'' e) \<noteq> Some 4
              then Inl ''invalid saved history header'' else Inr (st\<lparr>sr_header := False\<rparr>))
           else if jidx ''kind'' e = JStr ''entry'' then
             bindR (saved_entry e (sr_entries st)) (\<lambda>es. Inr (st\<lparr>sr_entries := es\<rparr>))
           else Inr st))"

text \<open>What successive bounded \<open>read_until\<close>s return; the file ends with a read of nothing.\<close>

fun read_saved ::
  "'h history_host \<Rightarrow> (string \<Rightarrow> string + json) \<Rightarrow> (string + string) list \<Rightarrow> saved_read \<Rightarrow> 'h
     \<Rightarrow> (string + saved_read) \<times> 'h" where
  "read_saved rd from_slice [] st h = thenR (still_active rd h) (\<lambda>_ h. (Inr st, h))"
| "read_saved rd from_slice (x # xs) st h =
     thenR (still_active rd h) (\<lambda>_ h.
       case x of
         Inl e \<Rightarrow> (Inl e, h)
       | Inr line \<Rightarrow>
           if line = [] then (Inr st, h)
           else thenR (saved_line from_slice line st, h) (\<lambda>st h. read_saved rd from_slice xs st h))"

definition bounded_branch_messages ::
  "'h history_host \<Rightarrow> (string \<Rightarrow> string + json) \<Rightarrow> string + (string + string) list \<Rightarrow> string option \<Rightarrow> 'h
     \<Rightarrow> (string + json list) \<times> 'h" where
  "bounded_branch_messages rd from_slice file leaf h =
     thenR (file, h) (\<lambda>lines h.
     thenR (read_saved rd from_slice lines \<lparr>sr_total = 0, sr_entries = [], sr_header = True\<rparr> h) (\<lambda>st h.
     if sr_header st then (Inl ''missing saved history header'', h)
     else
       thenR (still_active rd h) (\<lambda>_ h.
       thenR (branch_messages_from_entries (sr_entries st) leaf, h) (\<lambda>ms h.
       thenR (still_active rd h) (\<lambda>_ h. (Inr ms, h))))))"

text \<open>The window of messages before \<open>e\<close>: as many as fit, from the newest on.\<close>

fun window_start :: "(json \<Rightarrow> string) \<Rightarrow> json list \<Rightarrow> nat \<Rightarrow> nat \<Rightarrow> nat \<Rightarrow> string + nat" where
  "window_start ser ms e 0 bytes = Inr 0"
| "window_start ser ms e (Suc k) bytes =
     (if e - Suc k < MAX_PAGE_MESSAGES then
        (case bounded_json ser (ms ! k) of
           Inl err \<Rightarrow> Inl err
         | Inr b \<Rightarrow>
             if bytes + (length b + 1) > MAX_PAGE_BYTES then Inr (Suc k)
             else window_start ser ms e k (bytes + (length b + 1)))
      else Inr (Suc k))"

lemma window_start_le: "window_start ser ms e k bytes = Inr s \<Longrightarrow> s \<le> k"
  by (induction ser ms e k bytes rule: window_start.induct) (auto split: if_splits sum.splits)

function push_windows ::
  "'h history_host \<Rightarrow> (json \<Rightarrow> string) \<Rightarrow> faults \<Rightarrow> json list \<Rightarrow> nat \<Rightarrow> 'h prep \<Rightarrow> (string + unit) \<times> 'h prep" where
  "push_windows rd ser io ms e st =
     (if e = 0 then (Inr (), st)
      else case window_start ser ms e e 2 of
        Inl err \<Rightarrow> (Inl err, st)
      | Inr start \<Rightarrow>
          if start = e then (Inl ''history message exceeds page byte budget'', st)
          else
            (case thenR (on_spool (push_page ser io (take (e - start) (drop start ms))) st)
                   (\<lambda>_ st. on_host (still_active rd) st) of
               (Inl err, st) \<Rightarrow> (Inl err, st)
             | (Inr _, st') \<Rightarrow> push_windows rd ser io ms start st'))"
  by pat_completeness auto
termination
  by (relation "measure (\<lambda>(_, _, _, _, e, _). e)") (auto dest!: window_start_le)

declare push_windows.simps [simp del]

section \<open>The preparation\<close>

definition leaf_request :: "'h history_host \<Rightarrow> 'h \<Rightarrow> (string + string option) \<times> 'h" where
  "leaf_request rd h = thenR (ask rd ''get_state'' (JObj []) h) (\<lambda>state h. (optional_id state ''leafId'', h))"

definition prepare_fallback ::
  "'h history_host \<Rightarrow> (json \<Rightarrow> string) \<Rightarrow> (string \<Rightarrow> string + json) \<Rightarrow> faults
     \<Rightarrow> (string + (string + string) list) option \<Rightarrow> 'h prep \<Rightarrow> (string + unit) \<times> 'h prep" where
  "prepare_fallback rd ser from_slice io saved st =
     thenR (ok_or ''saved transcript required for old host'' saved, st) (\<lambda>file st.
     thenR (on_host (leaf_request rd) st) (\<lambda>leaf st.
     thenR (on_host (bounded_branch_messages rd from_slice file leaf) st) (\<lambda>ms st.
     thenR (push_windows rd ser io ms (length ms) st) (\<lambda>_ st.
     thenR (on_host (leaf_request rd) st) (\<lambda>final_leaf st.
     (if final_leaf \<noteq> leaf then Inl ''history branch changed'' else Inr (), st))))))"

definition verify_boundary :: "'h history_host \<Rightarrow> u64 \<Rightarrow> 'h \<Rightarrow> (string + unit) \<times> 'h" where
  "verify_boundary rd bound h =
     thenR (still_active rd h) (\<lambda>_ h.
     thenR (boundary_of rd h) (\<lambda>b h.
     if b \<noteq> bound then (Inl ''history event boundary changed'', h)
     else still_active rd h))"

definition prepare ::
  "'h history_host \<Rightarrow> (json \<Rightarrow> string) \<Rightarrow> (string \<Rightarrow> string + json) \<Rightarrow> faults \<Rightarrow> u64 \<Rightarrow> bool
     \<Rightarrow> (string + (string + string) list) option \<Rightarrow> 'h \<Rightarrow> (string + unit) \<times> 'h prep" where
  "prepare rd ser from_slice io bound supports_pages saved h =
     thenR (if supports_pages then page_loop rd ser io None None [] (h, new_spool)
            else prepare_fallback rd ser from_slice io saved (h, new_spool)) (\<lambda>_ st.
     on_host (verify_boundary rd bound) st)"

end
