(* ===== verification/History_Correct.thy ===== *)
theory History_Correct
  imports History_Page
begin

text \<open>
  What a prepared history is: the spool holds complete pages without a repeated entry whatever the host
  answers, from a saved file it holds the messages on the path from the leaf to the root, and from a host that answers
  truthfully it holds the branch, to be read from the oldest message on.
\<close>

section \<open>Any host\<close>

definition ids_of :: "json list \<Rightarrow> string list \<Rightarrow> bool" where
  "ids_of ms ids \<longleftrightarrow> map entry_id ms = map Some ids"

lemma page_ids_of: "good_page b lim a p \<Longrightarrow> ids_of (pg_messages p) (page_ids p)"
proof -
  assume "good_page b lim a p"
  then obtain ids where ids: "map entry_id (pg_messages p) = map Some ids" by (auto simp: good_page_def)
  have "page_ids p = map (unwrap_or []) (map entry_id (pg_messages p))" by (simp add: page_ids_def)
  also have "\<dots> = ids" unfolding ids by (simp add: comp_def)
  finally show ?thesis using ids by (simp add: ids_of_def)
qed

text \<open>A number of messages the host has named on a request for the newest one.\<close>

definition host_total :: "'h history_host \<Rightarrow> u64 \<Rightarrow> bool" where
  "host_total rd n \<longleftrightarrow> (\<exists>h1 h2 data. ask rd ''get_messages'' (page_request 1 None) h1 = (Inr data, h2)
     \<and> as_u64 (jidx ''total'' data) = Some n)"

lemma page_loop_sound:
  assumes "page_loop rd ser io b anchor seen st = (Inr (), st')" and "holds ser (snd st) ps"
  shows "\<exists>qs ids a. holds ser (snd st') (ps @ qs) \<and> ids_of (concat (rev qs)) ids \<and> distinct ids
    \<and> set ids \<inter> set seen = {} \<and> length ids + length seen = unat (anchor_total a) \<and> (anchor = None \<or> anchor = Some a)
    \<and> host_total rd (anchor_total a)"
  using assms
proof (induction rd ser io b anchor seen st arbitrary: ps rule: page_loop.induct)
  case (1 rd ser io b anchor seen st)
  from "1.prems"(1) obtain p seen' st1 where t: "take_page rd ser io b anchor seen st = (Inr (p, seen'), st1)"
    by (subst (asm) page_loop.simps) (auto split: prod.splits sum.splits)
  note f = take_page_facts [OF t]
  have good: "good_page b MAX_PAGE_MESSAGES anchor p" using f by blast
  have push: "holds ser (snd st1) (ps @ [pg_messages p])" using push_page_ok f "1.prems"(2) by blast
  have a: "anchor = None \<or> anchor = Some (pg_anchor p)" using good by (simp add: good_page_def)
  note own = page_ids_of [OF good]
  show ?case
  proof (cases "has_more p")
    case True
    with "1.prems"(1) t have rest: "page_loop rd ser io (first_id p) (Some (pg_anchor p)) seen' st1 = (Inr (), st')"
      by (subst (asm) page_loop.simps) simp
    from "1.IH" [OF t [symmetric] refl refl True rest push] obtain qs ids where qs:
      "holds ser (snd st') ((ps @ [pg_messages p]) @ qs)" "ids_of (concat (rev qs)) ids" "distinct ids"
      "set ids \<inter> set seen' = {}" "length ids + length seen' = unat (anchor_total (pg_anchor p))"
      and conf: "host_total rd (anchor_total (pg_anchor p))" by auto
    with own have "ids_of (concat (rev (pg_messages p # qs))) (ids @ page_ids p)" by (simp add: ids_of_def)
    moreover have "distinct (ids @ page_ids p)" "set (ids @ page_ids p) \<inter> set seen = {}"
      "length (ids @ page_ids p) + length seen = unat (anchor_total (pg_anchor p))"
      using qs f by auto
    ultimately show ?thesis using qs(1) a conf
      by (intro exI [of _ "pg_messages p # qs"] exI [of _ "ids @ page_ids p"] exI [of _ "pg_anchor p"]) simp
  next
    case False
    with "1.prems"(1) t have n: "length seen' = unat (anchor_total (pg_anchor p))"
      and last: "thenR (on_host (read_page rd ser None (Some (pg_anchor p)) 1) st1) (\<lambda>_ st. (Inr (), st)) = (Inr (), st')"
      by (subst (asm) page_loop.simps, simp split: if_split_asm)+
    from last obtain p' where final: "read_page rd ser None (Some (pg_anchor p)) 1 (fst st1) = (Inr p', fst st')"
      "snd st' = snd st1" by (auto simp: thenR_Inr_iff on_host_iff)
    from final(1) obtain data h2 where "ask rd ''get_messages'' (page_request 1 None) (fst st1) = (Inr data, h2)"
      "validate_page ser data None 1 (Some (pg_anchor p)) = Inr p'"
      by (auto simp: read_page_def thenR_Inr_iff split: if_split_asm)
    moreover from this(2) have "as_u64 (jidx ''total'' data) = Some (anchor_total (pg_anchor p))"
      using validate_page_total validate_page_good unfolding good_page_def by fastforce
    ultimately have "host_total rd (anchor_total (pg_anchor p))" unfolding host_total_def by blast
    with push own n f a final(2) show ?thesis
      by (intro exI [of _ "[pg_messages p]"] exI [of _ "page_ids p"] exI [of _ "pg_anchor p"]) auto
  qed
qed

lemma push_windows_sound:
  assumes "push_windows rd ser io ms e st = (Inr (), st')" and "e \<le> length ms" and "holds ser (snd st) ps"
  shows "\<exists>qs. holds ser (snd st') (ps @ qs) \<and> concat (rev qs) = take e ms"
  using assms
proof (induction rd ser io ms e st arbitrary: ps rule: push_windows.induct)
  case (1 rd ser io ms e st)
  show ?case
  proof (cases "e = 0")
    case True
    with "1.prems" have "st' = st" by (subst (asm) push_windows.simps) simp
    with True "1.prems"(3) show ?thesis by (intro exI [of _ "[]"]) simp
  next
    case False
    with "1.prems"(1) obtain start st1 where w: "window_start ser ms e e 2 = Inr start" "start \<noteq> e"
      and push: "thenR (on_spool (push_page ser io (take (e - start) (drop start ms))) st)
                   (\<lambda>_ st. on_host (still_active rd) st) = (Inr (), st1)"
      and rest: "push_windows rd ser io ms start st1 = (Inr (), st')"
      by (subst (asm) push_windows.simps) (auto split: sum.splits if_split_asm prod.splits)
    have le: "start \<le> e" using window_start_le [OF w(1)] .
    from push have "push_page ser io (take (e - start) (drop start ms)) (snd st) = (Inr (), snd st1)"
      by (auto simp: thenR_Inr_iff on_host_iff on_spool_iff)
    from push_page_ok [OF this "1.prems"(3)]
    have "holds ser (snd st1) (ps @ [take (e - start) (drop start ms)])" .
    from "1.IH" [OF False w(1,2) push [symmetric] refl rest _ this] le "1.prems"(2)
    obtain qs where qs: "holds ser (snd st') (ps @ take (e - start) (drop start ms) # qs)" "concat (rev qs) = take start ms"
      by auto
    moreover have "take start ms @ take (e - start) (drop start ms) = take e ms"
      using le by (metis le_add_diff_inverse take_add)
    ultimately show ?thesis by (intro exI [of _ "take (e - start) (drop start ms) # qs"]) simp
  qed
qed

definition read_branch_file ::
  "'h history_host \<Rightarrow> (string \<Rightarrow> string + json) \<Rightarrow> (string + (string + string) list) option \<Rightarrow> entries \<Rightarrow> bool" where
  "read_branch_file rd from_slice saved es \<longleftrightarrow>
     (\<exists>sv h st. saved = Some (Inr sv)
        \<and> fst (read_saved rd from_slice sv \<lparr>sr_total = 0, sr_entries = [], sr_header = True\<rparr> h) = Inr st
        \<and> sr_entries st = es)"

lemma prepare_fallback_sound:
  assumes "prepare_fallback rd ser from_slice io saved st = (Inr (), st')" and "holds ser (snd st) []"
  shows "\<exists>qs es leaf h p. holds ser (snd st') qs \<and> read_branch_file rd from_slice saved es
    \<and> fst (leaf_request rd h) = Inr leaf \<and> branch_path es leaf p \<and> collect_messages (rev p) = Inr (concat (rev qs))"
proof -
  obtain sv leaf ms st1 st2 st3 where f: "saved = Some sv" "on_host (leaf_request rd) st = (Inr leaf, st1)"
    "on_host (bounded_branch_messages rd from_slice sv leaf) st1 = (Inr ms, st2)"
    "push_windows rd ser io ms (length ms) st2 = (Inr (), st3)"
    "\<exists>l. on_host (leaf_request rd) st3 = (Inr l, st')"
    using assms(1) by (auto simp: prepare_fallback_def thenR_Inr_iff ok_or_Inr_iff split: if_split_asm)
  have spool: "snd st2 = snd st" "snd st' = snd st3" using f by (auto simp: on_host_iff)
  from f(3) obtain ls h1 r where r: "sv = Inr ls"
      "fst (read_saved rd from_slice ls \<lparr>sr_total = 0, sr_entries = [], sr_header = True\<rparr> h1) = Inr r"
      "branch_messages_from_entries (sr_entries r) leaf = Inr ms"
    by (auto simp: on_host_iff bounded_branch_messages_def thenR_Inr_iff split: if_split_asm)
      (metis fst_conv)
  have es: "read_branch_file rd from_slice saved (sr_entries r)"
    unfolding read_branch_file_def using f(1) r by blast
  from r(3) obtain p where "branch_walk (sr_entries r) [] leaf [] = Inr p" "collect_messages (rev p) = Inr ms"
    by (auto simp: branch_messages_from_entries_def bindR_Inr_iff)
  then have p: "branch_path (sr_entries r) leaf p" "collect_messages (rev p) = Inr ms"
    by (simp_all add: branch_walk_exact)
  have leaf: "fst (leaf_request rd (fst st)) = Inr leaf" using f(2) by (simp add: on_host_iff)
  from push_windows_sound [OF f(4) order_refl] assms(2) spool
  obtain qs where "holds ser (snd st') qs" "concat (rev qs) = ms" by force
  with p es leaf show ?thesis by blast
qed

lemma holds_new [simp]: "holds ser new_spool []"
  by (simp add: holds_def new_spool_def)

section \<open>A truthful host\<close>

definition newest :: "nat \<Rightarrow> 'a list \<Rightarrow> 'a list" where
  "newest n xs = drop (length xs - n) xs"

function newest_windows :: "json list \<Rightarrow> json list list" where
  "newest_windows xs =
     (if length xs \<le> MAX_PAGE_MESSAGES then [xs]
      else newest MAX_PAGE_MESSAGES xs # newest_windows (take (length xs - MAX_PAGE_MESSAGES) xs))"
  by pat_completeness auto
termination
  by (relation "measure length") (auto simp: MAX_PAGE_MESSAGES_def)

declare newest_windows.simps [simp del]

lemma concat_windows: "concat (rev (newest_windows xs)) = xs"
proof (induction xs rule: newest_windows.induct)
  case (1 xs)
  then show ?case
    by (cases "length xs \<le> MAX_PAGE_MESSAGES") (subst newest_windows.simps, simp add: newest_def)+
qed

text \<open>The messages before an entry, all of them without one.\<close>

definition up_to :: "json list \<Rightarrow> string option \<Rightarrow> json list" where
  "up_to B before_id = (case before_id of None \<Rightarrow> B | Some i \<Rightarrow> takeWhile (\<lambda>m. entry_id m \<noteq> Some i) B)"

definition page_reply :: "string option \<Rightarrow> json list \<Rightarrow> nat \<Rightarrow> string option \<Rightarrow> json" where
  "page_reply leaf B lim before_id =
     (let ms = newest lim (up_to B before_id) in
      JObj [(''leafId'', jopt leaf), (''total'', JUint (of_nat (length B))), (''beforeId'', jopt before_id),
        (''firstId'', jopt (head_id ms)), (''lastId'', jopt (head_id (rev ms))),
        (''hasMore'', JBool (lim < length (up_to B before_id))), (''messages'', JArr ms)])"

definition truthful :: "'h history_host \<Rightarrow> string option \<Rightarrow> json list \<Rightarrow> u64 \<Rightarrow> bool" where
  "truthful rd leaf B bound \<longleftrightarrow>
     (\<forall>h b lim. b \<in> insert None (entry_id ` set B) \<longrightarrow> lim \<le> MAX_PAGE_MESSAGES \<longrightarrow>
        (\<exists>h'. ask rd ''get_messages'' (page_request lim b) h = (Inr (page_reply leaf B lim b), h')))
     \<and> (\<forall>h. \<exists>h'. still_active rd h = (Inr (), h')) \<and> (\<forall>h. \<exists>h'. boundary_of rd h = (Inr bound, h'))"

definition valid_id :: "string \<Rightarrow> bool" where
  "valid_id i \<longleftrightarrow> i \<noteq> [] \<and> length i \<le> 1024"

definition branch_ok :: "string option \<Rightarrow> json list \<Rightarrow> bool" where
  "branch_ok leaf B \<longleftrightarrow>
     list_all (\<lambda>m. (case entry_id m of None \<Rightarrow> False | Some i \<Rightarrow> valid_id i) \<and> as_str (jidx ''role'' m) \<noteq> None) B
     \<and> distinct (map entry_id B) \<and> length B < 2 ^ 64
     \<and> (case leaf of None \<Rightarrow> B = [] | Some l \<Rightarrow> valid_id l)"

definition branch_fits :: "(json \<Rightarrow> string) \<Rightarrow> string option \<Rightarrow> json list \<Rightarrow> bool" where
  "branch_fits ser leaf B \<longleftrightarrow>
     (\<forall>b lim. b \<in> insert None (entry_id ` set B) \<longrightarrow> lim \<le> MAX_PAGE_MESSAGES \<longrightarrow> length (ser (page_reply leaf B lim b)) \<le> MAX_PAGE_BYTES)
     \<and> list_all (page_fits ser) (newest_windows B)
     \<and> length (concat (map (page_bytes ser) (newest_windows B))) \<le> MAX_SPOOL_BYTES"

lemma truthful_ask: "truthful rd leaf B bound \<Longrightarrow> b \<in> insert None (entry_id ` set B) \<Longrightarrow> lim \<le> MAX_PAGE_MESSAGES \<Longrightarrow>
    \<exists>h'. ask rd ''get_messages'' (page_request lim b) h = (Inr (page_reply leaf B lim b), h')"
  unfolding truthful_def by blast

lemma asked: "B = A @ C \<Longrightarrow> b = (if C = [] then None else head_id C) \<Longrightarrow> b \<in> insert None (entry_id ` set B)"
  by (cases C) (auto simp: head_id_def)

lemma optional_id_jopt: "(\<And>i. m = Some i \<Longrightarrow> valid_id i) \<Longrightarrow> optional_id (JObj kvs) k = Inr m"
  if "map_of kvs k = Some (jopt m)"
  using that by (cases m) (auto simp: optional_id_def jopt_def valid_id_def)

lemma check_entries_ok:
  "list_all (\<lambda>m. (case entry_id m of None \<Rightarrow> False | Some i \<Rightarrow> valid_id i) \<and> as_str (jidx ''role'' m) \<noteq> None) ms \<Longrightarrow>
    distinct (map entry_id ms) \<Longrightarrow> b \<notin> entry_id ` set ms \<or> b = None \<Longrightarrow> Some ` set seen \<inter> entry_id ` set ms = {} \<Longrightarrow>
    check_entries b seen ms = Inr ()"
proof (induction ms arbitrary: seen)
  case (Cons m ms)
  then obtain i where i: "entry_id m = Some i" "valid_id i" by (auto split: option.splits)
  have "check_entries b (i # seen) ms = Inr ()"
    using Cons.prems i(1) by (intro Cons.IH) (auto simp: image_iff)
  moreover have "Some i \<noteq> b" "i \<notin> set seen" using Cons.prems i(1) by auto
  ultimately show ?case using Cons.prems i by (auto simp: valid_id_def)
qed simp

lemma head_id_map: "map entry_id ms = map Some ids \<Longrightarrow> head_id ms = (case ids of [] \<Rightarrow> None | i # _ \<Rightarrow> Some i)"
  by (cases ms; cases ids) (auto simp: head_id_def)

lemma branch_ok_ids:
  assumes "branch_ok leaf B"
  obtains ids where "map entry_id B = map Some ids" "distinct ids" "list_all valid_id ids"
proof -
  have "list_all (\<lambda>m. \<exists>i. entry_id m = Some i \<and> valid_id i) B"
    using assms by (auto simp: branch_ok_def list_all_iff split: option.splits)
  then have "\<exists>ids. map entry_id B = map Some ids \<and> list_all valid_id ids"
  proof (induction B)
    case (Cons m B)
    then obtain i ids where "entry_id m = Some i" "valid_id i" "map entry_id B = map Some ids" "list_all valid_id ids"
      by auto
    then show ?case by (intro exI [of _ "i # ids"]) simp
  qed simp
  then obtain ids where ids: "map entry_id B = map Some ids" "list_all valid_id ids" by blast
  moreover have "distinct ids" using assms ids(1) by (simp add: branch_ok_def distinct_map)
  ultimately show ?thesis using that by blast
qed

lemma head_id_valid: "branch_ok leaf B \<Longrightarrow> set ms \<subseteq> set B \<Longrightarrow> head_id ms = Some i \<Longrightarrow> valid_id i"
  by (cases ms) (auto simp: head_id_def branch_ok_def list_all_iff)

lemma up_to_before:
  assumes "branch_ok leaf B" and "B = A @ C" and "b = head_id C" and "C \<noteq> []"
  shows "up_to B b = A"
proof -
  obtain m C' i where C: "C = m # C'" "b = Some i" "entry_id m = Some i"
    using assms by (cases C) (auto simp: head_id_def branch_ok_def list_all_iff split: option.splits)
  have "\<forall>x\<in>set A. entry_id x \<noteq> Some i"
  proof -
    have "distinct (map entry_id (A @ m # C'))" using assms(1,2) C(1) by (simp add: branch_ok_def)
    then have "entry_id m \<notin> entry_id ` set A" by auto
    then show ?thesis using C(3) by (metis image_eqI)
  qed
  then show ?thesis using assms(2) C by (simp add: up_to_def)
qed

definition reply_page :: "string option \<Rightarrow> json list \<Rightarrow> nat \<Rightarrow> json list \<Rightarrow> message_page" where
  "reply_page leaf B lim A =
     \<lparr>pg_messages = newest lim A, pg_anchor = \<lparr>leaf_id = leaf, anchor_total = of_nat (length B)\<rparr>,
      first_id = head_id (newest lim A), last_id = head_id (rev (newest lim A)), has_more = (lim < length A)\<rparr>"

lemma newest_set: "set (newest n xs) \<subseteq> set xs"
  by (simp add: newest_def set_drop_subset)

lemma validate_reply:
  assumes "branch_ok leaf B" and "branch_fits ser leaf B" and "1 \<le> lim" and "lim \<le> MAX_PAGE_MESSAGES"
    and "B = A @ C" and "b = (if C = [] then None else head_id C)"
    and "expected = None \<or> expected = Some \<lparr>leaf_id = leaf, anchor_total = of_nat (length B)\<rparr>"
  shows "validate_page ser (page_reply leaf B lim b) b lim expected = Inr (reply_page leaf B lim A)"
proof -
  have up: "up_to B b = A"
    using up_to_before [OF assms(1,5)] assms(5,6) by (cases "C = []") (auto simp: up_to_def)
  let ?ms = "newest lim A" and ?r = "page_reply leaf B lim b"
  have sub: "set ?ms \<subseteq> set B" "set (rev ?ms) \<subseteq> set B" "set C \<subseteq> set B" using newest_set [of lim A] assms(5) by auto
  have len: "length ?ms = min lim (length A)" by (auto simp: newest_def)
  have tot: "unat (of_nat (length B) :: u64) = length B"
    using assms(1) by (simp add: branch_ok_def unat_of_nat take_bit_nat_eq_self)
  have "length (ser ?r) \<le> MAX_PAGE_BYTES"
    using assms(2,4) asked [OF assms(5,6)] unfolding branch_fits_def by blast
  then have bytes: "bounded_json ser ?r = Inr (ser ?r)" by (simp add: bounded_json_def)
  have r: "?r = JObj [(''leafId'', jopt leaf), (''total'', JUint (of_nat (length B))), (''beforeId'', jopt b),
      (''firstId'', jopt (head_id ?ms)), (''lastId'', jopt (head_id (rev ?ms))),
      (''hasMore'', JBool (lim < length A)), (''messages'', JArr ?ms)]"
    by (simp add: page_reply_def up Let_def)
  have leaf: "optional_id ?r ''leafId'' = Inr leaf" unfolding r
    using assms(1) by (intro optional_id_jopt) (auto simp: branch_ok_def)
  have echo: "optional_id ?r ''beforeId'' = Inr b" unfolding r
    using head_id_valid [OF assms(1) sub(3)] assms(6) by (intro optional_id_jopt) (auto split: if_split_asm)
  have first: "optional_id ?r ''firstId'' = Inr (head_id ?ms)" unfolding r
    using head_id_valid [OF assms(1) sub(1)] by (intro optional_id_jopt) auto
  have last: "optional_id ?r ''lastId'' = Inr (head_id (rev ?ms))" unfolding r
    using head_id_valid [OF assms(1) sub(2)] by (intro optional_id_jopt) auto
  have "b \<notin> entry_id ` set A \<or> b = None"
    using assms(1,5,6) by (cases C) (auto simp: head_id_def branch_ok_def)
  then have ids: "check_entries b [] ?ms = Inr ()"
  proof (intro check_entries_ok)
    show "distinct (map entry_id ?ms)"
      using assms(1,5) by (simp add: branch_ok_def newest_def drop_map [symmetric])
  qed (use assms(1,5) newest_set [of lim A] in \<open>auto simp: branch_ok_def list_all_iff\<close>)
  have leaf_there: "0 < (of_nat (length B) :: u64) \<longrightarrow> leaf \<noteq> None"
    using assms(1) by (auto simp: branch_ok_def split: option.splits)
  have counts: "counts_agree (length ?ms) lim (length B) (b = None) (lim < length A)"
  proof (cases "C = []")
    case True
    then show ?thesis using assms(5,6) len by (auto simp: counts_agree_def)
  next
    case False
    then have "b \<noteq> None" using assms(1,5,6) by (cases C) (auto simp: head_id_def branch_ok_def split: option.splits)
    then show ?thesis using assms(5) len False by (auto simp: counts_agree_def)
  qed
  have "lim < length A \<longrightarrow> ?ms \<noteq> []" using len assms(3) by auto
  then show ?thesis
    using assms(3,4,7) bytes leaf leaf_there echo first last ids counts tot
    by (auto simp: validate_page_def r jidx_def reply_page_def check_def)
qed

text \<open>A page that fits is pushed when the file does not fail.\<close>

lemma push_page_total:
  assumes "page_fits ser ms" and "sp_end s + length (page_bytes ser ms) \<le> MAX_SPOOL_BYTES"
  shows "\<exists>t. push_page ser (\<lambda>_. None) ms s = (Inr (), t)"
  using assms
  by (simp add: push_page_def page_fits_def page_bytes_def bounded_json_def not_less seek_def write_all_def io_op_def
      put_bytes_def)

lemma push_page_end: "push_page ser io ms s = (Inr (), t) \<Longrightarrow> sp_end t = sp_end s + length (page_bytes ser ms)"
  by (auto simp: push_page_def bounded_json_def thenR_Inr_iff page_bytes_def split: if_split_asm
      dest!: write_all_ok seek_frame [where n = 0] simp: same_upto_def)

lemma windows_long:
  "MAX_PAGE_MESSAGES < length A \<Longrightarrow>
    newest_windows A = newest MAX_PAGE_MESSAGES A # newest_windows (take (length A - MAX_PAGE_MESSAGES) A)"
  by (subst newest_windows.simps) simp

lemma windows_short: "length A \<le> MAX_PAGE_MESSAGES \<Longrightarrow> newest_windows A = [A]"
  by (subst newest_windows.simps) simp

lemma newest_short: "length A \<le> n \<Longrightarrow> newest n A = A"
  by (simp add: newest_def)

definition seen_of :: "json list \<Rightarrow> string list \<Rightarrow> bool" where
  "seen_of C seen \<longleftrightarrow> Some ` set seen = entry_id ` set C \<and> length seen = length C"

lemma take_page_ok:
  assumes "truthful rd leaf B bound" and "branch_ok leaf B" and "branch_fits ser leaf B"
    and "B = A @ C" and "b = (if C = [] then None else head_id C)"
    and "anchor = None \<or> anchor = Some \<lparr>leaf_id = leaf, anchor_total = of_nat (length B)\<rparr>"
    and "seen_of C seen" and "page_fits ser (newest MAX_PAGE_MESSAGES A)"
    and "sp_end (snd st) + length (page_bytes ser (newest MAX_PAGE_MESSAGES A)) \<le> MAX_SPOOL_BYTES"
  shows "\<exists>seen' st'. take_page rd ser (\<lambda>_. None) b anchor seen st = (Inr (reply_page leaf B MAX_PAGE_MESSAGES A, seen'), st')
    \<and> seen_of (newest MAX_PAGE_MESSAGES A @ C) seen'"
proof -
  let ?p = "reply_page leaf B MAX_PAGE_MESSAGES A" and ?n = "newest MAX_PAGE_MESSAGES A"
  obtain h1 where h1: "ask rd ''get_messages'' (page_request MAX_PAGE_MESSAGES b) (fst st)
      = (Inr (page_reply leaf B MAX_PAGE_MESSAGES b), h1)"
    using truthful_ask [OF assms(1) asked [OF assms(4,5)] order_refl] by blast
  obtain h2 where h2: "still_active rd h1 = (Inr (), h2)" using assms(1) unfolding truthful_def by blast
  obtain h3 where h3: "still_active rd h2 = (Inr (), h3)" using assms(1) unfolding truthful_def by blast
  have valid: "validate_page ser (page_reply leaf B MAX_PAGE_MESSAGES b) b MAX_PAGE_MESSAGES anchor = Inr ?p"
    by (rule validate_reply [OF assms(2,3) _ _ assms(4-6)]) (simp_all add: MAX_PAGE_MESSAGES_def)
  then have own: "ids_of ?n (page_ids ?p)"
    using page_ids_of [OF validate_page_good [OF valid]] by (simp add: reply_page_def)
  obtain ids where ids: "map entry_id B = map Some ids" "distinct ids" by (rule branch_ok_ids [OF assms(2)])
  have B: "B = take (length A - MAX_PAGE_MESSAGES) A @ ?n @ C" using assms(4) by (simp add: newest_def)
  have dist: "distinct (map entry_id (?n @ C))" using assms(2) B by (metis branch_ok_def distinct_append map_append)
  have same: "Some ` set (page_ids ?p) = entry_id ` set ?n" "length (page_ids ?p) = length ?n"
    using arg_cong [OF own [unfolded ids_of_def], of set] by (auto simp: page_ids_def reply_page_def)
  have "distinct (map Some (page_ids ?p))" using dist own unfolding ids_of_def by (metis distinct_append map_append)
  then have "distinct (page_ids ?p)" by (simp add: distinct_map)
  moreover have "Some ` set (page_ids ?p) \<inter> Some ` set seen = {}"
    using dist same(1) assms(7) by (simp add: seen_of_def)
  ultimately have ins: "insert_ids (page_ids ?p) seen = Inr (rev (page_ids ?p) @ seen)"
    by (auto simp: insert_ids_Inr)
  have seen: "length (rev (page_ids ?p) @ seen) = length ?n + length C"
    using same(2) assms(7) by (simp add: seen_of_def)
  have tot: "unat (of_nat (length B) :: u64) = length B"
    using assms(2) by (simp add: branch_ok_def unat_of_nat take_bit_nat_eq_self)
  have "length ?n + length C \<le> length B" "MAX_PAGE_MESSAGES < length A \<longrightarrow> length ?n + length C < length B"
    using assms(4) by (auto simp: newest_def MAX_PAGE_MESSAGES_def)
  then have prog: "progress ?p (rev (page_ids ?p) @ seen) = Inr ()"
    unfolding progress_def seen by (auto simp: reply_page_def tot not_less not_le)
  obtain t where "push_page ser (\<lambda>_. None) ?n (snd st) = (Inr (), t)"
    using push_page_total [OF assms(8,9)] by blast
  then have "take_page rd ser (\<lambda>_. None) b anchor seen st = (Inr (?p, rev (page_ids ?p) @ seen), (h3, t))"
    using h1 h2 h3 valid ins prog
    by (simp add: take_page_def read_page_def on_host_def on_spool_def MAX_PAGE_MESSAGES_def)
       (simp add: reply_page_def MAX_PAGE_MESSAGES_def)
  moreover have "seen_of (?n @ C) (rev (page_ids ?p) @ seen)"
    using same assms(7) by (simp add: seen_of_def image_Un)
  ultimately show ?thesis by blast
qed

lemma page_loop_truthful:
  assumes "truthful rd leaf B bound" and "branch_ok leaf B" and "branch_fits ser leaf B"
    and "B = A @ C" and "b = (if C = [] then None else head_id C)"
    and "anchor = None \<or> anchor = Some \<lparr>leaf_id = leaf, anchor_total = of_nat (length B)\<rparr>"
    and "seen_of C seen" and "holds ser (snd st) ps" and "list_all (page_fits ser) (newest_windows A)"
    and "sp_end (snd st) + length (concat (map (page_bytes ser) (newest_windows A))) \<le> MAX_SPOOL_BYTES"
  shows "\<exists>st'. page_loop rd ser (\<lambda>_. None) b anchor seen st = (Inr (), st') \<and> holds ser (snd st') (ps @ newest_windows A)"
  using assms(4-10)
proof (induction A arbitrary: C b anchor seen st ps rule: newest_windows.induct)
  case (1 A)
  let ?n = "newest MAX_PAGE_MESSAGES A" and ?older = "take (length A - MAX_PAGE_MESSAGES) A"
  let ?anchor = "\<lparr>leaf_id = leaf, anchor_total = of_nat (length B)\<rparr>"
  have first: "page_fits ser ?n" "sp_end (snd st) + length (page_bytes ser ?n) \<le> MAX_SPOOL_BYTES"
    using "1.prems"(6,7)
    by (cases "length A \<le> MAX_PAGE_MESSAGES"; simp add: windows_short windows_long newest_short)+
  obtain seen' st1 where t: "take_page rd ser (\<lambda>_. None) b anchor seen st = (Inr (reply_page leaf B MAX_PAGE_MESSAGES A, seen'), st1)"
    and seen': "seen_of (?n @ C) seen'"
    using take_page_ok [OF assms(1-3) "1.prems"(1-4) first] by blast
  have "push_page ser (\<lambda>_. None) ?n (snd st) = (Inr (), snd st1)"
    using take_page_facts [OF t] by (simp add: reply_page_def)
  then have push: "holds ser (snd st1) (ps @ [?n])" "sp_end (snd st1) = sp_end (snd st) + length (page_bytes ser ?n)"
    using push_page_ok [OF _ "1.prems"(5)] push_page_end by auto
  show ?case
  proof (cases "MAX_PAGE_MESSAGES < length A")
    case True
    have nonempty: "?n \<noteq> []" using True by (auto simp: newest_def MAX_PAGE_MESSAGES_def)
    have "\<exists>st'. page_loop rd ser (\<lambda>_. None) (head_id ?n) (Some ?anchor) seen' st1 = (Inr (), st')
        \<and> holds ser (snd st') ((ps @ [?n]) @ newest_windows ?older)"
    proof (rule "1.IH" [where C = "?n @ C"])
      show "\<not> length A \<le> MAX_PAGE_MESSAGES" using True by simp
      show "B = ?older @ ?n @ C" using "1.prems"(1) by (simp add: newest_def)
      show "head_id ?n = (if ?n @ C = [] then None else head_id (?n @ C))"
        using nonempty by (cases ?n) (auto simp: head_id_def)
      show "list_all (page_fits ser) (newest_windows ?older)" using "1.prems"(6) windows_long [OF True] by simp
      show "sp_end (snd st1) + length (concat (map (page_bytes ser) (newest_windows ?older))) \<le> MAX_SPOOL_BYTES"
        using "1.prems"(7) push(2) windows_long [OF True] by simp
    qed (use seen' push(1) in auto)
    then show ?thesis using t True windows_long [OF True]
      by (subst page_loop.simps) (simp add: reply_page_def)
  next
    case False
    have all: "length seen' = length B"
      using seen' False "1.prems"(1) by (simp add: newest_short seen_of_def)
    have tot: "unat (of_nat (length B) :: u64) = length B"
      using assms(2) by (simp add: branch_ok_def unat_of_nat take_bit_nat_eq_self)
    obtain h1 where h1: "ask rd ''get_messages'' (page_request 1 None) (fst st1) = (Inr (page_reply leaf B 1 None), h1)"
      using truthful_ask [OF assms(1), of None 1] by (auto simp: MAX_PAGE_MESSAGES_def)
    obtain h2 where h2: "still_active rd h1 = (Inr (), h2)" using assms(1) unfolding truthful_def by blast
    have "validate_page ser (page_reply leaf B 1 None) None 1 (Some ?anchor) = Inr (reply_page leaf B 1 B)"
      by (rule validate_reply [OF assms(2,3), where C = "[]"]) (simp_all add: MAX_PAGE_MESSAGES_def)
    then have "on_host (read_page rd ser None (Some ?anchor) 1) st1 = (Inr (reply_page leaf B 1 B), (h2, snd st1))"
      using h1 h2 by (simp add: on_host_def read_page_def MAX_PAGE_MESSAGES_def)
    then have "page_loop rd ser (\<lambda>_. None) b anchor seen st = (Inr (), (h2, snd st1))"
      using t False all tot by (subst page_loop.simps) (simp add: reply_page_def)
    then show ?thesis using push(1) False by (simp add: windows_short newest_short)
  qed
qed

lemma verify_truthful: "truthful rd leaf B bound \<Longrightarrow> \<exists>h'. verify_boundary rd bound h = (Inr (), h')"
proof -
  assume t: "truthful rd leaf B bound"
  obtain h1 where h1: "still_active rd h = (Inr (), h1)" using t unfolding truthful_def by blast
  obtain h2 where h2: "boundary_of rd h1 = (Inr bound, h2)" using t unfolding truthful_def by blast
  obtain h3 where h3: "still_active rd h2 = (Inr (), h3)" using t unfolding truthful_def by blast
  from h1 h2 h3 show ?thesis by (simp add: verify_boundary_def)
qed

lemma prepare_truthful:
  assumes "truthful rd leaf B bound" and "branch_ok leaf B" and "branch_fits ser leaf B"
  shows "\<exists>st. prepare rd ser from_slice (\<lambda>_. None) bound True saved h = (Inr (), st)
    \<and> holds ser (snd st) (newest_windows B)"
proof -
  have "\<exists>st. page_loop rd ser (\<lambda>_. None) None None [] (h, new_spool) = (Inr (), st)
      \<and> holds ser (snd st) ([] @ newest_windows B)"
    by (rule page_loop_truthful [OF assms, where C = "[]"])
       (use assms(3) in \<open>simp_all add: seen_of_def branch_fits_def\<close>, simp add: new_spool_def)
  then obtain st where st: "page_loop rd ser (\<lambda>_. None) None None [] (h, new_spool) = (Inr (), st)"
    "holds ser (snd st) (newest_windows B)" by auto
  obtain h' where "verify_boundary rd bound (fst st) = (Inr (), h')" using verify_truthful [OF assms(1)] by blast
  with st show ?thesis by (simp add: prepare_def on_host_def)
qed

lemma drained_pages:
  "codec ser decode \<Longrightarrow> holds ser s ps \<Longrightarrow> drained (pop_page decode io) s pages t \<Longrightarrow> pages = rev ps"
  using page_stack.drained_rep [OF spool_stack] by blast

end
