(* ===== verification/History_Claims.thy ===== *)
theory History_Claims
  imports History_Correct "HOL-Library.Countable"
begin

text \<open>
  What a client of the history relies on, and a serializer with its decoder on which the interfaces are
  interpreted: the values of a list are written with as many letters as their place in it says, any other value with
  more.
\<close>

section \<open>Serializers\<close>

locale json_codec =
  fixes ser :: "json \<Rightarrow> string" and decode :: "string \<Rightarrow> string + json list"
  assumes decode_ser: "codec ser decode"

sublocale json_codec \<subseteq> spool: page_stack "push_page ser io" "pop_page decode io'" "holds ser"
  for io io' by (rule spool_stack [OF decode_ser])

instance json :: countable
  by countable_datatype

definition place :: "json \<Rightarrow> json list \<Rightarrow> nat" where
  "place v known = length (takeWhile (\<lambda>w. w \<noteq> v) known)"

definition demo_ser :: "json list \<Rightarrow> json \<Rightarrow> string" where
  "demo_ser known v =
     (if v \<in> set known then replicate (place v known) CHR ''x''
      else replicate (length known + to_nat v) CHR ''x'')"

definition demo_decode :: "json list \<Rightarrow> string \<Rightarrow> string + json list" where
  "demo_decode known s =
     (case (if length s < length known then known ! length s else from_nat (length s - length known)) of
        JArr ms \<Rightarrow> Inr ms | _ \<Rightarrow> Inl ''no array'')"

lemma place_known: "v \<in> set known \<Longrightarrow> place v known < length known \<and> known ! place v known = v"
  by (induction known) (auto simp: place_def)

lemma demo_codec: "codec (demo_ser known) (demo_decode known)"
  using place_known [of _ known] by (auto simp: codec_def demo_ser_def demo_decode_def)

interpretation demo: json_codec "demo_ser known" "demo_decode known"
  by unfold_locales (rule demo_codec)

section \<open>A branch of two messages\<close>

definition demo_message :: "string \<Rightarrow> json" where
  "demo_message i = JObj [(''entryId'', JStr i), (''role'', JStr ''user'')]"

definition demo_branch :: "json list" where
  "demo_branch = [demo_message ''a'', demo_message ''b'']"

definition demo_host :: "unit history_host" where
  "demo_host = \<lparr>ask = \<lambda>_ request h.
       (Inr (page_reply (Some ''b'') demo_branch (case jidx ''limit'' request of JUint n \<Rightarrow> unat n | _ \<Rightarrow> 0)
         (case jidx ''beforeId'' request of JStr i \<Rightarrow> Some i | _ \<Rightarrow> None)), h),
     still_active = \<lambda>h. (Inr (), h), boundary_of = \<lambda>h. (Inr 7, h)\<rparr>"

definition demo_known :: "json list" where
  "demo_known = JArr demo_branch # map (\<lambda>(b, n). page_reply (Some ''b'') demo_branch n b)
     (List.product [None, Some ''a'', Some ''b''] [0..<129])"

lemma demo_asked: "b \<in> insert None (entry_id ` set demo_branch) \<longleftrightarrow> b \<in> {None, Some ''a'', Some ''b''}"
  by (auto simp: demo_branch_def demo_message_def entry_id_def jidx_def)

lemma demo_truthful: "truthful demo_host (Some ''b'') demo_branch 7"
proof -
  have ask: "ask demo_host ''get_messages'' (page_request lim b) h = (Inr (page_reply (Some ''b'') demo_branch lim b), h)"
    if "lim \<le> MAX_PAGE_MESSAGES" for h b lim
  proof -
    have "unat (of_nat lim :: u64) = lim"
      using that by (simp add: MAX_PAGE_MESSAGES_def unat_of_nat take_bit_nat_eq_self)
    then show ?thesis by (cases b) (simp_all add: demo_host_def page_request_def jidx_def jopt_def)
  qed
  show ?thesis unfolding truthful_def using ask by (auto simp: demo_host_def)
qed

lemma demo_branch_ok: "branch_ok (Some ''b'') demo_branch"
  by (simp add: branch_ok_def demo_branch_def demo_message_def entry_id_def jidx_def valid_id_def)

lemma length_known: "v \<in> set demo_known \<Longrightarrow> length (demo_ser demo_known v) < 388"
  using place_known [of v demo_known]
  by (simp add: demo_ser_def) (simp add: demo_known_def length_product)

lemma demo_windows: "newest_windows demo_branch = [demo_branch]"
  by (rule windows_short) (simp add: demo_branch_def MAX_PAGE_MESSAGES_def)

lemma demo_fits: "branch_fits (demo_ser demo_known) (Some ''b'') demo_branch"
proof -
  have "length (demo_ser demo_known (page_reply (Some ''b'') demo_branch lim b)) \<le> MAX_PAGE_BYTES"
    if "b \<in> insert None (entry_id ` set demo_branch)" "lim \<le> MAX_PAGE_MESSAGES" for b lim
  proof -
    have "(b, lim) \<in> set (List.product [None, Some ''a'', Some ''b''] [0..<129])"
      using that unfolding demo_asked by (auto simp: MAX_PAGE_MESSAGES_def)
    then have "page_reply (Some ''b'') demo_branch lim b \<in> set demo_known" unfolding demo_known_def by force
    then show ?thesis using length_known by (fastforce simp: MAX_PAGE_BYTES_def)
  qed
  moreover have "length (demo_ser demo_known (JArr demo_branch)) < 388"
    by (rule length_known) (simp add: demo_known_def)
  ultimately show ?thesis unfolding branch_fits_def demo_windows
    by (auto simp: page_fits_def page_bytes_def MAX_PAGE_BYTES_def MAX_SPOOL_BYTES_def MAX_PAGE_MESSAGES_def demo_branch_def)
qed

section \<open>The claims\<close>

text \<open>C27. The spool is a stack of pages, whatever its file does: a push that succeeds puts its page on
  top, a pop that succeeds removes the top page and returns it as it was pushed, and an operation that
  fails, at whatever step and with whatever part of a write done, leaves the stack as it was. Validation
  never changes the stack, and when it succeeds its callback has accepted every message, from the oldest page on, in order.\<close>

theorem spool_is_stack:
  assumes "codec ser decode" and "holds ser s ps"
  shows "(case push_page ser io ms s of
        (Inr _, t) \<Rightarrow> holds ser t (ps @ [ms]) | (Inl _, t) \<Rightarrow> holds ser t ps)
    \<and> (case pop_page decode io s of
        (Inr None, t) \<Rightarrow> ps = [] \<and> holds ser t ps
      | (Inr (Some q), t) \<Rightarrow> ps \<noteq> [] \<and> q = last ps \<and> holds ser t (butlast ps)
      | (Inl _, t) \<Rightarrow> holds ser t ps)
    \<and> (case validate_spool decode io late chk c s of
        (r, c', t) \<Rightarrow> holds ser t ps \<and> (r = Inr () \<longrightarrow> run_checks chk (concat (rev ps)) c = (Inr (), c')))"
proof (intro conjI)
  show "case push_page ser io ms s of (Inr _, t) \<Rightarrow> holds ser t (ps @ [ms]) | (Inl _, t) \<Rightarrow> holds ser t ps"
    using push_page_ok [OF _ assms(2)] holds_same [OF assms(2) push_page_frame [OF _ holds_length [OF assms(2)]]]
    by (auto split: prod.split sum.split)
next
  show "case pop_page decode io s of
        (Inr None, t) \<Rightarrow> ps = [] \<and> holds ser t ps
      | (Inr (Some q), t) \<Rightarrow> ps \<noteq> [] \<and> q = last ps \<and> holds ser t (butlast ps)
      | (Inl _, t) \<Rightarrow> holds ser t ps"
    using pop_page_holds [OF _ assms(2,1)] assms(2) by (fastforce split: prod.split sum.split option.split)
next
  show "case validate_spool decode io late chk c s of
        (r, c', t) \<Rightarrow> holds ser t ps \<and> (r = Inr () \<longrightarrow> run_checks chk (concat (rev ps)) c = (Inr (), c'))"
  proof -
    obtain r c' t where v: "validate_spool decode io late chk c s = (r, c', t)"
      by (cases "validate_spool decode io late chk c s")
    from validate_spool_reads [OF v assms] show ?thesis by (simp add: v)
  qed
qed

lemma demo_page_fits: "page_fits (demo_ser demo_known) demo_branch"
  using demo_fits by (simp add: branch_fits_def demo_windows)

theorem spool_is_stack_witness:
  "\<exists>t. push_page (demo_ser demo_known) (\<lambda>_. None) demo_branch new_spool = (Inr (), t)
    \<and> holds (demo_ser demo_known) t [demo_branch]"
proof -
  have "length (demo_ser demo_known (JArr demo_branch)) < 388"
    by (rule length_known) (simp add: demo_known_def)
  then have "sp_end new_spool + length (page_bytes (demo_ser demo_known) demo_branch) \<le> MAX_SPOOL_BYTES"
    by (simp add: new_spool_def page_bytes_def MAX_SPOOL_BYTES_def)
  from push_page_total [OF demo_page_fits this] obtain t where
    t: "push_page (demo_ser demo_known) (\<lambda>_. None) demo_branch new_spool = (Inr (), t)" by blast
  from conjunct1 [OF spool_is_stack [OF demo_codec [of demo_known] holds_new, where io = "\<lambda>_. None" and ms = demo_branch]] t
  show ?thesis by simp
qed

text \<open>C13. A prepared history is complete, whatever the host answered on the way. When the preparation
  succeeds and the spool is read back, then every page has at most 128 messages and fits its byte budget, and the
  pages, from the oldest on, hold either messages with pairwise different entry ids, exactly as many
  as the host named when it was asked once more at the end, or, where the host has no pages, the messages
  on the path from the leaf the host named to the root, in the entries of the saved file.\<close>

theorem prepared_history_sound:
  assumes "prepare rd ser from_slice io bound paged saved h = (Inr (), st)" and "codec ser decode"
    and "drained (pop_page decode io') (snd st) pages t"
  shows "list_all (page_fits ser) pages
    \<and> (if paged then \<exists>ids n. ids_of (concat pages) ids \<and> distinct ids \<and> length ids = unat n \<and> host_total rd n
       else \<exists>es leaf h' p. read_branch_file rd from_slice saved es \<and> fst (leaf_request rd h') = Inr leaf
         \<and> branch_path es leaf p \<and> collect_messages (rev p) = Inr (concat pages))"
proof -
  obtain st1 where st1: "(if paged then page_loop rd ser io None None [] (h, new_spool)
      else prepare_fallback rd ser from_slice io saved (h, new_spool)) = (Inr (), st1)" "snd st = snd st1"
    using assms(1) by (auto simp: prepare_def thenR_Inr_iff on_host_iff)
  have whole: "pages = rev qs \<and> list_all (page_fits ser) pages" if "holds ser (snd st) qs" for qs
    using drained_pages [OF assms(2) that assms(3)] holdsD(2) [OF that] by simp
  show ?thesis
  proof (cases paged)
    case True
    then have "page_loop rd ser io None None [] (h, new_spool) = (Inr (), st1)" using st1(1) by simp
    from page_loop_sound [OF this, of "[]"] obtain qs ids n where "holds ser (snd st) qs"
      "ids_of (concat (rev qs)) ids" "distinct ids" "length ids = unat n" "host_total rd n"
      using st1(2) by auto
    with whole [of qs] True show ?thesis by auto
  next
    case False
    then have "prepare_fallback rd ser from_slice io saved (h, new_spool) = (Inr (), st1)" using st1(1) by simp
    from prepare_fallback_sound [OF this] obtain qs es leaf h' p where "holds ser (snd st) qs"
      "read_branch_file rd from_slice saved es" "fst (leaf_request rd h') = Inr leaf" "branch_path es leaf p"
      "collect_messages (rev p) = Inr (concat (rev qs))"
      using st1(2) by auto
    with whole [of qs] False show ?thesis by auto
  qed
qed

theorem prepared_history_sound_witness:
  "\<exists>st pages t n ids. prepare demo_host (demo_ser demo_known) (\<lambda>_. Inl ''no JSON'') (\<lambda>_. None) 7 True None () = (Inr (), st)
    \<and> drained (pop_page (demo_decode demo_known) (\<lambda>_. None)) (snd st) pages t
    \<and> ids_of (concat pages) ids \<and> length ids = unat n \<and> host_total demo_host n"
proof -
  obtain st where st: "prepare demo_host (demo_ser demo_known) (\<lambda>_. Inl ''no JSON'') (\<lambda>_. None) 7 True None () = (Inr (), st)"
    "holds (demo_ser demo_known) (snd st) (newest_windows demo_branch)"
    using prepare_truthful [OF demo_truthful demo_branch_ok demo_fits] by blast
  obtain t where "drained (pop_page (demo_decode demo_known) (\<lambda>_. None)) (snd st) (rev (newest_windows demo_branch)) t"
    using drained_total [OF demo_codec st(2)] by blast
  with prepared_history_sound [OF st(1) demo_codec this] st(1) show ?thesis by auto
qed

text \<open>C14. A truthful host's branch is replayed: when the host answers every request with the part of its
  branch that was asked for, each entry of the branch is well formed, the pages fit their budgets and the
  file does not fail, then the preparation succeeds, and reading the spool back, which succeeds on a
  file that does not fail, gives every message of the branch once, from the oldest on.\<close>

theorem history_replays_branch:
  assumes "truthful rd leaf B bound" and "branch_ok leaf B" and "branch_fits ser leaf B" and "codec ser decode"
  shows "\<exists>st. prepare rd ser from_slice (\<lambda>_. None) bound True saved h = (Inr (), st)
    \<and> (\<exists>pages t. drained (pop_page decode (\<lambda>_. None)) (snd st) pages t)
    \<and> (\<forall>io pages t. drained (pop_page decode io) (snd st) pages t \<longrightarrow> concat pages = B)"
proof -
  obtain st where st: "prepare rd ser from_slice (\<lambda>_. None) bound True saved h = (Inr (), st)"
    "holds ser (snd st) (newest_windows B)"
    using prepare_truthful [OF assms(1-3)] by blast
  from drained_total [OF assms(4) st(2)] drained_pages [OF assms(4) st(2)] st(1) show ?thesis
    by (metis concat_windows)
qed

theorem history_replays_branch_witness:
  "\<exists>st pages t. prepare demo_host (demo_ser demo_known) (\<lambda>_. Inl ''no JSON'') (\<lambda>_. None) 7 True None () = (Inr (), st)
    \<and> drained (pop_page (demo_decode demo_known) (\<lambda>_. None)) (snd st) pages t
    \<and> concat pages = [demo_message ''a'', demo_message ''b'']"
  using history_replays_branch [OF demo_truthful demo_branch_ok demo_fits demo_codec, of "\<lambda>_. Inl ''no JSON''" None "()"]
  unfolding demo_branch_def by blast

end
