(* ===== verification/System_Calls.thy ===== *)
theory System_Calls
  imports Unix_Path Service_Reply
begin

text \<open>
  What the code asks of the operating system, and how it runs against one. A run is a list of events,
  the newest first: each is a call with the answer it got. The operating system, other programs
  included, is a record of functions that give the answer to a call from the events so far and may
  give any answer at all. An operation takes the system and the events and returns its result with the
  events after it, so that what it did can be read off its events.
\<close>

section \<open>Files\<close>

datatype file_type = Regular | Directory | Symlink | Special

record metadata =
  md_type :: file_type
  md_len :: u64
  md_modified :: "int option"
  md_created :: "int option"
  md_dev :: u64
  md_ino :: u64

datatype stat_answer = Found metadata | Absent | Denied
datatype lock_answer = Locked | Contended | LockFailed
datatype unlink_answer = Removed | Gone | Refused

text \<open>
  \<open>Stat\<close> is \<open>symlink_metadata\<close>, \<open>Held\<close> the metadata of an open file, \<open>Listed\<close> a directory with its
  entries (none for an entry that could not be read), \<open>Late\<close> whether the clock passed a deadline,
  \<open>Byte\<close> a read of one byte (none at the end), \<open>Create\<close> the creation of a file that must not exist.
\<close>

datatype event =
    Stat string stat_answer
  | Canon string "string option"
  | Listed string "string option list option"
  | Late bool
  | Open string bool
  | Held string "metadata option"
  | Byte string "char option option"
  | LockOpen string bool
  | TryLock string lock_answer
  | Unlock string
  | Unlink string unlink_answer
  | MakeDirs string bool
  | Create string bool
  | Write string string bool
  | Flush string bool
  | Rename string string bool
  | FlushDir string bool
  | Discard string

type_synonym run = "event list"

text \<open>
  The last three fields are pure: the directory the process works in, the standard spelling of a text that is
  a UUID, and the JSON value of a text.
\<close>

record os =
  sys_stat :: "run \<Rightarrow> string \<Rightarrow> stat_answer"
  sys_canon :: "run \<Rightarrow> string \<Rightarrow> string option"
  sys_list :: "run \<Rightarrow> string \<Rightarrow> string option list option"
  sys_late :: "run \<Rightarrow> bool"
  sys_open :: "run \<Rightarrow> string \<Rightarrow> bool"
  sys_held :: "run \<Rightarrow> string \<Rightarrow> metadata option"
  sys_byte :: "run \<Rightarrow> string \<Rightarrow> char option option"
  sys_lock_open :: "run \<Rightarrow> string \<Rightarrow> bool"
  sys_try_lock :: "run \<Rightarrow> string \<Rightarrow> lock_answer"
  sys_unlink :: "run \<Rightarrow> string \<Rightarrow> unlink_answer"
  sys_write :: "run \<Rightarrow> event \<Rightarrow> bool"
  sys_cwd :: "string option"
  hyphenated :: "string \<Rightarrow> string option"
  parse_json :: "string \<Rightarrow> json option"

section \<open>Operations\<close>

type_synonym ('e, 'a) io = "os \<Rightarrow> run \<Rightarrow> ('e + 'a) \<times> run"

definition ret :: "'a \<Rightarrow> ('e, 'a) io" where
  "ret x = (\<lambda>os t. (Inr x, t))"

definition fail :: "'e \<Rightarrow> ('e, 'a) io" where
  "fail e = (\<lambda>os t. (Inl e, t))"

text \<open>The operator \<open>?\<close> followed by the rest of the block.\<close>

definition seq :: "('e, 'a) io \<Rightarrow> ('a \<Rightarrow> ('e, 'b) io) \<Rightarrow> ('e, 'b) io" where
  "seq m f = (\<lambda>os t. case m os t of (Inl e, t') \<Rightarrow> (Inl e, t') | (Inr x, t') \<Rightarrow> f x os t')"

definition require :: "bool \<Rightarrow> 'e \<Rightarrow> ('e, unit) io" where
  "require ok e = (if ok then ret () else fail e)"

definition need :: "'e \<Rightarrow> 'a option \<Rightarrow> ('e, 'a) io" where
  "need e m = (case m of None \<Rightarrow> fail e | Some x \<Rightarrow> ret x)"

text \<open>A call of the system, which is recorded with its answer, and the pure part of the system.\<close>

definition ask :: "(os \<Rightarrow> run \<Rightarrow> 'a) \<Rightarrow> ('a \<Rightarrow> event) \<Rightarrow> ('e, 'a) io" where
  "ask f ev = (\<lambda>os t. let a = f os t in (Inr a, ev a # t))"

definition know :: "(os \<Rightarrow> 'a) \<Rightarrow> ('e, 'a) io" where
  "know f = (\<lambda>os t. (Inr (f os), t))"

definition note_event :: "event \<Rightarrow> ('e, unit) io" where
  "note_event ev = (\<lambda>os t. (Inr (), ev # t))"

fun for_each :: "('c \<Rightarrow> ('e, unit) io) \<Rightarrow> 'c list \<Rightarrow> ('e, unit) io" where
  "for_each f [] = ret ()"
| "for_each f (c # cs) = seq (f c) (\<lambda>_. for_each f cs)"

section \<open>Reasoning about runs\<close>

text \<open>Running a block step by step.\<close>

lemma run_simps:
  "seq (ask f ev) h os t = h (f os t) os (ev (f os t) # t)"
  "seq (require ok e) g os t = (if ok then g () os t else (Inl e, t))"
  "seq (need e m) k os t = (case m of None \<Rightarrow> (Inl e, t) | Some x \<Rightarrow> k x os t)"
  "seq (know w) l os t = l (w os) os t"
  "seq (ret y) n os t = n y os t"
  "seq (fail e) r os t = (Inl e, t)"
  "seq (seq a b) c os t = seq a (\<lambda>x. seq (b x) c) os t"
  by (simp_all add: seq_def ask_def require_def need_def know_def ret_def fail_def Let_def
      split: option.splits prod.splits sum.splits)


text \<open>
  From events that satisfy \<open>P\<close>, the operation returns a value and events that satisfy \<open>Q\<close>, or fails with
  events that satisfy \<open>E\<close>.
\<close>

definition triple :: "os \<Rightarrow> (run \<Rightarrow> bool) \<Rightarrow> ('e, 'a) io \<Rightarrow> ('a \<Rightarrow> run \<Rightarrow> bool) \<Rightarrow> (run \<Rightarrow> bool) \<Rightarrow> bool" where
  "triple os P m Q E \<longleftrightarrow>
     (\<forall>t. P t \<longrightarrow> (case m os t of (Inr x, t') \<Rightarrow> Q x t' | (Inl e, t') \<Rightarrow> E t'))"

named_theorems triples \<open>rules for the operations\<close>

lemma tripleD:
  "triple os P m Q E \<Longrightarrow> P t \<Longrightarrow> m os t = (Inr x, t') \<Longrightarrow> Q x t'"
  "triple os P m Q E \<Longrightarrow> P t \<Longrightarrow> m os t = (Inl e, t') \<Longrightarrow> E t'"
  by (force simp: triple_def)+

lemma triple_ret: "(\<And>t. P t \<Longrightarrow> Q x t) \<Longrightarrow> triple os P (ret x) Q E"
  by (simp add: triple_def ret_def)

lemma triple_fail: "(\<And>t. P t \<Longrightarrow> E t) \<Longrightarrow> triple os P (fail e) Q E"
  by (simp add: triple_def fail_def)

lemma triple_seq:
  assumes "triple os P m Q E" and "\<And>x. triple os (Q x) (f x) R E"
  shows "triple os P (seq m f) R E"
  unfolding triple_def
proof (intro allI impI)
  fix t assume "P t"
  with assms(1) have "case m os t of (Inr x, t') \<Rightarrow> Q x t' | (Inl e, t') \<Rightarrow> E t'" by (simp add: triple_def)
  with assms(2) show "case seq m f os t of (Inr x, t') \<Rightarrow> R x t' | (Inl e, t') \<Rightarrow> E t'"
    by (fastforce simp: seq_def triple_def split: prod.splits sum.splits)
qed

lemma triple_conseq:
  assumes "triple os P m Q E" and "\<And>t. P' t \<Longrightarrow> P t" and "\<And>x t. Q x t \<Longrightarrow> Q' x t" and "\<And>t. E t \<Longrightarrow> E' t"
  shows "triple os P' m Q' E'"
  using assms by (fastforce simp: triple_def split: prod.splits sum.splits)

lemma triple_ask: "(\<And>t. P t \<Longrightarrow> Q (f os t) (ev (f os t) # t)) \<Longrightarrow> triple os P (ask f ev) Q E"
  by (simp add: triple_def ask_def Let_def)

lemma triple_know: "(\<And>t. P t \<Longrightarrow> Q (f os) t) \<Longrightarrow> triple os P (know f) Q E"
  by (simp add: triple_def know_def)

lemma triple_note: "(\<And>t. P t \<Longrightarrow> Q () (ev # t)) \<Longrightarrow> triple os P (note_event ev) Q E"
  by (simp add: triple_def note_event_def)

lemma triple_require:
  "(\<And>t. P t \<Longrightarrow> ok \<Longrightarrow> Q () t) \<Longrightarrow> (\<And>t. P t \<Longrightarrow> \<not> ok \<Longrightarrow> E t) \<Longrightarrow> triple os P (require ok e) Q E"
  by (simp add: triple_def require_def ret_def fail_def)

lemma triple_need:
  "(\<And>t x. P t \<Longrightarrow> m = Some x \<Longrightarrow> Q x t) \<Longrightarrow> (\<And>t. P t \<Longrightarrow> m = None \<Longrightarrow> E t) \<Longrightarrow>
   triple os P (need e m) Q E"
  by (simp add: triple_def need_def ret_def fail_def split: option.splits)

lemma triple_pull: "(a \<Longrightarrow> triple os P m Q E) \<Longrightarrow> triple os (\<lambda>t. a \<and> P t) m Q E"
  by (simp add: triple_def)

text \<open>A loop over a list keeps what each round keeps.\<close>

lemma triple_for_each:
  assumes "\<And>c. c \<in> set cs \<Longrightarrow> triple os I (f c) (\<lambda>_. I) E"
  shows "triple os I (for_each f cs) (\<lambda>_. I) E"
  using assms
proof (induction cs)
  case Nil
  show ?case by (simp add: triple_ret)
next
  case (Cons c cs)
  then show ?case by (auto intro!: triple_seq [where Q = "\<lambda>_. I"])
qed

end
