(* ===== verification/Deletion_Plan.thy ===== *)
theory Deletion_Plan
  imports System_Calls
begin

text \<open>
  The manifest of a deletion, \<open>rpi-extcore/src/deletion.rs\<close>: the files of one session that were found
  when the deletion was prepared, each with a fingerprint, the two directories they lie in, and the
  validation of a manifest that comes back from storage. The paths of the files are not stored: they
  are derived from the directories, the relative path of the main file and the kind of file.
\<close>

record directory_identity =
  di_created :: "int option"
  di_dev :: "u64 option"
  di_ino :: "u64 option"

record directory_anchor =
  da_path :: string
  da_identity :: "directory_identity option"

record fingerprint =
  fp_len :: u64
  fp_modified :: "int option"
  fp_identity :: directory_identity

datatype file_kind = Primary | PrimaryTmp | Progress | ProgressTmp | Timing | TimingTmp

definition KINDS :: "file_kind list" where
  "KINDS = [Primary, PrimaryTmp, Progress, ProgressTmp, Timing, TimingTmp]"

record planned_file =
  pf_kind :: file_kind
  pf_fingerprint :: fingerprint

record deletion_plan =
  dp_version :: "8 word"
  dp_id :: string
  dp_root :: directory_anchor
  dp_timings :: directory_anchor
  dp_primary :: "string option"
  dp_files :: "planned_file list"

section \<open>Errors\<close>

definition deletion_error :: "reply_kind \<Rightarrow> string \<Rightarrow> string \<Rightarrow> service_error" where
  "deletion_error k code message = (k, JObj [(''code'', JStr code), (''error'', JStr message)])"

definition unsafe_path :: service_error where
  "unsafe_path = deletion_error AccessDenied ''deletion_unsafe_path'' ''Unsafe history deletion path''"

definition unavailable :: service_error where
  "unavailable = deletion_error Unavailable ''deletion_io'' ''History deletion I/O failed''"

definition changed :: service_error where
  "changed = deletion_error Conflict ''deletion_identity_changed'' ''History deletion identity changed''"

definition unknown :: service_error where
  "unknown = deletion_error Conflict ''deletion_unknown_history''
     ''Unrecognized native history layout or format''"

definition bound :: service_error where
  "bound = deletion_error LimitExceeded ''deletion_scan_limit'' ''History discovery budget exceeded''"

definition history_missing :: service_error where
  "history_missing = deletion_error Conflict ''deletion_history_missing''
     ''Native history is missing from the configured root; deletion cannot be verified''"

definition duplicate_history :: service_error where
  "duplicate_history = deletion_error Conflict ''deletion_duplicate_history''
     ''Multiple native histories for session''"

definition invalid_id :: service_error where
  "invalid_id = deletion_error InvalidInput ''deletion_invalid_id'' ''Expected canonical session UUID''"

definition invalid_plan :: service_error where
  "invalid_plan = deletion_error InvalidInput ''deletion_invalid_plan''
     ''Invalid history deletion manifest''"

definition session_in_use :: service_error where
  "session_in_use = deletion_error Conflict ''session_in_use'' ''Native session is in use''"

section \<open>Identities and names\<close>

text \<open>A UUID in its standard spelling, given the spelling of what \<open>Uuid::parse_str\<close> accepts.\<close>

definition canonical_id :: "(string \<Rightarrow> string option) \<Rightarrow> string \<Rightarrow> bool" where
  "canonical_id hyph sid \<longleftrightarrow> hyph sid = Some sid"

definition identity_of :: "metadata \<Rightarrow> directory_identity" where
  "identity_of m = \<lparr>di_created = md_created m, di_dev = Some (md_dev m), di_ino = Some (md_ino m)\<rparr>"

definition fingerprint_of :: "metadata \<Rightarrow> fingerprint" where
  "fingerprint_of m = \<lparr>fp_len = md_len m, fp_modified = md_modified m, fp_identity = identity_of m\<rparr>"

definition primary_name :: "string \<Rightarrow> string \<Rightarrow> bool" where
  "primary_name name sid =
     (let suffix = ''_'' @ sid @ ''.jsonl''
      in length suffix < length name \<and> ends_with suffix name)"

definition ORPHANS :: "string list" where
  "ORPHANS = [''.tmp'', ''.progress.jsonl'', ''.progress.jsonl.tmp'']"

definition orphan_name :: "string \<Rightarrow> string \<Rightarrow> bool" where
  "orphan_name name sid \<longleftrightarrow>
     list_ex (\<lambda>suffix. case strip_suffix suffix name of
       None \<Rightarrow> False | Some main \<Rightarrow> primary_name main sid) ORPHANS"

text \<open>\<open>char::is_control\<close>: the scalar values up to 1F and from 7F to 9F.\<close>

definition is_control :: "string \<Rightarrow> bool" where
  "is_control g = (case g of
     [c] \<Rightarrow> (of_char c :: nat) < 32 \<or> c = CHR 0x7F
   | [c, d] \<Rightarrow> c = CHR 0xC2 \<and> (of_char d :: nat) < 160
   | _ \<Rightarrow> False)"

definition plain_part :: "string \<Rightarrow> bool" where
  "plain_part s \<longleftrightarrow> normal s \<and> utf8 s \<and> s \<noteq> [] \<and> length s \<le> 1024 \<and>
     CHR '':'' \<notin> set s \<and> CHR 0x5C \<notin> set s \<and> slash \<notin> set s \<and> \<not> list_ex is_control (chars s)"

definition valid_relative :: "string \<Rightarrow> string \<Rightarrow> bool" where
  "valid_relative path sid =
     (let parts = components path in
      1 \<le> length parts \<and> length parts \<le> 3 \<and> list_all plain_part parts \<and>
      (length parts \<noteq> 3 \<or> hd parts = sid) \<and>
      (case name_of path of Some s \<Rightarrow> utf8 s \<and> primary_name s sid | None \<Rightarrow> False))"

section \<open>Validation\<close>

definition anchor_ok :: "directory_anchor \<Rightarrow> bool" where
  "anchor_ok a \<longleftrightarrow> is_absolute (da_path a) \<and>
     list_all (\<lambda>c. c \<noteq> ''..'' \<and> c \<noteq> ''.'') (components (da_path a)) \<and> name_of (da_path a) \<noteq> None"

definition timing_kind :: "file_kind \<Rightarrow> bool" where
  "timing_kind k \<longleftrightarrow> k = Timing \<or> k = TimingTmp"

definition plan_kinds :: "deletion_plan \<Rightarrow> file_kind list" where
  "plan_kinds plan = map pf_kind (dp_files plan)"

definition validate_plan :: "(string \<Rightarrow> string option) \<Rightarrow> deletion_plan \<Rightarrow> string \<Rightarrow> string + unit" where
  "validate_plan hyph plan sid =
     (let valid = dp_version plan = 1 \<and> canonical_id hyph sid \<and> dp_id plan = sid \<and>
            list_all anchor_ok [dp_root plan, dp_timings plan] \<and>
            (case dp_primary plan of None \<Rightarrow> True | Some p \<Rightarrow> valid_relative p sid) \<and>
            length (dp_files plan) \<le> length KINDS;
          kinds = remdups (plan_kinds plan);
          native = list_ex (\<lambda>k. \<not> timing_kind k) kinds
      in if \<not> valid
            \<or> length kinds \<noteq> length (dp_files plan)
            \<or> (dp_primary plan \<noteq> None) \<noteq> (Primary \<in> set kinds)
            \<or> (native \<and> dp_primary plan = None)
            \<or> (da_identity (dp_root plan) = None \<and> dp_primary plan \<noteq> None)
            \<or> (da_identity (dp_timings plan) = None \<and> list_ex timing_kind kinds)
         then Inl ''Invalid history deletion manifest''
         else Inr ())"

section \<open>Paths of the files\<close>

fun suffix_of :: "file_kind \<Rightarrow> string" where
  "suffix_of Primary = []"
| "suffix_of PrimaryTmp = ''.tmp''"
| "suffix_of Progress = ''.progress.jsonl''"
| "suffix_of ProgressTmp = ''.progress.jsonl.tmp''"
| "suffix_of Timing = []"
| "suffix_of TimingTmp = ''.tmp''"

definition plan_path :: "deletion_plan \<Rightarrow> file_kind \<Rightarrow> (string \<times> directory_anchor) option" where
  "plan_path plan k =
     (if timing_kind k
      then Some (join_path (da_path (dp_timings plan)) (dp_id plan @ ''.json'') @ suffix_of k, dp_timings plan)
      else case dp_primary plan of
        None \<Rightarrow> None
      | Some p \<Rightarrow> Some (join_path (da_path (dp_root plan)) p @ suffix_of k, dp_root plan))"

section \<open>What validation promises\<close>

lemma set_KINDS [simp]: "set KINDS = UNIV"
proof -
  have "k \<in> set KINDS" for k by (cases k) (simp_all add: KINDS_def)
  then show ?thesis by auto
qed

lemma length_KINDS [simp]: "length KINDS = 6"
  by (simp add: KINDS_def)

lemma validate_plan_iff:
  "validate_plan hyph plan sid = Inr () \<longleftrightarrow>
     dp_version plan = 1 \<and> canonical_id hyph sid \<and> dp_id plan = sid \<and>
     anchor_ok (dp_root plan) \<and> anchor_ok (dp_timings plan) \<and>
     pred_option (\<lambda>p. valid_relative p sid) (dp_primary plan) \<and>
     distinct (plan_kinds plan) \<and>
     (dp_primary plan \<noteq> None \<longleftrightarrow> Primary \<in> set (plan_kinds plan)) \<and>
     (list_ex (\<lambda>k. \<not> timing_kind k) (plan_kinds plan) \<longrightarrow> dp_primary plan \<noteq> None) \<and>
     (dp_primary plan \<noteq> None \<longrightarrow> da_identity (dp_root plan) \<noteq> None) \<and>
     (list_ex timing_kind (plan_kinds plan) \<longrightarrow> da_identity (dp_timings plan) \<noteq> None)"
proof -
  have eq: "length (remdups (plan_kinds plan)) = length (dp_files plan) \<longleftrightarrow> distinct (plan_kinds plan)"
    unfolding length_remdups_card_conv
    using card_distinct [of "plan_kinds plan"] distinct_card [of "plan_kinds plan"]
    by (auto simp: plan_kinds_def)
  have "length (plan_kinds plan) \<le> 6" if "distinct (plan_kinds plan)"
  proof -
    have "card (set (plan_kinds plan)) \<le> card (set KINDS)" by (rule card_mono [OF finite_set]) simp
    also have "\<dots> \<le> length KINDS" by (rule card_length)
    finally show ?thesis using that by (simp add: distinct_card)
  qed
  then have len: "length (dp_files plan) \<le> 6" if "distinct (plan_kinds plan)"
    using that by (simp add: plan_kinds_def)
  show ?thesis
    unfolding validate_plan_def Let_def eq
    by (auto simp: list_ex_iff split: option.splits dest: len)
qed

end
