(* ===== verification/Deletion.thy ===== *)
theory Deletion
  imports Deletion_Plan
begin

text \<open>
  The operations of \<open>rpi-extcore/src/deletion.rs\<close>: looking at paths without following links, the anchors
  of the two directories, the search for the files of a session, the lock of the native host, the
  preparation of a manifest and its execution. Each is a run of system calls, in the order in which the
  code makes them.
\<close>

type_synonym 'a act = "(service_error, 'a) io"

definition MAX_DIR_ENTRIES :: nat where "MAX_DIR_ENTRIES = 10000"
definition HEADER_LIMIT :: nat where "HEADER_LIMIT = 65536"

section \<open>Looking at paths\<close>

definition metadata_at :: "string \<Rightarrow> metadata option act" where
  "metadata_at p = seq (ask (\<lambda>os t. sys_stat os t p) (Stat p)) (\<lambda>a. case a of
     Found m \<Rightarrow> if md_type m = Symlink then fail unsafe_path else ret (Some m)
   | Absent \<Rightarrow> ret None
   | Denied \<Rightarrow> fail unavailable)"

fun check_parts :: "string \<Rightarrow> string list \<Rightarrow> unit act" where
  "check_parts current [] = ret ()"
| "check_parts current (part # parts) =
     (if part = ''..'' \<or> part = ''.'' then fail unsafe_path
      else let current = join_path current part
           in seq (metadata_at current) (\<lambda>_. check_parts current parts))"

definition check_components :: "string \<Rightarrow> unit act" where
  "check_components p =
     (if \<not> is_absolute p then fail unsafe_path else check_parts [] (components p))"

definition canonical_path :: "string \<Rightarrow> string act" where
  "canonical_path p = seq (ask (\<lambda>os t. sys_canon os t p) (Canon p)) (need unavailable)"

text \<open>
  The loop of \<open>anchor\<close> to the nearest ancestor that exists: the components of \<open>existing\<close> from the last
  one, and the names left behind.
\<close>

fun nearest :: "string \<Rightarrow> string list \<Rightarrow> string list \<Rightarrow> (string \<times> string list) act" where
  "nearest existing [] left = seq (metadata_at existing) (\<lambda>m.
     if m \<noteq> None then ret (existing, left) else fail unsafe_path)"
| "nearest existing (c # cs) left = seq (metadata_at existing) (\<lambda>m.
     if m \<noteq> None then ret (existing, left)
     else if \<not> normal c \<or> cs = [] then fail unsafe_path
     else nearest (path_of (rev cs)) cs (c # left))"

definition anchor_identity :: "metadata option \<Rightarrow> directory_identity option act" where
  "anchor_identity found = (case found of
     None \<Rightarrow> ret None
   | Some m \<Rightarrow> if md_type m = Directory then ret (Some (identity_of m)) else fail unsafe_path)"

definition absolute_path :: "string \<Rightarrow> string act" where
  "absolute_path p =
     (if is_absolute p then ret p
      else seq (know sys_cwd) (\<lambda>cwd. seq (need unavailable cwd) (\<lambda>dir. ret (join_path dir p))))"

definition anchor_at :: "string \<Rightarrow> directory_anchor act" where
  "anchor_at p = seq (absolute_path p) (\<lambda>absolute.
     seq (check_components absolute) (\<lambda>_.
     seq (nearest absolute (rev (components absolute)) []) (\<lambda>(existing, left).
     seq (canonical_path existing) (\<lambda>canonical.
     let canonical = foldl join_path canonical left in
     seq (metadata_at canonical) (\<lambda>found.
     seq (anchor_identity found) (\<lambda>ident.
     ret \<lparr>da_path = canonical, da_identity = ident\<rparr>))))))"

definition check_anchor :: "directory_anchor \<Rightarrow> unit act" where
  "check_anchor a = seq (check_components (da_path a)) (\<lambda>_.
     seq (metadata_at (da_path a)) (\<lambda>found. case (found, da_identity a) of
       (Some m, Some expected) \<Rightarrow>
         if md_type m = Directory \<and> identity_of m = expected
         then seq (canonical_path (da_path a)) (\<lambda>c. require (path_eq c (da_path a)) unsafe_path)
         else fail changed
     | (None, None) \<Rightarrow> ret ()
     | _ \<Rightarrow> fail changed))"

definition inspect :: "string \<Rightarrow> directory_anchor \<Rightarrow> fingerprint option act" where
  "inspect p root =
     (if \<not> under (da_path root) p then fail unsafe_path
      else seq (check_components p) (\<lambda>_. seq (metadata_at p) (\<lambda>found. case found of
        None \<Rightarrow> ret None
      | Some m \<Rightarrow>
          if md_type m = Regular
          then seq (canonical_path p) (\<lambda>c.
            if under (da_path root) c then ret (Some (fingerprint_of m)) else fail unsafe_path)
          else fail unsafe_path)))"

section \<open>The header of a history\<close>

definition held_metadata :: "string \<Rightarrow> metadata act" where
  "held_metadata p = seq (ask (\<lambda>os t. sys_held os t p) (Held p)) (need unavailable)"

lemma seq_cong [fundef_cong]: "m = m' \<Longrightarrow> (\<And>x. f x = f' x) \<Longrightarrow> seq m f = seq m' f'"
  by (auto simp: seq_def fun_eq_iff split: prod.splits sum.splits)

function header_line :: "string \<Rightarrow> string \<Rightarrow> string act" where
  "header_line p line =
     (if length line < HEADER_LIMIT then
        seq (ask (\<lambda>os t. sys_byte os t p) (Byte p)) (\<lambda>a. case a of
          None \<Rightarrow> fail unavailable
        | Some None \<Rightarrow> ret line
        | Some (Some c) \<Rightarrow> if c = NL then ret (line @ [c]) else header_line p (line @ [c]))
      else ret line)"
  by pat_completeness auto
termination
  by (relation "measure (\<lambda>(p, line). HEADER_LIMIT - length line)") auto

declare header_line.simps [simp del]

text \<open>Evaluation without the unary number.\<close>

lemma header_line_code [code]:
  "header_line p line =
     (if int (length line) < 65536 then
        seq (ask (\<lambda>os t. sys_byte os t p) (Byte p)) (\<lambda>a. case a of
          None \<Rightarrow> fail unavailable
        | Some None \<Rightarrow> ret line
        | Some (Some c) \<Rightarrow> if c = NL then ret (line @ [c]) else header_line p (line @ [c]))
      else ret line)"
proof -
  have "int (length line) < 65536 \<longleftrightarrow> length line < HEADER_LIMIT" by (simp add: HEADER_LIMIT_def)
  then show ?thesis by (subst header_line.simps) (simp only:)
qed

definition header_ok :: "json \<Rightarrow> string \<Rightarrow> bool" where
  "header_ok v sid \<longleftrightarrow>
     jidx ''kind'' v = JStr ''header'' \<and> jidx ''version'' v = JUint 4 \<and> jidx ''id'' v = JStr sid \<and>
     (case jget ''progressFormat'' v of None \<Rightarrow> True | Some f \<Rightarrow> f = JStr ''assistant-progress-v1'')"

definition header :: "string \<Rightarrow> string \<Rightarrow> fingerprint \<Rightarrow> unit act" where
  "header p sid expected =
     seq (ask (\<lambda>os t. sys_open os t p) (Open p)) (\<lambda>opened.
     seq (require opened unavailable) (\<lambda>_.
     seq (held_metadata p) (\<lambda>m.
     seq (require (fingerprint_of m = expected) changed) (\<lambda>_.
     seq (header_line p []) (\<lambda>line.
     seq (require (line \<noteq> [] \<and> last line = NL) unknown) (\<lambda>_.
     seq (know parse_json) (\<lambda>parse.
     seq (need unknown (parse line)) (\<lambda>v.
     seq (require (header_ok v sid) unknown) (\<lambda>_.
     seq (held_metadata p) (\<lambda>m.
     require (fingerprint_of m = expected) changed))))))))))"

section \<open>The search for the files of a session\<close>

record sweep =
  sw_count :: nat
  sw_dirs :: "(string \<times> nat) list"
  sw_found :: "string option"
  sw_orphans :: "string list"

definition clock :: "bool act" where
  "clock = ask sys_late Late"

text \<open>The name of a directory entry, the path of the entry and what is done with it.\<close>

definition sweep_dir_entry :: "string \<Rightarrow> nat \<Rightarrow> string \<Rightarrow> sweep \<Rightarrow> sweep act" where
  "sweep_dir_entry dir depth path s = seq (know hyphenated) (\<lambda>hyph.
     if depth = 0 \<or> (depth = 1 \<and> (case name_of dir of Some n \<Rightarrow> utf8 n \<and> canonical_id hyph n | None \<Rightarrow> False))
     then ret (s\<lparr>sw_dirs := sw_dirs s @ [(path, depth + 1)]\<rparr>)
     else fail unknown)"

definition sweep_primary :: "directory_anchor \<Rightarrow> string \<Rightarrow> string \<Rightarrow> sweep \<Rightarrow> sweep act" where
  "sweep_primary root sid path s = seq (need unsafe_path (relative_to (da_path root) path)) (\<lambda>relative.
     seq (require (valid_relative relative sid) unknown) (\<lambda>_.
     seq (inspect path root) (\<lambda>seen.
     seq (need changed seen) (\<lambda>_.
     if sw_found s \<noteq> None then fail duplicate_history else ret (s\<lparr>sw_found := Some relative\<rparr>)))))"

definition sweep_orphan :: "directory_anchor \<Rightarrow> string \<Rightarrow> sweep \<Rightarrow> sweep act" where
  "sweep_orphan root path s = seq (inspect path root) (\<lambda>seen.
     seq (need changed seen) (\<lambda>_. ret (s\<lparr>sw_orphans := sw_orphans s @ [path]\<rparr>)))"

definition sweep_entry ::
  "directory_anchor \<Rightarrow> string \<Rightarrow> string \<Rightarrow> nat \<Rightarrow> string \<Rightarrow> sweep \<Rightarrow> sweep act" where
  "sweep_entry root sid dir depth name s =
     (let path = join_path dir name in
      seq (metadata_at path) (\<lambda>found.
      seq (need changed found) (\<lambda>m.
      if md_type m = Directory then sweep_dir_entry dir depth path s
      else if \<not> utf8 name then ret s
      else if primary_name name sid then sweep_primary root sid path s
      else if orphan_name name sid then sweep_orphan root path s
      else ret s)))"

text \<open>\<open>count > MAX_DIR_ENTRIES || start.elapsed() >= SCAN_TIME\<close>: the clock is read only below the bound.\<close>

definition over_budget :: "nat \<Rightarrow> bool act" where
  "over_budget n = (if n > MAX_DIR_ENTRIES then ret True else clock)"

lemma over_budget_code [code]: "over_budget n = (if int n > 10000 then ret True else clock)"
  by (simp add: over_budget_def MAX_DIR_ENTRIES_def)

fun sweep_entries ::
  "directory_anchor \<Rightarrow> string \<Rightarrow> string \<Rightarrow> nat \<Rightarrow> string option list \<Rightarrow> sweep \<Rightarrow> sweep act" where
  "sweep_entries root sid dir depth [] s = ret s"
| "sweep_entries root sid dir depth (entry # entries) s =
     (let s = s\<lparr>sw_count := sw_count s + 1\<rparr> in
      seq (over_budget (sw_count s)) (\<lambda>over.
      seq (require (\<not> over) bound) (\<lambda>_.
      seq (need unavailable entry) (\<lambda>name.
      seq (sweep_entry root sid dir depth name s) (\<lambda>s.
      sweep_entries root sid dir depth entries s)))))"

definition read_dir :: "string \<Rightarrow> string option list act" where
  "read_dir dir = seq (ask (\<lambda>os t. sys_list os t dir) (Listed dir)) (need unavailable)"

text \<open>One round of the outer loop, on the directory taken from the queue.\<close>

definition sweep_dir :: "directory_anchor \<Rightarrow> string \<Rightarrow> string \<Rightarrow> nat \<Rightarrow> sweep \<Rightarrow> sweep act" where
  "sweep_dir root sid dir depth s =
     seq clock (\<lambda>late.
     seq (require (\<not> late) bound) (\<lambda>_.
     seq (read_dir dir) (\<lambda>entries.
     sweep_entries root sid dir depth entries s)))"

text \<open>
  The queue grows by at most one directory for each entry counted, and no more than
  \<open>MAX_DIR_ENTRIES\<close> entries are counted: this bounds the rounds.
\<close>

definition sweep_left :: "sweep \<Rightarrow> nat" where
  "sweep_left s = length (sw_dirs s) + (MAX_DIR_ENTRIES - sw_count s)"

lemma seq_Inr:
  "seq m f os t = (Inr y, t'') \<longleftrightarrow> (\<exists>x t'. m os t = (Inr x, t') \<and> f x os t' = (Inr y, t''))"
  by (auto simp: seq_def split: prod.splits sum.splits)

lemma act_Inr [simp]:
  "ret x os t = (Inr y, t') \<longleftrightarrow> y = x \<and> t' = t"
  "fail e os t \<noteq> (Inr y, t')"
  "require ok e os t = (Inr u, t') \<longleftrightarrow> ok \<and> t' = t"
  "need e m os t = (Inr y, t') \<longleftrightarrow> m = Some y \<and> t' = t"
  "know g os t = (Inr y, t') \<longleftrightarrow> y = g os \<and> t' = t"
  "ask f ev os t = (Inr y, t') \<longleftrightarrow> y = f os t \<and> t' = ev y # t"
  by (auto simp: ret_def fail_def require_def need_def know_def ask_def Let_def split: option.splits)

lemma sweep_entry_left:
  assumes "sweep_entry root sid dir depth name s os t = (Inr s', t')"
  shows "sw_count s' = sw_count s \<and> length (sw_dirs s') \<le> length (sw_dirs s) + 1"
  using assms
  by (auto simp: sweep_entry_def sweep_dir_entry_def sweep_primary_def sweep_orphan_def Let_def seq_Inr
      split: if_splits)

lemma sweep_entries_left:
  assumes "sweep_entries root sid dir depth entries s os t = (Inr s', t')"
  shows "sweep_left s' \<le> sweep_left s"
  using assms
proof (induction entries arbitrary: s t)
  case (Cons entry entries)
  define s1 where "s1 = s\<lparr>sw_count := sw_count s + 1\<rparr>"
  from Cons.prems obtain s2 t1 t2 name where
      count: "sw_count s1 \<le> MAX_DIR_ENTRIES"
      and entry: "sweep_entry root sid dir depth name s1 os t1 = (Inr s2, t2)"
      and rest: "sweep_entries root sid dir depth entries s2 os t2 = (Inr s', t')"
    by (auto simp: s1_def Let_def seq_Inr over_budget_def split: if_splits)
  have "sw_count s1 = sw_count s + 1" "length (sw_dirs s1) = length (sw_dirs s)" by (simp_all add: s1_def)
  moreover from sweep_entry_left [OF entry]
  have "sw_count s2 = sw_count s1" "length (sw_dirs s2) \<le> length (sw_dirs s1) + 1" by auto
  moreover note Cons.IH [OF rest] count
  ultimately show ?case unfolding sweep_left_def by linarith
qed simp

function sweep_dirs :: "directory_anchor \<Rightarrow> string \<Rightarrow> sweep \<Rightarrow> os \<Rightarrow> run \<Rightarrow> (service_error + sweep) \<times> run" where
  "sweep_dirs root sid s os t = (case sw_dirs s of
     [] \<Rightarrow> (Inr s, t)
   | (dir, depth) # queue \<Rightarrow> (case sweep_dir root sid dir depth (s\<lparr>sw_dirs := queue\<rparr>) os t of
       (Inl e, t') \<Rightarrow> (Inl e, t')
     | (Inr s', t') \<Rightarrow> sweep_dirs root sid s' os t'))"
  by pat_completeness auto
termination
proof (relation "measure (\<lambda>(root, sid, s, os, t). sweep_left s)", simp)
  fix root sid s os t dq queue dir depth r t' s'
  assume "sw_dirs s = dq # queue" "(dir, depth) = dq"
    and "(r, t') = sweep_dir root sid dir depth (s\<lparr>sw_dirs := queue\<rparr>) os t" "r = Inr s'"
  then have "sweep_dir root sid dir depth (s\<lparr>sw_dirs := queue\<rparr>) os t = (Inr s', t')" by simp
  then obtain entries t1 where
      "sweep_entries root sid dir depth entries (s\<lparr>sw_dirs := queue\<rparr>) os t1 = (Inr s', t')"
    by (auto simp: sweep_dir_def seq_Inr)
  from sweep_entries_left [OF this] \<open>sw_dirs s = dq # queue\<close>
  show "((root, sid, s', os, t'), (root, sid, s, os, t)) \<in> measure (\<lambda>(root, sid, s, os, t). sweep_left s)"
    by (simp add: sweep_left_def)
qed

declare sweep_dirs.simps [simp del]

definition orphan_known :: "directory_anchor \<Rightarrow> string list \<Rightarrow> string option \<Rightarrow> string \<Rightarrow> bool" where
  "orphan_known root retry found p \<longleftrightarrow>
     list_ex (\<lambda>q. path_eq q p) retry \<or>
     (case found of
        None \<Rightarrow> False
      | Some h \<Rightarrow> list_ex (\<lambda>s. path_eq (join_path (da_path root) h @ s) p) ORPHANS)"

definition discover :: "directory_anchor \<Rightarrow> string \<Rightarrow> string list \<Rightarrow> string option act" where
  "discover root sid retry =
     (if da_identity root = None then ret None
      else seq (sweep_dirs root sid
             \<lparr>sw_count = 0, sw_dirs = [(da_path root, 0)], sw_found = None, sw_orphans = []\<rparr>) (\<lambda>s.
           seq (require (list_all (orphan_known root retry (sw_found s)) (sw_orphans s)) unknown) (\<lambda>_.
           ret (sw_found s))))"

section \<open>The lock of the native host\<close>

record native_lock =
  nl_path :: string
  nl_identity :: directory_identity

definition check_lock :: "native_lock \<Rightarrow> directory_anchor \<Rightarrow> unit act" where
  "check_lock l root = seq (inspect (nl_path l) root) (\<lambda>seen.
     seq (need changed seen) (\<lambda>current.
     if fp_identity current \<noteq> nl_identity l then fail changed
     else seq (held_metadata (nl_path l)) (\<lambda>m. require (identity_of m = nl_identity l) changed)))"

text \<open>Dropping the lock releases it, on every way out of the block that owns it.\<close>

definition release :: "native_lock \<Rightarrow> 'a act \<Rightarrow> 'a act" where
  "release l m = (\<lambda>os t. case m os t of (r, t') \<Rightarrow> (r, Unlock (nl_path l) # t'))"

definition release_on_error :: "native_lock \<Rightarrow> 'a act \<Rightarrow> 'a act" where
  "release_on_error l m = (\<lambda>os t. case m os t of
     (Inl e, t') \<Rightarrow> (Inl e, Unlock (nl_path l) # t')
   | (Inr x, t') \<Rightarrow> (Inr x, t'))"

definition try_lock :: "string \<Rightarrow> unit act" where
  "try_lock p = seq (ask (\<lambda>os t. sys_try_lock os t p) (TryLock p)) (\<lambda>a. case a of
     Locked \<Rightarrow> ret ()
   | Contended \<Rightarrow> fail session_in_use
   | LockFailed \<Rightarrow> fail unavailable)"

definition acquire :: "string \<Rightarrow> directory_anchor \<Rightarrow> native_lock act" where
  "acquire primary root =
     (let p = primary @ ''.lock'' in
      seq (inspect p root) (\<lambda>before.
      seq (ask (\<lambda>os t. sys_lock_open os t p) (LockOpen p)) (\<lambda>opened.
      seq (require opened unavailable) (\<lambda>_.
      seq (held_metadata p) (\<lambda>m.
      let ident = identity_of m in
      seq (require (case before of Some f \<Rightarrow> fp_identity f = ident | None \<Rightarrow> True) changed) (\<lambda>_.
      seq (held_metadata p) (\<lambda>m.
      seq (require (md_type m = Regular) unsafe_path) (\<lambda>_.
      seq (try_lock p) (\<lambda>_.
      let l = \<lparr>nl_path = p, nl_identity = ident\<rparr> in
      release_on_error l (seq (check_lock l root) (\<lambda>_. ret l)))))))))))"

section \<open>Preparation\<close>

fun capture_files :: "deletion_plan \<Rightarrow> string \<Rightarrow> file_kind list \<Rightarrow> planned_file list \<Rightarrow> planned_file list act" where
  "capture_files plan sid [] files = ret files"
| "capture_files plan sid (k # ks) files = (case plan_path plan k of
     None \<Rightarrow> capture_files plan sid ks files
   | Some (path, root) \<Rightarrow> seq (inspect path root) (\<lambda>seen. case seen of
       Some f \<Rightarrow>
         seq (if k = Primary then header path sid f else ret ()) (\<lambda>_.
         capture_files plan sid ks (files @ [\<lparr>pf_kind = k, pf_fingerprint = f\<rparr>]))
     | None \<Rightarrow> if k = Primary then fail changed else capture_files plan sid ks files))"

definition prepare :: "string \<Rightarrow> string \<Rightarrow> string \<Rightarrow> deletion_plan act" where
  "prepare root sid timings_dir = seq (know hyphenated) (\<lambda>hyph.
     seq (require (canonical_id hyph sid) invalid_id) (\<lambda>_.
     seq (anchor_at root) (\<lambda>root.
     seq (anchor_at timings_dir) (\<lambda>timings.
     seq (discover root sid []) (\<lambda>found.
     seq (need history_missing found) (\<lambda>primary.
     let plan = \<lparr>dp_version = 1, dp_id = sid, dp_root = root, dp_timings = timings,
                 dp_primary = Some primary, dp_files = []\<rparr> in
     seq (capture_files plan sid KINDS []) (\<lambda>files.
     let plan = plan\<lparr>dp_files := files\<rparr> in
     seq (check_anchor (dp_root plan)) (\<lambda>_.
     seq (check_anchor (dp_timings plan)) (\<lambda>_.
     seq (require (validate_plan hyph plan sid = Inr ()) unsafe_path) (\<lambda>_.
     ret plan))))))))))"

record prepared_deletion =
  pd_plan :: deletion_plan
  pd_lock :: native_lock

definition prepare_locked :: "string \<Rightarrow> string \<Rightarrow> string \<Rightarrow> prepared_deletion act" where
  "prepare_locked root sid timings_dir = seq (know hyphenated) (\<lambda>hyph.
     seq (require (canonical_id hyph sid) invalid_id) (\<lambda>_.
     seq (anchor_at root) (\<lambda>discovered_root.
     seq (discover discovered_root sid []) (\<lambda>found.
     seq (need history_missing found) (\<lambda>primary.
     seq (acquire (join_path (da_path discovered_root) primary) discovered_root) (\<lambda>l.
     release_on_error l (
       seq (check_anchor discovered_root) (\<lambda>_.
       seq (prepare root sid timings_dir) (\<lambda>plan.
       seq (require (rel_option path_eq (dp_primary plan) (Some primary) \<and>
                     path_eq (da_path (dp_root plan)) (da_path discovered_root)) changed) (\<lambda>_.
       seq (check_lock l (dp_root plan)) (\<lambda>_.
       ret \<lparr>pd_plan = plan, pd_lock = l\<rparr>)))))))))))"

section \<open>Execution\<close>

definition captured :: "deletion_plan \<Rightarrow> file_kind \<Rightarrow> planned_file option" where
  "captured plan k = find (\<lambda>f. pf_kind f = k) (dp_files plan)"

definition sidecar :: "file_kind \<Rightarrow> bool" where
  "sidecar k \<longleftrightarrow> k = PrimaryTmp \<or> k = Progress \<or> k = ProgressTmp"

definition allowed_orphans :: "deletion_plan \<Rightarrow> string list" where
  "allowed_orphans plan = List.map_filter (\<lambda>f.
     if sidecar (pf_kind f) then map_option fst (plan_path plan (pf_kind f)) else None) (dp_files plan)"

definition verify_candidates :: "deletion_plan \<Rightarrow> unit act" where
  "verify_candidates plan = seq (discover (dp_root plan) (dp_id plan) (allowed_orphans plan)) (\<lambda>found.
     require (found = None \<or> rel_option path_eq found (dp_primary plan)) changed)"

definition preflight_kind :: "deletion_plan \<Rightarrow> file_kind \<Rightarrow> unit act" where
  "preflight_kind plan k = (case plan_path plan k of
     None \<Rightarrow> ret ()
   | Some (path, root) \<Rightarrow> seq (inspect path root) (\<lambda>current. case (current, captured plan k) of
       (None, _) \<Rightarrow> ret ()
     | (Some actual, Some expected) \<Rightarrow>
         if actual = pf_fingerprint expected
         then (if k = Primary then header path (dp_id plan) actual else ret ())
         else fail changed
     | _ \<Rightarrow> fail changed))"

definition preflight :: "deletion_plan \<Rightarrow> unit act" where
  "preflight plan = for_each (preflight_kind plan) KINDS"

definition check_all :: "deletion_plan \<Rightarrow> native_lock option \<Rightarrow> unit act" where
  "check_all plan lock = seq (check_anchor (dp_root plan)) (\<lambda>_.
     seq (check_anchor (dp_timings plan)) (\<lambda>_.
     case lock of None \<Rightarrow> ret () | Some l \<Rightarrow> check_lock l (dp_root plan)))"

definition remove_file :: "string \<Rightarrow> unit act" where
  "remove_file p = seq (ask (\<lambda>os t. sys_unlink os t p) (Unlink p)) (\<lambda>a.
     require (a \<noteq> Refused) unavailable)"

definition remove_kind :: "deletion_plan \<Rightarrow> native_lock option \<Rightarrow> file_kind \<Rightarrow> unit act" where
  "remove_kind plan lock k = (case captured plan k of
     None \<Rightarrow> ret ()
   | Some f \<Rightarrow> seq (check_all plan lock) (\<lambda>_.
       case plan_path plan k of
         None \<Rightarrow> fail unsafe_path
       | Some (path, root) \<Rightarrow> seq (inspect path root) (\<lambda>seen. case seen of
           None \<Rightarrow> ret ()
         | Some actual \<Rightarrow>
             seq (require (actual = pf_fingerprint f) changed) (\<lambda>_. remove_file path))))"

definition gone_kind :: "deletion_plan \<Rightarrow> file_kind \<Rightarrow> unit act" where
  "gone_kind plan k = (case plan_path plan k of
     None \<Rightarrow> ret ()
   | Some (path, root) \<Rightarrow> seq (inspect path root) (\<lambda>seen. require (seen = None) changed))"

definition execute_locked :: "deletion_plan \<Rightarrow> native_lock option \<Rightarrow> unit act" where
  "execute_locked plan lock =
     seq (check_all plan lock) (\<lambda>_.
     seq (verify_candidates plan) (\<lambda>_.
     seq (preflight plan) (\<lambda>_.
     seq (for_each (remove_kind plan lock) KINDS) (\<lambda>_.
     seq (verify_candidates plan) (\<lambda>_.
     seq (for_each (gone_kind plan) KINDS) (\<lambda>_.
     check_all plan lock))))))"

definition execute_prepared :: "prepared_deletion \<Rightarrow> unit act" where
  "execute_prepared p = release (pd_lock p) (execute_locked (pd_plan p) (Some (pd_lock p)))"

definition execute :: "deletion_plan \<Rightarrow> unit act" where
  "execute plan = seq (know hyphenated) (\<lambda>hyph.
     seq (require (validate_plan hyph plan (dp_id plan) = Inr ()) invalid_plan) (\<lambda>_.
     seq (check_anchor (dp_root plan)) (\<lambda>_.
     seq (check_anchor (dp_timings plan)) (\<lambda>_.
     case dp_primary plan of
       None \<Rightarrow> execute_locked plan None
     | Some p \<Rightarrow> seq (acquire (join_path (da_path (dp_root plan)) p) (dp_root plan)) (\<lambda>l.
         release l (execute_locked plan (Some l)))))))"

end
