(* ===== verification/Deletion_Safety.thy ===== *)
theory Deletion_Safety
  imports Deletion
begin

text \<open>
  What an execution of a manifest does to files, whatever the system answers: the events that only
  look, the state in which a file is removed, and what a success has seen.
\<close>

section \<open>Operations that only look\<close>

fun looks :: "event \<Rightarrow> bool" where
  "looks (Stat _ _) = True"
| "looks (Canon _ _) = True"
| "looks (Listed _ _) = True"
| "looks (Late _) = True"
| "looks (Open _ _) = True"
| "looks (Held _ _) = True"
| "looks (Byte _ _) = True"
| "looks _ = False"

definition adds :: "(event \<Rightarrow> bool) \<Rightarrow> ('e, 'a) io \<Rightarrow> bool" where
  "adds ok m \<longleftrightarrow> (\<forall>os t. \<exists>new. snd (m os t) = new @ t \<and> list_all ok new)"

named_theorems adds_intros \<open>which events an operation adds\<close>

lemma addsE:
  assumes "adds ok m" and "m os t = (r, t')"
  obtains new where "t' = new @ t" and "list_all ok new"
  using assms unfolding adds_def by (metis snd_conv)

lemma adds_simple [adds_intros]:
  "adds ok (ret x)" "adds ok (fail e)" "adds ok (require b e)" "adds ok (need e m)" "adds ok (know g)"
  by (auto simp: adds_def ret_def fail_def require_def need_def know_def split: option.splits)

lemma adds_ask [adds_intros]: "(\<And>a. ok (ev a)) \<Longrightarrow> adds ok (ask f ev)"
  by (auto simp: adds_def ask_def Let_def)

lemma adds_seq [adds_intros]:
  assumes "adds ok m" and "\<And>x. adds ok (f x)"
  shows "adds ok (seq m f)"
  unfolding adds_def
proof (intro allI)
  fix os t
  obtain r t1 where m: "m os t = (r, t1)" by fastforce
  with assms(1) obtain new where new: "t1 = new @ t" "list_all ok new" by (rule addsE)
  show "\<exists>new. snd (seq m f os t) = new @ t \<and> list_all ok new"
  proof (cases r)
    case (Inr x)
    obtain r' t2 where f: "f x os t1 = (r', t2)" by fastforce
    with assms(2) obtain new' where "t2 = new' @ t1" "list_all ok new'" by (rule addsE)
    with m f Inr new show ?thesis by (intro exI [of _ "new' @ new"]) (simp add: seq_def)
  qed (use m new in \<open>simp add: seq_def\<close>)
qed

lemma adds_for_each [adds_intros]: "(\<And>c. adds ok (f c)) \<Longrightarrow> adds ok (for_each f cs)"
  by (induction cs) (auto intro: adds_intros)

lemma adds_case_option [adds_intros]:
  "adds ok a \<Longrightarrow> (\<And>x. adds ok (b x)) \<Longrightarrow> adds ok (case r of None \<Rightarrow> a | Some x \<Rightarrow> b x)"
  by (cases r) auto

lemma adds_if [adds_intros]: "adds ok a \<Longrightarrow> adds ok b \<Longrightarrow> adds ok (if c then a else b)"
  by simp

lemma adds_case_prod [adds_intros]: "(\<And>x y. adds ok (f x y)) \<Longrightarrow> adds ok (case p of (x, y) \<Rightarrow> f x y)"
  by (cases p) auto

lemma metadata_at_looks [adds_intros]: "adds looks (metadata_at p)"
  unfolding metadata_at_def by (intro adds_intros) (auto split: stat_answer.splits intro: adds_intros)

lemma check_parts_looks [adds_intros]: "adds looks (check_parts current parts)"
  by (induction current parts rule: check_parts.induct) (auto simp: Let_def intro!: adds_intros)

lemma check_components_looks [adds_intros]: "adds looks (check_components p)"
  unfolding check_components_def by (intro adds_intros)

lemma canonical_path_looks [adds_intros]: "adds looks (canonical_path p)"
  unfolding canonical_path_def by (intro adds_intros) simp

lemma inspect_looks [adds_intros]: "adds looks (inspect p root)"
  unfolding inspect_def by (intro adds_intros)

lemma nearest_looks [adds_intros]: "adds looks (nearest p cs left)"
  by (induction p cs left rule: nearest.induct) (auto intro!: adds_intros)

lemma anchor_at_looks [adds_intros]: "adds looks (anchor_at p)"
  unfolding anchor_at_def absolute_path_def anchor_identity_def Let_def by (intro adds_intros)

lemma check_anchor_looks [adds_intros]: "adds looks (check_anchor a)"
  unfolding check_anchor_def by (intro adds_intros)

lemma held_metadata_looks [adds_intros]: "adds looks (held_metadata p)"
  unfolding held_metadata_def by (intro adds_intros) simp

lemma header_line_looks [adds_intros]: "adds looks (header_line p line)"
proof (induction p line rule: header_line.induct)
  case (1 p line)
  show ?case
  proof (cases "length line < HEADER_LIMIT")
    case True
    have "adds looks (if c = NL then ret (line @ [c]) else header_line p (line @ [c]))" for c
      using 1 [OF True] by (cases "c = NL") (simp_all add: adds_simple)
    with True show ?thesis
      by (subst header_line.simps) (auto intro!: adds_seq adds_ask adds_case_option adds_simple)
  qed (subst header_line.simps, simp add: adds_simple)
qed

lemma header_looks [adds_intros]: "adds looks (header p sid expected)"
  unfolding header_def by (intro adds_intros) simp

lemma sweep_entries_looks [adds_intros]: "adds looks (sweep_entries root sid dir depth entries s)"
  by (induction entries arbitrary: s)
    (auto simp: Let_def sweep_entry_def sweep_dir_entry_def sweep_primary_def sweep_orphan_def
      over_budget_def clock_def intro!: adds_intros)

lemma sweep_dir_looks [adds_intros]: "adds looks (sweep_dir root sid dir depth s)"
  unfolding sweep_dir_def clock_def read_dir_def by (intro adds_intros) auto

lemma sweep_dirs_looks [adds_intros]: "adds looks (sweep_dirs root sid s)"
proof -
  have "\<exists>new. snd (sweep_dirs root sid s os t) = new @ t \<and> list_all looks new" for os t
  proof (induction root sid s os t rule: sweep_dirs.induct)
    case (1 root sid s os t)
    show ?case
    proof (cases "sw_dirs s")
      case Nil
      then show ?thesis by (simp add: sweep_dirs.simps)
    next
      case (Cons dq queue)
      obtain dir depth where dq: "dq = (dir, depth)" by fastforce
      obtain r t1 where dir: "sweep_dir root sid dir depth (s\<lparr>sw_dirs := queue\<rparr>) os t = (r, t1)" by fastforce
      with sweep_dir_looks obtain new where new: "t1 = new @ t" "list_all looks new" by (rule addsE)
      show ?thesis
      proof (cases r)
        case (Inr s')
        from 1 [OF Cons dq [symmetric] dir [symmetric] Inr] obtain new' where
            "snd (sweep_dirs root sid s' os t1) = new' @ t1" "list_all looks new'" by blast
        with Cons dq dir Inr new show ?thesis
          by (intro exI [of _ "new' @ new"]) (simp add: sweep_dirs.simps [of root sid s])
      qed (use Cons dq dir new in \<open>simp add: sweep_dirs.simps [of root sid s]\<close>)
    qed
  qed
  then show ?thesis by (simp add: adds_def)
qed

lemma discover_looks [adds_intros]: "adds looks (discover root sid retry)"
  unfolding discover_def by (intro adds_intros)

lemma check_lock_looks [adds_intros]: "adds looks (check_lock l root)"
  unfolding check_lock_def by (intro adds_intros)

lemma capture_files_looks [adds_intros]: "adds looks (capture_files plan sid ks files)"
  by (induction ks arbitrary: files) (auto intro!: adds_intros)

lemma prepare_looks [adds_intros]: "adds looks (prepare root sid timings)"
  unfolding prepare_def Let_def by (intro adds_intros)

lemma verify_candidates_looks [adds_intros]: "adds looks (verify_candidates plan)"
  unfolding verify_candidates_def by (intro adds_intros)

lemma preflight_looks [adds_intros]: "adds looks (preflight_kind plan k)" "adds looks (preflight plan)"
  unfolding preflight_def preflight_kind_def by (intro adds_intros)+

lemma check_all_looks [adds_intros]: "adds looks (check_all plan lock)"
  unfolding check_all_def by (intro adds_intros)

lemma gone_kind_looks [adds_intros]: "adds looks (gone_kind plan k)"
  unfolding gone_kind_def by (intro adds_intros)

section \<open>The events around a removal\<close>

fun removes :: "event \<Rightarrow> bool" where
  "removes (Unlink _ _) = True"
| "removes _ = False"

fun releases :: "event \<Rightarrow> bool" where
  "releases (Unlock _) = True"
| "releases _ = False"

definition lock_path :: "deletion_plan \<Rightarrow> string \<Rightarrow> string" where
  "lock_path plan primary = join_path (da_path (dp_root plan)) primary @ ''.lock''"

text \<open>Every file of the plan was seen either gone or just as it was captured.\<close>

definition seen_as_captured :: "deletion_plan \<Rightarrow> run \<Rightarrow> file_kind \<Rightarrow> bool" where
  "seen_as_captured plan t k \<longleftrightarrow>
     (\<forall>path root. plan_path plan k = Some (path, root) \<longrightarrow>
        Stat path Absent \<in> set t \<or>
        (\<exists>f m. captured plan k = Some f \<and> Stat path (Found m) \<in> set t \<and>
               fingerprint_of m = pf_fingerprint f))"

text \<open>The native host is locked out: its lock was taken and nothing was released.\<close>

definition locked_out :: "deletion_plan \<Rightarrow> run \<Rightarrow> bool" where
  "locked_out plan t \<longleftrightarrow>
     (\<forall>p. dp_primary plan = Some p \<longrightarrow>
        (\<exists>q. TryLock q Locked \<in> set t \<and> path_eq q (lock_path plan p))) \<and>
     \<not> list_ex releases t"

text \<open>The last two events looked at the file itself: it was as captured, and no link leads out of its directory.\<close>

definition just_seen :: "deletion_plan \<Rightarrow> string \<Rightarrow> run \<Rightarrow> bool" where
  "just_seen plan path t \<longleftrightarrow>
     (\<exists>k f root c m t'. captured plan k = Some f \<and> plan_path plan k = Some (path, root) \<and>
        t = Canon path (Some c) # Stat path (Found m) # t' \<and>
        md_type m = Regular \<and> fingerprint_of m = pf_fingerprint f \<and> under (da_path root) c)"

definition may_remove :: "deletion_plan \<Rightarrow> string \<Rightarrow> run \<Rightarrow> bool" where
  "may_remove plan path t \<longleftrightarrow>
     just_seen plan path t \<and> locked_out plan t \<and> (\<forall>k. seen_as_captured plan t k)"

fun removals_justified :: "deletion_plan \<Rightarrow> run \<Rightarrow> bool" where
  "removals_justified plan [] = True"
| "removals_justified plan (e # t) =
     (removals_justified plan t \<and> (case e of Unlink path a \<Rightarrow> may_remove plan path t | _ \<Rightarrow> True))"

lemma removals_justified_at:
  "removals_justified plan (t2 @ Unlink path a # t1) \<Longrightarrow> may_remove plan path t1"
  by (induction t2) auto

text \<open>The events since the last removal.\<close>

definition since_removal :: "run \<Rightarrow> run" where
  "since_removal t = takeWhile (\<lambda>e. \<not> removes e) t"

definition seen_gone :: "deletion_plan \<Rightarrow> run \<Rightarrow> file_kind \<Rightarrow> bool" where
  "seen_gone plan t k \<longleftrightarrow>
     (\<forall>path root. plan_path plan k = Some (path, root) \<longrightarrow> Stat path Absent \<in> set (since_removal t))"

section \<open>What looking keeps\<close>

definition kept_by_looking :: "(run \<Rightarrow> bool) \<Rightarrow> bool" where
  "kept_by_looking K \<longleftrightarrow> (\<forall>e t. looks e \<longrightarrow> K t \<longrightarrow> K (e # t))"

named_theorems kept \<open>what looking keeps\<close>

lemma kept_append: "kept_by_looking K \<Longrightarrow> list_all looks new \<Longrightarrow> K t \<Longrightarrow> K (new @ t)"
  by (induction new) (auto simp: kept_by_looking_def)

lemma looks_harmless: "looks e \<Longrightarrow> \<not> removes e \<and> \<not> releases e"
  by (cases e) auto

lemma kept_justified [kept]: "kept_by_looking (removals_justified plan)"
  unfolding kept_by_looking_def using looks_harmless by (auto split: event.splits)

lemma kept_locked_out [kept]: "kept_by_looking (locked_out plan)"
  unfolding kept_by_looking_def locked_out_def using looks_harmless by auto

lemma kept_seen [kept]: "kept_by_looking (\<lambda>t. seen_as_captured plan t k)"
  unfolding kept_by_looking_def seen_as_captured_def by auto

lemma kept_gone [kept]: "kept_by_looking (\<lambda>t. seen_gone plan t k)"
  unfolding kept_by_looking_def seen_gone_def since_removal_def using looks_harmless by auto

lemma kept_conj [kept]:
  "kept_by_looking K \<Longrightarrow> kept_by_looking L \<Longrightarrow> kept_by_looking (\<lambda>t. K t \<and> L t)"
  by (auto simp: kept_by_looking_def)

lemma kept_all [kept]: "(\<And>x. kept_by_looking (K x)) \<Longrightarrow> kept_by_looking (\<lambda>t. \<forall>x. K x t)"
  by (auto simp: kept_by_looking_def)

lemma kept_imp [kept]: "kept_by_looking K \<Longrightarrow> kept_by_looking (\<lambda>t. c \<longrightarrow> K t)"
  by (auto simp: kept_by_looking_def)

lemma kept_const [kept]: "kept_by_looking (\<lambda>t. c)"
  by (simp add: kept_by_looking_def)

lemma triple_looks:
  assumes "adds looks m" and "kept_by_looking K"
  shows "triple os K m (\<lambda>_. K) K"
  unfolding triple_def
proof (intro allI impI)
  fix t assume K: "K t"
  obtain r t' where m: "m os t = (r, t')" by fastforce
  with assms(1) obtain new where "t' = new @ t" "list_all looks new" by (rule addsE)
  with kept_append [OF assms(2) _ K] m
  show "case m os t of (Inr x, t') \<Rightarrow> K t' | (Inl e, t') \<Rightarrow> K t'" by (cases r) auto
qed

text \<open>What a looking operation establishes beside what looking keeps.\<close>

lemma triple_looks_conj:
  assumes "adds looks m" and "kept_by_looking K" and "triple os (\<lambda>_. True) m Q (\<lambda>_. True)"
  shows "triple os K m (\<lambda>x t. Q x t \<and> K t) K"
  using triple_looks [OF assms(1,2), of os] assms(3)
  by (fastforce simp: triple_def split: prod.splits sum.splits)

lemma triple_for_each_looks:
  assumes looks: "\<And>c. adds looks (f c)" and K: "kept_by_looking K"
    and G: "\<And>c. kept_by_looking (G c)" "\<And>c. triple os (\<lambda>_. True) (f c) (\<lambda>_. G c) (\<lambda>_. True)"
  shows "triple os K (for_each f cs) (\<lambda>_ t. K t \<and> (\<forall>c\<in>set cs. G c t)) K"
  using K
proof (induction cs arbitrary: K)
  case Nil
  show ?case by (simp add: triple_ret)
next
  case (Cons c cs)
  have "triple os K (f c) (\<lambda>_ t. G c t \<and> K t) K"
    by (rule triple_looks_conj [OF looks Cons.prems G(2)])
  moreover have "triple os (\<lambda>t. G c t \<and> K t) (for_each f cs)
      (\<lambda>_ t. (G c t \<and> K t) \<and> (\<forall>c\<in>set cs. G c t)) (\<lambda>t. G c t \<and> K t)"
    by (rule Cons.IH) (intro kept_conj G(1) Cons.prems)
  then have "triple os (\<lambda>t. G c t \<and> K t) (for_each f cs) (\<lambda>_ t. K t \<and> (\<forall>c\<in>set (c # cs). G c t)) K"
    by (rule triple_conseq) auto
  ultimately show ?case by (auto intro: triple_seq)
qed

section \<open>What an inspection sees\<close>

definition inspection :: "string \<Rightarrow> directory_anchor \<Rightarrow> fingerprint option \<Rightarrow> run \<Rightarrow> bool" where
  "inspection p root seen t = (case seen of
     None \<Rightarrow> \<exists>t'. t = Stat p Absent # t'
   | Some f \<Rightarrow> \<exists>c m t'. t = Canon p (Some c) # Stat p (Found m) # t' \<and>
       md_type m = Regular \<and> fingerprint_of m = f \<and> under (da_path root) c)"

lemma metadata_at_Inr:
  "metadata_at p os t = (Inr found, t') \<longleftrightarrow>
     t' = Stat p (sys_stat os t p) # t \<and>
     (case found of None \<Rightarrow> sys_stat os t p = Absent
      | Some m \<Rightarrow> sys_stat os t p = Found m \<and> md_type m \<noteq> Symlink)"
  by (cases "sys_stat os t p") (auto simp: metadata_at_def seq_Inr split: option.splits)

lemma canonical_path_Inr:
  "canonical_path p os t = (Inr c, t') \<longleftrightarrow> sys_canon os t p = Some c \<and> t' = Canon p (Some c) # t"
  by (auto simp: canonical_path_def seq_Inr)

lemma inspect_Inr:
  assumes "inspect p root os t = (Inr seen, t')"
  shows "inspection p root seen t'"
proof -
  from assms obtain t1 found t2 where "metadata_at p os t1 = (Inr found, t2)"
    and rest: "(case found of None \<Rightarrow> ret None | Some m \<Rightarrow>
        if md_type m = Regular
        then seq (canonical_path p) (\<lambda>c.
          if under (da_path root) c then ret (Some (fingerprint_of m)) else fail unsafe_path)
        else fail unsafe_path) os t2 = (Inr seen, t')"
    by (auto simp: inspect_def seq_Inr split: if_splits)
  then have t2: "t2 = Stat p (sys_stat os t1 p) # t1"
    and a: "case found of None \<Rightarrow> sys_stat os t1 p = Absent | Some m \<Rightarrow> sys_stat os t1 p = Found m"
    by (auto simp: metadata_at_Inr split: option.splits)
  show ?thesis
  proof (cases found)
    case None
    with t2 a rest show ?thesis by (simp add: inspection_def)
  next
    case (Some m)
    with t2 a rest show ?thesis
      by (auto simp: inspection_def seq_Inr canonical_path_Inr split: if_splits)
  qed
qed

lemma triple_inspect: "triple os (\<lambda>_. True) (inspect p root) (inspection p root) (\<lambda>_. True)"
  unfolding triple_def by (auto split: prod.splits sum.splits dest: inspect_Inr)

end
