(* ===== verification/Deletion_Exact.thy ===== *)
theory Deletion_Exact
  imports Deletion_Safety
begin

text \<open>
  An execution removes only what was captured, under the lock of the native host, and succeeds only when
  every file of the plan was seen gone after the last removal.
\<close>

lemma triple_preflight_kind:
  "triple os (\<lambda>_. True) (preflight_kind plan k) (\<lambda>_ t. seen_as_captured plan t k) (\<lambda>_. True)"
proof (cases "plan_path plan k")
  case None
  then show ?thesis by (simp add: preflight_kind_def seen_as_captured_def triple_ret)
next
  case (Some pr)
  obtain path root where pr: "pr = (path, root)" by fastforce
  have "triple os (inspection path root seen)
     (case (seen, captured plan k) of
       (None, _) \<Rightarrow> ret ()
     | (Some actual, Some expected) \<Rightarrow>
         if actual = pf_fingerprint expected
         then (if k = Primary then header path (dp_id plan) actual else ret ())
         else fail changed
     | _ \<Rightarrow> fail changed)
     (\<lambda>_ t. seen_as_captured plan t k) (\<lambda>_. True)" (is "triple os _ ?m _ _") for seen
  proof -
    have post: "seen_as_captured plan t k"
      if "inspection path root seen t" and "seen = None \<or> (\<exists>f. captured plan k = Some f \<and> seen = Some (pf_fingerprint f))" for t
      using that Some pr by (auto simp: inspection_def seen_as_captured_def split: option.splits)
    have "triple os (\<lambda>t. seen_as_captured plan t k) ?m (\<lambda>_ t. seen_as_captured plan t k) (\<lambda>t. seen_as_captured plan t k)"
      by (intro triple_looks kept adds_intros)
    with post show ?thesis
      by (fastforce simp: triple_def fail_def ret_def split: option.splits prod.splits sum.splits if_splits)
  qed
  then show ?thesis
    unfolding preflight_kind_def Some pr by (simp add: triple_seq [OF triple_inspect])
qed

lemma triple_gone_kind:
  "triple os (\<lambda>_. True) (gone_kind plan k) (\<lambda>_ t. seen_gone plan t k) (\<lambda>_. True)"
proof (cases "plan_path plan k")
  case None
  then show ?thesis by (simp add: gone_kind_def seen_gone_def triple_ret)
next
  case (Some pr)
  obtain path root where pr: "pr = (path, root)" by fastforce
  have "triple os (inspection path root seen) (require (seen = None) changed)
      (\<lambda>_ t. seen_gone plan t k) (\<lambda>_. True)" for seen
    by (rule triple_require) (use Some pr in \<open>auto simp: inspection_def seen_gone_def since_removal_def\<close>)
  then show ?thesis unfolding gone_kind_def Some pr by (simp add: triple_seq [OF triple_inspect])
qed

definition ready :: "deletion_plan \<Rightarrow> run \<Rightarrow> bool" where
  "ready plan t \<longleftrightarrow>
     removals_justified plan t \<and> locked_out plan t \<and> (\<forall>k. seen_as_captured plan t k)"

lemma kept_ready [kept]: "kept_by_looking (ready plan)"
  unfolding ready_def by (intro kept)

lemma triple_remove_file:
  assumes "captured plan k = Some f" and "plan_path plan k = Some (path, root)"
  shows "triple os (\<lambda>t. inspection path root (Some (pf_fingerprint f)) t \<and> ready plan t)
     (remove_file path) (\<lambda>_. ready plan) (ready plan)"
proof -
  have step: "ready plan (Unlink path a # t)"
    if "inspection path root (Some (pf_fingerprint f)) t \<and> ready plan t" for t a
  proof -
    from that assms have "just_seen plan path t" unfolding inspection_def just_seen_def by fastforce
    with that show ?thesis
      by (auto simp: ready_def may_remove_def locked_out_def seen_as_captured_def)
  qed
  show ?thesis
    unfolding remove_file_def
    by (rule triple_seq [OF triple_ask [where Q = "\<lambda>_. ready plan"] triple_require]) (auto intro: step)
qed

lemma triple_remove_kind:
  "triple os (ready plan) (remove_kind plan lock k) (\<lambda>_. ready plan) (ready plan)"
proof (cases "captured plan k")
  case None
  then show ?thesis by (simp add: remove_kind_def triple_ret)
next
  case f: (Some f)
  show ?thesis
  proof (cases "plan_path plan k")
    case None
    with f show ?thesis unfolding remove_kind_def
      by (auto intro!: triple_seq [OF triple_looks [OF check_all_looks kept_ready]] triple_fail)
  next
    case (Some pr)
    obtain path root where pr: "pr = (path, root)" by fastforce
    have "triple os (\<lambda>t. inspection path root seen t \<and> ready plan t)
       (case seen of None \<Rightarrow> ret ()
        | Some actual \<Rightarrow> seq (require (actual = pf_fingerprint f) changed) (\<lambda>_. remove_file path))
       (\<lambda>_. ready plan) (ready plan)" for seen
    proof (cases seen)
      case (Some actual)
      have "triple os (\<lambda>t. inspection path root (Some actual) t \<and> ready plan t)
          (require (actual = pf_fingerprint f) changed)
          (\<lambda>_ t. inspection path root (Some (pf_fingerprint f)) t \<and> ready plan t) (ready plan)"
        by (rule triple_require) auto
      with Some \<open>plan_path plan k = Some pr\<close> pr f show ?thesis
        by (simp add: triple_seq [OF _ triple_remove_file])
    qed (auto intro: triple_ret)
    moreover have "triple os (ready plan) (inspect path root)
        (\<lambda>x t. inspection path root x t \<and> ready plan t) (ready plan)"
      by (rule triple_looks_conj [OF inspect_looks kept_ready triple_inspect])
    ultimately show ?thesis
      unfolding remove_kind_def f Some pr
      by (auto intro!: triple_seq [OF triple_looks [OF check_all_looks kept_ready]] triple_seq)
  qed
qed

lemma triple_execute_locked:
  "triple os (\<lambda>t. removals_justified plan t \<and> locked_out plan t) (execute_locked plan lock)
     (\<lambda>_ t. removals_justified plan t \<and> (\<forall>k. seen_gone plan t k)) (removals_justified plan)"
proof -
  let ?H = "\<lambda>t. removals_justified plan t \<and> locked_out plan t"
  let ?E = "removals_justified plan"
  have look: "triple os K m (\<lambda>_. K) ?E"
    if "adds looks m" "kept_by_looking K" "\<And>t. K t \<Longrightarrow> ?E t" for K and m :: "unit act"
    using triple_looks [OF that(1,2)] by (rule triple_conseq) (auto intro: that(3))
  have H: "kept_by_looking ?H" by (intro kept)
  have pre: "triple os ?H (preflight plan) (\<lambda>_. ready plan) ?E"
    unfolding preflight_def
    by (rule triple_conseq [OF triple_for_each_looks [OF preflight_looks(1) H kept_seen triple_preflight_kind]])
      (auto simp: ready_def)
  have rem: "triple os (ready plan) (for_each (remove_kind plan lock) KINDS) (\<lambda>_. ready plan) ?E"
    by (rule triple_conseq [OF triple_for_each [OF triple_remove_kind]]) (auto simp: ready_def)
  have gone: "triple os (ready plan) (for_each (gone_kind plan) KINDS)
      (\<lambda>_ t. ?E t \<and> (\<forall>k. seen_gone plan t k)) ?E"
    by (rule triple_conseq [OF triple_for_each_looks [OF gone_kind_looks kept_ready kept_gone triple_gone_kind]])
      (auto simp: ready_def)
  show ?thesis
    unfolding execute_locked_def
    by (intro triple_seq [OF look [where K = ?H]] triple_seq [OF pre] triple_seq [OF rem]
        triple_seq [OF look [where K = "ready plan"]] triple_seq [OF gone] look adds_intros kept)
      (auto simp: ready_def)
qed

section \<open>The lock\<close>

text \<open>The events of taking a lock, and all events an execution may have.\<close>

fun lock_event :: "(string \<Rightarrow> bool) \<Rightarrow> event \<Rightarrow> bool" where
  "lock_event ok (LockOpen p _) = ok p"
| "lock_event ok (TryLock p _) = ok p"
| "lock_event ok (Unlock p) = ok p"
| "lock_event ok _ = False"

lemma adds_mono: "adds ok m \<Longrightarrow> (\<And>e. ok e \<Longrightarrow> ok' e) \<Longrightarrow> adds ok' m"
  by (simp add: adds_def) (metis (mono_tags, lifting) list.pred_mono_strong)

lemma adds_release: "adds ok m \<Longrightarrow> ok (Unlock (nl_path l)) \<Longrightarrow> adds ok (release l m)"
  by (auto simp: adds_def release_def split: prod.splits) (metis append_Cons list.pred_inject(2) snd_conv)

lemma adds_release_on_error: "adds ok m \<Longrightarrow> ok (Unlock (nl_path l)) \<Longrightarrow> adds ok (release_on_error l m)"
  by (auto simp: adds_def release_on_error_def split: prod.splits sum.splits)
    (metis append_Cons list.pred_inject(2) snd_conv)+

lemma release_on_error_Inr [simp]: "release_on_error l m os t = (Inr x, t') \<longleftrightarrow> m os t = (Inr x, t')"
  by (auto simp: release_on_error_def split: prod.splits sum.splits)

lemma release_eq [simp]:
  "release l m os t = (r, t') \<longleftrightarrow> (\<exists>t0. m os t = (r, t0) \<and> t' = Unlock (nl_path l) # t0)"
  by (auto simp: release_def split: prod.splits)

lemma acquire_events:
  assumes "\<And>e. looks e \<Longrightarrow> ok e" and "\<And>e. lock_event (\<lambda>q. q = p @ ''.lock'') e \<Longrightarrow> ok e"
  shows "adds ok (acquire p root)"
proof -
  have look: "adds ok m" if "adds looks m" for m :: "'b act"
    using that by (rule adds_mono) (rule assms(1))
  have "adds ok (try_lock q)" if "q = p @ ''.lock''" for q
    unfolding try_lock_def using that
    by (intro adds_seq adds_ask) (auto intro: assms(2) adds_simple split: lock_answer.splits)
  then show ?thesis
    unfolding acquire_def Let_def
    by (intro adds_seq adds_ask adds_simple adds_release_on_error look [OF inspect_looks]
        look [OF check_lock_looks] look [OF held_metadata_looks]) (auto intro: assms(2))
qed

lemma acquire_locks:
  assumes "acquire p root os t = (Inr l, t')"
  shows "\<exists>new. t' = new @ t \<and> \<not> list_ex releases new \<and> TryLock (p @ ''.lock'') Locked \<in> set new \<and>
           nl_path l = p @ ''.lock''"
proof -
  have quiet: "\<exists>new. t2 = new @ t1 \<and> \<not> list_ex releases new" if "adds looks m" "m os t1 = (r, t2)"
    for m :: "'b act" and r t1 t2
    using addsE [OF that] looks_harmless by (metis list_all_iff list_ex_iff)
  from assms obtain t1 t2 t3 t4 b m1 m2 l0 where
      1: "inspect (p @ ''.lock'') root os t = (Inr b, t1)"
      and 2: "held_metadata (p @ ''.lock'') os (LockOpen (p @ ''.lock'') True # t1) = (Inr m1, t2)"
      and 3: "held_metadata (p @ ''.lock'') os t2 = (Inr m2, t3)"
      and 4: "try_lock (p @ ''.lock'') os t3 = (Inr (), t4)"
      and 5: "check_lock l root os t4 = (Inr (), t')" and l: "nl_path l = p @ ''.lock''"
    by (auto simp: acquire_def Let_def seq_Inr)
  from 4 have "t4 = TryLock (p @ ''.lock'') Locked # t3"
    by (auto simp: try_lock_def seq_Inr split: lock_answer.splits)
  with quiet [OF inspect_looks 1] quiet [OF held_metadata_looks 2] quiet [OF held_metadata_looks 3]
    quiet [OF check_lock_looks 5] l
  show ?thesis by fastforce
qed

lemma justified_append: "\<not> list_ex removes new \<Longrightarrow> removals_justified plan (new @ t) = removals_justified plan t"
proof (induction new)
  case (Cons e new)
  then show ?case by (cases e) auto
qed simp

section \<open>Executions\<close>

definition plan_removal :: "deletion_plan \<Rightarrow> event \<Rightarrow> bool" where
  "plan_removal plan e \<longleftrightarrow>
     (\<exists>k f path root a. captured plan k = Some f \<and> plan_path plan k = Some (path, root) \<and> e = Unlink path a)"

definition execution_event :: "deletion_plan \<Rightarrow> event \<Rightarrow> bool" where
  "execution_event plan e \<longleftrightarrow> looks e \<or> plan_removal plan e \<or>
     lock_event (\<lambda>q. \<exists>p. dp_primary plan = Some p \<and> q = lock_path plan p) e"

lemma execute_locked_events: "adds (\<lambda>e. looks e \<or> plan_removal plan e) (execute_locked plan lock)"
proof -
  have look: "adds (\<lambda>e. looks e \<or> plan_removal plan e) m" if "adds looks m" for m :: "'b act"
    using that by (rule adds_mono) simp
  have "adds (\<lambda>e. looks e \<or> plan_removal plan e) (remove_kind plan lock k)" for k
  proof (cases "captured plan k")
    case (Some f)
    have "adds (\<lambda>e. looks e \<or> plan_removal plan e) (remove_file path)" if "plan_path plan k = Some (path, root)" for path root
      unfolding remove_file_def using Some that
      by (intro adds_seq adds_simple adds_ask) (auto simp: plan_removal_def)
    with Some show ?thesis
      unfolding remove_kind_def
      by (cases "plan_path plan k") (auto intro!: adds_seq adds_simple adds_case_option look [OF check_all_looks] look [OF inspect_looks])
  qed (simp add: remove_kind_def adds_simple)
  then show ?thesis
    unfolding execute_locked_def
    by (intro adds_seq adds_for_each look [OF check_all_looks] look [OF verify_candidates_looks]
        look [OF preflight_looks(2)] look [OF gone_kind_looks])
qed

lemma execute_events: "adds (execution_event plan) (execute plan)"
proof -
  have mono: "adds (execution_event plan) m" if "adds (\<lambda>e. looks e \<or> plan_removal plan e) m" for m :: "'b act"
    using that by (rule adds_mono) (auto simp: execution_event_def)
  have look: "adds (execution_event plan) m" if "adds looks m" for m :: "'b act"
    using that by (rule adds_mono) (auto simp: execution_event_def)
  have locked: "adds (execution_event plan)
      (seq (acquire (join_path (da_path (dp_root plan)) p) (dp_root plan)) (\<lambda>l.
         release l (execute_locked plan (Some l))))" (is "adds _ ?m") if p: "dp_primary plan = Some p" for p
  proof -
    let ?q = "join_path (da_path (dp_root plan)) p"
    have acq: "adds (execution_event plan) (acquire ?q (dp_root plan))"
    proof (rule acquire_events)
      fix e assume "lock_event (\<lambda>q. q = ?q @ ''.lock'') e"
      with p show "execution_event plan e" by (cases e) (auto simp: execution_event_def lock_path_def)
    qed (simp add: execution_event_def)
    show ?thesis
      unfolding adds_def
    proof (intro allI)
      fix os t
      obtain r t1 where m: "acquire ?q (dp_root plan) os t = (r, t1)" by fastforce
      with acq obtain new where new: "t1 = new @ t" "list_all (execution_event plan) new" by (rule addsE)
      show "\<exists>new. snd (?m os t) = new @ t \<and> list_all (execution_event plan) new"
      proof (cases r)
        case (Inr l)
        with acquire_locks m have "nl_path l = lock_path plan p" by (fastforce simp: lock_path_def)
        with p have "execution_event plan (Unlock (nl_path l))" by (simp add: execution_event_def)
        with mono [OF execute_locked_events] have "adds (execution_event plan) (release l (execute_locked plan (Some l)))"
          by (rule adds_release)
        then obtain new' where "snd (release l (execute_locked plan (Some l)) os t1) = new' @ t1"
            "list_all (execution_event plan) new'" unfolding adds_def by blast
        with m Inr new show ?thesis by (intro exI [of _ "new' @ new"]) (simp add: seq_def)
      qed (use m new in \<open>simp add: seq_def\<close>)
    qed
  qed
  have "adds (execution_event plan) (case dp_primary plan of
       None \<Rightarrow> execute_locked plan None
     | Some p \<Rightarrow> seq (acquire (join_path (da_path (dp_root plan)) p) (dp_root plan)) (\<lambda>l.
         release l (execute_locked plan (Some l))))" (is "adds _ ?m")
    by (cases "dp_primary plan") (simp_all add: locked mono [OF execute_locked_events])
  note rest = this
  show ?thesis
    unfolding execute_def
    by (rule adds_seq adds_simple rest look [OF check_anchor_looks])+
qed

definition untouched :: "run \<Rightarrow> bool" where
  "untouched t \<longleftrightarrow> \<not> list_ex removes t \<and> \<not> list_ex releases t"

lemma kept_untouched [kept]: "kept_by_looking untouched"
  unfolding kept_by_looking_def untouched_def using looks_harmless by auto

lemma untouched_justified: "\<not> list_ex removes t \<Longrightarrow> removals_justified plan t"
  using justified_append [of t plan "[]"] by simp

lemma triple_acquire:
  assumes "dp_primary plan = Some p" and "path_eq (q @ ''.lock'') (lock_path plan p)"
  shows "triple os untouched (acquire q root) (\<lambda>_ t. \<not> list_ex removes t \<and> locked_out plan t)
           (\<lambda>t. \<not> list_ex removes t)"
  unfolding triple_def
proof (intro allI impI)
  fix t assume t: "untouched t"
  obtain r t' where m: "acquire q root os t = (r, t')" by fastforce
  have "adds (\<lambda>e. \<not> removes e) (acquire q root)"
  proof (rule acquire_events)
    show "\<not> removes e" if "lock_event (\<lambda>p. p = q @ ''.lock'') e" for e using that by (cases e) auto
  qed (use looks_harmless in blast)
  from addsE [OF this m] obtain new where "t' = new @ t" "list_all (\<lambda>e. \<not> removes e) new" .
  with t have "\<not> list_ex removes t'" by (auto simp: untouched_def list_ex_iff list_all_iff)
  moreover have "locked_out plan t'" if "r = Inr l" for l
  proof -
    from m that have "acquire q root os t = (Inr l, t')" by simp
    from acquire_locks [OF this] obtain new where "t' = new @ t" "\<not> list_ex releases new"
        "TryLock (q @ ''.lock'') Locked \<in> set new" by auto
    with t have "\<not> list_ex releases t'" "TryLock (q @ ''.lock'') Locked \<in> set t'"
      by (simp_all add: untouched_def)
    with assms show ?thesis unfolding locked_out_def by (metis option.inject)
  qed
  ultimately show "case acquire q root os t of (Inr l, t') \<Rightarrow> \<not> list_ex removes t' \<and> locked_out plan t'
      | (Inl e, t') \<Rightarrow> \<not> list_ex removes t'"
    using m by (cases r) auto
qed

lemma triple_release:
  assumes "triple os P m (\<lambda>x t. Q x (Unlock (nl_path l) # t)) (\<lambda>t. E (Unlock (nl_path l) # t))"
  shows "triple os P (release l m) Q E"
  using assms by (force simp: triple_def release_def split: prod.splits sum.splits)

lemma triple_execute_and_release:
  "triple os (\<lambda>t. removals_justified plan t \<and> locked_out plan t) (release l (execute_locked plan lock))
     (\<lambda>_ t. removals_justified plan t \<and> (\<forall>k. seen_gone plan t k)) (removals_justified plan)"
  by (rule triple_release, rule triple_conseq [OF triple_execute_locked])
    (auto simp: seen_gone_def since_removal_def)

lemma triple_execute:
  "triple os untouched (execute plan)
     (\<lambda>_ t. removals_justified plan t \<and> (\<forall>k. seen_gone plan t k)) (removals_justified plan)"
proof -
  let ?Q = "\<lambda>_ t. removals_justified plan t \<and> (\<forall>k. seen_gone plan t k)"
  have look: "triple os untouched m (\<lambda>_. untouched) (removals_justified plan)"
    if "adds looks m" for m :: "'b act"
    by (rule triple_conseq [OF triple_looks [OF that kept_untouched]])
      (auto simp: untouched_def untouched_justified)
  have rest: "triple os untouched (case dp_primary plan of
       None \<Rightarrow> execute_locked plan None
     | Some p \<Rightarrow> seq (acquire (join_path (da_path (dp_root plan)) p) (dp_root plan)) (\<lambda>l.
         release l (execute_locked plan (Some l)))) ?Q (removals_justified plan)"
  proof (cases "dp_primary plan")
    case None
    then have "triple os untouched (execute_locked plan None) ?Q (removals_justified plan)"
      by (intro triple_conseq [OF triple_execute_locked])
        (auto simp: untouched_def untouched_justified locked_out_def)
    with None show ?thesis by simp
  next
    case (Some p)
    let ?q = "join_path (da_path (dp_root plan)) p"
    have "triple os untouched (acquire ?q (dp_root plan))
        (\<lambda>_ t. removals_justified plan t \<and> locked_out plan t) (removals_justified plan)"
      by (rule triple_conseq [OF triple_acquire [OF Some]])
        (auto simp: lock_path_def path_eq_def untouched_justified)
    with Some show ?thesis by (simp add: triple_seq [OF _ triple_execute_and_release])
  qed
  show ?thesis
    unfolding execute_def
    by (rule triple_seq [OF look] rest adds_intros)+
qed

end
