(* ===== verification/Deletion_Disk.thy ===== *)
theory Deletion_Disk
  imports Deletion_Exact
begin

text \<open>
  A disk that nothing but the program changes: what is at a path is what was there at first, less the
  files removed since. On such a disk the result of an operation depends only on which files are gone;
  the rules below evaluate operations that way.
\<close>

record disk =
  d_node :: "string list \<Rightarrow> metadata option"
  d_bytes :: "string list \<Rightarrow> string"
  d_names :: "string list \<Rightarrow> string list"
  d_cwd :: "string option"
  d_hyphenated :: "string \<Rightarrow> string option"
  d_json :: "string \<Rightarrow> json option"

fun removed :: "run \<Rightarrow> string list set" where
  "removed [] = {}"
| "removed (e # t) =
     (case e of Unlink p Removed \<Rightarrow> insert (components p) (removed t) | _ \<Rightarrow> removed t)"

definition node_after :: "disk \<Rightarrow> run \<Rightarrow> string \<Rightarrow> metadata option" where
  "node_after d t p = (if components p \<in> removed t then None else d_node d (components p))"

text \<open>How many bytes of a file have been read since it was opened last.\<close>

fun bytes_read :: "string \<Rightarrow> run \<Rightarrow> nat" where
  "bytes_read p [] = 0"
| "bytes_read p (e # t) = (case e of
     Open q _ \<Rightarrow> if q = p then 0 else bytes_read p t
   | Byte q _ \<Rightarrow> if q = p then Suc (bytes_read p t) else bytes_read p t
   | _ \<Rightarrow> bytes_read p t)"

definition quiet :: "disk \<Rightarrow> os" where
  "quiet d = \<lparr>
     sys_stat = (\<lambda>t p. case node_after d t p of None \<Rightarrow> Absent | Some m \<Rightarrow> Found m),
     sys_canon = (\<lambda>t p. map_option (\<lambda>_. path_of (components p)) (node_after d t p)),
     sys_list = (\<lambda>t p. case node_after d t p of
       None \<Rightarrow> None
     | Some m \<Rightarrow>
         if md_type m = Directory
         then Some (map Some (filter (\<lambda>n. node_after d t (join_path p n) \<noteq> None) (d_names d (components p))))
         else None),
     sys_late = (\<lambda>t. False),
     sys_open = (\<lambda>t p. node_after d t p \<noteq> None),
     sys_held = (\<lambda>t p. node_after d t p),
     sys_byte = (\<lambda>t p. Some (let k = bytes_read p t; bs = d_bytes d (components p)
                             in if k < length bs then Some (bs ! k) else None)),
     sys_lock_open = (\<lambda>t p. node_after d t p \<noteq> None),
     sys_try_lock = (\<lambda>t p. Locked),
     sys_unlink = (\<lambda>t p. if node_after d t p \<noteq> None then Removed else Gone),
     sys_write = (\<lambda>t e. True),
     sys_cwd = d_cwd d,
     hyphenated = d_hyphenated d,
     parse_json = d_json d\<rparr>"

section \<open>Evaluation\<close>

definition sees :: "disk \<Rightarrow> string list set \<Rightarrow> string \<Rightarrow> metadata option" where
  "sees d R p = (if components p \<in> R then None else d_node d (components p))"

lemma node_after_sees: "node_after d t p = sees d (removed t) p"
  by (simp add: node_after_def sees_def)

text \<open>With the files \<open>R\<close> gone the operation returns \<open>r\<close>, and then the files \<open>R'\<close> are gone.\<close>

definition steps ::
  "os \<Rightarrow> string list set \<Rightarrow> ('e, 'a) io \<Rightarrow> 'e + 'a \<Rightarrow> string list set \<Rightarrow> bool" where
  "steps os R m r R' \<longleftrightarrow> (\<forall>t. removed t = R \<longrightarrow> (\<exists>t'. m os t = (r, t') \<and> removed t' = R'))"

lemmas removed_Cons = removed.simps(2)

declare removed_Cons [simp del]

lemma removed_looks: "list_all looks new \<Longrightarrow> removed (new @ t) = removed t"
proof (induction new)
  case (Cons e new)
  then show ?case by (cases e) (auto simp: removed_Cons)
qed simp

lemma steps_run: "steps os R m r R' \<Longrightarrow> removed t = R \<Longrightarrow> \<exists>t'. m os t = (r, t') \<and> removed t' = R'"
  by (simp add: steps_def)

lemma steps_ret: "steps os R (ret x) (Inr x) R"
  by (simp add: steps_def ret_def)

lemma steps_fail: "steps os R (fail e) (Inl e) R"
  by (simp add: steps_def fail_def)

lemma steps_seq: "steps os R m (Inr x) R1 \<Longrightarrow> steps os R1 (f x) r R2 \<Longrightarrow> steps os R (seq m f) r R2"
  unfolding steps_def seq_def by fastforce

lemma steps_seq_fail: "steps os R m (Inl e) R1 \<Longrightarrow> steps os R (seq m f) (Inl e) R1"
  unfolding steps_def seq_def by fastforce

lemma steps_require: "steps os R (require ok e) (if ok then Inr () else Inl e) R"
  by (simp add: steps_def require_def ret_def fail_def)

lemma steps_need: "steps os R (need e m) (case m of None \<Rightarrow> Inl e | Some x \<Rightarrow> Inr x) R"
  by (simp add: steps_def need_def ret_def fail_def split: option.splits)

lemma steps_know: "steps os R (know g) (Inr (g os)) R"
  by (simp add: steps_def know_def)

lemma steps_ask:
  assumes "\<And>t. removed t = R \<Longrightarrow> f os t = a" and "\<And>t. removed t = R \<Longrightarrow> removed (ev a # t) = R'"
  shows "steps os R (ask f ev) (Inr a) R'"
  using assms by (simp add: steps_def ask_def Let_def)

lemma steps_for_each:
  assumes "\<And>c. c \<in> set cs \<Longrightarrow> steps os R (f c) (Inr ()) R"
  shows "steps os R (for_each f cs) (Inr ()) R"
  using assms by (induction cs) (auto intro: steps_ret steps_seq)

text \<open>A looking operation whose result depends only on which files are gone.\<close>

definition settled :: "os \<Rightarrow> ('e, 'a) io \<Rightarrow> bool" where
  "settled os m \<longleftrightarrow> adds looks m \<and> (\<forall>t t'. removed t = removed t' \<longrightarrow> fst (m os t) = fst (m os t'))"

named_theorems settled_intros \<open>operations whose result depends only on which files are gone\<close>

lemma looks_removed: "adds looks m \<Longrightarrow> m os t = (r, t') \<Longrightarrow> removed t' = removed t"
  by (erule (1) addsE) (simp add: removed_looks)

lemma settledD:
  assumes "settled os m"
  shows "adds looks m" and "removed t = removed t' \<Longrightarrow> fst (m os t) = fst (m os t')"
  using assms unfolding settled_def by blast+

lemma settledI:
  "adds looks m \<Longrightarrow> (\<And>t t'. removed t = removed t' \<Longrightarrow> fst (m os t) = fst (m os t')) \<Longrightarrow> settled os m"
  unfolding settled_def by blast

lemma settled_steps:
  assumes "settled os m" and m: "m os t = (r, t')"
  shows "steps os (removed t) m r (removed t)"
  unfolding steps_def
proof (intro allI impI)
  fix u assume u: "removed u = removed t"
  obtain r' u' where mu: "m os u = (r', u')" by fastforce
  have "r' = r" using settledD(2) [OF assms(1) u] m mu by simp
  moreover have "removed u' = removed t" using looks_removed [OF settledD(1) [OF assms(1)] mu] u by simp
  ultimately show "\<exists>u'. m os u = (r, u') \<and> removed u' = removed t" using mu by simp
qed

lemma steps_result: "steps os R m r R' \<Longrightarrow> m os t = (r', t') \<Longrightarrow> removed t = R \<Longrightarrow> r' = r \<and> removed t' = R'"
  unfolding steps_def by force

lemma settled_ret [settled_intros]: "settled os (ret x)"
  by (rule settledI [OF adds_simple(1)]) (simp only: ret_def fst_conv)

lemma settled_fail [settled_intros]: "settled os (fail e)"
  by (rule settledI [OF adds_simple(2)]) (simp only: fail_def fst_conv)

lemma settled_require [settled_intros]: "settled os (require b e)"
  by (simp add: require_def settled_ret settled_fail)

lemma settled_need [settled_intros]: "settled os (need e m)"
  by (cases m) (simp_all add: need_def settled_ret settled_fail)

lemma settled_know [settled_intros]: "settled os (know g)"
  by (rule settledI [OF adds_simple(5)]) (simp only: know_def fst_conv)

lemma settled_ask [settled_intros]:
  assumes "\<And>a. looks (ev a)" and "\<And>t t'. removed t = removed t' \<Longrightarrow> f os t = f os t'"
  shows "settled os (ask f ev)"
  by (intro settledI adds_ask assms(1)) (simp only: ask_def Let_def fst_conv sum.inject, rule assms(2))

lemma settled_seq [settled_intros]:
  assumes m: "settled os m" and f: "\<And>x. settled os (f x)"
  shows "settled os (seq m f)"
proof (rule settledI)
  show "adds looks (seq m f)" using assms by (intro adds_seq settledD(1))
next
  fix t u :: run assume tu: "removed t = removed u"
  obtain r t1 where t: "m os t = (r, t1)" by fastforce
  obtain r' u1 where u: "m os u = (r', u1)" by fastforce
  have r: "r' = r" using settledD(2) [OF m tu] t u by simp
  have "removed t1 = removed u1"
    using looks_removed [OF settledD(1) [OF m] t] looks_removed [OF settledD(1) [OF m] u] tu by simp
  from settledD(2) [OF f this] t u r show "fst (seq m f os t) = fst (seq m f os u)"
    by (cases r) (simp_all add: seq_def)
qed

lemma settled_case_option [settled_intros]:
  "settled os a \<Longrightarrow> (\<And>x. settled os (b x)) \<Longrightarrow> settled os (case r of None \<Rightarrow> a | Some x \<Rightarrow> b x)"
  by (cases r) auto

lemma settled_if [settled_intros]: "settled os a \<Longrightarrow> settled os b \<Longrightarrow> settled os (if c then a else b)"
  by simp

lemma settled_case_prod [settled_intros]:
  "(\<And>x y. settled os (f x y)) \<Longrightarrow> settled os (case p of (x, y) \<Rightarrow> f x y)"
  by (cases p) auto

section \<open>The looking operations\<close>

lemma quiet_simps [simp]:
  "sys_stat (quiet d) t p = (case sees d (removed t) p of None \<Rightarrow> Absent | Some m \<Rightarrow> Found m)"
  "sys_canon (quiet d) t p = map_option (\<lambda>_. path_of (components p)) (sees d (removed t) p)"
  "sys_list (quiet d) t p = (case sees d (removed t) p of
     None \<Rightarrow> None
   | Some m \<Rightarrow> if md_type m = Directory
       then Some (map Some (filter (\<lambda>n. sees d (removed t) (join_path p n) \<noteq> None) (d_names d (components p))))
       else None)"
  "sys_late (quiet d) t = False"
  "sys_open (quiet d) t p \<longleftrightarrow> sees d (removed t) p \<noteq> None"
  "sys_held (quiet d) t p = sees d (removed t) p"
  "sys_lock_open (quiet d) t p \<longleftrightarrow> sees d (removed t) p \<noteq> None"
  "sys_try_lock (quiet d) t p = Locked"
  "sys_unlink (quiet d) t p = (if sees d (removed t) p \<noteq> None then Removed else Gone)"
  "sys_cwd (quiet d) = d_cwd d"
  "hyphenated (quiet d) = d_hyphenated d"
  "parse_json (quiet d) = d_json d"
  by (simp_all add: quiet_def node_after_sees split: option.splits)

lemma settled_metadata_at [settled_intros]: "settled (quiet d) (metadata_at p)"
  unfolding metadata_at_def
  by (intro settled_seq settled_ask) (auto split: stat_answer.splits intro: settled_intros)

lemma settled_check_parts [settled_intros]: "settled (quiet d) (check_parts current parts)"
  by (induction current parts rule: check_parts.induct) (auto simp: Let_def intro!: settled_intros)

lemma settled_check_components [settled_intros]: "settled (quiet d) (check_components p)"
  unfolding check_components_def by (intro settled_intros)

lemma settled_canonical_path [settled_intros]: "settled (quiet d) (canonical_path p)"
  unfolding canonical_path_def by (intro settled_intros) auto

lemma settled_inspect [settled_intros]: "settled (quiet d) (inspect p root)"
  unfolding inspect_def by (intro settled_intros)

lemma settled_check_anchor [settled_intros]: "settled (quiet d) (check_anchor a)"
  unfolding check_anchor_def by (intro settled_intros)

lemma settled_held_metadata [settled_intros]: "settled (quiet d) (held_metadata p)"
  unfolding held_metadata_def by (intro settled_intros) auto

lemma settled_check_lock [settled_intros]: "settled (quiet d) (check_lock l root)"
  unfolding check_lock_def by (intro settled_intros)

lemma header_line_same:
  assumes "bytes_read p t = bytes_read p t'"
  shows "fst (header_line p line (quiet d) t) = fst (header_line p line (quiet d) t')"
  using assms
proof (induction p line arbitrary: t t' rule: header_line.induct)
  case (1 p line)
  show ?case
  proof (cases "length line < HEADER_LIMIT")
    case True
    let ?os = "quiet d"
    have a: "sys_byte ?os t p = sys_byte ?os t' p" using 1(2) by (simp add: quiet_def)
    obtain a where at: "sys_byte ?os t' p = a" by simp
    show ?thesis
    proof (cases a)
      case (Some b)
      show ?thesis
      proof (cases b)
        case (Some c)
        have "fst (header_line p (line @ [c]) ?os (Byte p (Some (Some c)) # t)) =
              fst (header_line p (line @ [c]) ?os (Byte p (Some (Some c)) # t'))" if "c \<noteq> NL"
          by (rule 1(1) [OF True \<open>a = Some b\<close> Some that]) (simp add: 1(2))
        with True a at Some \<open>a = Some b\<close> show ?thesis
          by (simp add: header_line.simps [of p line] seq_def ask_def Let_def ret_def)
      qed (use True a at \<open>a = Some b\<close> in
            \<open>simp add: header_line.simps [of p line] seq_def ask_def Let_def ret_def\<close>)
    qed (use True a at in \<open>simp add: header_line.simps [of p line] seq_def ask_def Let_def fail_def\<close>)
  qed (simp add: header_line.simps [of p line] ret_def)
qed

text \<open>Reading the header of a file depends only on the file.\<close>

lemma header_same:
  assumes "sees d (removed t) p = sees d (removed u) p"
  shows "fst (header p sid expected (quiet d) t) = fst (header p sid expected (quiet d) u)"
proof -
  let ?os = "quiet d"
  define check where "check line = seq (require (line \<noteq> [] \<and> last line = NL) unknown) (\<lambda>_.
     seq (know parse_json) (\<lambda>parse.
     seq (need unknown (parse line)) (\<lambda>v.
     seq (require (header_ok v sid) unknown) (\<lambda>_.
     seq (held_metadata p) (\<lambda>m.
     require (fingerprint_of m = expected) changed)))))" for line :: string
  have check: "fst (check line ?os t1) = fst (check line ?os u1)"
    if "sees d (removed t1) p = sees d (removed u1) p" for t1 u1 line
    using that
    by (auto simp: check_def held_metadata_def seq_def ask_def know_def Let_def require_def need_def ret_def fail_def
        split: option.splits)
  have line: "fst (seq (header_line p []) check ?os t1) = fst (seq (header_line p []) check ?os u1)"
    if "removed t1 = removed t" "removed u1 = removed u" "bytes_read p t1 = bytes_read p u1" for t1 u1
  proof -
    obtain r t2 where t: "header_line p [] ?os t1 = (r, t2)" by fastforce
    obtain r' u2 where u: "header_line p [] ?os u1 = (r', u2)" by fastforce
    have r: "r' = r" using header_line_same [OF that(3), of "[]" d] t u by simp
    have "sees d (removed t2) p = sees d (removed u2) p"
      using looks_removed [OF header_line_looks t] looks_removed [OF header_line_looks u] that assms by simp
    from check [OF this] t u r show ?thesis by (cases r) (simp_all add: seq_def)
  qed
  have header: "header p sid expected = seq (ask (\<lambda>os t. sys_open os t p) (Open p)) (\<lambda>opened.
     seq (require opened unavailable) (\<lambda>_. seq (held_metadata p) (\<lambda>m.
     seq (require (fingerprint_of m = expected) changed) (\<lambda>_. seq (header_line p []) check))))"
    by (simp add: header_def check_def [abs_def])
  show ?thesis
  proof (cases "sees d (removed u) p")
    case None
    with assms show ?thesis
      by (simp add: header seq_def ask_def Let_def require_def fail_def)
  next
    case (Some m)
    have "fst (seq (header_line p []) check ?os (Held p (Some m) # Open p True # t)) =
          fst (seq (header_line p []) check ?os (Held p (Some m) # Open p True # u))"
      by (rule line) (simp_all add: removed_Cons)
    with assms Some show ?thesis
      by (simp add: header held_metadata_def run_simps removed_Cons)
  qed
qed

section \<open>What stays true when files are gone\<close>

text \<open>Only regular files are gone.\<close>

definition files_gone :: "disk \<Rightarrow> string list set \<Rightarrow> bool" where
  "files_gone d R \<longleftrightarrow> (\<forall>cs \<in> R. \<exists>m. d_node d cs = Some m \<and> md_type m = Regular)"

lemma sees_none [simp]: "sees d {} p = d_node d (components p)"
  by (simp add: sees_def)

lemma steps_metadata_at:
  "steps (quiet d) R (metadata_at p)
     (case sees d R p of None \<Rightarrow> Inr None
      | Some m \<Rightarrow> if md_type m = Symlink then Inl unsafe_path else Inr (Some m)) R"
  by (auto simp: steps_def metadata_at_def seq_def ask_def Let_def ret_def fail_def removed_Cons
      split: option.splits)

lemma sees_gone: "components p \<in> R \<Longrightarrow> sees d R p = None"
  by (simp add: sees_def)

lemma sees_kept: "components p \<notin> R \<Longrightarrow> sees d R p = d_node d (components p)"
  by (simp add: sees_def)

lemma metadata_at_steps:
  "metadata_at p (quiet d) t = (Inr found, t') \<Longrightarrow> removed t = {} \<Longrightarrow>
   steps (quiet d) R (metadata_at p) (Inr (if components p \<in> R then None else found)) R"
  using steps_metadata_at [of d R p]
  by (auto simp: metadata_at_Inr sees_def split: option.splits if_splits)

lemma check_parts_steps:
  assumes "check_parts current parts (quiet d) t = (Inr u, t')" and "removed t = {}"
  shows "steps (quiet d) R (check_parts current parts) (Inr ()) R"
  using assms
proof (induction parts arbitrary: current t)
  case Nil
  show ?case by (simp add: steps_ret)
next
  case (Cons part parts)
  let ?c = "join_path current part"
  from Cons.prems obtain found t1 where part: "part \<noteq> ''..''" "part \<noteq> ''.''"
      and look: "metadata_at ?c (quiet d) t = (Inr found, t1)"
      and rest: "check_parts ?c parts (quiet d) t1 = (Inr u, t')"
    by (auto simp: Let_def seq_Inr split: if_splits)
  from looks_removed [OF metadata_at_looks look] Cons.prems(2) have "removed t1 = {}" by simp
  from Cons.IH [OF rest this] metadata_at_steps [OF look Cons.prems(2)] part show ?case
    by (auto simp: Let_def intro: steps_seq)
qed

lemma check_components_steps:
  "check_components p (quiet d) t = (Inr u, t') \<Longrightarrow> removed t = {} \<Longrightarrow>
   steps (quiet d) R (check_components p) (Inr ()) R"
  by (auto simp: check_components_def intro: check_parts_steps split: if_splits)

lemma canonical_path_steps:
  "sees d R p \<noteq> None \<Longrightarrow> steps (quiet d) R (canonical_path p) (Inr (path_of (components p))) R"
  by (auto simp: steps_def canonical_path_def seq_def ask_def Let_def need_def ret_def removed_Cons)

lemma canonical_quiet:
  "canonical_path p (quiet d) t = (Inr c, t') \<Longrightarrow> c = path_of (components p) \<and> sees d (removed t) p \<noteq> None"
  by (auto simp: canonical_path_Inr)

lemma inspect_steps:
  assumes "inspect p root (quiet d) t = (Inr seen, t')" and t: "removed t = {}"
  shows "steps (quiet d) R (inspect p root) (Inr (if components p \<in> R then None else seen)) R"
proof -
  from assms(1) obtain t1 found t2 where under: "under (da_path root) p"
    and comps: "check_components p (quiet d) t = (Inr (), t1)"
    and look: "metadata_at p (quiet d) t1 = (Inr found, t2)"
    and rest: "(case found of None \<Rightarrow> ret None | Some m \<Rightarrow>
        if md_type m = Regular
        then seq (canonical_path p) (\<lambda>c.
          if under (da_path root) c then ret (Some (fingerprint_of m)) else fail unsafe_path)
        else fail unsafe_path) (quiet d) t2 = (Inr seen, t')"
    by (auto simp: inspect_def seq_Inr split: if_splits)
  from looks_removed [OF check_components_looks comps] t have t1: "removed t1 = {}" by simp
  note 1 = check_components_steps [OF comps t, of R] and 2 = metadata_at_steps [OF look t1, of R]
  have found: "found = Some m \<Longrightarrow> d_node d (components p) = Some m" for m
    using look t1 by (auto simp: metadata_at_Inr split: option.splits)
  show ?thesis
  proof (cases "components p \<in> R \<or> found = None")
    case True
    with rest have "seen = None \<or> components p \<in> R" by auto
    with True 2 have "steps (quiet d) R (metadata_at p) (Inr None) R" by (auto split: if_splits)
    moreover from True \<open>seen = None \<or> _\<close> rest have "(if components p \<in> R then None else seen) = None" by auto
    ultimately show ?thesis
      using under 1 unfolding inspect_def by (auto intro!: steps_seq [OF 1] steps_seq steps_ret)
  next
    case False
    then obtain m where m: "found = Some m" by blast
    with rest have reg: "md_type m = Regular" and seen: "seen = Some (fingerprint_of m)"
      and c: "under (da_path root) (path_of (components p))"
      by (auto simp: seq_Inr dest!: canonical_quiet split: if_splits)
    have "sees d R p = Some m" using False found [OF m] by (simp add: sees_kept)
    then have canon: "steps (quiet d) R (canonical_path p) (Inr (path_of (components p))) R"
      by (intro canonical_path_steps) simp
    have "steps (quiet d) R (seq (canonical_path p) (\<lambda>c.
          if under (da_path root) c then ret (Some (fingerprint_of m)) else fail unsafe_path)) (Inr seen) R"
      by (rule steps_seq [OF canon]) (simp add: c seen steps_ret)
    with under 1 2 False m reg show ?thesis
      unfolding inspect_def by (auto intro!: steps_seq [OF 1] steps_seq)
  qed
qed

end
