(* ===== verification/Deletion_Retry.thy ===== *)
theory Deletion_Retry
  imports Deletion_Disk
begin

text \<open>
  A deletion that was interrupted is finished by a retry of the same manifest: the search for files with
  some of them gone, and the execution on a disk that nobody else changes.
\<close>

lemma check_anchor_steps:
  assumes "check_anchor a (quiet d) t = (Inr u, t')" and t: "removed t = {}"
    and R: "components (da_path a) \<notin> R"
  shows "steps (quiet d) R (check_anchor a) (Inr ()) R"
proof -
  from assms(1) obtain t1 found t2 where
        comps: "check_components (da_path a) (quiet d) t = (Inr (), t1)"
    and look: "metadata_at (da_path a) (quiet d) t1 = (Inr found, t2)"
    and rest: "(case (found, da_identity a) of
       (Some m, Some expected) \<Rightarrow>
         if md_type m = Directory \<and> identity_of m = expected
         then seq (canonical_path (da_path a)) (\<lambda>c. require (path_eq c (da_path a)) unsafe_path)
         else fail changed
     | (None, None) \<Rightarrow> ret ()
     | _ \<Rightarrow> fail changed) (quiet d) t2 = (Inr u, t')"
    by (auto simp: check_anchor_def seq_Inr)
  from looks_removed [OF check_components_looks comps] t have t1: "removed t1 = {}" by simp
  note 1 = check_components_steps [OF comps t, of R]
  have 2: "steps (quiet d) R (metadata_at (da_path a)) (Inr found) R"
    using metadata_at_steps [OF look t1, of R] R by simp
  have found: "found = Some m \<Longrightarrow> sees d R (da_path a) = Some m" for m
    using look t1 R by (auto simp: metadata_at_Inr sees_kept split: option.splits)
  show ?thesis
  proof (cases found)
    case None
    with rest 1 2 show ?thesis
      unfolding check_anchor_def by (auto intro!: steps_seq [OF 1] steps_seq [OF 2] steps_ret split: option.splits)
  next
    case (Some m)
    with rest obtain expected where e: "da_identity a = Some expected" "md_type m = Directory" "identity_of m = expected"
      and c: "path_eq (path_of (components (da_path a))) (da_path a)"
      by (auto simp: seq_Inr canonical_path_Inr split: option.splits if_splits)
    have canon: "steps (quiet d) R (canonical_path (da_path a)) (Inr (path_of (components (da_path a)))) R"
      by (intro canonical_path_steps) (simp add: found [OF Some])
    have "steps (quiet d) R (seq (canonical_path (da_path a)) (\<lambda>c. require (path_eq c (da_path a)) unsafe_path)) (Inr ()) R"
      by (rule steps_seq [OF canon]) (use c steps_require in \<open>metis (full_types)\<close>)
    with Some e 1 2 show ?thesis
      unfolding check_anchor_def by (auto intro!: steps_seq [OF 1] steps_seq [OF 2])
  qed
qed

lemma header_steps:
  assumes "header p sid f (quiet d) t = (Inr u, t')" and "removed t = {}" and "components p \<notin> R"
  shows "steps (quiet d) R (header p sid f) (Inr ()) R"
  unfolding steps_def
proof (intro allI impI)
  fix v assume v: "removed v = R"
  obtain r v' where m: "header p sid f (quiet d) v = (r, v')" by fastforce
  have "fst (header p sid f (quiet d) v) = fst (header p sid f (quiet d) t)"
    by (rule header_same) (simp add: v assms sees_kept)
  with m assms(1) looks_removed [OF header_looks m] v
  show "\<exists>v'. header p sid f (quiet d) v = (Inr (), v') \<and> removed v' = R" by simp
qed

lemma held_metadata_steps:
  "sees d R p = Some m \<Longrightarrow> steps (quiet d) R (held_metadata p) (Inr m) R"
  by (auto simp: steps_def held_metadata_def run_simps ret_def need_def removed_Cons seq_def ask_def Let_def)

section \<open>The search with files gone\<close>

text \<open>What the search has found so far, less what is gone.\<close>

definition without :: "disk \<Rightarrow> directory_anchor \<Rightarrow> string list set \<Rightarrow> sweep \<Rightarrow> sweep \<Rightarrow> bool" where
  "without d root R s s' \<longleftrightarrow>
     sw_count s' \<le> sw_count s \<and> sw_dirs s' = sw_dirs s \<and>
     sw_found s' = (case sw_found s of None \<Rightarrow> None
       | Some h \<Rightarrow> if components (join_path (da_path root) h) \<in> R then None else Some h) \<and>
     sw_orphans s' = filter (\<lambda>p. components p \<notin> R) (sw_orphans s) \<and>
     (\<forall>p \<in> set (sw_orphans s). d_node d (components p) \<noteq> None)"

lemma names_normal: "\<forall>c \<in> set (names p). c \<noteq> [] \<and> c \<noteq> ''.'' \<and> slash \<notin> set c"
  using names_no_slash by (auto simp: names_def)

lemma components_absolute: "is_absolute p \<Longrightarrow> components p = ''/'' # names p"
  by (simp add: components_def)

lemma relative_to_components:
  assumes "is_absolute base" and "is_absolute p" and "relative_to base p = Some rel"
  shows "components (join_path base rel) = components p"
proof -
  from assms have under: "take (length (names base)) (names p) = names base"
    and rel: "rel = path_of (drop (length (names base)) (names p))"
    by (auto simp: relative_to_def under_def components_absolute split: if_splits)
  let ?rest = "drop (length (names base)) (names p)"
  have rest: "\<forall>c \<in> set ?rest. slash \<notin> set c \<and> c \<noteq> [] \<and> c \<noteq> ''.''"
    using names_normal [of p] by (auto dest: in_set_dropD)
  have "\<not> is_absolute rel"
  proof (cases ?rest)
    case (Cons c cs)
    then have c: "c \<noteq> []" "slash \<notin> set c" using rest by auto
    then have "c \<noteq> ''/''" by auto
    with Cons rel have "rel = join ''/'' (c # cs)" by (simp add: path_of_def)
    then obtain e where "rel = c @ e" by (cases cs) auto
    with c show ?thesis by (cases c) auto
  qed (simp add: rel path_of_def)
  moreover have "base \<noteq> []" using assms(1) by auto
  ultimately have "components (join_path base rel) = components base @ names rel" by (simp add: components_join)
  also have "names rel = ?rest" unfolding rel by (rule names_path_of [OF rest])
  also have "components base @ ?rest = components p"
    using append_take_drop_id [of "length (names base)" "names p"] assms under
    by (simp add: components_absolute)
  finally show ?thesis .
qed

lemma is_absolute_join: "is_absolute dir \<Longrightarrow> is_absolute (join_path dir p)"
  by (cases dir) (auto simp: join_path_def)

lemma sweep_entry_gone:
  assumes entry: "sweep_entry root sid dir depth name s (quiet d) t = (Inr s2, t')"
    and gone: "components (join_path dir name) \<in> R" and R: "files_gone d R"
    and t: "removed t = {}" and abs: "is_absolute (da_path root)" "is_absolute dir"
    and without: "without d root R s s'"
  shows "without d root R s2 s'"
proof -
  let ?path = "join_path dir name"
  from R gone obtain m where m: "d_node d (components ?path) = Some m" "md_type m = Regular"
    by (auto simp: files_gone_def)
  have path: "is_absolute ?path" using abs(2) by (rule is_absolute_join)
  from entry m t consider "s2 = s"
    | rel where "s2 = s\<lparr>sw_found := Some rel\<rparr>" "relative_to (da_path root) ?path = Some rel" "sw_found s = None"
    | "s2 = s\<lparr>sw_orphans := sw_orphans s @ [?path]\<rparr>"
    by (auto simp: sweep_entry_def Let_def seq_Inr metadata_at_Inr sweep_primary_def sweep_orphan_def
        split: if_splits option.splits)
  then show ?thesis
  proof cases
    case (2 rel)
    with relative_to_components [OF abs(1) path 2(2)] gone without show ?thesis by (simp add: without_def)
  qed (use without gone m in \<open>auto simp: without_def\<close>)
qed

lemma seen_steps:
  assumes "inspect p root (quiet d) t = (Inr (Some f), t')" and "removed t = {}" and "components p \<notin> R"
    and "steps (quiet d) R k (Inr y) R"
  shows "steps (quiet d) R (seq (inspect p root) (\<lambda>seen. seq (need e seen) (\<lambda>_. k))) (Inr y) R"
proof -
  have 1: "steps (quiet d) R (inspect p root) (Inr (Some f)) R"
    using inspect_steps [OF assms(1,2), of R] assms(3) by simp
  have "steps (quiet d) R (need e (Some f)) (Inr f) R" using steps_need [of _ _ e "Some f"] by simp
  then show ?thesis by (intro steps_seq [OF 1]) (rule steps_seq, assumption, rule assms(4))
qed

lemma sweep_entry_kept:
  assumes entry: "sweep_entry root sid dir depth name s (quiet d) t = (Inr s2, t')"
    and kept: "components (join_path dir name) \<notin> R" and t: "removed t = {}"
    and abs: "is_absolute (da_path root)" "is_absolute dir" and without: "without d root R s s'"
  shows "\<exists>s2'. steps (quiet d) R (sweep_entry root sid dir depth name s') (Inr s2') R \<and> without d root R s2 s2'"
proof -
  let ?path = "join_path dir name" and ?os = "quiet d"
  have path: "is_absolute ?path" using abs(2) by (rule is_absolute_join)
  from entry obtain m t1 where look: "metadata_at ?path ?os t = (Inr (Some m), t1)"
    and rest: "(if md_type m = Directory then sweep_dir_entry dir depth ?path s
      else if \<not> utf8 name then ret s
      else if primary_name name sid then sweep_primary root sid ?path s
      else if orphan_name name sid then sweep_orphan root ?path s
      else ret s) ?os t1 = (Inr s2, t')"
    by (auto simp: sweep_entry_def Let_def seq_Inr)
  have t1: "removed t1 = {}" using looks_removed [OF metadata_at_looks look] t by simp
  have look': "steps ?os R (metadata_at ?path) (Inr (Some m)) R"
    using metadata_at_steps [OF look t, of R] kept by simp
  have need: "steps ?os R (need changed (Some m)) (Inr m) R" using steps_need [of _ _ changed "Some m"] by simp
  let ?rest = "if md_type m = Directory then sweep_dir_entry dir depth ?path s'
      else if \<not> utf8 name then ret s'
      else if primary_name name sid then sweep_primary root sid ?path s'
      else if orphan_name name sid then sweep_orphan root ?path s'
      else ret s'"
  have "\<exists>s2'. steps ?os R ?rest (Inr s2') R \<and> without d root R s2 s2'"
  proof -
    consider (dir) "md_type m = Directory"
      | (plain) "md_type m \<noteq> Directory" "\<not> utf8 name \<or> (\<not> primary_name name sid \<and> \<not> orphan_name name sid)"
      | (primary) "md_type m \<noteq> Directory" "utf8 name" "primary_name name sid"
      | (orphan) "md_type m \<noteq> Directory" "utf8 name" "\<not> primary_name name sid" "orphan_name name sid"
      by blast
    then show ?thesis
    proof cases
      case dir
      with rest have s2: "s2 = s\<lparr>sw_dirs := sw_dirs s @ [(?path, depth + 1)]\<rparr>"
        and ok: "depth = 0 \<or> (depth = 1 \<and> (case name_of dir of Some n \<Rightarrow> utf8 n \<and> canonical_id (d_hyphenated d) n | None \<Rightarrow> False))"
        by (auto simp: sweep_dir_entry_def seq_Inr split: if_splits)
      have "steps ?os R (sweep_dir_entry dir depth ?path s') (Inr (s'\<lparr>sw_dirs := sw_dirs s' @ [(?path, depth + 1)]\<rparr>)) R"
        unfolding sweep_dir_entry_def
        by (rule steps_seq [OF steps_know]) (use ok steps_ret in \<open>simp only: quiet_simps if_True\<close>)
      with dir s2 without show ?thesis by (intro exI conjI) (auto simp: without_def)
    next
      case plain
      with rest without show ?thesis by (intro exI [of _ s']) (auto simp: steps_ret split: if_splits)
    next
      case primary
      with rest obtain rel f t2 where rel: "relative_to (da_path root) ?path = Some rel" "valid_relative rel sid"
          and seen: "inspect ?path root ?os t1 = (Inr (Some f), t2)"
          and s2: "sw_found s = None" "s2 = s\<lparr>sw_found := Some rel\<rparr>"
        by (auto simp: sweep_primary_def seq_Inr split: if_splits)
      have "sw_found s' = None" using without s2 by (simp add: without_def)
      have 1: "steps ?os R (need unsafe_path (Some rel)) (Inr rel) R"
        using steps_need [of _ _ unsafe_path "Some rel"] by simp
      have 2: "steps ?os R (require (valid_relative rel sid) unknown) (Inr ()) R"
        using steps_require [of _ _ "valid_relative rel sid" unknown] rel by simp
      have "steps ?os R (sweep_primary root sid ?path s') (Inr (s'\<lparr>sw_found := Some rel\<rparr>)) R"
        unfolding sweep_primary_def rel
        by (rule steps_seq [OF 1], rule steps_seq [OF 2], rule seen_steps [OF seen t1 kept])
          (use \<open>sw_found s' = None\<close> steps_ret in simp)
      with primary s2 without relative_to_components [OF abs(1) path rel(1)] kept show ?thesis
        by (intro exI conjI) (auto simp: without_def)
    next
      case orphan
      with rest obtain f t2 where seen: "inspect ?path root ?os t1 = (Inr (Some f), t2)"
          and s2: "s2 = s\<lparr>sw_orphans := sw_orphans s @ [?path]\<rparr>"
        by (auto simp: sweep_orphan_def seq_Inr)
      have "steps ?os R (sweep_orphan root ?path s') (Inr (s'\<lparr>sw_orphans := sw_orphans s' @ [?path]\<rparr>)) R"
        unfolding sweep_orphan_def by (rule seen_steps [OF seen t1 kept steps_ret])
      moreover have "d_node d (components ?path) \<noteq> None"
        using look t by (auto simp: metadata_at_Inr split: option.splits)
      ultimately show ?thesis using orphan s2 without kept by (intro exI conjI) (auto simp: without_def)
    qed
  qed
  then obtain s2' where "steps ?os R ?rest (Inr s2') R" "without d root R s2 s2'" by blast
  moreover from this have "steps ?os R (sweep_entry root sid dir depth name s') (Inr s2') R"
    unfolding sweep_entry_def Let_def by (intro steps_seq [OF look'] steps_seq [OF need]) simp
  ultimately show ?thesis by blast
qed

lemma sweep_entries_without:
  assumes "sweep_entries root sid dir depth (map Some ns) s (quiet d) t = (Inr s2, t')"
    and "removed t = {}" and "files_gone d R"
    and "is_absolute (da_path root)" "is_absolute dir" and "without d root R s s'"
  shows "\<exists>s2'. steps (quiet d) R
      (sweep_entries root sid dir depth (map Some (filter (\<lambda>n. components (join_path dir n) \<notin> R) ns)) s') (Inr s2') R
      \<and> without d root R s2 s2'"
  using assms
proof (induction ns arbitrary: s s' t)
  case Nil
  then show ?case by (auto intro: steps_ret)
next
  case (Cons n ns)
  let ?os = "quiet d"
  define s1 where "s1 = s\<lparr>sw_count := sw_count s + 1\<rparr>"
  from Cons.prems(1) obtain t1 s3 t2 where
      count: "sw_count s1 \<le> MAX_DIR_ENTRIES"
      and t1: "t1 = Late False # t"
      and entry: "sweep_entry root sid dir depth n s1 ?os t1 = (Inr s3, t2)"
      and rest: "sweep_entries root sid dir depth (map Some ns) s3 ?os t2 = (Inr s2, t')"
    by (auto simp: s1_def Let_def seq_Inr over_budget_def clock_def split: if_splits)
  from t1 Cons.prems(2) have r1: "removed t1 = {}" by (simp add: removed_Cons)
  have "adds looks (sweep_entry root sid dir depth n s1)"
    unfolding sweep_entry_def sweep_dir_entry_def sweep_primary_def sweep_orphan_def Let_def by (intro adds_intros)
  from looks_removed [OF this entry] r1 have r2: "removed t2 = {}" by simp
  show ?case
  proof (cases "components (join_path dir n) \<in> R")
    case True
    have "without d root R s1 s'" using Cons.prems(6) by (auto simp: without_def s1_def)
    from sweep_entry_gone [OF entry True Cons.prems(3) r1 Cons.prems(4,5) this]
    have "without d root R s3 s'" .
    from Cons.IH [OF rest r2 Cons.prems(3,4,5) this] True show ?thesis by simp
  next
    case False
    let ?s1 = "s'\<lparr>sw_count := sw_count s' + 1\<rparr>"
    have "without d root R s1 ?s1" using Cons.prems(6) by (auto simp: without_def s1_def)
    from sweep_entry_kept [OF entry False r1 Cons.prems(4,5) this] obtain s3' where
        step: "steps ?os R (sweep_entry root sid dir depth n ?s1) (Inr s3') R" and s3: "without d root R s3 s3'" by blast
    from Cons.IH [OF rest r2 Cons.prems(3,4,5) s3] obtain s2' where
        rest': "steps ?os R (sweep_entries root sid dir depth
          (map Some (filter (\<lambda>n. components (join_path dir n) \<notin> R) ns)) s3') (Inr s2') R"
        and s2: "without d root R s2 s2'" by blast
    have le: "sw_count s' + 1 \<le> MAX_DIR_ENTRIES"
      using Cons.prems(6) count by (simp add: without_def s1_def)
    have clock: "steps ?os R (over_budget (sw_count ?s1)) (Inr False) R"
      using le unfolding over_budget_def clock_def
      by (auto intro!: steps_ask simp: removed_Cons)
    have req: "steps ?os R (require (\<not> False) bound) (Inr ()) R"
      using steps_require [of _ _ "\<not> False" bound] by simp
    have need: "steps ?os R (need unavailable (Some n)) (Inr n) R"
      using steps_need [of _ _ unavailable "Some n"] by simp
    have "steps ?os R (sweep_entries root sid dir depth
        (Some n # map Some (filter (\<lambda>n. components (join_path dir n) \<notin> R) ns)) s') (Inr s2') R"
      unfolding sweep_entries.simps Let_def
      by (rule steps_seq [OF clock], rule steps_seq [OF req], rule steps_seq [OF need], rule steps_seq [OF step], rule rest')
    with s2 False show ?thesis by auto
  qed
qed

lemma sweep_entries_queue:
  assumes "sweep_entries root sid dir depth es s os t = (Inr s2, t')"
    and "is_absolute dir" and "\<forall>q \<in> set (sw_dirs s). is_absolute (fst q)"
  shows "\<forall>q \<in> set (sw_dirs s2). is_absolute (fst q)"
  using assms
proof (induction es arbitrary: s t)
  case (Cons e es)
  then obtain n s3 t1 t2 where
      entry: "sweep_entry root sid dir depth n (s\<lparr>sw_count := sw_count s + 1\<rparr>) os t1 = (Inr s3, t2)"
      and rest: "sweep_entries root sid dir depth es s3 os t2 = (Inr s2, t')"
    by (auto simp: Let_def seq_Inr)
  from entry Cons.prems(2,3) is_absolute_join have "\<forall>q \<in> set (sw_dirs s3). is_absolute (fst q)"
    by (auto simp: sweep_entry_def sweep_dir_entry_def sweep_primary_def sweep_orphan_def Let_def seq_Inr
        split: if_splits)
  with Cons.IH [OF rest Cons.prems(2)] show ?case .
qed simp

lemma sweep_dir_without:
  assumes "sweep_dir root sid dir depth s (quiet d) t = (Inr s2, t')"
    and t: "removed t = {}" and R: "files_gone d R"
    and abs: "is_absolute (da_path root)" "is_absolute dir" and "without d root R s s'"
  shows "\<exists>s2'. steps (quiet d) R (sweep_dir root sid dir depth s') (Inr s2') R \<and> without d root R s2 s2'"
proof -
  let ?os = "quiet d"
  let ?ns = "filter (\<lambda>n. sees d {} (join_path dir n) \<noteq> None) (d_names d (components dir))"
  from assms(1) t obtain m where
      dir: "d_node d (components dir) = Some m" "md_type m = Directory"
      and entries: "sweep_entries root sid dir depth (map Some ?ns) s ?os
        (Listed dir (Some (map Some ?ns)) # Late False # t) = (Inr s2, t')"
    by (auto simp: sweep_dir_def seq_Inr clock_def read_dir_def removed_Cons split: option.splits if_splits)
  have t2: "removed (Listed dir (Some (map Some ?ns)) # Late False # t) = {}" using t by (simp add: removed_Cons)
  from sweep_entries_without [OF entries t2 R abs assms(6)] obtain s2' where
      step: "steps ?os R (sweep_entries root sid dir depth
        (map Some (filter (\<lambda>n. components (join_path dir n) \<notin> R) ?ns)) s') (Inr s2') R"
      and s2: "without d root R s2 s2'" by blast
  have "components dir \<notin> R" using R dir by (auto simp: files_gone_def)
  then have dir': "sees d R dir = Some m" using dir by (simp add: sees_kept)
  have names: "filter (\<lambda>n. sees d R (join_path dir n) \<noteq> None) (d_names d (components dir)) =
      filter (\<lambda>n. components (join_path dir n) \<notin> R) ?ns"
    by (auto simp: sees_def intro: filter_cong)
  have clock: "steps ?os R clock (Inr False) R"
    unfolding clock_def by (rule steps_ask) (simp_all add: removed_Cons)
  have req: "steps ?os R (require (\<not> False) bound) (Inr ()) R"
    using steps_require [of _ _ "\<not> False" bound] by simp
  have read: "steps ?os R (read_dir dir)
      (Inr (map Some (filter (\<lambda>n. components (join_path dir n) \<notin> R) ?ns))) R"
    using dir' dir(2) names
    by (auto simp: steps_def read_dir_def run_simps need_def ret_def removed_Cons)
  have "steps ?os R (sweep_dir root sid dir depth s') (Inr s2') R"
    unfolding sweep_dir_def
    by (rule steps_seq [OF clock], rule steps_seq [OF req], rule steps_seq [OF read], rule step)
  with s2 show ?thesis by blast
qed

lemma steps_sweep_dirs:
  assumes "sw_dirs s = (dir, depth) # queue"
    and "steps os R (sweep_dir root sid dir depth (s\<lparr>sw_dirs := queue\<rparr>)) (Inr s1) R"
    and "steps os R (sweep_dirs root sid s1) r R"
  shows "steps os R (sweep_dirs root sid s) r R"
  unfolding steps_def
proof (intro allI impI)
  fix t assume "removed t = R"
  with assms(2) obtain t1 where "sweep_dir root sid dir depth (s\<lparr>sw_dirs := queue\<rparr>) os t = (Inr s1, t1)" "removed t1 = R"
    by (auto simp: steps_def)
  with assms(1,3) show "\<exists>t'. sweep_dirs root sid s os t = (r, t') \<and> removed t' = R"
    by (subst sweep_dirs.simps) (simp add: steps_def)
qed

lemma sweep_dirs_without:
  assumes "sweep_dirs root sid s (quiet d) t = (Inr s2, t')"
    and "removed t = {}" and "files_gone d R" and "is_absolute (da_path root)"
    and "\<forall>q \<in> set (sw_dirs s). is_absolute (fst q)" and "without d root R s s'"
  shows "\<exists>s2'. steps (quiet d) R (sweep_dirs root sid s') (Inr s2') R \<and> without d root R s2 s2'"
  using assms
proof (induction root sid s "quiet d" t arbitrary: s' rule: sweep_dirs.induct)
  case (1 root sid s t)
  show ?case
  proof (cases "sw_dirs s")
    case Nil
    with 1(2,7) have "sw_dirs s' = []" "s2 = s" by (auto simp: without_def sweep_dirs.simps)
    then have "steps (quiet d) R (sweep_dirs root sid s') (Inr s') R"
      by (simp add: steps_def sweep_dirs.simps)
    with 1(7) \<open>s2 = s\<close> show ?thesis by blast
  next
    case (Cons q queue)
    obtain dir depth where q: "q = (dir, depth)" by fastforce
    let ?s = "s\<lparr>sw_dirs := queue\<rparr>" and ?s' = "s'\<lparr>sw_dirs := queue\<rparr>"
    from 1(2) Cons q obtain s1 t1 where dir: "sweep_dir root sid dir depth ?s (quiet d) t = (Inr s1, t1)"
        and rest: "sweep_dirs root sid s1 (quiet d) t1 = (Inr s2, t')"
      by (auto simp: sweep_dirs.simps [of root sid s] split: prod.splits sum.splits)
    have abs: "is_absolute dir" using 1(6) Cons q by simp
    have "without d root R ?s ?s'" using 1(7) by (auto simp: without_def)
    from sweep_dir_without [OF dir 1(3,4,5) abs this] obtain s1' where
        step: "steps (quiet d) R (sweep_dir root sid dir depth ?s') (Inr s1') R" and s1: "without d root R s1 s1'" by blast
    have t1: "removed t1 = {}" using looks_removed [OF sweep_dir_looks dir] 1(3) by simp
    have queue: "\<forall>q \<in> set (sw_dirs s1). is_absolute (fst q)"
    proof -
      from dir obtain es t0 where "sweep_entries root sid dir depth es ?s (quiet d) t0 = (Inr s1, t1)"
        by (auto simp: sweep_dir_def seq_Inr)
      from sweep_entries_queue [OF this abs] 1(6) Cons show ?thesis by simp
    qed
    from 1(1) [OF Cons q [symmetric] dir [symmetric] refl rest t1 1(4,5) queue s1] obtain s2' where
        "steps (quiet d) R (sweep_dirs root sid s1') (Inr s2') R" "without d root R s2 s2'" by blast
    moreover have "sw_dirs s' = (dir, depth) # queue" using 1(7) Cons q by (simp add: without_def)
    ultimately show ?thesis using steps_sweep_dirs step by blast
  qed
qed

end
