(* ===== verification/Deletion_Resume.thy ===== *)
theory Deletion_Resume
  imports Deletion_Retry
begin

text \<open>
  The theorem on interrupted deletions: however often the execution of a prepared manifest was cut off,
  the next undisturbed one finishes it.
\<close>

section \<open>What preparation captured\<close>

definition captured_files :: "deletion_plan \<Rightarrow> string list set" where
  "captured_files plan =
     {components path | k f path root. captured plan k = Some f \<and> plan_path plan k = Some (path, root)}"

definition capture_seen :: "disk \<Rightarrow> deletion_plan \<Rightarrow> string \<Rightarrow> planned_file list \<Rightarrow> file_kind \<Rightarrow> bool" where
  "capture_seen d plan sid files k \<longleftrightarrow> (case plan_path plan k of
     None \<Rightarrow> find (\<lambda>f. pf_kind f = k) files = None
   | Some (path, root) \<Rightarrow> \<exists>seen t t'.
       inspect path root (quiet d) t = (Inr seen, t') \<and> removed t = {} \<and>
       find (\<lambda>f. pf_kind f = k) files = map_option (\<lambda>f. \<lparr>pf_kind = k, pf_fingerprint = f\<rparr>) seen \<and>
       (k = Primary \<longrightarrow> (\<exists>f u u'. seen = Some f \<and> header path sid f (quiet d) u = (Inr (), u') \<and> removed u = {})))"

lemma find_append: "find P (xs @ ys) = (case find P xs of None \<Rightarrow> find P ys | Some x \<Rightarrow> Some x)"
  by (induction xs) auto

lemma capture_files_seen:
  assumes "capture_files plan sid ks files (quiet d) t = (Inr files', t')" and "distinct ks"
    and "removed t = {}" and "\<forall>f \<in> set files. pf_kind f \<notin> set ks"
  shows "\<exists>new. files' = files @ new \<and> (\<forall>f \<in> set new. pf_kind f \<in> set ks) \<and>
           (\<forall>k \<in> set ks. capture_seen d plan sid new k)"
  using assms
proof (induction ks arbitrary: files t)
  case Nil
  then show ?case by simp
next
  case (Cons k ks)
  have other: "capture_seen d plan sid (x # new) j = capture_seen d plan sid new j" if "pf_kind x = k" "j \<in> set ks" for x new j
  proof -
    have "find (\<lambda>f. pf_kind f = j) (x # new) = find (\<lambda>f. pf_kind f = j) new" using that Cons.prems(2) by auto
    then show ?thesis by (simp only: capture_seen_def)
  qed
  have none: "find (\<lambda>f. pf_kind f = k) new = None" if "\<forall>f \<in> set new. pf_kind f \<in> set ks" for new
    using that Cons.prems(2) by (auto simp: find_None_iff)
  show ?case
  proof (cases "plan_path plan k")
    case None
    with Cons.prems have "capture_files plan sid ks files (quiet d) t = (Inr files', t')" by simp
    from Cons.IH [OF this] Cons.prems obtain new where
        "files' = files @ new" "\<forall>f \<in> set new. pf_kind f \<in> set ks" "\<forall>k \<in> set ks. capture_seen d plan sid new k"
      by auto
    with None none show ?thesis by (intro exI [of _ new]) (auto simp: capture_seen_def)
  next
    case (Some pr)
    obtain path root where pr: "pr = (path, root)" by fastforce
    with Some Cons.prems(1) obtain seen t1 where look: "inspect path root (quiet d) t = (Inr seen, t1)"
      and rest: "(case seen of
         Some f \<Rightarrow> seq (if k = Primary then header path sid f else ret ()) (\<lambda>_.
           capture_files plan sid ks (files @ [\<lparr>pf_kind = k, pf_fingerprint = f\<rparr>]))
       | None \<Rightarrow> if k = Primary then fail changed else capture_files plan sid ks files) (quiet d) t1 = (Inr files', t')"
      by (auto simp: seq_Inr)
    have t1: "removed t1 = {}" using looks_removed [OF inspect_looks look] Cons.prems(3) by simp
    show ?thesis
    proof (cases seen)
      case None
      with rest have k: "k \<noteq> Primary" and "capture_files plan sid ks files (quiet d) t1 = (Inr files', t')"
        by (auto split: if_splits)
      from Cons.IH [OF this(2) _ t1] Cons.prems obtain new where
          "files' = files @ new" "\<forall>f \<in> set new. pf_kind f \<in> set ks" "\<forall>k \<in> set ks. capture_seen d plan sid new k"
        by auto
      moreover from this(2) k look Cons.prems(3) Some pr None none [of new] have "capture_seen d plan sid new k"
        unfolding capture_seen_def by auto
      ultimately show ?thesis by (intro exI [of _ new]) auto
    next
      case f: (Some f)
      let ?x = "\<lparr>pf_kind = k, pf_fingerprint = f\<rparr>"
      from rest f obtain t2 where hd: "(if k = Primary then header path sid f else ret ()) (quiet d) t1 = (Inr (), t2)"
        and rec: "capture_files plan sid ks (files @ [?x]) (quiet d) t2 = (Inr files', t')"
        by (auto simp: seq_Inr)
      have "adds looks (if k = Primary then header path sid f else ret ())" by (intro adds_intros)
      from looks_removed [OF this hd] t1 have t2: "removed t2 = {}" by simp
      from Cons.IH [OF rec _ t2] Cons.prems obtain new where
          new: "files' = (files @ [?x]) @ new" "\<forall>f \<in> set new. pf_kind f \<in> set ks"
            "\<forall>k \<in> set ks. capture_seen d plan sid new k"
        by auto
      have "capture_seen d plan sid (?x # new) k"
        unfolding capture_seen_def Some pr option.case prod.case
        by (rule exI [of _ seen], rule exI [of _ t], rule exI [of _ t1])
          (use look Cons.prems(3) f hd t1 in \<open>auto intro: exI [of _ t1]\<close>)
      with new other show ?thesis by (intro exI [of _ "?x # new"]) auto
    qed
  qed
qed

lemma inspect_file:
  assumes "inspect p root (quiet d) t = (Inr seen, t')" and "removed t = {}"
  shows "case seen of None \<Rightarrow> d_node d (components p) = None
         | Some f \<Rightarrow> \<exists>m. d_node d (components p) = Some m \<and> md_type m = Regular \<and> fingerprint_of m = f"
proof -
  from inspect_Inr [OF assms(1)] have seen: "inspection p root seen t'" .
  from assms(1) obtain t1 found t2 where comps: "check_components p (quiet d) t = (Inr (), t1)"
    and look: "metadata_at p (quiet d) t1 = (Inr found, t2)"
    and rest: "(case found of None \<Rightarrow> ret None | Some m \<Rightarrow>
        if md_type m = Regular
        then seq (canonical_path p) (\<lambda>c.
          if under (da_path root) c then ret (Some (fingerprint_of m)) else fail unsafe_path)
        else fail unsafe_path) (quiet d) t2 = (Inr seen, t')"
    by (auto simp: inspect_def seq_Inr split: if_splits)
  from looks_removed [OF check_components_looks comps] assms(2) have "removed t1 = {}" by simp
  with look have "d_node d (components p) = found"
    by (auto simp: metadata_at_Inr split: option.splits)
  with rest show ?thesis by (auto simp: seq_Inr split: option.splits if_splits)
qed

text \<open>All that the preparation promises for later executions.\<close>

definition prepared_on :: "disk \<Rightarrow> deletion_plan \<Rightarrow> string \<Rightarrow> bool" where
  "prepared_on d plan primary \<longleftrightarrow>
     validate_plan (d_hyphenated d) plan (dp_id plan) = Inr () \<and>
     dp_primary plan = Some primary \<and>
     (\<forall>k. capture_seen d plan (dp_id plan) (dp_files plan) k) \<and>
     (\<exists>t t'. check_anchor (dp_root plan) (quiet d) t = (Inr (), t') \<and> removed t = {}) \<and>
     (\<exists>t t'. check_anchor (dp_timings plan) (quiet d) t = (Inr (), t') \<and> removed t = {}) \<and>
     (\<exists>t t'. discover (dp_root plan) (dp_id plan) [] (quiet d) t = (Inr (Some primary), t') \<and> removed t = {})"

lemma prepare_prepared:
  assumes "prepare root sid timings (quiet d) t = (Inr plan, t')" and "removed t = {}"
  shows "\<exists>primary. prepared_on d plan primary \<and> dp_id plan = sid"
proof -
  from assms(1) obtain rt t1 t2 tm primary t3 files t4 t5 where
      root: "anchor_at root (quiet d) t = (Inr rt, t1)"
    and tm: "anchor_at timings (quiet d) t1 = (Inr tm, t2)"
    and found: "discover rt sid [] (quiet d) t2 = (Inr (Some primary), t3)"
    and files: "capture_files \<lparr>dp_version = 1, dp_id = sid, dp_root = rt, dp_timings = tm,
        dp_primary = Some primary, dp_files = []\<rparr> sid KINDS [] (quiet d) t3 = (Inr files, t4)"
    and c1: "check_anchor rt (quiet d) t4 = (Inr (), t5)"
    and c2: "check_anchor tm (quiet d) t5 = (Inr (), t')"
    and plan: "plan = \<lparr>dp_version = 1, dp_id = sid, dp_root = rt, dp_timings = tm,
        dp_primary = Some primary, dp_files = files\<rparr>"
    and valid: "validate_plan (d_hyphenated d) plan sid = Inr ()"
    by (auto simp: prepare_def Let_def seq_Inr)
  have t1: "removed t1 = {}" using looks_removed [OF anchor_at_looks root] assms(2) by simp
  have t2: "removed t2 = {}" using looks_removed [OF anchor_at_looks tm] t1 by simp
  have t3: "removed t3 = {}" using looks_removed [OF discover_looks found] t2 by simp
  have t4: "removed t4 = {}" using looks_removed [OF capture_files_looks files] t3 by simp
  have t5: "removed t5 = {}" using looks_removed [OF check_anchor_looks c1] t4 by simp
  from capture_files_seen [OF files _ t3] have
      "\<forall>k. capture_seen d \<lparr>dp_version = 1, dp_id = sid, dp_root = rt, dp_timings = tm,
        dp_primary = Some primary, dp_files = []\<rparr> sid files k" by (simp add: KINDS_def [symmetric]) (simp add: KINDS_def)
  moreover have "plan_path plan k = plan_path \<lparr>dp_version = 1, dp_id = sid, dp_root = rt, dp_timings = tm,
        dp_primary = Some primary, dp_files = []\<rparr> k" for k by (simp add: plan plan_path_def)
  ultimately have "\<forall>k. capture_seen d plan sid files k" by (simp only: capture_seen_def simp_thms)
  with valid found t2 c1 t4 c2 t5 plan show ?thesis
    unfolding prepared_on_def by (intro exI [of _ primary]) auto
qed

section \<open>The search after removals\<close>

lemma discover_steps:
  assumes "discover root sid [] (quiet d) t = (Inr (Some primary), t')" and t: "removed t = {}"
    and abs: "is_absolute (da_path root)" and R: "files_gone d R"
    and retry: "components (join_path (da_path root) primary) \<in> R \<Longrightarrow>
      \<forall>p. d_node d (components p) \<noteq> None \<longrightarrow>
          list_ex (\<lambda>s. path_eq (join_path (da_path root) primary @ s) p) ORPHANS \<longrightarrow>
          components p \<notin> R \<longrightarrow> list_ex (\<lambda>q. path_eq q p) retry"
  shows "steps (quiet d) R (discover root sid retry)
     (Inr (if components (join_path (da_path root) primary) \<in> R then None else Some primary)) R"
proof -
  let ?s = "\<lparr>sw_count = 0, sw_dirs = [(da_path root, 0)], sw_found = None, sw_orphans = []\<rparr>"
  from assms(1) obtain s2 t2 where ident: "da_identity root \<noteq> None"
      and dirs: "sweep_dirs root sid ?s (quiet d) t = (Inr s2, t2)"
      and orphans: "list_all (orphan_known root [] (sw_found s2)) (sw_orphans s2)" and found: "sw_found s2 = Some primary"
    unfolding discover_def by (cases "da_identity root") (auto simp only: seq_Inr act_Inr if_True if_False simp_thms option.distinct)
  have "without d root R ?s ?s" by (simp add: without_def)
  from sweep_dirs_without [OF dirs t R abs _ this] abs obtain s2' where
      step: "steps (quiet d) R (sweep_dirs root sid ?s) (Inr s2') R" and s2: "without d root R s2 s2'" by auto
  have found': "sw_found s2' = (if components (join_path (da_path root) primary) \<in> R then None else Some primary)"
    using s2 found by (simp add: without_def)
  have "orphan_known root retry (sw_found s2') p" if p: "p \<in> set (sw_orphans s2')" for p
  proof -
    from p s2 have node: "d_node d (components p) \<noteq> None" "components p \<notin> R" "p \<in> set (sw_orphans s2)"
      by (auto simp: without_def)
    with orphans found have near: "list_ex (\<lambda>s. path_eq (join_path (da_path root) primary @ s) p) ORPHANS"
      by (simp add: list_all_iff orphan_known_def)
    show ?thesis
    proof (cases "components (join_path (da_path root) primary) \<in> R")
      case True
      with retry node near have "list_ex (\<lambda>q. path_eq q p) retry" by blast
      then show ?thesis by (simp add: orphan_known_def)
    qed (simp add: found' orphan_known_def near)
  qed
  then have known: "list_all (orphan_known root retry (sw_found s2')) (sw_orphans s2')" by (simp add: list_all_iff)
  have req: "steps (quiet d) R (require (list_all (orphan_known root retry (sw_found s2')) (sw_orphans s2')) unknown) (Inr ()) R"
    using steps_require [of _ _ "list_all (orphan_known root retry (sw_found s2')) (sw_orphans s2')" unknown] known by simp
  have "steps (quiet d) R (seq (sweep_dirs root sid ?s) (\<lambda>s.
           seq (require (list_all (orphan_known root retry (sw_found s)) (sw_orphans s)) unknown) (\<lambda>_.
           ret (sw_found s)))) (Inr (sw_found s2')) R"
    by (rule steps_seq [OF step], rule steps_seq [OF req], rule steps_ret)
  with ident found' show ?thesis by (auto simp: discover_def)
qed

section \<open>Executing what was prepared\<close>

lemma prepared_facts:
  assumes "prepared_on d plan primary"
  shows "is_absolute (da_path (dp_root plan))" and "is_absolute (da_path (dp_timings plan))"
    and "valid_relative primary (dp_id plan)"
    and "plan_path plan Primary = Some (join_path (da_path (dp_root plan)) primary, dp_root plan)"
  using assms by (auto simp: prepared_on_def validate_plan_iff anchor_ok_def plan_path_def timing_kind_def)

lemma capture_cases:
  assumes "prepared_on d plan primary" and "plan_path plan k = Some (path, root)"
  obtains seen t t' where "inspect path root (quiet d) t = (Inr seen, t')" "removed t = {}"
    "captured plan k = map_option (\<lambda>f. \<lparr>pf_kind = k, pf_fingerprint = f\<rparr>) seen"
    "k = Primary \<Longrightarrow> \<exists>f u u'. seen = Some f \<and> header path (dp_id plan) f (quiet d) u = (Inr (), u') \<and> removed u = {}"
proof -
  from assms(1) have "capture_seen d plan (dp_id plan) (dp_files plan) k" by (simp add: prepared_on_def)
  with assms(2) have "\<exists>seen t t'. inspect path root (quiet d) t = (Inr seen, t') \<and> removed t = {} \<and>
    captured plan k = map_option (\<lambda>f. \<lparr>pf_kind = k, pf_fingerprint = f\<rparr>) seen \<and>
    (k = Primary \<longrightarrow> (\<exists>f u u'. seen = Some f \<and> header path (dp_id plan) f (quiet d) u = (Inr (), u') \<and> removed u = {}))"
    unfolding capture_seen_def captured_def by simp
  with that show thesis by blast
qed

lemma captured_path:
  assumes "prepared_on d plan primary" and "captured plan k = Some f"
  shows "\<exists>path root. plan_path plan k = Some (path, root)"
proof (cases "plan_path plan k")
  case None
  from assms(1) have "capture_seen d plan (dp_id plan) (dp_files plan) k" by (simp add: prepared_on_def)
  with None assms(2) show ?thesis by (simp add: capture_seen_def captured_def)
qed auto

lemma captured_iff:
  assumes "prepared_on d plan primary" and "plan_path plan k = Some (path, root)"
  shows "captured plan k \<noteq> None \<longleftrightarrow> d_node d (components path) \<noteq> None"
proof -
  from assms obtain seen t t' where "inspect path root (quiet d) t = (Inr seen, t')" "removed t = {}"
    "captured plan k = map_option (\<lambda>f. \<lparr>pf_kind = k, pf_fingerprint = f\<rparr>) seen" by (rule capture_cases)
  with inspect_file [of path root d t seen t'] show ?thesis by (auto split: option.splits)
qed

lemma captured_regular:
  assumes "prepared_on d plan primary"
  shows "files_gone d (captured_files plan)"
  unfolding files_gone_def
proof
  fix cs assume "cs \<in> captured_files plan"
  then obtain k f path root where cs: "cs = components path" "captured plan k = Some f" and p: "plan_path plan k = Some (path, root)"
    by (auto simp: captured_files_def)
  from assms p obtain seen t t' where "inspect path root (quiet d) t = (Inr seen, t')" "removed t = {}"
    "captured plan k = map_option (\<lambda>f. \<lparr>pf_kind = k, pf_fingerprint = f\<rparr>) seen" by (rule capture_cases)
  with inspect_file [of path root d t seen t'] cs show "\<exists>m. d_node d cs = Some m \<and> md_type m = Regular"
    by (auto split: option.splits)
qed

lemma files_gone_mono: "files_gone d R' \<Longrightarrow> R \<subseteq> R' \<Longrightarrow> files_gone d R"
  by (auto simp: files_gone_def)

lemma anchor_kept:
  assumes "check_anchor a (quiet d) t = (Inr (), t')" and "removed t = {}" and "files_gone d R"
  shows "components (da_path a) \<notin> R"
proof
  assume "components (da_path a) \<in> R"
  with assms(3) obtain m where m: "d_node d (components (da_path a)) = Some m" "md_type m = Regular"
    by (auto simp: files_gone_def)
  from assms(1) obtain t1 found t2 where
        comps: "check_components (da_path a) (quiet d) t = (Inr (), t1)"
    and look: "metadata_at (da_path a) (quiet d) t1 = (Inr found, t2)"
    and rest: "(case (found, da_identity a) of
       (Some m, Some expected) \<Rightarrow>
         if md_type m = Directory \<and> identity_of m = expected
         then seq (canonical_path (da_path a)) (\<lambda>c. require (path_eq c (da_path a)) unsafe_path)
         else fail changed
     | (None, None) \<Rightarrow> ret ()
     | _ \<Rightarrow> fail changed) (quiet d) t2 = (Inr (), t')"
    by (auto simp: check_anchor_def seq_Inr)
  from looks_removed [OF check_components_looks comps] assms(2) have "removed t1 = {}" by simp
  with look m have "found = Some m" by (auto simp: metadata_at_Inr split: option.splits)
  with rest m show False by (auto split: option.splits)
qed

lemma verify_candidates_steps:
  assumes P: "prepared_on d plan primary" and R: "R \<subseteq> captured_files plan"
  shows "steps (quiet d) R (verify_candidates plan) (Inr ()) R"
proof -
  let ?p = "join_path (da_path (dp_root plan)) primary"
  from P obtain t t' where d: "discover (dp_root plan) (dp_id plan) [] (quiet d) t = (Inr (Some primary), t')"
      and t: "removed t = {}" by (auto simp: prepared_on_def)
  have gone: "files_gone d R" using captured_regular [OF P] R by (rule files_gone_mono)
  have retry: "list_ex (\<lambda>q. path_eq q p) (allowed_orphans plan)"
    if node: "d_node d (components p) \<noteq> None" and near: "list_ex (\<lambda>s. path_eq (?p @ s) p) ORPHANS" for p
  proof -
    from near obtain k where k: "sidecar k" and eq: "path_eq (?p @ suffix_of k) p"
    proof -
      from near consider "path_eq (?p @ suffix_of PrimaryTmp) p" | "path_eq (?p @ suffix_of Progress) p"
        | "path_eq (?p @ suffix_of ProgressTmp) p" by (auto simp: ORPHANS_def)
      then show thesis by cases (auto intro: that simp: sidecar_def)
    qed
    have path: "plan_path plan k = Some (?p @ suffix_of k, dp_root plan)"
      using k P by (auto simp: plan_path_def timing_kind_def sidecar_def prepared_on_def)
    from captured_iff [OF P path] node eq obtain f where f: "captured plan k = Some f" by (auto simp: path_eq_def)
    then have "f \<in> set (dp_files plan)" "pf_kind f = k" by (auto simp: captured_def find_Some_iff)
    with k path eq show ?thesis
      by (force simp: allowed_orphans_def list_ex_iff List.map_filter_def)
  qed
  have step: "steps (quiet d) R (discover (dp_root plan) (dp_id plan) (allowed_orphans plan))
     (Inr (if components ?p \<in> R then None else Some primary)) R"
    by (rule discover_steps [OF d t prepared_facts(1) [OF P] gone]) (use retry in blast)
  have "dp_primary plan = Some primary" using P by (simp add: prepared_on_def)
  then show ?thesis
    unfolding verify_candidates_def
    by (intro steps_seq [OF step]) (use steps_require in \<open>auto simp: path_eq_def require_def steps_ret\<close>)
qed

end
