(* ===== verification/Deletion_Finish.thy ===== *)
theory Deletion_Finish
  imports Deletion_Resume
begin

text \<open>
  The undisturbed execution of a prepared manifest, with any of its files already gone, succeeds and
  leaves none of them.
\<close>

section \<open>The lock file is none of the files\<close>

lemma split_char_snoc:
  "c \<noteq> d \<Longrightarrow> \<exists>ls l. split_char d (q @ [c]) = ls @ [l @ [c]]"
proof (induction q)
  case (Cons e q)
  then obtain ls l where q: "split_char d (q @ [c]) = ls @ [l @ [c]]" by blast
  show ?case
  proof (cases "e = d")
    case True
    with q show ?thesis by (intro exI [of _ "[] # ls"]) auto
  next
    case False
    show ?thesis
    proof (cases ls)
      case Nil
      with q False show ?thesis by (intro exI [of _ "[]"] exI [of _ "e # l"]) auto
    next
      case (Cons l' ls')
      with q False show ?thesis by (intro exI [of _ "(e # l') # ls'"] exI [of _ l]) auto
    qed
  qed
qed simp

lemma last_components:
  assumes "c \<noteq> slash" and "c \<noteq> CHR ''.''"
  shows "components (q @ [c]) \<noteq> [] \<and> last (components (q @ [c])) \<noteq> [] \<and> last (last (components (q @ [c]))) = c"
proof -
  obtain ls l where "split_char slash (q @ [c]) = ls @ [l @ [c]]" using split_char_snoc assms(1) by blast
  moreover have "l @ [c] \<noteq> ''.''" using assms(2) by (cases l) auto
  ultimately have "names (q @ [c]) = filter (\<lambda>c. c \<noteq> [] \<and> c \<noteq> ''.'') ls @ [l @ [c]]" by (simp add: names_def)
  then show ?thesis by (simp add: components_def)
qed

lemma relative_names:
  assumes "valid_relative p sid"
  shows "\<not> is_absolute p" and "names p \<noteq> []" and "last (last (names p)) = CHR ''l''"
proof -
  from assms have parts: "list_all plain_part (components p)" "components p \<noteq> []"
    and name: "case name_of p of Some s \<Rightarrow> utf8 s \<and> primary_name s sid | None \<Rightarrow> False"
    by (auto simp: valid_relative_def Let_def)
  show abs: "\<not> is_absolute p"
    using parts(1) by (auto simp: components_def plain_part_def normal_def)
  with parts have comps: "components p = names p"
    by (auto simp: components_def plain_part_def normal_def split: if_splits)
  with parts(2) show "names p \<noteq> []" by simp
  from name comps obtain s where "s = last (names p)" "primary_name s sid"
    by (auto simp: name_of_def Let_def split: option.splits if_splits)
  moreover from this obtain q where "s = q @ ''_'' @ sid @ ''.jsonl''"
    by (auto simp: primary_name_def ends_with_def Let_def) (metis append_take_drop_id)
  ultimately show "last (last (names p)) = CHR ''l''" by (metis append.assoc last_appendR last_snoc list.distinct(1) append_Cons append_Nil last_ConsL last_ConsR)
qed

lemma plan_path_end:
  assumes "prepared_on d plan primary" and "plan_path plan k = Some (path, root)"
  shows "last (last (components path)) \<noteq> CHR ''k''"
proof (cases "k = Primary")
  case True
  let ?r = "da_path (dp_root plan)"
  note prim = relative_names [OF prepared_facts(3) [OF assms(1)]]
  from True assms(2) prepared_facts(4) [OF assms(1)] have "path = join_path ?r primary" by auto
  moreover have "?r \<noteq> []" using prepared_facts(1) [OF assms(1)] by auto
  ultimately have "components path = components ?r @ names primary" using prim(1) by (simp add: components_join)
  with prim show ?thesis by simp
next
  case False
  with assms obtain q where "path = q @ [CHR ''n''] \<or> path = q @ [CHR ''p''] \<or> path = q @ [CHR ''l'']"
  proof (cases k)
    case Timing
    with assms(2) have "path = join_path (da_path (dp_timings plan)) (dp_id plan @ ''.json'')"
      by (auto simp: plan_path_def timing_kind_def)
    moreover have "\<exists>q. join_path a (b @ ''.json'') = q @ [CHR ''n'']" for a b
      by (auto simp: join_path_def intro: exI [of _ "b @ ''.jso''"] exI [of _ "a @ b @ ''.jso''"] exI [of _ "a @ ''/'' @ b @ ''.jso''"])
    ultimately show ?thesis using that by metis
  qed (use assms(2) that in \<open>force simp: plan_path_def timing_kind_def split: option.splits\<close>)+
  then show ?thesis using last_components [of _ q] by (elim disjE) simp_all
qed

lemma lock_not_captured:
  assumes "prepared_on d plan primary"
  shows "components (q @ ''.lock'') \<notin> captured_files plan"
proof
  assume "components (q @ ''.lock'') \<in> captured_files plan"
  then obtain k path root where "plan_path plan k = Some (path, root)" "components (q @ ''.lock'') = components path"
    by (auto simp: captured_files_def)
  with plan_path_end [OF assms] have "last (last (components (q @ ''.lock''))) \<noteq> CHR ''k''" by metis
  moreover have "last (last (components ((q @ ''.loc'') @ [CHR ''k'']))) = CHR ''k''"
    using last_components [of "CHR ''k''" "q @ ''.loc''"] by simp
  ultimately show False by simp
qed

section \<open>The lock\<close>

lemma steps_release_on_error: "steps os R m (Inr x) R' \<Longrightarrow> steps os R (release_on_error l m) (Inr x) R'"
  by (fastforce simp: steps_def release_on_error_def)

lemma steps_release: "steps os R m r R' \<Longrightarrow> steps os R (release l m) r R'"
  by (fastforce simp: steps_def release_def removed_Cons)

lemma steps_when: "ok \<Longrightarrow> steps os R (require ok e) (Inr ()) R"
  using steps_require [of os R ok e] by simp

lemma steps_some: "m = Some x \<Longrightarrow> steps os R (need e m) (Inr x) R"
  using steps_need [of os R e m] by simp

lemma check_lock_steps:
  assumes "check_lock l root (quiet d) t = (Inr (), t')" and t: "removed t = {}" and R: "components (nl_path l) \<notin> R"
  shows "steps (quiet d) R (check_lock l root) (Inr ()) R"
proof -
  from assms(1) obtain f t1 m where look: "inspect (nl_path l) root (quiet d) t = (Inr (Some f), t1)"
      and f: "fp_identity f = nl_identity l" and m: "sees d (removed t1) (nl_path l) = Some m"
      and i: "identity_of m = nl_identity l"
    by (auto simp: check_lock_def seq_Inr held_metadata_def split: if_splits)
  from looks_removed [OF inspect_looks look] t m have "sees d R (nl_path l) = Some m"
    using R by (simp add: sees_kept)
  note held = held_metadata_steps [OF this]
  have 1: "steps (quiet d) R (inspect (nl_path l) root) (Inr (Some f)) R"
    using inspect_steps [OF look t, of R] R by simp
  have "steps (quiet d) R (if fp_identity f \<noteq> nl_identity l then fail changed
     else seq (held_metadata (nl_path l)) (\<lambda>m. require (identity_of m = nl_identity l) changed)) (Inr ()) R"
    using f by simp (rule steps_seq [OF held], rule steps_when [OF i])
  note rest = this
  show ?thesis
    unfolding check_lock_def by (rule steps_seq [OF 1], rule steps_seq [OF steps_some [OF refl]], rule rest)
qed

lemma acquire_steps:
  assumes "acquire q root (quiet d) t = (Inr l, t')" and t: "removed t = {}"
    and R: "components (q @ ''.lock'') \<notin> R"
  shows "nl_path l = q @ ''.lock''" and "steps (quiet d) R (check_lock l root) (Inr ()) R"
    and "steps (quiet d) R (acquire q root) (Inr l) R"
proof -
  let ?p = "q @ ''.lock''"
  from assms(1) obtain b t1 m where
      look: "inspect ?p root (quiet d) t = (Inr b, t1)" and m: "sees d (removed t1) ?p = Some m"
      and b: "case b of Some f \<Rightarrow> fp_identity f = identity_of m | None \<Rightarrow> True" and reg: "md_type m = Regular"
      and l: "l = \<lparr>nl_path = ?p, nl_identity = identity_of m\<rparr>"
      and lock: "check_lock l root (quiet d) (TryLock ?p Locked # Held ?p (Some m) # Held ?p (Some m) #
        LockOpen ?p True # t1) = (Inr (), t')"
    by (auto simp: acquire_def Let_def seq_Inr held_metadata_def try_lock_def removed_Cons split: lock_answer.splits)
  have t1: "removed t1 = {}" using looks_removed [OF inspect_looks look] t by simp
  show path: "nl_path l = ?p" by (simp add: l)
  show chk: "steps (quiet d) R (check_lock l root) (Inr ()) R"
    by (rule check_lock_steps [OF lock]) (use t1 R l in \<open>simp_all add: removed_Cons\<close>)
  have sees: "sees d R ?p = Some m" using m t1 R by (simp add: sees_kept)
  have 1: "steps (quiet d) R (inspect ?p root) (Inr b) R"
    using inspect_steps [OF look t, of R] R by simp
  have 2: "steps (quiet d) R (ask (\<lambda>os t. sys_lock_open os t ?p) (LockOpen ?p)) (Inr True) R"
    by (rule steps_ask) (use sees in \<open>simp_all add: removed_Cons\<close>)
  have 3: "steps (quiet d) R (try_lock ?p) (Inr ()) R"
    unfolding try_lock_def
    by (rule steps_seq [OF steps_ask [where a = Locked]]) (simp_all add: removed_Cons, rule steps_ret)
  have 4: "steps (quiet d) R (release_on_error l (seq (check_lock l root) (\<lambda>_. ret l))) (Inr l) R"
    by (intro steps_release_on_error steps_seq [OF chk] steps_ret)
  note held = held_metadata_steps [OF sees]
  show "steps (quiet d) R (acquire q root) (Inr l) R"
    unfolding acquire_def Let_def l
    by (rule steps_seq [OF 1], rule steps_seq [OF 2], rule steps_seq [OF steps_when [OF TrueI]],
        rule steps_seq [OF held], rule steps_seq [OF steps_when [OF b]], rule steps_seq [OF held],
        rule steps_seq [OF steps_when [OF reg]], rule steps_seq [OF 3], rule 4 [unfolded l])
qed

section \<open>The execution\<close>

text \<open>A lock that was taken when nothing was gone can be checked and taken whatever files are gone.\<close>

definition good_lock :: "disk \<Rightarrow> deletion_plan \<Rightarrow> native_lock \<Rightarrow> bool" where
  "good_lock d plan l \<longleftrightarrow>
     (\<forall>R. R \<subseteq> captured_files plan \<longrightarrow> steps (quiet d) R (check_lock l (dp_root plan)) (Inr ()) R)"

lemma check_all_steps:
  assumes P: "prepared_on d plan primary" and l: "good_lock d plan l" and R: "R \<subseteq> captured_files plan"
  shows "steps (quiet d) R (check_all plan (Some l)) (Inr ()) R"
proof -
  have gone: "files_gone d R" using captured_regular [OF P] R by (rule files_gone_mono)
  from P obtain t1 t1' t2 t2' where
      1: "check_anchor (dp_root plan) (quiet d) t1 = (Inr (), t1')" "removed t1 = {}"
      and 2: "check_anchor (dp_timings plan) (quiet d) t2 = (Inr (), t2')" "removed t2 = {}"
    by (auto simp: prepared_on_def)
  note 1 = check_anchor_steps [OF 1 anchor_kept [OF 1 gone]]
  note 2 = check_anchor_steps [OF 2 anchor_kept [OF 2 gone]]
  have 3: "steps (quiet d) R (check_lock l (dp_root plan)) (Inr ()) R" using l R by (simp add: good_lock_def)
  show ?thesis
    unfolding check_all_def by (rule steps_seq [OF 1], rule steps_seq [OF 2]) (simp add: 3)
qed

lemma preflight_steps:
  assumes P: "prepared_on d plan primary" and R: "R \<subseteq> captured_files plan"
  shows "steps (quiet d) R (preflight plan) (Inr ()) R"
  unfolding preflight_def
proof (rule steps_for_each)
  fix k
  show "steps (quiet d) R (preflight_kind plan k) (Inr ()) R"
  proof (cases "plan_path plan k")
    case None
    then show ?thesis by (simp add: preflight_kind_def) (rule steps_ret)
  next
    case (Some pr)
    obtain path root where pr: "plan_path plan k = Some (path, root)" using Some by (cases pr) simp
    from P pr obtain seen t t' where look: "inspect path root (quiet d) t = (Inr seen, t')" "removed t = {}"
      and cap: "captured plan k = map_option (\<lambda>f. \<lparr>pf_kind = k, pf_fingerprint = f\<rparr>) seen"
      and head: "k = Primary \<Longrightarrow> \<exists>f u u'. seen = Some f \<and> header path (dp_id plan) f (quiet d) u = (Inr (), u') \<and> removed u = {}"
      by (rule capture_cases) blast
    note 1 = inspect_steps [OF look, of R]
    show ?thesis
    proof (cases "components path \<in> R \<or> seen = None")
      case True
      then have "(if components path \<in> R then None else seen) = None" by auto
      with 1 have 1: "steps (quiet d) R (inspect path root) (Inr None) R" by simp
      show ?thesis unfolding preflight_kind_def pr option.case prod.case
        by (rule steps_seq [OF 1]) (simp, rule steps_ret)
    next
      case False
      then obtain f where f: "seen = Some f" "components path \<notin> R" by blast
      with 1 have 1: "steps (quiet d) R (inspect path root) (Inr (Some f)) R" by simp
      have "steps (quiet d) R (if k = Primary then header path (dp_id plan) f else ret ()) (Inr ()) R"
      proof (cases "k = Primary")
        case True
        with head f obtain u u' where "header path (dp_id plan) f (quiet d) u = (Inr (), u')" "removed u = {}" by auto
        from header_steps [OF this f(2)] True show ?thesis by simp
      qed (simp, rule steps_ret)
      with f cap show ?thesis unfolding preflight_kind_def pr option.case prod.case
        by (intro steps_seq [OF 1]) simp
    qed
  qed
qed

definition kind_file :: "deletion_plan \<Rightarrow> file_kind \<Rightarrow> string list set" where
  "kind_file plan k =
     {components path | f path root. captured plan k = Some f \<and> plan_path plan k = Some (path, root)}"

lemma captured_files_kinds: "captured_files plan = (\<Union>k. kind_file plan k)"
  by (auto simp: captured_files_def kind_file_def)

lemma remove_kind_steps:
  assumes P: "prepared_on d plan primary" and l: "good_lock d plan l" and R: "R \<subseteq> captured_files plan"
  shows "steps (quiet d) R (remove_kind plan (Some l) k) (Inr ()) (R \<union> kind_file plan k)"
proof (cases "captured plan k")
  case None
  then show ?thesis by (simp add: remove_kind_def kind_file_def) (rule steps_ret)
next
  case (Some f)
  with captured_path [OF P] obtain path root where pr: "plan_path plan k = Some (path, root)" by blast
  from P pr obtain seen t t' where look: "inspect path root (quiet d) t = (Inr seen, t')" "removed t = {}"
    and cap: "captured plan k = map_option (\<lambda>f. \<lparr>pf_kind = k, pf_fingerprint = f\<rparr>) seen"
    by (rule capture_cases) blast
  from Some cap have seen: "seen = Some (pf_fingerprint f)" by auto
  have kf: "kind_file plan k = {components path}" using Some pr by (auto simp: kind_file_def)
  note chk = check_all_steps [OF P l R]
  note 1 = inspect_steps [OF look, of R]
  show ?thesis
  proof (cases "components path \<in> R")
    case True
    with 1 have 1: "steps (quiet d) R (inspect path root) (Inr None) R" by simp
    have R': "R \<union> kind_file plan k = R" using True kf by auto
    show ?thesis unfolding R' remove_kind_def Some option.case
      by (rule steps_seq [OF chk], simp only: pr option.case prod.case, rule steps_seq [OF 1])
        (simp only: option.case, rule steps_ret)
  next
    case False
    with 1 seen have 1: "steps (quiet d) R (inspect path root) (Inr (Some (pf_fingerprint f))) R" by simp
    have "d_node d (components path) \<noteq> None" using captured_iff [OF P pr] Some by simp
    then have sees: "sees d R path \<noteq> None" using False by (simp add: sees_kept)
    have "steps (quiet d) R (remove_file path) (Inr ()) (insert (components path) R)"
      unfolding remove_file_def
      by (rule steps_seq [OF steps_ask [where a = Removed]]) (use sees in \<open>simp_all add: removed_Cons\<close>, rule steps_when, simp)
    note rm = this
    show ?thesis unfolding kf Un_insert_right Un_empty_right remove_kind_def Some option.case
      by (rule steps_seq [OF chk], simp only: pr option.case prod.case, rule steps_seq [OF 1])
        (simp only: option.case, rule steps_seq [OF steps_when [OF refl]], rule rm)
  qed
qed

lemma remove_all_steps:
  assumes P: "prepared_on d plan primary" and l: "good_lock d plan l" and R: "R \<subseteq> captured_files plan"
  shows "steps (quiet d) R (for_each (remove_kind plan (Some l)) ks) (Inr ())
           (R \<union> (\<Union>k \<in> set ks. kind_file plan k))"
  using R
proof (induction ks arbitrary: R)
  case Nil
  show ?case by simp (rule steps_ret)
next
  case (Cons k ks)
  have "R \<union> kind_file plan k \<subseteq> captured_files plan" using Cons.prems by (auto simp: captured_files_kinds)
  from Cons.IH [OF this] have 2: "steps (quiet d) (R \<union> kind_file plan k) (for_each (remove_kind plan (Some l)) ks) (Inr ())
      (R \<union> (\<Union>k \<in> set (k # ks). kind_file plan k))" by (simp add: Un_assoc)
  show ?case unfolding for_each.simps by (rule steps_seq [OF remove_kind_steps [OF P l Cons.prems]], rule 2)
qed

lemma gone_kind_steps:
  assumes P: "prepared_on d plan primary"
  shows "steps (quiet d) (captured_files plan) (gone_kind plan k) (Inr ()) (captured_files plan)"
proof (cases "plan_path plan k")
  case None
  then show ?thesis by (simp add: gone_kind_def) (rule steps_ret)
next
  case (Some pr)
  obtain path root where pr: "plan_path plan k = Some (path, root)" using Some by (cases pr) simp
  from P pr obtain seen t t' where look: "inspect path root (quiet d) t = (Inr seen, t')" "removed t = {}"
    and cap: "captured plan k = map_option (\<lambda>f. \<lparr>pf_kind = k, pf_fingerprint = f\<rparr>) seen"
    by (rule capture_cases) blast
  have "(if components path \<in> captured_files plan then None else seen) = None"
    using cap pr by (cases seen) (auto simp: captured_files_def)
  with inspect_steps [OF look, of "captured_files plan"]
  have 1: "steps (quiet d) (captured_files plan) (inspect path root) (Inr None) (captured_files plan)" by simp
  show ?thesis unfolding gone_kind_def pr option.case prod.case
    by (rule steps_seq [OF 1], rule steps_when) simp
qed

lemma execute_locked_steps:
  assumes P: "prepared_on d plan primary" and l: "good_lock d plan l" and R: "R \<subseteq> captured_files plan"
  shows "steps (quiet d) R (execute_locked plan (Some l)) (Inr ()) (captured_files plan)"
proof -
  let ?C = "captured_files plan"
  have rm: "steps (quiet d) R (for_each (remove_kind plan (Some l)) KINDS) (Inr ()) ?C"
    using remove_all_steps [OF P l R, of KINDS] R by (simp add: captured_files_kinds Un_absorb1)
  have gone: "steps (quiet d) ?C (for_each (gone_kind plan) KINDS) (Inr ()) ?C"
    by (rule steps_for_each) (rule gone_kind_steps [OF P])
  show ?thesis
    unfolding execute_locked_def
    by (rule steps_seq [OF check_all_steps [OF P l R]], rule steps_seq [OF verify_candidates_steps [OF P R]],
        rule steps_seq [OF preflight_steps [OF P R]], rule steps_seq [OF rm],
        rule steps_seq [OF verify_candidates_steps [OF P subset_refl]], rule steps_seq [OF gone],
        rule check_all_steps [OF P l subset_refl])
qed

section \<open>Attempts\<close>

text \<open>
  What may have happened to a prepared manifest before: attempts to execute it, the first with the lock of
  the preparation, each against a system that may answer anything, fail anything and end the attempt
  anywhere.
\<close>

inductive attempted :: "prepared_deletion \<Rightarrow> run \<Rightarrow> run \<Rightarrow> bool" for p t0 where
  prepared: "attempted p t0 t0"
| first: "attempted p t0 t \<Longrightarrow> attempted p t0 (snd (execute_prepared p os t))"
| again: "attempted p t0 t \<Longrightarrow> attempted p t0 (snd (execute (pd_plan p) os t))"

definition file_event :: "deletion_plan \<Rightarrow> event \<Rightarrow> bool" where
  "file_event plan e \<longleftrightarrow> \<not> removes e \<or> plan_removal plan e"

lemma file_events_removed:
  "list_all (file_event plan) new \<Longrightarrow> removed (new @ t) \<subseteq> removed t \<union> captured_files plan"
proof (induction new)
  case (Cons e new)
  have "insert (components p) (removed (new @ t)) \<subseteq> removed t \<union> captured_files plan" if "e = Unlink p a" for p a
  proof -
    from that Cons.prems have "components p \<in> captured_files plan"
      by (auto simp: file_event_def plan_removal_def captured_files_def)
    with Cons show ?thesis by simp
  qed
  with Cons show ?case by (auto simp: removed_Cons split: event.splits unlink_answer.splits)
qed simp

lemma execute_prepared_events: "adds (file_event (pd_plan p)) (execute_prepared p)"
  unfolding execute_prepared_def
  by (rule adds_release [OF adds_mono [OF execute_locked_events]])
    (use looks_harmless in \<open>auto simp: file_event_def\<close>)

lemma execute_file_events: "adds (file_event plan) (execute plan)"
proof (rule adds_mono [OF execute_events])
  fix e assume "execution_event plan e"
  then show "file_event plan e"
    using looks_harmless by (cases e) (auto simp: execution_event_def file_event_def)
qed

lemma attempted_removed:
  "attempted p t0 t \<Longrightarrow> removed t \<subseteq> removed t0 \<union> captured_files (pd_plan p)"
proof (induction rule: attempted.induct)
  case (first t os)
  obtain r t' where m: "execute_prepared p os t = (r, t')" by fastforce
  with execute_prepared_events obtain new where "t' = new @ t" "list_all (file_event (pd_plan p)) new" by (rule addsE)
  with file_events_removed [of "pd_plan p" new t] first.IH m show ?case by auto
next
  case (again t os)
  obtain r t' where m: "execute (pd_plan p) os t = (r, t')" by fastforce
  with execute_file_events obtain new where "t' = new @ t" "list_all (file_event (pd_plan p)) new" by (rule addsE)
  with file_events_removed [of "pd_plan p" new t] again.IH m show ?case by auto
qed simp

section \<open>Preparation under the lock\<close>

lemma settled_nearest [settled_intros]: "settled (quiet d) (nearest p cs left)"
  by (induction p cs left rule: nearest.induct) (auto intro!: settled_intros)

lemma settled_anchor_at [settled_intros]: "settled (quiet d) (anchor_at p)"
  unfolding anchor_at_def absolute_path_def anchor_identity_def Let_def by (intro settled_intros)

lemma settled_same:
  assumes "settled os m" and "m os t = (r, t1)" and "m os u = (r', u1)" and "removed t = removed u"
  shows "r = r'"
  using settledD(2) [OF assms(1,4)] assms(2,3) by simp

lemma acquire_removed:
  assumes "acquire q root os t = (r, t')"
  shows "removed t' = removed t"
proof -
  have "adds (\<lambda>e. \<not> removes e) (acquire q root)"
  proof (rule acquire_events)
    show "\<not> removes e" if "lock_event (\<lambda>p. p = q @ ''.lock'') e" for e using that by (cases e) auto
  qed (use looks_harmless in blast)
  from this assms obtain new where "t' = new @ t" "list_all (\<lambda>e. \<not> removes e) new" by (rule addsE)
  moreover have "removed (new @ t) = removed t" if "list_all (\<lambda>e. \<not> removes e) new"
    using that
  proof (induction new)
    case (Cons e new)
    then show ?case by (cases e) (auto simp: removed_Cons)
  qed simp
  ultimately show ?thesis by simp
qed

lemma prepare_locked_facts:
  assumes "prepare_locked root sid timings (quiet d) [] = (Inr p, t)"
  shows "removed t = {}"
    and "\<exists>primary u u'. prepared_on d (pd_plan p) primary \<and> removed u = {} \<and>
      acquire (join_path (da_path (dp_root (pd_plan p))) primary) (dp_root (pd_plan p)) (quiet d) u = (Inr (pd_lock p), u')"
proof -
  from assms obtain rt t1 primary t2 l t3 t4 plan t5 where
      root: "anchor_at root (quiet d) [] = (Inr rt, t1)"
    and found: "discover rt sid [] (quiet d) t1 = (Inr (Some primary), t2)"
    and acq: "acquire (join_path (da_path rt) primary) rt (quiet d) t2 = (Inr l, t3)"
    and chk: "check_anchor rt (quiet d) t3 = (Inr (), t4)"
    and prep: "prepare root sid timings (quiet d) t4 = (Inr plan, t5)"
    and lock: "check_lock l (dp_root plan) (quiet d) t5 = (Inr (), t)"
    and p: "p = \<lparr>pd_plan = plan, pd_lock = l\<rparr>"
    by (auto simp: prepare_locked_def seq_Inr)
  have t1: "removed t1 = {}" using looks_removed [OF anchor_at_looks root] by simp
  have t2: "removed t2 = {}" using looks_removed [OF discover_looks found] t1 by simp
  have t3: "removed t3 = {}" using acquire_removed [OF acq] t2 by simp
  have t4: "removed t4 = {}" using looks_removed [OF check_anchor_looks chk] t3 by simp
  have t5: "removed t5 = {}" using looks_removed [OF prepare_looks prep] t4 by simp
  show "removed t = {}" using looks_removed [OF check_lock_looks lock] t5 by simp
  from prepare_prepared [OF prep t4] obtain primary' where P: "prepared_on d plan primary'" and sid: "dp_id plan = sid" by blast
  from prep obtain rt' u where root': "anchor_at root (quiet d) t4 = (Inr rt', u)" and rt': "dp_root plan = rt'"
    by (auto simp: prepare_def Let_def seq_Inr)
  from settled_same [OF settled_anchor_at root root'] t4 rt' have rt: "dp_root plan = rt" by simp
  from P sid rt obtain v v' where found': "discover rt sid [] (quiet d) v = (Inr (Some primary'), v')" "removed v = {}"
    by (auto simp: prepared_on_def)
  have "steps (quiet d) {} (discover rt sid []) (Inr (Some primary)) {}"
    using discover_steps [OF found t1, of "{}" "[]"] prepared_facts(1) [OF P] rt by (simp add: files_gone_def)
  from steps_result [OF this found'] have "primary' = primary" by simp
  with P acq t2 rt p show "\<exists>primary u u'. prepared_on d (pd_plan p) primary \<and> removed u = {} \<and>
      acquire (join_path (da_path (dp_root (pd_plan p))) primary) (dp_root (pd_plan p)) (quiet d) u = (Inr (pd_lock p), u')"
    by auto
qed

section \<open>The retry\<close>

lemma execute_steps:
  assumes P: "prepared_on d plan primary" and R: "R \<subseteq> captured_files plan"
    and acq: "acquire (join_path (da_path (dp_root plan)) primary) (dp_root plan) (quiet d) u = (Inr l, u')"
    and u: "removed u = {}"
  shows "steps (quiet d) R (execute plan) (Inr ()) (captured_files plan)"
proof -
  let ?q = "join_path (da_path (dp_root plan)) primary"
  have free: "components (?q @ ''.lock'') \<notin> R" if "R \<subseteq> captured_files plan" for R
    using lock_not_captured [OF P] that by blast
  have l: "good_lock d plan l"
    unfolding good_lock_def using acquire_steps(2) [OF acq u free] by blast
  note 3 = acquire_steps(3) [OF acq u free [OF R]]
  have gone: "files_gone d R" using captured_regular [OF P] R by (rule files_gone_mono)
  from P obtain t1 t1' t2 t2' where
      1: "check_anchor (dp_root plan) (quiet d) t1 = (Inr (), t1')" "removed t1 = {}"
      and 2: "check_anchor (dp_timings plan) (quiet d) t2 = (Inr (), t2')" "removed t2 = {}"
    by (auto simp: prepared_on_def)
  note 1 = check_anchor_steps [OF 1 anchor_kept [OF 1 gone]]
  note 2 = check_anchor_steps [OF 2 anchor_kept [OF 2 gone]]
  have prim: "dp_primary plan = Some primary" and valid: "validate_plan (d_hyphenated d) plan (dp_id plan) = Inr ()"
    using P by (auto simp: prepared_on_def)
  show ?thesis
    unfolding execute_def prim option.case
    by (rule steps_seq [OF steps_know], rule steps_seq [OF steps_when], simp add: valid,
        rule steps_seq [OF 1], rule steps_seq [OF 2], rule steps_seq [OF 3],
        rule steps_release [OF execute_locked_steps [OF P l R]])
qed

end
