(* ===== verification/Deletion_Claims.thy ===== *)
theory Deletion_Claims
  imports Deletion_Finish
begin

text \<open>
  The claims about deletions, with a small disk on which they are seen at work.
\<close>

section \<open>The claims\<close>

text \<open>
  C31. A deletion takes only what it captured: whatever the system answers and other programs do, every
  file that an execution of a persisted manifest removes is one of the manifest's own. At that moment the
  two events before have shown it as a regular file with the captured fingerprint, reached without a link
  that leaves its directory; the lock of the native host was taken before and is still held; and every
  file of the manifest has been seen either gone or as captured. Beside this, the execution only looks and
  touches the lock file. It succeeds only when every file the manifest could name, captured or not,
  was seen gone after the last removal.
\<close>

theorem deletion_removes_only_captured:
  assumes "execute plan os [] = (result, t)"
  shows "(\<forall>t1 t2 path a. t = t2 @ Unlink path a # t1 \<longrightarrow> may_remove plan path t1) \<and>
         list_all (execution_event plan) t \<and>
         (result = Inr () \<longrightarrow> (\<forall>k path root. plan_path plan k = Some (path, root) \<longrightarrow>
            Stat path Absent \<in> set (since_removal t)))"
proof -
  have "removals_justified plan t \<and> (result = Inr () \<longrightarrow> (\<forall>k. seen_gone plan t k))"
    using tripleD [OF triple_execute [of os plan], of "[]"] assms
    by (cases result) (auto simp: untouched_def)
  moreover have "list_all (execution_event plan) t"
    using addsE [OF execute_events assms] by auto
  ultimately show ?thesis by (auto simp: seen_gone_def intro: removals_justified_at)
qed


section \<open>A disk\<close>

text \<open>A session \<open>u\<close> with a history below \<open>/r\<close>, its lock, and timings below \<open>/t\<close>.\<close>

definition sample_stat :: "file_type \<Rightarrow> u64 \<Rightarrow> metadata" where
  "sample_stat ty inode =
     \<lparr>md_type = ty, md_len = 3, md_modified = None, md_created = None, md_dev = 0, md_ino = inode\<rparr>"

definition sample_disk :: disk where
  "sample_disk = \<lparr>
     d_node = (\<lambda>cs. map_of [
       ([''/''], sample_stat Directory 1), ([''/'', ''r''], sample_stat Directory 2),
       ([''/'', ''r'', ''s_u.jsonl''], sample_stat Regular 3),
       ([''/'', ''r'', ''s_u.jsonl.lock''], sample_stat Regular 4)] cs),
     d_bytes = (\<lambda>cs. [CHR ''h'', NL, CHR ''x'']),
     d_names = (\<lambda>cs. if cs = [''/'', ''r''] then [''s_u.jsonl''] else []),
     d_cwd = None,
     d_hyphenated = Some,
     d_json = (\<lambda>s. if s = [CHR ''h'', NL]
       then Some (JObj [(''kind'', JStr ''header''), (''version'', JUint 4), (''id'', JStr ''u'')]) else None)\<rparr>"

definition sample_root :: directory_anchor where
  "sample_root = \<lparr>da_path = ''/r'', da_identity = Some (identity_of (sample_stat Directory 2))\<rparr>"

definition sample_timings :: directory_anchor where
  "sample_timings = \<lparr>da_path = ''/t'', da_identity = None\<rparr>"

definition sample_plan :: deletion_plan where
  "sample_plan = \<lparr>dp_version = 1, dp_id = ''u'', dp_root = sample_root, dp_timings = sample_timings,
     dp_primary = Some ''s_u.jsonl'',
     dp_files = [\<lparr>pf_kind = Primary, pf_fingerprint = fingerprint_of (sample_stat Regular 3)\<rparr>]\<rparr>"

definition sample_lock :: native_lock where
  "sample_lock = \<lparr>nl_path = ''/r/s_u.jsonl.lock'', nl_identity = identity_of (sample_stat Regular 4)\<rparr>"

text \<open>Each step of the preparation, evaluated from no events at all.\<close>

lemma sample_runs:
  "fst (anchor_at ''/r'' (quiet sample_disk) []) = Inr sample_root"
  "fst (anchor_at ''/t'' (quiet sample_disk) []) = Inr sample_timings"
  "fst (check_anchor sample_root (quiet sample_disk) []) = Inr ()"
  "fst (check_anchor sample_timings (quiet sample_disk) []) = Inr ()"
  by code_simp+

lemma sample_discover: "fst (discover sample_root ''u'' [] (quiet sample_disk) []) = Inr (Some ''s_u.jsonl'')"
  by code_simp

lemma sample_acquire: "fst (acquire ''/r/s_u.jsonl'' sample_root (quiet sample_disk) []) = Inr sample_lock"
  by code_simp

lemma sample_captured:
  "fst (capture_files (sample_plan\<lparr>dp_files := []\<rparr>) ''u'' KINDS [] (quiet sample_disk) []) = Inr (dp_files sample_plan)"
  by code_simp

lemma sample_valid: "validate_plan Some sample_plan ''u'' = Inr ()"
  by code_simp

section \<open>The claims on the disk\<close>

lemma settled_capture_files [settled_intros]: "settled (quiet d) (capture_files plan sid ks files)"
proof -
  have "settled (quiet d) (header p sid f)" for p f
    by (rule settledI [OF header_looks]) (rule header_same, simp)
  then show ?thesis by (induction ks arbitrary: files) (auto intro!: settled_intros)
qed

lemma first_steps:
  assumes "settled os m" and "fst (m os []) = r"
  shows "steps os {} m r {}"
  using settled_steps [OF assms(1), of "[]" r "snd (m os [])"] assms(2) by (metis prod.collapse removed.simps(1))

lemma sample_steps:
  "steps (quiet sample_disk) {} (anchor_at ''/r'') (Inr sample_root) {}"
  "steps (quiet sample_disk) {} (anchor_at ''/t'') (Inr sample_timings) {}"
  "steps (quiet sample_disk) {} (check_anchor sample_root) (Inr ()) {}"
  "steps (quiet sample_disk) {} (check_anchor sample_timings) (Inr ()) {}"
  "steps (quiet sample_disk) {} (capture_files (sample_plan\<lparr>dp_files := []\<rparr>) ''u'' KINDS []) (Inr (dp_files sample_plan)) {}"
  by (rule first_steps, rule settled_intros, rule sample_runs sample_captured)+

lemma sample_discover_steps:
  "steps (quiet sample_disk) {} (discover sample_root ''u'' []) (Inr (Some ''s_u.jsonl'')) {}"
proof -
  obtain t where "discover sample_root ''u'' [] (quiet sample_disk) [] = (Inr (Some ''s_u.jsonl''), t)"
    using sample_discover by (metis prod.collapse)
  from discover_steps [OF this, of "{}" "[]"] show ?thesis
    by (simp add: sample_root_def files_gone_def is_absolute_def)
qed

lemma sample_lock_steps:
  "steps (quiet sample_disk) {} (acquire ''/r/s_u.jsonl'' sample_root) (Inr sample_lock) {}"
  "steps (quiet sample_disk) {} (check_lock sample_lock sample_root) (Inr ()) {}"
proof -
  obtain t where "acquire ''/r/s_u.jsonl'' sample_root (quiet sample_disk) [] = (Inr sample_lock, t)"
    using sample_acquire by (metis prod.collapse)
  from acquire_steps(3,2) [OF this, of "{}"]
  show "steps (quiet sample_disk) {} (acquire ''/r/s_u.jsonl'' sample_root) (Inr sample_lock) {}"
    "steps (quiet sample_disk) {} (check_lock sample_lock sample_root) (Inr ()) {}" by simp_all
qed

lemma sample_hyphenated: "d_hyphenated sample_disk = Some"
  by (simp add: sample_disk_def)

lemma sample_prepare: "steps (quiet sample_disk) {} (prepare ''/r'' ''u'' ''/t'') (Inr sample_plan) {}"
proof -
  have plan: "\<lparr>dp_version = 1, dp_id = ''u'', dp_root = sample_root, dp_timings = sample_timings,
      dp_primary = Some ''s_u.jsonl'', dp_files = []\<rparr> = sample_plan\<lparr>dp_files := []\<rparr>"
    by (simp add: sample_plan_def)
  have same: "sample_plan\<lparr>dp_files := [], dp_files := dp_files sample_plan\<rparr> = sample_plan"
    "dp_root sample_plan = sample_root" "dp_timings sample_plan = sample_timings"
    by (simp_all add: sample_plan_def)
  show ?thesis
    unfolding prepare_def Let_def
    by (rule steps_seq [OF steps_know], rule steps_seq [OF steps_when], simp add: sample_hyphenated canonical_id_def,
        rule steps_seq [OF sample_steps(1)], rule steps_seq [OF sample_steps(2)], rule steps_seq [OF sample_discover_steps],
        rule steps_seq [OF steps_some [OF refl]], unfold plan, rule steps_seq [OF sample_steps(5)],
        unfold same, rule steps_seq [OF sample_steps(3)], rule steps_seq [OF sample_steps(4)],
        rule steps_seq [OF steps_when], simp add: sample_hyphenated sample_valid, rule steps_ret)
qed

definition sample_prepared :: prepared_deletion where
  "sample_prepared = \<lparr>pd_plan = sample_plan, pd_lock = sample_lock\<rparr>"

lemma sample_prepare_locked:
  "steps (quiet sample_disk) {} (prepare_locked ''/r'' ''u'' ''/t'') (Inr sample_prepared) {}"
proof -
  have path: "join_path (da_path sample_root) ''s_u.jsonl'' = ''/r/s_u.jsonl''"
    by (simp add: sample_root_def join_path_def)
  have same: "rel_option path_eq (dp_primary sample_plan) (Some ''s_u.jsonl'') \<and>
      path_eq (da_path (dp_root sample_plan)) (da_path sample_root)"
    by (simp add: sample_plan_def path_eq_def)
  have root: "dp_root sample_plan = sample_root" by (simp add: sample_plan_def)
  have inner: "steps (quiet sample_disk) {} (seq (check_anchor sample_root) (\<lambda>_.
       seq (prepare ''/r'' ''u'' ''/t'') (\<lambda>plan.
       seq (require (rel_option path_eq (dp_primary plan) (Some ''s_u.jsonl'') \<and>
                     path_eq (da_path (dp_root plan)) (da_path sample_root)) changed) (\<lambda>_.
       seq (check_lock sample_lock (dp_root plan)) (\<lambda>_.
       ret \<lparr>pd_plan = plan, pd_lock = sample_lock\<rparr>))))) (Inr sample_prepared) {}"
    unfolding sample_prepared_def
    by (rule steps_seq [OF sample_steps(3)], rule steps_seq [OF sample_prepare], rule steps_seq [OF steps_when [OF same]],
        unfold root, rule steps_seq [OF sample_lock_steps(2)], rule steps_ret)
  show ?thesis
    unfolding prepare_locked_def
    by (rule steps_seq [OF steps_know], rule steps_seq [OF steps_when], simp add: sample_hyphenated canonical_id_def,
        rule steps_seq [OF sample_steps(1)], rule steps_seq [OF sample_discover_steps],
        rule steps_seq [OF steps_some [OF refl]], unfold path, rule steps_seq [OF sample_lock_steps(1)],
        rule steps_release_on_error [OF inner])
qed

lemma removed_Unlink: "cs \<in> removed t \<Longrightarrow> \<exists>path t1 t2. t = t2 @ Unlink path Removed # t1"
proof (induction t)
  case (Cons e t)
  show ?case
  proof (cases "\<exists>path. e = Unlink path Removed")
    case True
    then show ?thesis by (metis append_Nil)
  next
    case False
    with Cons.prems have "cs \<in> removed t" by (auto simp: removed_Cons split: event.splits unlink_answer.splits)
    with Cons.IH show ?thesis by (metis append_Cons)
  qed
qed simp

lemma sample_run: "\<exists>t0. prepare_locked ''/r'' ''u'' ''/t'' (quiet sample_disk) [] = (Inr sample_prepared, t0)"
  using steps_run [OF sample_prepare_locked, of "[]"] by auto

lemma sample_execution:
  "\<exists>t. execute sample_plan (quiet sample_disk) [] = (Inr (), t) \<and> removed t = captured_files sample_plan"
proof -
  have plan: "pd_plan sample_prepared = sample_plan" by (simp add: sample_prepared_def)
  from sample_run obtain t0 where "prepare_locked ''/r'' ''u'' ''/t'' (quiet sample_disk) [] = (Inr sample_prepared, t0)" ..
  from prepare_locked_facts(2) [OF this] obtain primary u u' where
      "prepared_on sample_disk sample_plan primary" "removed u = {}"
      "acquire (join_path (da_path (dp_root sample_plan)) primary) (dp_root sample_plan) (quiet sample_disk) u
        = (Inr (pd_lock sample_prepared), u')" unfolding plan by blast
  from steps_run [OF execute_steps [OF this(1) empty_subsetI this(3,2)], of "[]"] show ?thesis by auto
qed

theorem deletion_removes_only_captured_witness:
  "\<exists>t t1 t2 path. execute sample_plan (quiet sample_disk) [] = (Inr (), t) \<and>
     t = t2 @ Unlink path Removed # t1 \<and> may_remove sample_plan path t1"
proof -
  from sample_execution obtain t where run: "execute sample_plan (quiet sample_disk) [] = (Inr (), t)"
    and gone: "removed t = captured_files sample_plan" by blast
  have "components ''/r/s_u.jsonl'' \<in> captured_files sample_plan"
    unfolding captured_files_def
    by (intro CollectI exI [of _ Primary] exI conjI)
      (auto simp: captured_def sample_plan_def sample_root_def plan_path_def timing_kind_def join_path_def)
  with gone removed_Unlink obtain path t1 t2 where t: "t = t2 @ Unlink path Removed # t1" by metis
  with deletion_removes_only_captured [OF run] have "may_remove sample_plan path t1" by blast
  with run t show ?thesis by blast
qed


end
